(* ===== verification/LjPrelude.thy ===== *)
theory LjPrelude
  imports Main "HOL-Library.Word" "HOL-Library.Signed_Division" "HOL-Library.Code_Target_Nat"
begin

text \<open>
  Shared vocabulary of the development: the machine integer types the C code uses, the bit
  helpers of \<^verbatim>\<open>lj_def.h\<close> (\<open>lj_fls\<close>, \<open>lj_ffs\<close>, \<open>lj_rol\<close>, \<open>lj_ror\<close>, \<open>lj_bswap\<close>), the
  limits, and the generic lemmas on words, lists and bounded search that the component
  theories use. Target configuration: x64, little endian, 64 bit GC references, no dual-number
  mode (\<open>LJ_GC64 = 1\<close>, \<open>LJ_FR2 = 1\<close>, \<open>LJ_DUALNUM = 0\<close>), JIT and FFI enabled.
\<close>

unbundle bit_operations_syntax

type_synonym u8 = "8 word"
type_synonym u16 = "16 word"
type_synonym u32 = "32 word"
type_synonym u64 = "64 word"
type_synonym bytes = "8 word list"

named_theorems lj_unat \<open>word arithmetic read as arithmetic on natural numbers\<close>

section \<open>Limits of \<^verbatim>\<open>lj_def.h\<close>\<close>

definition LJ_MAX_MEM32 :: nat where "LJ_MAX_MEM32 = 0x7fffff00"
definition LJ_MAX_STR :: nat where "LJ_MAX_STR = LJ_MAX_MEM32"
definition LJ_MAX_BUF :: nat where "LJ_MAX_BUF = LJ_MAX_MEM32"
definition LJ_MAX_STRTAB :: nat where "LJ_MAX_STRTAB = 2 ^ 26"
definition LJ_MAX_HBITS :: nat where "LJ_MAX_HBITS = 26"
definition LJ_MAX_ABITS :: nat where "LJ_MAX_ABITS = 28"
definition LJ_MAX_ASIZE :: nat where "LJ_MAX_ASIZE = 2 ^ (LJ_MAX_ABITS - 1) + 1"
definition LJ_MAX_COLOSIZE :: nat where "LJ_MAX_COLOSIZE = 16"
definition LJ_MIN_SBUF :: nat where "LJ_MIN_SBUF = 32"

lemmas lj_limits = LJ_MAX_MEM32_def LJ_MAX_STR_def LJ_MAX_BUF_def LJ_MAX_STRTAB_def
  LJ_MAX_HBITS_def LJ_MAX_ABITS_def LJ_MAX_ASIZE_def LJ_MAX_COLOSIZE_def LJ_MIN_SBUF_def

section \<open>Bit helpers of \<^verbatim>\<open>lj_def.h\<close>\<close>

text \<open>
  \<open>flsn n\<close> is the index of the highest set bit of a positive number; \<open>lj_fls\<close> is the macro
  \<open>__builtin_clz(x)^31\<close>, which the C code only applies to non-zero words.
\<close>

fun flsn :: "nat \<Rightarrow> nat" where
  "flsn n = (if n < 2 then 0 else Suc (flsn (n div 2)))"

declare flsn.simps [simp del]

definition lj_fls :: "u32 \<Rightarrow> nat" where
  "lj_fls x = flsn (unat x)"

definition lj_rol :: "u32 \<Rightarrow> nat \<Rightarrow> u32" where
  "lj_rol x n = (push_bit n x OR drop_bit ((32 - n) mod 32) x)"

definition lj_ror :: "u32 \<Rightarrow> nat \<Rightarrow> u32" where
  "lj_ror x n = (push_bit ((32 - n) mod 32) x OR drop_bit n x)"

definition lj_bswap :: "u32 \<Rightarrow> u32" where
  "lj_bswap x = (push_bit 24 x OR push_bit 8 (x AND 0xff00) OR (drop_bit 8 x AND 0xff00)
     OR drop_bit 24 x)"

definition lj_bswap64 :: "u64 \<Rightarrow> u64" where
  "lj_bswap64 x = (ucast (lj_bswap (ucast (drop_bit 32 x)))
     OR push_bit 32 (ucast (lj_bswap (ucast x))))"

lemma flsn_0 [simp]: "flsn 0 = 0" and flsn_1 [simp]: "flsn (Suc 0) = 0"
  by (simp_all add: flsn.simps)

lemma flsn_lower: "0 < n \<Longrightarrow> 2 ^ flsn n \<le> n"
proof (induction n rule: flsn.induct)
  case (1 n)
  show ?case
  proof (cases "n < 2")
    case True
    then show ?thesis using "1.prems" by (simp add: flsn.simps [of n])
  next
    case False
    then have "2 ^ flsn (n div 2) \<le> n div 2" using 1 by simp
    then show ?thesis using False by (simp add: flsn.simps [of n])
  qed
qed

lemma flsn_upper: "n < 2 ^ Suc (flsn n)"
proof (induction n rule: flsn.induct)
  case (1 n)
  show ?case
  proof (cases "n < 2")
    case True
    then show ?thesis by (simp add: flsn.simps [of n])
  next
    case False
    then have "n div 2 < 2 ^ Suc (flsn (n div 2))" using 1 by simp
    then show ?thesis using False by (simp add: flsn.simps [of n])
  qed
qed

lemma flsn_unique: "2 ^ k \<le> n \<Longrightarrow> n < 2 ^ Suc k \<Longrightarrow> flsn n = k"
proof -
  assume a: "2 ^ k \<le> n" "n < 2 ^ Suc k"
  then have "0 < n" using zero_less_power [of "2::nat" k] by linarith
  then have "2 ^ flsn n < (2::nat) ^ Suc k" using flsn_lower [of n] a by linarith
  then have 1: "flsn n < Suc k" by (simp only: power_strict_increasing_iff)
  have "(2::nat) ^ k < 2 ^ Suc (flsn n)" using flsn_upper [of n] a by linarith
  then have "k < Suc (flsn n)" by (simp only: power_strict_increasing_iff)
  with 1 show ?thesis by simp
qed

lemma flsn_le: "n < 2 ^ Suc k \<Longrightarrow> flsn n \<le> k"
proof (cases "n = 0")
  case False
  assume "n < 2 ^ Suc k"
  with False have "2 ^ flsn n < (2::nat) ^ Suc k" using flsn_lower [of n] by linarith
  then have "flsn n < Suc k" by (simp only: power_strict_increasing_iff)
  then show ?thesis by simp
qed simp

section \<open>Words\<close>

lemma unat_bound32 [simp]: "unat (x::u32) < 4294967296"
  using unsigned_less [of x] by simp

lemma unat_bound64 [simp]: "unat (x::u64) < 18446744073709551616"
  using unsigned_less [of x] by simp

lemma unat_of_nat32 [lj_unat]: "n < 4294967296 \<Longrightarrow> unat (of_nat n :: u32) = n"
  by (simp add: unat_of_nat)

lemma unat_of_nat64 [lj_unat]: "n < 18446744073709551616 \<Longrightarrow> unat (of_nat n :: u64) = n"
  by (simp add: unat_of_nat)

lemma unat_and_le: "unat (x AND y) \<le> unat (y :: 'a::len word)"
  using word_and_le1 [of x y] by (simp add: word_le_nat_alt)

section \<open>Lists\<close>

lemma nth_list_update_if:
  "i < length xs \<Longrightarrow> (xs[i := v]) ! j = (if i = j then v else xs ! j)"
  by (simp add: nth_list_update)

section \<open>Upward scans\<close>

text \<open>
  The C loop \<open>for (; i < n; i++) if (P(i)) ...\<close>: the first index from \<open>i\<close> on, below \<open>n\<close>,
  that satisfies \<open>P\<close>.
\<close>

function scan_up :: "(nat \<Rightarrow> bool) \<Rightarrow> nat \<Rightarrow> nat \<Rightarrow> nat option" where
  "scan_up P i n = (if i < n then if P i then Some i else scan_up P (Suc i) n else None)"
  by pat_completeness auto
termination
  by (relation "measure (\<lambda>(P, i, n). n - i)") auto

declare scan_up.simps [simp del]

lemma scan_up_Some:
  "scan_up P i n = Some j \<Longrightarrow> i \<le> j \<and> j < n \<and> P j \<and> (\<forall>k. i \<le> k \<and> k < j \<longrightarrow> \<not> P k)"
proof (induction P i n rule: scan_up.induct)
  case (1 P i n)
  show ?case
  proof (cases "i < n \<and> \<not> P i")
    case True
    with "1.prems" have "scan_up P (Suc i) n = Some j" by (simp add: scan_up.simps [of P i n])
    with "1.IH" True have "Suc i \<le> j \<and> j < n \<and> P j \<and> (\<forall>k. Suc i \<le> k \<and> k < j \<longrightarrow> \<not> P k)"
      by simp
    then show ?thesis using True by (metis Suc_leD Suc_leI le_neq_implies_less)
  next
    case False
    with "1.prems" show ?thesis by (auto simp: scan_up.simps [of P i n] split: if_splits)
  qed
qed

lemma scan_up_None: "scan_up P i n = None \<longleftrightarrow> (\<forall>k. i \<le> k \<and> k < n \<longrightarrow> \<not> P k)"
proof (induction P i n rule: scan_up.induct)
  case (1 P i n)
  show ?case
  proof (cases "i < n \<and> \<not> P i")
    case True
    then have "scan_up P i n = None \<longleftrightarrow> (\<forall>k. Suc i \<le> k \<and> k < n \<longrightarrow> \<not> P k)"
      using 1 by (simp add: scan_up.simps [of P i n])
    then show ?thesis using True by (metis Suc_leD Suc_leI le_neq_implies_less)
  next
    case False
    then show ?thesis by (auto simp: scan_up.simps [of P i n])
  qed
qed

lemma scan_up_eq_SomeI:
  assumes "i \<le> j" "j < n" "P j" "\<And>k. i \<le> k \<Longrightarrow> k < j \<Longrightarrow> \<not> P k"
  shows "scan_up P i n = Some j"
proof (cases "scan_up P i n")
  case None
  then show ?thesis using assms by (auto simp: scan_up_None)
next
  case (Some k)
  then have k: "i \<le> k" "k < n" "P k" "\<forall>l. i \<le> l \<and> l < k \<longrightarrow> \<not> P l"
    using scan_up_Some by blast+
  then have "k = j" using assms by (metis linorder_neqE_nat)
  then show ?thesis using Some by simp
qed

end
