(* ===== verification/LjObj.thy ===== *)
theory LjObj
  imports LjPrelude
begin

text \<open>
  Tagged values (\<^verbatim>\<open>lj_obj.h\<close>, \<^verbatim>\<open>lj_obj.c\<close>). A \<open>TValue\<close> is its 64 bit pattern. The 17 upper
  bits hold the type tag of everything that is not a double, the lower 47 bits a pointer or
  the payload (\<open>LJ_GC64\<close>). The type tests, getters and setters are the macros of the header,
  on words.
\<close>

type_synonym tvalue = u64
type_synonym gcref = u64

section \<open>Internal object tags\<close>

definition LJ_TNIL :: u32 where "LJ_TNIL = NOT 0"
definition LJ_TFALSE :: u32 where "LJ_TFALSE = NOT 1"
definition LJ_TTRUE :: u32 where "LJ_TTRUE = NOT 2"
definition LJ_TLIGHTUD :: u32 where "LJ_TLIGHTUD = NOT 3"
definition LJ_TSTR :: u32 where "LJ_TSTR = NOT 4"
definition LJ_TUPVAL :: u32 where "LJ_TUPVAL = NOT 5"
definition LJ_TTHREAD :: u32 where "LJ_TTHREAD = NOT 6"
definition LJ_TPROTO :: u32 where "LJ_TPROTO = NOT 7"
definition LJ_TFUNC :: u32 where "LJ_TFUNC = NOT 8"
definition LJ_TTRACE :: u32 where "LJ_TTRACE = NOT 9"
definition LJ_TCDATA :: u32 where "LJ_TCDATA = NOT 10"
definition LJ_TTAB :: u32 where "LJ_TTAB = NOT 11"
definition LJ_TUDATA :: u32 where "LJ_TUDATA = NOT 12"
definition LJ_TNUMX :: u32 where "LJ_TNUMX = NOT 13"
definition LJ_TISNUM :: u32 where "LJ_TISNUM = LJ_TNUMX"
definition LJ_TISTRUECOND :: u32 where "LJ_TISTRUECOND = LJ_TFALSE"
definition LJ_TISPRI :: u32 where "LJ_TISPRI = LJ_TTRUE"
definition LJ_TISGCV :: u32 where "LJ_TISGCV = LJ_TSTR + 1"
definition LJ_TISTABUD :: u32 where "LJ_TISTABUD = LJ_TTAB"
definition LJ_GCVMASK :: u64 where "LJ_GCVMASK = push_bit 47 1 - 1"

lemmas lj_tags = LJ_TNIL_def LJ_TFALSE_def LJ_TTRUE_def LJ_TLIGHTUD_def LJ_TSTR_def
  LJ_TUPVAL_def LJ_TTHREAD_def LJ_TPROTO_def LJ_TFUNC_def LJ_TTRACE_def LJ_TCDATA_def
  LJ_TTAB_def LJ_TUDATA_def LJ_TISNUM_def LJ_TNUMX_def LJ_TISTRUECOND_def LJ_TISPRI_def
  LJ_TISGCV_def LJ_TISTABUD_def

section \<open>Type tests\<close>

definition itype :: "tvalue \<Rightarrow> u32" where
  "itype v = ucast (signed_drop_bit 47 v)"

definition tvisnil :: "tvalue \<Rightarrow> bool" where "tvisnil v \<longleftrightarrow> v = - 1"
definition tvisfalse :: "tvalue \<Rightarrow> bool" where "tvisfalse v \<longleftrightarrow> itype v = LJ_TFALSE"
definition tvistrue :: "tvalue \<Rightarrow> bool" where "tvistrue v \<longleftrightarrow> itype v = LJ_TTRUE"
definition tvisbool :: "tvalue \<Rightarrow> bool" where "tvisbool v \<longleftrightarrow> tvisfalse v \<or> tvistrue v"
definition tvislightud :: "tvalue \<Rightarrow> bool" where "tvislightud v \<longleftrightarrow> itype v = LJ_TLIGHTUD"
definition tvisstr :: "tvalue \<Rightarrow> bool" where "tvisstr v \<longleftrightarrow> itype v = LJ_TSTR"
definition tvisfunc :: "tvalue \<Rightarrow> bool" where "tvisfunc v \<longleftrightarrow> itype v = LJ_TFUNC"
definition tvistab :: "tvalue \<Rightarrow> bool" where "tvistab v \<longleftrightarrow> itype v = LJ_TTAB"
definition tvisudata :: "tvalue \<Rightarrow> bool" where "tvisudata v \<longleftrightarrow> itype v = LJ_TUDATA"
definition tviscdata :: "tvalue \<Rightarrow> bool" where "tviscdata v \<longleftrightarrow> itype v = LJ_TCDATA"
definition tvisnumber :: "tvalue \<Rightarrow> bool" where "tvisnumber v \<longleftrightarrow> itype v \<le> LJ_TISNUM"
definition tvisnum :: "tvalue \<Rightarrow> bool" where "tvisnum v \<longleftrightarrow> itype v < LJ_TISNUM"
definition tvistruecond :: "tvalue \<Rightarrow> bool" where "tvistruecond v \<longleftrightarrow> itype v < LJ_TISTRUECOND"
definition tvispri :: "tvalue \<Rightarrow> bool" where "tvispri v \<longleftrightarrow> LJ_TISPRI \<le> itype v"
definition tvistabud :: "tvalue \<Rightarrow> bool" where "tvistabud v \<longleftrightarrow> itype v \<le> LJ_TISTABUD"
definition tvisgcv :: "tvalue \<Rightarrow> bool" where
  "tvisgcv v \<longleftrightarrow> LJ_TNUMX - LJ_TISGCV < itype v - LJ_TISGCV"

section \<open>Getters and setters\<close>

definition gcval :: "tvalue \<Rightarrow> gcref" where "gcval v = v AND LJ_GCVMASK"
definition boolV :: "tvalue \<Rightarrow> u32" where "boolV v = LJ_TFALSE - itype v"
definition itypemap :: "tvalue \<Rightarrow> u32" where
  "itypemap v = (if tvisnumber v then NOT LJ_TNUMX else NOT (itype v))"

definition niltv :: tvalue where "niltv = - 1"
definition setpriV :: "u32 \<Rightarrow> tvalue" where "setpriV x = NOT (push_bit 47 (ucast (NOT x)))"
definition setboolV :: "bool \<Rightarrow> tvalue" where
  "setboolV x = NOT (push_bit 47 (of_bool x + 1))"
definition setgcVraw :: "gcref \<Rightarrow> u32 \<Rightarrow> tvalue" where
  "setgcVraw p it = p OR push_bit 47 (ucast it)"
definition setstrV :: "gcref \<Rightarrow> tvalue" where "setstrV s = setgcVraw s LJ_TSTR"

section \<open>The type word as a number\<close>

lemma sint64: "sint (v::u64) = (if uint v < 2^63 then uint v else uint v - 2^64)"
proof -
  have b: "0 \<le> uint v" "uint v < 2 ^ 64" using uint_lt2p [of v] by simp_all
  have "bit (uint v) 63 \<longleftrightarrow> odd (uint v div 2^63)" by (simp add: bit_iff_odd)
  also have "\<dots> \<longleftrightarrow> \<not> uint v < 2^63"
    using b by (cases "uint v < 2^63")
      (auto simp: div_eq_dividend_iff int_div_pos_eq [where q = 1 and r = "uint v - 2^63"])
  finally have "bit (uint v) 63 \<longleftrightarrow> \<not> uint v < 2^63" .
  then show ?thesis
    using b by (simp add: sint_uint signed_take_bit_eq_take_bit_minus take_bit_int_eq_self)
qed

lemma itype_of_int: "itype v = word_of_int (sint v div 2 ^ 47)"
proof -
  have "uint (signed_drop_bit 47 v) = take_bit 64 (sint v div 2 ^ 47)"
    by (simp add: uint_sint sint_signed_drop_bit_eq drop_bit_eq_div)
  then have "itype v = word_of_int (take_bit 64 (sint v div 2 ^ 47))"
    by (simp add: itype_def ucast_eq)
  then show ?thesis by (simp add: word_of_int_eq_iff take_bit_take_bit)
qed

lemma itype_unat:
  "unat (itype v) = (if unat v < 2 ^ 63 then unat v div 2 ^ 47
                     else unat v div 2 ^ 47 + (2 ^ 32 - 2 ^ 17))"
proof -
  define n where "n = unat v"
  have n: "uint v = int n" "n < 2 ^ 64" by (simp_all add: n_def)
  have u: "unat (itype v) = nat ((sint v div 2 ^ 47) mod 2 ^ 32)"
    by (simp add: itype_of_int unsigned_of_int take_bit_eq_mod)
  show ?thesis
  proof (cases "n < 2 ^ 63")
    case True
    then have "int n div 2 ^ 47 < 2 ^ 32" by simp
    moreover have "sint v = int n" using True n by (simp add: sint64)
    moreover have "0 \<le> int n div 2 ^ 47" by simp
    ultimately show ?thesis using True u by (simp add: n_def nat_div_distrib)
  next
    case False
    define q where "q = int n div 2 ^ 47"
    have q: "2 ^ 16 \<le> q" "q < 2 ^ 17" using False n by (simp_all add: q_def)
    have "sint v = int n - 2 ^ 64" using False n by (simp add: sint64)
    then have "sint v div 2 ^ 47 = q - 2 ^ 17" by (simp add: q_def)
    then have "(sint v div 2 ^ 47) mod 2 ^ 32 = q + (2 ^ 32 - 2 ^ 17)"
    proof -
      have "(q - 2 ^ 17) mod 2 ^ 32 = (q - 2 ^ 17 + 2 ^ 32) mod 2 ^ 32"
        by (rule mod_add_self2 [symmetric])
      also have "\<dots> = q - 2 ^ 17 + 2 ^ 32" by (rule mod_pos_pos_trivial) (use q in simp_all)
      finally show ?thesis using \<open>sint v div 2 ^ 47 = q - 2 ^ 17\<close> by simp
    qed
    then show ?thesis using False u q by (simp add: n_def q_def nat_add_distrib nat_div_distrib)
  qed
qed

text \<open>The 17 tag bits of a value, as a number.\<close>

definition hi17 :: "tvalue \<Rightarrow> nat" where "hi17 v = unat v div 2 ^ 47"

lemma hi17_less: "hi17 v < 2 ^ 17"
  using unat_bound64 [of v] unfolding hi17_def by (simp add: less_mult_imp_div_less)

lemma unat_m1_32 [simp]: "unat (- 1 :: u32) = 4294967295"
  by (simp add: unsigned_minus_1_eq_mask mask_eq_exp_minus_1)

lemma unat_m1_64 [simp]: "unat (- 1 :: u64) = 18446744073709551615"
  by (simp add: unsigned_minus_1_eq_mask mask_eq_exp_minus_1)

lemma unat_NOT32: "unat (NOT x :: u32) = 2 ^ 32 - 1 - unat x"
proof -
  have "NOT x = - 1 - x" by (simp add: not_eq_complement)
  also have "unat \<dots> = 2 ^ 32 - 1 - unat x"
    using unat_bound32 [of x] by (subst unat_sub) (simp_all add: word_le_nat_alt del: unat_bound32)
  finally show ?thesis .
qed

lemma itype_eq_iff:
  assumes "k < 2 ^ 16"
  shows "itype v = NOT (of_nat k) \<longleftrightarrow> hi17 v = 2 ^ 17 - 1 - k"
  using assms hi17_less [of v]
  by (simp add: word_unat_eq_iff itype_unat unat_NOT32 unat_of_nat32 hi17_def) linarith

lemma itype_less_iff:
  assumes "k < 2 ^ 16"
  shows "itype v < NOT (of_nat k) \<longleftrightarrow> hi17 v < 2 ^ 17 - 1 - k"
  using assms hi17_less [of v]
  by (simp add: word_less_nat_alt itype_unat unat_NOT32 unat_of_nat32 hi17_def) linarith

lemma tvisnum_iff: "tvisnum v \<longleftrightarrow> hi17 v < 2 ^ 17 - 14"
  using itype_less_iff [of 13 v] by (simp add: tvisnum_def lj_tags)

lemma tvisstr_iff: "tvisstr v \<longleftrightarrow> hi17 v = 2 ^ 17 - 5"
  using itype_eq_iff [of 4 v] by (simp add: tvisstr_def lj_tags)

lemma tvisfalse_iff: "tvisfalse v \<longleftrightarrow> hi17 v = 2 ^ 17 - 2"
  using itype_eq_iff [of 1 v] by (simp add: tvisfalse_def lj_tags)

lemma tvistrue_iff: "tvistrue v \<longleftrightarrow> hi17 v = 2 ^ 17 - 3"
  using itype_eq_iff [of 2 v] by (simp add: tvistrue_def lj_tags)

lemma tvispri_iff: "tvispri v \<longleftrightarrow> 2 ^ 17 - 3 \<le> hi17 v"
  using itype_less_iff [of 2 v] by (auto simp: tvispri_def lj_tags not_less [symmetric])

lemma tvisnumber_iff: "tvisnumber v \<longleftrightarrow> hi17 v \<le> 2 ^ 17 - 14"
  using itype_less_iff [of 13 v] itype_eq_iff [of 13 v]
  by (auto simp: tvisnumber_def lj_tags le_less)

lemma itype_eq_hi17: "itype v = itype w \<longleftrightarrow> hi17 v = hi17 w"
proof
  assume "itype v = itype w"
  then have "unat (itype v) = unat (itype w)" by simp
  then show "hi17 v = hi17 w" using hi17_less [of v] hi17_less [of w]
    unfolding itype_unat hi17_def by (simp split: if_splits)
next
  assume h: "hi17 v = hi17 w"
  have "unat v < 2 ^ 63 \<longleftrightarrow> hi17 v < 2 ^ 16" for v by (auto simp: hi17_def div_less_iff_less_mult)
  then have "unat (itype v) = unat (itype w)"
    using h unfolding itype_unat hi17_def by simp
  then show "itype v = itype w" by (simp add: word_unat_eq_iff)
qed

lemma unat_setgcVraw:
  assumes "unat p < 2 ^ 47"
  shows "unat (setgcVraw p it) = unat p + 2 ^ 47 * (unat it mod 2 ^ 17)"
proof -
  have "p AND push_bit 47 (ucast it) = (0::u64)"
  proof (rule bit_word_eqI)
    fix n assume "n < LENGTH(64)"
    have "\<not> bit p n" if "47 \<le> n"
    proof -
      have "unat p < 2 ^ n" using assms that by (meson less_le_trans one_le_numeral power_increasing)
      then have "\<not> bit (unat p) n" by (simp add: bit_iff_odd)
      then show ?thesis by (simp add: bit_unsigned_iff)
    qed
    then show "bit (p AND push_bit 47 (ucast it)) n = bit (0::u64) n"
      by (auto simp: bit_and_iff bit_push_bit_iff)
  qed
  then have "setgcVraw p it = p + push_bit 47 (ucast it)"
    by (simp add: setgcVraw_def disjunctive_add_eq_or)
  moreover have "unat (push_bit 47 (ucast it) :: u64) = 2 ^ 47 * (unat it mod 2 ^ 17)"
  proof -
    have "unat (push_bit 47 (ucast it) :: u64) = push_bit 47 (take_bit 17 (unat it))"
      by (simp add: unsigned_push_bit_eq unsigned_ucast_eq take_bit_push_bit)
    then show ?thesis by (simp add: push_bit_eq_mult take_bit_eq_mod)
  qed
  moreover have "unat it mod 2 ^ 17 < 2 ^ 17" by simp
  ultimately show ?thesis using assms by (simp add: unat_word_ariths)
qed

lemma unat_gcval: "unat (gcval v) = unat v mod 2 ^ 47"
proof -
  have "LJ_GCVMASK = mask 47" by (simp add: LJ_GCVMASK_def mask_eq_exp_minus_1 push_bit_of_1)
  then have "gcval v = take_bit 47 v" by (simp only: gcval_def take_bit_eq_mask)
  then have "unat (gcval v) = take_bit 47 (unat v)" by (simp only: unsigned_take_bit_eq)
  then show ?thesis by (simp only: take_bit_eq_mod)
qed

lemma hi17_lo47: "unat v = 2 ^ 47 * hi17 v + unat (gcval v)"
  by (simp add: hi17_def unat_gcval)

lemma tv_eq_iff: "v = w \<longleftrightarrow> hi17 v = hi17 w \<and> gcval v = gcval w"
proof
  assume "hi17 v = hi17 w \<and> gcval v = gcval w"
  then have "unat v = unat w" using hi17_lo47 [of v] hi17_lo47 [of w] by simp
  then show "v = w" by (simp only: word_unat_eq_iff)
qed simp

lemma hi17_setgcVraw: "unat p < 2 ^ 47 \<Longrightarrow> hi17 (setgcVraw p it) = unat it mod 2 ^ 17"
  by (simp add: hi17_def unat_setgcVraw)

lemma gcval_setgcVraw: "unat p < 2 ^ 47 \<Longrightarrow> gcval (setgcVraw p it) = p"
  by (simp add: word_unat_eq_iff unat_gcval unat_setgcVraw)

lemma unat_gcval_less: "unat (gcval v) < 2 ^ 47"
  by (simp add: unat_gcval)

lemma setstrV_gcval: "tvisstr v \<Longrightarrow> setstrV (gcval v) = v"
  using unat_gcval_less [of v]
  by (subst tv_eq_iff) (simp add: setstrV_def hi17_setgcVraw gcval_setgcVraw
      tvisstr_iff LJ_TSTR_def unat_NOT32)

lemma tvisstr_setstrV: "unat p < 2 ^ 47 \<Longrightarrow> tvisstr (setstrV p)"
  by (simp add: tvisstr_iff setstrV_def hi17_setgcVraw LJ_TSTR_def unat_NOT32)

lemma gcval_setstrV: "unat p < 2 ^ 47 \<Longrightarrow> gcval (setstrV p) = p"
  by (simp add: setstrV_def gcval_setgcVraw)

section \<open>Doubles\<close>

text \<open>
  A \<open>lua_Number\<close> is an IEEE 754 double, kept as its bit pattern: sign, 11 bit exponent, 52 bit
  fraction. What the code computes with numbers here is exact: the comparison \<open>==\<close>, the
  conversion of a 32 bit integer to a double and the truncating conversion back
  (\<open>lj_num2int\<close>, which is \<open>cvttsd2si\<close> on x64 and gives the integer indefinite value
  \<open>0x80000000\<close> where the value does not fit).
\<close>

definition dbl_mag :: "tvalue \<Rightarrow> nat" where "dbl_mag v = unat v mod 2 ^ 63"
definition dbl_neg :: "tvalue \<Rightarrow> bool" where "dbl_neg v \<longleftrightarrow> 2 ^ 63 \<le> unat v"
definition dbl_exp :: "tvalue \<Rightarrow> nat" where "dbl_exp v = unat v div 2 ^ 52 mod 2 ^ 11"
definition dbl_frac :: "tvalue \<Rightarrow> nat" where "dbl_frac v = unat v mod 2 ^ 52"

definition dbl_nan :: "tvalue \<Rightarrow> bool" where "dbl_nan v \<longleftrightarrow> 0x7ff0000000000000 < dbl_mag v"

definition dbl_eq :: "tvalue \<Rightarrow> tvalue \<Rightarrow> bool" where
  "dbl_eq x y \<longleftrightarrow> \<not> dbl_nan x \<and> \<not> dbl_nan y \<and> (x = y \<or> dbl_mag x = 0 \<and> dbl_mag y = 0)"

definition tvisnan :: "tvalue \<Rightarrow> bool" where "tvisnan v \<longleftrightarrow> \<not> dbl_eq v v"
definition tvismzero :: "tvalue \<Rightarrow> bool" where "tvismzero v \<longleftrightarrow> v = 0x8000000000000000"

definition lj_num2int :: "tvalue \<Rightarrow> u32" where
  "lj_num2int v =
     (let e = dbl_exp v; m = 2 ^ 52 + dbl_frac v in
      if e < 1023 then 0
      else if e < 1023 + 31 then
        (let t = of_nat (m div 2 ^ (52 - (e - 1023))) in if dbl_neg v then - t else t)
      else 0x80000000)"

definition int2dbl :: "u32 \<Rightarrow> tvalue" where
  "int2dbl k =
     (let i = sint k; a = nat \<bar>i\<bar>; e = flsn a in
      if a = 0 then 0
      else of_nat ((if i < 0 then 2 ^ 63 else 0) + 2 ^ 52 * (1023 + e) + (a - 2 ^ e) * 2 ^ (52 - e)))"

definition setintV :: "u32 \<Rightarrow> tvalue" where "setintV i = int2dbl i"

section \<open>Raw equality\<close>

definition lj_obj_equal :: "tvalue \<Rightarrow> tvalue \<Rightarrow> bool" where
  "lj_obj_equal o1 o2 =
     (if itype o1 = itype o2 then
        if tvispri o1 then True
        else if \<not> tvisnum o1 then o1 = o2
        else dbl_eq o1 o2
      else if \<not> tvisnumber o1 \<or> \<not> tvisnumber o2 then False
      else dbl_eq o1 o2)"

lemma sint32: "sint (v::u32) = (if uint v < 2^31 then uint v else uint v - 2^32)"
proof -
  have b: "0 \<le> uint v" "uint v < 2 ^ 32" using uint_lt2p [of v] by simp_all
  have "bit (uint v) 31 \<longleftrightarrow> odd (uint v div 2^31)" by (simp add: bit_iff_odd)
  also have "\<dots> \<longleftrightarrow> \<not> uint v < 2^31"
    using b by (cases "uint v < 2^31")
      (auto simp: div_eq_dividend_iff int_div_pos_eq [where q = 1 and r = "uint v - 2^31"])
  finally have "bit (uint v) 31 \<longleftrightarrow> \<not> uint v < 2^31" .
  then show ?thesis
    using b by (simp add: sint_uint signed_take_bit_eq_take_bit_minus take_bit_int_eq_self)
qed

lemma sint32_bounds: "- (2 ^ 31) \<le> sint (k::u32)" "sint k < 2 ^ 31"
  using sint_lt [of k] sint_ge [of k] by simp_all

lemma sint32_0: "sint (k::u32) = 0 \<longleftrightarrow> k = 0"
proof
  assume "sint k = 0"
  then have "uint k = 0" using uint_lt2p [of k] by (simp add: sint32 split: if_splits)
  then show "k = 0" by (simp add: uint_0_iff)
qed simp

lemma dbl_unpack:
  assumes "unat v = of_bool s * 2 ^ 63 + 2 ^ 52 * e + m" "e < 2 ^ 11" "m < 2 ^ 52"
  shows "dbl_exp v = e" "dbl_frac v = m" "dbl_neg v \<longleftrightarrow> s" "dbl_mag v = 2 ^ 52 * e + m"
proof -
  have u: "unat v = m + 2 ^ 52 * (e + of_bool s * 2 ^ 11)" using assms(1) by simp
  have "unat v div 2 ^ 52 = e + of_bool s * 2 ^ 11"
    unfolding u using assms(3) by (subst div_mult_self2) simp_all
  then show "dbl_exp v = e" using assms(2) by (cases s) (simp_all add: dbl_exp_def)
  show "dbl_frac v = m" using assms(3) unfolding dbl_frac_def u by (subst mod_mult_self2) simp
  have b: "2 ^ 52 * e + m < 2 ^ 63" using assms(2,3) by simp
  then show "dbl_neg v \<longleftrightarrow> s" by (cases s) (simp_all add: dbl_neg_def assms(1))
  have "unat v = (2 ^ 52 * e + m) + 2 ^ 63 * of_bool s" using assms(1) by simp
  then have "dbl_mag v = (2 ^ 52 * e + m) mod 2 ^ 63"
    unfolding dbl_mag_def by (simp only: mod_mult_self2)
  then show "dbl_mag v = 2 ^ 52 * e + m" using b by simp
qed

lemma int2dbl_fields:
  assumes "a = nat \<bar>sint k\<bar>" "a \<noteq> 0" "e = flsn a"
  shows "unat (int2dbl k) = of_bool (sint k < 0) * 2 ^ 63 + 2 ^ 52 * (1023 + e) + (a - 2 ^ e) * 2 ^ (52 - e)"
    and "(a - 2 ^ e) * 2 ^ (52 - e) < 2 ^ 52" and "e \<le> 31" and "e = 31 \<Longrightarrow> k = 0x80000000"
proof -
  have s: "- (2 ^ 31) \<le> sint k" "sint k < 2 ^ 31" by (rule sint32_bounds)+
  then have a: "a \<le> 2 ^ 31" using assms(1) by simp
  have "0 < a" using assms(2) by simp
  then have l: "2 ^ e \<le> a" "a < 2 ^ Suc e" using flsn_lower flsn_upper assms(3) by simp_all
  have e: "e \<le> 31" using flsn_le [of a 31] a assms(3) by simp
  then show "e \<le> 31" .
  have "(a - 2 ^ e) * 2 ^ (52 - e) < 2 ^ e * 2 ^ (52 - e)" using l by simp
  also have "\<dots> = (2::nat) ^ 52" using e by (simp add: power_add [symmetric])
  finally show m: "(a - 2 ^ e) * 2 ^ (52 - e) < 2 ^ 52" .
  define N where "N = of_bool (sint k < 0) * 2 ^ 63 + 2 ^ 52 * (1023 + e) + (a - 2 ^ e) * 2 ^ (52 - e)"
  have "N < 2 ^ 64" using e m by (simp add: N_def)
  then have "unat (of_nat N :: u64) = N" by (simp add: unat_of_nat64)
  moreover have "int2dbl k = of_nat N"
    using assms by (auto simp: int2dbl_def Let_def N_def)
  ultimately show "unat (int2dbl k) = of_bool (sint k < 0) * 2 ^ 63 + 2 ^ 52 * (1023 + e) + (a - 2 ^ e) * 2 ^ (52 - e)"
    by (simp add: N_def)
  show "k = 0x80000000" if "e = 31"
  proof -
    have "a = 2 ^ 31" using l a that by simp
    then have "nat \<bar>sint k\<bar> = 2 ^ 31" using assms(1) by simp
    then have "\<bar>sint k\<bar> = 2 ^ 31" by simp
    then have "sint k = - (2 ^ 31)" using s by linarith
    moreover have "k = word_of_int (sint k)" by simp
    ultimately have "k = word_of_int (- (2 ^ 31))" by (simp only:)
    also have "\<dots> = 0x80000000" by (simp add: word_eq_iff_unsigned)
    finally show ?thesis .
  qed
qed

lemma int2dbl_0: "sint k = 0 \<Longrightarrow> int2dbl k = 0"
  by (simp add: int2dbl_def)

lemma lj_num2int_int2dbl [simp]: "lj_num2int (int2dbl k) = k"
proof (cases "sint k = 0")
  case True
  then have "k = 0" by (simp add: sint32_0)
  then show ?thesis by (simp add: int2dbl_def lj_num2int_def dbl_exp_def Let_def)
next
  case False
  define a e where "a = nat \<bar>sint k\<bar>" and "e = flsn a"
  have a0: "a \<noteq> 0" using False by (simp add: a_def)
  note f = int2dbl_fields [OF a_def a0 e_def]
  define m where "m = (a - 2 ^ e) * 2 ^ (52 - e)"
  have "unat (int2dbl k) = of_bool (sint k < 0) * 2 ^ 63 + 2 ^ 52 * (1023 + e) + m"
    "1023 + e < 2 ^ 11" "m < 2 ^ 52" using f by (simp_all add: m_def)
  note u = dbl_unpack [OF this]
  have l: "2 ^ e \<le> a" using a0 flsn_lower by (simp add: e_def)
  have "2 ^ 52 = (2::nat) ^ e * 2 ^ (52 - e)" using f(3) by (simp add: power_add [symmetric])
  moreover obtain d where "a = 2 ^ e + d" using l le_Suc_ex by blast
  ultimately have "2 ^ 52 + m = a * 2 ^ (52 - e)"
    by (simp only: m_def add_mult_distrib add_diff_cancel_left')
  then have dv: "(2 ^ 52 + m) div 2 ^ (52 - e) = a" by simp
  show ?thesis
  proof (cases "e = 31")
    case True
    then show ?thesis using f(4) u(1) by (simp add: lj_num2int_def Let_def)
  next
    case e31: False
    then have "e < 31" using f(3) by simp
    then have "lj_num2int (int2dbl k) = (if sint k < 0 then - of_nat a else of_nat a)"
      using dv by (simp add: lj_num2int_def u Let_def)
    also have "\<dots> = k" using False by (auto simp: a_def)
    finally show ?thesis .
  qed
qed

lemma int2dbl_inj: "int2dbl j = int2dbl k \<longleftrightarrow> j = k"
  by (metis lj_num2int_int2dbl)

lemma int2dbl_mag: "dbl_mag (int2dbl k) < 2 ^ 52 * (1023 + 32)" and
  int2dbl_mag0: "dbl_mag (int2dbl k) = 0 \<longleftrightarrow> k = 0"
proof -
  have "dbl_mag (int2dbl k) < 2 ^ 52 * (1023 + 32) \<and> (dbl_mag (int2dbl k) = 0 \<longleftrightarrow> k = 0)"
  proof (cases "sint k = 0")
    case True
    then show ?thesis by (simp add: int2dbl_0 dbl_mag_def sint32_0)
  next
    case False
    define a e where "a = nat \<bar>sint k\<bar>" and "e = flsn a"
    have a0: "a \<noteq> 0" using False by (simp add: a_def)
    note f = int2dbl_fields [OF a_def a0 e_def]
    have "dbl_mag (int2dbl k) = 2 ^ 52 * (1023 + e) + (a - 2 ^ e) * 2 ^ (52 - e)"
      by (rule dbl_unpack(4) [OF f(1) _ f(2)]) (use f(3) in simp)
    then show ?thesis using False f(2,3) by auto
  qed
  then show "dbl_mag (int2dbl k) < 2 ^ 52 * (1023 + 32)" "dbl_mag (int2dbl k) = 0 \<longleftrightarrow> k = 0"
    by auto
qed

end
