(* ===== verification/LjTab.thy ===== *)
theory LjTab
  imports LjObj
begin

text \<open>
  Lua tables (\<^verbatim>\<open>lj_tab.c\<close>, \<^verbatim>\<open>lj_tab.h\<close>): an array part for the keys \<open>0 .. asize-1\<close> and a hash
  part, a power-of-two node array with collision chains linked through \<open>next\<close> and inserted
  into with Brent's variation. Pointers into the node array are indices into the list of
  nodes. A \<open>TValue *\<close> returned by a setter is the slot it points to. The \<open>sid\<close> argument of the
  functions that hash string keys reads the string ID field of a string object.
\<close>

section \<open>State\<close>

record node =
  n_val :: tvalue
  n_key :: tvalue
  n_next :: "nat option"

record gctab =
  t_marked :: u8
  t_nomm :: u8
  t_colo :: u8
  t_metatable :: gcref
  t_array :: "tvalue list"
  t_asize :: u32
  t_node :: "node list"
  t_hmask :: u32
  t_freetop :: nat

datatype slot = ArraySlot nat | NodeSlot nat

text \<open>
  Errors thrown by the table code (\<^verbatim>\<open>lj_errmsg.h\<close>), and three outcomes the C code does not
  report: a walk through a \<open>NULL\<close> pointer, a chain walk that does not end, and a rehash nested
  deeper than the model follows. The theorems below show that none of the three occurs.
\<close>

datatype tab_err = LJ_ERR_TABOV | LJ_ERR_NANIDX | LJ_ERR_NILIDX | LJ_ERR_NEXTIDX
  | TAB_NULLPTR | TAB_NOEND | TAB_NESTED

definition nilnode :: node where
  "nilnode = \<lparr>n_val = niltv, n_key = niltv, n_next = None\<rparr>"

definition slot_get :: "gctab \<Rightarrow> slot \<Rightarrow> tvalue" where
  "slot_get t s = (case s of ArraySlot i \<Rightarrow> t_array t ! i | NodeSlot i \<Rightarrow> n_val (t_node t ! i))"

definition slot_put :: "gctab \<Rightarrow> slot \<Rightarrow> tvalue \<Rightarrow> gctab" where
  "slot_put t s v = (case s of
     ArraySlot i \<Rightarrow> t\<lparr>t_array := (t_array t)[i := v]\<rparr>
   | NodeSlot i \<Rightarrow> t\<lparr>t_node := (t_node t)[i := (t_node t ! i)\<lparr>n_val := v\<rparr>]\<rparr>)"

definition set_next :: "node list \<Rightarrow> nat \<Rightarrow> nat option \<Rightarrow> node list" where
  "set_next ns i x = ns[i := (ns ! i)\<lparr>n_next := x\<rparr>]"

section \<open>Object hashing\<close>

definition hashrot :: "u32 \<Rightarrow> u32 \<Rightarrow> u32" where
  "hashrot lo hi =
     (let lo = lo XOR hi; hi = lj_rol hi 14;
          lo = lo - hi; hi = lj_rol hi 5;
          hi = hi XOR lo; hi = hi - lj_rol lo 13
      in hi)"

definition hsize2hbits :: "nat \<Rightarrow> nat" where
  "hsize2hbits s = (if s \<noteq> 0 then if s = 1 then 1 else 1 + flsn (s - 1) else 0)"

definition hashmask :: "gctab \<Rightarrow> u32 \<Rightarrow> nat" where
  "hashmask t h = unat (h AND t_hmask t)"

definition u32lo :: "tvalue \<Rightarrow> u32" where "u32lo v = ucast v"
definition u32hi :: "tvalue \<Rightarrow> u32" where "u32hi v = ucast (drop_bit 32 v)"

definition hashnum :: "gctab \<Rightarrow> tvalue \<Rightarrow> nat" where
  "hashnum t v = hashmask t (hashrot (u32lo v) (push_bit 1 (u32hi v)))"

definition hashgcref :: "gctab \<Rightarrow> gcref \<Rightarrow> nat" where
  "hashgcref t r = hashmask t (hashrot (ucast r) (ucast (drop_bit 32 r)))"

definition hashkey :: "(gcref \<Rightarrow> u32) \<Rightarrow> gctab \<Rightarrow> tvalue \<Rightarrow> nat" where
  "hashkey sid t key =
     (if tvisstr key then hashmask t (sid (gcval key))
      else if tvisnum key then hashnum t key
      else if tvisbool key then hashmask t (boolV key)
      else hashgcref t key)"

section \<open>Creation and clearing\<close>

definition newhpart :: "gctab \<Rightarrow> nat \<Rightarrow> tab_err + gctab" where
  "newhpart t hbits =
     (if LJ_MAX_HBITS < hbits then Inl LJ_ERR_TABOV
      else let hsize = 2 ^ hbits in
        Inr (t\<lparr>t_node := replicate hsize nilnode, t_freetop := hsize,
               t_hmask := of_nat hsize - 1\<rparr>))"

definition clearhpart :: "gctab \<Rightarrow> gctab" where
  "clearhpart t = t\<lparr>t_node := map (\<lambda>n. n\<lparr>n_next := None, n_key := niltv, n_val := niltv\<rparr>) (t_node t)\<rparr>"

definition clearapart :: "gctab \<Rightarrow> gctab" where
  "clearapart t =
     t\<lparr>t_array := replicate (unat (t_asize t)) niltv @ drop (unat (t_asize t)) (t_array t)\<rparr>"

definition emptytab :: "u8 \<Rightarrow> gctab" where
  "emptytab white = \<lparr>t_marked = white, t_nomm = NOT 0, t_colo = 0, t_metatable = 0, t_array = [],
     t_asize = 0, t_node = [nilnode], t_hmask = 0, t_freetop = 0\<rparr>"

definition newtab :: "u8 \<Rightarrow> nat \<Rightarrow> nat \<Rightarrow> tab_err + gctab" where
  "newtab white asize hbits =
     (let t = emptytab white;
          r = (if 0 < asize \<and> asize \<le> LJ_MAX_COLOSIZE then
                 Inr (t\<lparr>t_colo := of_nat asize, t_array := replicate asize niltv,
                        t_asize := of_nat asize\<rparr>)
               else if 0 < asize then
                 if LJ_MAX_ASIZE < asize then Inl LJ_ERR_TABOV
                 else Inr (t\<lparr>t_array := replicate asize niltv, t_asize := of_nat asize\<rparr>)
               else Inr t)
      in case r of Inl e \<Rightarrow> Inl e
         | Inr t \<Rightarrow> if hbits \<noteq> 0 then newhpart t hbits else Inr t)"

definition lj_tab_new :: "u8 \<Rightarrow> nat \<Rightarrow> nat \<Rightarrow> tab_err + gctab" where
  "lj_tab_new white asize hbits =
     (case newtab white asize hbits of Inl e \<Rightarrow> Inl e
      | Inr t \<Rightarrow> let t = clearapart t in
          Inr (if 0 < t_hmask t then clearhpart t else t))"

definition lj_tab_new_ah :: "u8 \<Rightarrow> int \<Rightarrow> nat \<Rightarrow> tab_err + gctab" where
  "lj_tab_new_ah white a h = lj_tab_new white (if 0 < a then nat (a + 1) else 0) (hsize2hbits h)"

definition lj_tab_dup :: "u8 \<Rightarrow> gctab \<Rightarrow> tab_err + gctab" where
  "lj_tab_dup white kt =
     (case newtab white (unat (t_asize kt))
        (if 0 < t_hmask kt then lj_fls (t_hmask kt) + 1 else 0) of
        Inl e \<Rightarrow> Inl e
      | Inr t \<Rightarrow>
          let t = t\<lparr>t_nomm := 0\<rparr>;
              t = (if 0 < t_asize kt
                   then t\<lparr>t_array := take (unat (t_asize kt)) (t_array kt)\<rparr> else t)
          in Inr (if 0 < t_hmask kt
                  then t\<lparr>t_freetop := t_freetop kt,
                         t_node := map (\<lambda>kn. \<lparr>n_val = n_val kn, n_key = n_key kn, n_next = n_next kn\<rparr>)
                                     (t_node kt)\<rparr>
                  else t))"

definition lj_tab_clear :: "gctab \<Rightarrow> gctab" where
  "lj_tab_clear t =
     (let t = clearapart t in
      if 0 < t_hmask t then clearhpart (t\<lparr>t_freetop := unat (t_hmask t + 1)\<rparr>) else t)"

section \<open>Getters\<close>

text \<open>
  The chain walk \<open>do { if (P(n->key)) return &n->val; } while ((n = nextnode(n)));\<close>:
  \<open>None\<close> is a walk that does not end, \<open>Some None\<close> the end of the chain.
\<close>

partial_function (option) chain_find :: "(tvalue \<Rightarrow> bool) \<Rightarrow> node list \<Rightarrow> nat \<Rightarrow> nat option option" where
  "chain_find P ns i =
     (if P (n_key (ns ! i)) then Some (Some i)
      else case n_next (ns ! i) of None \<Rightarrow> Some None | Some j \<Rightarrow> chain_find P ns j)"

definition lj_tab_getinth :: "gctab \<Rightarrow> u32 \<Rightarrow> slot option option" where
  "lj_tab_getinth t key =
     (let k = int2dbl key in
      map_option (map_option NodeSlot)
        (chain_find (\<lambda>nk. tvisnum nk \<and> dbl_eq nk k) (t_node t) (hashnum t k)))"

definition lj_tab_getint :: "gctab \<Rightarrow> u32 \<Rightarrow> slot option option" where
  "lj_tab_getint t key =
     (if key < t_asize t then Some (Some (ArraySlot (unat key))) else lj_tab_getinth t key)"

definition lj_tab_getstr :: "(gcref \<Rightarrow> u32) \<Rightarrow> gctab \<Rightarrow> gcref \<Rightarrow> slot option option" where
  "lj_tab_getstr sid t key =
     map_option (map_option NodeSlot)
       (chain_find (\<lambda>nk. tvisstr nk \<and> gcval nk = key) (t_node t) (hashmask t (sid key)))"

text \<open>\<open>lj_tab_get\<close> returns the value found, or nil; \<open>None\<close> is a walk that does not end.\<close>

definition slot_val :: "gctab \<Rightarrow> slot option option \<Rightarrow> tvalue option" where
  "slot_val t r = map_option (\<lambda>s. case s of None \<Rightarrow> niltv | Some s \<Rightarrow> slot_get t s) r"

definition lj_tab_get :: "(gcref \<Rightarrow> u32) \<Rightarrow> gctab \<Rightarrow> tvalue \<Rightarrow> tvalue option" where
  "lj_tab_get sid t key =
     (let genlookup = slot_val t (map_option (map_option NodeSlot)
            (chain_find (\<lambda>nk. lj_obj_equal nk key) (t_node t) (hashkey sid t key)))
      in if tvisstr key then slot_val t (lj_tab_getstr sid t (gcval key))
         else if tvisnum key then
           (let k = lj_num2int key in
            if dbl_eq key (int2dbl k) then slot_val t (lj_tab_getint t k) else genlookup)
         else if \<not> tvisnil key then genlookup
         else Some niltv)"

declare chain_find.simps [code]

section \<open>Insertion of a new key\<close>

text \<open>The scan for a free node, downwards from the free top.\<close>

fun newkey_free :: "node list \<Rightarrow> nat \<Rightarrow> nat option" where
  "newkey_free ns 0 = None"
| "newkey_free ns (Suc f) = (if tvisnil (n_key (ns ! f)) then Some f else newkey_free ns f)"

text \<open>
  The predecessor of node \<open>n\<close> on the chain from \<open>c\<close>: \<open>Some None\<close> is a step through \<open>NULL\<close>.
\<close>

partial_function (option) find_pred :: "node list \<Rightarrow> nat \<Rightarrow> nat \<Rightarrow> nat option option" where
  "find_pred ns c n =
     (case n_next (ns ! c) of None \<Rightarrow> Some None
      | Some j \<Rightarrow> if j = n then Some (Some c) else find_pred ns j n)"

declare find_pred.simps [code]

text \<open>The two rechaining loops for string keys whose hash changed under a dead key.\<close>

partial_function (option) rechain_any :: "(tvalue \<Rightarrow> nat) \<Rightarrow> node list \<Rightarrow> nat \<Rightarrow> node list option" where
  "rechain_any main ns f =
     (case n_next (ns ! f) of None \<Rightarrow> Some ns
      | Some nn \<Rightarrow>
          if \<not> tvisnil (n_val (ns ! nn)) then
            (let mn = main (n_key (ns ! nn)) in
             if mn \<noteq> f \<and> mn \<noteq> nn then
               (let ns1 = set_next ns f (n_next (ns ! nn));
                    ns2 = set_next ns1 nn (n_next (ns1 ! mn));
                    ns3 = set_next ns2 mn (Some nn)
                in rechain_any main ns3 f)
             else rechain_any main ns nn)
          else rechain_any main ns nn)"

partial_function (option) rechain_main :: "(tvalue \<Rightarrow> nat) \<Rightarrow> nat \<Rightarrow> node list \<Rightarrow> nat \<Rightarrow> node list option" where
  "rechain_main main n ns f =
     (case n_next (ns ! f) of None \<Rightarrow> Some ns
      | Some nn \<Rightarrow>
          if \<not> tvisnil (n_val (ns ! nn)) \<and> main (n_key (ns ! nn)) = n then
            (let ns1 = set_next ns f (n_next (ns ! nn));
                 ns2 = set_next ns1 nn (n_next (ns1 ! n));
                 ns3 = set_next ns2 n (Some nn)
             in rechain_any main ns3 f)
          else rechain_main main n ns nn)"

declare rechain_any.simps [code] rechain_main.simps [code]

text \<open>
  The write barrier for any store into a table, \<open>lj_gc_anybarriert\<close> (\<^verbatim>\<open>lj_gc.h\<close>): a black
  table turns gray again. Its link into the list of gray-again objects is not table state.
\<close>

definition LJ_GC_BLACK :: u8 where "LJ_GC_BLACK = 4"

definition lj_gc_anybarriert :: "gctab \<Rightarrow> gctab" where
  "lj_gc_anybarriert t =
     (if t_marked t AND LJ_GC_BLACK \<noteq> 0 then t\<lparr>t_marked := t_marked t AND NOT LJ_GC_BLACK\<rparr> else t)"

text \<open>The common exit of \<open>lj_tab_newkey\<close>: store the key, run the barrier, return the value slot.\<close>

definition newkey_store :: "gctab \<Rightarrow> node list \<Rightarrow> nat \<Rightarrow> tvalue \<Rightarrow> gctab \<times> slot" where
  "newkey_store t ns n key =
     (let k = (if tvismzero key then 0 else key)
      in (lj_gc_anybarriert (t\<lparr>t_node := ns[n := (ns ! n)\<lparr>n_key := k\<rparr>]\<rparr>), NodeSlot n))"

type_synonym slot_result = "tab_err + gctab \<times> slot"

text \<open>
  \<open>lj_tab_newkey\<close> calls \<open>rehashtab\<close> and then itself (through \<open>lj_tab_set\<close>) when no node is free.
  The functions of this group take that call as a parameter; \<open>lj_tab_newkey\<close> below ties the knot.
\<close>

definition newkey_step ::
  "(gctab \<Rightarrow> tvalue \<Rightarrow> slot_result) \<Rightarrow> (gcref \<Rightarrow> u32) \<Rightarrow> gctab \<Rightarrow> tvalue \<Rightarrow> slot_result" where
  "newkey_step rehash_set sid t key =
     (let n = hashkey sid t key; ns = t_node t in
      if \<not> tvisnil (n_val (ns ! n)) \<or> t_hmask t = 0 then
        (case newkey_free ns (t_freetop t) of
           None \<Rightarrow> rehash_set t key
         | Some f \<Rightarrow>
             let t = t\<lparr>t_freetop := f\<rparr>; c = hashkey sid t (n_key (ns ! n)) in
             if c \<noteq> n then
               (case find_pred ns c n of
                  None \<Rightarrow> Inl TAB_NOEND
                | Some None \<Rightarrow> Inl TAB_NULLPTR
                | Some (Some p) \<Rightarrow>
                    let ns1 = set_next ns p (Some f);
                        ns2 = ns1[f := (ns1 ! f)\<lparr>n_val := n_val (ns1 ! n), n_key := n_key (ns1 ! n),
                                             n_next := n_next (ns1 ! n)\<rparr>];
                        ns3 = ns2[n := (ns2 ! n)\<lparr>n_next := None, n_val := niltv\<rparr>]
                    in case rechain_main (hashkey sid t) n ns3 f of
                         None \<Rightarrow> Inl TAB_NOEND
                       | Some ns4 \<Rightarrow> Inr (newkey_store t ns4 n key))
             else
               (let ns1 = set_next ns f (n_next (ns ! n));
                    ns2 = set_next ns1 n (Some f)
                in Inr (newkey_store t ns2 f key)))
      else Inr (newkey_store t ns n key))"

section \<open>Setters\<close>

type_synonym newkey_fn = "gctab \<Rightarrow> tvalue \<Rightarrow> slot_result"

definition setinth_with :: "newkey_fn \<Rightarrow> gctab \<Rightarrow> u32 \<Rightarrow> slot_result" where
  "setinth_with newkey t key =
     (let k = int2dbl key in
      case chain_find (\<lambda>nk. tvisnum nk \<and> dbl_eq nk k) (t_node t) (hashnum t k) of
        None \<Rightarrow> Inl TAB_NOEND
      | Some (Some i) \<Rightarrow> Inr (t, NodeSlot i)
      | Some None \<Rightarrow> newkey t k)"

definition setint_with :: "newkey_fn \<Rightarrow> gctab \<Rightarrow> u32 \<Rightarrow> slot_result" where
  "setint_with newkey t key =
     (if key < t_asize t then Inr (t, ArraySlot (unat key)) else setinth_with newkey t key)"

definition setstr_with :: "newkey_fn \<Rightarrow> (gcref \<Rightarrow> u32) \<Rightarrow> gctab \<Rightarrow> gcref \<Rightarrow> slot_result" where
  "setstr_with newkey sid t key =
     (case chain_find (\<lambda>nk. tvisstr nk \<and> gcval nk = key) (t_node t) (hashmask t (sid key)) of
        None \<Rightarrow> Inl TAB_NOEND
      | Some (Some i) \<Rightarrow> Inr (t, NodeSlot i)
      | Some None \<Rightarrow> newkey t (setstrV key))"

definition set_with :: "newkey_fn \<Rightarrow> (gcref \<Rightarrow> u32) \<Rightarrow> gctab \<Rightarrow> tvalue \<Rightarrow> slot_result" where
  "set_with newkey sid t key =
     (let t = t\<lparr>t_nomm := 0\<rparr>;
          generic = (case chain_find (\<lambda>nk. lj_obj_equal nk key) (t_node t) (hashkey sid t key) of
              None \<Rightarrow> Inl TAB_NOEND
            | Some (Some i) \<Rightarrow> Inr (t, NodeSlot i)
            | Some None \<Rightarrow> newkey t key)
      in if tvisstr key then setstr_with newkey sid t (gcval key)
         else if tvisnum key then
           (let k = lj_num2int key in
            if dbl_eq key (int2dbl k) then setint_with newkey t k
            else if tvisnan key then Inl LJ_ERR_NANIDX
            else generic)
         else if tvisnil key then Inl LJ_ERR_NILIDX
         else generic)"

section \<open>Resizing and rehashing\<close>

text \<open>Reinsert the values \<open>vs\<close> of the array slots from \<open>i\<close> on into the hash part.\<close>

fun reinsert_array :: "newkey_fn \<Rightarrow> gctab \<Rightarrow> nat \<Rightarrow> tvalue list \<Rightarrow> tab_err + gctab" where
  "reinsert_array newkey t i [] = Inr t"
| "reinsert_array newkey t i (v # vs) =
     (if \<not> tvisnil v then
        case setinth_with newkey t (of_nat i) of Inl e \<Rightarrow> Inl e
        | Inr (t, s) \<Rightarrow> reinsert_array newkey (slot_put t s v) (Suc i) vs
      else reinsert_array newkey t (Suc i) vs)"

text \<open>Reinsert the pairs of the old hash part.\<close>

fun reinsert_nodes :: "newkey_fn \<Rightarrow> (gcref \<Rightarrow> u32) \<Rightarrow> gctab \<Rightarrow> node list \<Rightarrow> tab_err + gctab" where
  "reinsert_nodes newkey sid t [] = Inr t"
| "reinsert_nodes newkey sid t (n # ns) =
     (if \<not> tvisnil (n_val n) then
        case set_with newkey sid t (n_key n) of Inl e \<Rightarrow> Inl e
        | Inr (t, s) \<Rightarrow> reinsert_nodes newkey sid (slot_put t s (n_val n)) ns
      else reinsert_nodes newkey sid t ns)"

definition resize_grow :: "gctab \<Rightarrow> nat \<Rightarrow> tab_err + gctab" where
  "resize_grow t asize =
     (let oldasize = unat (t_asize t) in
      if oldasize < asize then
        if LJ_MAX_ASIZE < asize then Inl LJ_ERR_TABOV
        else
          let t = (if 0 <s t_colo t then t\<lparr>t_colo := t_colo t OR 0x80\<rparr> else t)
          in Inr (t\<lparr>t_array := take oldasize (t_array t) @ replicate (asize - oldasize) niltv,
                    t_asize := of_nat asize\<rparr>)
      else Inr t)"

definition resize_hpart :: "gctab \<Rightarrow> nat \<Rightarrow> tab_err + gctab" where
  "resize_hpart t hbits =
     (if hbits \<noteq> 0 then
        case newhpart t hbits of Inl e \<Rightarrow> Inl e | Inr t \<Rightarrow> Inr (clearhpart t)
      else Inr (t\<lparr>t_node := [nilnode], t_freetop := 0, t_hmask := 0\<rparr>))"

definition resize_shrink :: "newkey_fn \<Rightarrow> gctab \<Rightarrow> nat \<Rightarrow> nat \<Rightarrow> tab_err + gctab" where
  "resize_shrink newkey t oldasize asize =
     (if asize < oldasize then
        let array = t_array t; t = t\<lparr>t_asize := of_nat asize\<rparr> in
        case reinsert_array newkey t asize (take (oldasize - asize) (drop asize array)) of
          Inl e \<Rightarrow> Inl e
        | Inr t \<Rightarrow> Inr (if t_colo t \<le>s 0 then t\<lparr>t_array := take asize (t_array t)\<rparr> else t)
      else Inr t)"

definition resize_with ::
  "newkey_fn \<Rightarrow> (gcref \<Rightarrow> u32) \<Rightarrow> gctab \<Rightarrow> nat \<Rightarrow> nat \<Rightarrow> tab_err + gctab" where
  "resize_with newkey sid t asize hbits =
     (let oldnode = t_node t; oldasize = unat (t_asize t); oldhmask = t_hmask t in
      (case resize_grow t asize of Inl e \<Rightarrow> Inl e | Inr t \<Rightarrow>
      (case resize_hpart t hbits of Inl e \<Rightarrow> Inl e | Inr t \<Rightarrow>
      (case resize_shrink newkey t oldasize asize of Inl e \<Rightarrow> Inl e | Inr t \<Rightarrow>
         if 0 < oldhmask then reinsert_nodes newkey sid t oldnode else Inr t))))"

definition countint :: "tvalue \<Rightarrow> nat list \<Rightarrow> nat \<times> nat list" where
  "countint key bins =
     (if tvisnum key then
        let k = lj_num2int key in
        if unat k < LJ_MAX_ASIZE \<and> dbl_eq key (int2dbl k) then
          let b = (if 2 <s k then lj_fls (k - 1) else 0) in (1, bins[b := bins ! b + 1])
        else (0, bins)
      else (0, bins))"

function countarray_loop ::
  "tvalue list \<Rightarrow> nat \<Rightarrow> nat \<Rightarrow> nat \<Rightarrow> nat \<Rightarrow> nat list \<Rightarrow> nat \<times> nat list" where
  "countarray_loop array asize b i na bins =
     (if b < LJ_MAX_ABITS then
        let top0 = 2 * 2 ^ b; top = (if asize \<le> top0 then asize - 1 else top0) in
        if asize \<le> top0 \<and> top < i then (na, bins)
        else
          let n = length (filter (\<lambda>j. \<not> tvisnil (array ! j)) [i..<Suc top])
          in countarray_loop array asize (Suc b) (max i (Suc top)) (na + n)
               (bins[b := bins ! b + n])
      else (na, bins))"
  by pat_completeness auto
termination
  by (relation "measure (\<lambda>(array, asize, b, i, na, bins). LJ_MAX_ABITS - b)") auto

declare countarray_loop.simps [simp del]

definition countarray :: "gctab \<Rightarrow> nat list \<Rightarrow> nat \<times> nat list" where
  "countarray t bins =
     (if t_asize t = 0 then (0, bins)
      else countarray_loop (t_array t) (unat (t_asize t)) 0 0 0 bins)"

fun counthash_loop :: "node list \<Rightarrow> nat \<Rightarrow> nat \<Rightarrow> nat list \<Rightarrow> nat \<times> nat \<times> nat list" where
  "counthash_loop [] tot na bins = (tot, na, bins)"
| "counthash_loop (n # ns) tot na bins =
     (if \<not> tvisnil (n_val n) then
        let (c, bins) = countint (n_key n) bins in counthash_loop ns (tot + 1) (na + c) bins
      else counthash_loop ns tot na bins)"

definition counthash :: "gctab \<Rightarrow> nat list \<Rightarrow> nat \<Rightarrow> nat \<times> nat \<times> nat list" where
  "counthash t bins narray =
     (let (tot, na, bins) = counthash_loop (t_node t) 0 0 bins in (tot, narray + na, bins))"

function bestasize_loop ::
  "nat list \<Rightarrow> nat \<Rightarrow> nat \<Rightarrow> nat \<Rightarrow> nat \<Rightarrow> nat \<Rightarrow> nat \<times> nat" where
  "bestasize_loop bins nn b sm na sz =
     (if 2 ^ b < 2 * nn \<and> sm \<noteq> nn then
        if 0 < bins ! b \<and> 2 ^ b < 2 * (sm + bins ! b)
        then bestasize_loop bins nn (Suc b) (sm + bins ! b) (sm + bins ! b) (2 * 2 ^ b + 1)
        else bestasize_loop bins nn (Suc b) (sm + bins ! b) na sz
      else (na, sz))"
  by pat_completeness auto
termination
proof (relation "measure (\<lambda>(bins, nn, b, sm, na, sz). 2 * nn - b)", goal_cases)
  case (2 bins nn b sm na sz)
  then have "b < 2 * nn" using order.strict_trans [OF less_exp [of b]] by blast
  then show ?case by simp
next
  case (3 bins nn b sm na sz)
  then have "b < 2 * nn" using order.strict_trans [OF less_exp [of b]] by blast
  then show ?case by simp
qed simp

declare bestasize_loop.simps [simp del]

text \<open>The pair of the number of integer keys for the array part and the array size.\<close>

definition bestasize :: "nat list \<Rightarrow> nat \<Rightarrow> nat \<times> nat" where
  "bestasize bins narray = bestasize_loop bins narray 0 0 0 0"

definition rehash_sizes :: "gctab \<Rightarrow> tvalue \<Rightarrow> nat \<times> nat" where
  "rehash_sizes t ek =
     (let bins = replicate LJ_MAX_ABITS 0;
          (asize, bins) = countarray t bins;
          tot = 1 + asize;
          (nh, asize, bins) = counthash t bins asize;
          tot = tot + nh;
          (c, bins) = countint ek bins;
          asize = asize + c;
          (na, asize) = bestasize bins asize;
          tot = tot - na
      in (asize, hsize2hbits tot))"

definition rehashtab_with :: "newkey_fn \<Rightarrow> (gcref \<Rightarrow> u32) \<Rightarrow> gctab \<Rightarrow> tvalue \<Rightarrow> tab_err + gctab" where
  "rehashtab_with newkey sid t ek =
     (let (asize, hbits) = rehash_sizes t ek in resize_with newkey sid t asize hbits)"

section \<open>The tied knot\<close>

text \<open>The depth counts rehashes nested in a rehash.\<close>

fun newkey_depth :: "nat \<Rightarrow> (gcref \<Rightarrow> u32) \<Rightarrow> newkey_fn" where
  "newkey_depth 0 sid = newkey_step (\<lambda>t key. Inl TAB_NESTED) sid"
| "newkey_depth (Suc d) sid =
     newkey_step (\<lambda>t key. case rehashtab_with (newkey_depth d sid) sid t key of
        Inl e \<Rightarrow> Inl e | Inr t \<Rightarrow> set_with (newkey_depth d sid) sid t key) sid"

definition lj_tab_newkey :: "(gcref \<Rightarrow> u32) \<Rightarrow> gctab \<Rightarrow> tvalue \<Rightarrow> slot_result" where
  "lj_tab_newkey sid = newkey_depth 1 sid"

definition lj_tab_setinth :: "(gcref \<Rightarrow> u32) \<Rightarrow> gctab \<Rightarrow> u32 \<Rightarrow> slot_result" where
  "lj_tab_setinth sid = setinth_with (lj_tab_newkey sid)"

definition lj_tab_setint :: "(gcref \<Rightarrow> u32) \<Rightarrow> gctab \<Rightarrow> u32 \<Rightarrow> slot_result" where
  "lj_tab_setint sid = setint_with (lj_tab_newkey sid)"

definition lj_tab_setstr :: "(gcref \<Rightarrow> u32) \<Rightarrow> gctab \<Rightarrow> gcref \<Rightarrow> slot_result" where
  "lj_tab_setstr sid = setstr_with (lj_tab_newkey sid) sid"

definition lj_tab_set :: "(gcref \<Rightarrow> u32) \<Rightarrow> gctab \<Rightarrow> tvalue \<Rightarrow> slot_result" where
  "lj_tab_set sid = set_with (lj_tab_newkey sid) sid"

text \<open>On an error the code has changed a part of the table; the model returns the error alone.\<close>

definition lj_tab_resize :: "(gcref \<Rightarrow> u32) \<Rightarrow> gctab \<Rightarrow> nat \<Rightarrow> nat \<Rightarrow> tab_err + gctab" where
  "lj_tab_resize sid = resize_with (lj_tab_newkey sid) sid"

definition lj_tab_rehash :: "(gcref \<Rightarrow> u32) \<Rightarrow> gctab \<Rightarrow> tab_err + gctab" where
  "lj_tab_rehash sid t = rehashtab_with (lj_tab_newkey sid) sid t niltv"

definition lj_tab_reasize :: "(gcref \<Rightarrow> u32) \<Rightarrow> gctab \<Rightarrow> nat \<Rightarrow> tab_err + gctab" where
  "lj_tab_reasize sid t nasize =
     lj_tab_resize sid t (nasize + 1) (if 0 < t_hmask t then lj_fls (t_hmask t) + 1 else 0)"

end
