(* ===== verification/LjTabNode.thy ===== *)
theory LjTabNode
  imports LjTab
begin

text \<open>
  The node array of a table's hash part: reachability along the collision chains, the
  invariant \<open>nodes_ok\<close>, and its preservation by the three ways \<open>lj_tab_newkey\<close> places a key.
\<close>

section \<open>Chains\<close>

inductive reach :: "node list \<Rightarrow> nat \<Rightarrow> nat \<Rightarrow> bool" for ns where
  reach_refl [intro, simp]: "reach ns i i"
| reach_step: "n_next (ns ! i) = Some j \<Longrightarrow> reach ns j k \<Longrightarrow> reach ns i k"

definition ranked :: "(nat \<Rightarrow> nat) \<Rightarrow> node list \<Rightarrow> bool" where
  "ranked r ns \<longleftrightarrow>
     (\<forall>i<length ns. \<forall>j. n_next (ns ! i) = Some j \<longrightarrow> j < length ns \<and> r j < r i)"

lemma rankedD: "ranked r ns \<Longrightarrow> i < length ns \<Longrightarrow> n_next (ns ! i) = Some j \<Longrightarrow> j < length ns \<and> r j < r i"
  by (simp add: ranked_def)

lemma reach_length: "reach ns i j \<Longrightarrow> ranked r ns \<Longrightarrow> i < length ns \<Longrightarrow> j < length ns"
  by (induction rule: reach.induct) (auto dest: rankedD)

lemma reach_end: "reach ns i j \<Longrightarrow> n_next (ns ! i) = None \<Longrightarrow> j = i"
  by (erule reach.cases) auto

lemma reach_trans: "reach ns i j \<Longrightarrow> reach ns j k \<Longrightarrow> reach ns i k"
  by (induction rule: reach.induct) (auto intro: reach_step)

lemma reach_cong: "reach ns i j \<Longrightarrow> (\<And>k. n_next (ns' ! k) = n_next (ns ! k)) \<Longrightarrow> reach ns' i j"
  by (induction rule: reach.induct) (auto intro: reach_step)

lemma chain_find_result:
  assumes "ranked r ns" "i < length ns"
  shows "(\<exists>j. chain_find P ns i = Some (Some j) \<and> reach ns i j \<and> j < length ns \<and> P (n_key (ns ! j)))
    \<or> chain_find P ns i = Some None \<and> (\<forall>j. reach ns i j \<longrightarrow> \<not> P (n_key (ns ! j)))"
  using assms(2)
proof (induction "r i" arbitrary: i rule: less_induct)
  case less
  show ?case
  proof (cases "P (n_key (ns ! i))")
    case True
    then show ?thesis using less.prems by (auto simp: chain_find.simps [of P ns i])
  next
    case notP: False
    show ?thesis
    proof (cases "n_next (ns ! i)")
      case None
      then have "chain_find P ns i = Some None" using notP by (simp add: chain_find.simps [of P ns i])
      then show ?thesis using None notP by (auto dest: reach_end)
    next
      case (Some j)
      with assms(1) less.prems have j: "j < length ns" "r j < r i" by (auto dest: rankedD)
      have "chain_find P ns i = chain_find P ns j"
        using Some notP by (simp add: chain_find.simps [of P ns i])
      moreover have "reach ns i k \<longleftrightarrow> k = i \<or> reach ns j k" for k
        using Some by (auto intro: reach_step elim: reach.cases)
      ultimately show ?thesis using less.hyps [OF j(2) j(1)] notP by auto
    qed
  qed
qed

lemma find_pred_result:
  assumes "ranked r ns" "c < length ns" "reach ns c n" "c \<noteq> n"
  shows "\<exists>p. find_pred ns c n = Some (Some p) \<and> p < length ns \<and> n_next (ns ! p) = Some n"
  using assms(2-4)
proof (induction "r c" arbitrary: c rule: less_induct)
  case less
  from less.prems(2,3) obtain j where j: "n_next (ns ! c) = Some j" "reach ns j n"
    by (auto elim: reach.cases)
  with assms(1) less.prems have jl: "j < length ns" "r j < r c" by (auto dest: rankedD)
  show ?case
  proof (cases "j = n")
    case True
    then show ?thesis using j less.prems by (simp add: find_pred.simps [of ns c n])
  next
    case False
    then have "find_pred ns c n = find_pred ns j n" using j by (simp add: find_pred.simps [of ns c n])
    then show ?thesis using less.hyps [OF jl(2) jl(1) j(2) False] by simp
  qed
qed

text \<open>The rechaining loops change nothing when no live key has the freed main position.\<close>

lemma rechain_main_id:
  assumes "ranked r ns" "f < length ns"
    and "\<And>j. j < length ns \<Longrightarrow> \<not> tvisnil (n_val (ns ! j)) \<Longrightarrow> main (n_key (ns ! j)) \<noteq> n"
  shows "rechain_main main n ns f = Some ns"
  using assms(2)
proof (induction "r f" arbitrary: f rule: less_induct)
  case less
  show ?case
  proof (cases "n_next (ns ! f)")
    case None
    then show ?thesis by (simp add: rechain_main.simps [of main n ns f])
  next
    case (Some j)
    with assms(1) less.prems have j: "j < length ns" "r j < r f" by (auto dest: rankedD)
    then have "rechain_main main n ns f = rechain_main main n ns j"
      using Some assms(3) [of j] by (auto simp: rechain_main.simps [of main n ns f])
    then show ?thesis using less.hyps [OF j(2) j(1)] by simp
  qed
qed

section \<open>The invariant of the node array\<close>

definition nodes_indeg :: "node list \<Rightarrow> bool" where
  "nodes_indeg ns \<longleftrightarrow>
     (\<forall>i<length ns. \<forall>j<length ns. \<forall>k. n_next (ns ! i) = Some k \<longrightarrow> n_next (ns ! j) = Some k \<longrightarrow> i = j)"

definition nodes_free :: "node list \<Rightarrow> bool" where
  "nodes_free ns \<longleftrightarrow>
     (\<forall>i<length ns. n_key (ns ! i) = niltv \<longrightarrow>
        n_val (ns ! i) = niltv \<and> n_next (ns ! i) = None \<and> (\<forall>j<length ns. n_next (ns ! j) \<noteq> Some i))"

definition nodes_chained :: "(tvalue \<Rightarrow> nat) \<Rightarrow> node list \<Rightarrow> bool" where
  "nodes_chained main ns \<longleftrightarrow>
     (\<forall>i<length ns. n_key (ns ! i) \<noteq> niltv \<longrightarrow>
        main (n_key (ns ! i)) < length ns \<and> reach ns (main (n_key (ns ! i))) i)"

text \<open>A node that holds a key away from its main position is the main position of no key.\<close>

definition nodes_home :: "(tvalue \<Rightarrow> nat) \<Rightarrow> node list \<Rightarrow> bool" where
  "nodes_home main ns \<longleftrightarrow>
     (\<forall>i<length ns. n_key (ns ! i) \<noteq> niltv \<longrightarrow> main (n_key (ns ! i)) \<noteq> i \<longrightarrow>
        (\<forall>j<length ns. n_key (ns ! j) \<noteq> niltv \<longrightarrow> main (n_key (ns ! j)) \<noteq> i))"

definition nodes_distinct :: "node list \<Rightarrow> bool" where
  "nodes_distinct ns \<longleftrightarrow>
     (\<forall>i<length ns. \<forall>j<length ns. n_key (ns ! i) \<noteq> niltv \<longrightarrow>
        n_key (ns ! i) = n_key (ns ! j) \<longrightarrow> i = j)"

definition nodes_ok :: "(tvalue \<Rightarrow> nat) \<Rightarrow> node list \<Rightarrow> bool" where
  "nodes_ok main ns \<longleftrightarrow> (\<exists>r. ranked r ns) \<and> nodes_indeg ns \<and> nodes_free ns
     \<and> nodes_chained main ns \<and> nodes_home main ns \<and> nodes_distinct ns"

lemma nodes_ok_ranked: "nodes_ok main ns \<Longrightarrow> \<exists>r. ranked r ns"
  by (simp add: nodes_ok_def)

lemma nodes_ok_indeg:
  "nodes_ok main ns \<Longrightarrow> i < length ns \<Longrightarrow> j < length ns \<Longrightarrow>
     n_next (ns ! i) = Some k \<Longrightarrow> n_next (ns ! j) = Some k \<Longrightarrow> i = j"
  by (simp add: nodes_ok_def nodes_indeg_def)

lemma nodes_ok_nil:
  assumes "nodes_ok main ns" "i < length ns" "n_key (ns ! i) = niltv"
  shows "n_val (ns ! i) = niltv" "n_next (ns ! i) = None" "j < length ns \<Longrightarrow> n_next (ns ! j) \<noteq> Some i"
  using assms by (simp_all add: nodes_ok_def nodes_free_def)

lemma nodes_ok_chained:
  assumes "nodes_ok main ns" "i < length ns" "n_key (ns ! i) \<noteq> niltv"
  shows nodes_ok_main: "main (n_key (ns ! i)) < length ns"
    and nodes_ok_reach: "reach ns (main (n_key (ns ! i))) i"
  using assms by (simp_all add: nodes_ok_def nodes_chained_def)

lemma nodes_ok_home:
  "nodes_ok main ns \<Longrightarrow> i < length ns \<Longrightarrow> j < length ns \<Longrightarrow> n_key (ns ! i) \<noteq> niltv \<Longrightarrow>
     n_key (ns ! j) \<noteq> niltv \<Longrightarrow> main (n_key (ns ! i)) \<noteq> i \<Longrightarrow> main (n_key (ns ! j)) \<noteq> i"
  by (simp add: nodes_ok_def nodes_home_def)

lemma nodes_ok_distinct:
  "nodes_ok main ns \<Longrightarrow> i < length ns \<Longrightarrow> j < length ns \<Longrightarrow> n_key (ns ! i) \<noteq> niltv \<Longrightarrow>
     n_key (ns ! i) = n_key (ns ! j) \<Longrightarrow> i = j"
  by (simp add: nodes_ok_def nodes_distinct_def)

text \<open>No key has a free node as its main position.\<close>

lemma nodes_ok_free_main:
  assumes "nodes_ok main ns" "f < length ns" "n_key (ns ! f) = niltv"
    "i < length ns" "n_key (ns ! i) \<noteq> niltv"
  shows "main (n_key (ns ! i)) \<noteq> f"
proof
  assume "main (n_key (ns ! i)) = f"
  then have "reach ns f i" using nodes_ok_reach [OF assms(1,4,5)] by simp
  moreover have "n_next (ns ! f) = None" using assms by (simp add: nodes_ok_nil)
  ultimately have "i = f" by (rule reach_end)
  then show False using assms by simp
qed

section \<open>The value stored under a key\<close>

definition nval :: "node list \<Rightarrow> tvalue \<Rightarrow> tvalue" where
  "nval ns k = (case find (\<lambda>n. n_key n = k) ns of None \<Rightarrow> niltv | Some n \<Rightarrow> n_val n)"

lemma nval_node:
  assumes "nodes_ok main ns" "i < length ns" "n_key (ns ! i) = k" "k \<noteq> niltv"
  shows "nval ns k = n_val (ns ! i)"
proof -
  obtain n where n: "find (\<lambda>n. n_key n = k) ns = Some n"
    using assms(2,3) by (cases "find (\<lambda>n. n_key n = k) ns") (auto simp: find_None_iff)
  then obtain j where j: "j < length ns" "n_key (ns ! j) = k" "n = ns ! j"
    unfolding find_Some_iff by blast
  then have "j = i" by (intro nodes_ok_distinct [OF assms(1)]) (use assms in simp_all)
  then show ?thesis using n j by (simp add: nval_def)
qed

lemma nval_absent: "(\<And>i. i < length ns \<Longrightarrow> n_key (ns ! i) \<noteq> k) \<Longrightarrow> nval ns k = niltv"
proof -
  assume a: "\<And>i. i < length ns \<Longrightarrow> n_key (ns ! i) \<noteq> k"
  then have "find (\<lambda>n. n_key n = k) ns = None" by (auto simp: find_None_iff in_set_conv_nth)
  then show ?thesis by (simp add: nval_def)
qed

lemma nval_eqI:
  assumes ok: "nodes_ok main ns" "nodes_ok main ns'" and k: "k \<noteq> niltv"
    and to: "\<And>i. i < length ns \<Longrightarrow> n_key (ns ! i) = k \<Longrightarrow> n_val (ns ! i) \<noteq> niltv \<Longrightarrow>
        \<exists>j<length ns'. n_key (ns' ! j) = k \<and> n_val (ns' ! j) = n_val (ns ! i)"
    and fro: "\<And>j. j < length ns' \<Longrightarrow> n_key (ns' ! j) = k \<Longrightarrow>
        \<exists>i<length ns. n_key (ns ! i) = k \<and> n_val (ns ! i) = n_val (ns' ! j)"
  shows "nval ns' k = nval ns k"
proof (cases "\<exists>j<length ns'. n_key (ns' ! j) = k")
  case True
  then obtain j where j: "j < length ns'" "n_key (ns' ! j) = k" by blast
  with fro obtain i where i: "i < length ns" "n_key (ns ! i) = k" "n_val (ns ! i) = n_val (ns' ! j)" by blast
  then show ?thesis using nval_node [OF ok(1) i(1,2) k] nval_node [OF ok(2) j k] by simp
next
  case False
  then have a: "nval ns' k = niltv" by (auto intro: nval_absent)
  show ?thesis
  proof (cases "\<exists>i<length ns. n_key (ns ! i) = k")
    case True
    then obtain i where i: "i < length ns" "n_key (ns ! i) = k" by blast
    then have "n_val (ns ! i) = niltv" using to False by blast
    then show ?thesis using a nval_node [OF ok(1) i k] by simp
  next
    case False
    then have "nval ns k = niltv" by (auto intro: nval_absent)
    then show ?thesis using a by simp
  qed
qed


section \<open>Placing a new key\<close>

text \<open>
  What every placement achieves: the invariant still holds, node \<open>m\<close> holds the new key with
  a nil value, no other key changed its value, and at most one node stopped being free.
\<close>

definition placed :: "(tvalue \<Rightarrow> nat) \<Rightarrow> node list \<Rightarrow> tvalue \<Rightarrow> node list \<Rightarrow> nat \<Rightarrow> bool" where
  "placed main ns k ns' m \<longleftrightarrow>
     length ns' = length ns \<and> nodes_ok main ns' \<and> m < length ns \<and>
     n_key (ns' ! m) = k \<and> n_val (ns' ! m) = niltv \<and>
     (\<forall>k'. k' \<noteq> k \<longrightarrow> k' \<noteq> niltv \<longrightarrow> nval ns' k' = nval ns k') \<and>
     (\<forall>i<length ns. n_key (ns' ! i) \<noteq> k \<longrightarrow> n_key (ns' ! i) \<noteq> niltv \<longrightarrow>
        (\<exists>j<length ns. n_key (ns ! j) = n_key (ns' ! i))) \<and>
     (\<forall>i<length ns. n_key (ns ! i) \<noteq> niltv \<longrightarrow> n_key (ns' ! i) \<noteq> niltv)"

subsection \<open>The main position is not in use\<close>

lemma place_main:
  assumes ok: "nodes_ok main ns" and k: "k \<noteq> niltv" "\<And>i. i < length ns \<Longrightarrow> n_key (ns ! i) \<noteq> k"
    and n: "main k = n" "n < length ns" "n_val (ns ! n) = niltv"
    and ns': "ns' = ns[n := (ns ! n)\<lparr>n_key := k\<rparr>]"
  shows "placed main ns k ns' n"
proof -
  have len: "length ns' = length ns" by (simp add: ns')
  have nx: "n_next (ns' ! i) = n_next (ns ! i)" for i
    using n(2) by (cases "i = n") (simp_all add: ns')
  have ky: "n_key (ns' ! i) = (if i = n then k else n_key (ns ! i))" if "i < length ns" for i
    using n(2) that by (simp add: ns' nth_list_update)
  have vl: "n_val (ns' ! i) = n_val (ns ! i)" if "i < length ns" for i
    using n(2) that by (simp add: ns' nth_list_update)
  have rch: "reach ns' i j \<longleftrightarrow> reach ns i j" for i j
    using nx by (metis reach_cong)
  have 1: "\<exists>r. ranked r ns'" using nodes_ok_ranked [OF ok] by (simp add: ranked_def nx len)
  have 2: "nodes_indeg ns'" using ok by (simp add: nodes_ok_def nodes_indeg_def nx len)
  have 3: "nodes_free ns'" using ok k(1) by (auto simp: nodes_ok_def nodes_free_def nx len ky vl)
  have 4: "nodes_chained main ns'"
    using ok n(1,2) by (auto simp: nodes_ok_def nodes_chained_def len ky rch)
  have 5: "nodes_home main ns'"
    using ok n(1) by (auto simp: nodes_ok_def nodes_home_def len ky)
  have 6: "nodes_distinct ns'"
    using ok k(2) by (auto simp: nodes_ok_def nodes_distinct_def len ky)
  have ok': "nodes_ok main ns'" using 1 2 3 4 5 6 by (simp add: nodes_ok_def)
  have "nval ns' k' = nval ns k'" if "k' \<noteq> k" "k' \<noteq> niltv" for k'
    by (rule nval_eqI [OF ok ok' that(2)]) (use that(1) n(3) in \<open>auto simp: ky vl len split: if_splits\<close>)
  then show ?thesis
    using ok' n len ky vl k(1) by (auto simp: placed_def)
qed

subsection \<open>The main position holds a key at home: the free node takes the new key\<close>

lemma reach_subdivide:
  assumes "reach ns a b" "n_next (ns ! f) = None"
    and nx: "n_next (ns' ! n) = Some f" "n_next (ns' ! f) = n_next (ns ! n)"
      "\<And>i. i \<noteq> n \<Longrightarrow> i \<noteq> f \<Longrightarrow> n_next (ns' ! i) = n_next (ns ! i)"
  shows "reach ns' a b"
  using assms(1)
proof (induction rule: reach.induct)
  case (reach_step i j k)
  show ?case
  proof (cases "i = n")
    case True
    then have "n_next (ns' ! f) = Some j" using reach_step.hyps(1) nx(2) by simp
    then have "reach ns' f k" using reach_step.IH by (rule reach.reach_step)
    then show ?thesis using nx(1) True by (blast intro: reach.reach_step)
  next
    case False
    moreover have "i \<noteq> f" using reach_step.hyps(1) assms(2) by auto
    ultimately have "n_next (ns' ! i) = Some j" using reach_step.hyps(1) nx(3) by simp
    then show ?thesis using reach_step.IH by (rule reach.reach_step)
  qed
qed simp

lemma place_free:
  assumes ok: "nodes_ok main ns" and k: "k \<noteq> niltv" "\<And>i. i < length ns \<Longrightarrow> n_key (ns ! i) \<noteq> k"
    and n: "main k = n" "n < length ns" "n_key (ns ! n) \<noteq> niltv" "main (n_key (ns ! n)) = n"
    and f: "f < length ns" "n_key (ns ! f) = niltv"
    and ns1: "ns1 = set_next ns f (n_next (ns ! n))"
    and ns2: "ns2 = set_next ns1 n (Some f)"
    and ns': "ns' = ns2[f := (ns2 ! f)\<lparr>n_key := k\<rparr>]"
  shows "placed main ns k ns' f"
proof -
  have nf: "n \<noteq> f" using n(3) f(2) by auto
  have len: "length ns' = length ns" by (simp add: ns' ns1 ns2 set_next_def)
  note fnil = nodes_ok_nil [OF ok f]
  have nx: "n_next (ns' ! i) = (if i = n then Some f else if i = f then n_next (ns ! n) else n_next (ns ! i))"
    if "i < length ns" for i
    using that n(2) f(1) nf by (simp add: ns' ns1 ns2 set_next_def nth_list_update)
  have ky: "n_key (ns' ! i) = (if i = f then k else n_key (ns ! i))" if "i < length ns" for i
    using that n(2) f(1) nf by (simp add: ns' ns1 ns2 set_next_def nth_list_update)
  have vl: "n_val (ns' ! i) = n_val (ns ! i)" if "i < length ns" for i
    using that n(2) f(1) nf by (simp add: ns' ns1 ns2 set_next_def nth_list_update)
  have out: "n_next (ns' ! i) = n_next (ns ! i)" if "i \<noteq> n" "i \<noteq> f" for i
    using that by (simp add: ns' ns1 ns2 set_next_def)
  have rch: "reach ns' i j" if "reach ns i j" for i j
    by (rule reach_subdivide [OF that fnil(2)]) (use nx n(2) f(1) nf out in auto)
  obtain r where r: "ranked r ns" using nodes_ok_ranked [OF ok] by blast
  have "ranked (\<lambda>i. if i = f then 2 * r n else 2 * r i + 1) ns'"
    unfolding ranked_def len
  proof (intro allI impI)
    fix i j assume i: "i < length ns" "n_next (ns' ! i) = Some j"
    consider "i = n" "j = f" | "i = f" "n_next (ns ! n) = Some j" | "i \<noteq> f" "n_next (ns ! i) = Some j" "i \<noteq> n"
      using i by (auto simp: nx split: if_splits)
    then show "j < length ns \<and> (if j = f then 2 * r n else 2 * r j + 1) < (if i = f then 2 * r n else 2 * r i + 1)"
    proof cases
      case 1
      then show ?thesis using f nf by simp
    next
      case 2
      then have "j < length ns" "r j < r n" "j \<noteq> f" using r n(2) fnil(3) by (auto dest: rankedD)
      then show ?thesis using 2 by simp
    next
      case 3
      then have "j < length ns" "r j < r i" "j \<noteq> f" using r i(1) fnil(3) by (auto dest: rankedD)
      then show ?thesis using 3 by simp
    qed
  qed
  then have 1: "\<exists>r. ranked r ns'" by blast
  have 2: "nodes_indeg ns'"
    unfolding nodes_indeg_def len
    using nodes_ok_indeg [OF ok] fnil(3) n(2) by (auto simp: nx split: if_splits)
  have 3: "nodes_free ns'"
    unfolding nodes_free_def len using nodes_ok_nil [OF ok] k(1) n(2,3) by (auto simp: nx ky vl)
  have 4: "nodes_chained main ns'"
    unfolding nodes_chained_def len
  proof (intro allI impI)
    fix i assume i: "i < length ns" "n_key (ns' ! i) \<noteq> niltv"
    show "main (n_key (ns' ! i)) < length ns \<and> reach ns' (main (n_key (ns' ! i))) i"
    proof (cases "i = f")
      case True
      moreover have "reach ns' n f" using nx [OF n(2)] by (auto intro: reach_step)
      ultimately show ?thesis using n f ky by simp
    next
      case False
      then show ?thesis using nodes_ok_chained [OF ok i(1)] i ky rch by simp
    qed
  qed
  have 5: "nodes_home main ns'"
    unfolding nodes_home_def len
  proof (intro allI impI)
    fix i j assume i: "i < length ns" "n_key (ns' ! i) \<noteq> niltv" "main (n_key (ns' ! i)) \<noteq> i"
      and j: "j < length ns" "n_key (ns' ! j) \<noteq> niltv"
    have fm: "main (n_key (ns' ! j)) \<noteq> f"
      using nodes_ok_free_main [OF ok f j(1)] j ky [OF j(1)] n(1) nf by (auto split: if_splits)
    show "main (n_key (ns' ! j)) \<noteq> i"
    proof (cases "i = f")
      case False
      then have hi: "n_key (ns ! i) \<noteq> niltv" "main (n_key (ns ! i)) \<noteq> i" using i ky by simp_all
      then have "i \<noteq> n" using n(4) by auto
      then show ?thesis
        using nodes_ok_home [OF ok i(1) j(1) hi(1) _ hi(2)] j ky [OF j(1)] n(1) by (auto split: if_splits)
    qed (use fm in simp)
  qed
  have 6: "nodes_distinct ns'"
    unfolding nodes_distinct_def len using nodes_ok_distinct [OF ok] k(2) by (auto simp: ky)
  have ok': "nodes_ok main ns'" using 1 2 3 4 5 6 by (simp add: nodes_ok_def)
  have "nval ns' k' = nval ns k'" if "k' \<noteq> k" "k' \<noteq> niltv" for k'
    by (rule nval_eqI [OF ok ok' that(2)]) (use that f fnil(1) in \<open>auto simp: ky vl len split: if_splits\<close>)
  then show ?thesis
    using ok' f fnil(1) len ky vl k(1) by (auto simp: placed_def)
qed

subsection \<open>The main position holds a stray key: it moves to the free node\<close>

lemma reach_move:
  assumes "reach ns a b" "b \<noteq> n" "n_next (ns ! f) = None" "n_next (ns ! p) = Some n"
    and len: "a < length ns" "ranked r ns"
    and indeg: "\<And>i. i < length ns \<Longrightarrow> n_next (ns ! i) = Some n \<Longrightarrow> i = p"
    and nx: "n_next (ns' ! p) = Some f" "n_next (ns' ! f) = n_next (ns ! n)"
      "\<And>i. i \<noteq> n \<Longrightarrow> i \<noteq> f \<Longrightarrow> i \<noteq> p \<Longrightarrow> n_next (ns' ! i) = n_next (ns ! i)"
  shows "(a \<noteq> n \<longrightarrow> reach ns' a b) \<and> (a = n \<longrightarrow> reach ns' f b)"
  using assms(1,2) len(1)
proof (induction rule: reach.induct)
  case (reach_step i j k)
  have j: "j < length ns" "j \<noteq> i" using rankedD [OF len(2) reach_step.prems(2) reach_step.hyps(1)] by auto
  note IH = reach_step.IH [OF reach_step.prems(1) j(1)]
  show ?case
  proof (cases "i = n")
    case True
    then have "n_next (ns' ! f) = Some j" "reach ns' j k" using reach_step.hyps(1) nx(2) IH j(2) by auto
    then show ?thesis using True by (auto intro: reach.reach_step)
  next
    case False
    show ?thesis
    proof (cases "j = n")
      case True
      then have "i = p" using indeg reach_step.prems(2) reach_step.hyps(1) by simp
      then have "n_next (ns' ! i) = Some f" using nx(1) by simp
      then show ?thesis using False True IH by (auto intro: reach.reach_step)
    next
      case jn: False
      then have "i \<noteq> p" "i \<noteq> f" using reach_step.hyps(1) assms(3,4) by auto
      then have "n_next (ns' ! i) = Some j" using nx(3) False reach_step.hyps(1) by simp
      then show ?thesis using False jn IH by (auto intro: reach.reach_step)
    qed
  qed
qed auto

lemma reach_move_end:
  assumes "reach ns a b" "b = n" "a \<noteq> n" "n_next (ns ! f) = None"
    and len: "a < length ns" "ranked r ns"
    and indeg: "\<And>i. i < length ns \<Longrightarrow> n_next (ns ! i) = Some n \<Longrightarrow> i = p"
    and nx: "n_next (ns' ! p) = Some f"
      "\<And>i. i \<noteq> n \<Longrightarrow> i \<noteq> f \<Longrightarrow> i \<noteq> p \<Longrightarrow> n_next (ns' ! i) = n_next (ns ! i)"
  shows "reach ns' a f"
  using assms(1-3) len(1)
proof (induction rule: reach.induct)
  case (reach_step i j k)
  have j: "j < length ns" using rankedD [OF len(2) reach_step.prems(3) reach_step.hyps(1)] by simp
  show ?case
  proof (cases "j = n")
    case True
    then have "i = p" using indeg reach_step.prems(3) reach_step.hyps(1) by simp
    then show ?thesis using nx(1) by (auto intro: reach.reach_step)
  next
    case False
    have IH: "reach ns' j f" by (rule reach_step.IH) (use reach_step.prems False j in auto)
    show ?thesis
    proof (cases "i = p")
      case True
      then show ?thesis using nx(1) by (auto intro: reach.reach_step)
    next
      case False
      moreover have "i \<noteq> f" using reach_step.hyps(1) assms(4) by auto
      ultimately have "n_next (ns' ! i) = Some j" using nx(2) reach_step.prems(2) reach_step.hyps(1) by simp
      then show ?thesis using IH by (rule reach.reach_step)
    qed
  qed
qed simp

text \<open>
  Node \<open>n\<close> holds a key whose main position is another node. Its contents move to the free
  node \<open>f\<close>, its predecessor \<open>p\<close> is relinked, and \<open>n\<close> takes the new key with an empty chain.
\<close>

lemma place_move:
  assumes ok: "nodes_ok main ns" and k: "k \<noteq> niltv" "\<And>i. i < length ns \<Longrightarrow> n_key (ns ! i) \<noteq> k"
    and n: "main k = n" "n < length ns" "n_key (ns ! n) \<noteq> niltv" "main (n_key (ns ! n)) \<noteq> n"
    and f: "f < length ns" "n_key (ns ! f) = niltv"
    and p: "p < length ns" "n_next (ns ! p) = Some n"
    and ns1: "ns1 = set_next ns p (Some f)"
    and ns2: "ns2 = ns1[f := (ns1 ! f)\<lparr>n_val := n_val (ns1 ! n), n_key := n_key (ns1 ! n),
                                     n_next := n_next (ns1 ! n)\<rparr>]"
    and ns3: "ns3 = ns2[n := (ns2 ! n)\<lparr>n_next := None, n_val := niltv\<rparr>]"
    and ns': "ns' = ns3[n := (ns3 ! n)\<lparr>n_key := k\<rparr>]"
  shows "placed main ns k ns' n" and "rechain_main main n ns3 f = Some ns3"
    and "n_key (ns' ! f) \<noteq> niltv"
proof -
  obtain r where r: "ranked r ns" using nodes_ok_ranked [OF ok] by blast
  have nf: "n \<noteq> f" using n(3) f(2) by auto
  note fnil = nodes_ok_nil [OF ok f]
  have pn: "p \<noteq> n" using rankedD [OF r p] by auto
  have pf: "p \<noteq> f" using fnil(2) p(2) by auto
  have pkey: "n_key (ns ! p) \<noteq> niltv" using nodes_ok_nil(2) [OF ok p(1)] p(2) by auto
  have len3: "length ns3 = length ns" and len: "length ns' = length ns"
    by (simp_all add: ns' ns1 ns2 ns3 set_next_def)
  have indeg: "i = p" if "i < length ns" "n_next (ns ! i) = Some n" for i
    by (rule nodes_ok_indeg [OF ok that(1) p(1) that(2) p(2)])
  have n3: "ns3 ! i = (if i = n then (ns ! n)\<lparr>n_next := None, n_val := niltv\<rparr>
       else if i = f then (ns ! f)\<lparr>n_val := n_val (ns ! n), n_key := n_key (ns ! n), n_next := n_next (ns ! n)\<rparr>
       else if i = p then (ns ! p)\<lparr>n_next := Some f\<rparr> else ns ! i)" for i
  proof (cases "i < length ns")
    case True
    then show ?thesis
      using n(2) f(1) p(1) nf pn pf by (simp add: ns1 ns2 ns3 set_next_def nth_list_update)
  next
    case False
    then show ?thesis using n(2) f(1) p(1) by (auto simp: ns1 ns2 ns3 set_next_def)
  qed
  have nx: "n_next (ns' ! i) = (if i = n then None else if i = f then n_next (ns ! n)
      else if i = p then Some f else n_next (ns ! i))" for i
    using n(2) len3 n3 by (cases "i = n") (simp_all add: ns')
  have ky: "n_key (ns' ! i) = (if i = n then k else if i = f then n_key (ns ! n) else n_key (ns ! i))" for i
    using n(2) len3 n3 by (cases "i = n") (simp_all add: ns')
  have vl: "n_val (ns' ! i) = (if i = n then niltv else if i = f then n_val (ns ! n) else n_val (ns ! i))" for i
    using n(2) len3 n3 by (cases "i = n") (simp_all add: ns')
  show "n_key (ns' ! f) \<noteq> niltv" using ky nf n(3) by simp
  define r' where "r' = (\<lambda>i. if i = f then r n else r i)"
  have fnx: "n_next (ns ! i) \<noteq> Some f" if "i < length ns" for i using fnil(3) that .
  have step: "j < length ns \<and> r' j < r' i" if i: "i < length ns" "n_next (ns' ! i) = Some j" for i j
  proof -
    consider "i = f" "n_next (ns ! n) = Some j" | "i = p" "j = f" |
      "i \<noteq> f" "i \<noteq> p" "i \<noteq> n" "n_next (ns ! i) = Some j"
      using i(2) by (auto simp: nx split: if_splits)
    then show ?thesis
    proof cases
      case 1
      then show ?thesis using rankedD [OF r n(2)] fnx [OF n(2)] by (auto simp: r'_def)
    next
      case 2
      then show ?thesis using rankedD [OF r p] f(1) pf by (simp add: r'_def)
    next
      case 3
      then show ?thesis using rankedD [OF r i(1)] fnx [OF i(1)] by (auto simp: r'_def)
    qed
  qed
  then have 1: "\<exists>r. ranked r ns'" by (auto simp: ranked_def len)
  have nx3: "n_next (ns3 ! i) = n_next (ns' ! i)" for i using n3 nx by simp
  have "ranked r' ns3" using step by (simp add: ranked_def len3 nx3)
  moreover have "main (n_key (ns3 ! j)) \<noteq> n" if "j < length ns3" "\<not> tvisnil (n_val (ns3 ! j))" for j
  proof -
    have j: "j < length ns" "j \<noteq> n" using that n3 by (auto simp: len3 tvisnil_def niltv_def)
    show ?thesis
    proof (cases "j = f")
      case True
      then show ?thesis using n3 nf n(4) by simp
    next
      case False
      then have v: "n_val (ns ! j) \<noteq> niltv" "n_key (ns3 ! j) = n_key (ns ! j)"
        using that(2) j(2) n3 by (auto simp: tvisnil_def niltv_def split: if_splits)
      then have "n_key (ns ! j) \<noteq> niltv" using nodes_ok_nil(1) [OF ok j(1)] by blast
      then show ?thesis using nodes_ok_home [OF ok n(2) j(1) n(3) _ n(4)] v by simp
    qed
  qed
  ultimately show "rechain_main main n ns3 f = Some ns3"
    using f(1) by (intro rechain_main_id) (simp_all add: len3)
  have 2: "nodes_indeg ns'"
    unfolding nodes_indeg_def len
    using nodes_ok_indeg [OF ok] fnx n(2) by (auto simp: nx split: if_splits)
  have 3: "nodes_free ns'"
    unfolding nodes_free_def len
    using nodes_ok_nil [OF ok] k(1) n(2,3) pkey by (auto simp: nx ky vl)
  have mm: "main (n_key (ns ! i)) \<noteq> n" if "i < length ns" "n_key (ns ! i) \<noteq> niltv" for i
    using nodes_ok_home [OF ok n(2) that(1) n(3) that(2) n(4)] .
  have 4: "nodes_chained main ns'"
    unfolding nodes_chained_def len
  proof (intro allI impI)
    fix i assume i: "i < length ns" "n_key (ns' ! i) \<noteq> niltv"
    show "main (n_key (ns' ! i)) < length ns \<and> reach ns' (main (n_key (ns' ! i))) i"
    proof (cases "i = n")
      case True
      then show ?thesis using n ky by simp
    next
      case False
      define j where "j = (if i = f then n else i)"
      have j: "j < length ns" "n_key (ns ! j) \<noteq> niltv" "n_key (ns' ! i) = n_key (ns ! j)"
        using i n False by (auto simp: j_def ky split: if_splits)
      note c = nodes_ok_chained [OF ok j(1,2)]
      have nxp: "n_next (ns' ! p) = Some f" "n_next (ns' ! f) = n_next (ns ! n)"
        "\<And>l. l \<noteq> n \<Longrightarrow> l \<noteq> f \<Longrightarrow> l \<noteq> p \<Longrightarrow> n_next (ns' ! l) = n_next (ns ! l)"
        using pf pn nf by (simp_all add: nx)
      have "reach ns' (main (n_key (ns ! j))) i"
      proof (cases "i = f")
        case True
        then have "j = n" by (simp add: j_def)
        from reach_move_end [OF c(2) this mm [OF j(1,2)] fnil(2) c(1) r indeg nxp(1,3)]
        show ?thesis using True by simp
      next
        case jf: False
        then have ji: "j = i" by (simp add: j_def)
        have "j \<noteq> n" using ji False by simp
        from reach_move [OF c(2) this fnil(2) p(2) c(1) r indeg nxp]
        show ?thesis using mm [OF j(1,2)] ji by simp
      qed
      then show ?thesis using c(1) j(3) by simp
    qed
  qed
  have 5: "nodes_home main ns'"
    unfolding nodes_home_def len
  proof (intro allI impI)
    fix i j assume i: "i < length ns" "n_key (ns' ! i) \<noteq> niltv" "main (n_key (ns' ! i)) \<noteq> i"
      and j: "j < length ns" "n_key (ns' ! j) \<noteq> niltv"
    have "i \<noteq> n" using i(3) ky n(1) by auto
    define l where "l = (if j = f then n else j)"
    have l: "j \<noteq> n \<Longrightarrow> l < length ns \<and> n_key (ns ! l) \<noteq> niltv \<and> n_key (ns' ! j) = n_key (ns ! l)"
      using j n by (auto simp: l_def ky split: if_splits)
    have fm: "main (n_key (ns' ! j)) \<noteq> f"
    proof (cases "j = n")
      case True then show ?thesis using ky n(1) nf by simp
    next
      case False
      then show ?thesis using l nodes_ok_free_main [OF ok f] by auto
    qed
    show "main (n_key (ns' ! j)) \<noteq> i"
    proof (cases "i = f")
      case False
      then have hi: "n_key (ns ! i) \<noteq> niltv" "main (n_key (ns ! i)) \<noteq> i"
        using i ky \<open>i \<noteq> n\<close> by simp_all
      show ?thesis
      proof (cases "j = n")
        case True then show ?thesis using ky n(1) \<open>i \<noteq> n\<close> by simp
      next
        case False
        then show ?thesis using l nodes_ok_home [OF ok i(1) _ hi(1) _ hi(2), of l] by auto
      qed
    qed (use fm in simp)
  qed
  have 6: "nodes_distinct ns'"
    unfolding nodes_distinct_def len
    using nodes_ok_distinct [OF ok] k(2) n(2,3) f by (auto simp: ky split: if_splits)
  have ok': "nodes_ok main ns'" using 1 2 3 4 5 6 by (simp add: nodes_ok_def)
  have nv: "nval ns' k' = nval ns k'" if "k' \<noteq> k" "k' \<noteq> niltv" for k'
  proof (rule nval_eqI [OF ok ok' that(2)])
    fix i assume i: "i < length ns" "n_key (ns ! i) = k'" "n_val (ns ! i) \<noteq> niltv"
    show "\<exists>j<length ns'. n_key (ns' ! j) = k' \<and> n_val (ns' ! j) = n_val (ns ! i)"
    proof (cases "i = n")
      case True
      then show ?thesis using i f(1) nf by (intro exI [of _ f]) (simp add: ky vl len)
    next
      case False
      moreover have "i \<noteq> f" using i(2) f(2) that(2) by auto
      ultimately show ?thesis using i by (intro exI [of _ i]) (simp add: ky vl len)
    qed
  next
    fix j assume j: "j < length ns'" "n_key (ns' ! j) = k'"
    then have "j \<noteq> n" using ky that(1) by auto
    then show "\<exists>i<length ns. n_key (ns ! i) = k' \<and> n_val (ns ! i) = n_val (ns' ! j)"
      using j n(2) by (intro exI [of _ "if j = f then n else j"]) (simp add: ky vl len split: if_splits)
  qed
  show "placed main ns k ns' n"
    unfolding placed_def using ok' n(2) len ky vl k(1) nv n(3) f by auto
qed

end
