(* ===== verification/LjKey.thy ===== *)
theory LjKey
  imports LjTabNode
begin

text \<open>
  Table keys as tagged words: which words are keys, the normal form under which numbers that
  equal a 32 bit integer are stored, and how \<open>lj_obj_equal\<close> and the hash respect it.
\<close>

section \<open>Table keys\<close>

text \<open>
  The words the VM builds: a primitive value has all payload bits set, and the tag of
  dual-number integers is not in use. A valid key is such a word that is neither nil nor NaN.
  Number keys that equal a 32 bit integer are stored as that integer's double.
\<close>

definition tv_canon :: "tvalue \<Rightarrow> bool" where
  "tv_canon v \<longleftrightarrow> (tvispri v \<longrightarrow> unat (gcval v) = 2 ^ 47 - 1) \<and> (tvisnumber v \<longrightarrow> tvisnum v)"

definition key_valid :: "tvalue \<Rightarrow> bool" where
  "key_valid v \<longleftrightarrow> tv_canon v \<and> \<not> tvisnil v \<and> (tvisnum v \<longrightarrow> \<not> tvisnan v)"

definition key_norm :: "tvalue \<Rightarrow> tvalue" where
  "key_norm v = (if tvisnum v \<and> dbl_eq v (int2dbl (lj_num2int v)) then int2dbl (lj_num2int v) else v)"

definition key_is_int :: "tvalue \<Rightarrow> bool" where
  "key_is_int v \<longleftrightarrow> tvisnum v \<and> dbl_eq v (int2dbl (lj_num2int v))"

lemma unat_dbl_mag: "unat v = (if dbl_neg v then 2 ^ 63 else 0) + dbl_mag v"
proof -
  have "unat v = 2 ^ 63 * (unat v div 2 ^ 63) + dbl_mag v" by (simp add: dbl_mag_def)
  moreover have "unat v div 2 ^ 63 = (if dbl_neg v then 1 else 0)"
  proof (cases "dbl_neg v")
    case True
    moreover have "unat v div 2 ^ 63 < 2" using unat_bound64 [of v] by (simp add: div_less_iff_less_mult)
    moreover have "1 \<le> unat v div 2 ^ 63" using True by (simp add: dbl_neg_def le_div_geq)
    ultimately show ?thesis by simp
  qed (simp add: dbl_neg_def)
  ultimately show ?thesis by simp
qed

lemma dbl_nan_int2dbl [simp]: "\<not> dbl_nan (int2dbl k)"
  using int2dbl_mag [of k] by (simp add: dbl_nan_def)

lemma tvisnum_int2dbl [simp]: "tvisnum (int2dbl k)"
proof -
  have "unat (int2dbl k) < 2 ^ 63 + 2 ^ 52 * (1023 + 32)"
    using int2dbl_mag [of k] unat_dbl_mag [of "int2dbl k"] by (simp split: if_splits)
  then have "hi17 (int2dbl k) < 2 ^ 17 - 14" unfolding hi17_def by (simp add: div_less_iff_less_mult)
  then show ?thesis by (simp add: tvisnum_iff)
qed

lemma dbl_eq_refl: "dbl_eq v v \<longleftrightarrow> \<not> dbl_nan v" by (auto simp: dbl_eq_def)
lemma dbl_eq_sym: "dbl_eq v w \<longleftrightarrow> dbl_eq w v" by (auto simp: dbl_eq_def)
lemma dbl_eq_trans: "dbl_eq u v \<Longrightarrow> dbl_eq v w \<Longrightarrow> dbl_eq u w" by (auto simp: dbl_eq_def)

lemma tvisnan_iff: "tvisnan v \<longleftrightarrow> dbl_nan v" by (simp add: tvisnan_def dbl_eq_refl)

lemma tvisnil_hi17: "tv_canon v \<Longrightarrow> tvisnil v \<longleftrightarrow> hi17 v = 2 ^ 17 - 1"
proof
  assume "tvisnil v"
  then show "hi17 v = 2 ^ 17 - 1" by (simp add: tvisnil_def hi17_def)
next
  assume "tv_canon v" "hi17 v = 2 ^ 17 - 1"
  then have "unat (gcval v) = 2 ^ 47 - 1" by (simp add: tv_canon_def tvispri_iff)
  then have "unat v = unat (- 1 :: u64)" using hi17_lo47 [of v] \<open>hi17 v = 2 ^ 17 - 1\<close> by simp
  then show "tvisnil v" by (simp only: tvisnil_def word_unat_eq_iff)
qed

lemma tvisnum_not_pri: "tvisnum v \<Longrightarrow> \<not> tvispri v" "tvisnum v \<Longrightarrow> \<not> tvisnil v" "tvisnum v \<Longrightarrow> tvisnumber v"
  by (auto simp: tvisnum_iff tvispri_iff tvisnumber_iff tvisnil_def hi17_def)

lemma tvisstr_not: "tvisstr v \<Longrightarrow> \<not> tvispri v" "tvisstr v \<Longrightarrow> \<not> tvisnum v"
  "tvisstr v \<Longrightarrow> \<not> tvisnumber v" "tvisstr v \<Longrightarrow> \<not> tvisnil v"
  by (auto simp: tvisnum_iff tvispri_iff tvisnumber_iff tvisstr_iff tvisnil_def hi17_def)

lemma key_valid_int2dbl [simp]: "key_valid (int2dbl k)"
  by (simp add: key_valid_def tv_canon_def tvisnum_not_pri tvisnan_iff)

lemma key_is_int_int2dbl [simp]: "key_is_int (int2dbl k)"
  by (simp add: key_is_int_def dbl_eq_refl)

lemma key_norm_int2dbl [simp]: "key_norm (int2dbl k) = int2dbl k"
  by (simp add: key_norm_def dbl_eq_refl)

lemma key_norm_not_int: "\<not> key_is_int v \<Longrightarrow> key_norm v = v"
  by (auto simp: key_norm_def key_is_int_def)

lemma key_norm_is_int: "key_is_int v \<Longrightarrow> key_norm v = int2dbl (lj_num2int v)"
  by (auto simp: key_norm_def key_is_int_def)

lemma key_norm_idem [simp]: "key_norm (key_norm v) = key_norm v"
  by (cases "key_is_int v") (simp_all add: key_norm_is_int key_norm_not_int)

lemma key_valid_norm: "key_valid v \<Longrightarrow> key_valid (key_norm v)"
  by (cases "key_is_int v") (simp_all add: key_norm_is_int key_norm_not_int)

lemma key_norm_tvisnum [simp]: "tvisnum (key_norm v) \<longleftrightarrow> tvisnum v"
  by (cases "key_is_int v") (simp_all add: key_norm_is_int key_norm_not_int, simp add: key_is_int_def)

lemma key_norm_not_num: "\<not> tvisnum v \<Longrightarrow> key_norm v = v"
  by (simp add: key_norm_def)

lemma key_valid_not_nil: "key_valid v \<Longrightarrow> v \<noteq> niltv"
  by (simp add: key_valid_def tvisnil_def niltv_def)

lemma dbl_eq_key_norm:
  assumes "tvisnum v" "\<not> dbl_nan v"
  shows "dbl_eq v (key_norm v)"
  using assms by (cases "key_is_int v") (simp_all add: key_norm_is_int key_norm_not_int dbl_eq_refl, simp add: key_is_int_def)

text \<open>Normalised number keys are equal as numbers only if they are the same word.\<close>

lemma lj_num2int_zero: "dbl_mag v = 0 \<Longrightarrow> lj_num2int v = 0"
proof -
  assume m: "dbl_mag v = 0"
  have "dbl_exp v = dbl_mag v div 2 ^ 52"
  proof -
    have "unat v div 2 ^ 52 mod 2 ^ 11 = unat v mod (2 ^ 52 * 2 ^ 11) div 2 ^ 52"
      by (simp only: mod_mult2_eq div_mult_self4 add_0_right) simp
    then show ?thesis by (simp add: dbl_exp_def dbl_mag_def)
  qed
  then show ?thesis using m by (simp add: lj_num2int_def)
qed

lemma key_norm_zero: "tvisnum v \<Longrightarrow> dbl_mag v = 0 \<Longrightarrow> key_norm v = 0"
proof -
  assume v: "tvisnum v" "dbl_mag v = 0"
  have i0: "int2dbl 0 = 0" by (simp add: int2dbl_0)
  have "dbl_eq v (int2dbl 0)" using v by (simp add: dbl_eq_def dbl_nan_def i0 dbl_mag_def)
  then show ?thesis using v by (simp add: key_norm_def lj_num2int_zero i0)
qed

lemma dbl_eq_norm:
  assumes "tvisnum v" "tvisnum w" "dbl_eq v w"
  shows "key_norm v = key_norm w"
  using assms by (auto simp: dbl_eq_def key_norm_zero)

lemma obj_equal_norm:
  assumes "key_valid v" "key_valid w"
  shows "lj_obj_equal v w \<longleftrightarrow> key_norm v = key_norm w"
proof (cases "tvisnum v \<and> tvisnum w")
  case True
  then have "lj_obj_equal v w \<longleftrightarrow> dbl_eq v w"
    by (auto simp: lj_obj_equal_def tvisnum_not_pri)
  moreover have "dbl_eq v w" if "key_norm v = key_norm w"
    using that True assms dbl_eq_key_norm [of v] dbl_eq_key_norm [of w]
    by (metis dbl_eq_sym dbl_eq_trans key_valid_def tvisnan_iff)
  ultimately show ?thesis using True dbl_eq_norm by blast
next
  case False
  have c: "tvisnumber v \<longleftrightarrow> tvisnum v" "tvisnumber w \<longleftrightarrow> tvisnum w"
    using assms by (auto simp: key_valid_def tv_canon_def tvisnum_not_pri)
  have "lj_obj_equal v w \<longleftrightarrow> v = w"
  proof (cases "itype v = itype w")
    case True
    then have h: "hi17 v = hi17 w" by (simp add: itype_eq_hi17)
    then have nn: "\<not> tvisnum v" "\<not> tvisnum w" using False by (auto simp: tvisnum_iff)
    show ?thesis
    proof (cases "tvispri v")
      case True
      then have "tvispri w" using h by (simp add: tvispri_iff)
      then have "gcval v = gcval w" using True assms
        by (simp add: key_valid_def tv_canon_def word_unat_eq_iff)
      then have "v = w" using h by (simp add: tv_eq_iff [of v w])
      then show ?thesis using True by (simp add: lj_obj_equal_def)
    qed (use True nn in \<open>simp add: lj_obj_equal_def\<close>)
  qed (use False c in \<open>auto simp: lj_obj_equal_def\<close>)
  moreover have "key_norm v = key_norm w \<longleftrightarrow> v = w"
  proof
    assume e: "key_norm v = key_norm w"
    then have "tvisnum v \<longleftrightarrow> tvisnum w" by (metis key_norm_tvisnum)
    then show "v = w" using e False by (simp add: key_norm_not_num)
  qed simp
  ultimately show ?thesis by simp
qed

lemma obj_equal_nil: "key_valid w \<Longrightarrow> \<not> lj_obj_equal niltv w"
proof -
  assume w: "key_valid w"
  then have "hi17 w \<noteq> 2 ^ 17 - 1" using tvisnil_hi17 by (auto simp: key_valid_def)
  moreover have h: "hi17 niltv = 2 ^ 17 - 1" by (simp add: niltv_def hi17_def)
  ultimately have "itype niltv \<noteq> itype w" by (simp add: itype_eq_hi17)
  moreover have "\<not> tvisnumber niltv" using h by (simp add: tvisnumber_iff)
  ultimately show ?thesis by (simp add: lj_obj_equal_def)
qed

lemma hashkey_norm: "hashkey sid t (key_norm v) = hashkey sid t v"
proof (cases "key_is_int v")
  case True
  then have v: "tvisnum v" "dbl_eq v (key_norm v)" by (simp_all add: key_is_int_def key_norm_is_int)
  have "hashnum t w = hashmask t (hashrot 0 0)" if "dbl_mag w = 0" for w
  proof -
    have "unat w = 0 \<or> unat w = 2 ^ 63" using unat_dbl_mag [of w] that by (simp split: if_splits)
    then have "w = 0 \<or> w = 0x8000000000000000" by (auto simp: word_unat_eq_iff)
    moreover have "u32lo 0x8000000000000000 = 0" "push_bit 1 (u32hi 0x8000000000000000) = 0"
      by code_simp+
    moreover have "u32lo 0 = 0" "push_bit 1 (u32hi 0) = 0" by (simp_all add: u32lo_def u32hi_def)
    ultimately show ?thesis by (auto simp only: hashnum_def)
  qed
  then have "hashnum t (key_norm v) = hashnum t v" using v(2) by (auto simp: dbl_eq_def)
  then show ?thesis using v(1) tvisstr_not(2) [of v] tvisstr_not(2) [of "key_norm v"]
    by (auto simp: hashkey_def)
qed (simp add: key_norm_not_int)

end
