(* ===== verification/LjTabInv.thy ===== *)
theory LjTabInv
  imports LjKey
begin

text \<open>
  The invariant of a table, the finite map it stands for, and the correctness of lookup and of
  insertion while a node is free.
\<close>

section \<open>Invariant and abstraction\<close>

definition in_array :: "gctab \<Rightarrow> tvalue \<Rightarrow> bool" where
  "in_array t k \<longleftrightarrow> key_is_int k \<and> lj_num2int k < t_asize t"

definition hkey_ok :: "gctab \<Rightarrow> tvalue \<Rightarrow> bool" where
  "hkey_ok t k \<longleftrightarrow> key_valid k \<and> key_norm k = k \<and> \<not> in_array t k"

definition tab_ok :: "(gcref \<Rightarrow> u32) \<Rightarrow> gctab \<Rightarrow> bool" where
  "tab_ok sid t \<longleftrightarrow>
     unat (t_asize t) \<le> length (t_array t) \<and> unat (t_asize t) \<le> LJ_MAX_ASIZE
   \<and> length (t_node t) = unat (t_hmask t) + 1
   \<and> (\<exists>b \<le> LJ_MAX_HBITS. length (t_node t) = 2 ^ b)
   \<and> (t_hmask t = 0 \<longrightarrow> t_node t = [nilnode] \<and> t_freetop t = 0)
   \<and> t_freetop t \<le> length (t_node t)
   \<and> (t_hmask t \<noteq> 0 \<longrightarrow>
        (\<forall>i<length (t_node t). t_freetop t \<le> i \<longrightarrow> n_key (t_node t ! i) \<noteq> niltv))
   \<and> nodes_ok (hashkey sid t) (t_node t)
   \<and> (\<forall>i<length (t_node t). n_key (t_node t ! i) \<noteq> niltv \<longrightarrow> hkey_ok t (n_key (t_node t ! i)))"

lemma tab_okD:
  assumes "tab_ok sid t"
  shows tab_ok_array: "unat (t_asize t) \<le> length (t_array t)"
    and tab_ok_asize: "unat (t_asize t) \<le> LJ_MAX_ASIZE"
    and tab_ok_hmask: "length (t_node t) = unat (t_hmask t) + 1"
    and tab_ok_size: "\<exists>b \<le> LJ_MAX_HBITS. length (t_node t) = 2 ^ b"
    and tab_ok_empty: "t_hmask t = 0 \<Longrightarrow> t_node t = [nilnode] \<and> t_freetop t = 0"
    and tab_ok_freetop: "t_freetop t \<le> length (t_node t)"
    and tab_ok_above: "t_hmask t \<noteq> 0 \<Longrightarrow> i < length (t_node t) \<Longrightarrow> t_freetop t \<le> i \<Longrightarrow>
        n_key (t_node t ! i) \<noteq> niltv"
    and tab_ok_nodes: "nodes_ok (hashkey sid t) (t_node t)"
    and tab_ok_key: "i < length (t_node t) \<Longrightarrow> n_key (t_node t ! i) \<noteq> niltv \<Longrightarrow>
        hkey_ok t (n_key (t_node t ! i))"
  using assms unfolding tab_ok_def by blast+

text \<open>
  The table as a function from keys to values, nil where there is none. Both parts of the table
  read through the normal form of the key.
\<close>

definition tab_abs :: "gctab \<Rightarrow> tvalue \<Rightarrow> tvalue" where
  "tab_abs t k =
     (if in_array t k then t_array t ! unat (lj_num2int k) else nval (t_node t) (key_norm k))"

lemma in_array_norm: "in_array t (key_norm k) \<longleftrightarrow> in_array t k"
proof (cases "key_is_int k")
  case True
  then show ?thesis by (simp add: in_array_def key_norm_is_int)
qed (simp add: key_norm_not_int)

lemma tab_abs_norm: "tab_abs t (key_norm k) = tab_abs t k"
proof (cases "key_is_int k")
  case True
  then show ?thesis using in_array_norm [of t k] by (simp add: tab_abs_def key_norm_is_int)
qed (simp add: key_norm_not_int)

lemma in_array_int2dbl: "in_array t (int2dbl i) \<longleftrightarrow> i < t_asize t"
  by (simp add: in_array_def)

lemma hashmask_less: "tab_ok sid t \<Longrightarrow> hashmask t h < length (t_node t)"
  using unat_and_le [of h "t_hmask t"] by (simp add: hashmask_def tab_ok_hmask)

lemma hashkey_less: "tab_ok sid t \<Longrightarrow> hashkey sid' t k < length (t_node t)"
  by (simp add: hashkey_def hashnum_def hashgcref_def hashmask_less)

lemma hashkey_cong: "t_hmask t' = t_hmask t \<Longrightarrow> hashkey sid t' = hashkey sid t"
  by (intro ext) (simp add: hashkey_def hashnum_def hashgcref_def hashmask_def)

section \<open>Lookup\<close>

text \<open>
  Every search of the code walks the chain of the key's hash with a test that, on the keys of
  the table, means equality with the normal form of the key.
\<close>

lemma chain_find_key:
  assumes ok: "tab_ok sid t" and k: "key_valid k"
    and P: "\<And>i. i < length (t_node t) \<Longrightarrow> n_key (t_node t ! i) \<noteq> niltv \<Longrightarrow>
        P (n_key (t_node t ! i)) \<longleftrightarrow> n_key (t_node t ! i) = key_norm k" and Pn: "\<not> P niltv"
  shows "(\<exists>i. chain_find P (t_node t) (hashkey sid t k) = Some (Some i) \<and> i < length (t_node t)
            \<and> n_key (t_node t ! i) = key_norm k)
       \<or> chain_find P (t_node t) (hashkey sid t k) = Some None
           \<and> (\<forall>i<length (t_node t). n_key (t_node t ! i) \<noteq> key_norm k)"
proof -
  let ?ns = "t_node t" and ?h = "hashkey sid t k"
  note nok = tab_ok_nodes [OF ok]
  have kn: "key_norm k \<noteq> niltv" using k by (intro key_valid_not_nil key_valid_norm)
  have hl: "?h < length ?ns" using ok by (rule hashkey_less)
  obtain r where r: "ranked r ?ns" using nodes_ok_ranked [OF nok] by blast
  from chain_find_result [OF r hl, of P] show ?thesis
  proof
    assume "\<exists>j. chain_find P ?ns ?h = Some (Some j) \<and> reach ?ns ?h j \<and> j < length ?ns \<and> P (n_key (?ns ! j))"
    then obtain j where j: "chain_find P ?ns ?h = Some (Some j)" "j < length ?ns" "P (n_key (?ns ! j))" by blast
    then show ?thesis using P Pn by metis
  next
    assume c: "chain_find P ?ns ?h = Some None \<and> (\<forall>j. reach ?ns ?h j \<longrightarrow> \<not> P (n_key (?ns ! j)))"
    have "n_key (?ns ! i) \<noteq> key_norm k" if i: "i < length ?ns" for i
    proof
      assume e: "n_key (?ns ! i) = key_norm k"
      then have "reach ?ns ?h i"
        using nodes_ok_reach [OF nok i] kn by (simp add: hashkey_norm)
      then have "\<not> P (n_key (?ns ! i))" using c by blast
      then show False using P [OF i] e kn by simp
    qed
    then show ?thesis using c by blast
  qed
qed

lemma find_generic:
  assumes ok: "tab_ok sid t" and k: "key_valid k"
  shows "(\<exists>i. chain_find (\<lambda>nk. lj_obj_equal nk k) (t_node t) (hashkey sid t k) = Some (Some i)
            \<and> i < length (t_node t) \<and> n_key (t_node t ! i) = key_norm k)
       \<or> chain_find (\<lambda>nk. lj_obj_equal nk k) (t_node t) (hashkey sid t k) = Some None
           \<and> (\<forall>i<length (t_node t). n_key (t_node t ! i) \<noteq> key_norm k)"
proof (rule chain_find_key [OF ok k])
  fix i assume "i < length (t_node t)" "n_key (t_node t ! i) \<noteq> niltv"
  then have "hkey_ok t (n_key (t_node t ! i))" by (rule tab_ok_key [OF ok])
  then show "lj_obj_equal (n_key (t_node t ! i)) k \<longleftrightarrow> n_key (t_node t ! i) = key_norm k"
    using k by (simp add: obj_equal_norm hkey_ok_def)
qed (use k in \<open>simp add: obj_equal_nil\<close>)

lemma find_int:
  fixes n :: u32
  assumes ok: "tab_ok sid t"
  defines "k \<equiv> int2dbl n"
  shows "(\<exists>i. chain_find (\<lambda>nk. tvisnum nk \<and> dbl_eq nk k) (t_node t) (hashnum t k) = Some (Some i)
            \<and> i < length (t_node t) \<and> n_key (t_node t ! i) = k)
       \<or> chain_find (\<lambda>nk. tvisnum nk \<and> dbl_eq nk k) (t_node t) (hashnum t k) = Some None
           \<and> (\<forall>i<length (t_node t). n_key (t_node t ! i) \<noteq> k)"
proof -
  have k: "key_valid k" "key_norm k = k" "tvisnum k" by (simp_all add: k_def)
  have h: "hashkey sid t k = hashnum t k" using k(3) tvisstr_not(2) [of k] by (auto simp: hashkey_def)
  have e: "tvisnum nk \<and> dbl_eq nk k \<longleftrightarrow> nk = k" if "hkey_ok t nk" for nk
  proof
    assume a: "tvisnum nk \<and> dbl_eq nk k"
    then have "key_norm nk = key_norm k" using k(3) by (intro dbl_eq_norm) auto
    then show "nk = k" using that k(2) by (simp add: hkey_ok_def)
  qed (use k(3) in \<open>simp add: k_def dbl_eq_refl\<close>)
  have n: "\<not> tvisnum niltv" using tvisnum_not_pri(2) [of niltv] by (auto simp: tvisnil_def niltv_def)
  show ?thesis
    using chain_find_key [OF ok k(1), of "\<lambda>nk. tvisnum nk \<and> dbl_eq nk k"] e n tab_ok_key [OF ok]
    unfolding h k(2) by blast
qed

lemma find_str:
  assumes ok: "tab_ok sid t" and k: "tvisstr k"
  shows "(\<exists>i. chain_find (\<lambda>nk. tvisstr nk \<and> gcval nk = gcval k) (t_node t) (hashmask t (sid (gcval k))) = Some (Some i)
            \<and> i < length (t_node t) \<and> n_key (t_node t ! i) = k)
       \<or> chain_find (\<lambda>nk. tvisstr nk \<and> gcval nk = gcval k) (t_node t) (hashmask t (sid (gcval k))) = Some None
           \<and> (\<forall>i<length (t_node t). n_key (t_node t ! i) \<noteq> k)"
proof -
  have kv: "key_valid k" "key_norm k = k"
    using k by (auto simp: key_valid_def tv_canon_def tvisstr_not key_norm_not_num)
  have h: "hashkey sid t k = hashmask t (sid (gcval k))" using k by (simp add: hashkey_def)
  have e: "tvisstr nk \<and> gcval nk = gcval k \<longleftrightarrow> nk = k" for nk
    using k by (auto simp: tv_eq_iff [of nk k] tvisstr_iff)
  have n: "\<not> tvisstr niltv" using tvisstr_not(4) [of niltv] by (auto simp: tvisnil_def niltv_def)
  show ?thesis
    using chain_find_key [OF ok kv(1), of "\<lambda>nk. tvisstr nk \<and> gcval nk = gcval k"] e n
    unfolding h kv(2) by blast
qed

lemma tab_abs_node:
  assumes ok: "tab_ok sid t" and "i < length (t_node t)" "n_key (t_node t ! i) = k" "k \<noteq> niltv"
    "key_norm k = k"
  shows "tab_abs t k = n_val (t_node t ! i)"
proof -
  have "hkey_ok t k" using tab_ok_key [OF ok assms(2)] assms(3,4) by simp
  then have "\<not> in_array t k" by (simp add: hkey_ok_def)
  then show ?thesis using nval_node [OF tab_ok_nodes [OF ok] assms(2-4)] assms(5) by (simp add: tab_abs_def)
qed

lemma tab_abs_absent:
  assumes "\<not> in_array t k" "\<forall>i<length (t_node t). n_key (t_node t ! i) \<noteq> key_norm k"
  shows "tab_abs t k = niltv"
  using assms by (simp add: tab_abs_def nval_absent)

lemma getint_abs:
  assumes ok: "tab_ok sid t"
  shows "slot_val t (lj_tab_getint t n) = Some (tab_abs t (int2dbl n))"
proof (cases "n < t_asize t")
  case True
  then show ?thesis
    by (simp add: lj_tab_getint_def slot_val_def slot_get_def tab_abs_def in_array_int2dbl)
next
  case False
  then have na: "\<not> in_array t (int2dbl n)" by (simp add: in_array_int2dbl)
  have nn: "int2dbl n \<noteq> niltv" by (intro key_valid_not_nil) simp
  from find_int [OF ok, of n] show ?thesis
  proof
    assume "\<exists>i. chain_find (\<lambda>nk. tvisnum nk \<and> dbl_eq nk (int2dbl n)) (t_node t) (hashnum t (int2dbl n)) = Some (Some i)
      \<and> i < length (t_node t) \<and> n_key (t_node t ! i) = int2dbl n"
    then show ?thesis using False tab_abs_node [OF ok _ _ nn]
      by (auto simp: lj_tab_getint_def lj_tab_getinth_def slot_val_def slot_get_def)
  next
    assume c: "chain_find (\<lambda>nk. tvisnum nk \<and> dbl_eq nk (int2dbl n)) (t_node t) (hashnum t (int2dbl n)) = Some None
      \<and> (\<forall>i<length (t_node t). n_key (t_node t ! i) \<noteq> int2dbl n)"
    then have "tab_abs t (int2dbl n) = niltv" using na by (intro tab_abs_absent) simp_all
    then show ?thesis using False c
      by (simp add: lj_tab_getint_def lj_tab_getinth_def slot_val_def)
  qed
qed

lemma lj_tab_get_abs:
  assumes ok: "tab_ok sid t" and k: "key_valid k"
  shows "lj_tab_get sid t k = Some (tab_abs t k)"
proof -
  have kn: "key_norm k \<noteq> niltv" using k by (intro key_valid_not_nil key_valid_norm)
  have nn: "\<not> tvisnil k" using k by (simp add: key_valid_def)
  consider "tvisstr k" | "key_is_int k" "\<not> tvisstr k" | "\<not> tvisstr k" "\<not> key_is_int k" by blast
  then show ?thesis
  proof cases
    case 1
    then have nrm: "key_norm k = k" by (simp add: key_norm_not_num tvisstr_not)
    have na: "\<not> in_array t k" using 1 by (auto simp: in_array_def key_is_int_def tvisstr_not)
    show ?thesis using find_str [OF ok 1] tab_abs_node [OF ok _ _ kn [unfolded nrm] nrm]
        tab_abs_absent [OF na, unfolded nrm] 1
      by (auto simp: lj_tab_get_def lj_tab_getstr_def slot_val_def slot_get_def)
  next
    case 2
    then have "lj_tab_get sid t k = slot_val t (lj_tab_getint t (lj_num2int k))"
      by (simp add: lj_tab_get_def key_is_int_def Let_def)
    also have "\<dots> = Some (tab_abs t (key_norm k))"
      using getint_abs [OF ok, of "lj_num2int k"] 2 by (simp add: key_norm_is_int)
    finally show ?thesis by (simp add: tab_abs_norm)
  next
    case 3
    then have nrm: "key_norm k = k" by (simp add: key_norm_not_int)
    have na: "\<not> in_array t k" using 3 by (auto simp: in_array_def)
    have "lj_tab_get sid t k = slot_val t (map_option (map_option NodeSlot)
        (chain_find (\<lambda>nk. lj_obj_equal nk k) (t_node t) (hashkey sid t k)))"
      using 3 nn by (auto simp: lj_tab_get_def Let_def key_is_int_def)
    then show ?thesis using find_generic [OF ok k] tab_abs_node [OF ok _ _ kn [unfolded nrm] nrm]
        tab_abs_absent [OF na] nrm
      by (auto simp: slot_val_def slot_get_def)
  qed
qed

end
