(* ===== verification/LjTabSet.thy ===== *)
theory LjTabSet
  imports LjTabInv
begin

text \<open>Insertion: slots, a new key while a node is free, and the setters.\<close>

section \<open>Writing through a slot\<close>

definition slot_for :: "gctab \<Rightarrow> slot \<Rightarrow> tvalue \<Rightarrow> bool" where
  "slot_for t s k = (case s of
     ArraySlot i \<Rightarrow> in_array t k \<and> i = unat (lj_num2int k)
   | NodeSlot i \<Rightarrow> \<not> in_array t k \<and> i < length (t_node t) \<and> n_key (t_node t ! i) = key_norm k)"

lemma nodes_ok_put_val:
  fixes v :: tvalue
  assumes ok: "nodes_ok main ns" and i: "i < length ns" "n_key (ns ! i) \<noteq> niltv"
  defines "ns' \<equiv> ns[i := (ns ! i)\<lparr>n_val := v\<rparr>]"
  shows "nodes_ok main ns'"
    and "k \<noteq> niltv \<Longrightarrow> nval ns' k = (if k = n_key (ns ! i) then v else nval ns k)"
proof -
  have len: "length ns' = length ns" by (simp add: ns'_def)
  have nx: "n_next (ns' ! j) = n_next (ns ! j)" for j
    using i(1) by (cases "j = i") (simp_all add: ns'_def)
  have ky: "n_key (ns' ! j) = n_key (ns ! j)" for j
    using i(1) by (cases "j = i") (simp_all add: ns'_def)
  have vl: "n_val (ns' ! j) = (if j = i then v else n_val (ns ! j))" for j
    using i(1) by (cases "j = i") (simp_all add: ns'_def)
  have rch: "reach ns' a b \<longleftrightarrow> reach ns a b" for a b using nx by (metis reach_cong)
  show ok': "nodes_ok main ns'"
    using ok i by (auto simp: nodes_ok_def ranked_def nodes_indeg_def nodes_free_def
        nodes_chained_def nodes_home_def nodes_distinct_def len nx ky vl rch)
  assume k: "k \<noteq> niltv"
  show "nval ns' k = (if k = n_key (ns ! i) then v else nval ns k)"
  proof (cases "k = n_key (ns ! i)")
    case True
    then show ?thesis using nval_node [OF ok', of i k] i by (simp add: len ky vl)
  next
    case False
    then have "nval ns' k = nval ns k"
      by (intro nval_eqI [OF ok ok' k]) (auto simp: len ky vl)
    then show ?thesis using False by simp
  qed
qed

lemma slot_put_simps:
  "t_asize (slot_put t s v) = t_asize t" "t_hmask (slot_put t s v) = t_hmask t"
  "t_colo (slot_put t s v) = t_colo t" "t_freetop (slot_put t s v) = t_freetop t"
  "length (t_array (slot_put t s v)) = length (t_array t)"
  "length (t_node (slot_put t s v)) = length (t_node t)"
  by (simp_all add: slot_put_def split: slot.splits)

lemma in_array_cong: "t_asize t' = t_asize t \<Longrightarrow> in_array t' k \<longleftrightarrow> in_array t k"
  by (simp add: in_array_def)

lemma in_array_inj:
  "in_array t j \<Longrightarrow> in_array t k \<Longrightarrow> key_norm j = key_norm k \<longleftrightarrow> unat (lj_num2int j) = unat (lj_num2int k)"
  by (auto simp: in_array_def key_norm_is_int int2dbl_inj word_unat_eq_iff [of "lj_num2int j"])

lemma slot_put_ok:
  assumes ok: "tab_ok sid t" and k: "key_valid k" and s: "slot_for t s k"
  shows "tab_ok sid (slot_put t s v)"
    and "key_valid j \<Longrightarrow> tab_abs (slot_put t s v) j = (if key_norm j = key_norm k then v else tab_abs t j)"
proof -
  let ?t = "slot_put t s v"
  have kn: "key_norm k \<noteq> niltv" using k by (intro key_valid_not_nil key_valid_norm)
  have hc: "hashkey sid ?t = hashkey sid t" by (rule hashkey_cong) (simp add: slot_put_simps)
  have ia: "in_array ?t = in_array t" by (intro ext in_array_cong) (simp add: slot_put_simps)
  have hk: "hkey_ok ?t = hkey_ok t" by (intro ext) (simp add: hkey_ok_def ia)
  have "tab_ok sid ?t \<and> (key_valid j \<longrightarrow> tab_abs ?t j = (if key_norm j = key_norm k then v else tab_abs t j))"
  proof (cases s)
    case (ArraySlot i)
    then have i: "in_array t k" "i = unat (lj_num2int k)" using s by (simp_all add: slot_for_def)
    then have il: "i < length (t_array t)"
      using tab_ok_array [OF ok] by (simp add: in_array_def word_less_nat_alt)
    have nd: "t_node ?t = t_node t" and ar: "t_array ?t = (t_array t)[i := v]"
      using ArraySlot by (simp_all add: slot_put_def)
    have "tab_ok sid ?t"
      using ok unfolding tab_ok_def hc hk nd slot_put_simps .
    moreover have "tab_abs ?t j = (if key_norm j = key_norm k then v else tab_abs t j)"
    proof (cases "in_array t j")
      case True
      then show ?thesis using in_array_inj [OF True i(1)] il i(2)
        by (simp add: tab_abs_def ia ar nth_list_update)
    next
      case False
      then have "key_norm j \<noteq> key_norm k" using i(1) in_array_norm by metis
      then show ?thesis using False by (simp add: tab_abs_def ia nd)
    qed
    ultimately show ?thesis by simp
  next
    case (NodeSlot i)
    then have i: "\<not> in_array t k" "i < length (t_node t)" "n_key (t_node t ! i) = key_norm k"
      using s by (simp_all add: slot_for_def)
    have nd: "t_node ?t = (t_node t)[i := (t_node t ! i)\<lparr>n_val := v\<rparr>]"
      and ar: "t_array ?t = t_array t" using NodeSlot by (simp_all add: slot_put_def)
    have ky: "n_key (t_node ?t ! j) = n_key (t_node t ! j)" for j
      using i(2) by (cases "j = i") (simp_all add: nd)
    have h0: "t_hmask t \<noteq> 0" using tab_ok_empty [OF ok] i(2,3) kn by (auto simp: nilnode_def)
    note np = nodes_ok_put_val [OF tab_ok_nodes [OF ok] i(2), where v = v]
    have "nodes_ok (hashkey sid ?t) (t_node ?t)" unfolding hc nd using np(1) i(3) kn by simp
    then have "tab_ok sid ?t"
      using ok h0 unfolding tab_ok_def hk ky slot_put_simps ar by blast
    moreover have "tab_abs ?t j = (if key_norm j = key_norm k then v else tab_abs t j)" if "key_valid j"
    proof (cases "in_array t j")
      case True
      then have "key_norm j \<noteq> key_norm k" using i(1) in_array_norm by metis
      then show ?thesis using True by (simp add: tab_abs_def ia ar)
    next
      case False
      have "key_norm j \<noteq> niltv" using that by (intro key_valid_not_nil key_valid_norm)
      then show ?thesis using False np(2) [where k = "key_norm j"] i(3) kn by (simp add: tab_abs_def ia nd)
    qed
    ultimately show ?thesis by simp
  qed
  then show "tab_ok sid ?t"
    "key_valid j \<Longrightarrow> tab_abs ?t j = (if key_norm j = key_norm k then v else tab_abs t j)" by simp_all
qed

section \<open>Free nodes\<close>

definition keyset :: "node list \<Rightarrow> tvalue set" where
  "keyset ns = n_key ` set ns - {niltv}"

lemma keyset_iff: "k \<in> keyset ns \<longleftrightarrow> k \<noteq> niltv \<and> (\<exists>i<length ns. n_key (ns ! i) = k)"
proof
  assume "k \<in> keyset ns"
  then obtain n where "n \<in> set ns" "k = n_key n" "k \<noteq> niltv" by (auto simp: keyset_def)
  then show "k \<noteq> niltv \<and> (\<exists>i<length ns. n_key (ns ! i) = k)" by (auto simp: in_set_conv_nth)
qed (auto simp: keyset_def)

lemma finite_keyset [simp]: "finite (keyset ns)" by (simp add: keyset_def)

lemma newkey_free_Some:
  "newkey_free ns ft = Some f \<Longrightarrow> f < ft \<and> n_key (ns ! f) = niltv \<and> (\<forall>i. f < i \<and> i < ft \<longrightarrow> n_key (ns ! i) \<noteq> niltv)"
proof (induction ft)
  case (Suc ft)
  then show ?case by (auto simp: tvisnil_def niltv_def less_Suc_eq split: if_splits)
qed simp

lemma newkey_free_None: "newkey_free ns ft = None \<Longrightarrow> i < ft \<Longrightarrow> n_key (ns ! i) \<noteq> niltv"
  by (induction ft) (auto simp: tvisnil_def niltv_def less_Suc_eq split: if_splits)

lemma full_card:
  assumes "nodes_distinct ns" "\<And>i. i < length ns \<Longrightarrow> n_key (ns ! i) \<noteq> niltv"
  shows "card (keyset ns) = length ns"
proof -
  have "distinct (map n_key ns)" using assms by (auto simp: distinct_conv_nth nodes_distinct_def)
  then have "card (set (map n_key ns)) = length ns" by (metis distinct_card length_map)
  moreover have "keyset ns = set (map n_key ns)"
    using assms(2) by (auto simp: keyset_def in_set_conv_nth)
  ultimately show ?thesis by simp
qed

lemma newkey_free_exists:
  assumes ok: "tab_ok sid t" and "card (keyset (t_node t)) < length (t_node t)" "t_hmask t \<noteq> 0"
  shows "newkey_free (t_node t) (t_freetop t) \<noteq> None"
proof
  assume none: "newkey_free (t_node t) (t_freetop t) = None"
  have "n_key (t_node t ! i) \<noteq> niltv" if "i < length (t_node t)" for i
    using newkey_free_None [OF none] tab_ok_above [OF ok assms(3) that] by (cases "i < t_freetop t") auto
  then have "card (keyset (t_node t)) = length (t_node t)"
    using tab_ok_nodes [OF ok] by (intro full_card) (simp_all add: nodes_ok_def)
  then show False using assms(2) by simp
qed

section \<open>A new key\<close>

text \<open>
  The table after an insertion or a search: same sizes and array part, the same finite map, and
  a slot for the key; at most one node more holds a key.
\<close>

definition inserted :: "(gcref \<Rightarrow> u32) \<Rightarrow> gctab \<Rightarrow> tvalue \<Rightarrow> gctab \<Rightarrow> slot \<Rightarrow> bool" where
  "inserted sid t k t' s \<longleftrightarrow>
     tab_ok sid t' \<and> slot_for t' s k
   \<and> (\<forall>j. key_valid j \<longrightarrow> tab_abs t' j = tab_abs t j)
   \<and> t_asize t' = t_asize t \<and> t_hmask t' = t_hmask t \<and> t_array t' = t_array t \<and> t_colo t' = t_colo t
   \<and> keyset (t_node t') \<subseteq> insert (key_norm k) (keyset (t_node t))"

lemma norm_not_mzero: "key_norm k = k \<Longrightarrow> \<not> tvismzero k"
proof
  assume k: "key_norm k = k" "tvismzero k"
  then have "tvisnum k" "dbl_mag k = 0" by (simp_all add: tvismzero_def tvisnum_iff hi17_def dbl_mag_def)
  then show False using k key_norm_zero [of k] by (simp add: tvismzero_def)
qed

lemma placed_inserted:
  assumes ok: "tab_ok sid t" and k: "key_valid k" "key_norm k = k" "\<not> in_array t k"
      "\<And>i. i < length (t_node t) \<Longrightarrow> n_key (t_node t ! i) \<noteq> k"
    and p: "placed (hashkey sid t) (t_node t) k ns' m"
    and t': "t' = lj_gc_anybarriert (t\<lparr>t_freetop := ft, t_node := ns'\<rparr>)"
    and h: "t_hmask t \<noteq> 0" and ft: "ft \<le> length (t_node t)"
      "\<And>i. i < length (t_node t) \<Longrightarrow> ft \<le> i \<Longrightarrow> n_key (ns' ! i) \<noteq> niltv"
  shows "inserted sid t k t' (NodeSlot m)"
proof -
  have f: "t_asize t' = t_asize t" "t_hmask t' = t_hmask t" "t_array t' = t_array t" "t_colo t' = t_colo t"
    "t_node t' = ns'" "t_freetop t' = ft" by (simp_all add: t' lj_gc_anybarriert_def)
  have kn: "k \<noteq> niltv" using k by (simp add: key_valid_not_nil)
  have hc: "hashkey sid t' = hashkey sid t" by (rule hashkey_cong) (simp add: f)
  have ia: "in_array t' = in_array t" by (intro ext in_array_cong) (simp add: f)
  have hk: "hkey_ok t' = hkey_ok t" by (intro ext) (simp add: hkey_ok_def ia)
  from p have len: "length ns' = length (t_node t)" and nok: "nodes_ok (hashkey sid t) ns'"
    and m: "m < length (t_node t)" "n_key (ns' ! m) = k" "n_val (ns' ! m) = niltv"
    and nv: "\<And>k'. k' \<noteq> k \<Longrightarrow> k' \<noteq> niltv \<Longrightarrow> nval ns' k' = nval (t_node t) k'"
    and old: "\<And>i. i < length (t_node t) \<Longrightarrow> n_key (ns' ! i) \<noteq> k \<Longrightarrow> n_key (ns' ! i) \<noteq> niltv \<Longrightarrow>
        \<exists>j<length (t_node t). n_key (t_node t ! j) = n_key (ns' ! i)"
    by (simp_all add: placed_def)
  have key: "hkey_ok t (n_key (ns' ! i))" if i: "i < length ns'" "n_key (ns' ! i) \<noteq> niltv" for i
  proof (cases "n_key (ns' ! i) = k")
    case False
    then obtain j where "j < length (t_node t)" "n_key (t_node t ! j) = n_key (ns' ! i)"
      using old i len by auto
    then show ?thesis using tab_ok_key [OF ok, of j] i by simp
  qed (use k in \<open>simp add: hkey_ok_def\<close>)
  have "tab_ok sid t'"
    unfolding tab_ok_def hc hk f len
    using tab_ok_array [OF ok] tab_ok_asize [OF ok] tab_ok_hmask [OF ok] tab_ok_size [OF ok] h ft nok key len
    by auto
  moreover have "slot_for t' (NodeSlot m) k" using m k by (simp add: slot_for_def ia f len)
  moreover have "tab_abs t' j = tab_abs t j" if j: "key_valid j" for j
  proof -
    have jn: "key_norm j \<noteq> niltv" using j by (intro key_valid_not_nil key_valid_norm)
    have "nval ns' (key_norm j) = nval (t_node t) (key_norm j)"
    proof (cases "key_norm j = k")
      case True
      then show ?thesis using nval_node [OF nok _ m(2) kn] m len nval_absent [OF k(4)] by simp
    qed (use nv jn in simp)
    then show ?thesis by (simp add: tab_abs_def ia f)
  qed
  moreover have "keyset ns' \<subseteq> insert k (keyset (t_node t))"
  proof
    fix x assume "x \<in> keyset ns'"
    then obtain i where i: "i < length ns'" "n_key (ns' ! i) = x" "x \<noteq> niltv" by (auto simp: keyset_iff)
    show "x \<in> insert k (keyset (t_node t))"
    proof (cases "x = k")
      case False
      then show ?thesis using old [of i] i len by (auto simp: keyset_iff)
    qed simp
  qed
  ultimately show ?thesis using k(2) by (simp add: inserted_def f)
qed


lemma newkey_step_result:
  assumes ok: "tab_ok sid t" and k: "key_valid k" "key_norm k = k" "\<not> in_array t k"
      "\<And>i. i < length (t_node t) \<Longrightarrow> n_key (t_node t ! i) \<noteq> k"
  shows "newkey_step R sid t k = R t k \<and> newkey_free (t_node t) (t_freetop t) = None
    \<or> (\<exists>t' s. newkey_step R sid t k = Inr (t', s) \<and> inserted sid t k t' s)"
proof -
  let ?ns = "t_node t" and ?main = "hashkey sid t"
  define n where "n = ?main k"
  note nok = tab_ok_nodes [OF ok]
  have kn: "k \<noteq> niltv" using k by (simp add: key_valid_not_nil)
  have nl: "n < length ?ns" unfolding n_def by (rule hashkey_less [OF ok])
  have mz: "\<not> tvismzero k" using k(2) by (rule norm_not_mzero)
  have store: "newkey_store (t\<lparr>t_freetop := ft\<rparr>) ns m k =
      (lj_gc_anybarriert (t\<lparr>t_freetop := ft, t_node := ns[m := (ns ! m)\<lparr>n_key := k\<rparr>]\<rparr>), NodeSlot m)" for ft ns m
    using mz by (simp add: newkey_store_def)
  show ?thesis
  proof (cases "\<not> tvisnil (n_val (?ns ! n)) \<or> t_hmask t = 0")
    case False
    then have v: "n_val (?ns ! n) = niltv" and h: "t_hmask t \<noteq> 0" by (simp_all add: tvisnil_def niltv_def)
    have p: "placed ?main ?ns k (?ns[n := (?ns ! n)\<lparr>n_key := k\<rparr>]) n"
      by (rule place_main [OF nok kn k(4) n_def [symmetric] nl v refl])
    have "inserted sid t k (lj_gc_anybarriert (t\<lparr>t_freetop := t_freetop t, t_node := ?ns[n := (?ns ! n)\<lparr>n_key := k\<rparr>]\<rparr>)) (NodeSlot n)"
      by (rule placed_inserted [OF ok k p refl h tab_ok_freetop [OF ok]])
        (use tab_ok_above [OF ok h] p in \<open>auto simp: placed_def\<close>)
    moreover have "newkey_step R sid t k = Inr (newkey_store t ?ns n k)"
      using False by (simp add: newkey_step_def n_def [symmetric] Let_def)
    ultimately show ?thesis using store [of "t_freetop t" ?ns n] by auto
  next
    case busy: True
    show ?thesis
    proof (cases "newkey_free ?ns (t_freetop t)")
      case None
      then show ?thesis using busy by (simp add: newkey_step_def n_def [symmetric] Let_def)
    next
      case (Some f)
      note fr = newkey_free_Some [OF Some]
      then have fl: "f < length ?ns" using tab_ok_freetop [OF ok] by simp
      have fk: "n_key (?ns ! f) = niltv" using fr by blast
      have h: "t_hmask t \<noteq> 0" using tab_ok_empty [OF ok] Some by auto
      then have val: "n_val (?ns ! n) \<noteq> niltv" using busy by (simp add: tvisnil_def niltv_def)
      then have nk: "n_key (?ns ! n) \<noteq> niltv" using nodes_ok_nil(1) [OF nok nl] by blast
      define c where "c = ?main (n_key (?ns ! n))"
      have hc: "hashkey sid (t\<lparr>t_freetop := f\<rparr>) = ?main" by (rule hashkey_cong) simp
      have above: "n_key (ns' ! i) \<noteq> niltv"
        if p: "placed ?main ?ns k ns' m" and nf: "n_key (ns' ! f) \<noteq> niltv" and i: "i < length ?ns" "f \<le> i" for ns' m i
      proof (cases "i = f")
        case False
        then have "n_key (?ns ! i) \<noteq> niltv"
          using fr i tab_ok_above [OF ok h i(1)] by (cases "i < t_freetop t") auto
        then show ?thesis using p i by (simp add: placed_def)
      qed (use nf in simp)
      show ?thesis
      proof (cases "c = n")
        case True
        define ns1 where "ns1 = set_next ?ns f (n_next (?ns ! n))"
        define ns2 where "ns2 = set_next ns1 n (Some f)"
        have p: "placed ?main ?ns k (ns2[f := (ns2 ! f)\<lparr>n_key := k\<rparr>]) f"
          by (rule place_free [OF nok kn k(4) n_def [symmetric] nl nk True [unfolded c_def] fl fk ns1_def ns2_def refl])
        have "inserted sid t k (lj_gc_anybarriert (t\<lparr>t_freetop := f, t_node := ns2[f := (ns2 ! f)\<lparr>n_key := k\<rparr>]\<rparr>)) (NodeSlot f)"
          using fl above [OF p] p kn by (intro placed_inserted [OF ok k p refl h]) (auto simp: placed_def)
        moreover have "newkey_step R sid t k = Inr (newkey_store (t\<lparr>t_freetop := f\<rparr>) ns2 f k)"
          using busy Some True by (simp add: newkey_step_def n_def [symmetric] c_def [symmetric] Let_def hc ns1_def ns2_def)
        ultimately show ?thesis by (auto simp: store)
      next
        case False
        obtain r where r: "ranked r ?ns" using nodes_ok_ranked [OF nok] by blast
        have cl: "c < length ?ns" and cr: "reach ?ns c n"
          using nodes_ok_chained [OF nok nl nk] by (simp_all add: c_def)
        from find_pred_result [OF r cl cr False] obtain p where
          fp: "find_pred ?ns c n = Some (Some p)" "p < length ?ns" "n_next (?ns ! p) = Some n" by blast
        define ns1 where "ns1 = set_next ?ns p (Some f)"
        define ns2 where "ns2 = ns1[f := (ns1 ! f)\<lparr>n_val := n_val (ns1 ! n), n_key := n_key (ns1 ! n),
                                     n_next := n_next (ns1 ! n)\<rparr>]"
        define ns3 where "ns3 = ns2[n := (ns2 ! n)\<lparr>n_next := None, n_val := niltv\<rparr>]"
        note mv = place_move [OF nok kn k(4) n_def [symmetric] nl nk False [unfolded c_def] fl fk fp(2,3)
            ns1_def ns2_def ns3_def refl]
        have "inserted sid t k (lj_gc_anybarriert (t\<lparr>t_freetop := f, t_node := ns3[n := (ns3 ! n)\<lparr>n_key := k\<rparr>]\<rparr>)) (NodeSlot n)"
          using fl above [OF mv(1) mv(3)] by (intro placed_inserted [OF ok k mv(1) refl h]) auto
        moreover have "newkey_step R sid t k = Inr (newkey_store (t\<lparr>t_freetop := f\<rparr>) ns3 n k)"
          using busy Some False fp(1) mv(2)
          by (simp add: newkey_step_def n_def [symmetric] c_def [symmetric] Let_def hc
              ns1_def [symmetric] ns2_def [symmetric] ns3_def [symmetric])
        ultimately show ?thesis by (auto simp: store)
      qed
    qed
  qed
qed


section \<open>The setters\<close>

lemma nomm_simps:
  "tab_ok sid (t\<lparr>t_nomm := x\<rparr>) \<longleftrightarrow> tab_ok sid t"
  "tab_abs (t\<lparr>t_nomm := x\<rparr>) k = tab_abs t k"
  "in_array (t\<lparr>t_nomm := x\<rparr>) k \<longleftrightarrow> in_array t k"
  "slot_for (t\<lparr>t_nomm := x\<rparr>) s k \<longleftrightarrow> slot_for t s k"
proof -
  have h: "hashkey sid (t\<lparr>t_nomm := x\<rparr>) = hashkey sid t" by (rule hashkey_cong) simp
  have a: "in_array (t\<lparr>t_nomm := x\<rparr>) = in_array t" by (intro ext) (simp add: in_array_def)
  have k: "hkey_ok (t\<lparr>t_nomm := x\<rparr>) = hkey_ok t" by (intro ext) (simp add: hkey_ok_def a)
  show "tab_ok sid (t\<lparr>t_nomm := x\<rparr>) \<longleftrightarrow> tab_ok sid t" by (simp add: tab_ok_def h k)
  show "tab_abs (t\<lparr>t_nomm := x\<rparr>) k = tab_abs t k" by (simp add: tab_abs_def a)
  show "in_array (t\<lparr>t_nomm := x\<rparr>) k \<longleftrightarrow> in_array t k" by (simp add: a)
  show "slot_for (t\<lparr>t_nomm := x\<rparr>) s k \<longleftrightarrow> slot_for t s k" by (simp add: slot_for_def a split: slot.split)
qed

lemma inserted_nomm: "inserted sid (t\<lparr>t_nomm := x\<rparr>) k t' s \<longleftrightarrow> inserted sid t k t' s"
  by (simp add: inserted_def nomm_simps)

lemma inserted_found:
  assumes "tab_ok sid t" "\<not> in_array t k" "i < length (t_node t)" "n_key (t_node t ! i) = key_norm k"
  shows "inserted sid t k t (NodeSlot i)"
  using assms by (auto simp: inserted_def slot_for_def)

lemma inserted_array: "tab_ok sid t \<Longrightarrow> in_array t k \<Longrightarrow> inserted sid t k t (ArraySlot (unat (lj_num2int k)))"
  by (auto simp: inserted_def slot_for_def)

lemma inserted_key_norm: "inserted sid t (key_norm k) t' s \<longleftrightarrow> inserted sid t k t' s"
proof -
  have "slot_for t' s (key_norm k) \<longleftrightarrow> slot_for t' s k"
  proof (cases "key_is_int k")
    case True
    then show ?thesis using in_array_norm [of t' k] by (simp add: slot_for_def key_norm_is_int split: slot.splits)
  qed (simp add: key_norm_not_int)
  then show ?thesis by (simp add: inserted_def)
qed

text \<open>A setter either yields a slot, or asks for a rehash for a key that is not in the table.\<close>

definition set_outcome ::
  "(gctab \<Rightarrow> tvalue \<Rightarrow> slot_result) \<Rightarrow> (gcref \<Rightarrow> u32) \<Rightarrow> gctab \<Rightarrow> tvalue \<Rightarrow> slot_result \<Rightarrow> bool" where
  "set_outcome R sid t k r \<longleftrightarrow>
     (\<exists>t' s. r = Inr (t', s) \<and> inserted sid t k t' s)
   \<or> r = R t (key_norm k) \<and> newkey_free (t_node t) (t_freetop t) = None \<and> \<not> in_array t k
       \<and> (\<forall>i<length (t_node t). n_key (t_node t ! i) \<noteq> key_norm k)"

lemma newkey_outcome:
  assumes ok: "tab_ok sid t" and k: "key_valid k" "\<not> in_array t k"
    and a: "\<forall>i<length (t_node t). n_key (t_node t ! i) \<noteq> key_norm k"
  shows "set_outcome R sid t k (newkey_step R sid t (key_norm k))"
proof -
  have "\<not> in_array t (key_norm k)" using k(2) by (simp add: in_array_norm)
  from newkey_step_result [OF ok key_valid_norm [OF k(1)] key_norm_idem this, of R] a k(2)
  show ?thesis by (auto simp: set_outcome_def inserted_key_norm)
qed

lemma setinth_outcome:
  assumes ok: "tab_ok sid t" and n: "\<not> n < t_asize t"
  shows "set_outcome R sid t (int2dbl n) (setinth_with (newkey_step R sid) t n)"
proof -
  let ?k = "int2dbl n" and ?P = "\<lambda>nk. tvisnum nk \<and> dbl_eq nk (int2dbl n)"
  have na: "\<not> in_array t ?k" using n by (simp add: in_array_int2dbl)
  from find_int [OF ok, of n] show ?thesis
  proof
    assume "\<exists>i. chain_find ?P (t_node t) (hashnum t ?k) = Some (Some i) \<and> i < length (t_node t) \<and> n_key (t_node t ! i) = ?k"
    then obtain i where i: "chain_find ?P (t_node t) (hashnum t ?k) = Some (Some i)"
      "i < length (t_node t)" "n_key (t_node t ! i) = key_norm ?k" by auto
    then have "setinth_with (newkey_step R sid) t n = Inr (t, NodeSlot i)" by (simp add: setinth_with_def)
    then show ?thesis using inserted_found [OF ok na i(2,3)] by (auto simp: set_outcome_def)
  next
    assume c: "chain_find ?P (t_node t) (hashnum t ?k) = Some None \<and> (\<forall>i<length (t_node t). n_key (t_node t ! i) \<noteq> ?k)"
    then have "setinth_with (newkey_step R sid) t n = newkey_step R sid t (key_norm ?k)" by (simp add: setinth_with_def)
    then show ?thesis using newkey_outcome [OF ok _ na, of R] c by simp
  qed
qed

lemma setint_outcome:
  assumes ok: "tab_ok sid t"
  shows "set_outcome R sid t (int2dbl n) (setint_with (newkey_step R sid) t n)"
proof (cases "n < t_asize t")
  case True
  then show ?thesis using inserted_array [OF ok, of "int2dbl n"]
    by (auto simp: set_outcome_def setint_with_def in_array_int2dbl)
next
  case False
  then show ?thesis using setinth_outcome [OF ok False] by (simp add: setint_with_def)
qed

lemma setstr_outcome:
  assumes ok: "tab_ok sid t" and k: "tvisstr k"
  shows "set_outcome R sid t k (setstr_with (newkey_step R sid) sid t (gcval k))"
proof -
  let ?P = "\<lambda>nk. tvisstr nk \<and> gcval nk = gcval k" and ?h = "hashmask t (sid (gcval k))"
  have nk: "key_norm k = k" using k by (simp add: key_norm_not_num tvisstr_not)
  have kv: "key_valid k" using k by (auto simp: key_valid_def tv_canon_def tvisstr_not)
  have na: "\<not> in_array t k" using k by (auto simp: in_array_def key_is_int_def tvisstr_not)
  from find_str [OF ok k] show ?thesis
  proof
    assume "\<exists>i. chain_find ?P (t_node t) ?h = Some (Some i) \<and> i < length (t_node t) \<and> n_key (t_node t ! i) = k"
    then obtain i where i: "chain_find ?P (t_node t) ?h = Some (Some i)"
      "i < length (t_node t)" "n_key (t_node t ! i) = key_norm k" using nk by auto
    then have "setstr_with (newkey_step R sid) sid t (gcval k) = Inr (t, NodeSlot i)" by (simp add: setstr_with_def)
    then show ?thesis using inserted_found [OF ok na i(2,3)] by (auto simp: set_outcome_def)
  next
    assume c: "chain_find ?P (t_node t) ?h = Some None \<and> (\<forall>i<length (t_node t). n_key (t_node t ! i) \<noteq> k)"
    then have "setstr_with (newkey_step R sid) sid t (gcval k) = newkey_step R sid t (key_norm k)"
      using k nk by (simp add: setstr_with_def setstrV_gcval)
    then show ?thesis using newkey_outcome [OF ok kv na, of R] c nk by simp
  qed
qed

lemma setgen_outcome:
  assumes ok: "tab_ok sid t" and k: "key_valid k" "\<not> key_is_int k"
  shows "set_outcome R sid t k (case chain_find (\<lambda>nk. lj_obj_equal nk k) (t_node t) (hashkey sid t k) of
       None \<Rightarrow> Inl TAB_NOEND | Some (Some i) \<Rightarrow> Inr (t, NodeSlot i) | Some None \<Rightarrow> newkey_step R sid t k)"
proof -
  let ?P = "\<lambda>nk. lj_obj_equal nk k" and ?h = "hashkey sid t k"
  have nk: "key_norm k = k" using k(2) by (rule key_norm_not_int)
  have na: "\<not> in_array t k" using k(2) by (simp add: in_array_def)
  from find_generic [OF ok k(1)] show ?thesis
  proof
    assume "\<exists>i. chain_find ?P (t_node t) ?h = Some (Some i) \<and> i < length (t_node t) \<and> n_key (t_node t ! i) = key_norm k"
    then obtain i where i: "chain_find ?P (t_node t) ?h = Some (Some i)"
      "i < length (t_node t)" "n_key (t_node t ! i) = key_norm k" by auto
    then show ?thesis using inserted_found [OF ok na i(2,3)] by (auto simp: set_outcome_def)
  next
    assume c: "chain_find ?P (t_node t) ?h = Some None \<and> (\<forall>i<length (t_node t). n_key (t_node t ! i) \<noteq> key_norm k)"
    then show ?thesis using newkey_outcome [OF ok k(1) na, of R] nk by simp
  qed
qed

lemma set_with_outcome:
  assumes ok: "tab_ok sid t" and k: "key_valid k"
  shows "set_outcome R sid (t\<lparr>t_nomm := 0\<rparr>) k (set_with (newkey_step R sid) sid t k)"
proof -
  let ?t = "t\<lparr>t_nomm := 0\<rparr>"
  have ok': "tab_ok sid ?t" using ok by (simp add: nomm_simps)
  have nn: "\<not> tvisnil k" "tvisnum k \<Longrightarrow> \<not> tvisnan k" using k by (simp_all add: key_valid_def)
  consider "tvisstr k" | "key_is_int k" "\<not> tvisstr k" | "\<not> tvisstr k" "\<not> key_is_int k" by blast
  then show ?thesis
  proof cases
    case 1
    then show ?thesis using setstr_outcome [OF ok' 1] by (simp add: set_with_def Let_def)
  next
    case 2
    have "set_outcome R sid ?t k r \<longleftrightarrow> set_outcome R sid ?t (key_norm k) r" for r
      by (simp add: set_outcome_def inserted_key_norm in_array_norm)
    then show ?thesis using setint_outcome [OF ok', of R "lj_num2int k"] 2
      by (simp add: set_with_def Let_def key_is_int_def key_norm_def)
  next
    case 3
    then have "set_with (newkey_step R sid) sid t k =
       (case chain_find (\<lambda>nk. lj_obj_equal nk k) (t_node ?t) (hashkey sid ?t k) of
       None \<Rightarrow> Inl TAB_NOEND | Some (Some i) \<Rightarrow> Inr (?t, NodeSlot i) | Some None \<Rightarrow> newkey_step R sid ?t k)"
      using nn by (auto simp: set_with_def Let_def key_is_int_def)
    then show ?thesis using setgen_outcome [OF ok' k 3(2)] by simp
  qed
qed

text \<open>With a free node left, the rehash is never asked for.\<close>

lemma set_outcome_room:
  assumes "set_outcome R sid t k r" "tab_ok sid t"
    and "in_array t k \<or> t_hmask t \<noteq> 0 \<and> card (keyset (t_node t)) < length (t_node t)"
  shows "\<exists>t' s. r = Inr (t', s) \<and> inserted sid t k t' s"
  using assms newkey_free_exists [OF assms(2)] by (auto simp: set_outcome_def)

end
