(* ===== verification/LjTabPut.thy ===== *)
theory LjTabPut
  imports LjTabSet
begin

text \<open>
  Resizing and rehashing: with enough hash nodes for the keys outside the new array part, a
  resize keeps the finite map, and the sizes a rehash computes are always enough, so insertion
  never nests a rehash in a rehash.
\<close>

section \<open>One insertion with room\<close>

definition has_room :: "gctab \<Rightarrow> tvalue \<Rightarrow> bool" where
  "has_room t k \<longleftrightarrow> in_array t k \<or> t_hmask t \<noteq> 0 \<and> card (keyset (t_node t)) < length (t_node t)"

definition put_done :: "(gcref \<Rightarrow> u32) \<Rightarrow> gctab \<Rightarrow> tvalue \<Rightarrow> tvalue \<Rightarrow> gctab \<Rightarrow> bool" where
  "put_done sid t k v t' \<longleftrightarrow>
     tab_ok sid t'
   \<and> (\<forall>j. key_valid j \<longrightarrow> tab_abs t' j = (if key_norm j = key_norm k then v else tab_abs t j))
   \<and> t_asize t' = t_asize t \<and> t_hmask t' = t_hmask t \<and> t_colo t' = t_colo t
   \<and> length (t_array t') = length (t_array t)
   \<and> keyset (t_node t') \<subseteq> keyset (t_node t) \<union> (if in_array t k then {} else {key_norm k})"

lemma keyset_slot_put: "keyset (t_node (slot_put t s v)) = keyset (t_node t)"
proof (cases s)
  case (NodeSlot i)
  have "map n_key ((t_node t)[i := (t_node t ! i)\<lparr>n_val := v\<rparr>]) = map n_key (t_node t)"
  proof (rule nth_equalityI)
    fix j assume "j < length (map n_key ((t_node t)[i := (t_node t ! i)\<lparr>n_val := v\<rparr>]))"
    then show "map n_key ((t_node t)[i := (t_node t ! i)\<lparr>n_val := v\<rparr>]) ! j = map n_key (t_node t) ! j"
      by (cases "j = i") simp_all
  qed simp
  then have "n_key ` set ((t_node t)[i := (t_node t ! i)\<lparr>n_val := v\<rparr>]) = n_key ` set (t_node t)"
    by (metis list.set_map)
  then show ?thesis using NodeSlot by (simp add: keyset_def slot_put_def)
qed (simp add: slot_put_def)

lemma inserted_put:
  assumes k: "key_valid k" and i: "inserted sid t k t' s"
  shows "put_done sid t k v (slot_put t' s v)"
proof -
  from i have ok: "tab_ok sid t'" and sl: "slot_for t' s k"
    and e: "\<And>j. key_valid j \<Longrightarrow> tab_abs t' j = tab_abs t j" "t_asize t' = t_asize t" "t_hmask t' = t_hmask t"
      "t_array t' = t_array t" "t_colo t' = t_colo t"
    and ks: "keyset (t_node t') \<subseteq> insert (key_norm k) (keyset (t_node t))"
    by (simp_all add: inserted_def)
  have "key_norm k \<notin> keyset (t_node t')" if "in_array t k"
  proof
    assume "key_norm k \<in> keyset (t_node t')"
    then obtain j where "j < length (t_node t')" "n_key (t_node t' ! j) = key_norm k" "key_norm k \<noteq> niltv"
      by (auto simp: keyset_iff)
    then have "hkey_ok t' (key_norm k)" using tab_ok_key [OF ok] by metis
    then have "\<not> in_array t' k" by (simp add: hkey_ok_def in_array_norm)
    then show False using that e(2) by (simp add: in_array_def)
  qed
  then have "keyset (t_node t') \<subseteq> keyset (t_node t) \<union> (if in_array t k then {} else {key_norm k})"
    using ks by auto
  then show ?thesis
    using slot_put_ok [OF ok k sl] e by (simp add: put_done_def slot_put_simps keyset_slot_put)
qed

lemma set_with_room:
  assumes ok: "tab_ok sid t" and k: "key_valid k" and room: "has_room t k"
  shows "\<exists>t' s. set_with (newkey_step R sid) sid t k = Inr (t', s) \<and> inserted sid t k t' s"
proof -
  have "\<exists>t' s. set_with (newkey_step R sid) sid t k = Inr (t', s) \<and> inserted sid (t\<lparr>t_nomm := 0\<rparr>) k t' s"
    by (rule set_outcome_room [OF set_with_outcome [OF ok k]])
      (use ok room in \<open>simp_all add: nomm_simps has_room_def\<close>)
  then show ?thesis by (simp add: inserted_nomm)
qed

lemma setinth_with_room:
  assumes ok: "tab_ok sid t" and n: "\<not> n < t_asize t" and room: "has_room t (int2dbl n)"
  shows "\<exists>t' s. setinth_with (newkey_step R sid) t n = Inr (t', s) \<and> inserted sid t (int2dbl n) t' s"
  by (rule set_outcome_room [OF setinth_outcome [OF ok n] ok]) (use room in \<open>simp add: has_room_def\<close>)

section \<open>Inserting a list of pairs\<close>

text \<open>
  Both reinsertion loops of \<^verbatim>\<open>lj_tab_resize\<close> put a list of pairs, through two different setters.
  The interface is the setter's promise: with room for the key it yields a slot for it.
\<close>

primrec put_pairs :: "(gctab \<Rightarrow> tvalue \<Rightarrow> slot_result) \<Rightarrow> gctab \<Rightarrow> (tvalue \<times> tvalue) list \<Rightarrow> tab_err + gctab" where
  "put_pairs ins t [] = Inr t"
| "put_pairs ins t (kv # kvs) =
     (case ins t (fst kv) of Inl e \<Rightarrow> Inl e | Inr (t', s) \<Rightarrow> put_pairs ins (slot_put t' s (snd kv)) kvs)"

definition out_keys :: "gctab \<Rightarrow> (tvalue \<times> tvalue) list \<Rightarrow> tvalue set" where
  "out_keys t kvs = {k \<in> fst ` set kvs. \<not> in_array t k}"

definition hash_cap :: "gctab \<Rightarrow> nat" where
  "hash_cap t = (if t_hmask t = 0 then 0 else length (t_node t))"

lemma hash_cap_cong: "tab_ok sid t \<Longrightarrow> tab_ok sid t' \<Longrightarrow> t_hmask t' = t_hmask t \<Longrightarrow> hash_cap t' = hash_cap t"
  by (simp add: hash_cap_def tab_ok_hmask)

lemma finite_out_keys [simp]: "finite (out_keys t kvs)" by (simp add: out_keys_def)

locale key_inserter =
  fixes sid :: "gcref \<Rightarrow> u32" and ins :: "gctab \<Rightarrow> tvalue \<Rightarrow> slot_result"
    and dom_ok :: "u32 \<Rightarrow> tvalue \<Rightarrow> bool"
  assumes ins_room: "tab_ok sid t \<Longrightarrow> key_valid k \<Longrightarrow> dom_ok (t_asize t) k \<Longrightarrow> has_room t k \<Longrightarrow>
    \<exists>t' s. ins t k = Inr (t', s) \<and> inserted sid t k t' s"
begin

lemma put_one:
  assumes "tab_ok sid t" "key_valid k" "dom_ok (t_asize t) k" "has_room t k"
  shows "\<exists>t' s. ins t k = Inr (t', s) \<and> put_done sid t k v (slot_put t' s v)"
  using ins_room [OF assms] inserted_put [OF assms(2)] by blast

lemma put_pairs_ok:
  assumes "tab_ok sid t"
    and "\<forall>k \<in> fst ` set kvs. key_valid k \<and> key_norm k = k \<and> dom_ok (t_asize t) k"
    and "distinct (map fst kvs)"
    and "keyset (t_node t) \<inter> out_keys t kvs = {}"
    and "card (keyset (t_node t) \<union> out_keys t kvs) \<le> hash_cap t"
  shows "\<exists>t'. put_pairs ins t kvs = Inr t' \<and> tab_ok sid t'
     \<and> (\<forall>j. key_valid j \<longrightarrow> tab_abs t' j =
          (case map_of kvs (key_norm j) of None \<Rightarrow> tab_abs t j | Some v \<Rightarrow> v))
     \<and> t_asize t' = t_asize t \<and> t_hmask t' = t_hmask t \<and> t_colo t' = t_colo t
     \<and> length (t_array t') = length (t_array t)
     \<and> keyset (t_node t') \<subseteq> keyset (t_node t) \<union> out_keys t kvs"
  using assms
proof (induction kvs arbitrary: t)
  case Nil
  then show ?case by simp
next
  case (Cons kv kvs)
  define k where "k = fst kv"
  have k: "key_valid k" "key_norm k = k" "dom_ok (t_asize t) k" using Cons.prems(2) by (auto simp: k_def)
  have ok: "out_keys t (kv # kvs) = (if in_array t k then {} else {k}) \<union> out_keys t kvs"
    by (auto simp: out_keys_def k_def)
  have kn: "k \<notin> fst ` set kvs" using Cons.prems(3) by (simp add: k_def)
  have "has_room t k"
  proof (cases "in_array t k")
    case False
    then have ne: "k \<in> out_keys t (kv # kvs)" by (simp add: ok)
    then have "k \<notin> keyset (t_node t)" using Cons.prems(4) by blast
    then have "card (keyset (t_node t)) < card (insert k (keyset (t_node t)))" by simp
    also have "\<dots> \<le> card (keyset (t_node t) \<union> out_keys t (kv # kvs))"
      using ne by (intro card_mono) auto
    finally have "card (keyset (t_node t)) < hash_cap t" using Cons.prems(5) by simp
    then show ?thesis by (simp add: has_room_def hash_cap_def split: if_splits)
  qed (simp add: has_room_def)
  from put_one [OF Cons.prems(1) k(1,3) this, of "snd kv"] obtain t1 s where
    t1: "ins t k = Inr (t1, s)" and pd: "put_done sid t k (snd kv) (slot_put t1 s (snd kv))" by blast
  define t2 where "t2 = slot_put t1 s (snd kv)"
  from pd have
    p: "tab_ok sid t2" "t_asize t2 = t_asize t" "t_hmask t2 = t_hmask t" "t_colo t2 = t_colo t"
    "length (t_array t2) = length (t_array t)"
    and ks: "keyset (t_node t2) \<subseteq> keyset (t_node t) \<union> (if in_array t k then {} else {k})"
    and pa: "\<And>j. key_valid j \<Longrightarrow> tab_abs t2 j = (if key_norm j = k then snd kv else tab_abs t j)"
    using k(2) unfolding put_done_def t2_def [symmetric] by auto
  have o2: "out_keys t2 kvs = out_keys t kvs"
    using in_array_cong [OF p(2)] by (simp add: out_keys_def)
  have "k \<notin> out_keys t kvs" using kn by (auto simp: out_keys_def)
  then have dj: "keyset (t_node t2) \<inter> out_keys t2 kvs = {}"
    using Cons.prems(4) ks unfolding o2 ok by (auto split: if_splits)
  have sub: "keyset (t_node t2) \<union> out_keys t2 kvs \<subseteq> keyset (t_node t) \<union> out_keys t (kv # kvs)"
    using ks unfolding o2 ok by auto
  then have "card (keyset (t_node t2) \<union> out_keys t2 kvs) \<le> card (keyset (t_node t) \<union> out_keys t (kv # kvs))"
    by (intro card_mono) auto
  then have cap: "card (keyset (t_node t2) \<union> out_keys t2 kvs) \<le> hash_cap t2"
    using Cons.prems(5) hash_cap_cong [OF Cons.prems(1) p(1,3)] by linarith
  have dom: "\<forall>k \<in> fst ` set kvs. key_valid k \<and> key_norm k = k \<and> dom_ok (t_asize t2) k"
    using Cons.prems(2) p(2) by auto
  have di: "distinct (map fst kvs)" using Cons.prems(3) by simp
  from Cons.IH [OF p(1) dom di dj cap] obtain t' where
    t': "put_pairs ins t2 kvs = Inr t'" "tab_ok sid t'"
      "t_asize t' = t_asize t2" "t_hmask t' = t_hmask t2" "t_colo t' = t_colo t2"
      "length (t_array t') = length (t_array t2)"
      "keyset (t_node t') \<subseteq> keyset (t_node t2) \<union> out_keys t2 kvs"
    and ta: "\<And>j. key_valid j \<Longrightarrow> tab_abs t' j =
        (case map_of kvs (key_norm j) of None \<Rightarrow> tab_abs t2 j | Some v \<Rightarrow> v)" by blast
  have r: "put_pairs ins t (kv # kvs) = Inr t'" using t1 t'(1) by (simp add: k_def t2_def)
  have "tab_abs t' j = (case map_of (kv # kvs) (key_norm j) of None \<Rightarrow> tab_abs t j | Some v \<Rightarrow> v)"
    if j: "key_valid j" for j
  proof (cases "key_norm j = k")
    case e: True
    then have "map_of kvs (key_norm j) = None" using kn by (simp add: map_of_eq_None_iff)
    then show ?thesis using ta [OF j] pa [OF j] e by (cases kv) (simp add: k_def)
  next
    case False
    then show ?thesis using ta [OF j] pa [OF j] by (cases kv) (simp add: k_def split: option.split)
  qed
  moreover have "keyset (t_node t') \<subseteq> keyset (t_node t) \<union> out_keys t (kv # kvs)" using t'(7) sub by blast
  ultimately show ?case using r t' p by auto
qed

end

interpretation tset: key_inserter sid "set_with (newkey_step R sid) sid" "\<lambda>_ _. True" for R sid
  by unfold_locales (rule set_with_room)

interpretation tinth: key_inserter sid "\<lambda>t k. setinth_with (newkey_step R sid) t (lj_num2int k)"
    "\<lambda>asize k. key_is_int k \<and> key_norm k = k \<and> \<not> lj_num2int k < asize" for R sid
proof
  fix t k
  assume a: "tab_ok sid t" "key_valid k" "has_room t k"
    and d: "key_is_int k \<and> key_norm k = k \<and> \<not> lj_num2int k < t_asize t"
  from d have "int2dbl (lj_num2int k) = k" using key_norm_is_int by metis
  then show "\<exists>t' s. setinth_with (newkey_step R sid) t (lj_num2int k) = Inr (t', s) \<and> inserted sid t k t' s"
    using setinth_with_room [OF a(1), of "lj_num2int k" R] a d by simp
qed

section \<open>The two loops as lists of pairs\<close>

definition node_pairs :: "node list \<Rightarrow> (tvalue \<times> tvalue) list" where
  "node_pairs ns = map (\<lambda>n. (n_key n, n_val n)) (filter (\<lambda>n. \<not> tvisnil (n_val n)) ns)"

definition array_pairs :: "nat \<Rightarrow> tvalue list \<Rightarrow> (tvalue \<times> tvalue) list" where
  "array_pairs i vs = filter (\<lambda>kv. \<not> tvisnil (snd kv))
     (map (\<lambda>(j, v). (int2dbl (of_nat j), v)) (zip [i..<i + length vs] vs))"

lemma array_pairs_simps:
  "array_pairs i [] = []"
  "array_pairs i (v # vs) = (if tvisnil v then [] else [(int2dbl (of_nat i), v)]) @ array_pairs (Suc i) vs"
proof -
  have "[i..<i + length (v # vs)] = i # [Suc i..<Suc i + length vs]" by (simp add: upt_rec)
  then show "array_pairs i (v # vs) = (if tvisnil v then [] else [(int2dbl (of_nat i), v)]) @ array_pairs (Suc i) vs"
    by (simp add: array_pairs_def del: upt_Suc)
qed (simp add: array_pairs_def)

lemma reinsert_nodes_pairs:
  "reinsert_nodes newkey sid t ns = put_pairs (set_with newkey sid) t (node_pairs ns)"
  by (induction ns arbitrary: t) (auto simp: node_pairs_def split: sum.splits)

lemma reinsert_array_pairs:
  "reinsert_array newkey t i vs = put_pairs (\<lambda>t k. setinth_with newkey t (lj_num2int k)) t (array_pairs i vs)"
  by (induction vs arbitrary: t i) (auto simp: array_pairs_simps split: sum.splits)

end
