(* ===== verification/LjTabResize.thy ===== *)
theory LjTabResize
  imports LjTabPut
begin

text \<open>
  Resizing keeps the finite map if the new hash part has room for the keys outside the new
  array part; the sizes a rehash computes always leave that room.
\<close>

section \<open>The keys of the array part\<close>

lemma nil_iff: "tvisnil v \<longleftrightarrow> v = niltv"
  by (simp add: tvisnil_def niltv_def)

lemma array_pairs_iff:
  assumes "i + length vs \<le> 2 ^ 32"
  shows "(k, v) \<in> set (array_pairs i vs) \<longleftrightarrow>
    (\<exists>n. k = int2dbl n \<and> i \<le> unat n \<and> unat n < i + length vs \<and> vs ! (unat n - i) = v \<and> v \<noteq> niltv)"
proof
  assume "(k, v) \<in> set (array_pairs i vs)"
  then obtain j where j: "k = int2dbl (of_nat (i + j))" "v = vs ! j" "j < length vs" "v \<noteq> niltv"
    by (auto simp: array_pairs_def set_zip nil_iff)
  moreover have "unat (of_nat (i + j) :: u32) = i + j" using j(3) assms by (intro unat_of_nat32) simp
  ultimately show "\<exists>n. k = int2dbl n \<and> i \<le> unat n \<and> unat n < i + length vs \<and> vs ! (unat n - i) = v \<and> v \<noteq> niltv"
    by (intro exI [of _ "of_nat (i + j)"]) simp
next
  assume "\<exists>n. k = int2dbl n \<and> i \<le> unat n \<and> unat n < i + length vs \<and> vs ! (unat n - i) = v \<and> v \<noteq> niltv"
  then obtain n where n: "k = int2dbl n" "i \<le> unat n" "unat n < i + length vs" "vs ! (unat n - i) = v" "v \<noteq> niltv" by blast
  then have "(unat n, v) \<in> set (zip [i..<i + length vs] vs)"
    unfolding set_zip by (intro CollectI exI [of _ "unat n - i"]) auto
  then have "(int2dbl n, v) \<in> set (map (\<lambda>(j, v). (int2dbl (of_nat j), v)) (zip [i..<i + length vs] vs))"
    by force
  then show "(k, v) \<in> set (array_pairs i vs)" using n by (simp add: array_pairs_def nil_iff)
qed

lemma array_pairs_distinct: "i + length vs \<le> 2 ^ 32 \<Longrightarrow> distinct (map fst (array_pairs i vs))"
proof (induction vs arbitrary: i)
  case (Cons v vs)
  have "int2dbl (of_nat i) \<notin> fst ` set (array_pairs (Suc i) vs)"
  proof
    assume "int2dbl (of_nat i) \<in> fst ` set (array_pairs (Suc i) vs)"
    then obtain n :: u32 where "int2dbl (of_nat i) = int2dbl n" "Suc i \<le> unat n"
      using Cons.prems by (auto simp: array_pairs_iff)
    moreover have "unat (of_nat i :: u32) = i" using Cons.prems by (intro unat_of_nat32) simp
    ultimately show False by (simp add: int2dbl_inj)
  qed
  then show ?case using Cons by (simp add: array_pairs_simps)
qed (simp add: array_pairs_simps)

lemma map_of_array_pairs:
  assumes "i + length vs \<le> 2 ^ 32"
  shows "map_of (array_pairs i vs) k =
    (if key_is_int k \<and> key_norm k = k \<and> i \<le> unat (lj_num2int k) \<and> unat (lj_num2int k) < i + length vs
        \<and> vs ! (unat (lj_num2int k) - i) \<noteq> niltv
     then Some (vs ! (unat (lj_num2int k) - i)) else None)"
proof (cases "map_of (array_pairs i vs) k")
  case None
  then have "\<And>v. (k, v) \<notin> set (array_pairs i vs)" by (auto simp: map_of_eq_None_iff image_iff)
  then have "\<not> (key_is_int k \<and> key_norm k = k \<and> i \<le> unat (lj_num2int k) \<and> unat (lj_num2int k) < i + length vs
        \<and> vs ! (unat (lj_num2int k) - i) \<noteq> niltv)"
    unfolding array_pairs_iff [OF assms] using key_norm_is_int [of k] by metis
  then show ?thesis using None by auto
next
  case (Some v)
  then obtain n where "k = int2dbl n" "i \<le> unat n" "unat n < i + length vs" "vs ! (unat n - i) = v" "v \<noteq> niltv"
    using map_of_SomeD array_pairs_iff [OF assms] by metis
  then show ?thesis using Some by auto
qed

section \<open>The keys of the hash part\<close>

lemma node_pairs_iff:
  "(k, v) \<in> set (node_pairs ns) \<longleftrightarrow> (\<exists>i<length ns. n_key (ns ! i) = k \<and> n_val (ns ! i) = v \<and> v \<noteq> niltv)"
  by (auto simp: node_pairs_def nil_iff in_set_conv_nth)

lemma node_pairs_key:
  assumes "tab_ok sid t" "(k, v) \<in> set (node_pairs (t_node t))"
  shows "hkey_ok t k" "tab_abs t k = v" "v \<noteq> niltv" "k \<noteq> niltv"
proof -
  from assms(2) obtain i where i: "i < length (t_node t)" "n_key (t_node t ! i) = k" "n_val (t_node t ! i) = v" "v \<noteq> niltv"
    by (auto simp: node_pairs_iff)
  then show kn: "k \<noteq> niltv" "v \<noteq> niltv" using nodes_ok_nil(1) [OF tab_ok_nodes [OF assms(1)] i(1)] by auto
  then show h: "hkey_ok t k" using tab_ok_key [OF assms(1) i(1)] i(2) by simp
  then show "tab_abs t k = v" using tab_abs_node [OF assms(1) i(1,2) kn(1)] i(3) by (simp add: hkey_ok_def)
qed

lemma node_pairs_distinct:
  assumes "nodes_ok main ns"
  shows "distinct (map fst (node_pairs ns))"
proof -
  let ?L = "filter (\<lambda>n. \<not> tvisnil (n_val n)) ns"
  have "distinct (map n_key ?L)"
  proof -
    have gen: "distinct (map n_key (filter (\<lambda>n. n_val n \<noteq> niltv) xs))"
      if "\<And>i j. i < length xs \<Longrightarrow> j < length xs \<Longrightarrow> n_val (xs ! i) \<noteq> niltv \<Longrightarrow> n_key (xs ! i) = n_key (xs ! j) \<Longrightarrow> i = j" for xs
      using that
    proof (induction xs)
      case (Cons x xs)
      have "n_key x \<notin> n_key ` {y \<in> set xs. n_val y \<noteq> niltv}" if "n_val x \<noteq> niltv"
      proof
        assume "n_key x \<in> n_key ` {y \<in> set xs. n_val y \<noteq> niltv}"
        then obtain j where "j < length xs" "n_key x = n_key (xs ! j)" by (auto simp: in_set_conv_nth)
        then show False using Cons.prems [of 0 "Suc j"] that by simp
      qed
      moreover have "distinct (map n_key (filter (\<lambda>n. n_val n \<noteq> niltv) xs))"
        using Cons.prems [of "Suc _" "Suc _"] by (intro Cons.IH) auto
      ultimately show ?case by auto
    qed simp
    have "i = j" if "i < length ns" "j < length ns" "n_val (ns ! i) \<noteq> niltv" "n_key (ns ! i) = n_key (ns ! j)" for i j
      using nodes_ok_distinct [OF assms that(1,2)] nodes_ok_nil(1) [OF assms that(1)] that(3,4) by metis
    then have "distinct (map n_key (filter (\<lambda>n. n_val n \<noteq> niltv) ns))" by (rule gen)
    then show ?thesis by (simp add: nil_iff)
  qed
  then show ?thesis by (simp add: node_pairs_def comp_def)
qed

lemma nval_pairs:
  assumes "nodes_ok main ns" "k \<noteq> niltv"
  shows "nval ns k = (case map_of (node_pairs ns) k of None \<Rightarrow> niltv | Some v \<Rightarrow> v)"
proof (cases "map_of (node_pairs ns) k")
  case None
  then have n: "\<And>v. (k, v) \<notin> set (node_pairs ns)" by (auto simp: map_of_eq_None_iff image_iff)
  show ?thesis
  proof (cases "\<exists>i<length ns. n_key (ns ! i) = k")
    case True
    then show ?thesis using nval_node [OF assms(1) _ _ assms(2)] n None by (auto simp: node_pairs_iff)
  next
    case False
    then show ?thesis using nval_absent [of ns k] None by auto
  qed
next
  case (Some v)
  then have "(k, v) \<in> set (node_pairs ns)" by (rule map_of_SomeD)
  then show ?thesis using nval_node [OF assms(1) _ _ assms(2)] Some by (auto simp: node_pairs_iff)
qed

section \<open>A table with an empty hash part\<close>

lemma nodes_ok_fresh:
  assumes "\<And>k. main k < n"
  shows "nodes_ok main (replicate n nilnode)"
proof -
  have "ranked (\<lambda>_. 0) (replicate n nilnode)" by (simp add: ranked_def nilnode_def)
  then show ?thesis
    by (auto simp: nodes_ok_def nodes_indeg_def nodes_free_def nodes_chained_def nodes_home_def
        nodes_distinct_def nilnode_def)
qed

lemma nval_fresh: "nval (replicate n nilnode) k = niltv"
  by (cases n) (auto simp: nval_def find_None_iff nilnode_def split: option.split dest!: find_Some_iff [THEN iffD1])

lemma keyset_fresh: "keyset (replicate n nilnode) = {}"
  by (auto simp: keyset_def nilnode_def)

lemma fresh_ok:
  assumes "unat (t_asize t) \<le> length (t_array t)" "unat (t_asize t) \<le> LJ_MAX_ASIZE"
    and n: "t_node t = replicate (2 ^ b) nilnode" "b \<le> LJ_MAX_HBITS" "t_hmask t = of_nat (2 ^ b) - 1"
    and "t_freetop t = (if b = 0 then 0 else 2 ^ b)"
  shows "tab_ok sid t" "keyset (t_node t) = {}" "hash_cap t = (if b = 0 then 0 else 2 ^ b)"
    "tab_abs t k = (if in_array t k then t_array t ! unat (lj_num2int k) else niltv)"
proof -
  have b32: "(2::nat) ^ b \<le> 2 ^ 26" using n(2) by (intro power_increasing) (simp_all add: lj_limits)
  have h: "unat (t_hmask t) = 2 ^ b - 1"
  proof -
    have e: "t_hmask t = of_nat (2 ^ b - 1)" using n(3) by (simp add: of_nat_diff)
    have "(2::nat) ^ b - 1 < 2 ^ 32" using b32 by simp
    then show ?thesis unfolding e using unat_of_nat32 [of "2 ^ b - 1"] by simp
  qed
  have h0: "t_hmask t = 0 \<longleftrightarrow> b = 0"
  proof -
    have "t_hmask t = 0 \<longleftrightarrow> unat (t_hmask t) = 0" by (metis unat_0 word_unat_eq_iff)
    also have "\<dots> \<longleftrightarrow> b = 0" unfolding h using one_less_power [of "2::nat" b] by (cases "b = 0") auto
    finally show ?thesis .
  qed
  have hm: "hashmask t x < 2 ^ b" for x
  proof -
    have "(0::nat) < 2 ^ b" by simp
    then show ?thesis using unat_and_le [of x "t_hmask t"] h unfolding hashmask_def by linarith
  qed
  have nok: "nodes_ok (hashkey sid t) (t_node t)"
    unfolding n(1) by (rule nodes_ok_fresh) (simp add: hashkey_def hashnum_def hashgcref_def hm)
  then show "tab_ok sid t"
    using assms h h0 by (auto simp: tab_ok_def nilnode_def)
  show "keyset (t_node t) = {}" "hash_cap t = (if b = 0 then 0 else 2 ^ b)"
    "tab_abs t k = (if in_array t k then t_array t ! unat (lj_num2int k) else niltv)"
    using n(1) h0 by (simp_all add: keyset_fresh hash_cap_def tab_abs_def nval_fresh)
qed

section \<open>Resizing\<close>

definition hash_room :: "nat \<Rightarrow> nat" where "hash_room hbits = (if hbits = 0 then 0 else 2 ^ hbits)"

text \<open>The keys with a value that lie outside an array part of the given size.\<close>

definition live_out :: "gctab \<Rightarrow> nat \<Rightarrow> tvalue set" where
  "live_out t asize = {k. key_valid k \<and> key_norm k = k \<and> tab_abs t k \<noteq> niltv
     \<and> \<not> (key_is_int k \<and> unat (lj_num2int k) < asize)}"

lemma in_array_unat: "in_array t k \<longleftrightarrow> key_is_int k \<and> unat (lj_num2int k) < unat (t_asize t)"
  by (simp add: in_array_def word_less_nat_alt)

text \<open>The table right before the pairs are put back.\<close>

lemma resize_start:
  assumes ok: "tab_ok sid t" and a: "asize \<le> LJ_MAX_ASIZE" and b: "hbits \<le> LJ_MAX_HBITS"
  shows "\<exists>t1 t2. resize_grow t asize = Inr t1 \<and> resize_hpart t1 hbits = Inr t2
    \<and> (asize < unat (t_asize t) \<longrightarrow> t_array t2 = t_array t)
    \<and> (asize \<ge> unat (t_asize t) \<longrightarrow> t_asize t2 = of_nat asize)
    \<and> (\<forall>t3. t3 = t2\<lparr>t_asize := of_nat asize\<rparr> \<longrightarrow> tab_ok sid t3 \<and> keyset (t_node t3) = {}
        \<and> hash_cap t3 = hash_room hbits
        \<and> (\<forall>k. tab_abs t3 k = (if in_array t3 k \<and> in_array t k then tab_abs t k else niltv)))"
proof -
  define old where "old = unat (t_asize t)"
  define arr where "arr = (if old < asize then take old (t_array t) @ replicate (asize - old) niltv else t_array t)"
  have oldl: "old \<le> length (t_array t)" using tab_ok_array [OF ok] by (simp add: old_def)
  have ua: "unat (of_nat asize :: u32) = asize" using a unat_of_nat32 [of asize] by (simp add: lj_limits)
  define t1 where "t1 = (if old < asize then (if 0 <s t_colo t then t\<lparr>t_colo := t_colo t OR 0x80\<rparr> else t)
      \<lparr>t_array := arr, t_asize := of_nat asize\<rparr> else t)"
  have t1: "resize_grow t asize = Inr t1" "t_array t1 = arr"
      "t_asize t1 = (if old < asize then of_nat asize else t_asize t)"
    using a by (simp_all add: resize_grow_def Let_def arr_def old_def t1_def not_less)
  define t2 where "t2 = t1\<lparr>t_node := replicate (2 ^ hbits) nilnode, t_freetop := (if hbits = 0 then 0 else 2 ^ hbits),
      t_hmask := of_nat (2 ^ hbits) - 1\<rparr>"
  have "resize_hpart t1 hbits = Inr t2"
    using b by (simp add: resize_hpart_def newhpart_def Let_def clearhpart_def nilnode_def t2_def not_less)
  then have t2: "resize_hpart t1 hbits = Inr t2" "t_array t2 = arr" "t_asize t2 = t_asize t1"
      "t_node t2 = replicate (2 ^ hbits) nilnode" "t_hmask t2 = of_nat (2 ^ hbits) - 1"
      "t_freetop t2 = (if hbits = 0 then 0 else 2 ^ hbits)"
    using t1 by (simp_all add: t2_def)
  define t3 where "t3 = t2\<lparr>t_asize := of_nat asize\<rparr>"
  have f: "t_asize t3 = of_nat asize" "t_array t3 = arr" using t2 by (simp_all add: t3_def)
  have al: "asize \<le> length arr" using oldl by (auto simp: arr_def)
  have h: "unat (t_asize t3) \<le> length (t_array t3)" "unat (t_asize t3) \<le> LJ_MAX_ASIZE"
    "t_node t3 = replicate (2 ^ hbits) nilnode" "hbits \<le> LJ_MAX_HBITS"
    "t_hmask t3 = of_nat (2 ^ hbits) - 1" "t_freetop t3 = (if hbits = 0 then 0 else 2 ^ hbits)"
    using f al ua a b t2 by (simp_all add: t3_def)
  note fr = fresh_ok [OF h]
  have "tab_abs t3 k = (if in_array t3 k \<and> in_array t k then tab_abs t k else niltv)" for k
  proof (cases "in_array t3 k")
    case True
    then have i: "unat (lj_num2int k) < asize" "key_is_int k" using ua f by (simp_all add: in_array_unat)
    have "arr ! unat (lj_num2int k) = (if unat (lj_num2int k) < old then t_array t ! unat (lj_num2int k) else niltv)"
      using i oldl by (auto simp: arr_def nth_append)
    then show ?thesis using fr(4) [of k] True i f by (simp add: tab_abs_def in_array_unat old_def)
  qed (use fr(4) [of k] in simp)
  then have g: "tab_ok sid t3 \<and> keyset (t_node t3) = {} \<and> hash_cap t3 = hash_room hbits
        \<and> (\<forall>k. tab_abs t3 k = (if in_array t3 k \<and> in_array t k then tab_abs t k else niltv))"
    using fr(1-3) by (simp add: hash_room_def)
  have e1: "asize < unat (t_asize t) \<longrightarrow> t_array t2 = t_array t"
    using t2(2) by (simp add: arr_def old_def)
  have e2: "t_asize t2 = of_nat asize" if "asize \<ge> unat (t_asize t)"
  proof (cases "old < asize")
    case False
    then have "asize = unat (t_asize t)" using that by (simp add: old_def)
    then have "of_nat asize = t_asize t" by simp
    then show ?thesis using t1 t2 False by simp
  qed (use t1 t2 in simp)
  show ?thesis by (intro exI conjI; (rule t1(1) t2(1) e1)?) (use e2 g t3_def in simp_all)
qed

lemma take_array_ok:
  assumes ok: "tab_ok sid t" and "asize = unat (t_asize t)"
  shows "tab_ok sid (t\<lparr>t_array := take asize (t_array t)\<rparr>)"
    and "tab_abs (t\<lparr>t_array := take asize (t_array t)\<rparr>) k = tab_abs t k"
proof -
  let ?t = "t\<lparr>t_array := take asize (t_array t)\<rparr>"
  have hc: "hashkey sid ?t = hashkey sid t" by (rule hashkey_cong) simp
  have ia: "in_array ?t = in_array t" by (intro ext in_array_cong) simp
  have hk: "hkey_ok ?t = hkey_ok t" by (intro ext) (simp add: hkey_ok_def ia)
  show "tab_ok sid ?t" using ok assms(2) unfolding tab_ok_def hc hk by auto
  show "tab_abs ?t k = tab_abs t k"
    unfolding tab_abs_def ia using in_array_unat [of t k] assms(2) by simp
qed

definition tail_pairs :: "gctab \<Rightarrow> nat \<Rightarrow> (tvalue \<times> tvalue) list" where
  "tail_pairs t asize =
     array_pairs asize (take (unat (t_asize t) - asize) (drop asize (t_array t)))"

lemma tail_length:
  assumes "tab_ok sid t"
  shows "asize < unat (t_asize t) \<Longrightarrow>
      asize + length (take (unat (t_asize t) - asize) (drop asize (t_array t))) = unat (t_asize t)"
    and "\<not> asize < unat (t_asize t) \<Longrightarrow> tail_pairs t asize = []"
    and "unat (t_asize t) \<le> 2 ^ 32"
  using tab_ok_array [OF assms] tab_ok_asize [OF assms]
  by (simp_all add: lj_limits tail_pairs_def array_pairs_simps)

lemma tail_pairs_lookup:
  assumes "tab_ok sid t"
  shows "map_of (tail_pairs t asize) k =
    (if key_is_int k \<and> key_norm k = k \<and> asize \<le> unat (lj_num2int k) \<and> in_array t k
        \<and> tab_abs t k \<noteq> niltv then Some (tab_abs t k) else None)"
proof (cases "asize < unat (t_asize t)")
  case False
  then show ?thesis using tail_length(2) [OF assms False] by (simp add: in_array_unat)
next
  case True
  let ?vs = "take (unat (t_asize t) - asize) (drop asize (t_array t))"
  have nth: "?vs ! (i - asize) = t_array t ! i" if "asize \<le> i" "i < unat (t_asize t)" for i
    using that tab_ok_array [OF assms] by simp
  have l: "asize + length ?vs \<le> 2 ^ 32" using tail_length [OF assms] True by simp
  show ?thesis
  proof (cases "asize \<le> unat (lj_num2int k) \<and> in_array t k")
    case in1: True
    then show ?thesis using map_of_array_pairs [OF l, of k] nth [of "unat (lj_num2int k)"]
      unfolding tail_pairs_def tail_length(1) [OF assms True]
      by (simp add: in_array_unat tab_abs_def)
  next
    case False
    then have "\<not> (key_is_int k \<and> asize \<le> unat (lj_num2int k) \<and> unat (lj_num2int k) < unat (t_asize t))"
      by (auto simp: in_array_unat)
    then have "map_of (tail_pairs t asize) k = None"
      using map_of_array_pairs [OF l, of k] unfolding tail_pairs_def tail_length(1) [OF assms True] by metis
    then show ?thesis using False by metis
  qed
qed

lemma tail_pairs_distinct: "tab_ok sid t \<Longrightarrow> distinct (map fst (tail_pairs t asize))"
  using tail_length(1) [of sid t asize] tail_length(2) [of sid t asize] tail_length(3) [of sid t]
  by (cases "asize < unat (t_asize t)") (simp_all add: array_pairs_distinct tail_pairs_def)

lemma tail_pairs_live:
  assumes "tab_ok sid t" "k \<in> fst ` set (tail_pairs t asize)"
  shows "k \<in> live_out t asize" "in_array t k" "key_is_int k"
proof -
  have "map_of (tail_pairs t asize) k \<noteq> None" using assms(2) by (simp add: map_of_eq_None_iff)
  then have k: "key_is_int k" "key_norm k = k" "asize \<le> unat (lj_num2int k)" "in_array t k" "tab_abs t k \<noteq> niltv"
    unfolding tail_pairs_lookup [OF assms(1)] by (simp_all split: if_splits)
  have "key_valid k" using k(1,2) key_norm_is_int key_valid_int2dbl by metis
  then show "k \<in> live_out t asize" "in_array t k" "key_is_int k" using k by (simp_all add: live_out_def)
qed

lemma node_pairs_lookup:
  assumes "tab_ok sid t" "key_norm k = k" "key_valid k" "\<not> in_array t k"
  shows "map_of (node_pairs (t_node t)) k = (if tab_abs t k \<noteq> niltv then Some (tab_abs t k) else None)"
proof (cases "map_of (node_pairs (t_node t)) k")
  case None
  then show ?thesis using assms nval_pairs [OF tab_ok_nodes [OF assms(1)] key_valid_not_nil [OF assms(3)]]
    by (simp add: tab_abs_def)
next
  case (Some v)
  then show ?thesis using node_pairs_key [OF assms(1), of k v] map_of_SomeD [OF Some] by simp
qed

lemma node_pairs_live:
  assumes "tab_ok sid t" "k \<in> fst ` set (node_pairs (t_node t))"
  shows "hkey_ok t k" "tab_abs t k \<noteq> niltv"
    and "\<not> (key_is_int k \<and> unat (lj_num2int k) < asize) \<Longrightarrow> k \<in> live_out t asize"
proof -
  obtain v where "(k, v) \<in> set (node_pairs (t_node t))" using assms(2) by auto
  from node_pairs_key [OF assms(1) this] show h: "hkey_ok t k" "tab_abs t k \<noteq> niltv" by simp_all
  then show "\<not> (key_is_int k \<and> unat (lj_num2int k) < asize) \<Longrightarrow> k \<in> live_out t asize"
    by (simp add: live_out_def hkey_ok_def)
qed

lemma finite_live_out:
  assumes "tab_ok sid t"
  shows "finite (live_out t asize)"
proof -
  have "x \<in> fst ` set (tail_pairs t asize) \<union> fst ` set (node_pairs (t_node t))" if x: "x \<in> live_out t asize" for x
  proof (cases "in_array t x")
    case True
    then have "map_of (tail_pairs t asize) x \<noteq> None"
      unfolding tail_pairs_lookup [OF assms] using x by (simp add: live_out_def in_array_unat)
    then show ?thesis by (simp add: map_of_eq_None_iff)
  next
    case False
    then have "map_of (node_pairs (t_node t)) x \<noteq> None"
      using node_pairs_lookup [OF assms _ _ False] x by (simp add: live_out_def)
    then show ?thesis by (simp add: map_of_eq_None_iff)
  qed
  then have "live_out t asize \<subseteq> fst ` set (tail_pairs t asize) \<union> fst ` set (node_pairs (t_node t))" by blast
  then show ?thesis using finite_subset by fastforce
qed

text \<open>What a resize achieves.\<close>

definition resized :: "(gcref \<Rightarrow> u32) \<Rightarrow> gctab \<Rightarrow> nat \<Rightarrow> nat \<Rightarrow> gctab \<Rightarrow> bool" where
  "resized sid t asize hbits t' \<longleftrightarrow>
     tab_ok sid t' \<and> (\<forall>j. key_valid j \<longrightarrow> tab_abs t' j = tab_abs t j)
   \<and> unat (t_asize t') = asize \<and> hash_cap t' = hash_room hbits
   \<and> keyset (t_node t') \<subseteq> live_out t asize"

lemma shrink_pairs:
  assumes ok: "tab_ok sid t" and a: "asize \<le> LJ_MAX_ASIZE"
    and t2: "asize < unat (t_asize t) \<Longrightarrow> t_array t2 = t_array t"
      "asize \<ge> unat (t_asize t) \<Longrightarrow> t_asize t2 = of_nat asize"
    and t3: "t3 = t2\<lparr>t_asize := of_nat asize\<rparr>" "tab_ok sid t3" "keyset (t_node t3) = {}"
    and room: "card (live_out t asize) \<le> hash_cap t3"
  shows "\<exists>t'. resize_shrink (newkey_step R sid) t2 (unat (t_asize t)) asize = Inr t' \<and> tab_ok sid t'
    \<and> (\<forall>j. key_valid j \<longrightarrow> tab_abs t' j =
         (case map_of (tail_pairs t asize) (key_norm j) of None \<Rightarrow> tab_abs t3 j | Some v \<Rightarrow> v))
    \<and> t_asize t' = t_asize t3 \<and> t_hmask t' = t_hmask t3
    \<and> keyset (t_node t') \<subseteq> fst ` set (tail_pairs t asize)"
proof (cases "asize < unat (t_asize t)")
  case False
  then have "t3 = t2" using t2(2) t3(1) by simp
  then show ?thesis using False t3 tail_length(2) [OF ok False] by (simp add: resize_shrink_def)
next
  case True
  have ua: "unat (t_asize t3) = asize" using a unat_of_nat32 [of asize] t3(1) by (simp add: lj_limits)
  let ?ps = "tail_pairs t asize"
  have out: "out_keys t3 ?ps = fst ` set ?ps"
  proof -
    have "\<not> in_array t3 k" if "k \<in> fst ` set ?ps" for k
      using tail_pairs_live(1) [OF ok that] ua by (simp add: in_array_unat live_out_def)
    then show ?thesis by (auto simp: out_keys_def)
  qed
  have dom: "\<forall>k \<in> fst ` set ?ps. key_valid k \<and> key_norm k = k
      \<and> (key_is_int k \<and> key_norm k = k \<and> \<not> lj_num2int k < t_asize t3)"
    using tail_pairs_live [OF ok, of _ asize] ua by (fastforce simp: live_out_def word_less_nat_alt)
  have "card (keyset (t_node t3) \<union> out_keys t3 ?ps) \<le> card (live_out t asize)"
    using tail_pairs_live(1) [OF ok, of _ asize] finite_live_out [OF ok]
    unfolding t3(3) out by (intro card_mono) auto
  then have cap: "card (keyset (t_node t3) \<union> out_keys t3 ?ps) \<le> hash_cap t3" using room by linarith
  have dj: "keyset (t_node t3) \<inter> out_keys t3 ?ps = {}" using t3(3) by simp
  from tinth.put_pairs_ok [OF t3(2) dom tail_pairs_distinct [OF ok] dj cap, of R] obtain t4 where
    t4: "put_pairs (\<lambda>t k. setinth_with (newkey_step R sid) t (lj_num2int k)) t3 ?ps = Inr t4" "tab_ok sid t4"
      "\<And>j. key_valid j \<Longrightarrow> tab_abs t4 j = (case map_of ?ps (key_norm j) of None \<Rightarrow> tab_abs t3 j | Some v \<Rightarrow> v)"
      "t_asize t4 = t_asize t3" "t_hmask t4 = t_hmask t3" "keyset (t_node t4) \<subseteq> fst ` set ?ps"
    unfolding out t3(3) by auto
  let ?t' = "if t_colo t4 \<le>s 0 then t4\<lparr>t_array := take asize (t_array t4)\<rparr> else t4"
  have "resize_shrink (newkey_step R sid) t2 (unat (t_asize t)) asize = Inr ?t'"
    using True t4(1) t2(1) [OF True] t3(1)
    by (simp add: resize_shrink_def Let_def reinsert_array_pairs tail_pairs_def)
  moreover have "tab_ok sid ?t'" "\<And>j. tab_abs ?t' j = tab_abs t4 j"
    using t4(2) take_array_ok [OF t4(2), of asize] ua t4(4) by auto
  ultimately show ?thesis using t4(3-6) by (intro exI [of _ ?t']) simp
qed

lemma resize_ok:
  assumes ok: "tab_ok sid t" and a: "asize \<le> LJ_MAX_ASIZE" and b: "hbits \<le> LJ_MAX_HBITS"
    and room: "card (live_out t asize) \<le> hash_room hbits"
  shows "\<exists>t'. resize_with (newkey_step R sid) sid t asize hbits = Inr t' \<and> resized sid t asize hbits t'"
proof -
  from resize_start [OF ok a b] obtain t1 t2 where
    t12: "resize_grow t asize = Inr t1" "resize_hpart t1 hbits = Inr t2"
    and t2i: "asize < unat (t_asize t) \<longrightarrow> t_array t2 = t_array t"
      "asize \<ge> unat (t_asize t) \<longrightarrow> t_asize t2 = of_nat asize"
    and t3i: "\<forall>t3. t3 = t2\<lparr>t_asize := of_nat asize\<rparr> \<longrightarrow> tab_ok sid t3 \<and> keyset (t_node t3) = {}
        \<and> hash_cap t3 = hash_room hbits
        \<and> (\<forall>k. tab_abs t3 k = (if in_array t3 k \<and> in_array t k then tab_abs t k else niltv))"
    by (elim exE conjE)
  note t2 = t2i [rule_format]
  define t3 where "t3 = t2\<lparr>t_asize := of_nat asize\<rparr>"
  from t3i t3_def have t3: "t3 = t2\<lparr>t_asize := of_nat asize\<rparr>" "tab_ok sid t3" "keyset (t_node t3) = {}"
      "hash_cap t3 = hash_room hbits"
      "\<And>k. tab_abs t3 k = (if in_array t3 k \<and> in_array t k then tab_abs t k else niltv)" by metis+
  have ua: "unat (t_asize t3) = asize" using a unat_of_nat32 [of asize] t3(1) by (simp add: lj_limits)
  have room3: "card (live_out t asize) \<le> hash_cap t3" using room t3(4) by simp
  from shrink_pairs [OF ok a t2 t3(1-3) room3, of R] obtain t4 where
    t4: "resize_shrink (newkey_step R sid) t2 (unat (t_asize t)) asize = Inr t4" "tab_ok sid t4"
      "t_asize t4 = t_asize t3" "t_hmask t4 = t_hmask t3" "keyset (t_node t4) \<subseteq> fst ` set (tail_pairs t asize)"
    and a4: "\<And>j. key_valid j \<Longrightarrow> tab_abs t4 j =
         (case map_of (tail_pairs t asize) (key_norm j) of None \<Rightarrow> tab_abs t3 j | Some v \<Rightarrow> v)" by blast
  let ?np = "node_pairs (t_node t)"
  have outn: "out_keys t4 ?np \<subseteq> live_out t asize"
  proof
    fix k assume "k \<in> out_keys t4 ?np"
    then have "k \<in> fst ` set ?np" "\<not> in_array t4 k" by (simp_all add: out_keys_def)
    then show "k \<in> live_out t asize"
      using node_pairs_live(3) [OF ok] ua t4(3) by (simp add: in_array_unat)
  qed
  have tl: "fst ` set (tail_pairs t asize) \<subseteq> live_out t asize" using tail_pairs_live(1) [OF ok] by blast
  have un: "keyset (t_node t4) \<union> out_keys t4 ?np \<subseteq> live_out t asize" using t4(5) tl outn by blast
  have "card (keyset (t_node t4) \<union> out_keys t4 ?np) \<le> hash_room hbits"
    using card_mono [OF finite_live_out [OF ok] un] room by linarith
  then have cap: "card (keyset (t_node t4) \<union> out_keys t4 ?np) \<le> hash_cap t4"
    using hash_cap_cong [OF t3(2) t4(2,4)] t3(4) by simp
  have "keyset (t_node t4) \<inter> fst ` set ?np = {}"
  proof -
    have False if "k \<in> fst ` set (tail_pairs t asize)" "k \<in> fst ` set ?np" for k
      using tail_pairs_live(2) [OF ok that(1)] node_pairs_live(1) [OF ok that(2)] by (simp add: hkey_ok_def)
    then show ?thesis using t4(5) by blast
  qed
  then have dj: "keyset (t_node t4) \<inter> out_keys t4 ?np = {}" by (auto simp: out_keys_def)
  have dom: "\<forall>k \<in> fst ` set ?np. key_valid k \<and> key_norm k = k \<and> True"
    using node_pairs_live(1) [OF ok] by (simp add: hkey_ok_def)
  from tset.put_pairs_ok [OF t4(2) dom node_pairs_distinct [OF tab_ok_nodes [OF ok]] dj cap, of R] obtain t5 where
    t5: "put_pairs (set_with (newkey_step R sid) sid) t4 ?np = Inr t5" "tab_ok sid t5"
      "t_asize t5 = t_asize t4" "t_hmask t5 = t_hmask t4"
      "keyset (t_node t5) \<subseteq> keyset (t_node t4) \<union> out_keys t4 ?np"
    and a5: "\<And>j. key_valid j \<Longrightarrow> tab_abs t5 j =
        (case map_of ?np (key_norm j) of None \<Rightarrow> tab_abs t4 j | Some v \<Rightarrow> v)" by blast
  have "resize_with (newkey_step R sid) sid t asize hbits = Inr t5"
  proof (cases "0 < t_hmask t")
    case True
    then show ?thesis using t12 t4(1) t5(1) by (simp add: resize_with_def Let_def reinsert_nodes_pairs)
  next
    case False
    then have "?np = []" using tab_ok_empty [OF ok] word_gt_0 [of "t_hmask t"]
      by (simp add: node_pairs_def nilnode_def nil_iff)
    then show ?thesis using False t12 t4(1) t5(1) by (simp add: resize_with_def Let_def)
  qed
  moreover have "tab_abs t5 j = tab_abs t j" if j: "key_valid j" for j
  proof -
    let ?k = "key_norm j"
    have k: "key_valid ?k" "key_norm ?k = ?k" using key_valid_norm [OF j] by simp_all
    have "tab_abs t5 j = tab_abs t ?k"
    proof (cases "in_array t ?k")
      case True
      have "map_of ?np ?k = None"
        using node_pairs_live(1) [OF ok, of ?k] True by (auto simp: map_of_eq_None_iff hkey_ok_def)
      then have e: "tab_abs t5 j = (case map_of (tail_pairs t asize) ?k of None \<Rightarrow> tab_abs t3 ?k | Some v \<Rightarrow> v)"
        using a5 [OF j] a4 [OF j] by (simp add: tab_abs_norm cong: option.case_cong)
      have ii: "key_is_int ?k" using True by (simp add: in_array_def)
      show ?thesis
      proof (cases "asize \<le> unat (lj_num2int ?k)")
        case big: True
        then have "\<not> in_array t3 ?k" using ua by (simp add: in_array_unat)
        then have "tab_abs t3 ?k = niltv" using t3(5) [of ?k] by simp
        then show ?thesis unfolding e tail_pairs_lookup [OF ok] using big ii True k(2) by simp
      next
        case False
        then have "in_array t3 ?k" using ua ii by (simp add: in_array_unat)
        then have "tab_abs t3 ?k = tab_abs t ?k" using t3(5) [of ?k] True by simp
        then show ?thesis unfolding e tail_pairs_lookup [OF ok] using False by simp
      qed
    next
      case False
      have "tab_abs t4 j = tab_abs t3 ?k"
        using a4 [OF j] False unfolding tail_pairs_lookup [OF ok] by (simp add: tab_abs_norm)
      then have "tab_abs t4 j = niltv" using t3(5) [of ?k] False by simp
      then show ?thesis using a5 [OF j] node_pairs_lookup [OF ok k(2,1) False] by simp
    qed
    then show ?thesis by (simp add: tab_abs_norm)
  qed
  moreover have "hash_cap t5 = hash_room hbits"
    using hash_cap_cong [OF t4(2) t5(2,4)] hash_cap_cong [OF t3(2) t4(2,4)] t3(4) by simp
  moreover have "keyset (t_node t5) \<subseteq> live_out t asize" using t5(5) un by blast
  ultimately show ?thesis using t5(2,3) t4(3) ua by (intro exI [of _ t5]) (simp add: resized_def)
qed

lemma resize_tabov:
  assumes ok: "tab_ok sid t" and a: "LJ_MAX_ASIZE < asize \<or> LJ_MAX_HBITS < hbits"
  shows "resize_with newkey sid t asize hbits = Inl LJ_ERR_TABOV"
proof (cases "LJ_MAX_ASIZE < asize")
  case True
  then show ?thesis using tab_ok_asize [OF ok] by (simp add: resize_with_def resize_grow_def Let_def)
next
  case False
  then have "LJ_MAX_HBITS < hbits" using a by simp
  then show ?thesis using False
    by (simp add: resize_with_def resize_grow_def resize_hpart_def newhpart_def Let_def split: sum.split)
qed

end
