(* ===== verification/LjTabRehash.thy ===== *)
theory LjTabRehash
  imports LjTabResize
begin

text \<open>
  Counting for a rehash: the bins count the integer keys by powers of two, the array size chosen
  is used by more than a quarter, and the hash size leaves room for every other key and the key
  to be inserted.
\<close>

section \<open>Bins\<close>

definition bin :: "nat \<Rightarrow> nat" where "bin i = (if i \<le> 2 then 0 else flsn (i - 1))"

lemma bin_le: "i \<le> 2 ^ Suc b \<Longrightarrow> bin i \<le> b"
  by (auto simp: bin_def intro!: flsn_le)

lemma bin_gt: "2 ^ Suc b < i \<Longrightarrow> b < bin i"
proof -
  assume a: "2 ^ Suc b < i"
  have "(1::nat) \<le> 2 ^ b" by simp
  then have "2 < i" using a unfolding power_Suc by linarith
  then have "i - 1 < 2 ^ Suc (bin i)" using flsn_upper [of "i - 1"] by (simp add: bin_def)
  then have "(2::nat) ^ Suc b < 2 ^ Suc (bin i)" using a by linarith
  then have "Suc b < Suc (bin i)" by (simp only: power_strict_increasing_iff)
  then show ?thesis by simp
qed

lemma bin_le_iff: "bin i \<le> b \<longleftrightarrow> i \<le> 2 ^ Suc b"
  using bin_le bin_gt by (metis leD leI)

definition key_idx :: "tvalue \<Rightarrow> nat" where "key_idx k = unat (lj_num2int k)"

definition key_ix :: "tvalue \<Rightarrow> bool" where
  "key_ix k \<longleftrightarrow> key_is_int k \<and> key_idx k < LJ_MAX_ASIZE"

definition count_where :: "(tvalue \<Rightarrow> bool) \<Rightarrow> tvalue list \<Rightarrow> nat" where
  "count_where P ks = length (filter P ks)"

lemma count_where_simps [simp]:
  "count_where P [] = 0"
  "count_where P (k # ks) = (if P k then 1 else 0) + count_where P ks"
  "count_where P (ks @ js) = count_where P ks + count_where P js"
  by (simp_all add: count_where_def)

definition bins_ok :: "nat list \<Rightarrow> tvalue list \<Rightarrow> bool" where
  "bins_ok bins ks \<longleftrightarrow> length bins = LJ_MAX_ABITS
     \<and> (\<forall>b<LJ_MAX_ABITS. bins ! b = count_where (\<lambda>k. key_ix k \<and> bin (key_idx k) = b) ks)"

lemma key_ix_bin: "key_ix k \<Longrightarrow> bin (key_idx k) < LJ_MAX_ABITS - 1"
proof -
  assume "key_ix k"
  then have "key_idx k \<le> 2 ^ Suc 26" by (simp add: key_ix_def lj_limits)
  then show ?thesis using bin_le by (fastforce simp: lj_limits)
qed

section \<open>Counting\<close>

lemma countint_ok:
  assumes "bins_ok bins ks"
  shows "\<exists>bins'. countint k bins = ((if key_ix k then 1 else 0), bins') \<and> bins_ok bins' (k # ks)"
proof (cases "key_ix k")
  case True
  then have ii: "key_is_int k" and m: "key_idx k < 2 ^ 27 + 1" by (simp_all add: key_ix_def lj_limits)
  let ?i = "lj_num2int k"
  have "unat ?i < 134217729" using m by (simp add: key_idx_def)
  then have "int (unat ?i) < 2147483648" by linarith
  then have "uint ?i < 2 ^ 31" by simp
  then have "sint ?i = int (unat ?i)" by (simp add: sint32)
  then have "2 <s ?i \<longleftrightarrow> 2 < int (unat ?i)" by (simp add: word_sless_alt)
  then have "2 <s ?i \<longleftrightarrow> 2 < unat ?i" by linarith
  moreover have "unat (?i - 1) = unat ?i - 1" if "2 < unat ?i"
    using that by (simp add: unat_sub word_le_nat_alt)
  ultimately have b: "(if 2 <s ?i then lj_fls (?i - 1) else 0) = bin (key_idx k)"
    by (auto simp: bin_def key_idx_def lj_fls_def)
  have "countint k bins = (1, bins[bin (key_idx k) := bins ! bin (key_idx k) + 1])"
    using ii m unfolding countint_def Let_def b
    by (simp add: key_is_int_def key_idx_def lj_limits)
  then show ?thesis using True assms by (auto simp: bins_ok_def nth_list_update_if)
next
  case False
  then have "countint k bins = (0, bins)"
    by (auto simp: countint_def Let_def key_ix_def key_is_int_def key_idx_def)
  then show ?thesis using False assms by (auto simp: bins_ok_def)
qed

lemma counthash_loop_ok:
  "bins_ok bins ks \<Longrightarrow> \<exists>bins'. counthash_loop ns tot na bins =
     (tot + length (node_pairs ns), na + count_where key_ix (map fst (node_pairs ns)), bins')
   \<and> bins_ok bins' (rev (map fst (node_pairs ns)) @ ks)"
proof (induction ns arbitrary: tot na bins ks)
  case (Cons n ns)
  show ?case
  proof (cases "tvisnil (n_val n)")
    case True
    then show ?thesis using Cons by (simp add: node_pairs_def)
  next
    case False
    from countint_ok [OF Cons.prems, of "n_key n"] obtain bins1 where
      c: "countint (n_key n) bins = ((if key_ix (n_key n) then 1 else 0), bins1)"
      and ok: "bins_ok bins1 (n_key n # ks)" by blast
    from Cons.IH [OF ok, of "tot + 1" "na + (if key_ix (n_key n) then 1 else 0)"] show ?thesis
      using c False by (auto simp: node_pairs_def)
  qed
qed (simp add: node_pairs_def)

definition cnt :: "tvalue list \<Rightarrow> (nat \<Rightarrow> bool) \<Rightarrow> nat \<Rightarrow> nat \<Rightarrow> nat" where
  "cnt vs P i j = length (filter (\<lambda>x. vs ! x \<noteq> niltv \<and> P x) [i..<j])"

lemma cnt_split: "i \<le> m \<Longrightarrow> m \<le> j \<Longrightarrow> cnt vs P i j = cnt vs P i m + cnt vs P m j"
proof -
  assume "i \<le> m" "m \<le> j"
  then have "[i..<j] = [i..<m] @ [m..<j]" using upt_add_eq_append [of i m "j - m"] by simp
  then show ?thesis by (simp add: cnt_def)
qed

lemma cnt_const: "(\<And>x. i \<le> x \<Longrightarrow> x < j \<Longrightarrow> P x \<longleftrightarrow> Q) \<Longrightarrow> cnt vs P i j = (if Q then cnt vs (\<lambda>_. True) i j else 0)"
proof -
  assume "\<And>x. i \<le> x \<Longrightarrow> x < j \<Longrightarrow> P x \<longleftrightarrow> Q"
  then have "filter (\<lambda>x. vs ! x \<noteq> niltv \<and> P x) [i..<j] = filter (\<lambda>x. vs ! x \<noteq> niltv \<and> Q) [i..<j]"
    by (intro filter_cong) auto
  then show ?thesis by (simp add: cnt_def)
qed

lemma countarray_loop_ok:
  assumes "0 < asize" "asize \<le> LJ_MAX_ASIZE" "b \<le> LJ_MAX_ABITS" "length bins = LJ_MAX_ABITS"
    "i = min asize (if b = 0 then 0 else 2 ^ b + 1)"
  shows "\<exists>bins'. countarray_loop vs asize b i na bins = (na + cnt vs (\<lambda>_. True) i asize, bins')
    \<and> length bins' = LJ_MAX_ABITS
    \<and> (\<forall>c<LJ_MAX_ABITS. bins' ! c = bins ! c + cnt vs (\<lambda>j. bin j = c) i asize)"
  using assms(3-)
proof (induction "LJ_MAX_ABITS - b" arbitrary: b i na bins)
  case 0
  then have "i = asize" using assms by (simp add: lj_limits)
  then show ?case using 0 by (simp add: countarray_loop.simps cnt_def)
next
  case (Suc d)
  let ?lim = "2 * 2 ^ b :: nat"
  let ?top = "if asize \<le> ?lim then asize - 1 else ?lim"
  have b: "b < LJ_MAX_ABITS" using Suc.hyps(2) by simp
  have p: "(1::nat) \<le> 2 ^ b" by simp
  show ?case
  proof (cases "asize \<le> ?lim \<and> ?top < i")
    case True
    then have "i = asize" using Suc.prems(3) assms(1) by (auto simp: min_def split: if_splits)
    then show ?thesis using True b Suc.prems by (simp add: countarray_loop.simps cnt_def)
  next
    case False
    define m where "m = Suc ?top"
    have m: "m = min asize (2 ^ Suc b + 1)" using assms(1) by (auto simp: m_def min_def)
    have im: "i \<le> m" "m \<le> asize" using Suc.prems(3) p unfolding m by (auto simp: min_def)
    have bb: "bin x = b" if "i \<le> x" "x < m" for x
    proof -
      have "x \<le> 2 ^ Suc b" "x < asize" using that(2) by (auto simp: m)
      moreover have "b = 0 \<or> 2 ^ b < x" using that(1) Suc.prems(3) \<open>x < asize\<close> by (auto simp: min_def split: if_splits)
      ultimately show ?thesis using bin_le [of x b] bin_gt [of "b - 1" x] by (cases b) auto
    qed
    define n where "n = length (filter (\<lambda>j. \<not> tvisnil (vs ! j)) [i..<m])"
    have n: "n = cnt vs (\<lambda>_. True) i m" by (simp add: n_def cnt_def nil_iff)
    have nb: "\<not> asize - 1 < i" if "asize \<le> ?lim"
    proof -
      have "?top = asize - 1" using that by simp
      then show ?thesis using False that by metis
    qed
    have mx: "max i m = m" using im by simp
    have st: "countarray_loop vs asize b i na bins = countarray_loop vs asize (Suc b) m (na + n) (bins[b := bins ! b + n])"
    proof (cases "asize \<le> ?lim")
      case True
      then show ?thesis using nb [OF True] mx b
        by (simp add: countarray_loop.simps [of vs asize b i] m_def n_def Let_def del: upt_Suc)
    next
      case False
      then show ?thesis using mx b
        by (simp add: countarray_loop.simps [of vs asize b i] m_def n_def Let_def del: upt_Suc)
    qed
    have pr: "d = LJ_MAX_ABITS - Suc b" "Suc b \<le> LJ_MAX_ABITS" "length (bins[b := bins ! b + n]) = LJ_MAX_ABITS"
      "m = min asize (if Suc b = 0 then 0 else 2 ^ Suc b + 1)"
      using Suc.hyps(2) b Suc.prems(2) m by simp_all
    from Suc.hyps(1) [OF pr, of "na + n"] obtain bins' where
      r: "countarray_loop vs asize (Suc b) m (na + n) (bins[b := bins ! b + n]) = (na + n + cnt vs (\<lambda>_. True) m asize, bins')"
      "length bins' = LJ_MAX_ABITS"
      "\<And>c. c < LJ_MAX_ABITS \<Longrightarrow> bins' ! c = bins[b := bins ! b + n] ! c + cnt vs (\<lambda>j. bin j = c) m asize"
      by blast
    have "cnt vs (\<lambda>j. bin j = c) i m = (if b = c then n else 0)" for c
      unfolding n by (rule cnt_const) (use bb in auto)
    then have "bins' ! c = bins ! c + cnt vs (\<lambda>j. bin j = c) i asize" if "c < LJ_MAX_ABITS" for c
      using r(3) [OF that] cnt_split [OF im] that Suc.prems(2) by (auto simp: nth_list_update_if)
    then show ?thesis using st r cnt_split [OF im, of vs "\<lambda>_. True"] n by simp
  qed
qed

lemma filter_map_len: "length (filter P (map f xs)) = length (filter (P \<circ> f) xs)"
  by (simp add: filter_map)

lemma count_tail_pairs:
  assumes ok: "tab_ok sid t" and P: "\<And>k. P k \<Longrightarrow> key_ix k"
    and Q: "\<And>i. i < LJ_MAX_ASIZE \<Longrightarrow> P (int2dbl (of_nat i)) \<longleftrightarrow> Q i"
  shows "count_where P (map fst (tail_pairs t 0)) = cnt (t_array t) Q 0 (unat (t_asize t))"
proof -
  let ?n = "unat (t_asize t)" and ?vs = "take (unat (t_asize t)) (t_array t)"
  have l: "length ?vs = ?n" using tab_ok_array [OF ok] by simp
  have z: "zip [0..<?n] ?vs = map (\<lambda>i. (i, t_array t ! i)) [0..<?n]"
    by (rule nth_equalityI) (use l in auto)
  have "tail_pairs t 0 = filter (\<lambda>kv. \<not> tvisnil (snd kv)) (map (\<lambda>i. (int2dbl (of_nat i), t_array t ! i)) [0..<?n])"
    using l by (simp add: tail_pairs_def array_pairs_def z comp_def)
  then have "count_where P (map fst (tail_pairs t 0)) =
      length (filter (\<lambda>i. P (int2dbl (of_nat i)) \<and> t_array t ! i \<noteq> niltv) [0..<?n])"
    by (simp add: count_where_def filter_map comp_def nil_iff conj_commute)
  also have "\<dots> = cnt (t_array t) Q 0 ?n"
    unfolding cnt_def using Q tab_ok_asize [OF ok]
    by (intro arg_cong [where f = length] filter_cong) auto
  finally show ?thesis .
qed

lemma key_idx_of_nat: "i < LJ_MAX_ASIZE \<Longrightarrow> key_idx (int2dbl (of_nat i)) = i"
  using unat_of_nat32 [of i] by (simp add: key_idx_def lj_limits)

lemma countarray_ok:
  assumes ok: "tab_ok sid t"
  shows "\<exists>bins. countarray t (replicate LJ_MAX_ABITS 0) = (length (tail_pairs t 0), bins)
    \<and> bins_ok bins (map fst (tail_pairs t 0)) \<and> count_where key_ix (map fst (tail_pairs t 0)) = length (tail_pairs t 0)"
proof -
  let ?ks = "map fst (tail_pairs t 0)" and ?n = "unat (t_asize t)"
  have ix: "key_ix (int2dbl (of_nat i))" if "i < LJ_MAX_ASIZE" for i
    using that by (simp add: key_ix_def key_idx_of_nat)
  have all: "count_where key_ix ?ks = cnt (t_array t) (\<lambda>_. True) 0 ?n"
    by (rule count_tail_pairs [OF ok]) (use ix in auto)
  have bi: "count_where (\<lambda>k. key_ix k \<and> bin (key_idx k) = b) ?ks = cnt (t_array t) (\<lambda>j. bin j = b) 0 ?n" for b
    by (rule count_tail_pairs [OF ok]) (use ix key_idx_of_nat in auto)
  have "\<forall>k \<in> set ?ks. key_ix k"
  proof
    fix k assume "k \<in> set ?ks"
    then have "in_array t k" using tail_pairs_live(2) [OF ok, of k 0] by simp
    then show "key_ix k" using tab_ok_asize [OF ok] by (simp add: in_array_unat key_ix_def key_idx_def)
  qed
  then have "filter key_ix ?ks = ?ks" by (simp only: filter_id_conv)
  then have len: "count_where key_ix ?ks = length (tail_pairs t 0)" by (simp only: count_where_def length_map)
  show ?thesis
  proof (cases "t_asize t = 0")
    case True
    then have "tail_pairs t 0 = []" by (simp add: tail_pairs_def array_pairs_simps)
    then show ?thesis using True by (simp add: countarray_def bins_ok_def)
  next
    case False
    then have "0 < ?n" by (simp add: unat_gt_0)
    from countarray_loop_ok [OF this tab_ok_asize [OF ok], of 0 "replicate LJ_MAX_ABITS 0" 0 "t_array t" 0]
    obtain bins where "countarray_loop (t_array t) ?n 0 0 0 (replicate LJ_MAX_ABITS 0)
        = (cnt (t_array t) (\<lambda>_. True) 0 ?n, bins)" "length bins = LJ_MAX_ABITS"
      "\<And>c. c < LJ_MAX_ABITS \<Longrightarrow> bins ! c = cnt (t_array t) (\<lambda>j. bin j = c) 0 ?n" by auto
    then show ?thesis using False all len bi by (simp add: countarray_def bins_ok_def)
  qed
qed

section \<open>The best array size\<close>

definition count_upto :: "nat \<Rightarrow> tvalue list \<Rightarrow> nat" where
  "count_upto n ks = count_where (\<lambda>k. key_ix k \<and> key_idx k < n) ks"

lemma count_where_mono: "(\<And>k. P k \<Longrightarrow> Q k) \<Longrightarrow> count_where P ks \<le> count_where Q ks"
  by (induction ks) auto

lemma count_where_add: "count_where P ks + count_where (\<lambda>k. Q k \<and> \<not> P k) ks = count_where (\<lambda>k. P k \<or> Q k) ks"
  by (induction ks) auto

lemma count_where_cong: "(\<And>k. P k \<longleftrightarrow> Q k) \<Longrightarrow> count_where P ks = count_where Q ks"
  by (metis ext)

lemma count_bin: "count_where (\<lambda>k. key_ix k \<and> bin (key_idx k) < Suc b) ks = count_upto (2 * 2 ^ b + 1) ks"
  unfolding count_upto_def
  by (rule count_where_cong) (simp add: less_Suc_eq_le bin_le_iff)

text \<open>The bin of the last doubling that pays, as a specification of the search.\<close>

lemma bestasize_loop_ok:
  assumes "bins_ok bins ks" "nn = count_where key_ix ks"
    "sm = count_where (\<lambda>k. key_ix k \<and> bin (key_idx k) < b) ks"
    "na = count_upto sz ks" "sz \<le> LJ_MAX_ASIZE" "sz = 0 \<or> sz < 4 * na + 1"
    "\<And>c. c < b \<Longrightarrow> 2 ^ c < 2 * count_upto (2 * 2 ^ c + 1) ks \<Longrightarrow> 0 < bins ! c \<Longrightarrow> 2 * 2 ^ c + 1 \<le> sz"
  shows "\<exists>na' sz'. bestasize_loop bins nn b sm na sz = (na', sz') \<and> na' = count_upto sz' ks \<and> sz' \<le> LJ_MAX_ASIZE
    \<and> (sz' = 0 \<or> sz' < 4 * na' + 1)
    \<and> (\<forall>c. 2 ^ c < 2 * count_upto (2 * 2 ^ c + 1) ks \<longrightarrow> 0 < bins ! c \<longrightarrow> c < LJ_MAX_ABITS \<longrightarrow> 2 * 2 ^ c + 1 \<le> sz')"
  using assms(3-)
proof (induction "2 * nn - b" arbitrary: b sm na sz rule: less_induct)
  case less
  note st = bestasize_loop.simps [of bins nn b sm na sz]
  show ?case
  proof (cases "2 ^ b < 2 * nn \<and> sm \<noteq> nn")
    case False
    have "c < b" if c: "2 ^ c < 2 * count_upto (2 * 2 ^ c + 1) ks" "0 < bins ! c" "c < LJ_MAX_ABITS" for c
    proof (rule ccontr)
      assume "\<not> c < b"
      then have bc: "b \<le> c" by simp
      have "count_upto (2 * 2 ^ c + 1) ks \<le> nn"
        unfolding assms(2) count_upto_def by (rule count_where_mono) simp
      then have "2 ^ c < 2 * nn" using c(1) by linarith
      moreover have "(2::nat) ^ b \<le> 2 ^ c" using bc by (intro power_increasing) simp_all
      ultimately have "sm = nn" using False by linarith
      have "0 < count_where (\<lambda>k. key_ix k \<and> bin (key_idx k) = c) ks" using c(2,3) assms(1) by (simp add: bins_ok_def)
      moreover have "count_where (\<lambda>k. key_ix k \<and> bin (key_idx k) = c) ks
          \<le> count_where (\<lambda>k. key_ix k \<and> \<not> (key_ix k \<and> bin (key_idx k) < b)) ks"
        using bc by (intro count_where_mono) auto
      moreover have "sm + count_where (\<lambda>k. key_ix k \<and> \<not> (key_ix k \<and> bin (key_idx k) < b)) ks = nn"
        unfolding less.prems(1) assms(2) count_where_add by (rule count_where_cong) auto
      ultimately show False using \<open>sm = nn\<close> by linarith
    qed
    then show ?thesis using False st less.prems(2-) by auto
  next
    case True
    have b: "b < LJ_MAX_ABITS - 1"
    proof (rule ccontr)
      assume "\<not> b < LJ_MAX_ABITS - 1"
      then have "sm = nn" unfolding less.prems(1) assms(2)
        using key_ix_bin by (intro count_where_cong) fastforce
      then show False using True by simp
    qed
    then have bb: "bins ! b = count_where (\<lambda>k. key_ix k \<and> bin (key_idx k) = b) ks"
      using assms(1) by (simp add: bins_ok_def)
    have sm': "sm + bins ! b = count_where (\<lambda>k. key_ix k \<and> bin (key_idx k) < Suc b) ks"
    proof -
      have "bins ! b = count_where (\<lambda>k. (key_ix k \<and> bin (key_idx k) = b) \<and> \<not> (key_ix k \<and> bin (key_idx k) < b)) ks"
        unfolding bb by (rule count_where_cong) auto
      then show ?thesis unfolding less.prems(1)
        by (simp only: count_where_add) (rule count_where_cong, auto)
    qed
    have dec: "2 * nn - Suc b < 2 * nn - b" using True less_exp [of b] by linarith
    show ?thesis
    proof (cases "0 < bins ! b \<and> 2 ^ b < 2 * (sm + bins ! b)")
      case upd: True
      have "(2::nat) ^ b \<le> 2 ^ 26" using b by (intro power_increasing) (simp_all add: lj_limits)
      then have szm: "2 * 2 ^ b + 1 \<le> LJ_MAX_ASIZE" by (simp add: lj_limits)
      have pay: "2 * 2 ^ c + 1 \<le> (2 * 2 ^ b + 1 :: nat)" if "c < Suc b" for c
        using that power_increasing [of c b "2::nat"] by simp
      have "bestasize_loop bins nn b sm na sz =
          bestasize_loop bins nn (Suc b) (sm + bins ! b) (sm + bins ! b) (2 * 2 ^ b + 1)"
        using True upd by (subst st) simp
      moreover note less.hyps [OF dec sm', of "sm + bins ! b" "2 * 2 ^ b + 1"]
      ultimately show ?thesis
        using sm' szm upd pay by (simp add: count_bin)
    next
      case noupd: False
      have pay: "2 * 2 ^ c + 1 \<le> sz"
        if "c < Suc b" "2 ^ c < 2 * count_upto (2 * 2 ^ c + 1) ks" "0 < bins ! c" for c
      proof (cases "c = b")
        case True
        then show ?thesis using noupd that sm' count_bin [of b ks] by simp
      next
        case False
        then show ?thesis using less.prems(5) [of c] that by simp
      qed
      have "bestasize_loop bins nn b sm na sz = bestasize_loop bins nn (Suc b) (sm + bins ! b) na sz"
        by (subst st) (simp only: True noupd simp_thms if_True if_False)
      then show ?thesis using less.hyps [OF dec sm' less.prems(2-4) pay] by simp
    qed
  qed
qed

section \<open>The sizes a rehash computes\<close>

lemma hash_room_hbits: "n \<le> hash_room (hsize2hbits n)"
proof -
  have "n \<le> 2 ^ (1 + flsn (n - 1))" using flsn_upper [of "n - 1"] unfolding plus_1_eq_Suc by linarith
  then show ?thesis by (auto simp: hash_room_def hsize2hbits_def)
qed

lemma live_out_subset:
  assumes "tab_ok sid t"
  shows "live_out t asize \<subseteq> fst ` set (tail_pairs t asize) \<union> fst ` set (node_pairs (t_node t))"
proof
  fix x assume x: "x \<in> live_out t asize"
  show "x \<in> fst ` set (tail_pairs t asize) \<union> fst ` set (node_pairs (t_node t))"
  proof (cases "in_array t x")
    case True
    then have "map_of (tail_pairs t asize) x \<noteq> None"
      unfolding tail_pairs_lookup [OF assms] using x by (simp add: live_out_def in_array_unat)
    then show ?thesis by (simp add: map_of_eq_None_iff)
  next
    case False
    then have "map_of (node_pairs (t_node t)) x \<noteq> None"
      using node_pairs_lookup [OF assms _ _ False] x by (simp add: live_out_def)
    then show ?thesis by (simp add: map_of_eq_None_iff)
  qed
qed

definition new_outside :: "tvalue \<Rightarrow> nat \<Rightarrow> tvalue set" where
  "new_outside k asize = (if key_is_int k \<and> key_idx k < asize then {} else {k})"

lemma outside_split:
  assumes "x \<in> live_out t sz \<union> new_outside ek sz"
  shows "x = ek \<or> x \<in> live_out t 0" "\<not> (key_is_int x \<and> key_idx x < sz)"
proof -
  consider "x \<in> live_out t sz" | "x \<in> new_outside ek sz" using assms by blast
  then have "(x = ek \<or> x \<in> live_out t 0) \<and> \<not> (key_is_int x \<and> key_idx x < sz)"
  proof cases
    case 1
    then show ?thesis by (simp add: live_out_def key_idx_def)
  next
    case 2
    then show ?thesis by (simp add: new_outside_def split: if_splits)
  qed
  then show "x = ek \<or> x \<in> live_out t 0" "\<not> (key_is_int x \<and> key_idx x < sz)" by simp_all
qed

lemma rehash_sizes_ok:
  assumes ok: "tab_ok sid t"
  shows "\<exists>asize hbits. rehash_sizes t ek = (asize, hbits) \<and> asize \<le> LJ_MAX_ASIZE
    \<and> card (live_out t asize \<union> new_outside ek asize) \<le> hash_room hbits"
proof -
  define ts where "ts = map fst (tail_pairs t 0)"
  define hs where "hs = map fst (node_pairs (t_node t))"
  define all where "all = ek # rev hs @ ts"
  from countarray_ok [OF ok] obtain bins1 where
    b1: "countarray t (replicate LJ_MAX_ABITS 0) = (length ts, bins1)" "bins_ok bins1 ts" "count_where key_ix ts = length ts"
    by (auto simp: ts_def)
  from counthash_loop_ok [OF b1(2), of "t_node t" 0 0] obtain bins2 where
    b2: "counthash t bins1 (length ts) = (length hs, length ts + count_where key_ix hs, bins2)" "bins_ok bins2 (rev hs @ ts)"
    by (auto simp: counthash_def hs_def)
  from countint_ok [OF b2(2), of ek] obtain bins3 where
    b3: "countint ek bins2 = ((if key_ix ek then 1 else 0), bins3)" "bins_ok bins3 all" by (auto simp: all_def)
  define nn where "nn = length ts + count_where key_ix hs + (if key_ix ek then 1 else 0)"
  have "count_where key_ix (rev hs) = count_where key_ix hs" by (simp add: count_where_def flip: rev_filter)
  then have nn: "nn = count_where key_ix all" by (simp add: nn_def all_def b1(3))
  have z: "0 = count_where (\<lambda>k. key_ix k \<and> bin (key_idx k) < 0) all" "0 = count_upto 0 all"
    by (simp_all add: count_where_def count_upto_def)
  have z5: "2 * 2 ^ c + 1 \<le> (0::nat)" if "c < 0" for c :: nat using that by simp
  obtain na sz where r: "bestasize bins3 nn = (na, sz)" "na = count_upto sz all" "sz \<le> LJ_MAX_ASIZE"
    using bestasize_loop_ok [OF b3(2) nn z, OF _ _ z5] unfolding bestasize_def by blast
  have tot: "1 + length ts + length hs = length all" by (simp add: all_def)
  let ?out = "\<lambda>k. \<not> (key_ix k \<and> key_idx k < sz)"
  have "count_upto sz all + count_where ?out all = length all"
    unfolding count_upto_def count_where_def by (rule sum_length_filter_compl)
  then have rest: "length all - na = count_where ?out all" using r(2) by linarith
  have "rehash_sizes t ek = (sz, hsize2hbits (length all - na))"
  proof -
    have "rehash_sizes t ek = (case bestasize bins3 nn of (na, asize) \<Rightarrow>
        (asize, hsize2hbits (1 + length ts + length hs - na)))"
      by (simp only: rehash_sizes_def Let_def b1(1) b2(1) b3(1) nn_def prod.case)
    then show ?thesis unfolding r(1) tot by simp
  qed
  then have rs: "rehash_sizes t ek = (sz, hsize2hbits (count_where ?out all))" unfolding rest .
  have "live_out t sz \<union> new_outside ek sz \<subseteq> set (filter ?out all)"
  proof
    fix x assume x: "x \<in> live_out t sz \<union> new_outside ek sz"
    note sp = outside_split [OF x]
    have "x \<in> set all"
      using sp(1) subsetD [OF live_out_subset [OF ok, of 0], of x]
      by (elim disjE) (auto simp: all_def ts_def hs_def)
    then show "x \<in> set (filter ?out all)" using sp(2) by (simp add: key_ix_def)
  qed
  then have "card (live_out t sz \<union> new_outside ek sz) \<le> card (set (filter ?out all))" by (intro card_mono) auto
  also have "\<dots> \<le> count_where ?out all" unfolding count_where_def by (rule card_length)
  also have "\<dots> \<le> hash_room (hsize2hbits (count_where ?out all))" by (rule hash_room_hbits)
  finally show ?thesis using rs r(3) by blast
qed

section \<open>Rehashing and the full insertion\<close>

text \<open>The promise of an insertion on the finite map, with no word on the sizes.\<close>

definition slotted :: "(gcref \<Rightarrow> u32) \<Rightarrow> gctab \<Rightarrow> tvalue \<Rightarrow> gctab \<Rightarrow> slot \<Rightarrow> bool" where
  "slotted sid t k t' s \<longleftrightarrow> tab_ok sid t' \<and> slot_for t' s k \<and> (\<forall>j. key_valid j \<longrightarrow> tab_abs t' j = tab_abs t j)"

lemma inserted_slotted: "inserted sid t k t' s \<Longrightarrow> slotted sid t k t' s"
  by (simp add: inserted_def slotted_def)

lemma rehashtab_ok:
  assumes ok: "tab_ok sid t"
  shows "rehashtab_with (newkey_step R sid) sid t ek = Inl LJ_ERR_TABOV
    \<or> (\<exists>t' asize hbits. rehashtab_with (newkey_step R sid) sid t ek = Inr t' \<and> resized sid t asize hbits t'
        \<and> card (live_out t asize \<union> new_outside ek asize) \<le> hash_room hbits)"
proof -
  from rehash_sizes_ok [OF ok, of ek] obtain asize hbits where
    s: "rehash_sizes t ek = (asize, hbits)" "asize \<le> LJ_MAX_ASIZE"
      "card (live_out t asize \<union> new_outside ek asize) \<le> hash_room hbits" by blast
  show ?thesis
  proof (cases "LJ_MAX_HBITS < hbits")
    case True
    then show ?thesis using resize_tabov [OF ok] s(1) by (simp add: rehashtab_with_def)
  next
    case False
    have "card (live_out t asize) \<le> card (live_out t asize \<union> new_outside ek asize)"
      using finite_live_out [OF ok] by (intro card_mono) (auto simp: new_outside_def)
    then have rm: "card (live_out t asize) \<le> hash_room hbits" using s(3) by linarith
    show ?thesis using resize_ok [OF ok s(2) _ rm, of R] False s(1,3) by (auto simp: rehashtab_with_def)
  qed
qed

lemma resized_room:
  assumes ok: "tab_ok sid t" and k: "key_valid k" "key_norm k = k" "tab_abs t k = niltv"
    and t': "resized sid t asize hbits t'" and c: "card (live_out t asize \<union> new_outside k asize) \<le> hash_room hbits"
  shows "has_room t' k"
proof (cases "in_array t' k")
  case False
  have as: "unat (t_asize t') = asize" and hc: "hash_cap t' = hash_room hbits"
    and ks: "keyset (t_node t') \<subseteq> live_out t asize" using t' by (simp_all add: resized_def)
  have "new_outside k asize = {k}" using as False by (auto simp: new_outside_def in_array_unat key_idx_def)
  moreover have "k \<notin> live_out t asize" using k(3) by (simp add: live_out_def)
  ultimately have "card (live_out t asize) < hash_room hbits" using c finite_live_out [OF ok] by simp
  then have "card (keyset (t_node t')) < hash_cap t'"
    using card_mono [OF finite_live_out [OF ok] ks] hc by linarith
  then show ?thesis by (simp add: has_room_def hash_cap_def split: if_splits)
qed (simp add: has_room_def)

lemma rehash_set_ok:
  fixes R :: "gctab \<Rightarrow> tvalue \<Rightarrow> slot_result"
  assumes ok: "tab_ok sid t" and k: "key_valid k" "key_norm k = k" "tab_abs t k = niltv"
  defines "r \<equiv> (case rehashtab_with (newkey_step R sid) sid t k of
        Inl e \<Rightarrow> Inl e | Inr t \<Rightarrow> set_with (newkey_step R sid) sid t k)"
  shows "r = Inl LJ_ERR_TABOV \<or> (\<exists>t' s. r = Inr (t', s) \<and> slotted sid t k t' s)"
proof (cases "rehashtab_with (newkey_step R sid) sid t k = Inl LJ_ERR_TABOV")
  case False
  with rehashtab_ok [OF ok, of R k] obtain t' asize hbits where
    t': "rehashtab_with (newkey_step R sid) sid t k = Inr t'" "resized sid t asize hbits t'"
    and c: "card (live_out t asize \<union> new_outside k asize) \<le> hash_room hbits" by blast
  from t'(2) have ok': "tab_ok sid t'" and ab: "\<And>j. key_valid j \<Longrightarrow> tab_abs t' j = tab_abs t j"
    and as: "unat (t_asize t') = asize" and hc: "hash_cap t' = hash_room hbits"
    and ks: "keyset (t_node t') \<subseteq> live_out t asize" by (simp_all add: resized_def)
  note room = resized_room [OF ok k t'(2) c]
  from set_with_room [OF ok' k(1) room, of R] obtain t'' s where
    "set_with (newkey_step R sid) sid t' k = Inr (t'', s)" "inserted sid t' k t'' s" by blast
  then show ?thesis using t'(1) ab inserted_slotted [of sid t' k t'' s] by (simp add: r_def slotted_def)
qed (simp add: r_def)

lemma newkey_depth_step: "\<exists>R. newkey_depth d sid = newkey_step R sid"
  by (cases d) auto

text \<open>The setter of the table code: a slot for the key, or the documented overflow.\<close>

definition set_promise :: "(gcref \<Rightarrow> u32) \<Rightarrow> gctab \<Rightarrow> tvalue \<Rightarrow> slot_result \<Rightarrow> bool" where
  "set_promise sid t k r \<longleftrightarrow> r = Inl LJ_ERR_TABOV \<or> (\<exists>t' s. r = Inr (t', s) \<and> slotted sid t k t' s)"

lemma set_outcome_promise:
  assumes ok: "tab_ok sid t" and k: "key_valid k"
    and r: "set_outcome (\<lambda>t key. case rehashtab_with (newkey_depth d sid) sid t key of
        Inl e \<Rightarrow> Inl e | Inr t \<Rightarrow> set_with (newkey_depth d sid) sid t key) sid t k r"
  shows "set_promise sid t k r"
proof -
  obtain R where R: "newkey_depth d sid = newkey_step R sid" using newkey_depth_step by blast
  let ?k = "key_norm k"
  from r consider t' s where "r = Inr (t', s)" "inserted sid t k t' s"
    | "r = (case rehashtab_with (newkey_step R sid) sid t ?k of Inl e \<Rightarrow> Inl e | Inr t \<Rightarrow> set_with (newkey_step R sid) sid t ?k)"
      "\<not> in_array t k" "\<forall>i<length (t_node t). n_key (t_node t ! i) \<noteq> ?k"
    unfolding set_outcome_def R by blast
  then show ?thesis
  proof cases
    case 1
    then show ?thesis by (simp add: set_promise_def inserted_slotted)
  next
    case 2
    have "tab_abs t ?k = niltv" using tab_abs_absent [OF 2(2,3)] by (simp add: tab_abs_norm)
    from rehash_set_ok [OF ok key_valid_norm [OF k] key_norm_idem this, of R]
    have "r = Inl LJ_ERR_TABOV \<or> (\<exists>t' s. r = Inr (t', s) \<and> slotted sid t ?k t' s)" unfolding 2(1) .
    moreover have "slotted sid t ?k t' s \<longleftrightarrow> slotted sid t k t' s" for t' s
    proof -
      have "slot_for t' s ?k \<longleftrightarrow> slot_for t' s k"
      proof (cases "key_is_int k")
        case True
        then show ?thesis using in_array_norm [of t' k] by (simp add: slot_for_def key_norm_is_int split: slot.splits)
      qed (simp add: key_norm_not_int)
      then show ?thesis by (simp add: slotted_def)
    qed
    ultimately show ?thesis by (simp add: set_promise_def)
  qed
qed

lemma newkey_unfold: "lj_tab_newkey sid = newkey_step (\<lambda>t key. case rehashtab_with (newkey_depth 0 sid) sid t key of
        Inl e \<Rightarrow> Inl e | Inr t \<Rightarrow> set_with (newkey_depth 0 sid) sid t key) sid"
  by (simp add: lj_tab_newkey_def)

lemma set_promise_nomm: "set_promise sid (t\<lparr>t_nomm := x\<rparr>) k r \<longleftrightarrow> set_promise sid t k r"
  by (simp add: set_promise_def slotted_def nomm_simps)

lemma set_promises:
  assumes ok: "tab_ok sid t"
  shows set_promise_set: "key_valid k \<Longrightarrow> set_promise sid t k (lj_tab_set sid t k)"
    and set_promise_setint: "set_promise sid t (int2dbl n) (lj_tab_setint sid t n)"
    and set_promise_setstr: "tvisstr k \<Longrightarrow> set_promise sid t k (lj_tab_setstr sid t (gcval k))"
proof -
  show "set_promise sid t k (lj_tab_set sid t k)" if "key_valid k"
  proof -
    have "tab_ok sid (t\<lparr>t_nomm := 0\<rparr>)" using ok by (simp add: nomm_simps)
    from set_outcome_promise [OF this that set_with_outcome [OF ok that], of 0]
    show ?thesis by (simp add: set_promise_nomm lj_tab_set_def newkey_unfold del: newkey_depth.simps)
  qed
  show "set_promise sid t (int2dbl n) (lj_tab_setint sid t n)"
    using set_outcome_promise [OF ok key_valid_int2dbl setint_outcome [OF ok]]
    by (simp add: lj_tab_setint_def newkey_unfold del: newkey_depth.simps)
  show "set_promise sid t k (lj_tab_setstr sid t (gcval k))" if "tvisstr k"
  proof -
    have "key_valid k" using that by (auto simp: key_valid_def tv_canon_def tvisstr_not)
    from set_outcome_promise [OF ok this setstr_outcome [OF ok that]]
    show ?thesis by (simp add: lj_tab_setstr_def newkey_unfold del: newkey_depth.simps)
  qed
qed

end
