(* ===== verification/LjTabNext.thy ===== *)
theory LjTabNext
  imports LjTabRehash
begin

text \<open>
  Traversal (\<open>keyindex\<close> and \<open>lj_tab_next\<close> of \<^verbatim>\<open>lj_tab.c\<close>): from nil on, each pair with a value is
  visited exactly once, in the order of the array and then of the nodes.
\<close>

section \<open>Model\<close>

definition keyindex :: "(gcref \<Rightarrow> u32) \<Rightarrow> gctab \<Rightarrow> tvalue \<Rightarrow> tab_err + u32" where
  "keyindex sid t key =
     (let generic = (if \<not> tvisnil key then
            (case chain_find (\<lambda>nk. lj_obj_equal nk key) (t_node t) (hashkey sid t key) of
               None \<Rightarrow> Inl TAB_NOEND
             | Some (Some n) \<Rightarrow> Inr (t_asize t + of_nat n)
             | Some None \<Rightarrow>
                 if u32hi key = 0xfffe7fff then Inr (u32lo key - 1) else Inl LJ_ERR_NEXTIDX)
          else Inr (NOT 0))
      in if tvisnum key then
           (let k = lj_num2int key in
            if k < t_asize t \<and> dbl_eq key (int2dbl k) then Inr k else generic)
         else generic)"

definition lj_tab_next :: "(gcref \<Rightarrow> u32) \<Rightarrow> gctab \<Rightarrow> tvalue \<Rightarrow> tab_err + (tvalue \<times> tvalue) option" where
  "lj_tab_next sid t key =
     (case keyindex sid t key of Inl e \<Rightarrow> Inl e
      | Inr i \<Rightarrow>
          let i = i + 1 in
          (case scan_up (\<lambda>j. \<not> tvisnil (t_array t ! j)) (unat i) (unat (t_asize t)) of
             Some j \<Rightarrow> Inr (Some (setintV (of_nat j), t_array t ! j))
           | None \<Rightarrow>
               let i = (if i < t_asize t then t_asize t else i) - t_asize t in
               (case scan_up (\<lambda>j. \<not> tvisnil (n_val (t_node t ! j))) (unat i) (unat (t_hmask t) + 1) of
                  Some j \<Rightarrow> Inr (Some (n_key (t_node t ! j), n_val (t_node t ! j)))
                | None \<Rightarrow> Inr None)))"

section \<open>The pairs of a table, by position\<close>

definition tab_entry :: "gctab \<Rightarrow> nat \<Rightarrow> tvalue \<times> tvalue" where
  "tab_entry t p =
     (if p < unat (t_asize t) then (int2dbl (of_nat p), t_array t ! p)
      else (n_key (t_node t ! (p - unat (t_asize t))), n_val (t_node t ! (p - unat (t_asize t)))))"

definition tab_size :: "gctab \<Rightarrow> nat" where
  "tab_size t = unat (t_asize t) + length (t_node t)"

definition tab_live :: "gctab \<Rightarrow> nat \<Rightarrow> bool" where
  "tab_live t p \<longleftrightarrow> snd (tab_entry t p) \<noteq> niltv"

definition tab_entries :: "gctab \<Rightarrow> (tvalue \<times> tvalue) list" where
  "tab_entries t = map (tab_entry t) (filter (tab_live t) [0..<tab_size t])"

lemma tab_size_bound: "tab_ok sid t \<Longrightarrow> tab_size t \<le> 2 ^ 27 + 1 + 2 ^ 26"
proof -
  assume ok: "tab_ok sid t"
  obtain b where b: "b \<le> LJ_MAX_HBITS" "length (t_node t) = 2 ^ b" using tab_ok_size [OF ok] by blast
  then have "(2::nat) ^ b \<le> 2 ^ 26" by (intro power_increasing) (simp_all add: lj_limits)
  then show ?thesis using b(2) tab_ok_asize [OF ok] by (simp add: tab_size_def lj_limits)
qed

lemma scan_up_filter: "scan_up P q n = (case filter P [q..<n] of [] \<Rightarrow> None | p # _ \<Rightarrow> Some p)"
proof (induction P q n rule: scan_up.induct)
  case (1 P q n)
  show ?case
  proof (cases "q < n")
    case True
    then have "[q..<n] = q # [Suc q..<n]" by (rule upt_conv_Cons)
    then show ?thesis using 1 True by (simp add: scan_up.simps [of P q n])
  qed (simp add: scan_up.simps [of P q n])
qed

lemma scan_up_split:
  assumes "q \<le> m" "m \<le> n"
  shows "scan_up P q n = (case scan_up P q m of Some p \<Rightarrow> Some p | None \<Rightarrow> scan_up P m n)"
proof -
  have "[q..<n] = [q..<m] @ [m..<n]" using assms upt_add_eq_append [of q m "n - m"] by simp
  then show ?thesis by (simp add: scan_up_filter split: list.split)
qed

lemma scan_up_shift: "scan_up (\<lambda>p. P (p - a)) (a + q) (a + n) = map_option (\<lambda>p. a + p) (scan_up P q n)"
proof (induction P q n rule: scan_up.induct)
  case (1 P q n)
  then show ?case by (simp add: scan_up.simps [of P q n] scan_up.simps [of _ "a + q" "a + n"])
qed

lemma scan_up_cong:
  assumes "\<And>k. q \<le> k \<Longrightarrow> k < n \<Longrightarrow> P k \<longleftrightarrow> Q k"
  shows "scan_up P q n = scan_up Q q n"
proof -
  have "filter P [q..<n] = filter Q [q..<n]" using assms by (intro filter_cong) auto
  then show ?thesis by (simp add: scan_up_filter)
qed

lemma next_from:
  assumes ok: "tab_ok sid t" and i: "keyindex sid t k = Inr i" and q: "unat (i + 1) \<le> tab_size t"
  shows "lj_tab_next sid t k = Inr (map_option (tab_entry t) (scan_up (tab_live t) (unat (i + 1)) (tab_size t)))"
proof -
  let ?q = "unat (i + 1)" and ?a = "unat (t_asize t)" and ?n = "length (t_node t)"
  let ?A = "\<lambda>j. \<not> tvisnil (t_array t ! j)" and ?N = "\<lambda>j. \<not> tvisnil (n_val (t_node t ! j))"
  have hn: "unat (t_hmask t) + 1 = ?n" using tab_ok_hmask [OF ok] by simp
  have A: "scan_up (tab_live t) p ?a = scan_up ?A p ?a" for p
    by (rule scan_up_cong) (simp add: tab_live_def tab_entry_def nil_iff)
  have N: "scan_up (tab_live t) (?a + p) (tab_size t) = map_option (\<lambda>p. ?a + p) (scan_up ?N p ?n)" for p
    unfolding tab_size_def scan_up_shift [symmetric]
    by (rule scan_up_cong) (simp add: tab_live_def tab_entry_def nil_iff)
  define j where "j = (if i + 1 < t_asize t then t_asize t else i + 1) - t_asize t"
  have j: "unat j = max ?q ?a - ?a"
    by (auto simp: j_def word_less_nat_alt unat_sub word_le_nat_alt)
  have e: "tab_entry t (?a + p) = (n_key (t_node t ! p), n_val (t_node t ! p))" for p by (simp add: tab_entry_def)
  have r: "lj_tab_next sid t k = (case scan_up ?A ?q ?a of
      Some p \<Rightarrow> Inr (Some (int2dbl (of_nat p), t_array t ! p))
    | None \<Rightarrow> Inr (map_option (\<lambda>p. tab_entry t (?a + p)) (scan_up ?N (max ?q ?a - ?a) ?n)))"
    unfolding lj_tab_next_def i sum.case Let_def j_def [symmetric] j hn
    by (simp add: setintV_def e split: option.split)
  show ?thesis
  proof (cases "?q \<le> ?a")
    case True
    have "scan_up (tab_live t) ?q (tab_size t) = (case scan_up ?A ?q ?a of Some p \<Rightarrow> Some p
       | None \<Rightarrow> map_option (\<lambda>p. ?a + p) (scan_up ?N 0 ?n))"
    proof -
      have "?a \<le> tab_size t" by (simp add: tab_size_def)
      from scan_up_split [OF True this, of "tab_live t"] show ?thesis
        unfolding A using N [of 0] by (simp split: option.split)
    qed
    moreover have "tab_entry t p = (int2dbl (of_nat p), t_array t ! p)" if "scan_up ?A ?q ?a = Some p" for p
      using scan_up_Some [OF that] by (simp add: tab_entry_def)
    moreover have "max ?q ?a - ?a = 0" using True by simp
    ultimately show ?thesis unfolding r by (simp add: option.map_comp comp_def split: option.split)
  next
    case False
    then have "scan_up ?A ?q ?a = None" by (auto simp: scan_up_None)
    moreover have "?q = ?a + (max ?q ?a - ?a)" using False by simp
    ultimately show ?thesis unfolding r using N [of "max ?q ?a - ?a"] by (simp add: option.map_comp comp_def)
  qed
qed

section \<open>Correctness\<close>

lemma filter_upt_split:
  "map f (filter P [a..<n]) = xs @ y # ys \<Longrightarrow> \<exists>p. a \<le> p \<and> p < n \<and> P p \<and> f p = y \<and> ys = map f (filter P [Suc p..<n])"
proof (induction "n - a" arbitrary: a xs)
  case (Suc d)
  have "a < n" using Suc.hyps(2) by simp
  then have u: "[a..<n] = a # [Suc a..<n]" by (rule upt_conv_Cons)
  have d: "d = n - Suc a" using Suc.hyps(2) by simp
  show ?case
  proof (cases "P a \<and> xs = []")
    case True
    have "f a = y" "ys = map f (filter P [Suc a..<n])" using Suc.prems True unfolding u by simp_all
    then show ?thesis using True Suc.hyps(2) by (intro exI [of _ a]) simp
  next
    case False
    have "\<exists>xs'. map f (filter P [Suc a..<n]) = xs' @ y # ys"
    proof (cases "P a")
      case True
      then show ?thesis using False Suc.prems unfolding u by (cases xs) auto
    next
      case nP: False
      then show ?thesis using Suc.prems unfolding u by auto
    qed
    then obtain xs' where "map f (filter P [Suc a..<n]) = xs' @ y # ys" by blast
    from Suc.hyps(1) [OF d this] show ?thesis using Suc_leD by blast
  qed
qed simp

lemma tab_live_key:
  assumes ok: "tab_ok sid t" and p: "p < tab_size t" "tab_live t p"
  shows "keyindex sid t (fst (tab_entry t p)) = Inr (of_nat p)"
    and "key_valid (fst (tab_entry t p))" and "key_norm (fst (tab_entry t p)) = fst (tab_entry t p)"
    and "tab_abs t (fst (tab_entry t p)) = snd (tab_entry t p)"
proof -
  let ?a = "unat (t_asize t)"
  have p32: "p < 2 ^ 32" using p(1) tab_size_bound [OF ok] by simp
  let ?k = "fst (tab_entry t p)"
  have "keyindex sid t ?k = Inr (of_nat p) \<and> key_valid ?k \<and> key_norm ?k = ?k \<and> tab_abs t ?k = snd (tab_entry t p)"
  proof (cases "p < ?a")
    case True
    then have lt: "(of_nat p :: u32) < t_asize t" using p32 unat_of_nat32 [of p] by (simp add: word_less_nat_alt)
    have "dbl_eq (int2dbl (of_nat p)) (int2dbl (of_nat p))" by (simp add: dbl_eq_refl)
    moreover have "unat (of_nat p :: u32) = p" using p32 unat_of_nat32 [of p] by simp
    ultimately show ?thesis using True lt
      by (simp add: tab_entry_def keyindex_def tab_abs_def in_array_int2dbl Let_def)
  next
    case False
    define n where "n = p - ?a"
    have n: "n < length (t_node t)" "?k = n_key (t_node t ! n)" "snd (tab_entry t p) = n_val (t_node t ! n)"
      using False p(1) by (auto simp: n_def tab_entry_def tab_size_def)
    have kn: "?k \<noteq> niltv" using p(2) nodes_ok_nil(1) [OF tab_ok_nodes [OF ok] n(1)] n by (auto simp: tab_live_def)
    then have h: "hkey_ok t ?k" using tab_ok_key [OF ok n(1)] n(2) by simp
    then have k: "key_valid ?k" "key_norm ?k = ?k" "\<not> in_array t ?k" by (simp_all add: hkey_ok_def)
    have fd: "chain_find (\<lambda>nk. lj_obj_equal nk ?k) (t_node t) (hashkey sid t ?k) = Some (Some n)"
    proof -
      from find_generic [OF ok k(1)] n obtain m where
        m: "chain_find (\<lambda>nk. lj_obj_equal nk ?k) (t_node t) (hashkey sid t ?k) = Some (Some m)"
          "m < length (t_node t)" "n_key (t_node t ! m) = ?k" unfolding k(2) by metis
      then have "m = n" by (intro nodes_ok_distinct [OF tab_ok_nodes [OF ok]]) (use n kn in simp_all)
      then show ?thesis using m(1) by simp
    qed
    have ni: "\<not> (tvisnum ?k \<and> lj_num2int ?k < t_asize t \<and> dbl_eq ?k (int2dbl (lj_num2int ?k)))"
      using k(3) by (auto simp: in_array_def key_is_int_def)
    have "t_asize t + of_nat n = of_nat (?a + n)" by simp
    also have "\<dots> = of_nat p" using False by (simp add: n_def)
    finally have "keyindex sid t ?k = Inr (of_nat p)"
      using ni fd kn by (auto simp: keyindex_def Let_def nil_iff)
    moreover have "tab_abs t ?k = snd (tab_entry t p)"
      using tab_abs_node [OF ok n(1) n(2) [symmetric] kn k(2)] n(3) by simp
    ultimately show ?thesis using k by simp
  qed
  then show "keyindex sid t ?k = Inr (of_nat p)" "key_valid ?k" "key_norm ?k = ?k"
    "tab_abs t ?k = snd (tab_entry t p)" by simp_all
qed

lemma next_first:
  assumes ok: "tab_ok sid t"
  shows "lj_tab_next sid t niltv = Inr (case tab_entries t of [] \<Rightarrow> None | e # _ \<Rightarrow> Some e)"
proof -
  have nn: "\<not> tvisnum niltv" using tvisnum_not_pri(2) [of niltv] by (auto simp: nil_iff)
  then have i: "keyindex sid t niltv = Inr (NOT 0)" by (simp add: keyindex_def nil_iff)
  have q: "unat (NOT 0 + 1 :: u32) = 0" by simp
  have "lj_tab_next sid t niltv = Inr (map_option (tab_entry t) (scan_up (tab_live t) 0 (tab_size t)))"
    using next_from [OF ok i] unfolding q by simp
  then show ?thesis by (simp add: tab_entries_def scan_up_filter split: list.split)
qed

lemma next_succ:
  assumes ok: "tab_ok sid t" and e: "tab_entries t = xs @ (k, v) # ys"
  shows "lj_tab_next sid t k = Inr (case ys of [] \<Rightarrow> None | e # _ \<Rightarrow> Some e)"
proof -
  from filter_upt_split [OF e [unfolded tab_entries_def]] obtain p where
    p: "p < tab_size t" "tab_live t p" "tab_entry t p = (k, v)"
      "ys = map (tab_entry t) (filter (tab_live t) [Suc p..<tab_size t])" by blast
  have i: "keyindex sid t k = Inr (of_nat p)" using tab_live_key(1) [OF ok p(1,2)] p(3) by simp
  have "of_nat p + 1 = (of_nat (Suc p) :: u32)" by simp
  then have q: "unat (of_nat p + 1 :: u32) = Suc p"
    using unat_of_nat32 [of "Suc p"] p(1) tab_size_bound [OF ok] by (simp del: of_nat_Suc)
  have "lj_tab_next sid t k = Inr (map_option (tab_entry t) (scan_up (tab_live t) (Suc p) (tab_size t)))"
    using next_from [OF ok i] p(1) unfolding q by simp
  then show ?thesis by (simp add: p(4) scan_up_filter split: list.split)
qed

lemma tab_entries_pairs:
  assumes ok: "tab_ok sid t"
  shows "tab_entries t = tail_pairs t 0 @ node_pairs (t_node t)"
proof -
  let ?a = "unat (t_asize t)" and ?n = "length (t_node t)"
  have l: "length (take ?a (t_array t)) = ?a" using tab_ok_array [OF ok] by simp
  have z: "zip [0..<?a] (take ?a (t_array t)) = map (\<lambda>i. (i, t_array t ! i)) [0..<?a]"
    by (rule nth_equalityI) (use l in auto)
  have 1: "map (tab_entry t) (filter (tab_live t) [0..<?a]) = tail_pairs t 0"
  proof -
    have "filter (tab_live t) [0..<?a] = filter (\<lambda>i. t_array t ! i \<noteq> niltv) [0..<?a]"
      by (rule filter_cong) (simp_all add: tab_live_def tab_entry_def)
    moreover have "map (tab_entry t) (filter (\<lambda>i. t_array t ! i \<noteq> niltv) [0..<?a])
        = map (\<lambda>i. (int2dbl (of_nat i), t_array t ! i)) (filter (\<lambda>i. t_array t ! i \<noteq> niltv) [0..<?a])"
      by (rule map_cong) (simp_all add: tab_entry_def)
    ultimately show ?thesis
      using l unfolding tail_pairs_def array_pairs_def by (simp add: z filter_map comp_def nil_iff)
  qed
  have 2: "map (tab_entry t) (filter (tab_live t) [?a..<?a + ?n]) = node_pairs (t_node t)"
  proof -
    have "[?a..<?a + ?n] = map (\<lambda>i. ?a + i) [0..<?n]" using map_add_upt [of ?a ?n] by (simp add: add.commute)
    moreover have "t_node t = map (\<lambda>i. t_node t ! i) [0..<?n]" by (simp add: map_nth)
    then have "node_pairs (t_node t) = node_pairs (map (\<lambda>i. t_node t ! i) [0..<?n])" by simp
    ultimately show ?thesis
      by (simp add: node_pairs_def filter_map comp_def tab_live_def tab_entry_def nil_iff)
  qed
  have "[0..<tab_size t] = [0..<?a] @ [?a..<?a + ?n]" unfolding tab_size_def by (rule upt_add_eq_append) simp
  then show ?thesis using 1 2 by (simp add: tab_entries_def)
qed

lemma tab_entries_map:
  assumes ok: "tab_ok sid t"
  shows "distinct (map fst (tab_entries t))"
    and "key_valid k \<Longrightarrow> tab_abs t k = (case map_of (tab_entries t) (key_norm k) of None \<Rightarrow> niltv | Some v \<Rightarrow> v)"
    and "(k, v) \<in> set (tab_entries t) \<Longrightarrow> key_valid k \<and> key_norm k = k \<and> v \<noteq> niltv \<and> tab_abs t k = v"
proof -
  have dj: "fst ` set (tail_pairs t 0) \<inter> fst ` set (node_pairs (t_node t)) = {}"
  proof -
    have False if "x \<in> fst ` set (tail_pairs t 0)" "x \<in> fst ` set (node_pairs (t_node t))" for x
      using tail_pairs_live(2) [OF ok that(1)] node_pairs_live(1) [OF ok that(2)] by (simp add: hkey_ok_def)
    then show ?thesis by blast
  qed
  then show "distinct (map fst (tab_entries t))"
    using tail_pairs_distinct [OF ok, of 0] node_pairs_distinct [OF tab_ok_nodes [OF ok]]
    by (simp add: tab_entries_pairs [OF ok])
  show "(k, v) \<in> set (tab_entries t) \<Longrightarrow> key_valid k \<and> key_norm k = k \<and> v \<noteq> niltv \<and> tab_abs t k = v"
  proof -
    assume "(k, v) \<in> set (tab_entries t)"
    then obtain p where "p < tab_size t" "tab_live t p" "tab_entry t p = (k, v)" by (auto simp: tab_entries_def)
    then show ?thesis using tab_live_key [OF ok, of p] by (simp add: tab_live_def)
  qed
  assume k: "key_valid k"
  let ?k = "key_norm k"
  show "tab_abs t k = (case map_of (tab_entries t) ?k of None \<Rightarrow> niltv | Some v \<Rightarrow> v)"
  proof (cases "in_array t ?k")
    case True
    have "map_of (node_pairs (t_node t)) ?k = None"
      using node_pairs_live(1) [OF ok, of ?k] True by (auto simp: map_of_eq_None_iff hkey_ok_def)
    moreover have "key_is_int ?k" using True by (simp add: in_array_def)
    ultimately show ?thesis using True tab_abs_norm [of t k]
      by (simp add: tab_entries_pairs [OF ok] map_add_def tail_pairs_lookup [OF ok])
  next
    case False
    then show ?thesis using tab_abs_norm [of t k] node_pairs_lookup [OF ok key_norm_idem key_valid_norm [OF k] False]
      by (simp add: tab_entries_pairs [OF ok] map_add_def tail_pairs_lookup [OF ok])
  qed
qed

lemma next_unknown:
  assumes ok: "tab_ok sid t" and k: "key_valid k" "tab_abs t k = niltv" "\<not> in_array t k"
    and "\<forall>i<length (t_node t). n_key (t_node t ! i) \<noteq> key_norm k" and "u32hi k \<noteq> 0xfffe7fff"
  shows "lj_tab_next sid t k = Inl LJ_ERR_NEXTIDX"
proof -
  have "chain_find (\<lambda>nk. lj_obj_equal nk k) (t_node t) (hashkey sid t k) = Some None"
    using find_generic [OF ok k(1)] assms(5) by blast
  moreover have "\<not> tvisnil k" using k(1) by (simp add: key_valid_def)
  ultimately have "keyindex sid t k = Inl LJ_ERR_NEXTIDX"
    using k(3) assms(6) by (auto simp: keyindex_def Let_def in_array_def key_is_int_def)
  then show ?thesis by (simp add: lj_tab_next_def)
qed

end
