(* ===== verification/LjTabLen.thy ===== *)
theory LjTabLen
  imports LjTabNext "HOL-Library.Monad_Syntax"
begin

text \<open>
  The length operator (\<open>lj_tab_len\<close>, \<open>tab_len_slow\<close>, \<open>lj_tab_len_hint\<close> of \<^verbatim>\<open>lj_tab.c\<close>) and the
  queries \<open>lj_tab_nkeys\<close>, \<open>lj_tab_isempty\<close>. The length is a border of the table: a non-nil value
  followed by nil, or 0 before nil.
\<close>

section \<open>Model\<close>

definition getint_val :: "gctab \<Rightarrow> nat \<Rightarrow> tvalue option" where
  "getint_val t i = slot_val t (lj_tab_getint t (of_nat i))"

text \<open>The linear search after a punt: \<open>None\<close> if it never meets nil.\<close>

partial_function (option) len_linear :: "gctab \<Rightarrow> nat \<Rightarrow> nat option" where
  "len_linear t lo =
     do { v \<leftarrow> getint_val t lo; if \<not> tvisnil v then len_linear t (lo + 1) else Some (lo - 1) }"

text \<open>The widening search: \<open>Inr\<close> the result of the punt, or \<open>Inl\<close> the bounds to bisect.\<close>

partial_function (option) len_widen :: "gctab \<Rightarrow> nat \<Rightarrow> nat \<Rightarrow> ((nat \<times> nat) + nat) option" where
  "len_widen t lo hi =
     do { v \<leftarrow> getint_val t hi;
          if \<not> tvisnil v then
            (if 2147483647 - 2 < hi + hi then map_option Inr (len_linear t 1)
             else len_widen t hi (hi + hi))
          else Some (Inl (lo, hi)) }"

declare len_linear.simps [code] len_widen.simps [code]

function len_bisect :: "(nat \<Rightarrow> tvalue option) \<Rightarrow> nat \<Rightarrow> nat \<Rightarrow> nat option" where
  "len_bisect get lo hi =
     (if 1 < hi - lo then
        (let mid = (lo + hi) div 2 in
         case get mid of None \<Rightarrow> None
         | Some v \<Rightarrow> if \<not> tvisnil v then len_bisect get mid hi else len_bisect get lo mid)
      else Some lo)"
  by pat_completeness auto
termination
  by (relation "measure (\<lambda>(get, lo, hi). hi - lo)") auto

declare len_bisect.simps [simp del]

definition tab_len_slow :: "gctab \<Rightarrow> nat \<Rightarrow> nat option" where
  "tab_len_slow t hi =
     do { r \<leftarrow> len_widen t hi (hi + 1);
          case r of Inr n \<Rightarrow> Some n | Inl (lo, hi) \<Rightarrow> len_bisect (getint_val t) lo hi }"

definition lj_tab_len :: "gctab \<Rightarrow> nat option" where
  "lj_tab_len t =
     (let hi = unat (t_asize t) - 1 in
      if 0 < hi \<and> tvisnil (t_array t ! hi) then len_bisect (\<lambda>i. Some (t_array t ! i)) 0 hi
      else if t_hmask t \<noteq> 0 then tab_len_slow t hi else Some hi)"

text \<open>The hint is a natural number: the code differs for the largest \<open>size_t\<close>, where adding 1 wraps.\<close>

definition lj_tab_len_hint :: "gctab \<Rightarrow> nat \<Rightarrow> nat option" where
  "lj_tab_len_hint t hint =
     (let asize = unat (t_asize t) in
      if hint + 1 < asize then
        (if \<not> tvisnil (t_array t ! hint) \<and> tvisnil (t_array t ! (hint + 1)) then Some hint else lj_tab_len t)
      else if hint + 1 \<le> asize \<and> t_hmask t = 0 \<and> \<not> tvisnil (t_array t ! hint) then Some hint
      else lj_tab_len t)"

definition lj_tab_nkeys :: "gctab \<Rightarrow> nat" where
  "lj_tab_nkeys t =
     (let cnt = length (filter (\<lambda>v. \<not> tvisnil v) (take (unat (t_asize t)) (t_array t))) in
      if t_hmask t = 0 then cnt
      else cnt + length (filter (\<lambda>n. \<not> tvisnil (n_val n)) (t_node t)))"

definition lj_tab_isempty :: "gctab \<Rightarrow> bool" where
  "lj_tab_isempty t =
     (if list_ex (\<lambda>v. \<not> tvisnil v) (take (unat (t_asize t)) (t_array t)) then False
      else if t_hmask t = 0 then True
      else \<not> list_ex (\<lambda>n. \<not> tvisnil (n_val n)) (t_node t))"

section \<open>Borders\<close>

definition int_val :: "gctab \<Rightarrow> nat \<Rightarrow> tvalue" where
  "int_val t i = tab_abs t (int2dbl (of_nat i))"

definition border :: "gctab \<Rightarrow> nat \<Rightarrow> bool" where
  "border t n \<longleftrightarrow> (n = 0 \<or> int_val t n \<noteq> niltv) \<and> int_val t (n + 1) = niltv"

lemma getint_val_ok: "tab_ok sid t \<Longrightarrow> getint_val t i = Some (int_val t i)"
  by (simp add: getint_val_def int_val_def getint_abs)

lemma int_val_array: "tab_ok sid t \<Longrightarrow> i < unat (t_asize t) \<Longrightarrow> int_val t i = t_array t ! i"
proof -
  assume ok: "tab_ok sid t" and i: "i < unat (t_asize t)"
  have "unat (of_nat i :: u32) = i" using i unat_bound32 [of "t_asize t"] by (intro unat_of_nat32) linarith
  then show "int_val t i = t_array t ! i"
    using i by (simp add: int_val_def tab_abs_def in_array_int2dbl word_less_nat_alt)
qed

lemma int_val_beyond:
  assumes ok: "tab_ok sid t" and "t_hmask t = 0" "unat (t_asize t) \<le> i" "i < 2 ^ 32"
  shows "int_val t i = niltv"
proof -
  have "unat (of_nat i :: u32) = i" using assms(4) by (intro unat_of_nat32) simp
  then have "\<not> in_array t (int2dbl (of_nat i))" using assms(3) by (simp add: in_array_int2dbl word_less_nat_alt)
  moreover have "t_node t = [nilnode]" using tab_ok_empty [OF ok assms(2)] by simp
  moreover have "int2dbl (of_nat i) \<noteq> niltv" by (intro key_valid_not_nil) simp
  ultimately show ?thesis unfolding int_val_def by (intro tab_abs_absent) (simp_all add: nilnode_def)
qed

lemma len_bisect_ok:
  "lo < hi \<Longrightarrow> (\<And>i. lo < i \<Longrightarrow> i < hi \<Longrightarrow> get i = Some (int_val t i)) \<Longrightarrow>
   (lo = 0 \<or> int_val t lo \<noteq> niltv) \<Longrightarrow> int_val t hi = niltv \<Longrightarrow>
   \<exists>n. len_bisect get lo hi = Some n \<and> border t n \<and> lo \<le> n \<and> n < hi"
proof (induction get lo hi rule: len_bisect.induct)
  case (1 get lo hi)
  note IH = "1.IH" and pr = "1.prems"
  show ?case
  proof (cases "1 < hi - lo")
    case False
    then have "hi = lo + 1" using pr(1) by simp
    then have "border t lo" using pr by (simp add: border_def)
    moreover have "len_bisect get lo hi = Some lo" using False by (simp add: len_bisect.simps [of get lo hi])
    ultimately show ?thesis using pr(1) by blast
  next
    case True
    define mid where "mid = (lo + hi) div 2"
    have m: "lo < mid" "mid < hi" using True by (auto simp: mid_def)
    have g: "get mid = Some (int_val t mid)" using pr(2) m by simp
    show ?thesis
    proof (cases "int_val t mid = niltv")
      case nil: True
      from IH(2) [OF True mid_def g] nil m pr have "\<exists>n. len_bisect get lo mid = Some n \<and> border t n \<and> lo \<le> n \<and> n < mid"
        by (simp add: nil_iff)
      then show ?thesis using True g nil m
        by (auto simp: len_bisect.simps [of get lo hi] Let_def nil_iff simp flip: mid_def)
    next
      case False
      from IH(1) [OF True mid_def g] False m pr have "\<exists>n. len_bisect get mid hi = Some n \<and> border t n \<and> mid \<le> n \<and> n < hi"
        by (simp add: nil_iff)
      then show ?thesis using True g False m
        by (auto simp: len_bisect.simps [of get lo hi] Let_def nil_iff simp flip: mid_def)
    qed
  qed
qed

section \<open>Termination of the searches\<close>

text \<open>A table holds fewer than \<open>2 ^ 28\<close> pairs, so it has no run of integer keys beyond that.\<close>

lemma entries_length: "tab_ok sid t \<Longrightarrow> length (tab_entries t) < 2 ^ 28"
proof -
  assume ok: "tab_ok sid t"
  have "length (tab_entries t) \<le> length [0..<tab_size t]"
    unfolding tab_entries_def length_map by (rule length_filter_le)
  then show "length (tab_entries t) < 2 ^ 28" using tab_size_bound [OF ok] by simp
qed

lemma int_run_bound:
  assumes ok: "tab_ok sid t" and n: "n < 4294967296" and run: "\<And>i. 0 < i \<Longrightarrow> i \<le> n \<Longrightarrow> int_val t i \<noteq> niltv"
  shows "n \<le> length (tab_entries t)"
proof -
  let ?f = "\<lambda>i::nat. int2dbl (of_nat i)"
  have inj: "inj_on ?f {0<..n}"
  proof (rule inj_onI)
    fix i j :: nat assume ij: "i \<in> {0<..n}" "j \<in> {0<..n}" "?f i = ?f j"
    then have "(of_nat i :: u32) = of_nat j" by (simp add: int2dbl_inj)
    then have "unat (of_nat i :: u32) = unat (of_nat j :: u32)" by simp
    moreover have "i < 4294967296" "j < 4294967296" using ij(1,2) n by simp_all
    ultimately show "i = j" by (simp only: unat_of_nat32)
  qed
  have "x \<in> fst ` set (tab_entries t)" if "x \<in> ?f ` {0<..n}" for x
  proof -
    obtain i where i: "x = ?f i" "0 < i" "i \<le> n" using \<open>x \<in> ?f ` {0<..n}\<close> by auto
    then have "tab_abs t x \<noteq> niltv" using run by (simp add: int_val_def)
    then have "map_of (tab_entries t) x \<noteq> None"
      using tab_entries_map(2) [OF ok, of x] i(1) by (auto split: option.splits)
    then show ?thesis by (simp add: map_of_eq_None_iff)
  qed
  then have "?f ` {0<..n} \<subseteq> fst ` set (tab_entries t)" by blast
  then have "card (?f ` {0<..n}) \<le> card (fst ` set (tab_entries t))" by (rule card_mono [rotated]) simp
  also have "\<dots> \<le> length (tab_entries t)" using card_length [of "map fst (tab_entries t)"] by simp
  finally show ?thesis unfolding card_image [OF inj] by simp
qed

lemma int_gap:
  assumes ok: "tab_ok sid t"
  shows "\<exists>i. 0 < i \<and> int_val t i = niltv"
proof (rule ccontr)
  assume "\<not> (\<exists>i. 0 < i \<and> int_val t i = niltv)"
  then have r: "\<And>i. 0 < i \<Longrightarrow> int_val t i \<noteq> niltv" by blast
  have "268435456 \<le> length (tab_entries t)" by (rule int_run_bound [OF ok]) (simp_all add: r)
  then show False using entries_length [OF ok] by simp
qed

lemma len_linear_ok:
  assumes ok: "tab_ok sid t" and "0 < lo" "lo \<le> m" "int_val t m = niltv"
    "\<And>i. 0 < i \<Longrightarrow> i < lo \<Longrightarrow> int_val t i \<noteq> niltv"
  shows "\<exists>n. len_linear t lo = Some n \<and> border t n"
  using assms(2-)
proof (induction "m - lo" arbitrary: lo)
  case 0
  then have "int_val t lo = niltv" by simp
  then have "len_linear t lo = Some (lo - 1)"
    by (simp add: len_linear.simps getint_val_ok [OF ok] nil_iff)
  moreover have "border t (lo - 1)" using 0 \<open>int_val t lo = niltv\<close> by (cases "lo = 1") (auto simp: border_def)
  ultimately show ?case by blast
next
  case (Suc d)
  show ?case
  proof (cases "int_val t lo = niltv")
    case True
    then have "len_linear t lo = Some (lo - 1)"
      by (simp add: len_linear.simps getint_val_ok [OF ok] nil_iff)
    moreover have "border t (lo - 1)" using Suc.prems True by (cases "lo = 1") (auto simp: border_def)
    ultimately show ?thesis by blast
  next
    case False
    then have "len_linear t lo = len_linear t (lo + 1)"
      by (subst len_linear.simps) (simp add: getint_val_ok [OF ok] nil_iff)
    moreover have "\<exists>n. len_linear t (lo + 1) = Some n \<and> border t n"
      using Suc False by (intro Suc.hyps(1)) (auto simp: less_Suc_eq)
    ultimately show ?thesis by simp
  qed
qed

lemma len_widen_ok:
  assumes ok: "tab_ok sid t" and "lo < hi" "lo = 0 \<or> int_val t lo \<noteq> niltv" "0 < hi"
  shows "(\<exists>n. len_widen t lo hi = Some (Inr n) \<and> border t n)
    \<or> (\<exists>lo' hi'. len_widen t lo hi = Some (Inl (lo', hi')) \<and> lo' < hi' \<and> (lo' = 0 \<or> int_val t lo' \<noteq> niltv)
        \<and> int_val t hi' = niltv)"
  using assms(2-)
proof (induction "2147483647 - hi" arbitrary: lo hi rule: less_induct)
  case less
  show ?case
  proof (cases "int_val t hi = niltv")
    case True
    then show ?thesis using less.prems
      by (subst (1 2) len_widen.simps) (simp add: getint_val_ok [OF ok] nil_iff)
  next
    case False
    show ?thesis
    proof (cases "2147483647 - 2 < hi + hi")
      case True
      obtain m where m: "0 < m" "int_val t m = niltv" using int_gap [OF ok] by blast
      from len_linear_ok [OF ok _ _ m(2), of 1] m(1) obtain n where "len_linear t 1 = Some n" "border t n" by auto
      then show ?thesis using False True
        by (subst (1 2) len_widen.simps) (simp add: getint_val_ok [OF ok] nil_iff)
    next
      case small: False
      then have "len_widen t lo hi = len_widen t hi (hi + hi)" using False
        by (subst len_widen.simps) (simp add: getint_val_ok [OF ok] nil_iff)
      then show ?thesis using less.hyps [of "hi + hi" hi] less.prems(3) False small by simp
    qed
  qed
qed

lemma tab_len_slow_ok:
  assumes ok: "tab_ok sid t" and "hi = 0 \<or> int_val t hi \<noteq> niltv"
  shows "\<exists>n. tab_len_slow t hi = Some n \<and> border t n"
proof -
  from len_widen_ok [OF ok _ assms(2), of "hi + 1"]
  consider n where "len_widen t hi (hi + 1) = Some (Inr n)" "border t n"
    | lo' hi' where "len_widen t hi (hi + 1) = Some (Inl (lo', hi'))" "lo' < hi'"
        "lo' = 0 \<or> int_val t lo' \<noteq> niltv" "int_val t hi' = niltv" by auto
  then show ?thesis
  proof cases
    case 1
    then show ?thesis by (simp add: tab_len_slow_def)
  next
    case 2
    from len_bisect_ok [OF 2(2) _ 2(3,4), of "getint_val t"] show ?thesis
      using 2(1) getint_val_ok [OF ok] by (auto simp: tab_len_slow_def)
  qed
qed

lemma lj_tab_len_border:
  assumes ok: "tab_ok sid t"
  shows "\<exists>n. lj_tab_len t = Some n \<and> border t n"
proof -
  define hi where "hi = unat (t_asize t) - 1"
  have arr: "int_val t i = t_array t ! i" if "i \<le> hi" "0 < hi" for i
    using that by (intro int_val_array [OF ok]) (simp add: hi_def)
  show ?thesis
  proof (cases "0 < hi \<and> tvisnil (t_array t ! hi)")
    case True
    then have "\<exists>n. len_bisect (\<lambda>i. Some (t_array t ! i)) 0 hi = Some n \<and> border t n \<and> 0 \<le> n \<and> n < hi"
      using arr by (intro len_bisect_ok) (auto simp: nil_iff)
    moreover have "lj_tab_len t = len_bisect (\<lambda>i. Some (t_array t ! i)) 0 hi"
      unfolding lj_tab_len_def Let_def hi_def [symmetric] using True by simp
    ultimately show ?thesis by auto
  next
    case False
    then have nn: "hi = 0 \<or> int_val t hi \<noteq> niltv" using arr [of hi] by (auto simp: nil_iff)
    have len: "lj_tab_len t = (if t_hmask t \<noteq> 0 then tab_len_slow t hi else Some hi)"
      unfolding lj_tab_len_def Let_def hi_def [symmetric] if_not_P [OF False] by (rule refl)
    show ?thesis
    proof (cases "t_hmask t = 0")
      case True
      have "hi + 1 < 2 ^ 32" using tab_ok_asize [OF ok] by (simp add: hi_def lj_limits)
      then have "int_val t (hi + 1) = niltv" by (intro int_val_beyond [OF ok True]) (simp_all add: hi_def)
      then show ?thesis using len True nn by (simp add: border_def)
    next
      case False
      then show ?thesis using len tab_len_slow_ok [OF ok nn] by simp
    qed
  qed
qed

lemma lj_tab_len_hint_border:
  assumes ok: "tab_ok sid t"
  shows "\<exists>n. lj_tab_len_hint t hint = Some n \<and> border t n"
proof -
  let ?a = "unat (t_asize t)"
  have d: "lj_tab_len_hint t hint =
      (if hint + 1 < ?a \<and> \<not> tvisnil (t_array t ! hint) \<and> tvisnil (t_array t ! (hint + 1))
          \<or> hint + 1 = ?a \<and> t_hmask t = 0 \<and> \<not> tvisnil (t_array t ! hint)
       then Some hint else lj_tab_len t)"
    by (auto simp: lj_tab_len_hint_def Let_def le_less)
  consider "hint + 1 < ?a" "\<not> tvisnil (t_array t ! hint)" "tvisnil (t_array t ! (hint + 1))"
    | "hint + 1 = ?a" "t_hmask t = 0" "\<not> tvisnil (t_array t ! hint)"
    | "lj_tab_len_hint t hint = lj_tab_len t"
    unfolding d by argo
  then show ?thesis
  proof cases
    case 1
    then have "border t hint" using int_val_array [OF ok, of hint] int_val_array [OF ok, of "hint + 1"]
      by (simp add: border_def nil_iff)
    then show ?thesis using 1 unfolding d by simp
  next
    case 2
    have "int_val t (hint + 1) = niltv"
      using 2 tab_ok_asize [OF ok] by (intro int_val_beyond [OF ok]) (simp_all add: lj_limits)
    then have "border t hint" using int_val_array [OF ok, of hint] 2 by (simp add: border_def nil_iff)
    then show ?thesis using 2 unfolding d by simp
  next
    case 3
    then show ?thesis using lj_tab_len_border [OF ok] by simp
  qed
qed

section \<open>Counting and emptiness\<close>

lemma nkeys_entries:
  assumes ok: "tab_ok sid t"
  shows "lj_tab_nkeys t = length (tab_entries t)"
proof -
  have "length (tail_pairs t 0) = length (filter (\<lambda>v. \<not> tvisnil v) (take (unat (t_asize t)) (t_array t)))"
  proof -
    have "length (array_pairs i vs) = length (filter (\<lambda>v. \<not> tvisnil v) vs)" for i vs
      by (induction vs arbitrary: i) (auto simp: array_pairs_simps)
    then show ?thesis by (simp add: tail_pairs_def)
  qed
  moreover have "length (node_pairs (t_node t)) = length (filter (\<lambda>n. \<not> tvisnil (n_val n)) (t_node t))"
    by (simp add: node_pairs_def)
  moreover have "filter (\<lambda>n. \<not> tvisnil (n_val n)) (t_node t) = []" if "t_hmask t = 0"
    using tab_ok_empty [OF ok that] by (simp add: nilnode_def nil_iff)
  ultimately show ?thesis by (simp add: lj_tab_nkeys_def tab_entries_pairs [OF ok] Let_def)
qed

lemma isempty_entries:
  assumes ok: "tab_ok sid t"
  shows "lj_tab_isempty t \<longleftrightarrow> tab_entries t = []"
proof -
  have e: "list_ex P xs \<longleftrightarrow> filter P xs \<noteq> []" for P :: "'a \<Rightarrow> bool" and xs by (induction xs) auto
  have "lj_tab_isempty t \<longleftrightarrow> lj_tab_nkeys t = 0"
    by (simp add: lj_tab_isempty_def lj_tab_nkeys_def e Let_def)
  then show ?thesis by (simp add: nkeys_entries [OF ok])
qed

end
