(* ===== verification/LjTabApi.thy ===== *)
theory LjTabApi
  imports LjTabLen
begin

text \<open>
  The table as the rest of the runtime sees it: a store keyed by Lua values, stated as a locale
  and instantiated by the model; creation, duplication, clearing and resizing.
\<close>

section \<open>The interface of a keyed store\<close>

text \<open>
  A store that may refuse an insertion with an error but otherwise keeps its invariant and
  changes the value of one key, up to a key equivalence given by a normal form.
\<close>

locale keyed_store =
  fixes ok :: "'s \<Rightarrow> bool" and valid :: "'k \<Rightarrow> bool" and norm :: "'k \<Rightarrow> 'n"
    and get :: "'s \<Rightarrow> 'k \<Rightarrow> 'v" and put :: "'s \<Rightarrow> 'k \<Rightarrow> 'v \<Rightarrow> 'e + 's" and full :: 'e
  assumes put_result: "ok s \<Longrightarrow> valid k \<Longrightarrow> put s k v = Inl full \<or> (\<exists>s'. put s k v = Inr s')"
    and put_ok: "ok s \<Longrightarrow> valid k \<Longrightarrow> put s k v = Inr s' \<Longrightarrow> ok s'"
    and put_get: "ok s \<Longrightarrow> valid k \<Longrightarrow> put s k v = Inr s' \<Longrightarrow> valid j \<Longrightarrow>
        get s' j = (if norm j = norm k then v else get s j)"
begin

primrec put_list :: "'s \<Rightarrow> ('k \<times> 'v) list \<Rightarrow> 'e + 's" where
  "put_list s [] = Inr s"
| "put_list s (p # ps) = (case put s (fst p) (snd p) of Inl e \<Rightarrow> Inl e | Inr s' \<Rightarrow> put_list s' ps)"

lemma put_list_result:
  "ok s \<Longrightarrow> (\<forall>p \<in> set ps. valid (fst p)) \<Longrightarrow>
    put_list s ps = Inl full \<or> (\<exists>s'. put_list s ps = Inr s' \<and> ok s'
      \<and> (\<forall>j. valid j \<longrightarrow> get s' j =
          (case map_of (rev (map (\<lambda>p. (norm (fst p), snd p)) ps)) (norm j) of None \<Rightarrow> get s j | Some v \<Rightarrow> v)))"
proof (induction ps arbitrary: s)
  case (Cons p ps)
  from put_result [OF Cons.prems(1), of "fst p" "snd p"] Cons.prems(2)
  consider "put s (fst p) (snd p) = Inl full" | s' where "put s (fst p) (snd p) = Inr s'" by auto
  then show ?case
  proof cases
    case 2
    have p: "valid (fst p)" using Cons.prems(2) by simp
    have "ok s'" by (rule put_ok [OF Cons.prems(1) p 2])
    from Cons.IH [OF this] Cons.prems(2)
    consider "put_list s' ps = Inl full" | s'' where "put_list s' ps = Inr s''" "ok s''"
      "\<forall>j. valid j \<longrightarrow> get s'' j = (case map_of (rev (map (\<lambda>p. (norm (fst p), snd p)) ps)) (norm j) of
          None \<Rightarrow> get s' j | Some v \<Rightarrow> v)" by auto
    then show ?thesis
    proof cases
      case 1
      then show ?thesis using 2 by simp
    next
      case r: 2
      then show ?thesis using 2 put_get [OF Cons.prems(1) p 2]
        by (auto simp: map_add_def split: option.split)
    qed
  qed simp
qed simp

lemma put_commute:
  assumes "ok s" "valid k1" "valid k2" "norm k1 \<noteq> norm k2"
    and "put s k1 v1 = Inr a" "put a k2 v2 = Inr b" "put s k2 v2 = Inr c" "put c k1 v1 = Inr d"
    and "valid j"
  shows "get b j = get d j"
  using put_get [OF assms(1,2,5,9)] put_get [OF assms(1,3,7,9)]
    put_get [OF put_ok [OF assms(1,2,5)] assms(3,6,9)] put_get [OF put_ok [OF assms(1,3,7)] assms(2,8,9)] assms(4)
  by auto

end

section \<open>Storing through the setter\<close>

text \<open>
  The store of \<^verbatim>\<open>lua_rawset\<close> and of the interpreter's table stores: the value is copied to the slot
  that \<open>lj_tab_set\<close> returns.
\<close>

definition tab_store :: "(gcref \<Rightarrow> u32) \<Rightarrow> gctab \<Rightarrow> tvalue \<Rightarrow> tvalue \<Rightarrow> tab_err + gctab" where
  "tab_store sid t k v =
     (case lj_tab_set sid t k of Inl e \<Rightarrow> Inl e
      | Inr (t', s) \<Rightarrow> Inr (lj_gc_anybarriert (slot_put t' s v)))"

lemma barrier_simps:
  "tab_ok sid (lj_gc_anybarriert t) \<longleftrightarrow> tab_ok sid t"
  "tab_abs (lj_gc_anybarriert t) = tab_abs t"
proof -
  have h: "hashkey sid (lj_gc_anybarriert t) = hashkey sid t" by (rule hashkey_cong) (simp add: lj_gc_anybarriert_def)
  have a: "in_array (lj_gc_anybarriert t) = in_array t"
    by (intro ext in_array_cong) (simp add: lj_gc_anybarriert_def)
  have k: "hkey_ok (lj_gc_anybarriert t) = hkey_ok t" by (intro ext) (simp add: hkey_ok_def a)
  show "tab_ok sid (lj_gc_anybarriert t) \<longleftrightarrow> tab_ok sid t"
    by (simp add: tab_ok_def h k) (simp add: lj_gc_anybarriert_def)
  show "tab_abs (lj_gc_anybarriert t) = tab_abs t"
    by (intro ext) (simp add: tab_abs_def a, simp add: lj_gc_anybarriert_def)
qed

lemma tab_store_cases:
  assumes ok: "tab_ok sid t" and k: "key_valid k"
  obtains (full) "tab_store sid t k v = Inl LJ_ERR_TABOV"
  | (stored) t' where "tab_store sid t k v = Inr t'" "tab_ok sid t'"
      "\<And>j. key_valid j \<Longrightarrow> tab_abs t' j = (if key_norm j = key_norm k then v else tab_abs t j)"
proof -
  from set_promise_set [OF ok k] consider "lj_tab_set sid t k = Inl LJ_ERR_TABOV"
    | t1 s where "lj_tab_set sid t k = Inr (t1, s)" "slotted sid t k t1 s" by (auto simp: set_promise_def)
  then show thesis
  proof cases
    case 1
    then show thesis using full by (simp add: tab_store_def)
  next
    case 2
    from 2(2) have s: "tab_ok sid t1" "slot_for t1 s k" "\<And>j. key_valid j \<Longrightarrow> tab_abs t1 j = tab_abs t j"
      by (simp_all add: slotted_def)
    show thesis
      by (rule stored [of "lj_gc_anybarriert (slot_put t1 s v)"])
        (simp_all add: tab_store_def 2(1) barrier_simps slot_put_ok [OF s(1) k s(2)] s(3))
  qed
qed

interpretation tab: keyed_store "tab_ok sid" key_valid key_norm tab_abs "tab_store sid" LJ_ERR_TABOV for sid
proof
  fix t k v assume a: "tab_ok sid t" "key_valid k"
  show "tab_store sid t k v = Inl LJ_ERR_TABOV \<or> (\<exists>s'. tab_store sid t k v = Inr s')"
    by (rule tab_store_cases [OF a, of v]) blast+
  fix t' assume s: "tab_store sid t k v = Inr t'"
  show "tab_ok sid t'" by (rule tab_store_cases [OF a, of v]) (use s in auto)
  fix j assume j: "key_valid j"
  show "tab_abs t' j = (if key_norm j = key_norm k then v else tab_abs t j)"
    by (rule tab_store_cases [OF a, of v]) (use s j in auto)
qed

section \<open>Creation, duplication, clearing\<close>

definition lj_tab_new1 :: "u8 \<Rightarrow> u32 \<Rightarrow> tab_err + gctab" where
  "lj_tab_new1 white ahsize =
     (case newtab white (unat (ahsize AND 0xffffff)) (unat (drop_bit 24 ahsize)) of Inl e \<Rightarrow> Inl e
      | Inr t \<Rightarrow> let t = clearapart t in
          Inr (if 0 < t_hmask t then clearhpart t else t))"

definition lj_tab_clone :: "u8 \<Rightarrow> gctab \<Rightarrow> tab_err + gctab" where
  "lj_tab_clone white src = lj_tab_dup white src"

lemma clearapart_simps [simp]:
  "t_asize (clearapart t) = t_asize t" "t_hmask (clearapart t) = t_hmask t" "t_node (clearapart t) = t_node t"
  "t_freetop (clearapart t) = t_freetop t"
  "unat (t_asize t) \<le> length (t_array t) \<Longrightarrow> length (t_array (clearapart t)) = length (t_array t)"
  "i < unat (t_asize t) \<Longrightarrow> t_array (clearapart t) ! i = niltv"
  by (simp_all add: clearapart_def nth_append)

lemma newtab_result:
  assumes "asize \<le> LJ_MAX_ASIZE" "hbits \<le> LJ_MAX_HBITS"
  shows "\<exists>t. newtab w asize hbits = Inr t \<and> t_asize t = of_nat asize \<and> length (t_array t) = asize
    \<and> t_node t = replicate (2 ^ hbits) nilnode \<and> t_hmask t = of_nat (2 ^ hbits) - 1
    \<and> t_freetop t = (if hbits = 0 then 0 else 2 ^ hbits) \<and> t_marked t = w \<and> t_metatable t = 0"
  using assms by (simp add: newtab_def emptytab_def newhpart_def Let_def)

lemma newtab_tabov: "LJ_MAX_ASIZE < asize \<or> LJ_MAX_HBITS < hbits \<Longrightarrow> newtab w asize hbits = Inl LJ_ERR_TABOV"
  by (auto simp: newtab_def newhpart_def Let_def lj_limits)

lemma clearhpart_fresh: "t_node t = replicate n nilnode \<Longrightarrow> clearhpart t = t"
  by (simp add: clearhpart_def nilnode_def)

lemma unat_asize: "asize \<le> LJ_MAX_ASIZE \<Longrightarrow> unat (of_nat asize :: u32) = asize"
  using unat_of_nat32 [of asize] by (simp add: lj_limits)

lemma new_ok:
  assumes "asize \<le> LJ_MAX_ASIZE" "hbits \<le> LJ_MAX_HBITS"
  shows "\<exists>t. lj_tab_new w asize hbits = Inr t \<and> tab_ok sid t \<and> (\<forall>k. tab_abs t k = niltv)
    \<and> unat (t_asize t) = asize \<and> hash_cap t = hash_room hbits"
proof -
  from newtab_result [OF assms, of w] obtain t where
    t: "newtab w asize hbits = Inr t" "t_asize t = of_nat asize" "length (t_array t) = asize"
      "t_node t = replicate (2 ^ hbits) nilnode" "t_hmask t = of_nat (2 ^ hbits) - 1"
      "t_freetop t = (if hbits = 0 then 0 else 2 ^ hbits)" by blast
  let ?t = "clearapart t"
  have h: "unat (t_asize ?t) \<le> length (t_array ?t)" "unat (t_asize ?t) \<le> LJ_MAX_ASIZE"
    "t_node ?t = replicate (2 ^ hbits) nilnode" "hbits \<le> LJ_MAX_HBITS"
    "t_hmask ?t = of_nat (2 ^ hbits) - 1" "t_freetop ?t = (if hbits = 0 then 0 else 2 ^ hbits)"
    using t assms unat_asize [OF assms(1)] by simp_all
  have "lj_tab_new w asize hbits = Inr ?t"
    using t(1) clearhpart_fresh [of ?t "2 ^ hbits"] h(3) by (simp add: lj_tab_new_def Let_def)
  moreover have "tab_abs ?t k = niltv" for k
    using fresh_ok(4) [OF h, of k] by (simp add: in_array_unat)
  ultimately show ?thesis using fresh_ok(1,3) [OF h] t(2) unat_asize [OF assms(1)] by (simp add: hash_room_def)
qed

lemma tab_ok_cong:
  assumes "tab_ok sid t" "t_asize t' = t_asize t" "t_hmask t' = t_hmask t" "t_node t' = t_node t"
    "t_freetop t' = t_freetop t" "unat (t_asize t) \<le> length (t_array t')"
  shows "tab_ok sid t'"
proof -
  have hc: "hashkey sid t' = hashkey sid t" by (rule hashkey_cong) (rule assms(3))
  have ia: "in_array t' = in_array t" by (intro ext in_array_cong) (rule assms(2))
  have hk: "hkey_ok t' = hkey_ok t" by (intro ext) (simp add: hkey_ok_def ia)
  show ?thesis using assms(1,6) unfolding tab_ok_def assms(2-5) hc hk by auto
qed

lemma flsn_mask: "0 < b \<Longrightarrow> flsn (2 ^ b - 1) + 1 = b"
proof -
  assume "0 < b"
  then obtain c where c: "b = Suc c" by (cases b) auto
  have "(1::nat) \<le> 2 ^ c" by simp
  then have "(2::nat) ^ c \<le> 2 ^ Suc c - 1" "(2::nat) ^ Suc c - 1 < 2 ^ Suc c" by simp_all
  then have "flsn (2 ^ Suc c - 1) = c" by (rule flsn_unique)
  then show ?thesis by (simp add: c)
qed

lemma hmask_bits:
  assumes "tab_ok sid t" "0 < t_hmask t"
  shows "lj_fls (t_hmask t) + 1 \<le> LJ_MAX_HBITS" "2 ^ (lj_fls (t_hmask t) + 1) = length (t_node t)" "0 < lj_fls (t_hmask t) + 1"
proof -
  from tab_ok_size [OF assms(1)] obtain b where b: "b \<le> LJ_MAX_HBITS" "length (t_node t) = 2 ^ b" by blast
  have h: "unat (t_hmask t) = 2 ^ b - 1" using tab_ok_hmask [OF assms(1)] b(2) by simp
  have "0 < unat (t_hmask t)" using assms(2) by (simp add: word_less_nat_alt)
  then have "0 < b" using h by (cases b) auto
  then have "lj_fls (t_hmask t) + 1 = b" using flsn_mask by (simp add: lj_fls_def h)
  then show "lj_fls (t_hmask t) + 1 \<le> LJ_MAX_HBITS" "2 ^ (lj_fls (t_hmask t) + 1) = length (t_node t)"
    "0 < lj_fls (t_hmask t) + 1" using b by simp_all
qed

lemma hmask_hbits:
  assumes "tab_ok sid t"
  defines "hb \<equiv> (if 0 < t_hmask t then lj_fls (t_hmask t) + 1 else 0)"
  shows "hb \<le> LJ_MAX_HBITS" "hash_room hb = hash_cap t"
  using hmask_bits [OF assms(1)] by (auto simp: hb_def hash_room_def hash_cap_def word_gt_0)

lemma dup_ok:
  assumes ok: "tab_ok sid t"
  shows "\<exists>t'. lj_tab_dup w t = Inr t' \<and> tab_ok sid t' \<and> (\<forall>k. tab_abs t' k = tab_abs t k)
    \<and> t_node t' = t_node t \<and> t_marked t' = w \<and> t_metatable t' = 0"
proof -
  define hb where "hb = (if 0 < t_hmask t then lj_fls (t_hmask t) + 1 else 0)"
  let ?a = "unat (t_asize t)"
  have hb: "hb \<le> LJ_MAX_HBITS" using hmask_hbits(1) [OF ok] by (simp add: hb_def)
  from newtab_result [OF tab_ok_asize [OF ok] hb, of w] obtain t1 where
    t1: "newtab w ?a hb = Inr t1" "t_asize t1 = t_asize t" "length (t_array t1) = ?a"
      "t_node t1 = replicate (2 ^ hb) nilnode" "t_hmask t1 = of_nat (2 ^ hb) - 1"
      "t_freetop t1 = (if hb = 0 then 0 else 2 ^ hb)" "t_marked t1 = w" "t_metatable t1 = 0" by auto
  define t2 where "t2 = (if 0 < t_asize t then t1\<lparr>t_nomm := 0, t_array := take ?a (t_array t)\<rparr> else t1\<lparr>t_nomm := 0\<rparr>)"
  define t3 where "t3 = (if 0 < t_hmask t then t2\<lparr>t_freetop := t_freetop t, t_node := t_node t\<rparr> else t2)"
  have mp: "map (\<lambda>kn. \<lparr>n_val = n_val kn, n_key = n_key kn, n_next = n_next kn\<rparr>) ns = ns" for ns :: "node list"
    by (induction ns) simp_all
  have d: "lj_tab_dup w t = Inr t3"
    using t1(1) by (simp add: lj_tab_dup_def Let_def mp t2_def t3_def flip: hb_def)
  have l: "?a \<le> length (t_array t)" by (rule tab_ok_array [OF ok])
  have ar: "t_array t3 = take ?a (t_array t)"
    using t1(3) l by (auto simp: t3_def t2_def word_gt_0)
  have hm: "t_hmask t3 = t_hmask t \<and> t_node t3 = t_node t \<and> t_freetop t3 = t_freetop t"
  proof (cases "0 < t_hmask t")
    case True
    have "2 ^ hb = length (t_node t)" using hmask_bits(2) [OF ok True] True by (simp add: hb_def)
    then have "(of_nat (2 ^ hb) :: u32) - 1 = of_nat (unat (t_hmask t))" using tab_ok_hmask [OF ok] by simp
    then show ?thesis using True t1(5) by (simp add: t3_def t2_def)
  next
    case False
    then have "t_hmask t = 0" "hb = 0" by (simp_all add: hb_def word_gt_0)
    then show ?thesis using tab_ok_empty [OF ok] t1 by (simp add: t3_def t2_def)
  qed
  have as: "t_asize t3 = t_asize t" "t_marked t3 = w" "t_metatable t3 = 0"
    using t1(2,7,8) by (simp_all add: t3_def t2_def)
  have "tab_ok sid t3" using hm as ar l by (intro tab_ok_cong [OF ok]) simp_all
  moreover have "tab_abs t3 k = tab_abs t k" for k
    using in_array_cong [OF as(1), of k] in_array_unat [of t k] hm ar by (simp add: tab_abs_def)
  ultimately show ?thesis using d hm as by blast
qed

lemma clear_ok:
  assumes ok: "tab_ok sid t"
  shows "tab_ok sid (lj_tab_clear t)" "tab_abs (lj_tab_clear t) k = niltv"
    "t_asize (lj_tab_clear t) = t_asize t" "t_hmask (lj_tab_clear t) = t_hmask t"
proof -
  let ?t = "lj_tab_clear t"
  from tab_ok_size [OF ok] obtain b where b: "b \<le> LJ_MAX_HBITS" "length (t_node t) = 2 ^ b" by blast
  have hm: "t_hmask t = of_nat (2 ^ b) - 1" using tab_ok_hmask [OF ok] b(2)
    by (metis add_diff_cancel_right' of_nat_1 of_nat_add of_nat_unat ucast_id)
  have b0: "t_hmask t = 0 \<longleftrightarrow> b = 0"
  proof
    assume "t_hmask t = 0"
    then show "b = 0" using tab_ok_hmask [OF ok] b(2) by (cases b) auto
  qed (use hm in simp)
  have f: "t_asize ?t = t_asize t" "t_hmask ?t = t_hmask t" "length (t_array ?t) = length (t_array t)"
    "\<And>i. i < unat (t_asize t) \<Longrightarrow> t_array ?t ! i = niltv"
    using tab_ok_array [OF ok] by (simp_all add: lj_tab_clear_def clearhpart_def Let_def)
  have nd: "t_node ?t = replicate (2 ^ b) nilnode \<and> t_freetop ?t = (if b = 0 then 0 else 2 ^ b)"
  proof (cases "0 < t_hmask t")
    case True
    have "map (\<lambda>n. n\<lparr>n_next := None, n_key := niltv, n_val := niltv\<rparr>) ns = replicate (length ns) nilnode" for ns :: "node list"
      by (induction ns) (simp_all add: nilnode_def)
    moreover have "unat (t_hmask t + 1) = 2 ^ b"
      using tab_ok_hmask [OF ok] b tab_size_bound [OF ok] unat_of_nat32 [of "2 ^ b"] hm
      by (simp add: tab_size_def)
    ultimately show ?thesis using True b(2) b0 by (simp add: lj_tab_clear_def clearhpart_def Let_def word_gt_0)
  next
    case False
    then have "t_hmask t = 0" by (simp add: word_gt_0)
    then show ?thesis using tab_ok_empty [OF ok] b0 by (simp add: lj_tab_clear_def Let_def)
  qed
  have h: "unat (t_asize ?t) \<le> length (t_array ?t)" "unat (t_asize ?t) \<le> LJ_MAX_ASIZE"
    "t_node ?t = replicate (2 ^ b) nilnode" "b \<le> LJ_MAX_HBITS"
    "t_hmask ?t = of_nat (2 ^ b) - 1" "t_freetop ?t = (if b = 0 then 0 else 2 ^ b)"
    using f tab_ok_array [OF ok] tab_ok_asize [OF ok] nd b(1) hm by simp_all
  show "tab_ok sid ?t" by (rule fresh_ok(1) [OF h])
  show "tab_abs ?t k = niltv" using fresh_ok(4) [OF h, of k] f by (simp add: in_array_unat)
  show "t_asize ?t = t_asize t" "t_hmask ?t = t_hmask t" by (rule f)+
qed

section \<open>Resizing from outside\<close>

lemma resize_api_ok:
  assumes ok: "tab_ok sid t" and "asize \<le> LJ_MAX_ASIZE" "hbits \<le> LJ_MAX_HBITS" "card (live_out t asize) \<le> hash_room hbits"
  shows "\<exists>t'. lj_tab_resize sid t asize hbits = Inr t' \<and> tab_ok sid t' \<and> (\<forall>k. key_valid k \<longrightarrow> tab_abs t' k = tab_abs t k)
    \<and> unat (t_asize t') = asize \<and> hash_cap t' = hash_room hbits"
  using resize_ok [OF assms] unfolding lj_tab_resize_def newkey_unfold by (auto simp: resized_def)

lemma reasize_ok:
  assumes ok: "tab_ok sid t" and n: "unat (t_asize t) \<le> nasize + 1" "nasize + 1 \<le> LJ_MAX_ASIZE"
  shows "\<exists>t'. lj_tab_reasize sid t nasize = Inr t' \<and> tab_ok sid t' \<and> (\<forall>k. key_valid k \<longrightarrow> tab_abs t' k = tab_abs t k)
    \<and> unat (t_asize t') = nasize + 1"
proof -
  have "live_out t (nasize + 1) \<subseteq> keyset (t_node t)"
  proof
    fix x assume x: "x \<in> live_out t (nasize + 1)"
    have "tail_pairs t (nasize + 1) = []" using n(1) by (simp add: tail_pairs_def array_pairs_simps)
    then have "x \<in> fst ` set (node_pairs (t_node t))" using x subsetD [OF live_out_subset [OF ok] x] by simp
    then obtain v where "(x, v) \<in> set (node_pairs (t_node t))" by auto
    then show "x \<in> keyset (t_node t)"
      using node_pairs_key(4) [OF ok] by (auto simp: keyset_iff node_pairs_iff)
  qed
  then have "card (live_out t (nasize + 1)) \<le> card (keyset (t_node t))" by (intro card_mono) simp_all
  also have "\<dots> \<le> hash_cap t"
  proof (cases "t_hmask t = 0")
    case True
    then show ?thesis using tab_ok_empty [OF ok True] by (simp add: keyset_def nilnode_def)
  next
    case False
    have "card (keyset (t_node t)) \<le> card (n_key ` set (t_node t))" unfolding keyset_def by (intro card_mono) auto
    also have "\<dots> \<le> length (t_node t)" using card_length [of "map n_key (t_node t)"] by simp
    finally show ?thesis using False by (simp add: hash_cap_def)
  qed
  finally have c: "card (live_out t (nasize + 1)) \<le> hash_room (if 0 < t_hmask t then lj_fls (t_hmask t) + 1 else 0)"
    using hmask_hbits(2) [OF ok] by simp
  from resize_api_ok [OF ok n(2) hmask_hbits(1) [OF ok] c] show ?thesis by (auto simp: lj_tab_reasize_def)
qed

lemma rehash_api_ok:
  assumes ok: "tab_ok sid t"
  shows "lj_tab_rehash sid t = Inl LJ_ERR_TABOV \<or> (\<exists>t'. lj_tab_rehash sid t = Inr t' \<and> tab_ok sid t'
    \<and> (\<forall>k. key_valid k \<longrightarrow> tab_abs t' k = tab_abs t k))"
  using rehashtab_ok [OF ok, of _ niltv] unfolding lj_tab_rehash_def newkey_unfold by (auto simp: resized_def)

end
