(* ===== verification/LjTabProps.thy ===== *)
theory LjTabProps
  imports LjTabApi
begin

text \<open>
  The properties of Lua tables: reads and writes behave as a finite map under every history of
  insertions, resizes and rehashes; traversal, length and the queries agree with that map.
\<close>

section \<open>A table for the concrete instances\<close>

definition ex_tab :: gctab where
  "ex_tab = (emptytab 0)\<lparr>t_array := [niltv, int2dbl 7, niltv, int2dbl 9], t_asize := 4\<rparr>"

definition ex_sid :: "gcref \<Rightarrow> u32" where "ex_sid r = ucast r"

lemma ex_tab_ok: "tab_ok sid ex_tab"
  by (rule fresh_ok(1) [where b = 0]) (simp_all add: ex_tab_def emptytab_def lj_limits)

lemma empty_ok: "tab_ok sid (emptytab w)"
  by (rule fresh_ok(1) [where b = 0]) (simp_all add: emptytab_def lj_limits)

text \<open>A store into the array part, and lookups there, evaluated symbolically.\<close>

lemma tab_store_array:
  assumes "n < t_asize t"
  shows "tab_store sid t (int2dbl n) v =
    Inr (lj_gc_anybarriert (t\<lparr>t_nomm := 0, t_array := (t_array t)[unat n := v]\<rparr>))"
proof -
  have "\<not> tvisstr (int2dbl n)" using tvisstr_not(2) by fastforce
  then show ?thesis using assms
    by (simp add: tab_store_def lj_tab_set_def set_with_def setint_with_def slot_put_def dbl_eq_refl Let_def)
qed

lemma obj_equal_int: "lj_obj_equal (int2dbl i) (int2dbl j) \<longleftrightarrow> i = j"
  by (simp add: obj_equal_norm int2dbl_inj)

lemmas tab_eval = tab_store_array obj_equal_int lj_gc_anybarriert_def LJ_GC_BLACK_def

section \<open>Reads and writes\<close>

primrec tab_store_list :: "(gcref \<Rightarrow> u32) \<Rightarrow> gctab \<Rightarrow> (tvalue \<times> tvalue) list \<Rightarrow> tab_err + gctab" where
  "tab_store_list sid t [] = Inr t"
| "tab_store_list sid t (p # ps) =
     (case tab_store sid t (fst p) (snd p) of Inl e \<Rightarrow> Inl e | Inr t' \<Rightarrow> tab_store_list sid t' ps)"

lemma tab_store_list_put: "tab_store_list sid t ps = tab.put_list sid t ps"
  by (induction ps arbitrary: t) (auto split: sum.split)

text \<open>
  C1. Storing a value under a valid key either raises ``table overflow'' or yields a well-formed
  table in which a lookup of an equal key returns the value and every other lookup is unchanged.
\<close>

theorem tab_store_get:
  assumes "tab_ok sid t" and "key_valid k"
  shows "tab_store sid t k v = Inl LJ_ERR_TABOV
    \<or> (\<exists>t'. tab_store sid t k v = Inr t' \<and> tab_ok sid t'
        \<and> (\<forall>j. key_valid j \<longrightarrow>
             lj_tab_get sid t' j = (if lj_obj_equal j k then Some v else lj_tab_get sid t j)))"
proof (rule tab_store_cases [OF assms, of v])
  fix t' assume s: "tab_store sid t k v = Inr t'" "tab_ok sid t'"
    "\<And>j. key_valid j \<Longrightarrow> tab_abs t' j = (if key_norm j = key_norm k then v else tab_abs t j)"
  have "lj_tab_get sid t' j = (if lj_obj_equal j k then Some v else lj_tab_get sid t j)" if "key_valid j" for j
    using s(3) [OF that] lj_tab_get_abs [OF s(2) that] lj_tab_get_abs [OF assms(1) that] obj_equal_norm [OF that assms(2)]
    by simp
  then show ?thesis using s by blast
qed simp

theorem tab_store_get_witness:
  "\<exists>t'. tab_store ex_sid ex_tab (int2dbl 2) 5 = Inr t' \<and> lj_tab_get ex_sid t' (int2dbl 2) = Some 5
     \<and> lj_tab_get ex_sid t' (int2dbl 3) = Some (int2dbl 9)"
proof -
  have "tab_store ex_sid ex_tab (int2dbl 2) 5 \<noteq> Inl LJ_ERR_TABOV" by (simp add: tab_eval ex_tab_def)
  then obtain t' where t': "tab_store ex_sid ex_tab (int2dbl 2) 5 = Inr t'"
    "\<forall>j. key_valid j \<longrightarrow> lj_tab_get ex_sid t' j = (if lj_obj_equal j (int2dbl 2) then Some 5 else lj_tab_get ex_sid ex_tab j)"
    using tab_store_get [OF ex_tab_ok key_valid_int2dbl, of ex_sid 2 5] by blast
  moreover have "lj_tab_get ex_sid ex_tab (int2dbl 3) = Some (int2dbl 9)"
    by (subst lj_tab_get_abs [OF ex_tab_ok]) (simp_all add: tab_abs_def in_array_int2dbl ex_tab_def)
  ultimately show ?thesis by (intro exI [of _ t']) (simp add: obj_equal_int)
qed

text \<open>
  C2. Any sequence of stores into a new table of any size is read back as the finite map that
  the sequence builds: the last value stored under an equal key, and nil under every other.
\<close>

theorem tab_store_sequence:
  assumes "asize \<le> LJ_MAX_ASIZE" and "hbits \<le> LJ_MAX_HBITS" and "\<forall>p \<in> set ps. key_valid (fst p)"
  shows "\<exists>t. lj_tab_new w asize hbits = Inr t
    \<and> (tab_store_list sid t ps = Inl LJ_ERR_TABOV
       \<or> (\<exists>t'. tab_store_list sid t ps = Inr t' \<and> tab_ok sid t'
           \<and> (\<forall>j. key_valid j \<longrightarrow> lj_tab_get sid t' j =
                Some (case find (\<lambda>p. lj_obj_equal (fst p) j) (rev ps) of None \<Rightarrow> niltv | Some p \<Rightarrow> snd p))))"
proof -
  from new_ok [OF assms(1,2), of w sid] obtain t where
    t: "lj_tab_new w asize hbits = Inr t" "tab_ok sid t" "\<And>k. tab_abs t k = niltv" by blast
  have fnd: "map_of (map (\<lambda>p. (key_norm (fst p), snd p)) qs) (key_norm j)
      = map_option snd (find (\<lambda>p. lj_obj_equal (fst p) j) qs)"
    if "key_valid j" "\<forall>p \<in> set qs. key_valid (fst p)" for j qs
    using that(2)
  proof (induction qs)
    case (Cons q qs)
    then show ?case using obj_equal_norm [OF _ that(1), of "fst q"] by auto
  qed simp
  from tab.put_list_result [OF t(2) assms(3)] show ?thesis
  proof
    assume "tab.put_list sid t ps = Inl LJ_ERR_TABOV"
    then show ?thesis using t(1) by (simp add: tab_store_list_put)
  next
    assume "\<exists>t'. tab.put_list sid t ps = Inr t' \<and> tab_ok sid t' \<and> (\<forall>j. key_valid j \<longrightarrow> tab_abs t' j =
        (case map_of (rev (map (\<lambda>p. (key_norm (fst p), snd p)) ps)) (key_norm j) of None \<Rightarrow> tab_abs t j | Some v \<Rightarrow> v))"
    then obtain t' where t': "tab.put_list sid t ps = Inr t'" "tab_ok sid t'"
      "\<And>j. key_valid j \<Longrightarrow> tab_abs t' j =
        (case map_of (rev (map (\<lambda>p. (key_norm (fst p), snd p)) ps)) (key_norm j) of None \<Rightarrow> tab_abs t j | Some v \<Rightarrow> v)" by blast
    have "lj_tab_get sid t' j =
        Some (case find (\<lambda>p. lj_obj_equal (fst p) j) (rev ps) of None \<Rightarrow> niltv | Some p \<Rightarrow> snd p)" if j: "key_valid j" for j
      using lj_tab_get_abs [OF t'(2) j] t'(3) [OF j] fnd [OF j, of "rev ps"] assms(3) t(3)
      by (simp add: rev_map split: option.split)
    then show ?thesis using t(1) t' by (auto simp: tab_store_list_put)
  qed
qed

theorem tab_store_sequence_witness:
  "\<exists>t t'. lj_tab_new 1 3 0 = Inr t \<and> tab_store_list ex_sid t [(int2dbl 1, 10), (int2dbl 2, 11), (int2dbl 1, 12)] = Inr t'
     \<and> lj_tab_get ex_sid t' (int2dbl 1) = Some 12"
proof -
  let ?ps = "[(int2dbl 1, 10), (int2dbl 2, 11), (int2dbl 1, 12)]"
  have "\<forall>p \<in> set ?ps. key_valid (fst p)" by simp
  from tab_store_sequence [OF _ _ this, of 3 0 1 ex_sid] obtain t where
    t: "lj_tab_new 1 3 0 = Inr t" "tab_store_list ex_sid t ?ps = Inl LJ_ERR_TABOV
       \<or> (\<exists>t'. tab_store_list ex_sid t ?ps = Inr t' \<and> tab_ok ex_sid t'
           \<and> (\<forall>j. key_valid j \<longrightarrow> lj_tab_get ex_sid t' j =
                Some (case find (\<lambda>p. lj_obj_equal (fst p) j) (rev ?ps) of None \<Rightarrow> niltv | Some p \<Rightarrow> snd p)))"
    by (auto simp: lj_limits)
  have "t_asize t = 3" "t_marked t = 1" using t(1)
    by (auto simp: lj_tab_new_def newtab_def emptytab_def clearapart_def Let_def lj_limits split: if_splits)
  then have "tab_store_list ex_sid t ?ps \<noteq> Inl LJ_ERR_TABOV" by (simp add: tab_eval)
  then obtain t' where "tab_store_list ex_sid t ?ps = Inr t'"
    "\<forall>j. key_valid j \<longrightarrow> lj_tab_get ex_sid t' j =
                Some (case find (\<lambda>p. lj_obj_equal (fst p) j) (rev ?ps) of None \<Rightarrow> niltv | Some p \<Rightarrow> snd p)"
    using t(2) by blast
  then show ?thesis using t(1) by (auto simp: obj_equal_int)
qed

text \<open>
  C3. \<open>lj_tab_set\<close> on every canonical key: nil and NaN raise their documented errors; every other
  key yields a slot, or ``table overflow''. In particular no walk meets a \<open>NULL\<close> pointer or a
  cyclic chain, and no rehash nests in a rehash.
\<close>

theorem lj_tab_set_total:
  assumes "tab_ok sid t" and "tv_canon k"
  shows "(tvisnil k \<longrightarrow> lj_tab_set sid t k = Inl LJ_ERR_NILIDX)
    \<and> (tvisnum k \<and> tvisnan k \<longrightarrow> lj_tab_set sid t k = Inl LJ_ERR_NANIDX)
    \<and> (\<not> tvisnil k \<and> \<not> (tvisnum k \<and> tvisnan k) \<longrightarrow>
         lj_tab_set sid t k = Inl LJ_ERR_TABOV
         \<or> (\<exists>t' s. lj_tab_set sid t k = Inr (t', s) \<and> tab_ok sid t'
              \<and> (case s of ArraySlot i \<Rightarrow> i < unat (t_asize t') | NodeSlot i \<Rightarrow> i < length (t_node t'))))"
proof (intro conjI impI)
  assume n: "tvisnil k"
  then have "\<not> tvisstr k" "\<not> tvisnum k" using tvisstr_not(4) [of k] tvisnum_not_pri(2) [of k] by auto
  then show "lj_tab_set sid t k = Inl LJ_ERR_NILIDX" using n by (simp add: lj_tab_set_def set_with_def)
next
  assume n: "tvisnum k \<and> tvisnan k"
  then have "\<not> tvisstr k" "\<not> dbl_eq k (int2dbl (lj_num2int k))"
    using tvisstr_not(2) by (auto simp: tvisnan_iff dbl_eq_def)
  then show "lj_tab_set sid t k = Inl LJ_ERR_NANIDX" using n by (simp add: lj_tab_set_def set_with_def Let_def)
next
  assume "\<not> tvisnil k \<and> \<not> (tvisnum k \<and> tvisnan k)"
  then have k: "key_valid k" using assms(2) by (auto simp: key_valid_def)
  have "(case s of ArraySlot i \<Rightarrow> i < unat (t_asize t') | NodeSlot i \<Rightarrow> i < length (t_node t'))"
    if "slot_for t' s k" for t' s
    using that by (auto simp: slot_for_def in_array_unat split: slot.splits)
  then show "lj_tab_set sid t k = Inl LJ_ERR_TABOV
         \<or> (\<exists>t' s. lj_tab_set sid t k = Inr (t', s) \<and> tab_ok sid t'
              \<and> (case s of ArraySlot i \<Rightarrow> i < unat (t_asize t') | NodeSlot i \<Rightarrow> i < length (t_node t')))"
    using set_promise_set [OF assms(1) k] by (auto simp: set_promise_def slotted_def)
qed

theorem lj_tab_set_total_witness:
  "lj_tab_set ex_sid ex_tab niltv = Inl LJ_ERR_NILIDX \<and> lj_tab_set ex_sid ex_tab 0xfff8000000000000 = Inl LJ_ERR_NANIDX
   \<and> tv_canon niltv \<and> tv_canon 0xfff8000000000000"
proof -
  have c: "tv_canon niltv" "tv_canon 0xfff8000000000000" by code_simp+
  have "tvisnil niltv" "tvisnum 0xfff8000000000000 \<and> tvisnan 0xfff8000000000000" by code_simp+
  then show ?thesis
    using lj_tab_set_total [OF ex_tab_ok c(1), of ex_sid] lj_tab_set_total [OF ex_tab_ok c(2), of ex_sid] c by blast
qed

text \<open>
  C4. The three getters agree with the finite map: \<open>lj_tab_get\<close> never diverges, an integer or
  string key found through the specialised getter has the value the generic getter returns.
\<close>

theorem getters_agree:
  assumes "tab_ok sid t"
  shows "(\<forall>k. key_valid k \<longrightarrow> lj_tab_get sid t k \<noteq> None)
    \<and> (\<forall>i. slot_val t (lj_tab_getint t i) = lj_tab_get sid t (int2dbl i))
    \<and> (\<forall>k. tvisstr k \<longrightarrow> slot_val t (lj_tab_getstr sid t (gcval k)) = lj_tab_get sid t k)
    \<and> (\<forall>j k. key_valid j \<and> key_valid k \<and> lj_obj_equal j k \<longrightarrow> lj_tab_get sid t j = lj_tab_get sid t k)"
proof (intro conjI allI impI)
  show "lj_tab_get sid t k \<noteq> None" if "key_valid k" for k using lj_tab_get_abs [OF assms that] by simp
  show "slot_val t (lj_tab_getint t i) = lj_tab_get sid t (int2dbl i)" for i
    using getint_abs [OF assms] lj_tab_get_abs [OF assms key_valid_int2dbl] by simp
  show "slot_val t (lj_tab_getstr sid t (gcval k)) = lj_tab_get sid t k" if "tvisstr k" for k
    using that by (simp add: lj_tab_get_def)
  show "lj_tab_get sid t j = lj_tab_get sid t k" if "key_valid j \<and> key_valid k \<and> lj_obj_equal j k" for j k
  proof -
    have "key_norm j = key_norm k" using that obj_equal_norm by blast
    then have "tab_abs t j = tab_abs t k" by (metis tab_abs_norm)
    then show ?thesis using that by (simp add: lj_tab_get_abs [OF assms])
  qed
qed

theorem getters_agree_witness:
  "slot_val ex_tab (lj_tab_getint ex_tab 1) = lj_tab_get ex_sid ex_tab (int2dbl 1)
   \<and> slot_val ex_tab (lj_tab_getint ex_tab 1) = Some (int2dbl 7)"
proof -
  have "slot_val ex_tab (lj_tab_getint ex_tab 1) = Some (int2dbl 7)"
    by (simp add: slot_val_def lj_tab_getint_def slot_get_def ex_tab_def)
  then show ?thesis using getters_agree [OF ex_tab_ok, of ex_sid] by blast
qed

section \<open>Resizing\<close>

text \<open>
  C5. A rehash (\<open>rehashtab\<close>) for a key to be inserted fails only with ``table overflow''; otherwise
  every lookup is unchanged, and the new table has an array slot or a free node for the key, so that
  the insertion that follows succeeds without another rehash.
\<close>

theorem rehash_makes_room:
  assumes "tab_ok sid t" and "key_valid k" and "key_norm k = k" and "lj_tab_get sid t k = Some niltv"
  shows "rehashtab_with (newkey_depth d sid) sid t k = Inl LJ_ERR_TABOV
    \<or> (\<exists>t'. rehashtab_with (newkey_depth d sid) sid t k = Inr t' \<and> tab_ok sid t'
        \<and> (\<forall>j. key_valid j \<longrightarrow> lj_tab_get sid t' j = lj_tab_get sid t j)
        \<and> (\<exists>t'' s. set_with (newkey_depth 0 sid) sid t' k = Inr (t'', s) \<and> tab_ok sid t''))"
proof -
  obtain R where R: "newkey_depth d sid = newkey_step R sid" using newkey_depth_step by blast
  have nil: "tab_abs t k = niltv" using assms(4) lj_tab_get_abs [OF assms(1,2)] by simp
  show ?thesis
  proof (cases "rehashtab_with (newkey_depth d sid) sid t k = Inl LJ_ERR_TABOV")
    case False
    with rehashtab_ok [OF assms(1), of R k] obtain t' asize hbits where
      t': "rehashtab_with (newkey_depth d sid) sid t k = Inr t'" "resized sid t asize hbits t'"
        "card (live_out t asize \<union> new_outside k asize) \<le> hash_room hbits" unfolding R by blast
    have ok': "tab_ok sid t'" and ab: "\<And>j. key_valid j \<Longrightarrow> tab_abs t' j = tab_abs t j"
      using t'(2) by (simp_all add: resized_def)
    from set_with_room [OF ok' assms(2) resized_room [OF assms(1,2,3) nil t'(2,3)], of "\<lambda>t key. Inl TAB_NESTED"]
    have "\<exists>t'' s. set_with (newkey_depth 0 sid) sid t' k = Inr (t'', s) \<and> tab_ok sid t''"
      by (auto simp: inserted_def)
    then show ?thesis using t'(1) ok' ab lj_tab_get_abs [OF ok'] lj_tab_get_abs [OF assms(1)] by auto
  qed simp
qed

lemma ex_rehash_sizes: "rehash_sizes (emptytab 0) (int2dbl 1) = (3, 0)"
proof -
  have r: "replicate LJ_MAX_ABITS (0::nat) = 0 # replicate 27 0"
    using replicate_Suc [of 27 "0::nat"] by (simp add: lj_limits del: replicate_Suc)
  have "countint (int2dbl 1) (0 # replicate 27 0) = (1, 1 # replicate 27 0)"
    by (simp add: countint_def Let_def dbl_eq_refl lj_limits word_sless_alt)
  moreover have "bestasize (1 # replicate 27 0) 1 = (1, 3)"
    by (simp add: bestasize_def bestasize_loop.simps)
  ultimately show ?thesis
    by (simp add: rehash_sizes_def r countarray_def counthash_def emptytab_def nilnode_def nil_iff hsize2hbits_def)
qed

theorem rehash_makes_room_witness:
  "\<exists>t'. rehashtab_with (newkey_depth 0 ex_sid) ex_sid (emptytab 0) (int2dbl 1) = Inr t'
    \<and> tab_ok ex_sid t' \<and> lj_tab_get ex_sid t' (int2dbl 3) = Some niltv"
proof -
  have g: "lj_tab_get ex_sid (emptytab 0) (int2dbl i) = Some niltv" for i
    by (subst lj_tab_get_abs [OF empty_ok])
      (simp_all add: tab_abs_def in_array_int2dbl emptytab_def nval_def nilnode_def)
  have "resize_with newkey ex_sid (emptytab 0) 3 0 \<noteq> Inl LJ_ERR_TABOV" for newkey
    by (simp add: resize_with_def resize_grow_def resize_hpart_def resize_shrink_def emptytab_def lj_limits Let_def)
  then have "rehashtab_with newkey ex_sid (emptytab 0) (int2dbl 1) \<noteq> Inl LJ_ERR_TABOV" for newkey
    by (simp add: rehashtab_with_def ex_rehash_sizes)
  then show ?thesis
    using rehash_makes_room [OF empty_ok key_valid_int2dbl key_norm_int2dbl g [of 1], where d = 0]
      g [of 3] key_valid_int2dbl [of 3] by metis
qed

text \<open>
  C6. Growing the array part (\<open>lj_tab_reasize\<close>) up to its maximum never fails and changes no
  lookup.
\<close>

theorem reasize_keeps_map:
  assumes "tab_ok sid t" and "unat (t_asize t) \<le> nasize + 1" and "nasize + 1 \<le> LJ_MAX_ASIZE"
  shows "\<exists>t'. lj_tab_reasize sid t nasize = Inr t' \<and> tab_ok sid t' \<and> unat (t_asize t') = nasize + 1
    \<and> (\<forall>k. key_valid k \<longrightarrow> lj_tab_get sid t' k = lj_tab_get sid t k)"
proof -
  from reasize_ok [OF assms] obtain t' where t': "lj_tab_reasize sid t nasize = Inr t'" "tab_ok sid t'"
    "\<forall>k. key_valid k \<longrightarrow> tab_abs t' k = tab_abs t k" "unat (t_asize t') = nasize + 1" by blast
  then show ?thesis using lj_tab_get_abs [OF t'(2)] lj_tab_get_abs [OF assms(1)] by auto
qed

theorem reasize_keeps_map_witness:
  "\<exists>t'. lj_tab_reasize ex_sid ex_tab 9 = Inr t' \<and> unat (t_asize t') = 10
    \<and> lj_tab_get ex_sid t' (int2dbl 3) = lj_tab_get ex_sid ex_tab (int2dbl 3)"
proof -
  have "unat (t_asize ex_tab) \<le> 9 + 1" "9 + 1 \<le> LJ_MAX_ASIZE" by (simp_all add: ex_tab_def lj_limits)
  from reasize_keeps_map [OF ex_tab_ok this, of ex_sid] show ?thesis using key_valid_int2dbl [of 3] by auto
qed

text \<open>
  C7. The array size chosen by \<open>bestasize\<close> for correct bin counts: the returned count is the number
  of integer keys below the size, the size stays below its limit, more than a quarter of it is
  used, and no larger power of two whose bin is used and whose lower half would be so filled was passed over.
\<close>

theorem bestasize_correct:
  assumes "bins_ok bins ks"
  shows "\<exists>na sz. bestasize bins (count_where key_ix ks) = (na, sz)
    \<and> na = count_where (\<lambda>k. key_ix k \<and> key_idx k < sz) ks \<and> sz \<le> LJ_MAX_ASIZE
    \<and> (sz = 0 \<or> sz < 4 * na + 1)
    \<and> (\<forall>c < LJ_MAX_ABITS. 0 < bins ! c \<longrightarrow>
         2 ^ c < 2 * count_where (\<lambda>k. key_ix k \<and> key_idx k < 2 * 2 ^ c + 1) ks \<longrightarrow> 2 * 2 ^ c + 1 \<le> sz)"
proof -
  have z: "0 = count_where (\<lambda>k. key_ix k \<and> bin (key_idx k) < 0) ks" "0 = count_upto 0 ks"
    by (simp_all add: count_where_def count_upto_def)
  have z5: "2 * 2 ^ c + 1 \<le> (0::nat)" if "c < 0" for c :: nat using that by simp
  show ?thesis
    using bestasize_loop_ok [OF assms refl z, OF _ _ z5] unfolding bestasize_def count_upto_def by blast
qed

theorem bestasize_correct_witness:
  "\<exists>na sz. bestasize (1 # replicate 27 0) (count_where key_ix [int2dbl 1]) = (na, sz) \<and> sz < 4 * na + 1"
proof -
  have k: "key_ix (int2dbl 1)" "key_idx (int2dbl 1) = 1" by (simp_all add: key_ix_def key_idx_def lj_limits)
  have "bins_ok (1 # replicate 27 0) [int2dbl 1]"
    by (auto simp: bins_ok_def lj_limits k bin_def nth_Cons' split: if_splits)
  from bestasize_correct [OF this] show ?thesis by auto
qed

section \<open>Traversal, length, queries\<close>

text \<open>The loop of \<open>pairs\<close>, with fuel: it calls \<open>lj_tab_next\<close> on the last key it got.\<close>

fun tab_traverse :: "nat \<Rightarrow> (gcref \<Rightarrow> u32) \<Rightarrow> gctab \<Rightarrow> tvalue \<Rightarrow> (tab_err + (tvalue \<times> tvalue) list) option" where
  "tab_traverse 0 sid t k = None"
| "tab_traverse (Suc n) sid t k =
     (case lj_tab_next sid t k of
        Inl e \<Rightarrow> Some (Inl e)
      | Inr None \<Rightarrow> Some (Inr [])
      | Inr (Some e) \<Rightarrow> map_option (map_sum id ((#) e)) (tab_traverse n sid t (fst e)))"

lemma tab_traverse_suffix:
  "tab_ok sid t \<Longrightarrow> tab_entries t = xs @ e # ys \<Longrightarrow> length ys < n \<Longrightarrow>
    tab_traverse n sid t (fst e) = Some (Inr ys)"
proof (induction ys arbitrary: xs e n)
  case Nil
  then show ?case using next_succ [of sid t xs "fst e" "snd e" "[]"] by (cases n) simp_all
next
  case (Cons y ys)
  have "lj_tab_next sid t (fst e) = Inr (Some y)"
    using next_succ [of sid t xs "fst e" "snd e" "y # ys"] Cons.prems by simp
  moreover obtain m where "n = Suc m" using Cons.prems(3) by (cases n) simp_all
  moreover have "tab_traverse m sid t (fst y) = Some (Inr ys)" if "n = Suc m" for m
    by (rule Cons.IH [of "xs @ [e]"]) (use Cons.prems that in simp_all)
  ultimately show ?case by simp
qed

text \<open>
  C8. The traversal of a table from nil ends, without an error, after at most one step more than
  it has pairs, and visits exactly the keys with a non-nil value, each once, with the value a lookup returns.
\<close>

theorem traverse_all:
  assumes "tab_ok sid t" and "lj_tab_nkeys t < n"
  shows "\<exists>es. tab_traverse n sid t niltv = Some (Inr es) \<and> distinct (map fst es) \<and> length es = lj_tab_nkeys t
    \<and> (\<forall>k v. (k, v) \<in> set es \<longrightarrow> key_valid k \<and> v \<noteq> niltv \<and> lj_tab_get sid t k = Some v)
    \<and> (\<forall>k v. key_valid k \<and> lj_tab_get sid t k = Some v \<and> v \<noteq> niltv \<longrightarrow> (\<exists>j. lj_obj_equal j k \<and> (j, v) \<in> set es))"
proof (intro exI [of _ "tab_entries t"] conjI allI impI)
  have len: "length (tab_entries t) < n" using assms nkeys_entries by simp
  then obtain m where m: "n = Suc m" by (cases n) simp_all
  show "tab_traverse n sid t niltv = Some (Inr (tab_entries t))"
  proof (cases "tab_entries t")
    case Nil
    then show ?thesis using next_first [OF assms(1)] m by simp
  next
    case (Cons e es)
    then have "tab_traverse m sid t (fst e) = Some (Inr es)"
      using tab_traverse_suffix [OF assms(1), of "[]" e es m] len m by simp
    then show ?thesis using next_first [OF assms(1)] m Cons by simp
  qed
  show "distinct (map fst (tab_entries t))" by (rule tab_entries_map(1) [OF assms(1)])
  show "length (tab_entries t) = lj_tab_nkeys t" using nkeys_entries [OF assms(1)] by simp
  show "key_valid k" "v \<noteq> niltv" "lj_tab_get sid t k = Some v" if "(k, v) \<in> set (tab_entries t)" for k v
    using tab_entries_map(3) [OF assms(1) that] lj_tab_get_abs [OF assms(1)] by auto
  fix k v assume k: "key_valid k \<and> lj_tab_get sid t k = Some v \<and> v \<noteq> niltv"
  then have "tab_abs t k = v" using lj_tab_get_abs [OF assms(1)] by auto
  then have "map_of (tab_entries t) (key_norm k) = Some v"
    using tab_entries_map(2) [OF assms(1), of k] k by (auto split: option.splits)
  then have "(key_norm k, v) \<in> set (tab_entries t)" by (rule map_of_SomeD)
  moreover have "lj_obj_equal (key_norm k) k" using k obj_equal_norm [OF key_valid_norm] by simp
  ultimately show "\<exists>j. lj_obj_equal j k \<and> (j, v) \<in> set (tab_entries t)" by blast
qed

theorem traverse_all_witness:
  "\<exists>es. tab_traverse 5 ex_sid ex_tab niltv = Some (Inr es) \<and> length es = 2"
proof -
  have "\<not> tvisnil (int2dbl i)" for i using key_valid_int2dbl [of i] by (simp add: key_valid_def)
  then have "lj_tab_nkeys ex_tab = 2" by (simp add: lj_tab_nkeys_def ex_tab_def emptytab_def nil_iff)
  then show ?thesis using traverse_all [OF ex_tab_ok, of 5 ex_sid] by auto
qed

text \<open>
  C9. The length operator returns, in the fast and the slow path and with any hint the trace
  compiler gives, a border: the element there is non-nil unless it is 0, the next one is nil.
\<close>

theorem len_is_border:
  assumes "tab_ok sid t"
  shows "\<exists>n m. lj_tab_len t = Some n \<and> lj_tab_len_hint t hint = Some m
    \<and> (\<forall>b \<in> {n, m}. (b = 0 \<or> slot_val t (lj_tab_getint t (of_nat b)) \<noteq> Some niltv)
                   \<and> slot_val t (lj_tab_getint t (of_nat (b + 1))) = Some niltv)"
proof -
  from lj_tab_len_border [OF assms] lj_tab_len_hint_border [OF assms, of hint] obtain n m where
    "lj_tab_len t = Some n" "border t n" "lj_tab_len_hint t hint = Some m" "border t m" by blast
  then show ?thesis using getint_abs [OF assms] by (auto simp: border_def int_val_def)
qed

theorem len_is_border_witness:
  "\<exists>n. lj_tab_len ex_tab = Some n \<and> slot_val ex_tab (lj_tab_getint ex_tab (of_nat (n + 1))) = Some niltv"
  using len_is_border [OF ex_tab_ok, of 0] by auto

text \<open>
  C10. A duplicate (\<open>lj_tab_dup\<close>, used for constant tables) is a well-formed table of the given
  colour with the same lookups; clearing (\<open>lj_tab_clear\<close>) keeps the table well-formed and removes
  every key; \<open>lj_tab_isempty\<close> holds exactly when no key has a value.
\<close>

theorem dup_and_clear:
  assumes "tab_ok sid t"
  shows "(\<exists>t'. lj_tab_dup w t = Inr t' \<and> tab_ok sid t' \<and> t_marked t' = w
        \<and> (\<forall>k. key_valid k \<longrightarrow> lj_tab_get sid t' k = lj_tab_get sid t k))
    \<and> tab_ok sid (lj_tab_clear t) \<and> (\<forall>k. key_valid k \<longrightarrow> lj_tab_get sid (lj_tab_clear t) k = Some niltv)
    \<and> lj_tab_isempty (lj_tab_clear t)
    \<and> (lj_tab_isempty t \<longleftrightarrow> (\<forall>k. key_valid k \<longrightarrow> lj_tab_get sid t k = Some niltv))"
proof -
  have e: "lj_tab_isempty s \<longleftrightarrow> (\<forall>k. key_valid k \<longrightarrow> lj_tab_get sid s k = Some niltv)" if s: "tab_ok sid s" for s
  proof
    assume "lj_tab_isempty s"
    then have "tab_entries s = []" using isempty_entries [OF s] by simp
    then show "\<forall>k. key_valid k \<longrightarrow> lj_tab_get sid s k = Some niltv"
      using tab_entries_map(2) [OF s] lj_tab_get_abs [OF s] by simp
  next
    assume a: "\<forall>k. key_valid k \<longrightarrow> lj_tab_get sid s k = Some niltv"
    have "tab_entries s = []"
    proof (rule ccontr)
      assume "tab_entries s \<noteq> []"
      then obtain k v where "(k, v) \<in> set (tab_entries s)" by (metis list.set_sel(1) surj_pair)
      then show False using tab_entries_map(3) [OF s] a lj_tab_get_abs [OF s] by fastforce
    qed
    then show "lj_tab_isempty s" using isempty_entries [OF s] by simp
  qed
  have c: "\<forall>k. key_valid k \<longrightarrow> lj_tab_get sid (lj_tab_clear t) k = Some niltv"
    using clear_ok(2) [OF assms] lj_tab_get_abs [OF clear_ok(1) [OF assms]] by simp
  from dup_ok [OF assms, of w] obtain t' where
    "lj_tab_dup w t = Inr t'" "tab_ok sid t'" "\<forall>k. tab_abs t' k = tab_abs t k" "t_marked t' = w" by blast
  then show ?thesis using c e [OF assms] e [OF clear_ok(1) [OF assms]] clear_ok(1) [OF assms]
      lj_tab_get_abs [of sid t'] lj_tab_get_abs [OF assms] by auto
qed

theorem dup_and_clear_witness:
  "(\<exists>t'. lj_tab_dup 2 ex_tab = Inr t' \<and> t_marked t' = 2) \<and> lj_tab_isempty (lj_tab_clear ex_tab)"
  using dup_and_clear [OF ex_tab_ok, of 2] by blast

end
