(* ===== verification/LjBuf.thy ===== *)
theory LjBuf
  imports LjTabApi
begin

text \<open>
  String buffers (\<^verbatim>\<open>lj_buf.c\<close>, \<^verbatim>\<open>lj_buf.h\<close>) and the ULEB128 codec (\<open>lj_strfmt_wuleb128\<close> of
  \<^verbatim>\<open>lj_strfmt.c\<close>, \<open>lj_buf_ruleb128\<close>). A buffer is its contents and its capacity; the pointers \<open>b\<close>,
  \<open>p\<close>, \<open>e\<close> are 0, the length of the contents and the capacity.
\<close>

section \<open>Buffers\<close>

record sbuf =
  sb_data :: bytes
  sb_size :: nat

datatype buf_err = LJ_ERR_ERRMEM

definition sbuflen :: "sbuf \<Rightarrow> nat" where "sbuflen sb = length (sb_data sb)"
definition sbufleft :: "sbuf \<Rightarrow> nat" where "sbufleft sb = sb_size sb - sbuflen sb"

definition lj_buf_init :: sbuf where "lj_buf_init = \<lparr>sb_data = [], sb_size = 0\<rparr>"
definition lj_buf_reset :: "sbuf \<Rightarrow> sbuf" where "lj_buf_reset sb = sb\<lparr>sb_data := []\<rparr>"

text \<open>The doubling loop of \<open>buf_grow\<close>.\<close>

function grow_size :: "nat \<Rightarrow> nat \<Rightarrow> nat" where
  "grow_size nsz sz = (if 0 < nsz \<and> nsz < sz then grow_size (nsz + nsz) sz else nsz)"
  by pat_completeness auto
termination
  by (relation "measure (\<lambda>(nsz, sz). sz - nsz)") auto

declare grow_size.simps [simp del]

definition buf_grow :: "sbuf \<Rightarrow> nat \<Rightarrow> sbuf" where
  "buf_grow sb sz =
     sb\<lparr>sb_size := grow_size (if sb_size sb < LJ_MIN_SBUF then LJ_MIN_SBUF else sb_size sb) sz\<rparr>"

definition lj_buf_need2 :: "sbuf \<Rightarrow> nat \<Rightarrow> buf_err + sbuf" where
  "lj_buf_need2 sb sz = (if LJ_MAX_BUF < sz then Inl LJ_ERR_ERRMEM else Inr (buf_grow sb sz))"

definition lj_buf_more2 :: "sbuf \<Rightarrow> nat \<Rightarrow> buf_err + sbuf" where
  "lj_buf_more2 sb sz =
     (if LJ_MAX_BUF < sz \<or> LJ_MAX_BUF < sbuflen sb + sz then Inl LJ_ERR_ERRMEM
      else Inr (buf_grow sb (sbuflen sb + sz)))"

definition lj_buf_need :: "sbuf \<Rightarrow> nat \<Rightarrow> buf_err + sbuf" where
  "lj_buf_need sb sz = (if sb_size sb < sz then lj_buf_need2 sb sz else Inr sb)"

definition lj_buf_more :: "sbuf \<Rightarrow> nat \<Rightarrow> buf_err + sbuf" where
  "lj_buf_more sb sz = (if sbufleft sb < sz then lj_buf_more2 sb sz else Inr sb)"

definition lj_buf_shrink :: "sbuf \<Rightarrow> sbuf" where
  "lj_buf_shrink sb = (if 2 * LJ_MIN_SBUF < sb_size sb then sb\<lparr>sb_size := sb_size sb div 2\<rparr> else sb)"

text \<open>Write at the put pointer and advance it: \<open>lj_buf_wmem\<close> followed by \<open>setsbufP\<close>.\<close>

definition lj_buf_wmem :: "sbuf \<Rightarrow> bytes \<Rightarrow> sbuf" where
  "lj_buf_wmem sb q = sb\<lparr>sb_data := sb_data sb @ q\<rparr>"

definition lj_buf_putmem :: "sbuf \<Rightarrow> bytes \<Rightarrow> buf_err + sbuf" where
  "lj_buf_putmem sb q = map_sum id (\<lambda>sb. lj_buf_wmem sb q) (lj_buf_more sb (length q))"

definition lj_buf_putchar :: "sbuf \<Rightarrow> u8 \<Rightarrow> buf_err + sbuf" where
  "lj_buf_putchar sb c = map_sum id (\<lambda>sb. lj_buf_wmem sb [c]) (lj_buf_more sb 1)"

definition lj_buf_putb :: "sbuf \<Rightarrow> u8 \<Rightarrow> buf_err + sbuf" where
  "lj_buf_putb sb c = map_sum id (\<lambda>sb. lj_buf_wmem sb [c]) (lj_buf_more sb 1)"

definition lj_buf_putstr :: "sbuf \<Rightarrow> bytes \<Rightarrow> buf_err + sbuf" where
  "lj_buf_putstr sb s = map_sum id (\<lambda>sb. lj_buf_wmem sb s) (lj_buf_more sb (length s))"

definition lj_buf_putstr_reverse :: "sbuf \<Rightarrow> bytes \<Rightarrow> buf_err + sbuf" where
  "lj_buf_putstr_reverse sb s =
     map_sum id (\<lambda>sb. lj_buf_wmem sb (map (\<lambda>i. s ! (length s - 1 - i)) [0..<length s]))
       (lj_buf_more sb (length s))"

definition buf_lower :: "u8 \<Rightarrow> u8" where
  "buf_lower c = (if 0x41 \<le> c \<and> c \<le> 0x5a then c + 0x20 else c)"

definition buf_upper :: "u8 \<Rightarrow> u8" where
  "buf_upper c = (if 0x61 \<le> c \<and> c \<le> 0x7a then c - 0x20 else c)"

definition lj_buf_putstr_lower :: "sbuf \<Rightarrow> bytes \<Rightarrow> buf_err + sbuf" where
  "lj_buf_putstr_lower sb s = map_sum id (\<lambda>sb. lj_buf_wmem sb (map buf_lower s)) (lj_buf_more sb (length s))"

definition lj_buf_putstr_upper :: "sbuf \<Rightarrow> bytes \<Rightarrow> buf_err + sbuf" where
  "lj_buf_putstr_upper sb s = map_sum id (\<lambda>sb. lj_buf_wmem sb (map buf_upper s)) (lj_buf_more sb (length s))"

text \<open>The two copy loops of \<open>lj_buf_putstr_rep\<close>: bytes of a single character, or whole strings.\<close>

fun rep_loop :: "bytes \<Rightarrow> nat \<Rightarrow> bytes" where
  "rep_loop s 0 = []"
| "rep_loop s (Suc n) = s @ rep_loop s n"

definition lj_buf_putstr_rep :: "sbuf \<Rightarrow> bytes \<Rightarrow> int \<Rightarrow> buf_err + sbuf" where
  "lj_buf_putstr_rep sb s rep =
     (if 0 < rep \<and> length s \<noteq> 0 then
        (let tlen = nat rep * length s in
         if LJ_MAX_STR < tlen then Inl LJ_ERR_ERRMEM
         else map_sum id
           (\<lambda>sb. lj_buf_wmem sb (if length s = 1 then replicate (nat rep) (s ! 0) else rep_loop s (nat rep)))
           (lj_buf_more sb tlen))
      else Inr sb)"

definition lj_buf_tmp :: "sbuf \<Rightarrow> nat \<Rightarrow> buf_err + sbuf" where
  "lj_buf_tmp sb sz = lj_buf_need sb sz"

text \<open>
  The concatenation of two strings in the temporary buffer, before it is interned, with the buffer
  afterwards: it may have grown, and the bytes are copied behind its end pointer, which stays.
\<close>

definition lj_buf_cat2str :: "sbuf \<Rightarrow> bytes \<Rightarrow> bytes \<Rightarrow> buf_err + bytes \<times> sbuf" where
  "lj_buf_cat2str sb s1 s2 = map_sum id (\<lambda>sb. (s1 @ s2, sb)) (lj_buf_tmp sb (length s1 + length s2))"

section \<open>ULEB128\<close>

function lj_strfmt_wuleb128 :: "u32 \<Rightarrow> bytes" where
  "lj_strfmt_wuleb128 v =
     (if 0x80 \<le> v then ucast ((v AND 0x7f) OR 0x80) # lj_strfmt_wuleb128 (drop_bit 7 v)
      else [ucast v])"
  by pat_completeness auto
termination
proof (relation "measure unat", goal_cases)
  case (2 v)
  then have "128 \<le> unat v" by (simp add: word_le_nat_alt)
  moreover have "unat (drop_bit 7 v) = unat v div 128" by (simp add: drop_bit_eq_div unat_div_distrib)
  ultimately show ?case by simp
qed simp

declare lj_strfmt_wuleb128.simps [simp del]

text \<open>
  The reader returns the value and the remaining bytes; \<open>None\<close> is a read past the end, which the
  C code only asserts against.
\<close>

fun ruleb_loop :: "u32 \<Rightarrow> nat \<Rightarrow> bytes \<Rightarrow> (u32 \<times> bytes) option" where
  "ruleb_loop v sh [] = None"
| "ruleb_loop v sh (b # bs) =
     (let v = v OR push_bit (sh + 7) (ucast (b AND 0x7f)) in
      if 0x80 \<le> b then ruleb_loop v (sh + 7) bs else Some (v, bs))"

fun lj_buf_ruleb128 :: "bytes \<Rightarrow> (u32 \<times> bytes) option" where
  "lj_buf_ruleb128 [] = None"
| "lj_buf_ruleb128 (b # bs) =
     (if 0x80 \<le> b then ruleb_loop (ucast b AND 0x7f) 0 bs else Some (ucast b, bs))"

section \<open>Capacity\<close>

text \<open>The invariant: the contents fit, and the capacity is 0 or the minimum times a power of two.\<close>

definition sbuf_ok :: "sbuf \<Rightarrow> bool" where
  "sbuf_ok sb \<longleftrightarrow> sbuflen sb \<le> sb_size sb \<and> sb_size sb \<le> 2 ^ 31
     \<and> (sb_size sb = 0 \<or> (\<exists>k. sb_size sb = LJ_MIN_SBUF * 2 ^ k))"

lemma grow_size_result:
  assumes "nsz = LJ_MIN_SBUF * 2 ^ k" "nsz \<le> 2 ^ 31" "sz \<le> LJ_MAX_BUF"
  shows "sz \<le> grow_size nsz sz \<and> nsz \<le> grow_size nsz sz \<and> grow_size nsz sz \<le> 2 ^ 31
    \<and> (\<exists>k. grow_size nsz sz = LJ_MIN_SBUF * 2 ^ k)"
  using assms
proof (induction nsz sz arbitrary: k rule: grow_size.induct)
  case (1 nsz sz)
  show ?case
  proof (cases "0 < nsz \<and> nsz < sz")
    case False
    have "0 < nsz" using "1.prems"(1) by (simp add: lj_limits)
    then have "grow_size nsz sz = nsz" "sz \<le> nsz" using False by (simp_all add: grow_size.simps [of nsz sz])
    then show ?thesis using "1.prems" by auto
  next
    case True
    have st: "grow_size nsz sz = grow_size (nsz + nsz) sz" using True by (simp add: grow_size.simps [of nsz sz])
    have "nsz < 2 ^ 31" using True "1.prems"(3) by (simp add: lj_limits)
    then have "(2::nat) ^ (5 + k) < 2 ^ 31" using "1.prems"(1) by (simp add: lj_limits power_add)
    then have "5 + k < 31" by (simp only: power_strict_increasing_iff)
    then have "(2::nat) ^ (5 + Suc k) \<le> 2 ^ 31" by (intro power_increasing) simp_all
    then have "nsz + nsz \<le> 2 ^ 31" "nsz + nsz = LJ_MIN_SBUF * 2 ^ Suc k"
      using "1.prems"(1) by (simp_all add: lj_limits power_add)
    from "1.IH" [OF True this(2,1) "1.prems"(3)] show ?thesis unfolding st by auto
  qed
qed

lemma buf_grow_ok:
  assumes "sbuf_ok sb" "sz \<le> LJ_MAX_BUF"
  shows "sbuf_ok (buf_grow sb sz) \<and> sb_data (buf_grow sb sz) = sb_data sb \<and> sz \<le> sb_size (buf_grow sb sz)"
proof -
  let ?n = "if sb_size sb < LJ_MIN_SBUF then LJ_MIN_SBUF else sb_size sb"
  have p: "(1::nat) \<le> 2 ^ k" for k by simp
  have n: "\<exists>k. ?n = LJ_MIN_SBUF * 2 ^ k"
  proof (cases "sb_size sb < LJ_MIN_SBUF")
    case True
    then show ?thesis by (intro exI [of _ 0]) simp
  next
    case False
    then show ?thesis using assms(1) by (auto simp: sbuf_ok_def lj_limits)
  qed
  then obtain k where k: "?n = LJ_MIN_SBUF * 2 ^ k" ..
  have le: "?n \<le> 2 ^ 31" using assms(1) by (simp add: sbuf_ok_def lj_limits)
  from grow_size_result [OF k le assms(2)] have
    g: "sz \<le> grow_size ?n sz" "?n \<le> grow_size ?n sz" "grow_size ?n sz \<le> 2 ^ 31" "\<exists>k. grow_size ?n sz = LJ_MIN_SBUF * 2 ^ k"
    by blast+
  have "sbuflen sb \<le> ?n" using assms(1) by (auto simp: sbuf_ok_def)
  then have "sbuflen sb \<le> grow_size ?n sz" using g(2) by linarith
  then show ?thesis using g by (simp add: sbuf_ok_def buf_grow_def sbuflen_def)
qed

lemma lj_buf_more_ok:
  assumes ok: "sbuf_ok sb"
  shows "(LJ_MAX_BUF < sbuflen sb + sz \<and> sbufleft sb < sz \<and> lj_buf_more sb sz = Inl LJ_ERR_ERRMEM)
    \<or> (\<exists>sb'. lj_buf_more sb sz = Inr sb' \<and> sbuf_ok sb' \<and> sb_data sb' = sb_data sb \<and> sz \<le> sbufleft sb')"
proof (cases "sbufleft sb < sz")
  case False
  then show ?thesis using ok by (simp add: lj_buf_more_def)
next
  case True
  show ?thesis
  proof (cases "LJ_MAX_BUF < sbuflen sb + sz")
    case big: True
    then show ?thesis using True by (simp add: lj_buf_more_def lj_buf_more2_def)
  next
    case False
    then have "sbuflen sb + sz \<le> LJ_MAX_BUF" by simp
    from buf_grow_ok [OF ok this] show ?thesis using True False
      by (auto simp: lj_buf_more_def lj_buf_more2_def sbufleft_def sbuflen_def)
  qed
qed

text \<open>The contract of every put operation: the contents grow by the given bytes, or memory is exhausted.\<close>

definition puts :: "sbuf \<Rightarrow> bytes \<Rightarrow> buf_err + sbuf \<Rightarrow> bool" where
  "puts sb q r \<longleftrightarrow> (LJ_MAX_BUF < sbuflen sb + length q \<and> r = Inl LJ_ERR_ERRMEM)
     \<or> (\<exists>sb'. r = Inr sb' \<and> sbuf_ok sb' \<and> sb_data sb' = sb_data sb @ q)"

lemma puts_more:
  assumes "sbuf_ok sb"
  shows "puts sb q (map_sum id (\<lambda>sb. lj_buf_wmem sb q) (lj_buf_more sb (length q)))"
  using lj_buf_more_ok [OF assms, of "length q"]
  by (auto simp: puts_def lj_buf_wmem_def sbuf_ok_def sbuflen_def sbufleft_def)

locale byte_sink =
  fixes sink_ok :: "'s \<Rightarrow> bool" and data :: "'s \<Rightarrow> bytes" and put :: "'s \<Rightarrow> bytes \<Rightarrow> 'e + 's" and room :: "'s \<Rightarrow> nat \<Rightarrow> bool"
  assumes put_fits: "sink_ok s \<Longrightarrow> room s (length q) \<Longrightarrow> \<exists>s'. put s q = Inr s' \<and> sink_ok s' \<and> data s' = data s @ q"
    and room_split: "sink_ok s \<Longrightarrow> room s (length q + n) \<Longrightarrow> put s q = Inr s' \<Longrightarrow> room s' n"
    and room_le: "room s n \<Longrightarrow> m \<le> n \<Longrightarrow> room s m"
begin

primrec put_all :: "'s \<Rightarrow> bytes list \<Rightarrow> 'e + 's" where
  "put_all s [] = Inr s"
| "put_all s (q # qs) = (case put s q of Inl e \<Rightarrow> Inl e | Inr s' \<Rightarrow> put_all s' qs)"

lemma put_all_fits:
  "sink_ok s \<Longrightarrow> room s (length (concat qs)) \<Longrightarrow>
    \<exists>s'. put_all s qs = Inr s' \<and> sink_ok s' \<and> data s' = data s @ concat qs"
proof (induction qs arbitrary: s)
  case (Cons q qs)
  have "room s (length q)" using room_le [OF Cons.prems(2)] by simp
  from put_fits [OF Cons.prems(1) this] obtain s' where
    s': "put s q = Inr s'" "sink_ok s'" "data s' = data s @ q" by blast
  have "room s' (length (concat qs))"
    using room_split [OF Cons.prems(1) _ s'(1)] Cons.prems(2) by simp
  from Cons.IH [OF s'(2) this] show ?case using s' by auto
qed simp

end

interpretation sbuf_sink: byte_sink sbuf_ok sb_data lj_buf_putmem "\<lambda>sb n. sbuflen sb + n \<le> LJ_MAX_BUF"
proof
  fix sb :: sbuf and q :: bytes
  assume "sbuf_ok sb" "sbuflen sb + length q \<le> LJ_MAX_BUF"
  then show "\<exists>s'. lj_buf_putmem sb q = Inr s' \<and> sbuf_ok s' \<and> sb_data s' = sb_data sb @ q"
    using puts_more [of sb q] by (auto simp: puts_def lj_buf_putmem_def)
next
  fix sb sb' :: sbuf and q :: bytes and n :: nat
  assume "sbuf_ok sb" "sbuflen sb + (length q + n) \<le> LJ_MAX_BUF" "lj_buf_putmem sb q = Inr sb'"
  then show "sbuflen sb' + n \<le> LJ_MAX_BUF"
    using puts_more [of sb q] by (auto simp: puts_def lj_buf_putmem_def sbuflen_def)
qed simp

lemma rep_loop_concat: "rep_loop s n = concat (replicate n s)"
  by (induction n) simp_all

lemma put_ops:
  assumes "sbuf_ok sb"
  shows "puts sb q (lj_buf_putmem sb q)" and "puts sb [c] (lj_buf_putchar sb c)" and "puts sb [c] (lj_buf_putb sb c)"
    and "puts sb q (lj_buf_putstr sb q)" and "puts sb (rev q) (lj_buf_putstr_reverse sb q)"
    and "puts sb (map buf_lower q) (lj_buf_putstr_lower sb q)" and "puts sb (map buf_upper q) (lj_buf_putstr_upper sb q)"
proof -
  have r: "map (\<lambda>i. q ! (length q - 1 - i)) [0..<length q] = rev q"
    by (rule nth_equalityI) (simp_all add: rev_nth)
  show "puts sb (rev q) (lj_buf_putstr_reverse sb q)"
    using puts_more [OF assms, of "rev q"] unfolding lj_buf_putstr_reverse_def r length_rev .
  show "puts sb (map buf_lower q) (lj_buf_putstr_lower sb q)" "puts sb (map buf_upper q) (lj_buf_putstr_upper sb q)"
    using puts_more [OF assms, of "map buf_lower q"] puts_more [OF assms, of "map buf_upper q"]
    by (simp_all add: lj_buf_putstr_lower_def lj_buf_putstr_upper_def)
qed (use puts_more [OF assms] puts_more [OF assms, of "[c]"] in
      \<open>simp_all add: lj_buf_putmem_def lj_buf_putchar_def lj_buf_putb_def lj_buf_putstr_def\<close>)

lemma put_rep:
  assumes ok: "sbuf_ok sb"
  shows "puts sb (concat (replicate (nat rep) q)) (lj_buf_putstr_rep sb q rep)"
proof (cases "0 < rep \<and> length q \<noteq> 0")
  case False
  then show ?thesis using ok by (auto simp: puts_def lj_buf_putstr_rep_def)
next
  case True
  let ?c = "concat (replicate (nat rep) q)"
  have len: "length ?c = nat rep * length q" by (simp add: length_concat sum_list_replicate)
  have eq: "(if length q = 1 then replicate (nat rep) (q ! 0) else rep_loop q (nat rep)) = ?c"
  proof (cases "length q = 1")
    case True
    then obtain c where "q = [c]" by (cases q) auto
    then show ?thesis by (induction "nat rep") (simp_all add: concat_replicate_single)
  qed (simp add: rep_loop_concat)
  show ?thesis
  proof (cases "LJ_MAX_STR < nat rep * length q")
    case big: True
    then show ?thesis using True len by (simp add: puts_def lj_buf_putstr_rep_def lj_limits)
  next
    case False
    then have "lj_buf_putstr_rep sb q rep = map_sum id (\<lambda>sb. lj_buf_wmem sb ?c) (lj_buf_more sb (length ?c))"
      using True unfolding lj_buf_putstr_rep_def eq len by simp
    then show ?thesis using puts_more [OF ok, of ?c] by simp
  qed
qed

section \<open>The codec\<close>

lemma word_split7: "push_bit n (v AND 0x7f) OR push_bit (n + 7) (drop_bit 7 v) = push_bit n (v :: u32)"
proof -
  have m: "(0x7f :: u32) = mask 7" by (simp add: mask_eq_exp_minus_1)
  have "(v AND 0x7f) OR push_bit 7 (drop_bit 7 v) = v"
    unfolding m
  proof (rule bit_word_eqI)
    fix i assume "i < LENGTH(32)"
    then show "bit ((v AND mask 7) OR push_bit 7 (drop_bit 7 v)) i = bit v i"
      by (cases "i < 7") (simp_all add: bit_simps)
  qed
  then have "push_bit n ((v AND 0x7f) OR push_bit 7 (drop_bit 7 v)) = push_bit n v" by simp
  then show ?thesis by (simp add: push_bit_or push_bit_push_bit add.commute)
qed

lemma byte_cont:
  fixes v :: u32
  defines "b \<equiv> (ucast ((v AND 0x7f) OR 0x80) :: u8)"
  shows "0x80 \<le> b" "ucast (b AND 0x7f) = v AND 0x7f" "ucast b AND 0x7f = v AND 0x7f"
proof -
  have m: "(0x7f :: u8) = mask 7" "(0x7f :: u32) = mask 7" by (simp_all add: mask_eq_exp_minus_1)
  have h: "(0x80 :: u32) = push_bit 7 1" by simp
  have b7: "bit b 7" unfolding b_def h by (simp add: bit_simps)
  then show "0x80 \<le> b"
  proof -
    have "bit (unat b) 7" using b7 by (simp add: bit_unsigned_iff)
    then have "odd (unat b div 128)" by (simp add: bit_iff_odd)
    then have "128 \<le> unat b" by (cases "unat b < 128") auto
    then show ?thesis by (simp add: word_le_nat_alt)
  qed
  have b128: "bit (128 :: u32) i \<longleftrightarrow> i = 7" for i
    using bit_exp_iff [of 7 i, where 'a = u32] by auto
  have b128': "bit (128 :: int) i \<longleftrightarrow> i = 7" for i
    using bit_exp_iff [of 7 i, where 'a = int] by auto
  show "ucast (b AND 0x7f) = v AND 0x7f"
    unfolding b_def m by (rule bit_word_eqI) (auto simp: bit_simps b128 b128')
  show "ucast b AND 0x7f = v AND 0x7f"
    unfolding b_def m by (rule bit_word_eqI) (auto simp: bit_simps b128 b128')
qed

lemma byte_last: "\<not> 0x80 \<le> (v :: u32) \<Longrightarrow> \<not> 0x80 \<le> (ucast v :: u8) \<and> ucast (ucast v :: u8) = v \<and> ucast ((ucast v :: u8) AND 0x7f) = v"
proof -
  assume "\<not> 0x80 \<le> v"
  then have v: "unat v < 128" by (simp add: word_le_nat_alt)
  then have u: "unat (ucast v :: u8) = unat v" by (simp add: unsigned_ucast_eq take_bit_eq_mod)
  have m: "(0x7f :: u8) = mask 7" by (simp add: mask_eq_exp_minus_1)
  have "unat (ucast ((ucast v :: u8) AND 0x7f) :: u32) = unat v"
    unfolding m take_bit_eq_mask [symmetric] using u v
    by (simp only: unsigned_ucast_eq unsigned_take_bit_eq) (simp add: take_bit_eq_mod)
  moreover have "unat (ucast (ucast v :: u8) :: u32) = unat v"
    using unsigned_ucast_eq [of "ucast v :: u8", where 'a = nat and 'c = 32] u v by (simp add: take_bit_eq_mod)
  ultimately show ?thesis using u v by (simp add: word_le_nat_alt word_unat_eq_iff)
qed

lemma ruleb_loop_wuleb: "ruleb_loop acc sh (lj_strfmt_wuleb128 v @ rest) = Some (acc OR push_bit (sh + 7) v, rest)"
proof (induction v arbitrary: acc sh rule: lj_strfmt_wuleb128.induct)
  case (1 v)
  show ?case
  proof (cases "0x80 \<le> v")
    case True
    have "ruleb_loop acc sh (lj_strfmt_wuleb128 v @ rest) =
        Some ((acc OR push_bit (sh + 7) (v AND 0x7f)) OR push_bit (sh + 7 + 7) (drop_bit 7 v), rest)"
      using "1.IH" [OF True, of "acc OR push_bit (sh + 7) (v AND 0x7f)" "sh + 7"] True byte_cont [of v]
      by (simp add: lj_strfmt_wuleb128.simps [of v])
    then show ?thesis using word_split7 [of "sh + 7" v] by (simp add: or.assoc)
  next
    case False
    then show ?thesis using byte_last [OF False] by (simp add: lj_strfmt_wuleb128.simps [of v])
  qed
qed

lemma ruleb_wuleb: "lj_buf_ruleb128 (lj_strfmt_wuleb128 v @ rest) = Some (v, rest)"
proof (cases "0x80 \<le> v")
  case True
  have "lj_buf_ruleb128 (lj_strfmt_wuleb128 v @ rest) = Some ((v AND 0x7f) OR push_bit 7 (drop_bit 7 v), rest)"
    using True byte_cont [of v] ruleb_loop_wuleb [of "v AND 0x7f" 0 "drop_bit 7 v" rest]
    by (simp add: lj_strfmt_wuleb128.simps [of v])
  then show ?thesis using word_split7 [of 0 v] by simp
next
  case False
  then show ?thesis using byte_last [OF False] by (simp add: lj_strfmt_wuleb128.simps [of v])
qed

lemma ruleb_loop_shorter: "ruleb_loop v sh bs = Some (w, rest) \<Longrightarrow> length rest < length bs"
  by (induction v sh bs rule: ruleb_loop.induct) (auto simp: Let_def split: if_splits)

lemma ruleb_shorter: "lj_buf_ruleb128 bs = Some (w, rest) \<Longrightarrow> length rest < length bs"
  by (cases bs) (auto split: if_splits dest: ruleb_loop_shorter)

lemma wuleb_length: "length (lj_strfmt_wuleb128 v) = flsn (unat v) div 7 + 1"
proof (induction v rule: lj_strfmt_wuleb128.induct)
  case (1 v)
  show ?case
  proof (cases "0x80 \<le> v")
    case True
    then have v: "128 \<le> unat v" by (simp add: word_le_nat_alt)
    have d: "unat (drop_bit 7 v) = unat v div 128" by (simp add: drop_bit_eq_div unat_div_distrib)
    define f where "f = flsn (unat v)"
    have lo: "2 ^ f \<le> unat v" and up: "unat v < 2 ^ Suc f"
      using flsn_lower [of "unat v"] flsn_upper [of "unat v"] v by (simp_all add: f_def)
    have "(2::nat) ^ 7 < 2 ^ Suc f" using v up by simp
    then have f7: "7 \<le> f" by (simp only: power_strict_increasing_iff)
    then have "2 ^ (f - 7) * 128 \<le> unat v" "unat v < 2 ^ Suc (f - 7) * 128"
      using lo up power_add [of "2::nat" "f - 7" 7] power_add [of "2::nat" "Suc (f - 7)" 7] by simp_all
    then have "2 ^ (f - 7) \<le> unat v div 128" "unat v div 128 < 2 ^ Suc (f - 7)"
      by (simp_all add: less_eq_div_iff_mult_less_eq div_less_iff_less_mult)
    then have "flsn (unat v div 128) = f - 7" by (rule flsn_unique)
    then have "length (lj_strfmt_wuleb128 v) = Suc ((f - 7) div 7 + 1)"
      using "1.IH" [OF True] True d by (simp add: lj_strfmt_wuleb128.simps [of v])
    also have "\<dots> = f div 7 + 1" using f7 by (simp add: le_div_geq)
    finally show ?thesis by (simp add: f_def)
  next
    case False
    then have "unat v < 2 ^ Suc 6" by (simp add: word_le_nat_alt)
    then have "flsn (unat v) \<le> 6" by (rule flsn_le)
    then show ?thesis using False by (simp add: lj_strfmt_wuleb128.simps [of v])
  qed
qed

lemma flsn_u32: "flsn (unat (v :: u32)) \<le> 31"
  by (rule flsn_le) simp

lemma wuleb_length_bounds: "0 < length (lj_strfmt_wuleb128 v)" "length (lj_strfmt_wuleb128 v) \<le> 5"
  using flsn_u32 [of v] by (simp_all add: wuleb_length)

text \<open>The size formula of the dump writer, \<open>(lj_fls(n)+8)*9 >> 6\<close>.\<close>

lemma wuleb_length_formula: "length (lj_strfmt_wuleb128 v) = (lj_fls v + 8) * 9 div 64"
proof -
  have "f div 7 + 1 = (f + 8) * 9 div 64" if "f \<le> 31" for f :: nat
  proof -
    have "\<forall>f \<in> set [0..<32]. f div 7 + 1 = (f + 8) * 9 div 64" by code_simp
    then show ?thesis using that by simp
  qed
  then show ?thesis using flsn_u32 [of v] by (simp add: wuleb_length lj_fls_def)
qed

section \<open>Properties\<close>

lemma buf_case:
  "unat (buf_lower c) = (if 65 \<le> unat c \<and> unat c \<le> 90 then unat c + 32 else unat c)"
  "unat (buf_upper c) = (if 97 \<le> unat c \<and> unat c \<le> 122 then unat c - 32 else unat c)"
proof -
  have "unat (c + 0x20) = unat c + 32" if "unat c \<le> 90" using that by (simp add: unat_word_ariths)
  then show "unat (buf_lower c) = (if 65 \<le> unat c \<and> unat c \<le> 90 then unat c + 32 else unat c)"
    by (simp add: buf_lower_def word_le_nat_alt)
  have "unat (c - 0x20) = unat c - 32" if "97 \<le> unat c" using that by (simp add: unat_sub word_le_nat_alt)
  then show "unat (buf_upper c) = (if 97 \<le> unat c \<and> unat c \<le> 122 then unat c - 32 else unat c)"
    by (simp add: buf_upper_def word_le_nat_alt)
qed

text \<open>
  C11. Every put operation of a buffer keeps the capacity invariant and appends exactly the bytes
  it promises (as they are, reversed, in lower or upper case, repeated), or raises the memory
  error, and the error only if the result would exceed the buffer limit. Lower and upper case change
  the letters of ASCII and nothing else.
\<close>

theorem buf_put_contract:
  assumes "sbuf_ok sb"
  shows "puts sb q (lj_buf_putmem sb q) \<and> puts sb [c] (lj_buf_putchar sb c) \<and> puts sb [c] (lj_buf_putb sb c)
    \<and> puts sb q (lj_buf_putstr sb q) \<and> puts sb (rev q) (lj_buf_putstr_reverse sb q)
    \<and> puts sb (map buf_lower q) (lj_buf_putstr_lower sb q) \<and> puts sb (map buf_upper q) (lj_buf_putstr_upper sb q)
    \<and> puts sb (concat (replicate (nat rep) q)) (lj_buf_putstr_rep sb q rep)
    \<and> unat (buf_lower c) = (if 65 \<le> unat c \<and> unat c \<le> 90 then unat c + 32 else unat c)
    \<and> unat (buf_upper c) = (if 97 \<le> unat c \<and> unat c \<le> 122 then unat c - 32 else unat c)"
  using put_ops [OF assms] put_rep [OF assms] buf_case [of c] by simp

theorem buf_put_contract_witness:
  "puts lj_buf_init [99, 98, 97] (lj_buf_putstr_reverse lj_buf_init [97, 98, 99])
    \<and> puts lj_buf_init [65, 66, 65, 66] (lj_buf_putstr_rep lj_buf_init [65, 66] 2)"
proof -
  have "sbuf_ok lj_buf_init" by (simp add: sbuf_ok_def lj_buf_init_def sbuflen_def)
  from buf_put_contract [OF this, of "[97, 98, 99]" 0 0] buf_put_contract [OF this, of "[65, 66]" 0 2]
  show ?thesis by (simp add: numeral_2_eq_2)
qed

text \<open>
  C12. The ULEB128 codec: a written value is read back and leaves the input behind it, it takes one
  to five bytes, and the closed formula the dump writer computes its length with is exact.
\<close>

theorem uleb_codec:
  "lj_buf_ruleb128 (lj_strfmt_wuleb128 v @ rest) = Some (v, rest)
    \<and> length (lj_strfmt_wuleb128 v) = (lj_fls v + 8) * 9 div 64
    \<and> 0 < length (lj_strfmt_wuleb128 v) \<and> length (lj_strfmt_wuleb128 v) \<le> 5"
  using ruleb_wuleb wuleb_length_formula wuleb_length_bounds by blast

end
