(* ===== verification/LjBc.thy ===== *)
theory LjBc
  imports LjPrelude
begin

text \<open>
  Bytecode instructions (\<^verbatim>\<open>lj_bc.h\<close>): the opcode table with its operand modes, the packed mode
  word, and the fields of a 32 bit instruction. Opcodes are their numbers, as in the C enum.
\<close>

section \<open>Opcodes and modes\<close>

datatype bcmode = BCMnone | BCMdst | BCMbase | BCMvar | BCMrbase | BCMuv
  | BCMlit | BCMlits | BCMpri | BCMnum | BCMstr | BCMtab | BCMfunc | BCMjump | BCMcdata

datatype mms = MM_index | MM_newindex | MM_gc | MM_mode | MM_eq | MM_len | MM_lt | MM_le | MM_concat | MM_call | MM_add | MM_sub | MM_mul | MM_div | MM_mod | MM_pow | MM_unm | MM_metatable | MM_tostring | MM_new | MM_pairs | MM_ipairs | MM_none

text \<open>The table \<open>BCDEF\<close>: name, mode of A, mode of B, mode of C or D, metamethod.\<close>

definition bc_defs :: "(string \<times> bcmode \<times> bcmode \<times> bcmode \<times> mms) list" where
  "bc_defs =
    [(''ISLT'', BCMvar, BCMnone, BCMvar, MM_lt),
     (''ISGE'', BCMvar, BCMnone, BCMvar, MM_lt),
     (''ISLE'', BCMvar, BCMnone, BCMvar, MM_le),
     (''ISGT'', BCMvar, BCMnone, BCMvar, MM_le),
     (''ISEQV'', BCMvar, BCMnone, BCMvar, MM_eq),
     (''ISNEV'', BCMvar, BCMnone, BCMvar, MM_eq),
     (''ISEQS'', BCMvar, BCMnone, BCMstr, MM_eq),
     (''ISNES'', BCMvar, BCMnone, BCMstr, MM_eq),
     (''ISEQN'', BCMvar, BCMnone, BCMnum, MM_eq),
     (''ISNEN'', BCMvar, BCMnone, BCMnum, MM_eq),
     (''ISEQP'', BCMvar, BCMnone, BCMpri, MM_eq),
     (''ISNEP'', BCMvar, BCMnone, BCMpri, MM_eq),
     (''ISTC'', BCMdst, BCMnone, BCMvar, MM_none),
     (''ISFC'', BCMdst, BCMnone, BCMvar, MM_none),
     (''IST'', BCMnone, BCMnone, BCMvar, MM_none),
     (''ISF'', BCMnone, BCMnone, BCMvar, MM_none),
     (''ISTYPE'', BCMvar, BCMnone, BCMlit, MM_none),
     (''ISNUM'', BCMvar, BCMnone, BCMlit, MM_none),
     (''MOV'', BCMdst, BCMnone, BCMvar, MM_none),
     (''NOT'', BCMdst, BCMnone, BCMvar, MM_none),
     (''UNM'', BCMdst, BCMnone, BCMvar, MM_unm),
     (''LEN'', BCMdst, BCMnone, BCMvar, MM_len),
     (''ADDVN'', BCMdst, BCMvar, BCMnum, MM_add),
     (''SUBVN'', BCMdst, BCMvar, BCMnum, MM_sub),
     (''MULVN'', BCMdst, BCMvar, BCMnum, MM_mul),
     (''DIVVN'', BCMdst, BCMvar, BCMnum, MM_div),
     (''MODVN'', BCMdst, BCMvar, BCMnum, MM_mod),
     (''ADDNV'', BCMdst, BCMvar, BCMnum, MM_add),
     (''SUBNV'', BCMdst, BCMvar, BCMnum, MM_sub),
     (''MULNV'', BCMdst, BCMvar, BCMnum, MM_mul),
     (''DIVNV'', BCMdst, BCMvar, BCMnum, MM_div),
     (''MODNV'', BCMdst, BCMvar, BCMnum, MM_mod),
     (''ADDVV'', BCMdst, BCMvar, BCMvar, MM_add),
     (''SUBVV'', BCMdst, BCMvar, BCMvar, MM_sub),
     (''MULVV'', BCMdst, BCMvar, BCMvar, MM_mul),
     (''DIVVV'', BCMdst, BCMvar, BCMvar, MM_div),
     (''MODVV'', BCMdst, BCMvar, BCMvar, MM_mod),
     (''POW'', BCMdst, BCMvar, BCMvar, MM_pow),
     (''CAT'', BCMdst, BCMrbase, BCMrbase, MM_concat),
     (''KSTR'', BCMdst, BCMnone, BCMstr, MM_none),
     (''KCDATA'', BCMdst, BCMnone, BCMcdata, MM_none),
     (''KSHORT'', BCMdst, BCMnone, BCMlits, MM_none),
     (''KNUM'', BCMdst, BCMnone, BCMnum, MM_none),
     (''KPRI'', BCMdst, BCMnone, BCMpri, MM_none),
     (''KNIL'', BCMbase, BCMnone, BCMbase, MM_none),
     (''UGET'', BCMdst, BCMnone, BCMuv, MM_none),
     (''USETV'', BCMuv, BCMnone, BCMvar, MM_none),
     (''USETS'', BCMuv, BCMnone, BCMstr, MM_none),
     (''USETN'', BCMuv, BCMnone, BCMnum, MM_none),
     (''USETP'', BCMuv, BCMnone, BCMpri, MM_none),
     (''UCLO'', BCMrbase, BCMnone, BCMjump, MM_none),
     (''FNEW'', BCMdst, BCMnone, BCMfunc, MM_gc),
     (''TNEW'', BCMdst, BCMnone, BCMlit, MM_gc),
     (''TDUP'', BCMdst, BCMnone, BCMtab, MM_gc),
     (''GGET'', BCMdst, BCMnone, BCMstr, MM_index),
     (''GSET'', BCMvar, BCMnone, BCMstr, MM_newindex),
     (''TGETV'', BCMdst, BCMvar, BCMvar, MM_index),
     (''TGETS'', BCMdst, BCMvar, BCMstr, MM_index),
     (''TGETB'', BCMdst, BCMvar, BCMlit, MM_index),
     (''TGETR'', BCMdst, BCMvar, BCMvar, MM_index),
     (''TSETV'', BCMvar, BCMvar, BCMvar, MM_newindex),
     (''TSETS'', BCMvar, BCMvar, BCMstr, MM_newindex),
     (''TSETB'', BCMvar, BCMvar, BCMlit, MM_newindex),
     (''TSETM'', BCMbase, BCMnone, BCMnum, MM_newindex),
     (''TSETR'', BCMvar, BCMvar, BCMvar, MM_newindex),
     (''CALLM'', BCMbase, BCMlit, BCMlit, MM_call),
     (''CALL'', BCMbase, BCMlit, BCMlit, MM_call),
     (''CALLMT'', BCMbase, BCMnone, BCMlit, MM_call),
     (''CALLT'', BCMbase, BCMnone, BCMlit, MM_call),
     (''ITERC'', BCMbase, BCMlit, BCMlit, MM_call),
     (''ITERN'', BCMbase, BCMlit, BCMlit, MM_call),
     (''VARG'', BCMbase, BCMlit, BCMlit, MM_none),
     (''ISNEXT'', BCMbase, BCMnone, BCMjump, MM_none),
     (''RETM'', BCMbase, BCMnone, BCMlit, MM_none),
     (''RET'', BCMrbase, BCMnone, BCMlit, MM_none),
     (''RET0'', BCMrbase, BCMnone, BCMlit, MM_none),
     (''RET1'', BCMrbase, BCMnone, BCMlit, MM_none),
     (''FORI'', BCMbase, BCMnone, BCMjump, MM_none),
     (''JFORI'', BCMbase, BCMnone, BCMjump, MM_none),
     (''FORL'', BCMbase, BCMnone, BCMjump, MM_none),
     (''IFORL'', BCMbase, BCMnone, BCMjump, MM_none),
     (''JFORL'', BCMbase, BCMnone, BCMlit, MM_none),
     (''ITERL'', BCMbase, BCMnone, BCMjump, MM_none),
     (''IITERL'', BCMbase, BCMnone, BCMjump, MM_none),
     (''JITERL'', BCMbase, BCMnone, BCMlit, MM_none),
     (''LOOP'', BCMrbase, BCMnone, BCMjump, MM_none),
     (''ILOOP'', BCMrbase, BCMnone, BCMjump, MM_none),
     (''JLOOP'', BCMrbase, BCMnone, BCMlit, MM_none),
     (''JMP'', BCMrbase, BCMnone, BCMjump, MM_none),
     (''FUNCF'', BCMrbase, BCMnone, BCMnone, MM_none),
     (''IFUNCF'', BCMrbase, BCMnone, BCMnone, MM_none),
     (''JFUNCF'', BCMrbase, BCMnone, BCMlit, MM_none),
     (''FUNCV'', BCMrbase, BCMnone, BCMnone, MM_none),
     (''IFUNCV'', BCMrbase, BCMnone, BCMnone, MM_none),
     (''JFUNCV'', BCMrbase, BCMnone, BCMlit, MM_none),
     (''FUNCC'', BCMrbase, BCMnone, BCMnone, MM_none),
     (''FUNCCW'', BCMrbase, BCMnone, BCMnone, MM_none)]"

definition BC__MAX :: nat where "BC__MAX = 97"

definition BC_FORI :: nat where "BC_FORI = 77"
definition BC_JFORI :: nat where "BC_JFORI = 78"
definition BC_FORL :: nat where "BC_FORL = 79"
definition BC_IFORL :: nat where "BC_IFORL = 80"
definition BC_JFORL :: nat where "BC_JFORL = 81"
definition BC_ITERL :: nat where "BC_ITERL = 82"
definition BC_IITERL :: nat where "BC_IITERL = 83"
definition BC_JITERL :: nat where "BC_JITERL = 84"
definition BC_LOOP :: nat where "BC_LOOP = 85"
definition BC_ILOOP :: nat where "BC_ILOOP = 86"
definition BC_JLOOP :: nat where "BC_JLOOP = 87"
definition BC_FUNCF :: nat where "BC_FUNCF = 89"
definition BC_IFUNCF :: nat where "BC_IFUNCF = 90"
definition BC_JFUNCF :: nat where "BC_JFUNCF = 91"
definition BC_FUNCV :: nat where "BC_FUNCV = 92"
definition BC_IFUNCV :: nat where "BC_IFUNCV = 93"
definition BC_JFUNCV :: nat where "BC_JFUNCV = 94"
definition BC_FUNCC :: nat where "BC_FUNCC = 95"
definition BC_RETM :: nat where "BC_RETM = 73"
definition BC_RET :: nat where "BC_RET = 74"
definition BC_RET0 :: nat where "BC_RET0 = 75"
definition BC_RET1 :: nat where "BC_RET1 = 76"
definition BC_ISLT :: nat where "BC_ISLT = 0"
definition BC_ISGE :: nat where "BC_ISGE = 1"
definition BC_ISLE :: nat where "BC_ISLE = 2"
definition BC_ISGT :: nat where "BC_ISGT = 3"
definition BC_ISEQV :: nat where "BC_ISEQV = 4"
definition BC_ISNEV :: nat where "BC_ISNEV = 5"
definition BC_ISEQS :: nat where "BC_ISEQS = 6"
definition BC_ISNES :: nat where "BC_ISNES = 7"
definition BC_ISEQN :: nat where "BC_ISEQN = 8"
definition BC_ISNEN :: nat where "BC_ISNEN = 9"
definition BC_ISEQP :: nat where "BC_ISEQP = 10"
definition BC_ISNEP :: nat where "BC_ISNEP = 11"
definition BC_CALL :: nat where "BC_CALL = 66"
definition BC_CALLM :: nat where "BC_CALLM = 65"
definition BC_CALLT :: nat where "BC_CALLT = 68"
definition BC_CALLMT :: nat where "BC_CALLMT = 67"
definition BC_IST :: nat where "BC_IST = 14"
definition BC_ISF :: nat where "BC_ISF = 15"
definition BC_ISTC :: nat where "BC_ISTC = 12"
definition BC_ISFC :: nat where "BC_ISFC = 13"
definition BC_JMP :: nat where "BC_JMP = 88"

lemmas bc_num_defs = BC_FORI_def BC_JFORI_def BC_FORL_def BC_IFORL_def BC_JFORL_def BC_ITERL_def BC_IITERL_def BC_JITERL_def BC_LOOP_def BC_ILOOP_def BC_JLOOP_def BC_FUNCF_def BC_IFUNCF_def BC_JFUNCF_def BC_FUNCV_def BC_IFUNCV_def BC_JFUNCV_def BC_FUNCC_def BC_RETM_def BC_RET_def BC_RET0_def BC_RET1_def BC_ISLT_def BC_ISGE_def BC_ISLE_def BC_ISGT_def BC_ISEQV_def BC_ISNEV_def BC_ISEQS_def BC_ISNES_def BC_ISEQN_def BC_ISNEN_def BC_ISEQP_def BC_ISNEP_def BC_CALL_def BC_CALLM_def BC_CALLT_def BC_CALLMT_def BC_IST_def BC_ISF_def BC_ISTC_def BC_ISFC_def BC_JMP_def BC__MAX_def

fun bcmode_num :: "bcmode \<Rightarrow> nat" where
  "bcmode_num BCMnone = 0"
| "bcmode_num BCMdst = 1"
| "bcmode_num BCMbase = 2"
| "bcmode_num BCMvar = 3"
| "bcmode_num BCMrbase = 4"
| "bcmode_num BCMuv = 5"
| "bcmode_num BCMlit = 6"
| "bcmode_num BCMlits = 7"
| "bcmode_num BCMpri = 8"
| "bcmode_num BCMnum = 9"
| "bcmode_num BCMstr = 10"
| "bcmode_num BCMtab = 11"
| "bcmode_num BCMfunc = 12"
| "bcmode_num BCMjump = 13"
| "bcmode_num BCMcdata = 14"

fun mms_num :: "mms \<Rightarrow> nat" where
  "mms_num MM_index = 0"
| "mms_num MM_newindex = 1"
| "mms_num MM_gc = 2"
| "mms_num MM_mode = 3"
| "mms_num MM_eq = 4"
| "mms_num MM_len = 5"
| "mms_num MM_lt = 6"
| "mms_num MM_le = 7"
| "mms_num MM_concat = 8"
| "mms_num MM_call = 9"
| "mms_num MM_add = 10"
| "mms_num MM_sub = 11"
| "mms_num MM_mul = 12"
| "mms_num MM_div = 13"
| "mms_num MM_mod = 14"
| "mms_num MM_pow = 15"
| "mms_num MM_unm = 16"
| "mms_num MM_metatable = 17"
| "mms_num MM_tostring = 18"
| "mms_num MM_new = 19"
| "mms_num MM_pairs = 20"
| "mms_num MM_ipairs = 21"
| "mms_num MM_none = 22"

text \<open>The macro \<open>BCMODE\<close> that fills \<open>lj_bc_mode\<close>, and the accessors of the packed word.\<close>

definition lj_bc_mode :: "nat \<Rightarrow> u16" where
  "lj_bc_mode op =
     (case bc_defs ! op of (name, ma, mb, mc, mm) \<Rightarrow>
        of_nat (bcmode_num ma) OR push_bit 3 (of_nat (bcmode_num mb))
        OR push_bit 7 (of_nat (bcmode_num mc)) OR push_bit 11 (of_nat (mms_num mm)))"

definition bcmode_a :: "nat \<Rightarrow> u16" where "bcmode_a op = lj_bc_mode op AND 7"
definition bcmode_b :: "nat \<Rightarrow> u16" where "bcmode_b op = drop_bit 3 (lj_bc_mode op) AND 15"
definition bcmode_c :: "nat \<Rightarrow> u16" where "bcmode_c op = drop_bit 7 (lj_bc_mode op) AND 15"
definition bcmode_d :: "nat \<Rightarrow> u16" where "bcmode_d op = bcmode_c op"
definition bcmode_mm :: "nat \<Rightarrow> u16" where "bcmode_mm op = drop_bit 11 (lj_bc_mode op)"
definition bcmode_hasd :: "nat \<Rightarrow> bool" where
  "bcmode_hasd op \<longleftrightarrow> lj_bc_mode op AND push_bit 3 15 = push_bit 3 (of_nat (bcmode_num BCMnone))"

definition bc_isret :: "nat \<Rightarrow> bool" where
  "bc_isret op \<longleftrightarrow> op = BC_RETM \<or> op = BC_RET \<or> op = BC_RET0 \<or> op = BC_RET1"

section \<open>Instruction fields\<close>

type_synonym bcins = u32

definition BCBIAS_J :: nat where "BCBIAS_J = 0x8000"

definition bc_op :: "bcins \<Rightarrow> nat" where "bc_op i = unat (i AND 0xff)"
definition bc_a :: "bcins \<Rightarrow> nat" where "bc_a i = unat (drop_bit 8 i AND 0xff)"
definition bc_b :: "bcins \<Rightarrow> nat" where "bc_b i = unat (drop_bit 24 i)"
definition bc_c :: "bcins \<Rightarrow> nat" where "bc_c i = unat (drop_bit 16 i AND 0xff)"
definition bc_d :: "bcins \<Rightarrow> nat" where "bc_d i = unat (drop_bit 16 i)"
definition bc_j :: "bcins \<Rightarrow> int" where "bc_j i = int (bc_d i) - int BCBIAS_J"

text \<open>A byte of an instruction in memory, little endian: \<open>setbc_byte\<close>.\<close>

definition setbc_byte :: "bcins \<Rightarrow> nat \<Rightarrow> nat \<Rightarrow> bcins" where
  "setbc_byte i x ofs =
     (i AND NOT (push_bit (8 * ofs) 0xff)) OR push_bit (8 * ofs) (ucast (of_nat x :: u8))"

definition setbc_op :: "bcins \<Rightarrow> nat \<Rightarrow> bcins" where "setbc_op i x = setbc_byte i x 0"
definition setbc_a :: "bcins \<Rightarrow> nat \<Rightarrow> bcins" where "setbc_a i x = setbc_byte i x 1"
definition setbc_b :: "bcins \<Rightarrow> nat \<Rightarrow> bcins" where "setbc_b i x = setbc_byte i x 3"
definition setbc_c :: "bcins \<Rightarrow> nat \<Rightarrow> bcins" where "setbc_c i x = setbc_byte i x 2"
definition setbc_d :: "bcins \<Rightarrow> nat \<Rightarrow> bcins" where
  "setbc_d i x = (i AND 0xffff) OR push_bit 16 (ucast (of_nat x :: u16))"
definition setbc_j :: "bcins \<Rightarrow> int \<Rightarrow> bcins" where
  "setbc_j i x = setbc_d i (unat (of_int x + of_nat BCBIAS_J :: u32))"

definition BCINS_ABC :: "nat \<Rightarrow> nat \<Rightarrow> nat \<Rightarrow> nat \<Rightarrow> bcins" where
  "BCINS_ABC op a b c = of_nat op OR push_bit 8 (of_nat a) OR push_bit 24 (of_nat b) OR push_bit 16 (of_nat c)"
definition BCINS_AD :: "nat \<Rightarrow> nat \<Rightarrow> nat \<Rightarrow> bcins" where
  "BCINS_AD op a d = of_nat op OR push_bit 8 (of_nat a) OR push_bit 16 (of_nat d)"
definition BCINS_AJ :: "nat \<Rightarrow> nat \<Rightarrow> int \<Rightarrow> bcins" where
  "BCINS_AJ op a j = BCINS_AD op a (unat (of_int j + of_nat BCBIAS_J :: u32))"

section \<open>Laws of the fields\<close>

lemma bit_bound: "n < 2 ^ k \<Longrightarrow> bit (n::nat) i \<Longrightarrow> i < k"
  by (metis bit_take_bit_iff take_bit_nat_eq_self)

lemma masks: "(0xff :: u32) = mask 8" "(0xffff :: u32) = mask 16" "(0xff :: u8) = mask 8"
  by (simp_all add: mask_eq_exp_minus_1)

lemma unat_eqI: "w = of_nat n \<Longrightarrow> n < 4294967296 \<Longrightarrow> unat (w :: u32) = n"
  by (simp add: unat_of_nat32)

lemmas bc_get_defs = bc_op_def bc_a_def bc_b_def bc_c_def bc_d_def
lemmas bc_set_defs = setbc_op_def setbc_a_def setbc_b_def setbc_c_def setbc_d_def setbc_byte_def

lemma bcins_abc:
  assumes "op < 256" "a < 256" "b < 256" "c < 256"
  shows "bc_op (BCINS_ABC op a b c) = op" "bc_a (BCINS_ABC op a b c) = a"
    "bc_b (BCINS_ABC op a b c) = b" "bc_c (BCINS_ABC op a b c) = c"
proof -
  have bd: "bit op i \<Longrightarrow> i < 8" "bit a i \<Longrightarrow> i < 8" "bit b i \<Longrightarrow> i < 8" "bit c i \<Longrightarrow> i < 8" for i
    using bit_bound [of _ 8] assms by simp_all
  show "bc_op (BCINS_ABC op a b c) = op" "bc_a (BCINS_ABC op a b c) = a"
    "bc_b (BCINS_ABC op a b c) = b" "bc_c (BCINS_ABC op a b c) = c"
    unfolding bc_get_defs BCINS_ABC_def masks
    by ((rule unat_eqI, rule bit_word_eqI), auto simp: bit_simps dest: bd, use assms in simp)+
qed

lemma bcins_ad:
  assumes "op < 256" "a < 256" "d < 65536"
  shows "bc_op (BCINS_AD op a d) = op" "bc_a (BCINS_AD op a d) = a" "bc_d (BCINS_AD op a d) = d"
proof -
  have bd: "bit op i \<Longrightarrow> i < 8" "bit a i \<Longrightarrow> i < 8" "bit d i \<Longrightarrow> i < 16" for i
    using bit_bound [of _ 8] bit_bound [of _ 16] assms by simp_all
  show "bc_op (BCINS_AD op a d) = op" "bc_a (BCINS_AD op a d) = a" "bc_d (BCINS_AD op a d) = d"
    unfolding bc_get_defs BCINS_AD_def masks
    by ((rule unat_eqI, rule bit_word_eqI), auto simp: bit_simps dest: bd, use assms in simp)+
qed

lemma jump_bias:
  assumes "- 32768 \<le> j" "j < 32768"
  shows "unat (of_int j + of_nat BCBIAS_J :: u32) = nat (j + 32768)"
proof -
  have "(of_int j + of_nat BCBIAS_J :: u32) = of_int (j + 32768)" by (simp add: BCBIAS_J_def)
  also have "\<dots> = of_nat (nat (j + 32768))" using assms by (simp add: of_nat_nat)
  finally show ?thesis using assms by (intro unat_eqI) simp_all
qed

lemma bcins_aj:
  assumes "op < 256" "a < 256" "- 32768 \<le> j" "j < 32768"
  shows "bc_op (BCINS_AJ op a j) = op" "bc_a (BCINS_AJ op a j) = a" "bc_j (BCINS_AJ op a j) = j"
proof -
  have d: "nat (j + 32768) < 65536" using assms(3,4) by simp
  show "bc_op (BCINS_AJ op a j) = op" "bc_a (BCINS_AJ op a j) = a" "bc_j (BCINS_AJ op a j) = j"
    using bcins_ad [OF assms(1,2) d] assms(3,4)
    unfolding BCINS_AJ_def jump_bias [OF assms(3,4)] bc_j_def by (simp_all add: BCBIAS_J_def)
qed

lemma setbc_get:
  assumes "x < 256"
  shows "bc_op (setbc_op i x) = x" "bc_a (setbc_op i x) = bc_a i" "bc_d (setbc_op i x) = bc_d i"
    and "bc_op (setbc_a i x) = bc_op i" "bc_a (setbc_a i x) = x" "bc_d (setbc_a i x) = bc_d i"
    and "bc_op (setbc_b i x) = bc_op i" "bc_a (setbc_b i x) = bc_a i" "bc_b (setbc_b i x) = x" "bc_c (setbc_b i x) = bc_c i"
    and "bc_op (setbc_c i x) = bc_op i" "bc_a (setbc_c i x) = bc_a i" "bc_b (setbc_c i x) = bc_b i" "bc_c (setbc_c i x) = x"
proof -
  have bd: "bit x i \<Longrightarrow> i < 8" for i using bit_bound [of _ 8] assms by simp
  show "bc_op (setbc_op i x) = x" "bc_a (setbc_a i x) = x" "bc_b (setbc_b i x) = x" "bc_c (setbc_c i x) = x"
    unfolding bc_get_defs bc_set_defs masks
    by ((rule unat_eqI, rule bit_word_eqI), auto simp: bit_simps dest: bd, use assms in simp)+
  show "bc_a (setbc_op i x) = bc_a i" "bc_d (setbc_op i x) = bc_d i"
    "bc_op (setbc_a i x) = bc_op i" "bc_d (setbc_a i x) = bc_d i"
    "bc_op (setbc_b i x) = bc_op i" "bc_a (setbc_b i x) = bc_a i" "bc_c (setbc_b i x) = bc_c i"
    "bc_op (setbc_c i x) = bc_op i" "bc_a (setbc_c i x) = bc_a i" "bc_b (setbc_c i x) = bc_b i"
    unfolding bc_get_defs bc_set_defs masks
    by (rule arg_cong [where f = unat], rule bit_word_eqI, auto simp: bit_simps dest: bit_imp_le_length)+
qed

lemma setbc_get_d:
  assumes "x < 65536"
  shows "bc_op (setbc_d i x) = bc_op i" "bc_a (setbc_d i x) = bc_a i" "bc_d (setbc_d i x) = x"
proof -
  have bd: "bit x i \<Longrightarrow> i < 16" for i using bit_bound [of _ 16] assms by simp
  show "bc_d (setbc_d i x) = x"
    unfolding bc_get_defs bc_set_defs masks
    by ((rule unat_eqI, rule bit_word_eqI), auto simp: bit_simps dest: bd, use assms in simp)
  show "bc_op (setbc_d i x) = bc_op i" "bc_a (setbc_d i x) = bc_a i"
    unfolding bc_get_defs bc_set_defs masks
    by (rule arg_cong [where f = unat], rule bit_word_eqI, auto simp: bit_simps)+
qed

text \<open>
  C13. Composing an instruction and reading its fields are inverse, in all three formats; the
  jump operand round-trips over its whole signed range.
\<close>

theorem bcins_fields:
  assumes "op < 256" "a < 256" "b < 256" "c < 256" "d < 65536" "- 32768 \<le> j" "j < 32768"
  shows "bc_op (BCINS_ABC op a b c) = op \<and> bc_a (BCINS_ABC op a b c) = a
      \<and> bc_b (BCINS_ABC op a b c) = b \<and> bc_c (BCINS_ABC op a b c) = c
    \<and> bc_op (BCINS_AD op a d) = op \<and> bc_a (BCINS_AD op a d) = a \<and> bc_d (BCINS_AD op a d) = d
    \<and> bc_op (BCINS_AJ op a j) = op \<and> bc_a (BCINS_AJ op a j) = a \<and> bc_j (BCINS_AJ op a j) = j
    \<and> bc_j (setbc_j (BCINS_AD op a d) j) = j \<and> bc_a (setbc_b (BCINS_AD op a d) b) = a"
proof -
  have "nat (j + 32768) < 65536" using assms(6,7) by simp
  then have "bc_j (setbc_j (BCINS_AD op a d) j) = j"
    using assms(6,7) unfolding setbc_j_def jump_bias [OF assms(6,7)] bc_j_def
    by (simp add: setbc_get_d BCBIAS_J_def)
  then show ?thesis
    using bcins_abc [OF assms(1-4)] bcins_ad [OF assms(1,2,5)] bcins_aj [OF assms(1,2,6,7)] setbc_get(8) [OF assms(3)]
    by simp
qed

theorem bcins_fields_witness: "bc_j (BCINS_AJ BC_JMP 3 (- 5)) = - 5 \<and> bc_d (BCINS_AD BC_RET1 1 700) = 700"
  using bcins_fields [of BC_JMP 3 0 0 0 "- 5"] bcins_fields [of BC_RET1 1 0 0 700 0] by (simp add: bc_num_defs)

section \<open>The mode table\<close>

lemma mode_pack:
  fixes a b c m :: nat
  assumes "a < 8" "b < 16" "c < 16" "m < 32"
  defines "w \<equiv> (of_nat a OR push_bit 3 (of_nat b) OR push_bit 7 (of_nat c) OR push_bit 11 (of_nat m) :: u16)"
  shows "w AND 7 = of_nat a" "drop_bit 3 w AND 15 = of_nat b" "drop_bit 7 w AND 15 = of_nat c"
    "drop_bit 11 w = of_nat m" "w AND push_bit 3 15 = 0 \<longleftrightarrow> b = 0"
proof -
  have bd: "bit a i \<Longrightarrow> i < 3" "bit b i \<Longrightarrow> i < 4" "bit c i \<Longrightarrow> i < 4" "bit m i \<Longrightarrow> i < 5" for i
    using bit_bound [of _ 3] bit_bound [of _ 4] bit_bound [of _ 5] assms(1-4) by simp_all
  have ms: "(7 :: u16) = mask 3" "(15 :: u16) = mask 4" by (simp_all add: mask_eq_exp_minus_1)
  show b: "w AND 7 = of_nat a" "drop_bit 3 w AND 15 = of_nat b" "drop_bit 7 w AND 15 = of_nat c" "drop_bit 11 w = of_nat m"
    unfolding w_def ms by (rule bit_word_eqI, auto simp: bit_simps dest: bd)+
  have "w AND push_bit 3 15 = push_bit 3 (drop_bit 3 w AND 15)"
    unfolding ms by (rule bit_word_eqI) (auto simp: bit_simps le_add_diff_inverse)
  then have e: "w AND push_bit 3 15 = push_bit 3 (of_nat b)" unfolding b(2) .
  have "(push_bit 3 (of_nat b) :: u16) = of_nat (8 * b)" by (simp add: push_bit_eq_mult)
  moreover have "unat (of_nat (8 * b) :: u16) = 8 * b" using assms(2) by (simp add: unat_of_nat del: of_nat_mult)
  ultimately have "unat (push_bit 3 (of_nat b) :: u16) = 8 * b" by metis
  then have "(push_bit 3 (of_nat b) :: u16) = 0 \<longleftrightarrow> b = 0" by (simp add: word_unat_eq_iff)
  then show "w AND push_bit 3 15 = 0 \<longleftrightarrow> b = 0" unfolding e .
qed

lemma mode_num_bounds: "bcmode_num m < 16" "mms_num mm < 32" "bcmode_num m = 0 \<longleftrightarrow> m = BCMnone"
proof -
  show "bcmode_num m < 16" "bcmode_num m = 0 \<longleftrightarrow> m = BCMnone" by (cases m; simp)+
  show "mms_num mm < 32" by (cases mm) simp_all
qed

lemma bc_defs_modes:
  "list_all (\<lambda>(name, ma, mb, mc, mm). ma \<in> {BCMnone, BCMdst, BCMbase, BCMvar, BCMrbase, BCMuv}) bc_defs"
  "length bc_defs = 97"
  by (simp_all add: bc_defs_def)

text \<open>
  C14. The opcode table: there are \<open>BC__MAX\<close> opcodes, the accessors of the packed mode word give
  each one the operand modes and metamethod it is declared with, and an opcode has a D operand
  exactly when its B mode is empty.
\<close>

theorem bc_mode_table:
  "length bc_defs = BC__MAX
    \<and> (\<forall>op < BC__MAX. case bc_defs ! op of (name, ma, mb, mc, mm) \<Rightarrow>
         bcmode_a op = of_nat (bcmode_num ma) \<and> bcmode_b op = of_nat (bcmode_num mb)
       \<and> bcmode_c op = of_nat (bcmode_num mc) \<and> bcmode_mm op = of_nat (mms_num mm)
       \<and> bcmode_hasd op = (mb = BCMnone))"
proof (intro conjI allI impI)
  show "length bc_defs = BC__MAX" by (simp add: bc_defs_modes BC__MAX_def)
  fix op assume op: "op < BC__MAX"
  obtain name ma mb mc mm where d: "bc_defs ! op = (name, ma, mb, mc, mm)" by (rule prod_cases5)
  have opl: "op < length bc_defs" using op by (simp add: bc_defs_modes BC__MAX_def)
  have "(\<lambda>(name, ma, mb, mc, mm). ma \<in> {BCMnone, BCMdst, BCMbase, BCMvar, BCMrbase, BCMuv}) (bc_defs ! op)"
    by (rule bc_defs_modes(1) [unfolded list_all_length, THEN spec, THEN mp, OF opl])
  then have "bcmode_num ma < 8" unfolding d by auto
  note p = mode_pack [OF this mode_num_bounds(1) [of mb] mode_num_bounds(1) [of mc] mode_num_bounds(2) [of mm]]
  show "case bc_defs ! op of (name, ma, mb, mc, mm) \<Rightarrow>
         bcmode_a op = of_nat (bcmode_num ma) \<and> bcmode_b op = of_nat (bcmode_num mb)
       \<and> bcmode_c op = of_nat (bcmode_num mc) \<and> bcmode_mm op = of_nat (mms_num mm)
       \<and> bcmode_hasd op = (mb = BCMnone)"
  proof -
    have w: "lj_bc_mode op = of_nat (bcmode_num ma) OR push_bit 3 (of_nat (bcmode_num mb))
        OR push_bit 7 (of_nat (bcmode_num mc)) OR push_bit 11 (of_nat (mms_num mm))"
      unfolding lj_bc_mode_def d prod.case ..
    have z: "push_bit 3 (of_nat (bcmode_num BCMnone)) = (0 :: u16)" by simp
    have "bcmode_hasd op = (mb = BCMnone)"
      unfolding bcmode_hasd_def w z p(5) by (rule mode_num_bounds(3))
    then show ?thesis
      unfolding d prod.case bcmode_a_def bcmode_b_def bcmode_c_def bcmode_mm_def w p(1-4) by blast
  qed
qed

theorem bc_mode_table_witness: "bcmode_hasd BC_JMP \<and> fst (bc_defs ! BC_JMP) = ''JMP''"
proof -
  have d: "bc_defs ! BC_JMP = (''JMP'', BCMrbase, BCMnone, BCMjump, MM_none)" by (simp add: bc_defs_def BC_JMP_def)
  have "BC_JMP < BC__MAX" by (simp add: bc_num_defs)
  then show ?thesis using bc_mode_table d by fastforce
qed

end
