(* ===== verification/LjBcWrite.thy ===== *)
theory LjBcWrite
  imports LjBuf LjBc
begin

text \<open>
  The bytecode dump (\<^verbatim>\<open>lj_bcdump.h\<close>, \<^verbatim>\<open>lj_bcwrite.c\<close>). The writer yields the bytes it
  passes to the writer callback; the reader takes the dump as one block of bytes. String constants
  are their contents; the strings inside template tables are references, read and created through
  the parameters \<open>sd\<close> (\<open>strdata\<close>) and \<open>intern\<close> (\<open>lj_str_new\<close>). Buffer capacity is the subject of
  the buffer theory; memory exhaustion is not a branch here.
\<close>

section \<open>Format\<close>

definition BCDUMP_HEAD1 :: u8 where "BCDUMP_HEAD1 = 0x1b"
definition BCDUMP_HEAD2 :: u8 where "BCDUMP_HEAD2 = 0x4c"
definition BCDUMP_HEAD3 :: u8 where "BCDUMP_HEAD3 = 0x4a"
definition BCDUMP_VERSION :: u8 where "BCDUMP_VERSION = 2"
definition BCDUMP_F_BE :: u32 where "BCDUMP_F_BE = 1"
definition BCDUMP_F_STRIP :: u32 where "BCDUMP_F_STRIP = 2"
definition BCDUMP_F_FFI :: u32 where "BCDUMP_F_FFI = 4"
definition BCDUMP_F_FR2 :: u32 where "BCDUMP_F_FR2 = 8"
definition BCDUMP_F_KNOWN :: u32 where "BCDUMP_F_KNOWN = BCDUMP_F_FR2 * 2 - 1"

definition BCDUMP_KGC_CHILD :: nat where "BCDUMP_KGC_CHILD = 0"
definition BCDUMP_KGC_TAB :: nat where "BCDUMP_KGC_TAB = 1"
definition BCDUMP_KGC_I64 :: nat where "BCDUMP_KGC_I64 = 2"
definition BCDUMP_KGC_U64 :: nat where "BCDUMP_KGC_U64 = 3"
definition BCDUMP_KGC_COMPLEX :: nat where "BCDUMP_KGC_COMPLEX = 4"
definition BCDUMP_KGC_STR :: nat where "BCDUMP_KGC_STR = 5"

definition BCDUMP_KTAB_NIL :: nat where "BCDUMP_KTAB_NIL = 0"
definition BCDUMP_KTAB_FALSE :: nat where "BCDUMP_KTAB_FALSE = 1"
definition BCDUMP_KTAB_TRUE :: nat where "BCDUMP_KTAB_TRUE = 2"
definition BCDUMP_KTAB_INT :: nat where "BCDUMP_KTAB_INT = 3"
definition BCDUMP_KTAB_NUM :: nat where "BCDUMP_KTAB_NUM = 4"
definition BCDUMP_KTAB_STR :: nat where "BCDUMP_KTAB_STR = 5"

lemmas bcdump_defs = BCDUMP_HEAD1_def BCDUMP_HEAD2_def BCDUMP_HEAD3_def BCDUMP_VERSION_def
  BCDUMP_F_BE_def BCDUMP_F_STRIP_def BCDUMP_F_FFI_def BCDUMP_F_FR2_def BCDUMP_F_KNOWN_def
lemmas kgc_defs = BCDUMP_KGC_CHILD_def BCDUMP_KGC_TAB_def BCDUMP_KGC_I64_def BCDUMP_KGC_U64_def
  BCDUMP_KGC_COMPLEX_def BCDUMP_KGC_STR_def
lemmas ktab_defs = BCDUMP_KTAB_NIL_def BCDUMP_KTAB_FALSE_def BCDUMP_KTAB_TRUE_def
  BCDUMP_KTAB_INT_def BCDUMP_KTAB_NUM_def BCDUMP_KTAB_STR_def

definition PROTO_CHILD :: u8 where "PROTO_CHILD = 1"
definition PROTO_VARARG :: u8 where "PROTO_VARARG = 2"
definition PROTO_FFI :: u8 where "PROTO_FFI = 4"
definition PROTO_ILOOP :: u8 where "PROTO_ILOOP = 0x10"

lemmas proto_flag_defs = PROTO_CHILD_def PROTO_VARARG_def PROTO_FFI_def PROTO_ILOOP_def

text \<open>
  A prototype. \<open>pt_kgc\<close> lists the collectable constants from index \<open>-sizekgc\<close> up to \<open>-1\<close>;
  \<open>pt_debug\<close> is the debug block that starts at \<open>lineinfo\<close>, empty if \<open>lineinfo\<close> is \<open>NULL\<close>.
\<close>

datatype gcproto = GCproto (pt_flags: u8) (pt_numparams: u8) (pt_framesize: u8) (pt_trace: u16)
    (pt_uv: "u16 list") (pt_kgc: "kgc list") (pt_kn: "tvalue list") (pt_bc: "bcins list")
    (pt_firstline: u32) (pt_numline: u32) (pt_debug: bytes)
and kgc = KStr bytes | KTab gctab | KI64 u64 | KU64 u64 | KComplex u64 u64 | KChild gcproto

definition le16 :: "u16 \<Rightarrow> bytes" where "le16 w = [ucast w, ucast (drop_bit 8 w)]"

definition le32 :: "u32 \<Rightarrow> bytes" where
  "le32 w = [ucast w, ucast (drop_bit 8 w), ucast (drop_bit 16 w), ucast (drop_bit 24 w)]"

section \<open>Writer\<close>

definition bcwrite_ktabk :: "(gcref \<Rightarrow> bytes) \<Rightarrow> tvalue \<Rightarrow> bool \<Rightarrow> bytes" where
  "bcwrite_ktabk sd o' narrow =
     (if tvisstr o' then
        let s = sd (gcval o') in lj_strfmt_wuleb128 (of_nat (BCDUMP_KTAB_STR + length s)) @ s
      else if tvisnum o' then
        (let k = lj_num2int o' in
         if narrow \<and> dbl_eq o' (int2dbl k) then [of_nat BCDUMP_KTAB_INT] @ lj_strfmt_wuleb128 k
         else [of_nat BCDUMP_KTAB_NUM] @ lj_strfmt_wuleb128 (u32lo o') @ lj_strfmt_wuleb128 (u32hi o'))
      else [of_nat BCDUMP_KTAB_NIL + ucast (NOT (itype o'))])"

text \<open>The downward scan for the last array slot in use.\<close>

fun ktab_narray :: "tvalue list \<Rightarrow> nat \<Rightarrow> nat" where
  "ktab_narray array 0 = 0"
| "ktab_narray array (Suc i) = (if \<not> tvisnil (array ! i) then Suc i else ktab_narray array i)"

text \<open>The downward loop over the nodes, given from the last node on, until \<open>i\<close> pairs are written.\<close>

fun bcwrite_khash :: "(gcref \<Rightarrow> bytes) \<Rightarrow> nat \<Rightarrow> node list \<Rightarrow> bytes" where
  "bcwrite_khash sd i [] = []"
| "bcwrite_khash sd i (n # ns) =
     (if \<not> tvisnil (n_val n) then
        bcwrite_ktabk sd (n_key n) False @ bcwrite_ktabk sd (n_val n) True
        @ (if i - 1 = 0 then [] else bcwrite_khash sd (i - 1) ns)
      else bcwrite_khash sd i ns)"

definition bcwrite_ktab :: "(gcref \<Rightarrow> bytes) \<Rightarrow> gctab \<Rightarrow> bytes" where
  "bcwrite_ktab sd t =
     (let narray = (if 0 < t_asize t then ktab_narray (t_array t) (unat (t_asize t)) else 0);
          nhash = (if 0 < t_hmask t then length (filter (\<lambda>n. \<not> tvisnil (n_val n)) (t_node t)) else 0)
      in lj_strfmt_wuleb128 (of_nat narray) @ lj_strfmt_wuleb128 (of_nat nhash)
         @ (if narray \<noteq> 0 then concat (map (\<lambda>v. bcwrite_ktabk sd v True) (take narray (t_array t))) else [])
         @ (if nhash \<noteq> 0 then bcwrite_khash sd nhash (rev (t_node t)) else []))"

definition wuleb_u64 :: "u64 \<Rightarrow> bytes" where
  "wuleb_u64 q = lj_strfmt_wuleb128 (u32lo q) @ lj_strfmt_wuleb128 (u32hi q)"

fun bcwrite_kgc1 :: "(gcref \<Rightarrow> bytes) \<Rightarrow> kgc \<Rightarrow> bytes" where
  "bcwrite_kgc1 sd (KStr s) = lj_strfmt_wuleb128 (of_nat (BCDUMP_KGC_STR + length s)) @ s"
| "bcwrite_kgc1 sd (KChild p) = lj_strfmt_wuleb128 (of_nat BCDUMP_KGC_CHILD)"
| "bcwrite_kgc1 sd (KI64 q) = lj_strfmt_wuleb128 (of_nat BCDUMP_KGC_I64) @ wuleb_u64 q"
| "bcwrite_kgc1 sd (KU64 q) = lj_strfmt_wuleb128 (of_nat BCDUMP_KGC_U64) @ wuleb_u64 q"
| "bcwrite_kgc1 sd (KComplex q r) = lj_strfmt_wuleb128 (of_nat BCDUMP_KGC_COMPLEX) @ wuleb_u64 q @ wuleb_u64 r"
| "bcwrite_kgc1 sd (KTab t) = lj_strfmt_wuleb128 (of_nat BCDUMP_KGC_TAB) @ bcwrite_ktab sd t"

definition bcwrite_kgc :: "(gcref \<Rightarrow> bytes) \<Rightarrow> kgc list \<Rightarrow> bytes" where
  "bcwrite_kgc sd ks = concat (map (bcwrite_kgc1 sd) ks)"

definition bcwrite_knum1 :: "tvalue \<Rightarrow> bytes" where
  "bcwrite_knum1 v =
     (let k = lj_num2int v in
      if dbl_eq v (int2dbl k) then
        (let p = lj_strfmt_wuleb128 (2 * k OR (k AND 0x80000000)) in
         if k <s 0 then butlast p @ [(last p AND 7) OR ucast (signed_drop_bit 27 k AND 0x18)] else p)
      else
        (let lo = u32lo v; p = lj_strfmt_wuleb128 (1 + (2 * lo OR (lo AND 0x80000000)));
             p = (if 0x80000000 \<le> lo then butlast p @ [(last p AND 7) OR ucast (drop_bit 27 lo AND 0x18)] else p)
         in p @ lj_strfmt_wuleb128 (u32hi v)))"

definition bcwrite_knum :: "tvalue list \<Rightarrow> bytes" where
  "bcwrite_knum kn = concat (map bcwrite_knum1 kn)"

text \<open>
  Unpatching of an instruction; \<open>startins\<close> gives the original instruction of a trace, by number.
\<close>

definition bc_unpatch :: "(nat \<Rightarrow> bcins) \<Rightarrow> bcins \<Rightarrow> bcins" where
  "bc_unpatch startins i =
     (let op = bc_op i in
      if op = BC_IFORL \<or> op = BC_IITERL \<or> op = BC_ILOOP \<or> op = BC_JFORI then
        setbc_op i (op + BC_FORL - BC_IFORL)
      else if op = BC_JFORL \<or> op = BC_JITERL \<or> op = BC_JLOOP then startins (bc_d i)
      else i)"

definition bcwrite_bytecode :: "(nat \<Rightarrow> bcins) \<Rightarrow> gcproto \<Rightarrow> bytes" where
  "bcwrite_bytecode startins pt =
     (let bc = tl (pt_bc pt);
          bc = (if pt_flags pt AND PROTO_ILOOP \<noteq> 0 \<or> pt_trace pt \<noteq> 0 then map (bc_unpatch startins) bc else bc)
      in concat (map le32 bc))"

text \<open>The body of a prototype record, without its length.\<close>

definition bcwrite_pdata :: "(gcref \<Rightarrow> bytes) \<Rightarrow> (nat \<Rightarrow> bcins) \<Rightarrow> bool \<Rightarrow> gcproto \<Rightarrow> bytes" where
  "bcwrite_pdata sd startins strip pt =
     (let sizedbg = (if strip then 0 else length (pt_debug pt)) in
      [pt_flags pt AND (PROTO_CHILD OR PROTO_VARARG OR PROTO_FFI), pt_numparams pt, pt_framesize pt,
       of_nat (length (pt_uv pt))]
      @ lj_strfmt_wuleb128 (of_nat (length (pt_kgc pt)))
      @ lj_strfmt_wuleb128 (of_nat (length (pt_kn pt)))
      @ lj_strfmt_wuleb128 (of_nat (length (pt_bc pt) - 1))
      @ (if \<not> strip then
           lj_strfmt_wuleb128 (of_nat sizedbg)
           @ (if sizedbg \<noteq> 0 then lj_strfmt_wuleb128 (pt_firstline pt) @ lj_strfmt_wuleb128 (pt_numline pt) else [])
         else [])
      @ bcwrite_bytecode startins pt
      @ concat (map le16 (pt_uv pt))
      @ bcwrite_kgc sd (pt_kgc pt)
      @ bcwrite_knum (pt_kn pt)
      @ (if sizedbg \<noteq> 0 then pt_debug pt else []))"

definition blit :: "'a list \<Rightarrow> nat \<Rightarrow> 'a list \<Rightarrow> 'a list" where
  "blit xs ofs ys = take ofs xs @ ys @ drop (ofs + length ys) xs"

text \<open>The final size is written into the room left in front of the record.\<close>

definition bcwrite_sized :: "bytes \<Rightarrow> bytes" where
  "bcwrite_sized pdata =
     (let n = length pdata; nn = (lj_fls (of_nat n) + 8) * 9 div 64;
          buf = blit (replicate 5 0 @ pdata) (5 - nn) (lj_strfmt_wuleb128 (of_nat n))
      in take (nn + n) (drop (5 - nn) buf))"

text \<open>
  The writer context. The callback gets a block of bytes and its own data and returns a status;
  it is code of the embedding application.
\<close>

record 'd bcwritectx =
  bw_strip :: bool
  bw_status :: int
  bw_wdata :: 'd

type_synonym 'd writer = "bytes \<Rightarrow> 'd \<Rightarrow> int \<times> 'd"

definition bcwrite_out :: "'d writer \<Rightarrow> bytes \<Rightarrow> 'd bcwritectx \<Rightarrow> 'd bcwritectx" where
  "bcwrite_out wfunc q ctx =
     (let (st, d) = wfunc q (bw_wdata ctx) in ctx\<lparr>bw_status := st, bw_wdata := d\<rparr>)"

fun bcwrite_proto :: "'d writer \<Rightarrow> (gcref \<Rightarrow> bytes) \<Rightarrow> (nat \<Rightarrow> bcins) \<Rightarrow> gcproto \<Rightarrow> 'd bcwritectx \<Rightarrow> 'd bcwritectx"
  and bcwrite_children :: "'d writer \<Rightarrow> (gcref \<Rightarrow> bytes) \<Rightarrow> (nat \<Rightarrow> bcins) \<Rightarrow> kgc list \<Rightarrow> 'd bcwritectx \<Rightarrow> 'd bcwritectx"
  and bcwrite_child :: "'d writer \<Rightarrow> (gcref \<Rightarrow> bytes) \<Rightarrow> (nat \<Rightarrow> bcins) \<Rightarrow> kgc \<Rightarrow> 'd bcwritectx \<Rightarrow> 'd bcwritectx" where
  "bcwrite_proto wfunc sd startins (GCproto flags np fs tr uv ks kn bc fl nl dbg) ctx =
     (let ctx = (if flags AND PROTO_CHILD \<noteq> 0 then bcwrite_children wfunc sd startins ks ctx else ctx);
          pdata = bcwrite_pdata sd startins (bw_strip ctx) (GCproto flags np fs tr uv ks kn bc fl nl dbg)
      in if bw_status ctx = 0 then bcwrite_out wfunc (bcwrite_sized pdata) ctx else ctx)"
| "bcwrite_children wfunc sd startins [] ctx = ctx"
| "bcwrite_children wfunc sd startins (k # ks) ctx =
     bcwrite_child wfunc sd startins k (bcwrite_children wfunc sd startins ks ctx)"
| "bcwrite_child wfunc sd startins (KChild p) ctx = bcwrite_proto wfunc sd startins p ctx"
| "bcwrite_child wfunc sd startins (KStr s) ctx = ctx"
| "bcwrite_child wfunc sd startins (KTab t) ctx = ctx"
| "bcwrite_child wfunc sd startins (KI64 q) ctx = ctx"
| "bcwrite_child wfunc sd startins (KU64 q) ctx = ctx"
| "bcwrite_child wfunc sd startins (KComplex q r) ctx = ctx"

definition bcwrite_header :: "'d writer \<Rightarrow> gcproto \<Rightarrow> bytes \<Rightarrow> 'd bcwritectx \<Rightarrow> 'd bcwritectx" where
  "bcwrite_header wfunc pt chunkname ctx =
     bcwrite_out wfunc
       ([BCDUMP_HEAD1, BCDUMP_HEAD2, BCDUMP_HEAD3, BCDUMP_VERSION,
         (if bw_strip ctx then ucast BCDUMP_F_STRIP else 0)
         + (if pt_flags pt AND PROTO_FFI \<noteq> 0 then ucast BCDUMP_F_FFI else 0) + ucast BCDUMP_F_FR2]
        @ (if \<not> bw_strip ctx then lj_strfmt_wuleb128 (of_nat (length chunkname)) @ chunkname else [])) ctx"

definition bcwrite_footer :: "'d writer \<Rightarrow> 'd bcwritectx \<Rightarrow> 'd bcwritectx" where
  "bcwrite_footer wfunc ctx = (if bw_status ctx = 0 then bcwrite_out wfunc [0] ctx else ctx)"

definition cpwriter :: "'d writer \<Rightarrow> (gcref \<Rightarrow> bytes) \<Rightarrow> (nat \<Rightarrow> bcins) \<Rightarrow> gcproto \<Rightarrow> bytes \<Rightarrow> 'd bcwritectx \<Rightarrow> 'd bcwritectx" where
  "cpwriter wfunc sd startins pt chunkname ctx =
     bcwrite_footer wfunc (bcwrite_proto wfunc sd startins pt (bcwrite_header wfunc pt chunkname ctx))"

definition lj_bcwrite ::
  "'d writer \<Rightarrow> (gcref \<Rightarrow> bytes) \<Rightarrow> (nat \<Rightarrow> bcins) \<Rightarrow> gcproto \<Rightarrow> bytes \<Rightarrow> 'd \<Rightarrow> bool \<Rightarrow> int \<times> 'd" where
  "lj_bcwrite wfunc sd startins pt chunkname wdata strip =
     (let ctx = cpwriter wfunc sd startins pt chunkname \<lparr>bw_strip = strip, bw_status = 0, bw_wdata = wdata\<rparr>
      in (bw_status ctx, bw_wdata ctx))"

end
