(* ===== verification/LjBcRead.thy ===== *)
theory LjBcRead
  imports LjBcWrite
begin

text \<open>
  The bytecode reader (\<^verbatim>\<open>lj_bcread.c\<close>). The input is one block of bytes; every reader returns its
  result and the remaining bytes, or an error. A read past the end, against which the C code has
  only assertions, is the error \<open>BC_OVERREAD\<close>. The stack of prototypes read so far is a list with
  its top first.
\<close>

datatype bcread_err = LJ_ERR_BCFMT | LJ_ERR_BCBAD | BC_OVERREAD | BC_TAB tab_err

type_synonym 'a reader = "bytes \<Rightarrow> bcread_err + ('a \<times> bytes)"

definition rbind :: "bcread_err + ('a \<times> bytes) \<Rightarrow> ('a \<Rightarrow> 'b reader) \<Rightarrow> bcread_err + ('b \<times> bytes)" where
  "rbind r f = (case r of Inl e \<Rightarrow> Inl e | Inr (a, bs) \<Rightarrow> f a bs)"

lemma rbind_simps [simp]: "rbind (Inl e) f = Inl e" "rbind (Inr (a, bs)) f = f a bs"
  by (simp_all add: rbind_def)

section \<open>Primitive readers\<close>

definition bcread_mem :: "nat \<Rightarrow> bytes reader" where
  "bcread_mem len bs = (if length bs < len then Inl BC_OVERREAD else Inr (take len bs, drop len bs))"

fun bcread_byte :: "u8 reader" where
  "bcread_byte [] = Inl BC_OVERREAD"
| "bcread_byte (b # bs) = Inr (b, bs)"

definition bcread_uleb128 :: "u32 reader" where
  "bcread_uleb128 bs = (case lj_buf_ruleb128 bs of None \<Rightarrow> Inl BC_OVERREAD | Some r \<Rightarrow> Inr r)"

fun uleb128_33_loop :: "u32 \<Rightarrow> nat \<Rightarrow> u32 reader" where
  "uleb128_33_loop v sh [] = Inl BC_OVERREAD"
| "uleb128_33_loop v sh (b # bs) =
     (let v = v OR push_bit sh (ucast (b AND 0x7f)) in
      if 0x80 \<le> b then uleb128_33_loop v (sh + 7) bs else Inr (v, bs))"

fun bcread_uleb128_33 :: "u32 reader" where
  "bcread_uleb128_33 [] = Inl BC_OVERREAD"
| "bcread_uleb128_33 (b # bs) =
     (let v = ucast (drop_bit 1 b) in
      if 0x40 \<le> v then uleb128_33_loop (v AND 0x3f) 6 bs else Inr (v, bs))"

definition bcread_swap :: "u32 \<Rightarrow> bool" where
  "bcread_swap flags \<longleftrightarrow> flags AND BCDUMP_F_BE \<noteq> 0"

fun get_le16 :: "bytes \<Rightarrow> u16 list" where
  "get_le16 (a # b # bs) = (ucast a OR push_bit 8 (ucast b)) # get_le16 bs"
| "get_le16 bs = []"

fun get_le32 :: "bytes \<Rightarrow> u32 list" where
  "get_le32 (a # b # c # d # bs) =
     (ucast a OR push_bit 8 (ucast b) OR push_bit 16 (ucast c) OR push_bit 24 (ucast d)) # get_le32 bs"
| "get_le32 bs = []"

definition bswap16 :: "u16 \<Rightarrow> u16" where
  "bswap16 x = drop_bit 8 x OR push_bit 8 x"

section \<open>Constants\<close>

definition bcread_ktabk :: "(bytes \<Rightarrow> gcref) \<Rightarrow> tvalue reader" where
  "bcread_ktabk intern bs =
     rbind (bcread_uleb128 bs) (\<lambda>tp bs.
       if BCDUMP_KTAB_STR \<le> unat tp then
         rbind (bcread_mem (unat tp - BCDUMP_KTAB_STR) bs) (\<lambda>s bs. Inr (setstrV (intern s), bs))
       else if unat tp = BCDUMP_KTAB_INT then
         rbind (bcread_uleb128 bs) (\<lambda>i bs. Inr (setintV i, bs))
       else if unat tp = BCDUMP_KTAB_NUM then
         rbind (bcread_uleb128 bs) (\<lambda>lo bs. rbind (bcread_uleb128 bs) (\<lambda>hi bs.
           Inr (push_bit 32 (ucast hi) OR ucast lo, bs)))
       else Inr (setpriV (NOT tp), bs))"

fun bcread_karray :: "(bytes \<Rightarrow> gcref) \<Rightarrow> nat \<Rightarrow> tvalue list reader" where
  "bcread_karray intern 0 bs = Inr ([], bs)"
| "bcread_karray intern (Suc n) bs =
     rbind (bcread_ktabk intern bs) (\<lambda>v bs. rbind (bcread_karray intern n bs) (\<lambda>vs bs. Inr (v # vs, bs)))"

text \<open>Each hash entry: read the key, get the slot of the key, read the value into the slot.\<close>

fun bcread_khash :: "(gcref \<Rightarrow> u32) \<Rightarrow> (bytes \<Rightarrow> gcref) \<Rightarrow> nat \<Rightarrow> gctab \<Rightarrow> gctab reader" where
  "bcread_khash sid intern 0 t bs = Inr (t, bs)"
| "bcread_khash sid intern (Suc n) t bs =
     rbind (bcread_ktabk intern bs) (\<lambda>key bs.
       case lj_tab_set sid t key of
         Inl e \<Rightarrow> Inl (BC_TAB e)
       | Inr (t, s) \<Rightarrow>
           rbind (bcread_ktabk intern bs) (\<lambda>v bs. bcread_khash sid intern n (slot_put t s v) bs))"

text \<open>A new table is white, with the current white of the collector.\<close>

record bcread_env =
  br_sid :: "gcref \<Rightarrow> u32"
  br_intern :: "bytes \<Rightarrow> gcref"
  br_white :: u8

definition bcread_ktab :: "bcread_env \<Rightarrow> gctab reader" where
  "bcread_ktab ls bs =
     rbind (bcread_uleb128 bs) (\<lambda>narray bs. rbind (bcread_uleb128 bs) (\<lambda>nhash bs.
       case lj_tab_new (br_white ls) (unat narray) (hsize2hbits (unat nhash)) of
         Inl e \<Rightarrow> Inl (BC_TAB e)
       | Inr t \<Rightarrow>
           rbind (bcread_karray (br_intern ls) (unat narray) bs) (\<lambda>vs bs.
             bcread_khash (br_sid ls) (br_intern ls) (unat nhash) (t\<lparr>t_array := vs\<rparr>) bs)))"

definition bcread_u64 :: "u64 reader" where
  "bcread_u64 bs = rbind (bcread_uleb128 bs) (\<lambda>lo bs. rbind (bcread_uleb128 bs) (\<lambda>hi bs.
     Inr (push_bit 32 (ucast hi) OR ucast lo, bs)))"

definition bcread_kgc1 :: "bcread_env \<Rightarrow> gcproto list \<Rightarrow> (kgc \<times> gcproto list) reader" where
  "bcread_kgc1 ls st bs =
     rbind (bcread_uleb128 bs) (\<lambda>tp bs.
       if BCDUMP_KGC_STR \<le> unat tp then
         rbind (bcread_mem (unat tp - BCDUMP_KGC_STR) bs) (\<lambda>s bs. Inr ((KStr s, st), bs))
       else if unat tp = BCDUMP_KGC_TAB then
         rbind (bcread_ktab ls bs) (\<lambda>t bs. Inr ((KTab t, st), bs))
       else if unat tp \<noteq> BCDUMP_KGC_CHILD then
         rbind (bcread_u64 bs) (\<lambda>q bs.
           if unat tp = BCDUMP_KGC_COMPLEX then rbind (bcread_u64 bs) (\<lambda>r bs. Inr ((KComplex q r, st), bs))
           else Inr ((if unat tp = BCDUMP_KGC_I64 then KI64 q else KU64 q, st), bs))
       else (case st of [] \<Rightarrow> Inl LJ_ERR_BCBAD | p # st \<Rightarrow> Inr ((KChild p, st), bs)))"

fun bcread_kgc :: "bcread_env \<Rightarrow> nat \<Rightarrow> gcproto list \<Rightarrow> (kgc list \<times> gcproto list) reader" where
  "bcread_kgc ls 0 st bs = Inr (([], st), bs)"
| "bcread_kgc ls (Suc n) st bs =
     rbind (bcread_kgc1 ls st bs) (\<lambda>(k, st) bs.
       rbind (bcread_kgc ls n st bs) (\<lambda>(ks, st) bs. Inr ((k # ks, st), bs)))"

definition bcread_knum1 :: "tvalue reader" where
  "bcread_knum1 bs =
     (let isnum = (bs \<noteq> [] \<and> hd bs AND 1 \<noteq> 0) in
      rbind (bcread_uleb128_33 bs) (\<lambda>lo bs.
        if isnum then rbind (bcread_uleb128 bs) (\<lambda>hi bs. Inr (push_bit 32 (ucast hi) OR ucast lo, bs))
        else Inr (setintV lo, bs)))"

fun bcread_knum :: "nat \<Rightarrow> tvalue list reader" where
  "bcread_knum 0 bs = Inr ([], bs)"
| "bcread_knum (Suc n) bs =
     rbind (bcread_knum1 bs) (\<lambda>v bs. rbind (bcread_knum n bs) (\<lambda>vs bs. Inr (v # vs, bs)))"

section \<open>Prototypes\<close>

definition bcread_bytecode :: "u32 \<Rightarrow> u8 \<Rightarrow> u8 \<Rightarrow> nat \<Rightarrow> bcins list reader" where
  "bcread_bytecode lflags flags framesize sizebc bs =
     rbind (bcread_mem ((sizebc - 1) * 4) bs) (\<lambda>q bs.
       Inr (BCINS_AD (if flags AND PROTO_VARARG \<noteq> 0 then BC_FUNCV else BC_FUNCF) (unat framesize) 0
              # map (if bcread_swap lflags then lj_bswap else id) (get_le32 q), bs))"

definition bcread_uv :: "u32 \<Rightarrow> nat \<Rightarrow> u16 list reader" where
  "bcread_uv lflags sizeuv bs =
     (if sizeuv \<noteq> 0 then
        rbind (bcread_mem (sizeuv * 2) bs) (\<lambda>q bs.
          Inr (map (if bcread_swap lflags then bswap16 else id) (get_le16 q), bs))
      else Inr ([], bs))"

definition bcread_dbg :: "u32 \<Rightarrow> u32 \<Rightarrow> nat \<Rightarrow> nat \<Rightarrow> bytes reader" where
  "bcread_dbg lflags numline sizebc sizedbg bs =
     rbind (bcread_mem sizedbg bs) (\<lambda>q bs.
       Inr (if bcread_swap lflags \<and> 256 \<le> numline then
              (let n = sizebc - 1 in
               if numline < 65536 then concat (map (le16 \<circ> bswap16) (get_le16 (take (2 * n) q))) @ drop (2 * n) q
               else concat (map (le32 \<circ> lj_bswap) (get_le32 (take (4 * n) q))) @ drop (4 * n) q)
            else q, bs))"

definition lj_bcread_proto :: "bcread_env \<Rightarrow> u32 \<Rightarrow> gcproto list \<Rightarrow> (gcproto \<times> gcproto list) reader" where
  "lj_bcread_proto ls lflags st bs =
     rbind (bcread_byte bs) (\<lambda>flags bs.
     rbind (bcread_byte bs) (\<lambda>numparams bs.
     rbind (bcread_byte bs) (\<lambda>framesize bs.
     rbind (bcread_byte bs) (\<lambda>sizeuv bs.
     rbind (bcread_uleb128 bs) (\<lambda>sizekgc bs.
     rbind (bcread_uleb128 bs) (\<lambda>sizekn bs.
     rbind (bcread_uleb128 bs) (\<lambda>sizebc bs.
     rbind (if lflags AND BCDUMP_F_STRIP = 0 then
              rbind (bcread_uleb128 bs) (\<lambda>sizedbg bs.
                if sizedbg \<noteq> 0 then
                  rbind (bcread_uleb128 bs) (\<lambda>firstline bs. rbind (bcread_uleb128 bs) (\<lambda>numline bs.
                    Inr ((sizedbg, firstline, numline), bs)))
                else Inr ((sizedbg, 0, 0), bs))
            else Inr ((0, 0, 0), bs)) (\<lambda>(sizedbg, firstline, numline) bs.
     rbind (bcread_bytecode lflags flags framesize (unat (sizebc + 1)) bs) (\<lambda>bc bs.
     rbind (bcread_uv lflags (unat sizeuv) bs) (\<lambda>uv bs.
     rbind (bcread_kgc ls (unat sizekgc) st bs) (\<lambda>(kgc, st) bs.
     rbind (bcread_knum (unat sizekn) bs) (\<lambda>kn bs.
     rbind (if sizedbg \<noteq> 0 then bcread_dbg lflags numline (unat (sizebc + 1)) (unat sizedbg) bs
            else Inr ([], bs)) (\<lambda>dbg bs.
       Inr ((GCproto flags numparams framesize 0 uv kgc kn bc firstline numline dbg, st), bs))))))))))))))"

section \<open>The dump\<close>

text \<open>The header yields the dump flags and the chunk name; \<open>None\<close> is a header that does not fit.\<close>

definition bcread_header :: "bytes \<Rightarrow> (u32 \<times> bytes) option reader" where
  "bcread_header chunkarg bs =
     rbind (bcread_byte bs) (\<lambda>b bs. if b \<noteq> BCDUMP_HEAD2 then Inr (None, bs) else
     rbind (bcread_byte bs) (\<lambda>b bs. if b \<noteq> BCDUMP_HEAD3 then Inr (None, bs) else
     rbind (bcread_byte bs) (\<lambda>b bs. if b \<noteq> BCDUMP_VERSION then Inr (None, bs) else
     rbind (bcread_uleb128 bs) (\<lambda>flags bs.
       if flags AND NOT BCDUMP_F_KNOWN \<noteq> 0 then Inr (None, bs)
       else if flags AND BCDUMP_F_FR2 \<noteq> BCDUMP_F_FR2 then Inr (None, bs)
       else if flags AND BCDUMP_F_STRIP \<noteq> 0 then Inr (Some (flags, chunkarg), bs)
       else
         rbind (bcread_uleb128 bs) (\<lambda>len bs.
           if length bs < unat len then Inl LJ_ERR_BCBAD
           else rbind (bcread_mem (unat len) bs) (\<lambda>name bs. Inr (Some (flags, name), bs)))))))"

text \<open>The loop over the prototypes; the result is the stack and what follows the end mark.\<close>

function bcread_loop :: "bcread_env \<Rightarrow> u32 \<Rightarrow> gcproto list \<Rightarrow> gcproto list reader" where
  "bcread_loop ls lflags st bs =
     (if bs \<noteq> [] \<and> hd bs = 0 then Inr (st, tl bs)
      else (case bcread_uleb128 bs of
        Inl e \<Rightarrow> Inl e
      | Inr (len, bs') \<Rightarrow>
          if len = 0 then Inr (st, bs')
          else if length bs' < unat len then Inl LJ_ERR_BCBAD
          else (case lj_bcread_proto ls lflags st bs' of
              Inl e \<Rightarrow> Inl e
            | Inr ((pt, st), bs'') \<Rightarrow>
                if length bs'' + unat len \<noteq> length bs' then Inl LJ_ERR_BCBAD
                else bcread_loop ls lflags (pt # st) bs'')))"
  by pat_completeness auto
termination
proof (relation "measure (\<lambda>(ls, lflags, st, bs). length bs)", goal_cases)
  case (2 ls lflags st bs lb len bs' p ps pt st' bs'')
  then have "lj_buf_ruleb128 bs = Some (len, bs')" by (simp add: bcread_uleb128_def split: option.splits)
  then have "length bs' < length bs" by (rule ruleb_shorter)
  then show ?case using 2 by simp
qed simp

declare bcread_loop.simps [simp del]

definition lj_bcread :: "bcread_env \<Rightarrow> bytes \<Rightarrow> bool \<Rightarrow> bytes \<Rightarrow> bcread_err + (gcproto \<times> bytes)" where
  "lj_bcread ls chunkarg endmark bs =
     (case bcread_header chunkarg bs of
        Inl e \<Rightarrow> Inl e
      | Inr (None, bs) \<Rightarrow> Inl LJ_ERR_BCFMT
      | Inr (Some (lflags, chunkname), bs) \<Rightarrow>
          (case bcread_loop ls lflags [] bs of
             Inl e \<Rightarrow> Inl e
           | Inr (st, bs) \<Rightarrow>
               if bs \<noteq> [] \<and> \<not> endmark then Inl LJ_ERR_BCBAD
               else (case st of [pt] \<Rightarrow> Inr (pt, chunkname) | _ \<Rightarrow> Inl LJ_ERR_BCBAD)))"

text \<open>The offset of the variable info in the debug block: past the names of the upvalues.\<close>

fun varinfo_scan :: "nat \<Rightarrow> nat \<Rightarrow> bytes \<Rightarrow> nat" where
  "varinfo_scan p n [] = p"
| "varinfo_scan p n (b # bs) =
     (if b \<noteq> 0 then varinfo_scan (p + 1) n bs
      else if n - 1 \<noteq> 0 then varinfo_scan (p + 1) (n - 1) bs else p + 1)"

definition lineinfo_size :: "gcproto \<Rightarrow> nat" where
  "lineinfo_size pt = (length (pt_bc pt) - 1) * (if pt_numline pt < 256 then 1 else if pt_numline pt < 65536 then 2 else 4)"

definition bcread_varinfo :: "gcproto \<Rightarrow> nat" where
  "bcread_varinfo pt =
     (let p = lineinfo_size pt; n = length (pt_uv pt)
      in if n \<noteq> 0 then varinfo_scan p n (drop p (pt_debug pt)) else p)"

end
