(* ===== verification/LjBcTrip.thy ===== *)
theory LjBcTrip
  imports LjBcRead
begin

text \<open>
  The reader inverts the writer: round trips of each part of the dump and of the whole dump.
\<close>

section \<open>Parts\<close>

lemma rd_uleb [simp]: "bcread_uleb128 (lj_strfmt_wuleb128 v @ r) = Inr (v, r)"
  by (simp add: bcread_uleb128_def ruleb_wuleb)

lemma rd_mem [simp]: "length q = n \<Longrightarrow> bcread_mem n (q @ r) = Inr (q, r)"
  by (simp add: bcread_mem_def)

lemma le16_get: "get_le16 (concat (map le16 ws)) = ws"
proof (induction ws)
  case (Cons w ws)
  have "ucast (ucast w :: u8) OR push_bit 8 (ucast (ucast (drop_bit 8 w) :: u8)) = w" for w :: u16
    by (rule bit_word_eqI) (auto simp: bit_simps)
  then show ?case using Cons by (simp add: le16_def)
qed simp

lemma le32_get: "get_le32 (concat (map le32 ws)) = ws"
proof (induction ws)
  case (Cons w ws)
  have "ucast (ucast w :: u8) OR push_bit 8 (ucast (ucast (drop_bit 8 w) :: u8))
      OR push_bit 16 (ucast (ucast (drop_bit 16 w) :: u8)) OR push_bit 24 (ucast (ucast (drop_bit 24 w) :: u8)) = w" for w :: u32
  proof (rule bit_word_eqI)
    fix n assume "n < LENGTH(32)"
    then consider "n < 8" | "8 \<le> n" "n < 16" | "16 \<le> n" "n < 24" | "24 \<le> n" "n < 32" by fastforce
    then show "bit ((ucast (ucast w :: u8) :: u32) OR push_bit 8 (ucast (ucast (drop_bit 8 w) :: u8))
      OR push_bit 16 (ucast (ucast (drop_bit 16 w) :: u8)) OR push_bit 24 (ucast (ucast (drop_bit 24 w) :: u8))) n = bit w n"
      by cases (auto simp: bit_simps)
  qed
  then show ?case using Cons by (simp add: le32_def)
qed simp

lemma le_length: "length (concat (map le16 xs)) = 2 * length xs" "length (concat (map le32 ys)) = 4 * length ys"
  by (induction xs, simp_all add: le16_def) (induction ys, simp_all add: le32_def)

lemma u64_join: "push_bit 32 (ucast (u32hi q)) OR ucast (u32lo q) = (q :: u64)"
  by (rule bit_word_eqI) (auto simp: bit_simps u32hi_def u32lo_def)

lemma rd_u64: "bcread_u64 (wuleb_u64 q @ r) = Inr (q, r)"
  by (simp add: bcread_u64_def wuleb_u64_def u64_join)

section \<open>Numbers\<close>

lemma dbl_eq_int:
  assumes "dbl_eq v (int2dbl k)" "\<not> tvismzero v"
  shows "v = int2dbl k"
proof (rule ccontr)
  assume "v \<noteq> int2dbl k"
  then have m: "dbl_mag v = 0" "dbl_mag (int2dbl k) = 0" using assms(1) by (auto simp: dbl_eq_def)
  then have "int2dbl k = 0" using int2dbl_mag0 int2dbl_0 by (metis sint32_0)
  moreover have "v = 0"
  proof -
    have "\<not> dbl_neg v"
    proof
      assume "dbl_neg v"
      then have "unat v = unat (0x8000000000000000 :: u64)" using unat_dbl_mag [of v] m by simp
      then show False using assms(2) by (simp add: tvismzero_def word_unat_eq_iff)
    qed
    then have "unat v = unat (0 :: u64)" using unat_dbl_mag [of v] m by simp
    then show ?thesis by (simp only: word_unat_eq_iff)
  qed
  ultimately show False using \<open>v \<noteq> int2dbl k\<close> by simp
qed

text \<open>A value with its top bit set takes five bytes; the last one keeps bits 28 to 31.\<close>

lemma wuleb_5:
  assumes "0x80000000 \<le> w"
  shows "lj_strfmt_wuleb128 w = [ucast ((w AND 0x7f) OR 0x80), ucast ((drop_bit 7 w AND 0x7f) OR 0x80),
    ucast ((drop_bit 14 w AND 0x7f) OR 0x80), ucast ((drop_bit 21 w AND 0x7f) OR 0x80), ucast (drop_bit 28 w)]"
proof -
  have w: "2147483648 \<le> unat w" using assms by (simp add: word_le_nat_alt)
  have d: "unat (drop_bit n w) = unat w div 2 ^ n" if "n < 32" for n
    by (simp only: unat_drop_bit_eq) (simp only: drop_bit_eq_div)
  have "0x80 \<le> drop_bit 7 w" "0x80 \<le> drop_bit 14 w" "0x80 \<le> drop_bit 21 w"
    using w by (simp_all add: word_le_nat_alt d less_eq_div_iff_mult_less_eq)
  moreover have "\<not> 0x80 \<le> drop_bit 28 w"
    using less_mult_imp_div_less [of "unat w" 128 268435456] unat_bound32 [of w] by (simp add: word_le_nat_alt d)
  moreover have "0x80 \<le> w" using w by (simp add: word_le_nat_alt)
  ultimately show ?thesis
    by (simp add: lj_strfmt_wuleb128.simps [of w] lj_strfmt_wuleb128.simps [of "drop_bit 7 w"]
        lj_strfmt_wuleb128.simps [of "drop_bit 14 w"] lj_strfmt_wuleb128.simps [of "drop_bit 21 w"]
        lj_strfmt_wuleb128.simps [of "drop_bit 28 w"])
qed

lemma uleb33_loop_wuleb: "uleb128_33_loop acc sh (lj_strfmt_wuleb128 v @ rest) = Inr (acc OR push_bit sh v, rest)"
proof (induction v arbitrary: acc sh rule: lj_strfmt_wuleb128.induct)
  case (1 v)
  show ?case
  proof (cases "0x80 \<le> v")
    case True
    have "uleb128_33_loop acc sh (lj_strfmt_wuleb128 v @ rest) =
        Inr ((acc OR push_bit sh (v AND 0x7f)) OR push_bit (sh + 7) (drop_bit 7 v), rest)"
      using "1.IH" [OF True, of "acc OR push_bit sh (v AND 0x7f)" "sh + 7"] True byte_cont [of v]
      by (simp add: lj_strfmt_wuleb128.simps [of v])
    then show ?thesis using word_split7 [of sh v] by (simp add: or.assoc)
  next
    case False
    then show ?thesis using byte_last [OF False] by (simp add: lj_strfmt_wuleb128.simps [of v])
  qed
qed

lemma byte_cont_low:
  fixes w :: u32
  shows "ucast (drop_bit 1 (ucast ((w AND 0x7f) OR 0x80) :: u8)) AND 0x3f = (drop_bit 1 w AND 0x3f :: u32)"
    and "0x40 \<le> (ucast (drop_bit 1 (ucast ((w AND 0x7f) OR 0x80) :: u8)) :: u32)"
proof -
  have m: "(0x7f :: u32) = mask 7" "(0x3f :: u32) = mask 6" by (simp_all add: mask_eq_exp_minus_1)
  have b128: "bit (128 :: u32) i \<longleftrightarrow> i = 7" for i
    using bit_exp_iff [of 7 i, where 'a = u32] by auto
  have b64: "bit (64 :: u32) i \<longleftrightarrow> i = 6" "bit (64 :: int) i \<longleftrightarrow> i = 6" "bit (64 :: u8) i \<longleftrightarrow> i = 6" for i
    using bit_exp_iff [of 6 i, where 'a = u32] bit_exp_iff [of 6 i, where 'a = int] bit_exp_iff [of 6 i, where 'a = u8] by auto
  show "ucast (drop_bit 1 (ucast ((w AND 0x7f) OR 0x80) :: u8)) AND 0x3f = (drop_bit 1 w AND 0x3f :: u32)"
    unfolding m by (rule bit_word_eqI) (auto simp: bit_simps b128 b64)
  have "0x80 \<le> (ucast ((w AND 0x7f) OR 0x80) :: u8)" by (rule byte_cont)
  then show "0x40 \<le> (ucast (drop_bit 1 (ucast ((w AND 0x7f) OR 0x80) :: u8)) :: u32)"
    by (simp only: word_le_nat_alt unsigned_ucast_eq unat_drop_bit_eq)
      (simp add: drop_bit_eq_div take_bit_eq_mod)
qed

lemma rd_uleb33: "bcread_uleb128_33 (lj_strfmt_wuleb128 w @ r) = Inr (drop_bit 1 w, r)"
proof (cases "0x80 \<le> w")
  case True
  have "bcread_uleb128_33 (lj_strfmt_wuleb128 w @ r) = Inr ((drop_bit 1 w AND 0x3f) OR push_bit 6 (drop_bit 7 w), r)"
    using True byte_cont_low [of w] by (simp add: lj_strfmt_wuleb128.simps [of w] uleb33_loop_wuleb)
  moreover have "(drop_bit 1 w AND mask 6) OR push_bit 6 (drop_bit 7 w) = drop_bit 1 w"
  proof (rule bit_word_eqI)
    fix i assume "i < LENGTH(32)"
    then show "bit ((drop_bit 1 w AND mask 6) OR push_bit 6 (drop_bit 7 w)) i = bit (drop_bit 1 w) i"
      by (cases "i < 6") (simp_all add: bit_simps)
  qed
  ultimately show ?thesis by (simp add: mask_eq_exp_minus_1)
next
  case False
  then have "ucast (drop_bit 1 (ucast w :: u8)) = drop_bit 1 w \<and> \<not> 0x40 \<le> drop_bit 1 w"
  proof -
    have w: "unat w < 128" using False by (simp add: word_le_nat_alt)
    have "unat (ucast (drop_bit 1 (ucast w :: u8)) :: u32) = unat (drop_bit 1 w)"
      using w by (simp only: unsigned_ucast_eq unat_drop_bit_eq) (simp add: drop_bit_eq_div take_bit_eq_mod)
    moreover have "unat (drop_bit 1 w) < 64" using w by (simp only: unat_drop_bit_eq) (simp add: drop_bit_eq_div)
    ultimately show ?thesis by (simp add: word_unat_eq_iff word_le_nat_alt)
  qed
  then show ?thesis using False by (simp add: lj_strfmt_wuleb128.simps [of w])
qed


lemma rd_uleb33_top:
  assumes w: "0x80000000 \<le> w" and l: "\<not> 0x80 \<le> l"
  shows "bcread_uleb128_33 (butlast (lj_strfmt_wuleb128 w) @ l # r) =
    Inr ((drop_bit 1 w AND 0x3f) OR push_bit 6 (drop_bit 7 w AND 0x7f) OR push_bit 13 (drop_bit 14 w AND 0x7f)
      OR push_bit 20 (drop_bit 21 w AND 0x7f) OR push_bit 27 (ucast (l AND 0x7f)), r)"
  using byte_cont_low [of w] byte_cont [of "drop_bit 7 w"] byte_cont [of "drop_bit 14 w"] byte_cont [of "drop_bit 21 w"] l
  by (simp add: wuleb_5 [OF w] or.assoc)

lemma hd_wuleb: "hd (lj_strfmt_wuleb128 w) AND 1 \<noteq> 0 \<longleftrightarrow> bit w 0"
proof -
  have m: "(0x7f :: u32) = mask 7" by (simp add: mask_eq_exp_minus_1)
  have b: "b AND 1 \<noteq> 0 \<longleftrightarrow> bit b 0" for b :: u8 by (simp add: and_one_eq bit_0 odd_iff_mod_2_eq_one)
  have "bit (ucast ((w AND 0x7f) OR 0x80) :: u8) 0 = bit w 0"
    unfolding m by (simp add: bit_simps)
  moreover have "bit (ucast w :: u8) 0 = bit w 0" by (simp add: bit_simps)
  ultimately show ?thesis unfolding b by (subst lj_strfmt_wuleb128.simps) simp
qed

lemma wuleb_not_Nil [simp]: "lj_strfmt_wuleb128 w \<noteq> []"
  using wuleb_length_bounds(1) [of w] by auto

lemma top_bits:
  fixes k w :: u32
  assumes w: "\<And>i. 0 < i \<Longrightarrow> i < 31 \<Longrightarrow> bit w i = bit k (i - 1)"
  shows "(drop_bit 1 w AND 0x3f) OR push_bit 6 (drop_bit 7 w AND 0x7f) OR push_bit 13 (drop_bit 14 w AND 0x7f)
      OR push_bit 20 (drop_bit 21 w AND 0x7f)
      OR push_bit 27 (ucast (((ucast (drop_bit 28 w) AND 7) OR ucast (drop_bit 27 k AND 0x18) :: u8) AND 0x7f)) = k"
proof -
  have m: "(0x7f :: u32) = mask 7" "(0x3f :: u32) = mask 6" "(7 :: u8) = mask 3" "(0x18 :: u32) = push_bit 3 (mask 2)"
    "(0x7f :: u8) = mask 7" by (simp_all add: mask_eq_exp_minus_1)
  have p: "bit (push_bit n (drop_bit m w AND mask 7)) i \<longleftrightarrow> n \<le> i \<and> i < n + 7 \<and> bit w (i + 1)" if "i < 32" "m = n + 1" for n m i
    using that by (auto simp: bit_simps)
  have p0: "bit (drop_bit 1 w AND mask 6) i \<longleftrightarrow> i < 6 \<and> bit w (i + 1)" for i
    by (auto simp: bit_simps)
  define l :: u8 where "l = (ucast (drop_bit 28 w) AND mask 3) OR ucast (drop_bit 27 k AND push_bit 3 (mask 2))"
  have l: "bit l i \<longleftrightarrow> i < 3 \<and> bit w (28 + i) \<or> 3 \<le> i \<and> i < 5 \<and> bit k (27 + i)" for i
    unfolding l_def by (auto simp: bit_simps)
  have q: "bit (push_bit 27 (ucast (l AND mask 7)) :: u32) i \<longleftrightarrow> 27 \<le> i \<and> bit l (i - 27)" if "i < 32" for i
    using that by (auto simp: bit_simps)
  show ?thesis
    unfolding m l_def [symmetric]
  proof (rule bit_word_eqI)
    fix i assume "i < LENGTH(32)"
    then have i: "i < 32" by simp
    have e: "(7 :: nat) = 6 + 1" "(14 :: nat) = 13 + 1" "(21 :: nat) = 20 + 1" by simp_all
    have "bit ((drop_bit 1 w AND mask 6) OR push_bit 6 (drop_bit 7 w AND mask 7) OR push_bit 13 (drop_bit 14 w AND mask 7)
        OR push_bit 20 (drop_bit 21 w AND mask 7) OR push_bit 27 (ucast (l AND mask 7))) i \<longleftrightarrow>
        (if i < 30 then bit w (i + 1) else bit k i)"
    proof (cases "27 \<le> i")
      case True
      then obtain j where j: "i = 27 + j" using le_Suc_ex by blast
      show ?thesis unfolding bit_or_iff p0 p [OF i e(1)] p [OF i e(2)] p [OF i e(3)] q [OF i] l unfolding j using i j by (auto simp: not_less)
    next
      case False
      then show ?thesis unfolding bit_or_iff p0 p [OF i e(1)] p [OF i e(2)] p [OF i e(3)] q [OF i] l by (auto simp: not_less)
    qed
    then show "bit ((drop_bit 1 w AND mask 6) OR push_bit 6 (drop_bit 7 w AND mask 7) OR push_bit 13 (drop_bit 14 w AND mask 7)
        OR push_bit 20 (drop_bit 21 w AND mask 7) OR push_bit 27 (ucast (l AND mask 7))) i = bit k i"
      using w [of "i + 1"] by (cases "i < 30") simp_all
  qed
qed

lemma patched_small: "\<not> 0x80 \<le> ((a AND 7) OR ucast (x AND 0x18 :: u32) :: u8)"
proof -
  have m: "(7 :: u8) = mask 3" "(0x18 :: u32) = push_bit 3 (mask 2)" by (simp_all add: mask_eq_exp_minus_1)
  have "take_bit 5 ((a AND mask 3) OR ucast (x AND push_bit 3 (mask 2)) :: u8) = (a AND mask 3) OR ucast (x AND push_bit 3 (mask 2))"
    by (rule bit_word_eqI) (auto simp: bit_simps)
  then have "unat ((a AND 7) OR ucast (x AND 0x18) :: u8) = unat (take_bit 5 ((a AND 7) OR ucast (x AND 0x18) :: u8))"
    unfolding m by simp
  also have "\<dots> < 32" by (simp only: unsigned_take_bit_eq) (simp add: take_bit_eq_mod)
  finally show ?thesis by (simp add: word_le_nat_alt)
qed

lemma bit_top32: "bit (0x80000000 :: u32) i \<longleftrightarrow> i = 31" "bit (0x80000000 :: int) i \<longleftrightarrow> i = 31"
  using bit_exp_iff [of 31 i, where 'a = u32] bit_exp_iff [of 31 i, where 'a = int] by auto

lemma bit_double_top:
  fixes k :: u32
  assumes "i < 31"
  shows "bit (2 * k OR (k AND 0x80000000)) i \<longleftrightarrow> 0 < i \<and> bit k (i - 1)"
proof -
  have "bit (2 * k) i \<longleftrightarrow> 0 < i \<and> bit k (i - 1)"
    using assms by (simp add: bit_double_iff)
  moreover have "\<not> bit (k AND 0x80000000) i" using assms by (simp add: bit_and_iff bit_top32)
  ultimately show ?thesis by (simp only: bit_or_iff) simp
qed

lemma one_plus_double: "1 + (2 * k OR (k AND 0x80000000)) = (2 * k OR (k AND 0x80000000)) OR (1 :: u32)"
proof -
  have "(2 * k OR (k AND 0x80000000)) + 1 = (2 * k OR (k AND 0x80000000)) OR (1 :: u32)"
  proof (rule disjunctive_add_eq_or, rule bit_word_eqI)
    fix i assume "i < LENGTH(32)"
    show "bit ((2 * k OR (k AND 0x80000000)) AND 1) i = bit (0 :: u32) i"
      using bit_double_top [of i k] by (cases "i = 0") (simp_all add: bit_and_iff bit_1_iff)
  qed
  then show ?thesis by (simp only: add.commute)
qed

lemma bit31_ge: "bit w 31 \<longleftrightarrow> 0x80000000 \<le> (w :: u32)"
proof -
  have w: "unat w < 2 ^ 32" using unat_bound32 [of w] by simp
  have "bit w 31 \<longleftrightarrow> odd (unat w div 2 ^ 31)"
    using bit_unsigned_iff [of w 31, where 'a = nat] by (simp add: bit_iff_odd)
  also have "\<dots> \<longleftrightarrow> 2 ^ 31 \<le> unat w"
  proof (cases "unat w < 2 ^ 31")
    case False
    then have "unat w div 2 ^ 31 = 1" using w by (intro div_nat_eqI) simp_all
    then show ?thesis using False by simp
  qed simp
  finally show ?thesis by (simp add: word_le_nat_alt)
qed

lemma sless_bit31: "k <s 0 \<longleftrightarrow> 0x80000000 \<le> (k :: u32)"
  using uint_lt2p [of k] by (auto simp: word_sless_alt sint32 word_le_def)

lemma sdrop27: "signed_drop_bit 27 k AND 0x18 = drop_bit 27 (k :: u32) AND 0x18"
proof -
  have m: "(0x18 :: u32) = push_bit 3 (mask 2)" by (simp add: mask_eq_exp_minus_1)
  show ?thesis unfolding m by (rule bit_word_eqI) (auto simp: bit_simps)
qed

lemma double_top_ge:
  fixes k :: u32
  assumes "0x80000000 \<le> k"
  shows "0x80000000 \<le> (2 * k OR (k AND 0x80000000))" "0x80000000 \<le> 1 + (2 * k OR (k AND 0x80000000))"
proof -
  have "bit (2 * k OR (k AND 0x80000000)) 31" using assms by (simp add: bit31_ge [symmetric] bit_or_iff bit_and_iff bit_top32)
  then show "0x80000000 \<le> (2 * k OR (k AND 0x80000000))" "0x80000000 \<le> 1 + (2 * k OR (k AND 0x80000000))"
    unfolding one_plus_double bit31_ge [symmetric] by (simp_all add: bit_or_iff)
qed

lemma double_drop:
  fixes k :: u32
  assumes "\<not> 0x80000000 \<le> k"
  shows "drop_bit 1 (2 * k OR (k AND 0x80000000)) = k" "drop_bit 1 (1 + (2 * k OR (k AND 0x80000000))) = k"
proof -
  have k: "\<not> bit k 31" using assms by (simp add: bit31_ge)
  have a: "k AND 0x80000000 = 0"
    using k by (intro bit_word_eqI) (auto simp: bit_and_iff bit_top32)
  have d: "drop_bit 1 (2 * k) = k"
  proof (rule bit_word_eqI)
    fix i assume "i < LENGTH(32)"
    then show "bit (drop_bit 1 (2 * k)) i = bit k i" using k
      by (cases "i = 31") (simp_all add: bit_drop_bit_eq bit_double_iff bit_imp_le_length)
  qed
  have one: "drop_bit 1 (1 :: u32) = 0" by simp
  show "drop_bit 1 (2 * k OR (k AND 0x80000000)) = k" "drop_bit 1 (1 + (2 * k OR (k AND 0x80000000))) = k"
    unfolding one_plus_double unfolding a or.right_neutral drop_bit_or d one by (simp_all only: or.right_neutral)
qed

text \<open>The 33 bit encoding of \<open>k\<close> below the low bit \<open>b\<close>, as written for both kinds of numbers.\<close>

definition w33 :: "bool \<Rightarrow> u32 \<Rightarrow> u32" where
  "w33 b k = (if b then 1 + (2 * k OR (k AND 0x80000000)) else 2 * k OR (k AND 0x80000000))"

definition wuleb33 :: "bool \<Rightarrow> u32 \<Rightarrow> bytes" where
  "wuleb33 b k = (if 0x80000000 \<le> k then butlast (lj_strfmt_wuleb128 (w33 b k)) @
      [(last (lj_strfmt_wuleb128 (w33 b k)) AND 7) OR ucast (drop_bit 27 k AND 0x18)] else lj_strfmt_wuleb128 (w33 b k))"

lemma bit_w33: "0 < i \<Longrightarrow> i < 31 \<Longrightarrow> bit (w33 b k) i = bit k (i - 1)" "bit (w33 b k) 0 = b"
  using bit_double_top [of i k] bit_double_top [of 0 k]
  unfolding w33_def one_plus_double by (simp_all add: bit_or_iff bit_1_iff)

lemma w33_ge: "0x80000000 \<le> k \<Longrightarrow> 0x80000000 \<le> w33 b k"
  using double_top_ge by (simp add: w33_def)

lemma rd_wuleb33: "bcread_uleb128_33 (wuleb33 b k @ r) = Inr (k, r)"
proof (cases "0x80000000 \<le> k")
  case True
  then have "last (lj_strfmt_wuleb128 (w33 b k)) = ucast (drop_bit 28 (w33 b k))" by (simp add: wuleb_5 w33_ge)
  then show ?thesis using True rd_uleb33_top [OF w33_ge [OF True] patched_small] top_bits [OF bit_w33(1), of b k]
    by (simp add: wuleb33_def)
next
  case False
  then have "drop_bit 1 (w33 b k) = k" using double_drop by (simp add: w33_def)
  then show ?thesis using False rd_uleb33 [of "w33 b k" r] by (simp add: wuleb33_def)
qed

lemma hd_wuleb33: "wuleb33 b k @ r \<noteq> [] \<and> (hd (wuleb33 b k @ r) AND 1 \<noteq> 0) = b"
proof (cases "0x80000000 \<le> k")
  case True
  then show ?thesis using hd_wuleb [of "w33 b k"] wuleb_5 [OF w33_ge [OF True, of b]] bit_w33(2) [of b k]
    by (simp add: wuleb33_def)
next
  case False
  then show ?thesis using hd_wuleb [of "w33 b k"] bit_w33(2) [of b k] by (simp add: wuleb33_def)
qed

lemma knum1_wuleb33:
  "bcwrite_knum1 v = (let k = lj_num2int v in
     if dbl_eq v (int2dbl k) then wuleb33 False k else wuleb33 True (u32lo v) @ lj_strfmt_wuleb128 (u32hi v))"
  by (simp add: bcwrite_knum1_def wuleb33_def w33_def Let_def sless_bit31 sdrop27)

lemma rd_knum1: "\<not> tvismzero v \<Longrightarrow> bcread_knum1 (bcwrite_knum1 v @ r) = Inr (v, r)"
  using dbl_eq_int [of v "lj_num2int v"] hd_wuleb33
  by (auto simp: knum1_wuleb33 bcread_knum1_def Let_def rd_wuleb33 setintV_def u64_join)

lemma rd_knum: "\<forall>v \<in> set vs. \<not> tvismzero v \<Longrightarrow> bcread_knum (length vs) (bcwrite_knum vs @ r) = Inr (vs, r)"
  by (induction vs) (simp_all add: bcwrite_knum_def rd_knum1)

section \<open>Template tables\<close>

text \<open>What a template table may hold: strings, numbers other than -0, and the primitive values.\<close>

definition ktab_val :: "(gcref \<Rightarrow> bytes) \<Rightarrow> (bytes \<Rightarrow> gcref) \<Rightarrow> tvalue \<Rightarrow> bool" where
  "ktab_val sd intern v \<longleftrightarrow>
     tvisstr v \<and> intern (sd (gcval v)) = gcval v \<and> length (sd (gcval v)) \<le> LJ_MAX_STR
   \<or> tvisnum v \<and> \<not> tvismzero v \<or> tvispri v \<and> tv_canon v"

lemma pri_cases:
  assumes "tvispri v" "tv_canon v"
  shows "v = setpriV LJ_TNIL \<and> itype v = LJ_TNIL \<or> v = setpriV LJ_TFALSE \<and> itype v = LJ_TFALSE
    \<or> v = setpriV LJ_TTRUE \<and> itype v = LJ_TTRUE"
proof -
  have g: "unat (gcval v) = 2 ^ 47 - 1" using assms by (simp add: tv_canon_def)
  have "hi17 v = 2 ^ 17 - 1 \<or> hi17 v = 2 ^ 17 - 2 \<or> hi17 v = 2 ^ 17 - 3"
    using assms(1) hi17_less [of v] by (auto simp: tvispri_iff)
  then have "unat v = unat (setpriV LJ_TNIL) \<or> unat v = unat (setpriV LJ_TFALSE) \<or> unat v = unat (setpriV LJ_TTRUE)"
    using hi17_lo47 [of v] g by (auto simp: setpriV_def lj_tags)
  then have "v = setpriV LJ_TNIL \<or> v = setpriV LJ_TFALSE \<or> v = setpriV LJ_TTRUE"
    by (simp only: word_unat_eq_iff)
  moreover have "itype (setpriV LJ_TNIL) = LJ_TNIL" "itype (setpriV LJ_TFALSE) = LJ_TFALSE" "itype (setpriV LJ_TTRUE) = LJ_TTRUE"
    by (simp_all add: setpriV_def lj_tags word_unat_eq_iff itype_unat)
  ultimately show ?thesis by auto
qed

lemma rd_byte: "b < 0x80 \<Longrightarrow> bcread_uleb128 (b # r) = Inr (ucast b, r)"
  by (simp add: bcread_uleb128_def not_le [symmetric])

lemma rd_tag: "n + length q < 2 ^ 32 \<Longrightarrow>
    bcread_uleb128 (lj_strfmt_wuleb128 (of_nat (n + length q)) @ r) = Inr (of_nat (n + length q), r)
    \<and> unat (of_nat (n + length q) :: u32) = n + length q"
  using unat_of_nat32 [of "n + length q"] by simp

lemma rd_ktabk:
  assumes "ktab_val sd intern v"
  shows "bcread_ktabk intern (bcwrite_ktabk sd v narrow @ r) = Inr (v, r)"
proof -
  consider (str) "tvisstr v" "intern (sd (gcval v)) = gcval v" "length (sd (gcval v)) \<le> LJ_MAX_STR"
    | (num) "tvisnum v" "\<not> tvismzero v" | (pri) "tvispri v" "tv_canon v"
    using assms by (auto simp: ktab_val_def)
  then show ?thesis
  proof cases
    case str
    have l: "BCDUMP_KTAB_STR + length (sd (gcval v)) < 2 ^ 32" using str(3) by (simp add: lj_limits ktab_defs)
    show ?thesis using str rd_tag [OF l, of "sd (gcval v) @ r"]
      by (simp add: bcwrite_ktabk_def bcread_ktabk_def setstrV_gcval Let_def del: of_nat_add)
  next
    case num
    then have "\<not> tvisstr v" using tvisstr_not(2) by blast
    then show ?thesis
      using num dbl_eq_int [of v "lj_num2int v"]
      by (auto simp: bcwrite_ktabk_def bcread_ktabk_def ktab_defs rd_byte setintV_def u64_join Let_def)
  next
    case pri
    then have "\<not> tvisstr v" "\<not> tvisnum v" using tvisstr_not(1) tvisnum_not_pri(1) by blast+
    then show ?thesis using pri_cases [OF pri]
      by (auto simp: bcwrite_ktabk_def bcread_ktabk_def ktab_defs rd_byte lj_tags)
  qed
qed

lemma rd_karray:
  "\<forall>v \<in> set vs. ktab_val sd intern v \<Longrightarrow>
    bcread_karray intern (length vs) (concat (map (\<lambda>v. bcwrite_ktabk sd v True) vs) @ r) = Inr (vs, r)"
  by (induction vs) (simp_all add: rd_ktabk)

definition wr_pairs :: "(gcref \<Rightarrow> bytes) \<Rightarrow> (tvalue \<times> tvalue) list \<Rightarrow> bytes" where
  "wr_pairs sd ps = concat (map (\<lambda>p. bcwrite_ktabk sd (fst p) False @ bcwrite_ktabk sd (snd p) True) ps)"

lemma rd_khash:
  assumes "\<forall>p \<in> set ps. ktab_val sd intern (fst p) \<and> ktab_val sd intern (snd p)"
    and "put_pairs (lj_tab_set sid) t ps = Inr t'"
  shows "bcread_khash sid intern (length ps) t (wr_pairs sd ps @ r) = Inr (t', r)"
  using assms
  by (induction ps arbitrary: t) (auto simp: wr_pairs_def rd_ktabk split: sum.splits)

lemma bcwrite_khash_pairs:
  "bcwrite_khash sd (length (node_pairs ns)) ns = wr_pairs sd (node_pairs ns)"
proof (induction ns)
  case (Cons n ns)
  have "bcwrite_khash sd 0 ns = []" if "node_pairs ns = []"
    using that Cons by (simp add: wr_pairs_def)
  moreover have "wr_pairs sd (node_pairs ns) = []" if "length (node_pairs ns) = 0" using that by (simp add: wr_pairs_def)
  ultimately show ?case using Cons by (auto simp: node_pairs_def wr_pairs_def)
qed (simp add: node_pairs_def wr_pairs_def)

lemma ktab_narray_result:
  "ktab_narray arr n \<le> n \<and> (\<forall>i. ktab_narray arr n \<le> i \<and> i < n \<longrightarrow> tvisnil (arr ! i))"
proof (induction n)
  case (Suc n)
  then show ?case by (auto simp: less_Suc_eq)
qed simp

definition ktab_ok :: "bcread_env \<Rightarrow> (gcref \<Rightarrow> bytes) \<Rightarrow> gctab \<Rightarrow> bool" where
  "ktab_ok ls sd t \<longleftrightarrow> tab_ok (br_sid ls) t
     \<and> (\<forall>v \<in> set (take (unat (t_asize t)) (t_array t)). ktab_val sd (br_intern ls) v)
     \<and> (\<forall>p \<in> set (node_pairs (t_node t)). ktab_val sd (br_intern ls) (fst p) \<and> ktab_val sd (br_intern ls) (snd p))"

lemma hsize2hbits_max: "n \<le> 2 ^ LJ_MAX_HBITS \<Longrightarrow> hsize2hbits n \<le> LJ_MAX_HBITS"
  using flsn_le [of "n - 1" 25] by (simp add: hsize2hbits_def lj_limits)

lemma node_pairs_le: "length (node_pairs ns) \<le> length ns"
  by (simp add: node_pairs_def)

lemma rev_node_pairs: "node_pairs (rev ns) = rev (node_pairs ns)"
  by (simp add: node_pairs_def rev_filter rev_map)

lemma bcwrite_ktab_parts:
  assumes "tab_ok sid t"
  defines "na \<equiv> ktab_narray (t_array t) (unat (t_asize t))" and "np \<equiv> rev (node_pairs (t_node t))"
  shows "bcwrite_ktab sd t = lj_strfmt_wuleb128 (of_nat na) @ lj_strfmt_wuleb128 (of_nat (length np))
      @ concat (map (\<lambda>v. bcwrite_ktabk sd v True) (take na (t_array t))) @ wr_pairs sd np"
proof -
  have n: "(if 0 < t_hmask t then length (filter (\<lambda>n. \<not> tvisnil (n_val n)) (t_node t)) else 0) = length np"
  proof (cases "0 < t_hmask t")
    case False
    then have "t_node t = [nilnode]" using tab_ok_empty [OF assms(1)] by (simp add: word_gt_0)
    then show ?thesis using False by (simp add: np_def node_pairs_def nilnode_def nil_iff)
  qed (simp add: np_def node_pairs_def)
  have a: "(if 0 < t_asize t then ktab_narray (t_array t) (unat (t_asize t)) else 0) = na"
    by (cases "t_asize t = 0") (simp_all add: na_def word_gt_0)
  have h: "(if length np \<noteq> 0 then bcwrite_khash sd (length np) (rev (t_node t)) else []) = wr_pairs sd np"
    using bcwrite_khash_pairs [of sd "rev (t_node t)"] by (auto simp: np_def rev_node_pairs wr_pairs_def)
  show ?thesis unfolding bcwrite_ktab_def a n Let_def h by simp
qed

text \<open>The table read back has its own layout, but the same contents.\<close>

lemma rd_ktab:
  assumes kt: "ktab_ok ls sd t"
  shows "\<exists>t'. bcread_ktab ls (bcwrite_ktab sd t @ r) = Inr (t', r) \<and> tab_ok (br_sid ls) t'
    \<and> (\<forall>k. key_valid k \<longrightarrow> tab_abs t' k = tab_abs t k)"
proof -
  define sid where "sid = br_sid ls"
  define na where "na = ktab_narray (t_array t) (unat (t_asize t))"
  define np where "np = rev (node_pairs (t_node t))"
  define vs where "vs = take na (t_array t)"
  have ok: "tab_ok sid t" using kt by (simp add: ktab_ok_def sid_def)
  have na: "na \<le> unat (t_asize t)" "\<And>i. na \<le> i \<Longrightarrow> i < unat (t_asize t) \<Longrightarrow> tvisnil (t_array t ! i)"
    using ktab_narray_result [of "t_array t" "unat (t_asize t)"] by (simp_all add: na_def)
  have lvs: "length vs = na" using na(1) tab_ok_array [OF ok] by (simp add: vs_def)
  have nam: "na \<le> LJ_MAX_ASIZE" using na(1) tab_ok_asize [OF ok] by linarith
  have nps: "length np \<le> 2 ^ LJ_MAX_HBITS"
  proof -
    obtain b where b: "b \<le> LJ_MAX_HBITS" "length (t_node t) = 2 ^ b" using tab_ok_size [OF ok] by blast
    then have "length (t_node t) \<le> 2 ^ LJ_MAX_HBITS" using power_increasing [OF b(1), of "2::nat"] by simp
    then show ?thesis using node_pairs_le [of "t_node t"] by (simp add: np_def)
  qed
  have un: "unat (of_nat na :: u32) = na" "unat (of_nat (length np) :: u32) = length np"
    using nam nps by (simp_all add: unat_of_nat32 lj_limits)
  define hb where "hb = hsize2hbits (length np)"
  have hb: "hb \<le> LJ_MAX_HBITS" "length np \<le> hash_room hb"
    using hsize2hbits_max [OF nps] hash_room_hbits [of "length np"] by (simp_all add: hb_def)
  from newtab_result [OF nam hb(1), of "br_white ls"] obtain t0 where
    t0: "newtab (br_white ls) na hb = Inr t0" "t_asize t0 = of_nat na" "length (t_array t0) = na"
      "t_node t0 = replicate (2 ^ hb) nilnode" "t_hmask t0 = of_nat (2 ^ hb) - 1"
      "t_freetop t0 = (if hb = 0 then 0 else 2 ^ hb)" by blast
  have new: "lj_tab_new (br_white ls) na hb = Inr (clearapart t0)"
    using t0(1) clearhpart_fresh [of "clearapart t0" "2 ^ hb"] t0(4) by (simp add: lj_tab_new_def Let_def)
  define t1 where "t1 = (clearapart t0)\<lparr>t_array := vs\<rparr>"
  have f: "unat (t_asize t1) \<le> length (t_array t1)" "unat (t_asize t1) \<le> LJ_MAX_ASIZE"
    "t_node t1 = replicate (2 ^ hb) nilnode" "hb \<le> LJ_MAX_HBITS" "t_hmask t1 = of_nat (2 ^ hb) - 1"
    "t_freetop t1 = (if hb = 0 then 0 else 2 ^ hb)"
    using t0 un lvs nam hb by (simp_all add: t1_def)
  note fr = fresh_ok [OF f]
  have a1: "t_asize t1 = of_nat na" "t_array t1 = vs" using t0 by (simp_all add: t1_def)
  have out: "out_keys t1 np \<subseteq> fst ` set np" by (auto simp: out_keys_def)
  have "card (out_keys t1 np) \<le> length np"
  proof -
    have "card (out_keys t1 np) \<le> card (fst ` set np)" by (rule card_mono [OF _ out]) simp
    also have "\<dots> \<le> card (set np)" by (rule card_image_le) simp
    also have "\<dots> \<le> length np" by (rule card_length)
    finally show ?thesis .
  qed
  then have cap: "card (keyset (t_node t1) \<union> out_keys t1 np) \<le> hash_cap t1"
    using fr(2,3) hb(2) by (simp add: hash_room_def)
  have di: "distinct (map fst np)" using node_pairs_distinct [OF tab_ok_nodes [OF ok]]
    by (simp add: np_def rev_map [symmetric])
  have dom: "\<forall>k \<in> fst ` set np. key_valid k \<and> key_norm k = k \<and> True"
    using node_pairs_live(1) [OF ok] by (simp add: np_def hkey_ok_def)
  have dj: "keyset (t_node t1) \<inter> out_keys t1 np = {}" using fr(2) by simp
  from tset.put_pairs_ok [OF fr(1) dom di dj cap] obtain t2 where
    t2: "put_pairs (lj_tab_set sid) t1 np = Inr t2" "tab_ok sid t2"
    and a2: "\<And>j. key_valid j \<Longrightarrow> tab_abs t2 j = (case map_of np (key_norm j) of None \<Rightarrow> tab_abs t1 j | Some v \<Rightarrow> v)"
    unfolding lj_tab_set_def newkey_unfold by blast
  have kv: "\<forall>v \<in> set vs. ktab_val sd (br_intern ls) v"
    using kt na(1) set_take_subset_set_take [of na "unat (t_asize t)" "t_array t"] by (auto simp: ktab_ok_def vs_def)
  have kp: "\<forall>p \<in> set np. ktab_val sd (br_intern ls) (fst p) \<and> ktab_val sd (br_intern ls) (snd p)"
    using kt by (simp add: ktab_ok_def np_def)
  have rd: "bcread_ktab ls (bcwrite_ktab sd t @ r) = Inr (t2, r)"
  proof -
    have "bcwrite_ktab sd t @ r = lj_strfmt_wuleb128 (of_nat na) @ lj_strfmt_wuleb128 (of_nat (length np))
      @ concat (map (\<lambda>v. bcwrite_ktabk sd v True) vs) @ wr_pairs sd np @ r"
      using bcwrite_ktab_parts [OF ok, of sd] by (simp add: na_def np_def vs_def)
    then have "bcread_ktab ls (bcwrite_ktab sd t @ r) =
        rbind (bcread_karray (br_intern ls) na (concat (map (\<lambda>v. bcwrite_ktabk sd v True) vs) @ wr_pairs sd np @ r)) (\<lambda>vs bs.
          bcread_khash sid (br_intern ls) (length np) ((clearapart t0)\<lparr>t_array := vs\<rparr>) bs)"
      by (simp only: bcread_ktab_def rd_uleb rbind_simps un hb_def [symmetric] new sum.case sid_def [symmetric])
    then show ?thesis using rd_karray [OF kv, of "wr_pairs sd np @ r"] rd_khash [OF kp t2(1), of r]
      by (simp only: lvs rbind_simps t1_def [symmetric])
  qed
  have "tab_abs t2 k = tab_abs t k" if k: "key_valid k" for k
  proof -
    let ?k = "key_norm k"
    have kn: "key_norm ?k = ?k" "key_valid ?k" using key_valid_norm [OF k] by simp_all
    have mp: "map_of np = map_of (node_pairs (t_node t))"
    proof
      note d = node_pairs_distinct [OF tab_ok_nodes [OF ok]]
      fix x show "map_of np x = map_of (node_pairs (t_node t)) x"
      proof (cases "map_of (node_pairs (t_node t)) x")
        case None
        then have "map_of np x = None" by (simp add: np_def map_of_eq_None_iff)
        then show ?thesis using None by simp
      next
        case (Some v)
        then have "(x, v) \<in> set np" using map_of_SomeD by (simp add: np_def)
        then show ?thesis using Some map_of_is_SomeI [OF di] by simp
      qed
    qed
    show ?thesis
    proof (cases "in_array t ?k")
      case True
      then have n: "map_of np ?k = None"
        unfolding mp using node_pairs_live(1) [OF ok, of ?k] by (auto simp: map_of_eq_None_iff hkey_ok_def)
      have i: "key_is_int ?k" "unat (lj_num2int ?k) < unat (t_asize t)" using True by (simp_all add: in_array_unat)
      have "tab_abs t1 ?k = tab_abs t ?k"
        using i na(2) [of "unat (lj_num2int ?k)"] fr(4) [of ?k] True un
        by (auto simp: in_array_unat a1 tab_abs_def vs_def nil_iff not_less)
      then show ?thesis using a2 [OF k] n by (simp add: tab_abs_norm)
    next
      case False
      then have "\<not> in_array t1 ?k" using na(1) un by (auto simp: in_array_unat a1)
      then have "tab_abs t1 k = niltv" using fr(4) [of k] by (simp add: in_array_norm)
      then show ?thesis using a2 [OF k] node_pairs_lookup [OF ok kn False] unfolding mp by (simp add: tab_abs_norm)
    qed
  qed
  then show ?thesis using rd t2(2) by (auto simp: sid_def)
qed

section \<open>Prototypes\<close>

text \<open>What may be dumped: sizes within their fields, constants of the kinds the parser makes.\<close>

fun is_child :: "kgc \<Rightarrow> bool" where
  "is_child (KChild p) = True"
| "is_child _ = False"

fun proto_ok :: "bcread_env \<Rightarrow> (gcref \<Rightarrow> bytes) \<Rightarrow> (nat \<Rightarrow> bcins) \<Rightarrow> bool \<Rightarrow> gcproto \<Rightarrow> bool"
  and kgc_ok :: "bcread_env \<Rightarrow> (gcref \<Rightarrow> bytes) \<Rightarrow> (nat \<Rightarrow> bcins) \<Rightarrow> bool \<Rightarrow> kgc \<Rightarrow> bool" where
  "proto_ok ls sd si strip (GCproto flags np fs tr uv ks kn bc fl nl dbg) \<longleftrightarrow>
     length uv < 2 ^ 8 \<and> length ks < 2 ^ 32 \<and> length kn < 2 ^ 32 \<and> bc \<noteq> [] \<and> length bc < 2 ^ 32 \<and> length dbg < 2 ^ 32
   \<and> length (bcwrite_pdata sd si strip (GCproto flags np fs tr uv ks kn bc fl nl dbg)) < 2 ^ 32
   \<and> (\<forall>v \<in> set kn. \<not> tvismzero v) \<and> (\<forall>k \<in> set ks. kgc_ok ls sd si strip k)
   \<and> (list_ex is_child ks \<longrightarrow> flags AND PROTO_CHILD \<noteq> 0)"
| "kgc_ok ls sd si strip (KChild p) \<longleftrightarrow> proto_ok ls sd si strip p"
| "kgc_ok ls sd si strip (KStr s) \<longleftrightarrow> length s \<le> LJ_MAX_STR"
| "kgc_ok ls sd si strip (KTab t) \<longleftrightarrow> ktab_ok ls sd t"
| "kgc_ok ls sd si strip (KI64 q) \<longleftrightarrow> True"
| "kgc_ok ls sd si strip (KU64 q) \<longleftrightarrow> True"
| "kgc_ok ls sd si strip (KComplex q r) \<longleftrightarrow> True"

text \<open>
  What is preserved: the persistent flags, sizes, constants, unpatched code behind a fresh header
  instruction, and the debug info unless it is stripped. Tables keep their contents.
\<close>

definition dump_code :: "(nat \<Rightarrow> bcins) \<Rightarrow> u8 \<Rightarrow> u8 \<Rightarrow> u16 \<Rightarrow> bcins list \<Rightarrow> bcins list" where
  "dump_code si flags fs tr bc =
     BCINS_AD (if flags AND PROTO_VARARG \<noteq> 0 then BC_FUNCV else BC_FUNCF) (unat fs) 0
     # (if flags AND PROTO_ILOOP \<noteq> 0 \<or> tr \<noteq> 0 then map (bc_unpatch si) (tl bc) else tl bc)"

inductive same_proto :: "(gcref \<Rightarrow> u32) \<Rightarrow> (nat \<Rightarrow> bcins) \<Rightarrow> bool \<Rightarrow> gcproto \<Rightarrow> gcproto \<Rightarrow> bool"
  and same_kgc :: "(gcref \<Rightarrow> u32) \<Rightarrow> (nat \<Rightarrow> bcins) \<Rightarrow> bool \<Rightarrow> kgc \<Rightarrow> kgc \<Rightarrow> bool"
  for sid si strip where
  same_str: "same_kgc sid si strip (KStr s) (KStr s)"
| same_i64: "same_kgc sid si strip (KI64 q) (KI64 q)"
| same_u64: "same_kgc sid si strip (KU64 q) (KU64 q)"
| same_complex: "same_kgc sid si strip (KComplex q r) (KComplex q r)"
| same_tab: "tab_ok sid t' \<Longrightarrow> (\<And>k. key_valid k \<Longrightarrow> tab_abs t' k = tab_abs t k) \<Longrightarrow> same_kgc sid si strip (KTab t) (KTab t')"
| same_child: "same_proto sid si strip p p' \<Longrightarrow> same_kgc sid si strip (KChild p) (KChild p')"
| same_protoI: "length ks' = length ks \<Longrightarrow> (\<And>i. i < length ks \<Longrightarrow> same_kgc sid si strip (ks ! i) (ks' ! i)) \<Longrightarrow>
    flags' = flags AND (PROTO_CHILD OR PROTO_VARARG OR PROTO_FFI) \<Longrightarrow> bc' = dump_code si flags fs tr bc \<Longrightarrow>
    dbg' = (if strip then [] else dbg) \<Longrightarrow> fl' = (if dbg' = [] then 0 else fl) \<Longrightarrow> nl' = (if dbg' = [] then 0 else nl) \<Longrightarrow>
    same_proto sid si strip (GCproto flags np fs tr uv ks kn bc fl nl dbg) (GCproto flags' np fs 0 uv ks' kn bc' fl' nl' dbg')"

inductive_cases same_protoE: "same_proto sid si strip (GCproto flags np fs tr uv ks kn bc fl nl dbg) p'"
inductive_cases same_kgc_childE: "same_kgc sid si strip (KChild p) k'"

fun children :: "kgc list \<Rightarrow> gcproto list" where
  "children [] = []"
| "children (KChild p # ks) = p # children ks"
| "children (k # ks) = children ks"

lemma rd_wuleb_nat: "n < 2 ^ 32 \<Longrightarrow> bcread_uleb128 (lj_strfmt_wuleb128 (of_nat n) @ r) = Inr (of_nat n, r) \<and> unat (of_nat n :: u32) = n"
  using unat_of_nat32 [of n] by simp

lemma rd_kgc1:
  assumes "kgc_ok ls sd si strip k" "\<not> is_child k"
  shows "\<exists>k'. bcread_kgc1 ls st (bcwrite_kgc1 sd k @ r) = Inr ((k', st), r) \<and> same_kgc (br_sid ls) si strip k k'"
proof (cases k)
  case (KStr s)
  then have l: "BCDUMP_KGC_STR + length s < 2 ^ 32" using assms by (simp add: lj_limits kgc_defs)
  show ?thesis using rd_tag [OF l, of "s @ r"] KStr
    by (auto simp: bcread_kgc1_def intro: same_str simp del: of_nat_add)
next
  case (KTab t)
  then have "ktab_ok ls sd t" using assms by simp
  from rd_ktab [OF this, of r] obtain t' where
    "bcread_ktab ls (bcwrite_ktab sd t @ r) = Inr (t', r)" "tab_ok (br_sid ls) t'"
    "\<forall>k. key_valid k \<longrightarrow> tab_abs t' k = tab_abs t k" by blast
  then show ?thesis using KTab by (auto simp: bcread_kgc1_def kgc_defs intro: same_tab)
qed (use assms in \<open>auto simp: bcread_kgc1_def kgc_defs rd_u64 intro: same_i64 same_u64 same_complex\<close>)

lemma list_same_Cons:
  assumes "P k k'" "length ks' = length ks" "\<And>i. i < length ks \<Longrightarrow> P (ks ! i) (ks' ! i)"
  shows "length (k' # ks') = length (k # ks) \<and> (\<forall>i < length (k # ks). P ((k # ks) ! i) ((k' # ks') ! i))"
  using assms by (auto simp: nth_Cons split: nat.split)

lemma rd_kgc:
  assumes "\<forall>k \<in> set ks. kgc_ok ls sd si strip k" "length cs = length (children ks)"
    and "\<forall>i < length cs. same_proto (br_sid ls) si strip (children ks ! i) (cs ! i)"
  shows "\<exists>ks'. bcread_kgc ls (length ks) (cs @ st) (bcwrite_kgc sd ks @ r) = Inr ((ks', st), r)
    \<and> length ks' = length ks \<and> (\<forall>i < length ks. same_kgc (br_sid ls) si strip (ks ! i) (ks' ! i))"
  using assms
proof (induction ks arbitrary: cs)
  case Nil
  then show ?case by (simp add: bcwrite_kgc_def)
next
  case (Cons k ks)
  show ?case
  proof (cases "is_child k")
    case True
    then obtain p where k: "k = KChild p" by (cases k) auto
    then obtain c cs' where cs: "cs = c # cs'" using Cons.prems(2) by (cases cs) auto
    have c: "same_proto (br_sid ls) si strip p c" using Cons.prems(3) k cs by fastforce
    have "\<forall>i < length cs'. same_proto (br_sid ls) si strip (children ks ! i) (cs' ! i)"
      using Cons.prems(3) k cs by fastforce
    then obtain ks' where ks': "bcread_kgc ls (length ks) (cs' @ st) (bcwrite_kgc sd ks @ r) = Inr ((ks', st), r)"
      "length ks' = length ks" "\<And>i. i < length ks \<Longrightarrow> same_kgc (br_sid ls) si strip (ks ! i) (ks' ! i)"
      using Cons.IH [of cs'] Cons.prems k cs by auto
    have "bcread_kgc ls (length (k # ks)) (cs @ st) (bcwrite_kgc sd (k # ks) @ r) = Inr ((KChild c # ks', st), r)"
      using ks'(1) k cs by (simp add: bcwrite_kgc_def bcread_kgc1_def kgc_defs)
    moreover have "same_kgc (br_sid ls) si strip k (KChild c)" using c k by (simp add: same_child)
    ultimately show ?thesis using list_same_Cons [of "same_kgc (br_sid ls) si strip", OF _ ks'(2,3)] by blast
  next
    case False
    then have ch: "children (k # ks) = children ks" by (cases k) auto
    from Cons.prems(1) have "kgc_ok ls sd si strip k" by simp
    from rd_kgc1 [OF this False, of "cs @ st" "bcwrite_kgc sd ks @ r"] obtain k' where
      k': "bcread_kgc1 ls (cs @ st) (bcwrite_kgc1 sd k @ bcwrite_kgc sd ks @ r) = Inr ((k', cs @ st), bcwrite_kgc sd ks @ r)"
        "same_kgc (br_sid ls) si strip k k'" by blast
    from Cons.IH [of cs] Cons.prems ch obtain ks' where
      ks': "bcread_kgc ls (length ks) (cs @ st) (bcwrite_kgc sd ks @ r) = Inr ((ks', st), r)"
      "length ks' = length ks" "\<And>i. i < length ks \<Longrightarrow> same_kgc (br_sid ls) si strip (ks ! i) (ks' ! i)"
      by auto
    have "bcread_kgc ls (length (k # ks)) (cs @ st) (bcwrite_kgc sd (k # ks) @ r) = Inr ((k' # ks', st), r)"
      using ks'(1) k'(1) by (simp add: bcwrite_kgc_def)
    then show ?thesis using list_same_Cons [of "same_kgc (br_sid ls) si strip", OF k'(2) ks'(2,3)] by blast
  qed
qed

text \<open>The debug header as one reader, and the parts of the body.\<close>

lemma of_nat32_0: "n < 2 ^ 32 \<Longrightarrow> (of_nat n :: u32) = 0 \<longleftrightarrow> n = 0"
  using unat_of_nat32 [of n] by auto

definition bcread_dbghdr :: "u32 \<Rightarrow> (u32 \<times> u32 \<times> u32) reader" where
  "bcread_dbghdr lflags bs =
     (if lflags AND BCDUMP_F_STRIP = 0 then
        rbind (bcread_uleb128 bs) (\<lambda>sizedbg bs.
          if sizedbg \<noteq> 0 then
            rbind (bcread_uleb128 bs) (\<lambda>firstline bs. rbind (bcread_uleb128 bs) (\<lambda>numline bs.
              Inr ((sizedbg, firstline, numline), bs)))
          else Inr ((sizedbg, 0, 0), bs))
      else Inr ((0, 0, 0), bs))"

lemma rd_dbghdr:
  assumes "length dbg < 2 ^ 32" "lflags AND BCDUMP_F_STRIP = 0 \<longleftrightarrow> \<not> strip" and d: "d = (if strip then [] else dbg)"
  shows "bcread_dbghdr lflags ((if \<not> strip then lj_strfmt_wuleb128 (of_nat (length d))
      @ (if length d \<noteq> 0 then lj_strfmt_wuleb128 fl @ lj_strfmt_wuleb128 nl else []) else []) @ r)
    = Inr ((of_nat (length d), (if d = [] then 0 else fl), (if d = [] then 0 else nl)), r)"
  using assms by (auto simp: bcread_dbghdr_def of_nat32_0)

lemma rd_bytecode:
  assumes "\<not> bcread_swap lflags" and code: "code = concat (map le32 bc)"
  shows "bcread_bytecode lflags flags fs (Suc (length bc)) (code @ r) =
    Inr (BCINS_AD (if flags AND PROTO_VARARG \<noteq> 0 then BC_FUNCV else BC_FUNCF) (unat fs) 0 # bc, r)"
proof -
  have "bcread_mem (length bc * 4) (code @ r) = Inr (code, r)"
    by (rule rd_mem) (simp add: code le_length)
  then show ?thesis using assms by (simp add: bcread_bytecode_def le32_get)
qed

lemma rd_uv:
  assumes "\<not> bcread_swap lflags"
  shows "bcread_uv lflags (length uv) (concat (map le16 uv) @ r) = Inr (uv, r)"
proof -
  have "bcread_mem (length uv * 2) (concat (map le16 uv) @ r) = Inr (concat (map le16 uv), r)"
    by (rule rd_mem) (simp add: le_length)
  then show ?thesis using assms by (cases "uv = []") (simp_all add: bcread_uv_def le16_get)
qed

lemma flags_vararg: "(flags AND (PROTO_CHILD OR PROTO_VARARG OR PROTO_FFI)) AND PROTO_VARARG = flags AND PROTO_VARARG"
proof -
  have "(PROTO_CHILD OR PROTO_VARARG OR PROTO_FFI) AND PROTO_VARARG = PROTO_VARARG" by (simp add: proto_flag_defs)
  then show ?thesis by (simp add: and.assoc)
qed

lemma rd_proto:
  assumes pt: "pt = GCproto flags np fs tr uv ks kn bc fl nl dbg"
    and ok: "proto_ok ls sd si strip pt"
    and lf: "lflags AND BCDUMP_F_STRIP = 0 \<longleftrightarrow> \<not> strip" "\<not> bcread_swap lflags"
    and cs: "length cs = length (children ks)" "\<forall>i < length cs. same_proto (br_sid ls) si strip (children ks ! i) (cs ! i)"
  shows "\<exists>pt'. lj_bcread_proto ls lflags (cs @ st) (bcwrite_pdata sd si strip pt @ r) = Inr ((pt', st), r)
    \<and> same_proto (br_sid ls) si strip pt pt'"
proof -
  define d where "d = (if strip then [] else dbg)"
  define code where "code = (if flags AND PROTO_ILOOP \<noteq> 0 \<or> tr \<noteq> 0 then map (bc_unpatch si) (tl bc) else tl bc)"
  define fl' where "fl' = (if d = [] then 0 else fl)"
  define nl' where "nl' = (if d = [] then 0 else nl)"
  define pf where "pf = flags AND (PROTO_CHILD OR PROTO_VARARG OR PROTO_FFI)"
  have sz: "length uv < 2 ^ 8" "length ks < 2 ^ 32" "length kn < 2 ^ 32" "bc \<noteq> []" "length bc < 2 ^ 32" "length dbg < 2 ^ 32"
    and kn: "\<forall>v \<in> set kn. \<not> tvismzero v" and kok: "\<forall>k \<in> set ks. kgc_ok ls sd si strip k"
    using ok by (simp_all add: pt)
  have lc: "Suc (length code) = length bc" using sz(4) by (simp add: code_def)
  have us: "unat (of_nat (length uv) :: u8) = length uv" "unat (of_nat (length ks) :: u32) = length ks"
    "unat (of_nat (length kn) :: u32) = length kn" "unat (of_nat (length d) :: u32) = length d"
    using sz by (simp_all add: unat_of_nat32 unat_of_nat d_def)
  have ub: "unat (of_nat (length bc - 1) + 1 :: u32) = Suc (length code)"
  proof -
    have "(of_nat (length bc - 1) + 1 :: u32) = of_nat (length bc)" using sz(4) by (cases bc) simp_all
    then show ?thesis using sz(5) lc by (simp add: unat_of_nat32)
  qed
  have pd: "bcwrite_pdata sd si strip pt @ r = pf # np # fs # of_nat (length uv) # lj_strfmt_wuleb128 (of_nat (length ks))
      @ lj_strfmt_wuleb128 (of_nat (length kn)) @ lj_strfmt_wuleb128 (of_nat (length bc - 1))
      @ (if \<not> strip then lj_strfmt_wuleb128 (of_nat (length d))
          @ (if length d \<noteq> 0 then lj_strfmt_wuleb128 fl @ lj_strfmt_wuleb128 nl else []) else [])
      @ concat (map le32 code) @ concat (map le16 uv) @ bcwrite_kgc sd ks @ bcwrite_knum kn @ d @ r"
    by (simp add: bcwrite_pdata_def pt Let_def pf_def d_def code_def bcwrite_bytecode_def)
  from rd_kgc [OF kok cs, of st "bcwrite_knum kn @ d @ r"] obtain ks' where
    ks': "bcread_kgc ls (length ks) (cs @ st) (bcwrite_kgc sd ks @ bcwrite_knum kn @ d @ r) = Inr ((ks', st), bcwrite_knum kn @ d @ r)"
      "length ks' = length ks" "\<forall>i < length ks. same_kgc (br_sid ls) si strip (ks ! i) (ks' ! i)" by blast
  have dbgr: "(if (of_nat (length d) :: u32) \<noteq> 0 then bcread_dbg lflags nl' n (length d) (d @ r) else Inr ([], d @ r)) = Inr (d, r)" for n
    using lf(2) sz(6) by (auto simp: bcread_dbg_def of_nat32_0 d_def)
  have hv: "pf AND PROTO_VARARG = flags AND PROTO_VARARG" by (simp add: pf_def flags_vararg)
  have dh: "bcread_dbghdr lflags ((if \<not> strip then lj_strfmt_wuleb128 (of_nat (length d))
      @ (if length d \<noteq> 0 then lj_strfmt_wuleb128 fl @ lj_strfmt_wuleb128 nl else []) else []) @ q)
    = Inr ((of_nat (length d), fl', nl'), q)" for q
    unfolding fl'_def nl'_def by (rule rd_dbghdr [OF sz(6) lf(1) d_def])
  define pt' where "pt' = GCproto pf np fs 0 uv ks' kn (dump_code si flags fs tr bc) fl' nl' d"
  have "lj_bcread_proto ls lflags (cs @ st) (bcwrite_pdata sd si strip pt @ r) = Inr ((pt', st), r)"
    unfolding pd lj_bcread_proto_def bcread_dbghdr_def [symmetric]
    by (simp only: bcread_byte.simps rbind_simps rd_uleb dh prod.case us ub rd_bytecode [OF lf(2) refl] rd_uv [OF lf(2)]
        ks'(1) rd_knum [OF kn] dbgr hv pt'_def dump_code_def code_def [symmetric])
  moreover have "same_proto (br_sid ls) si strip pt pt'"
    unfolding pt pt'_def by (rule same_protoI) (use ks' in \<open>simp_all add: pf_def d_def fl'_def nl'_def\<close>)
  ultimately show ?thesis by blast
qed

section \<open>Records\<close>

lemma blit_replicate: "n \<le> 5 \<Longrightarrow> length ys = n \<Longrightarrow> blit (replicate 5 0 @ xs) (5 - n) ys = replicate (5 - n) 0 @ ys @ xs"
  by (simp add: blit_def)

lemma bcwrite_sized_eq:
  assumes "length q < 2 ^ 32"
  shows "bcwrite_sized q = lj_strfmt_wuleb128 (of_nat (length q)) @ q"
proof -
  define nn where "nn = (lj_fls (of_nat (length q)) + 8) * 9 div 64"
  have l: "length (lj_strfmt_wuleb128 (of_nat (length q))) = nn" by (simp add: wuleb_length_formula nn_def)
  then have n5: "nn \<le> 5" using wuleb_length_bounds(2) [of "of_nat (length q)"] by simp
  show ?thesis
    unfolding bcwrite_sized_def Let_def nn_def [symmetric] blit_replicate [OF n5 l]
    using l n5 by simp
qed

text \<open>The bytes of a prototype and its children, in the order they are written.\<close>

fun proto_recs :: "(gcref \<Rightarrow> bytes) \<Rightarrow> (nat \<Rightarrow> bcins) \<Rightarrow> bool \<Rightarrow> gcproto \<Rightarrow> bytes"
  and kgcs_recs :: "(gcref \<Rightarrow> bytes) \<Rightarrow> (nat \<Rightarrow> bcins) \<Rightarrow> bool \<Rightarrow> kgc list \<Rightarrow> bytes"
  and kgc_recs :: "(gcref \<Rightarrow> bytes) \<Rightarrow> (nat \<Rightarrow> bcins) \<Rightarrow> bool \<Rightarrow> kgc \<Rightarrow> bytes" where
  "proto_recs sd si strip (GCproto flags np fs tr uv ks kn bc fl nl dbg) =
     (if flags AND PROTO_CHILD \<noteq> 0 then kgcs_recs sd si strip ks else [])
     @ bcwrite_sized (bcwrite_pdata sd si strip (GCproto flags np fs tr uv ks kn bc fl nl dbg))"
| "kgcs_recs sd si strip [] = []"
| "kgcs_recs sd si strip (k # ks) = kgcs_recs sd si strip ks @ kgc_recs sd si strip k"
| "kgc_recs sd si strip (KChild p) = proto_recs sd si strip p"
| "kgc_recs sd si strip (KStr s) = []"
| "kgc_recs sd si strip (KTab t) = []"
| "kgc_recs sd si strip (KI64 q) = []"
| "kgc_recs sd si strip (KU64 q) = []"
| "kgc_recs sd si strip (KComplex q r) = []"

text \<open>The callback that appends to its data and reports success.\<close>

definition append_writer :: "bytes writer" where "append_writer q d = (0, d @ q)"

lemma bcwrite_out_append: "bcwrite_out append_writer q ctx = ctx\<lparr>bw_status := 0, bw_wdata := bw_wdata ctx @ q\<rparr>"
  by (simp add: bcwrite_out_def append_writer_def)

lemma write_append:
  "bcwrite_proto append_writer sd si pt \<lparr>bw_strip = strip, bw_status = 0, bw_wdata = d\<rparr>
     = \<lparr>bw_strip = strip, bw_status = 0, bw_wdata = d @ proto_recs sd si strip pt\<rparr>"
  "bcwrite_children append_writer sd si ks \<lparr>bw_strip = strip, bw_status = 0, bw_wdata = d\<rparr>
     = \<lparr>bw_strip = strip, bw_status = 0, bw_wdata = d @ kgcs_recs sd si strip ks\<rparr>"
  "bcwrite_child append_writer sd si k \<lparr>bw_strip = strip, bw_status = 0, bw_wdata = d\<rparr>
     = \<lparr>bw_strip = strip, bw_status = 0, bw_wdata = d @ kgc_recs sd si strip k\<rparr>"
  by (induction sd si strip pt and sd si strip ks and sd si strip k arbitrary: d and d and d
      rule: proto_recs_kgcs_recs_kgc_recs.induct) (simp_all add: Let_def bcwrite_out_append)

lemma wuleb_hd0: "hd (lj_strfmt_wuleb128 v) = 0 \<longleftrightarrow> v = 0"
proof (cases "0x80 \<le> v")
  case True
  then have "0x80 \<le> hd (lj_strfmt_wuleb128 v)" using byte_cont(1) [of v] by (simp add: lj_strfmt_wuleb128.simps [of v])
  then show ?thesis using True by (auto simp: word_le_nat_alt)
next
  case False
  then have "ucast (hd (lj_strfmt_wuleb128 v)) = v" using byte_last [OF False] by (simp add: lj_strfmt_wuleb128.simps [of v])
  moreover have "hd (lj_strfmt_wuleb128 v) = ucast v" using False by (simp add: lj_strfmt_wuleb128.simps [of v])
  ultimately show ?thesis by auto
qed

lemma pdata_not_Nil: "bcwrite_pdata sd si strip pt \<noteq> []"
  by (simp add: bcwrite_pdata_def Let_def)

lemma loop_step:
  assumes q: "0 < length q" "length q < 2 ^ 32"
    and r: "lj_bcread_proto ls lflags st (q @ r) = Inr ((pt, st'), r)"
  shows "bcread_loop ls lflags st (bcwrite_sized q @ r) = bcread_loop ls lflags (pt # st') r"
proof -
  let ?w = "lj_strfmt_wuleb128 (of_nat (length q))"
  have z: "(of_nat (length q) :: u32) \<noteq> 0" using q of_nat32_0 [of "length q"] by simp
  then have "hd (?w @ q @ r) \<noteq> 0" using wuleb_hd0 [of "of_nat (length q)"] by simp
  then show ?thesis
    unfolding bcwrite_sized_eq [OF q(2)]
    using z r unat_of_nat32 [of "length q"] q(2) by (subst bcread_loop.simps) simp
qed

lemma children_ok: "\<forall>k \<in> set ks. kgc_ok ls sd si strip k \<Longrightarrow> \<forall>p \<in> set (children ks). proto_ok ls sd si strip p"
  by (induction ks rule: children.induct) auto

lemma no_children: "\<not> list_ex is_child ks \<Longrightarrow> children ks = []"
  by (induction ks rule: children.induct) auto

definition fits :: "u32 \<Rightarrow> bool \<Rightarrow> bool" where
  "fits lflags strip \<longleftrightarrow> (lflags AND BCDUMP_F_STRIP = 0 \<longleftrightarrow> \<not> strip) \<and> \<not> bcread_swap lflags"

lemma rd_loop:
  shows "fits lflags strip \<Longrightarrow> proto_ok ls sd si strip pt \<Longrightarrow>
      \<exists>pt'. bcread_loop ls lflags st (proto_recs sd si strip pt @ r) = bcread_loop ls lflags (pt' # st) r
        \<and> same_proto (br_sid ls) si strip pt pt'"
    and "fits lflags strip \<Longrightarrow> \<forall>k \<in> set ks. kgc_ok ls sd si strip k \<Longrightarrow>
      \<exists>cs. bcread_loop ls lflags st (kgcs_recs sd si strip ks @ r) = bcread_loop ls lflags (cs @ st) r
        \<and> length cs = length (children ks) \<and> (\<forall>i < length cs. same_proto (br_sid ls) si strip (children ks ! i) (cs ! i))"
    and "fits lflags strip \<Longrightarrow> kgc_ok ls sd si strip k \<Longrightarrow>
      \<exists>cs. bcread_loop ls lflags st (kgc_recs sd si strip k @ r) = bcread_loop ls lflags (cs @ st) r
        \<and> length cs = length (children [k]) \<and> (\<forall>i < length cs. same_proto (br_sid ls) si strip (children [k] ! i) (cs ! i))"
proof (induction sd si strip pt and sd si strip ks and sd si strip k arbitrary: st r and st r and st r
      rule: proto_recs_kgcs_recs_kgc_recs.induct)
  case (1 sd si strip flags np fs tr uv ks kn bc fl nl dbg)
  define pt where "pt = GCproto flags np fs tr uv ks kn bc fl nl dbg"
  define q where "q = bcwrite_pdata sd si strip pt"
  have ok: "proto_ok ls sd si strip pt" using "1.prems"(2) by (simp add: pt_def)
  have lf: "lflags AND BCDUMP_F_STRIP = 0 \<longleftrightarrow> \<not> strip" "\<not> bcread_swap lflags"
    using "1.prems"(1) by (simp_all add: fits_def)
  have ks: "\<forall>k \<in> set ks. kgc_ok ls sd si strip k" and ch: "list_ex is_child ks \<longrightarrow> flags AND PROTO_CHILD \<noteq> 0"
    and ql: "length q < 2 ^ 32" using ok by (simp_all add: q_def pt_def)
  have q0: "0 < length q" using pdata_not_Nil by (simp add: q_def)
  have "\<exists>cs. bcread_loop ls lflags st ((if flags AND PROTO_CHILD \<noteq> 0 then kgcs_recs sd si strip ks else []) @ bcwrite_sized q @ r)
        = bcread_loop ls lflags (cs @ st) (bcwrite_sized q @ r)
      \<and> length cs = length (children ks) \<and> (\<forall>i < length cs. same_proto (br_sid ls) si strip (children ks ! i) (cs ! i))"
  proof (cases "flags AND PROTO_CHILD \<noteq> 0")
    case True
    then show ?thesis using "1.IH" [OF True "1.prems"(1) ks] by simp
  next
    case False
    then have "children ks = []" using ch no_children by blast
    then show ?thesis using False by simp
  qed
  then obtain cs where
    cs: "bcread_loop ls lflags st ((if flags AND PROTO_CHILD \<noteq> 0 then kgcs_recs sd si strip ks else []) @ bcwrite_sized q @ r)
        = bcread_loop ls lflags (cs @ st) (bcwrite_sized q @ r)"
      "length cs = length (children ks)" "\<forall>i < length cs. same_proto (br_sid ls) si strip (children ks ! i) (cs ! i)" by blast
  from rd_proto [OF pt_def ok lf cs(2,3), of st r] obtain pt' where
    pt': "lj_bcread_proto ls lflags (cs @ st) (q @ r) = Inr ((pt', st), r)" "same_proto (br_sid ls) si strip pt pt'"
    unfolding q_def by blast
  have "proto_recs sd si strip pt @ r = (if flags AND PROTO_CHILD \<noteq> 0 then kgcs_recs sd si strip ks else []) @ bcwrite_sized q @ r"
    by (simp add: pt_def q_def)
  then have "bcread_loop ls lflags st (proto_recs sd si strip pt @ r) = bcread_loop ls lflags (pt' # st) r"
    using cs(1) loop_step [OF q0 ql pt'(1)] by simp
  then show ?case using pt'(2) unfolding pt_def by blast
next
  case (2 sd si strip)
  then show ?case by simp
next
  case (3 sd si strip k ks)
  from "3.prems"(2) have k: "kgc_ok ls sd si strip k" "\<forall>k \<in> set ks. kgc_ok ls sd si strip k" by simp_all
  from "3.IH"(1) [OF "3.prems"(1) k(2), of st "kgc_recs sd si strip k @ r"] obtain cs where
    cs: "bcread_loop ls lflags st (kgcs_recs sd si strip ks @ kgc_recs sd si strip k @ r) = bcread_loop ls lflags (cs @ st) (kgc_recs sd si strip k @ r)"
      "length cs = length (children ks)" "\<forall>i < length cs. same_proto (br_sid ls) si strip (children ks ! i) (cs ! i)" by blast
  from "3.IH"(2) [OF "3.prems"(1) k(1), of "cs @ st" r] obtain cs1 where
    cs1: "bcread_loop ls lflags (cs @ st) (kgc_recs sd si strip k @ r) = bcread_loop ls lflags (cs1 @ cs @ st) r"
      "length cs1 = length (children [k])" "\<forall>i < length cs1. same_proto (br_sid ls) si strip (children [k] ! i) (cs1 ! i)" by blast
  have "children (k # ks) = children [k] @ children ks" by (cases k) simp_all
  moreover have "same_proto (br_sid ls) si strip ((children [k] @ children ks) ! i) ((cs1 @ cs) ! i)"
    if "i < length (cs1 @ cs)" for i
    using that cs(2,3) cs1(2,3) by (simp add: nth_append)
  ultimately show ?case using cs(1,2) cs1(1,2)
    by (intro exI [of _ "cs1 @ cs"] conjI allI impI) (simp_all only: append_assoc kgcs_recs.simps length_append)
next
  case (4 sd si strip p)
  from "4.IH" [OF "4.prems"(1), of st r] "4.prems"(2) obtain pt' where
    "bcread_loop ls lflags st (proto_recs sd si strip p @ r) = bcread_loop ls lflags (pt' # st) r"
    "same_proto (br_sid ls) si strip p pt'" by auto
  then show ?case by (intro exI [of _ "[pt']"]) simp
qed (intro exI [of _ "[]"], simp)+

section \<open>The whole dump\<close>

lemma header_flags:
  fixes a b :: bool
  defines "f \<equiv> (if a then BCDUMP_F_STRIP else 0) + (if b then BCDUMP_F_FFI else 0) + BCDUMP_F_FR2"
  shows "f AND NOT BCDUMP_F_KNOWN = 0" "f AND BCDUMP_F_FR2 = BCDUMP_F_FR2" "fits f a"
    and "f = ucast ((if a then ucast BCDUMP_F_STRIP else 0) + (if b then ucast BCDUMP_F_FFI else 0) + ucast BCDUMP_F_FR2 :: u8)"
    and "((if a then ucast BCDUMP_F_STRIP else 0) + (if b then ucast BCDUMP_F_FFI else 0) + ucast BCDUMP_F_FR2 :: u8) < 0x80"
  by (cases a; cases b; simp add: f_def bcdump_defs fits_def bcread_swap_def)+

text \<open>Reading back what \<open>lj_bcwrite\<close> has written; the lexer has consumed the first byte.\<close>

lemma dump_roundtrip:
  assumes ok: "proto_ok ls sd si strip pt" and name: "length chunkname < 2 ^ 32"
  shows "\<exists>bs pt'. lj_bcwrite append_writer sd si pt chunkname [] strip = (0, BCDUMP_HEAD1 # bs)
    \<and> lj_bcread ls chunkarg endmark bs = Inr (pt', if strip then chunkarg else chunkname)
    \<and> same_proto (br_sid ls) si strip pt pt'"
proof -
  define f :: u8 where "f = (if strip then ucast BCDUMP_F_STRIP else 0)
    + (if pt_flags pt AND PROTO_FFI \<noteq> 0 then ucast BCDUMP_F_FFI else 0) + ucast BCDUMP_F_FR2"
  define nm where "nm = (if \<not> strip then lj_strfmt_wuleb128 (of_nat (length chunkname)) @ chunkname else [])"
  define bs where "bs = BCDUMP_HEAD2 # BCDUMP_HEAD3 # BCDUMP_VERSION # f # nm @ proto_recs sd si strip pt @ [0]"
  have w: "lj_bcwrite append_writer sd si pt chunkname [] strip = (0, BCDUMP_HEAD1 # bs)"
    by (simp add: lj_bcwrite_def cpwriter_def bcwrite_header_def bcwrite_footer_def Let_def bcwrite_out_append
        write_append bs_def f_def nm_def)
  note hf = header_flags [of strip "pt_flags pt AND PROTO_FFI \<noteq> 0"]
  have u: "bcread_uleb128 (f # q) = Inr (ucast f, q)" for q
    unfolding f_def by (rule rd_byte) (rule hf(5))
  have fl: "ucast f AND NOT BCDUMP_F_KNOWN = 0" "ucast f AND BCDUMP_F_FR2 = BCDUMP_F_FR2" "fits (ucast f) strip"
    using hf(1-3) unfolding hf(4) f_def [symmetric] by simp_all
  then have st: "ucast f AND BCDUMP_F_STRIP \<noteq> 0 \<longleftrightarrow> strip" by (simp add: fits_def)
  have h: "bcread_header chunkarg bs = Inr (Some (ucast f, if strip then chunkarg else chunkname), proto_recs sd si strip pt @ [0])"
    using st unat_of_nat32 [of "length chunkname"] name
    by (auto simp: bcread_header_def bs_def u fl nm_def)
  from rd_loop(1) [OF fl(3) ok, of "[]" "[0]"] obtain pt' where
    pt': "bcread_loop ls (ucast f) [] (proto_recs sd si strip pt @ [0]) = bcread_loop ls (ucast f) [pt'] [0]"
      "same_proto (br_sid ls) si strip pt pt'" by blast
  have "bcread_loop ls (ucast f) [pt'] [0] = Inr ([pt'], [])" by (simp add: bcread_loop.simps)
  then have "lj_bcread ls chunkarg endmark bs = Inr (pt', if strip then chunkarg else chunkname)"
    using pt'(1) by (simp add: lj_bcread_def h)
  then show ?thesis using w pt'(2) by blast
qed

section \<open>Writer status\<close>

text \<open>The callback \<open>w\<close> with a log of the statuses it has returned.\<close>

definition logged :: "'d writer \<Rightarrow> ('d \<times> int list) writer" where
  "logged w q d = (let (st, d') = w q (fst d) in (st, (d', snd d @ [st])))"

definition log_ok :: "('d \<times> int list) bcwritectx \<Rightarrow> bool" where
  "log_ok ctx \<longleftrightarrow> (\<exists>n. snd (bw_wdata ctx) = replicate n 0 @ (if bw_status ctx = 0 then [] else [bw_status ctx]))"

lemma log_out: "log_ok ctx \<Longrightarrow> bw_status ctx = 0 \<Longrightarrow> log_ok (bcwrite_out (logged w) q ctx)"
proof -
  assume a: "log_ok ctx" "bw_status ctx = 0"
  then obtain n where n: "snd (bw_wdata ctx) = replicate n 0" by (auto simp: log_ok_def)
  obtain st d where r: "w q (fst (bw_wdata ctx)) = (st, d)" by fastforce
  have "replicate n 0 @ [0] = replicate (Suc n) (0 :: int)" by (simp add: replicate_append_same)
  then show ?thesis using n r by (auto simp: log_ok_def bcwrite_out_def logged_def intro: exI [of _ n] exI [of _ "Suc n"])
qed

lemma log_proto:
  "log_ok ctx \<Longrightarrow> log_ok (bcwrite_proto (logged w) sd si pt ctx)"
  "log_ok ctx \<Longrightarrow> log_ok (bcwrite_children (logged w) sd si ks ctx)"
  "log_ok ctx \<Longrightarrow> log_ok (bcwrite_child (logged w) sd si k ctx)"
  by (induction "logged w" sd si pt ctx and "logged w" sd si ks ctx and "logged w" sd si k ctx
      rule: bcwrite_proto_bcwrite_children_bcwrite_child.induct) (auto simp: Let_def intro: log_out)

lemma log_bcwrite:
  "lj_bcwrite (logged w) sd si pt name (d, []) strip = (st, d', log) \<Longrightarrow> \<exists>n. log = replicate n 0 @ (if st = 0 then [] else [st])"
proof -
  assume r: "lj_bcwrite (logged w) sd si pt name (d, []) strip = (st, d', log)"
  let ?c = "\<lparr>bw_strip = strip, bw_status = 0, bw_wdata = (d, [])\<rparr>"
  have "log_ok ?c" by (simp add: log_ok_def)
  then have "log_ok (bcwrite_header (logged w) pt name ?c)" unfolding bcwrite_header_def by (rule log_out) simp
  then have "log_ok (bcwrite_proto (logged w) sd si pt (bcwrite_header (logged w) pt name ?c))" by (rule log_proto)
  then have "log_ok (cpwriter (logged w) sd si pt name ?c)"
    unfolding cpwriter_def bcwrite_footer_def by (auto intro: log_out)
  then show ?thesis using r by (auto simp: lj_bcwrite_def Let_def log_ok_def)
qed

section \<open>Properties\<close>

text \<open>An example: a function with a string and a number constant, an upvalue, debug info and a child.\<close>

definition ex_child :: gcproto where
  "ex_child = GCproto 0 1 2 0 [] [] [] [BCINS_AD BC_FUNCF 2 0, BCINS_AD 76 0 1] 3 0 []"

definition ex_proto :: gcproto where
  "ex_proto = GCproto (PROTO_CHILD OR PROTO_VARARG) 0 3 0 [0x8001] [KStr [104, 105], KChild ex_child, KI64 300] [0x3ff8000000000000]
     [BCINS_AD BC_FUNCV 3 0, BCINS_AD 76 0 1] 1 5 [2, 0]"

definition ex_env :: bcread_env where
  "ex_env = \<lparr>br_sid = \<lambda>r. 0, br_intern = \<lambda>s. 0, br_white = 1\<rparr>"

text \<open>
  C15. What the dump writer writes, the dump reader reads back: from the bytes of a dump the reader
  returns the chunk name and a prototype with the same persistent flags, sizes, constants, upvalues,
  code (unpatched, behind a fresh header instruction), debug info unless stripped, and children;
  template tables keep their contents, whatever layout they get.
\<close>

theorem dump_read_back:
  assumes "proto_ok ls sd si strip pt" and "length chunkname < 2 ^ 32"
  shows "\<exists>bs pt'. lj_bcwrite append_writer sd si pt chunkname [] strip = (0, BCDUMP_HEAD1 # bs)
    \<and> lj_bcread ls chunkarg endmark bs = Inr (pt', if strip then chunkarg else chunkname)
    \<and> same_proto (br_sid ls) si strip pt pt'"
  by (rule dump_roundtrip [OF assms])

theorem dump_read_back_witness:
  "\<exists>bs pt'. lj_bcwrite append_writer (\<lambda>r. []) (\<lambda>n. 0) ex_proto [120] [] False = (0, BCDUMP_HEAD1 # bs)
    \<and> lj_bcread ex_env [] False bs = Inr (pt', [120]) \<and> same_proto (\<lambda>r. 0) (\<lambda>n. 0) False ex_proto pt'"
proof -
  have l: "length (bcwrite_pdata (\<lambda>r. []) (\<lambda>n. 0) False ex_child) < 2 ^ 32"
    "length (bcwrite_pdata (\<lambda>r. []) (\<lambda>n. 0) False ex_proto) < 2 ^ 32" by code_simp+
  have "proto_ok ex_env (\<lambda>r. []) (\<lambda>n. 0) False ex_proto"
    using l unfolding ex_proto_def ex_child_def
    by (simp add: lj_limits tvismzero_def PROTO_CHILD_def PROTO_VARARG_def)
  from dump_read_back [OF this, of "[120]" "[]" False] show ?thesis by (simp add: ex_env_def)
qed

text \<open>
  C16. The dump writer stops at the first failure of its callback: every call before the last
  returned 0, and the status of the last call is the result.
\<close>

theorem bcwrite_first_failure:
  "case lj_bcwrite (logged w) sd si pt name (d, []) strip of (st, d', log) \<Rightarrow>
     \<exists>n. log = replicate n 0 @ (if st = 0 then [] else [st])"
  by (simp split: prod.split add: log_bcwrite)

end
