(* ===== verification/LjStr.thy ===== *)
theory LjStr
  imports LjPrelude
begin

text \<open>
  Character classes (\<^verbatim>\<open>lj_char.c\<close>, \<^verbatim>\<open>lj_char.h\<close>) and the string helpers of \<^verbatim>\<open>lj_str.c\<close>: ordered
  comparison, search for a fixed string, the test for pattern characters, and the two hashes. A
  string is its bytes. Its storage is padded with zero bytes up to the next word, past the length
  (\<open>lj_str_alloc\<close>), which the comparison reads. The hashes are the portable ones of \<^verbatim>\<open>lj_str.c\<close>; a
  build for x64 with SSE 4.2 replaces them by those of \<^verbatim>\<open>lj_str_hash_x64.h\<close>. The theorems on the
  string table do not depend on how the hashes are computed.
\<close>

section \<open>Character classes\<close>

definition lj_char_bits :: "u8 list" where
  "lj_char_bits =
    0 #
    [1,  1,  1,  1,  1,  1,  1,  1,  1,  3,  3,  3,  3,  3,  1,  1,
    1,  1,  1,  1,  1,  1,  1,  1,  1,  1,  1,  1,  1,  1,  1,  1,
    2,  4,  4,  4,  4,  4,  4,  4,  4,  4,  4,  4,  4,  4,  4,  4,
  152,152,152,152,152,152,152,152,152,152,  4,  4,  4,  4,  4,  4,
    4,176,176,176,176,176,176,160,160,160,160,160,160,160,160,160,
  160,160,160,160,160,160,160,160,160,160,160,  4,  4,  4,  4,132,
    4,208,208,208,208,208,208,192,192,192,192,192,192,192,192,192,
  192,192,192,192,192,192,192,192,192,192,192,  4,  4,  4,  4,  1,
  128,128,128,128,128,128,128,128,128,128,128,128,128,128,128,128,
  128,128,128,128,128,128,128,128,128,128,128,128,128,128,128,128,
  128,128,128,128,128,128,128,128,128,128,128,128,128,128,128,128,
  128,128,128,128,128,128,128,128,128,128,128,128,128,128,128,128,
  128,128,128,128,128,128,128,128,128,128,128,128,128,128,128,128,
  128,128,128,128,128,128,128,128,128,128,128,128,128,128,128,128,
  128,128,128,128,128,128,128,128,128,128,128,128,128,128,128,128,
  128,128,128,128,128,128,128,128,128,128,128,128,128,128,128,128]"

definition LJ_CHAR_CNTRL :: u8 where "LJ_CHAR_CNTRL = 0x01"
definition LJ_CHAR_SPACE :: u8 where "LJ_CHAR_SPACE = 0x02"
definition LJ_CHAR_PUNCT :: u8 where "LJ_CHAR_PUNCT = 0x04"
definition LJ_CHAR_DIGIT :: u8 where "LJ_CHAR_DIGIT = 0x08"
definition LJ_CHAR_XDIGIT :: u8 where "LJ_CHAR_XDIGIT = 0x10"
definition LJ_CHAR_UPPER :: u8 where "LJ_CHAR_UPPER = 0x20"
definition LJ_CHAR_LOWER :: u8 where "LJ_CHAR_LOWER = 0x40"
definition LJ_CHAR_IDENT :: u8 where "LJ_CHAR_IDENT = 0x80"
definition LJ_CHAR_ALPHA :: u8 where "LJ_CHAR_ALPHA = LJ_CHAR_LOWER OR LJ_CHAR_UPPER"
definition LJ_CHAR_ALNUM :: u8 where "LJ_CHAR_ALNUM = LJ_CHAR_ALPHA OR LJ_CHAR_DIGIT"
definition LJ_CHAR_GRAPH :: u8 where "LJ_CHAR_GRAPH = LJ_CHAR_ALNUM OR LJ_CHAR_PUNCT"

text \<open>The argument is a character or -1 (end of input).\<close>

definition lj_char_isa :: "int \<Rightarrow> u8 \<Rightarrow> u8" where
  "lj_char_isa c t = lj_char_bits ! nat (c + 1) AND t"

definition lj_char_iscntrl :: "int \<Rightarrow> bool" where "lj_char_iscntrl c \<longleftrightarrow> lj_char_isa c LJ_CHAR_CNTRL \<noteq> 0"
definition lj_char_isspace :: "int \<Rightarrow> bool" where "lj_char_isspace c \<longleftrightarrow> lj_char_isa c LJ_CHAR_SPACE \<noteq> 0"
definition lj_char_ispunct :: "int \<Rightarrow> bool" where "lj_char_ispunct c \<longleftrightarrow> lj_char_isa c LJ_CHAR_PUNCT \<noteq> 0"
definition lj_char_isdigit :: "int \<Rightarrow> bool" where "lj_char_isdigit c \<longleftrightarrow> lj_char_isa c LJ_CHAR_DIGIT \<noteq> 0"
definition lj_char_isxdigit :: "int \<Rightarrow> bool" where "lj_char_isxdigit c \<longleftrightarrow> lj_char_isa c LJ_CHAR_XDIGIT \<noteq> 0"
definition lj_char_isupper :: "int \<Rightarrow> bool" where "lj_char_isupper c \<longleftrightarrow> lj_char_isa c LJ_CHAR_UPPER \<noteq> 0"
definition lj_char_islower :: "int \<Rightarrow> bool" where "lj_char_islower c \<longleftrightarrow> lj_char_isa c LJ_CHAR_LOWER \<noteq> 0"
definition lj_char_isident :: "int \<Rightarrow> bool" where "lj_char_isident c \<longleftrightarrow> lj_char_isa c LJ_CHAR_IDENT \<noteq> 0"
definition lj_char_isalpha :: "int \<Rightarrow> bool" where "lj_char_isalpha c \<longleftrightarrow> lj_char_isa c LJ_CHAR_ALPHA \<noteq> 0"
definition lj_char_isalnum :: "int \<Rightarrow> bool" where "lj_char_isalnum c \<longleftrightarrow> lj_char_isa c LJ_CHAR_ALNUM \<noteq> 0"
definition lj_char_isgraph :: "int \<Rightarrow> bool" where "lj_char_isgraph c \<longleftrightarrow> lj_char_isa c LJ_CHAR_GRAPH \<noteq> 0"

definition lj_char_toupper :: "int \<Rightarrow> int" where
  "lj_char_toupper c = c - uint (drop_bit 1 (lj_char_isa c LJ_CHAR_LOWER))"
definition lj_char_tolower :: "int \<Rightarrow> int" where
  "lj_char_tolower c = c + uint (lj_char_isa c LJ_CHAR_UPPER)"

lemmas lj_char_sets = LJ_CHAR_CNTRL_def LJ_CHAR_SPACE_def LJ_CHAR_PUNCT_def LJ_CHAR_DIGIT_def LJ_CHAR_XDIGIT_def
  LJ_CHAR_UPPER_def LJ_CHAR_LOWER_def LJ_CHAR_IDENT_def LJ_CHAR_ALPHA_def LJ_CHAR_ALNUM_def LJ_CHAR_GRAPH_def
lemmas lj_char_defs = lj_char_iscntrl_def lj_char_isspace_def lj_char_ispunct_def lj_char_isdigit_def
  lj_char_isxdigit_def lj_char_isupper_def lj_char_islower_def lj_char_isident_def lj_char_isalpha_def
  lj_char_isalnum_def lj_char_isgraph_def lj_char_toupper_def lj_char_tolower_def

text \<open>The table by ranges.\<close>

definition char_class :: "nat \<Rightarrow> u8" where
  "char_class n = (if n < 1 then 0 else if n < 10 then 1 else if n < 15 then 3 else if n < 33 then 1 else if n < 34 then 2 else if n < 49 then 4 else if n < 59 then 152 else if n < 66 then 4 else if n < 72 then 176 else if n < 92 then 160 else if n < 96 then 4 else if n < 97 then 132 else if n < 98 then 4 else if n < 104 then 208 else if n < 124 then 192 else if n < 128 then 4 else if n < 129 then 1 else 128)"

lemma char_bits_class: "lj_char_bits = map char_class [0..<257]"
  by code_simp

lemma char_bits_0: "lj_char_bits ! 0 = 0"
  by (simp add: lj_char_bits_def)

lemma char_bits_range:
  assumes "- 1 \<le> c" "c < 256"
  shows "c = - 1 \<and> lj_char_bits ! nat (c + 1) = 0 \<or> 0 \<le> c \<and> c < 9 \<and> lj_char_bits ! nat (c + 1) = 1 \<or> 9 \<le> c \<and> c < 14 \<and> lj_char_bits ! nat (c + 1) = 3 \<or> 14 \<le> c \<and> c < 32 \<and> lj_char_bits ! nat (c + 1) = 1 \<or> 32 \<le> c \<and> c < 33 \<and> lj_char_bits ! nat (c + 1) = 2 \<or> 33 \<le> c \<and> c < 48 \<and> lj_char_bits ! nat (c + 1) = 4 \<or> 48 \<le> c \<and> c < 58 \<and> lj_char_bits ! nat (c + 1) = 152 \<or> 58 \<le> c \<and> c < 65 \<and> lj_char_bits ! nat (c + 1) = 4 \<or> 65 \<le> c \<and> c < 71 \<and> lj_char_bits ! nat (c + 1) = 176 \<or> 71 \<le> c \<and> c < 91 \<and> lj_char_bits ! nat (c + 1) = 160 \<or> 91 \<le> c \<and> c < 95 \<and> lj_char_bits ! nat (c + 1) = 4 \<or> 95 \<le> c \<and> c < 96 \<and> lj_char_bits ! nat (c + 1) = 132 \<or> 96 \<le> c \<and> c < 97 \<and> lj_char_bits ! nat (c + 1) = 4 \<or> 97 \<le> c \<and> c < 103 \<and> lj_char_bits ! nat (c + 1) = 208 \<or> 103 \<le> c \<and> c < 123 \<and> lj_char_bits ! nat (c + 1) = 192 \<or> 123 \<le> c \<and> c < 127 \<and> lj_char_bits ! nat (c + 1) = 4 \<or> 127 \<le> c \<and> c < 128 \<and> lj_char_bits ! nat (c + 1) = 1 \<or> 128 \<le> c \<and> c < 256 \<and> lj_char_bits ! nat (c + 1) = 128"
proof -
  define n where "n = nat (c + 1)"
  have n: "n < 257" "c = int n - 1" using assms by (simp_all add: n_def)
  have b: "lj_char_bits ! nat (c + 1) = char_class n"
    using n(1) unfolding n_def [symmetric] char_bits_class by (simp del: upt.simps)
  show ?thesis unfolding b unfolding n(2) char_class_def using n(1) by (simp split: if_split) linarith?
qed

text \<open>
  C18. The character table classifies every byte and the end marker like ASCII does, with the bytes
  from 128 on counted as identifier characters only, and the case conversions change exactly the
  letters of the other case.
\<close>

theorem char_classes:
  assumes "- 1 \<le> c" and "c < 256"
  shows "(lj_char_isdigit c \<longleftrightarrow> 48 \<le> c \<and> c \<le> 57) \<and> (lj_char_isupper c \<longleftrightarrow> 65 \<le> c \<and> c \<le> 90)
    \<and> (lj_char_islower c \<longleftrightarrow> 97 \<le> c \<and> c \<le> 122)
    \<and> (lj_char_isxdigit c \<longleftrightarrow> 48 \<le> c \<and> c \<le> 57 \<or> 65 \<le> c \<and> c \<le> 70 \<or> 97 \<le> c \<and> c \<le> 102)
    \<and> (lj_char_isspace c \<longleftrightarrow> c = 32 \<or> 9 \<le> c \<and> c \<le> 13) \<and> (lj_char_iscntrl c \<longleftrightarrow> 0 \<le> c \<and> c < 32 \<or> c = 127)
    \<and> (lj_char_isgraph c \<longleftrightarrow> 33 \<le> c \<and> c \<le> 126)
    \<and> (lj_char_ispunct c \<longleftrightarrow> lj_char_isgraph c \<and> \<not> lj_char_isalnum c)
    \<and> (lj_char_isalnum c \<longleftrightarrow> lj_char_isalpha c \<or> lj_char_isdigit c)
    \<and> (lj_char_isalpha c \<longleftrightarrow> lj_char_isupper c \<or> lj_char_islower c)
    \<and> (lj_char_isident c \<longleftrightarrow> lj_char_isalnum c \<or> c = 95 \<or> 128 \<le> c)
    \<and> lj_char_toupper c = (if lj_char_islower c then c - 32 else c)
    \<and> lj_char_tolower c = (if lj_char_isupper c then c + 32 else c)"
  using char_bits_range [OF assms]
  by (elim disjE) (simp_all add: lj_char_defs lj_char_isa_def lj_char_sets char_bits_0)

theorem char_classes_witness: "lj_char_isident 95 \<and> \<not> lj_char_isalnum 95 \<and> lj_char_toupper 97 = 65"
  using char_classes [of 95] char_classes [of 97] by simp

section \<open>Comparison\<close>

text \<open>The 32 bit word of the storage of a string at an offset, little endian.\<close>

definition getb :: "bytes \<Rightarrow> nat \<Rightarrow> u8" where
  "getb s i = (if i < length s then s ! i else 0)"

definition lj_getu32 :: "bytes \<Rightarrow> nat \<Rightarrow> u32" where
  "lj_getu32 s i = ucast (getb s i) OR push_bit 8 (ucast (getb s (i + 1)))
     OR push_bit 16 (ucast (getb s (i + 2))) OR push_bit 24 (ucast (getb s (i + 3)))"

text \<open>The word loop; \<open>n\<close> is the smaller length. In the last word only the bytes before \<open>n\<close> count.\<close>

function str_cmp_loop :: "bytes \<Rightarrow> bytes \<Rightarrow> nat \<Rightarrow> nat \<Rightarrow> int" where
  "str_cmp_loop a b n i =
     (if i < n then
        let va = lj_getu32 a i; vb = lj_getu32 b i in
        if va \<noteq> vb then
          let va = lj_bswap va; vb = lj_bswap vb; d = int i - int n in
          if - 3 \<le> d then
            let va = drop_bit (nat (32 + d * 8)) va; vb = drop_bit (nat (32 + d * 8)) vb in
            if va = vb then int (length a) - int (length b) else if va < vb then - 1 else 1
          else if va < vb then - 1 else 1
        else str_cmp_loop a b n (i + 4)
      else int (length a) - int (length b))"
  by pat_completeness auto
termination
  by (relation "measure (\<lambda>(a, b, n, i). n - i)") auto

declare str_cmp_loop.simps [simp del]

definition lj_str_cmp :: "bytes \<Rightarrow> bytes \<Rightarrow> int" where
  "lj_str_cmp a b = str_cmp_loop a b (if length b < length a then length b else length a) 0"

section \<open>Search\<close>

text \<open>\<open>memchr\<close>: the first position from \<open>i\<close> on, among the next \<open>n\<close>, that holds \<open>c\<close>.\<close>

definition memchr :: "bytes \<Rightarrow> u8 \<Rightarrow> nat \<Rightarrow> nat \<Rightarrow> nat option" where
  "memchr s c i n = scan_up (\<lambda>j. s ! j = c) i (i + n)"

text \<open>\<open>s\<close> is the offset the C pointer has, \<open>slen\<close> the number of start positions left.\<close>

function str_find_loop :: "bytes \<Rightarrow> u8 \<Rightarrow> bytes \<Rightarrow> nat \<Rightarrow> nat \<Rightarrow> nat option" where
  "str_find_loop str c p s slen =
     (if slen \<noteq> 0 then
        (case memchr str c s slen of
           None \<Rightarrow> None
         | Some q \<Rightarrow>
             if take (length p) (drop (q + 1) str) = p then Some q
             else str_find_loop str c p (q + 1) (slen - (q + 1 - s)))
      else None)"
  by pat_completeness auto
termination
  by (relation "measure (\<lambda>(str, c, p, s, slen). slen)") (auto simp: memchr_def dest: scan_up_Some)

declare str_find_loop.simps [simp del]

definition lj_str_find :: "bytes \<Rightarrow> bytes \<Rightarrow> nat option" where
  "lj_str_find s p =
     (if length p \<le> length s then
        if length p = 0 then Some 0
        else str_find_loop s (hd p) (tl p) 0 (length s - (length p - 1))
      else None)"

text \<open>The pattern characters; \<open>strchr\<close> also finds the terminator.\<close>

definition lj_str_haspattern :: "bytes \<Rightarrow> bool" where
  "lj_str_haspattern s \<longleftrightarrow> list_ex (\<lambda>c. lj_char_ispunct (uint c)
     \<and> List.member ([0x5e, 0x24, 0x2a, 0x2b, 0x3f, 0x2e, 0x28, 0x5b, 0x25, 0x2d] @ [0]) c) s"

section \<open>Laws of the comparison\<close>

text \<open>The reference: byte-wise lexicographic order, shorter strings first.\<close>

fun bytes_cmp :: "bytes \<Rightarrow> bytes \<Rightarrow> int" where
  "bytes_cmp [] [] = 0"
| "bytes_cmp [] (y # ys) = - 1"
| "bytes_cmp (x # xs) [] = 1"
| "bytes_cmp (x # xs) (y # ys) = (if x < y then - 1 else if y < x then 1 else bytes_cmp xs ys)"

lemma bytes_cmp_prefix: "bytes_cmp (zs @ xs) (zs @ ys) = bytes_cmp xs ys"
  by (induction zs) simp_all

lemma bytes_cmp_append:
  "length xs = length ys \<Longrightarrow> bytes_cmp (xs @ us) (ys @ vs) = (if xs = ys then bytes_cmp us vs else bytes_cmp xs ys)"
  by (induction xs ys rule: list_induct2) auto

lemma bytes_cmp_Nil: "bytes_cmp [] ys = (if ys = [] then 0 else - 1)" "bytes_cmp xs [] = (if xs = [] then 0 else 1)"
  by (cases ys, simp_all) (cases xs, simp_all)

lemma bytes_cmp_eq: "bytes_cmp xs ys = 0 \<longleftrightarrow> xs = ys"
  by (induction xs ys rule: bytes_cmp.induct) auto

text \<open>Bytes as a big-endian number.\<close>

primrec be :: "bytes \<Rightarrow> nat" where
  "be [] = 0"
| "be (x # xs) = unat x * 256 ^ length xs + be xs"

lemma unat_u8: "unat (x :: u8) < 256"
  using unsigned_less [of x] by simp

lemma be_less: "be xs < 256 ^ length xs"
proof (induction xs)
  case (Cons x xs)
  have "be (x # xs) < unat x * 256 ^ length xs + 256 ^ length xs" using Cons by simp
  also have "\<dots> = (unat x + 1) * 256 ^ length xs" by simp
  also have "\<dots> \<le> 256 * 256 ^ length xs" using unat_u8 [of x] by (intro mult_right_mono) simp_all
  finally show ?case by simp
qed simp

lemma be_cmp:
  assumes "length xs = length ys"
  shows "(be xs < be ys \<longleftrightarrow> bytes_cmp xs ys = - 1) \<and> (be xs = be ys \<longleftrightarrow> xs = ys)"
  using assms
proof (induction xs ys rule: list_induct2)
  case (Cons x xs y ys)
  note IH = Cons.IH
  have l: "length ys = length xs" using Cons by simp
  show ?case
  proof (cases "x = y")
    case True
    then show ?thesis using IH l by simp
  next
    case False
    have lt: "be (a # us) < be (b # vs)" if "a < b" "length us = length vs" for a b :: u8 and us vs
    proof -
      have "be (a # us) < unat a * 256 ^ length us + 256 ^ length us" using be_less [of us] by simp
      also have "\<dots> = (unat a + 1) * 256 ^ length us" by simp
      also have "\<dots> \<le> unat b * 256 ^ length us" using that by (intro mult_right_mono) (simp_all add: word_less_nat_alt)
      finally show ?thesis using that by simp
    qed
    from False consider "x < y" | "y < x" by force
    then show ?thesis using lt [of x y xs ys] lt [of y x ys xs] l by cases auto
  qed
qed simp

lemma be_append: "be (xs @ ys) = be xs * 256 ^ length ys + be ys"
  by (induction xs) (simp_all add: algebra_simps power_add)

lemma be_append_div: "be (xs @ ys) div 256 ^ length ys = be xs"
  using be_less [of ys] by (simp add: be_append)

text \<open>The swapped storage word is the big-endian number of its four bytes.\<close>

lemma push_or: "unat x < 2 ^ 24 \<Longrightarrow> unat (push_bit 8 x OR ucast (b :: u8) :: u32) = 256 * unat x + unat b"
proof -
  assume x: "unat x < 2 ^ 24"
  have "push_bit 8 x AND ucast b = (0 :: u32)" by (rule bit_word_eqI) (auto simp: bit_simps dest: bit_imp_le_length)
  then have "push_bit 8 x OR ucast b = push_bit 8 x + (ucast b :: u32)" by (simp only: disjunctive_add_eq_or)
  moreover have "unat (push_bit 8 x) = 256 * unat x"
    using x by (simp add: push_bit_eq_mult unat_word_ariths)
  moreover have "unat (ucast b :: u32) = unat b" using unat_u8 [of b] by (simp add: unsigned_ucast_eq take_bit_eq_mod)
  ultimately show ?thesis using x unat_u8 [of b] by (simp add: unat_word_ariths)
qed

lemma byte_ranges:
  assumes "n < (32 :: nat)"
  obtains "n < 8" | k where "n = 8 + k" "k < 8" | k where "n = 16 + k" "k < 8" | k where "n = 24 + k" "k < 8"
proof -
  consider "n < 8" | "8 \<le> n" "n < 16" | "16 \<le> n" "n < 24" | "24 \<le> n" using assms by fastforce
  then show thesis
  proof cases
    case 2
    then show ?thesis by (intro that(2) [of "n - 8"]) simp_all
  next
    case 3
    then show ?thesis by (intro that(3) [of "n - 16"]) simp_all
  next
    case 4
    then show ?thesis using assms by (intro that(4) [of "n - 24"]) simp_all
  qed (rule that(1))
qed

lemma bit_bswap:
  "bit (lj_bswap x) n \<longleftrightarrow> (if n < 8 then bit x (n + 24) else if n < 16 then bit x (n + 8)
     else if n < 24 then bit x (n - 8) else n < 32 \<and> bit x (n - 24))"
proof -
  have m: "bit (0xff00 :: u32) n \<longleftrightarrow> 8 \<le> n \<and> n < 16" for n
  proof -
    have "(0xff00 :: u32) = push_bit 8 (mask 8)" by (simp add: mask_eq_exp_minus_1)
    then show ?thesis unfolding \<open>(0xff00 :: u32) = push_bit 8 (mask 8)\<close> bit_push_bit_iff bit_mask_iff by auto
  qed
  have hi: "\<not> bit x n" if "32 \<le> n" for n using that bit_imp_le_length [of x n] by auto
  have "bit (lj_bswap x) n \<longleftrightarrow> (24 \<le> n \<and> n < 32 \<and> bit x (n - 24)) \<or> (8 \<le> n \<and> n < 32 \<and> bit x (n - 8) \<and> 8 \<le> n - 8 \<and> n - 8 < 16)
      \<or> (bit x (8 + n) \<and> 8 \<le> n \<and> n < 16) \<or> bit x (24 + n)"
    unfolding lj_bswap_def bit_or_iff bit_push_bit_iff bit_and_iff bit_drop_bit_eq comp_def m by auto
  then show ?thesis using hi by (auto simp: add.commute)
qed

lemma bswap_inj: "lj_bswap x = lj_bswap y \<longleftrightarrow> x = y"
proof -
  have "lj_bswap (lj_bswap x) = x" for x
  proof (rule bit_word_eqI)
    fix n assume "n < LENGTH(32)"
    then have "n < 32" by simp
    then show "bit (lj_bswap (lj_bswap x)) n = bit x n" by (cases rule: byte_ranges) (simp_all add: bit_bswap add.commute)
  qed
  then show ?thesis by metis
qed

lemma bit_getu32:
  "bit (lj_getu32 s i) n \<longleftrightarrow> (if n < 8 then bit (getb s i) n else if n < 16 then bit (getb s (i + 1)) (n - 8)
     else if n < 24 then bit (getb s (i + 2)) (n - 16) else bit (getb s (i + 3)) (n - 24))"
proof -
  have h: "\<not> bit (b :: u8) n" if "8 \<le> n" for b n using that bit_imp_le_length [of b n] by auto
  have "bit (lj_getu32 s i) n \<longleftrightarrow> bit (getb s i) n \<or> (8 \<le> n \<and> bit (getb s (i + 1)) (n - 8))
      \<or> (16 \<le> n \<and> bit (getb s (i + 2)) (n - 16)) \<or> (24 \<le> n \<and> bit (getb s (i + 3)) (n - 24))"
    using bit_imp_le_length [of "getb s i" n] bit_imp_le_length [of "getb s (i + 1)" "n - 8"]
      bit_imp_le_length [of "getb s (i + 2)" "n - 16"] bit_imp_le_length [of "getb s (i + 3)" "n - 24"]
    unfolding lj_getu32_def bit_or_iff bit_push_bit_iff bit_ucast_iff by auto
  then show ?thesis using h by auto
qed

lemma bswap_be: "unat (lj_bswap (lj_getu32 s i)) = be (map (getb s) [i, i + 1, i + 2, i + 3])"
proof -
  have h: "\<not> bit (b :: u8) n" if "8 \<le> n" for b n using that bit_imp_le_length [of b n] by auto
  have "lj_bswap (lj_getu32 s i) =
    push_bit 8 (push_bit 8 (push_bit 8 (ucast (getb s i)) OR ucast (getb s (i + 1))) OR ucast (getb s (i + 2))) OR ucast (getb s (i + 3))"
  proof (rule bit_word_eqI)
    fix n assume "n < LENGTH(32)"
    then have "n < 32" by simp
    then show "bit (lj_bswap (lj_getu32 s i)) n = bit (push_bit 8 (push_bit 8 (push_bit 8 (ucast (getb s i)) OR ucast (getb s (i + 1)))
       OR ucast (getb s (i + 2))) OR ucast (getb s (i + 3)) :: u32) n"
      by (cases rule: byte_ranges) (simp_all add: bit_bswap bit_getu32 bit_or_iff bit_push_bit_iff bit_ucast_iff h)
  qed
  then have e: "unat (lj_bswap (lj_getu32 s i)) = unat (push_bit 8 (push_bit 8 (push_bit 8 (ucast (getb s i)) OR ucast (getb s (i + 1)))
      OR ucast (getb s (i + 2))) OR ucast (getb s (i + 3)) :: u32)" by (rule arg_cong)
  have u: "unat (ucast b :: u32) = unat b" for b :: u8
    using unat_u8 [of b] by (simp add: unsigned_ucast_eq take_bit_eq_mod)
  define x where "x = (ucast (getb s i) :: u32)"
  define y where "y = push_bit 8 x OR ucast (getb s (i + 1))"
  define z where "z = push_bit 8 y OR ucast (getb s (i + 2))"
  have x: "unat x = unat (getb s i)" by (simp add: x_def u)
  have y: "unat y = 256 * unat x + unat (getb s (i + 1))" unfolding y_def
    by (rule push_or) (use x unat_u8 [of "getb s i"] in simp)
  have z: "unat z = 256 * unat y + unat (getb s (i + 2))" unfolding z_def
    by (rule push_or) (use x y unat_u8 [of "getb s i"] unat_u8 [of "getb s (i + 1)"] in simp)
  have "unat (push_bit 8 z OR ucast (getb s (i + 3)) :: u32) = 256 * unat z + unat (getb s (i + 3))"
    by (rule push_or) (use x y z unat_u8 [of "getb s i"] unat_u8 [of "getb s (i + 1)"] unat_u8 [of "getb s (i + 2)"] in simp)
  then show ?thesis unfolding e x_def [symmetric] y_def [symmetric] z_def [symmetric] using x y z by simp
qed

lemma drop_decomp:
  assumes "i + length xs \<le> length s" "\<And>j. j < length xs \<Longrightarrow> s ! (i + j) = xs ! j"
  shows "drop i s = xs @ drop (i + length xs) s"
proof -
  have "take (length xs) (drop i s) = xs"
    by (rule nth_equalityI) (use assms in auto)
  then show ?thesis using append_take_drop_id [of "length xs" "drop i s"] by (simp add: add.commute)
qed

definition window :: "bytes \<Rightarrow> nat \<Rightarrow> nat \<Rightarrow> bytes" where
  "window s i v = map (\<lambda>j. getb s (i + j)) [0..<v]"

lemma window_drop: "i + v \<le> length s \<Longrightarrow> drop i s = window s i v @ drop (i + v) s"
  using drop_decomp [of i "window s i v" s] by (simp add: window_def getb_def)

lemma bswap_window: "unat (lj_bswap (lj_getu32 s i)) = be (window s i 4)"
proof -
  have "window s i 4 = map (getb s) [i, i + 1, i + 2, i + 3]" by (simp add: window_def upt_rec numeral_3_eq_3)
  then show ?thesis by (simp only: bswap_be)
qed

lemma window_shift: "v \<le> 4 \<Longrightarrow> be (window s i 4) div 256 ^ (4 - v) = be (window s i v)"
proof -
  assume v: "v \<le> 4"
  have "[0..<4] = [0..<v] @ [v..<4]" using v by (metis le_add_diff_inverse upt_add_eq_append zero_le)
  then have "window s i 4 = window s i v @ map (\<lambda>j. getb s (i + j)) [v..<4]" by (simp add: window_def)
  then show ?thesis using be_append_div [of "window s i v" "map (\<lambda>j. getb s (i + j)) [v..<4]"] by simp
qed

text \<open>One step: comparing the first \<open>v\<close> bytes of the two words, shifted down, is comparing them in order.\<close>

lemma word_step:
  assumes "v \<le> 4" "i + v \<le> length a" "i + v \<le> length b"
  defines "x \<equiv> drop_bit (8 * (4 - v)) (lj_bswap (lj_getu32 a i))" and "y \<equiv> drop_bit (8 * (4 - v)) (lj_bswap (lj_getu32 b i))"
  shows "x = y \<Longrightarrow> bytes_cmp (drop i a) (drop i b) = bytes_cmp (drop (i + v) a) (drop (i + v) b)"
    and "x \<noteq> y \<Longrightarrow> bytes_cmp (drop i a) (drop i b) = (if x < y then - 1 else 1)"
proof -
  let ?u = "window a i v" and ?w = "window b i v"
  have l: "length ?u = length ?w" by (simp add: window_def)
  have p: "(2::nat) ^ (8 * (4 - v)) = 256 ^ (4 - v)" by (simp add: power_mult)
  have ux: "unat x = be ?u" "unat y = be ?w"
    unfolding x_def y_def unat_drop_bit_eq unfolding drop_bit_eq_div bswap_window p by (rule window_shift [OF assms(1)])+
  have c: "bytes_cmp (drop i a) (drop i b) = (if ?u = ?w then bytes_cmp (drop (i + v) a) (drop (i + v) b) else bytes_cmp ?u ?w)"
    unfolding window_drop [OF assms(2)] window_drop [OF assms(3)] by (rule bytes_cmp_append [OF l])
  note bc = be_cmp [OF l]
  show "x = y \<Longrightarrow> bytes_cmp (drop i a) (drop i b) = bytes_cmp (drop (i + v) a) (drop (i + v) b)"
    using c bc ux by (metis)
  assume ne: "x \<noteq> y"
  then have ne': "?u \<noteq> ?w" using ux by (metis word_unat_eq_iff)
  have gt: "bytes_cmp ?u ?w = 1" if "\<not> be ?u < be ?w"
  proof -
    have "bytes_cmp xs ys = - 1 \<or> bytes_cmp xs ys = 0 \<or> bytes_cmp xs ys = 1" for xs ys
      by (induction xs ys rule: bytes_cmp.induct) auto
    then show ?thesis using that ne' bc bytes_cmp_eq by blast
  qed
  show "bytes_cmp (drop i a) (drop i b) = (if x < y then - 1 else 1)"
    using c ne' bc ux gt by (auto simp: word_less_nat_alt)
qed

lemma bytes_cmp_tail:
  assumes "n = length a \<or> n = length b" "n \<le> length a" "n \<le> length b"
  shows "bytes_cmp (drop n a) (drop n b) = sgn (int (length a) - int (length b))"
  using assms by (auto simp: bytes_cmp_Nil)

lemma str_cmp_loop_correct:
  assumes "n = length a \<or> n = length b" "n \<le> length a" "n \<le> length b" "i < n"
  shows "sgn (str_cmp_loop a b n i) = bytes_cmp (drop i a) (drop i b)"
  using assms(4)
proof (induction "n - i" arbitrary: i rule: less_induct)
  case less
  note tail = bytes_cmp_tail [OF assms(1-3)]
  define v where "v = min 4 (n - i)"
  have v: "v \<le> 4" "i + v \<le> length a" "i + v \<le> length b" using assms(2,3) less.prems by (simp_all add: v_def)
  note ws = word_step [OF v]
  define va vb where "va = lj_getu32 a i" and "vb = lj_getu32 b i"
  have stop: "str_cmp_loop a b n j = int (length a) - int (length b)" if "n \<le> j" for j
    using that by (subst str_cmp_loop.simps) simp
  show ?case
  proof (cases "va = vb")
    case True
    have l: "str_cmp_loop a b n i = str_cmp_loop a b n (i + 4)"
      using True less.prems by (subst str_cmp_loop.simps) (simp add: va_def vb_def)
    have b: "bytes_cmp (drop i a) (drop i b) = bytes_cmp (drop (i + v) a) (drop (i + v) b)"
      by (rule ws(1)) (use True in \<open>simp add: va_def vb_def\<close>)
    show ?thesis
    proof (cases "i + 4 < n")
      case True
      then have "v = 4" by (simp add: v_def)
      then show ?thesis using less.hyps [of "i + 4"] True l b by simp
    next
      case False
      then have "i + v = n" "n \<le> i + 4" using less.prems by (simp_all add: v_def)
      then show ?thesis using l b tail stop [of "i + 4"] by simp
    qed
  next
    case False
    define x y where "x = drop_bit (8 * (4 - v)) (lj_bswap va)" and "y = drop_bit (8 * (4 - v)) (lj_bswap vb)"
    have l: "str_cmp_loop a b n i = (if x = y then int (length a) - int (length b) else if x < y then - 1 else 1)"
    proof (cases "n - i \<le> 3")
      case True
      then have d: "- 3 \<le> int i - int n" "nat (32 + (int i - int n) * 8) = 8 * (4 - v)"
        using less.prems by (auto simp: v_def)
      show ?thesis using False less.prems d(1) unfolding str_cmp_loop.simps [of a b n i] va_def [symmetric] vb_def [symmetric] Let_def d(2) x_def y_def
        by simp
    next
      case big: False
      then have "\<not> - 3 \<le> int i - int n" "v = 4" using less.prems by (auto simp: v_def)
      then show ?thesis using False less.prems unfolding str_cmp_loop.simps [of a b n i] va_def [symmetric] vb_def [symmetric] Let_def x_def y_def
        by (simp add: bswap_inj)
    qed
    have eqn: "i + v = n" if "x = y"
    proof (rule ccontr)
      assume "i + v \<noteq> n"
      then have "v = 4" using less.prems by (auto simp: v_def min_def split: if_splits)
      then show False using that False by (simp add: x_def y_def bswap_inj)
    qed
    show ?thesis
    proof (cases "x = y")
      case True
      then show ?thesis using l ws(1) tail eqn unfolding x_def y_def va_def vb_def by simp
    next
      case ne: False
      then show ?thesis using l ws(2) unfolding x_def y_def va_def vb_def by auto
    qed
  qed
qed

text \<open>
  C19. The word-wise string comparison orders strings like the byte-wise lexicographic order, shorter
  strings first, whatever bytes they hold; it is 0 exactly for equal strings.
\<close>

theorem str_cmp_lexicographic:
  "sgn (lj_str_cmp a b) = bytes_cmp a b \<and> (lj_str_cmp a b = 0 \<longleftrightarrow> a = b)"
proof -
  define n where "n = (if length b < length a then length b else length a)"
  have n: "n = length a \<or> n = length b" "n \<le> length a" "n \<le> length b" by (auto simp: n_def)
  have s: "sgn (lj_str_cmp a b) = bytes_cmp a b"
  proof (cases "0 < n")
    case True
    then show ?thesis using str_cmp_loop_correct [OF n True] by (simp add: lj_str_cmp_def n_def)
  next
    case False
    then have "n = 0" by simp
    then have "str_cmp_loop a b n 0 = int (length a) - int (length b)" by (subst str_cmp_loop.simps) simp
    then show ?thesis using bytes_cmp_tail [OF n] \<open>n = 0\<close> by (simp add: lj_str_cmp_def n_def [symmetric])
  qed
  then show ?thesis using bytes_cmp_eq [of a b] by (metis sgn_0 sgn_eq_0_iff)
qed

section \<open>Laws of the search\<close>

definition occurs :: "bytes \<Rightarrow> bytes \<Rightarrow> nat \<Rightarrow> bool" where
  "occurs p s q \<longleftrightarrow> q + length p \<le> length s \<and> take (length p) (drop q s) = p"

lemma str_find_loop_scan:
  "str_find_loop str c p s slen = scan_up (\<lambda>q. str ! q = c \<and> take (length p) (drop (q + 1) str) = p) s (s + slen)"
proof (induction str c p s slen rule: str_find_loop.induct)
  case (1 str c p s slen)
  let ?P = "\<lambda>q. str ! q = c \<and> take (length p) (drop (q + 1) str) = p"
  show ?case
  proof (cases "memchr str c s slen")
    case None
    then have n: "\<forall>k. s \<le> k \<and> k < s + slen \<longrightarrow> str ! k \<noteq> c" by (simp add: memchr_def scan_up_None)
    then have "scan_up ?P s (s + slen) = None" by (simp add: scan_up_None)
    moreover have "str_find_loop str c p s slen = None" using None by (simp add: str_find_loop.simps [of str c p s slen])
    ultimately show ?thesis by simp
  next
    case (Some q)
    then have q: "s \<le> q" "q < s + slen" "str ! q = c" "\<forall>k. s \<le> k \<and> k < q \<longrightarrow> str ! k \<noteq> c"
      using scan_up_Some [of "\<lambda>j. str ! j = c" s "s + slen" q] by (auto simp: memchr_def)
    show ?thesis
    proof (cases "take (length p) (drop (q + 1) str) = p")
      case True
      then have "scan_up ?P s (s + slen) = Some q" using q by (intro scan_up_eq_SomeI) auto
      then show ?thesis using Some True q by (simp add: str_find_loop.simps [of str c p s slen])
    next
      case False
      have "str_find_loop str c p s slen = scan_up ?P (q + 1) (s + slen)"
        using "1.IH" [of q] Some False q by (simp add: str_find_loop.simps [of str c p s slen] add.commute)
      also have "\<dots> = scan_up ?P s (s + slen)"
      proof (cases "scan_up ?P (q + 1) (s + slen)")
        case None
        have "\<not> ?P k" if "s \<le> k" "k < s + slen" for k
        proof (cases "k < q" "k = q" rule: bool.exhaust [case_product bool.exhaust])
          case False_False
          then show ?thesis using None that by (simp add: scan_up_None)
        qed (use q False that in auto)
        then have "scan_up ?P s (s + slen) = None" by (simp add: scan_up_None)
        then show ?thesis using None by simp
      next
        case (Some r)
        note r = scan_up_Some [OF Some]
        have "\<not> ?P k" if "s \<le> k" "k < r" for k
        proof (cases "k < q" "k = q" rule: bool.exhaust [case_product bool.exhaust])
          case False_False
          then show ?thesis using r that by simp
        qed (use q False that in auto)
        then have "scan_up ?P s (s + slen) = Some r" using r q by (intro scan_up_eq_SomeI) auto
        then show ?thesis using Some by simp
      qed
      finally show ?thesis .
    qed
  qed
qed

text \<open>
  C20. The search for a fixed string returns the first position at which it occurs, and nothing
  exactly if it occurs nowhere.
\<close>

theorem str_find_first:
  "lj_str_find s p = scan_up (occurs p s) 0 (length s + 1)"
proof (cases p)
  case Nil
  then have "scan_up (occurs p s) 0 (length s + 1) = Some 0" by (intro scan_up_eq_SomeI) (simp_all add: occurs_def)
  then show ?thesis using Nil by (simp add: lj_str_find_def)
next
  case (Cons c ps)
  show ?thesis
  proof (cases "length p \<le> length s")
    case False
    then have "scan_up (occurs p s) 0 (length s + 1) = None" by (simp add: scan_up_None occurs_def)
    then show ?thesis using False by (simp add: lj_str_find_def)
  next
    case True
    let ?P = "\<lambda>q. s ! q = c \<and> take (length ps) (drop (q + 1) s) = ps"
    have o: "occurs p s q \<longleftrightarrow> q < length s - length ps \<and> ?P q" for q
    proof (cases "q < length s - length ps")
      case less: True
      then have "drop q s = s ! q # drop (q + 1) s" by (simp add: Cons_nth_drop_Suc)
      then show ?thesis using less True Cons by (auto simp: occurs_def)
    next
      case False
      then show ?thesis using Cons True by (simp add: occurs_def)
    qed
    have l: "lj_str_find s p = scan_up ?P 0 (length s - length ps)"
      using True Cons by (simp add: lj_str_find_def str_find_loop_scan)
    show ?thesis
    proof (cases "scan_up ?P 0 (length s - length ps)")
      case None
      then have "scan_up (occurs p s) 0 (length s + 1) = None" by (auto simp: scan_up_None o)
      then show ?thesis using l None by simp
    next
      case (Some q)
      note q = scan_up_Some [OF Some]
      have "scan_up (occurs p s) 0 (length s + 1) = Some q"
        using q by (intro scan_up_eq_SomeI) (auto simp: o)
      then show ?thesis using l Some by simp
    qed
  qed
qed

end
