(* ===== verification/LjPrng.thy ===== *)
theory LjPrng
  imports LjPrelude
begin

text \<open>
  The pseudo-random number generator (\<^verbatim>\<open>lj_prng.c\<close>, \<^verbatim>\<open>lj_prng.h\<close>): four combined LFSR
  generators. Seeding from the operating system is not modelled; the conditioning of such a seed is.
\<close>

record prngstate =
  pu0 :: u64
  pu1 :: u64
  pu2 :: u64
  pu3 :: u64

text \<open>The update of one generator; the high mask is \<open>(uint64_t)(int64_t)-1 << (64-k)\<close>.\<close>

definition TW223_GEN :: "u64 \<Rightarrow> nat \<Rightarrow> nat \<Rightarrow> nat \<Rightarrow> u64" where
  "TW223_GEN z k q s =
     drop_bit (k - s) (push_bit q z XOR z) XOR push_bit s (z AND push_bit (64 - k) (- 1))"

definition TW223_STEP :: "prngstate \<Rightarrow> u64 \<times> prngstate" where
  "TW223_STEP rs =
     (let z0 = TW223_GEN (pu0 rs) 63 31 18; z1 = TW223_GEN (pu1 rs) 58 19 28;
          z2 = TW223_GEN (pu2 rs) 55 24 7; z3 = TW223_GEN (pu3 rs) 47 21 8
      in ((((0 XOR z0) XOR z1) XOR z2) XOR z3, \<lparr>pu0 = z0, pu1 = z1, pu2 = z2, pu3 = z3\<rparr>))"

definition lj_prng_u64 :: "prngstate \<Rightarrow> u64 \<times> prngstate" where
  "lj_prng_u64 rs = TW223_STEP rs"

definition lj_prng_u64d :: "prngstate \<Rightarrow> u64 \<times> prngstate" where
  "lj_prng_u64d rs =
     (let (r, rs) = TW223_STEP rs in ((r AND 0x000fffffffffffff) OR 0x3ff0000000000000, rs))"

definition lj_prng_condition :: "prngstate \<Rightarrow> prngstate" where
  "lj_prng_condition rs =
     (let c = (\<lambda>u b. if u < push_bit b 1 then u + push_bit b 1 else u)
      in \<lparr>pu0 = c (pu0 rs) 1, pu1 = c (pu1 rs) 6, pu2 = c (pu2 rs) 9, pu3 = c (pu3 rs) 17\<rparr>)"

definition lj_prng_seed_fixed :: prngstate where
  "lj_prng_seed_fixed =
     \<lparr>pu0 = 0xa0d277570a345b8c, pu1 = 0x764a296c5d4aa64f, pu2 = 0x51220704070adeaa, pu3 = 0x2a2717b5a7b7b927\<rparr>"

section \<open>Valid states\<close>

text \<open>
  A generator must not be stuck at zero: its state is the top \<open>k\<close> bits of its word, and they must
  not all be zero.
\<close>

definition gen_ok :: "nat \<Rightarrow> u64 \<Rightarrow> bool" where
  "gen_ok k z \<longleftrightarrow> 2 ^ (64 - k) \<le> unat z"

definition prng_ok :: "prngstate \<Rightarrow> bool" where
  "prng_ok rs \<longleftrightarrow> gen_ok 63 (pu0 rs) \<and> gen_ok 58 (pu1 rs) \<and> gen_ok 55 (pu2 rs) \<and> gen_ok 47 (pu3 rs)"

lemma gen_ok_bits: "k \<le> 64 \<Longrightarrow> gen_ok k z \<longleftrightarrow> (\<exists>i. 64 - k \<le> i \<and> bit z i)"
proof -
  have "take_bit (64 - k) z = z \<longleftrightarrow> (\<forall>i. bit z i \<longrightarrow> i < 64 - k)"
    using bit_imp_le_length [of z] by (auto simp: bit_eq_iff bit_take_bit_iff)
  moreover have "take_bit (64 - k) z = z \<longleftrightarrow> unat z < 2 ^ (64 - k)"
  proof -
    have "take_bit (64 - k) z = z \<longleftrightarrow> take_bit (64 - k) (unat z) = unat z"
      by (simp add: word_unat_eq_iff unsigned_take_bit_eq)
    then show ?thesis by (simp add: take_bit_nat_eq_self_iff)
  qed
  ultimately show ?thesis by (auto simp: gen_ok_def not_less)
qed

lemma bit_gen:
  assumes "0 < s" "s < k" "k \<le> 64" "i < 64"
  shows "bit (TW223_GEN z k q s) i \<longleftrightarrow>
    (i + (k - s) < 64 \<and> (bit z (i + (k - s)) \<noteq> (q \<le> i + (k - s) \<and> bit z (i + (k - s) - q))))
    \<noteq> (64 - k + s \<le> i \<and> bit z (i - s))"
proof -
  have a: "bit (drop_bit (k - s) (push_bit q z XOR z)) i \<longleftrightarrow>
      i + (k - s) < 64 \<and> (bit z (i + (k - s)) \<noteq> (q \<le> i + (k - s) \<and> bit z (i + (k - s) - q)))"
    using bit_imp_le_length [of z "i + (k - s)"]
    by (auto simp: bit_drop_bit_eq bit_xor_iff bit_push_bit_iff add.commute)
  define w where "w = z AND push_bit (64 - k) (- 1)"
  have w: "bit w j \<longleftrightarrow> 64 - k \<le> j \<and> bit z j" for j
    using bit_imp_le_length [of z j] by (auto simp: w_def bit_and_iff bit_push_bit_iff bit_not_iff bit_mask_iff)
  have "bit (push_bit s w) i \<longleftrightarrow> 64 - k + s \<le> i \<and> bit z (i - s)"
    using assms(4) by (auto simp: bit_push_bit_iff w)
  then show ?thesis using a by (simp only: TW223_GEN_def bit_xor_iff w_def)
qed

text \<open>The step is injective on the significant bits, so it never leads to the stuck state.\<close>

lemma gen_step:
  assumes par: "0 < s" "s < k" "k \<le> 64" "0 < q" "s + q \<le> k" and ok: "gen_ok k z"
  shows "gen_ok k (TW223_GEN z k q s)"
proof (rule ccontr)
  assume "\<not> ?thesis"
  then have z0: "\<not> bit (TW223_GEN z k q s) i" if "64 - k \<le> i" for i
    using that gen_ok_bits [OF par(3)] by blast
  have mid: "\<not> bit z j" if "64 - k \<le> j" "j < 64 - s" for j
  proof -
    have "\<not> bit (TW223_GEN z k q s) (j + s)" by (rule z0) (use that in simp)
    moreover have "j + s < 64" "64 - k + s \<le> j + s" "\<not> j + s + (k - s) < 64" using that par by auto
    ultimately show ?thesis using bit_gen [OF par(1-3), of "j + s" z q] by simp
  qed
  have "\<not> bit z j" if "64 - k \<le> j" for j
    using that
  proof (induction j rule: less_induct)
    case (less j)
    show ?case
    proof (cases "j < 64 - s \<or> 64 \<le> j")
      case True
      then show ?thesis using mid less.prems by (auto dest: bit_imp_le_length)
    next
      case False
      define i where "i = j - (k - s)"
      have i: "64 - k \<le> i" "i < 64" "i + (k - s) = j" "\<not> 64 - k + s \<le> i" "q \<le> j" "64 - k \<le> j - q" "j - q < j"
        using False par less.prems by (auto simp: i_def)
      have "\<not> bit z (j - q)" by (rule less.IH) (use i in simp_all)
      then show ?thesis using z0 [OF i(1)] bit_gen [OF par(1-3) i(2), of z q] False i by simp
    qed
  qed
  then show False using ok gen_ok_bits [OF par(3)] by blast
qed

lemma prng_step_ok: "prng_ok rs \<Longrightarrow> prng_ok (snd (TW223_STEP rs))"
  by (simp add: prng_ok_def TW223_STEP_def Let_def gen_step)

lemma condition_ok: "prng_ok (lj_prng_condition rs)"
proof -
  have p: "unat (push_bit b 1 :: u64) = 2 ^ b" if "b \<le> 17" for b
  proof -
    have "(2::nat) ^ b \<le> 2 ^ 17" using that by (intro power_increasing) simp_all
    then have "unat (of_nat (2 ^ b) :: u64) = 2 ^ b" by (intro unat_of_nat64) simp
    then show ?thesis by (simp add: push_bit_of_1)
  qed
  have "gen_ok (64 - b) (if u < push_bit b 1 then u + push_bit b 1 else u)" if "b \<le> 17" for u :: u64 and b
  proof (cases "u < push_bit b 1")
    case True
    have b17: "(2::nat) ^ b \<le> 2 ^ 17" using that by (intro power_increasing) simp_all
    have "unat u < 2 ^ b" using True p [OF that] by (simp add: word_less_nat_alt)
    then have "unat (u + push_bit b 1) = unat u + 2 ^ b"
      using p [OF that] b17 by (subst unat_add_lem [THEN iffD1]) (simp_all)
    then show ?thesis using True that by (simp add: gen_ok_def)
  next
    case False
    then show ?thesis using p [OF that] that by (simp add: gen_ok_def word_less_nat_alt not_less)
  qed
  note c = this [of 1 "pu0 rs"] this [of 6 "pu1 rs"] this [of 9 "pu2 rs"] this [of 17 "pu3 rs"]
  have e: "63 = 64 - (1::nat)" "58 = 64 - (6::nat)" "55 = 64 - (9::nat)" "47 = 64 - (17::nat)"
    "(1::nat) \<le> 17" "(6::nat) \<le> 17" "(9::nat) \<le> 17" "(17::nat) \<le> 17" by simp_all
  show ?thesis unfolding prng_ok_def lj_prng_condition_def Let_def prngstate.select_convs e(1-4)
    by (intro conjI c e)
qed

text \<open>Only the significant bits matter for what comes next.\<close>

lemma gen_top:
  assumes "0 < s" "s < k" "k \<le> 64" "64 - k + s + q \<le> k" "\<And>i. 64 - k \<le> i \<Longrightarrow> bit z i = bit z' i"
  shows "TW223_GEN z k q s = TW223_GEN z' k q s"
proof (rule bit_word_eqI)
  fix i assume "i < LENGTH(64)"
  then have i: "i < 64" by simp
  have "bit z (i + (k - s)) = bit z' (i + (k - s))" "bit z (i + (k - s) - q) = bit z' (i + (k - s) - q)"
    using assms by (auto intro!: assms(5))
  moreover have "64 - k + s \<le> i \<Longrightarrow> bit z (i - s) = bit z' (i - s)" by (auto intro!: assms(5))
  ultimately show "bit (TW223_GEN z k q s) i = bit (TW223_GEN z' k q s) i"
    unfolding bit_gen [OF assms(1-3) i] by auto
qed

text \<open>
  C17. From a conditioned or the fixed seed, the generator never reaches a state in which one of its
  four parts is stuck: the significant bits of each part stay non-zero after any number of steps.
\<close>

theorem prng_never_stuck:
  "prng_ok (lj_prng_condition rs) \<and> prng_ok lj_prng_seed_fixed
    \<and> prng_ok (((\<lambda>rs. snd (lj_prng_u64 rs)) ^^ n) (lj_prng_condition rs))
    \<and> prng_ok (((\<lambda>rs. snd (lj_prng_u64d rs)) ^^ n) lj_prng_seed_fixed)"
proof -
  have f: "prng_ok lj_prng_seed_fixed" by (simp add: prng_ok_def gen_ok_def lj_prng_seed_fixed_def)
  have s: "prng_ok rs \<Longrightarrow> prng_ok (snd (lj_prng_u64 rs)) \<and> prng_ok (snd (lj_prng_u64d rs))" for rs
    using prng_step_ok [of rs] by (cases "TW223_STEP rs") (simp add: lj_prng_u64_def lj_prng_u64d_def)
  have "prng_ok (((\<lambda>rs. snd (lj_prng_u64 rs)) ^^ n) (lj_prng_condition rs))"
    by (induction n) (simp_all add: condition_ok s)
  moreover have "prng_ok (((\<lambda>rs. snd (lj_prng_u64d rs)) ^^ n) lj_prng_seed_fixed)"
    by (induction n) (simp_all add: f s)
  ultimately show ?thesis using f condition_ok by blast
qed

end
