(* ===== verification/LjStrTab.thy ===== *)
theory LjStrTab
  imports LjStr LjPrng LjObj "HOL-Library.Multiset"
begin

text \<open>
  String interning (\<^verbatim>\<open>lj_str.c\<close>): the two keyed hashes, the interning table with its chains and
  their secondary-hash marks, growth, rehashing of long chains, allocation of string objects. A chain
  is the list of its string objects; the mark is the low bit of the chain anchor. The address of a
  new object, which comes from the memory allocator, is an argument of \<open>lj_str_new\<close>.
\<close>

section \<open>State\<close>

record gcstr =
  gs_ref :: gcref
  gs_data :: bytes
  gs_hash :: u32
  gs_hashalg :: bool
  gs_sid :: u32
  gs_marked :: u8

type_synonym strtab = "(bool \<times> gcstr list) list"

record strstate =
  st_tab :: strtab
  st_mask :: u32
  st_num :: u32
  st_id :: u32
  st_idreseed :: u8
  st_second :: bool
  st_seed :: u64
  st_prng :: prngstate
  st_white :: u8
  st_sweep :: bool
  st_empty :: gcstr

datatype str_err = LJ_ERR_STROV | STR_NESTED

definition LJ_MIN_STRTAB :: nat where "LJ_MIN_STRTAB = 256"
definition LJ_STR_MAXCOLL :: nat where "LJ_STR_MAXCOLL = 32"
definition STRID_RESEED_INTERVAL :: nat where "STRID_RESEED_INTERVAL = 8"
definition LJ_GC_WHITES :: u8 where "LJ_GC_WHITES = 0x01 OR 0x02"
definition LJ_GC_COLORS :: u8 where "LJ_GC_COLORS = LJ_GC_WHITES OR 0x04"

definition otherwhite :: "strstate \<Rightarrow> u8" where "otherwhite st = st_white st XOR LJ_GC_WHITES"
definition curwhite :: "strstate \<Rightarrow> u8" where "curwhite st = st_white st AND LJ_GC_WHITES"
definition str_isdead :: "strstate \<Rightarrow> gcstr \<Rightarrow> bool" where
  "str_isdead st s \<longleftrightarrow> gs_marked s AND otherwhite st AND LJ_GC_WHITES \<noteq> 0"
definition flipwhite :: "gcstr \<Rightarrow> gcstr" where
  "flipwhite s = s\<lparr>gs_marked := gs_marked s XOR LJ_GC_WHITES\<rparr>"
definition makewhite :: "strstate \<Rightarrow> gcstr \<Rightarrow> gcstr" where
  "makewhite st s = s\<lparr>gs_marked := (gs_marked s AND NOT LJ_GC_COLORS) OR curwhite st\<rparr>"

section \<open>Hashes\<close>

definition hash_sparse :: "u64 \<Rightarrow> bytes \<Rightarrow> u32" where
  "hash_sparse seed str =
     (let len = length str; h = of_nat len XOR ucast seed;
          (a, b, h) = (if 4 \<le> len then
             let a = lj_getu32 str 0; h = h XOR lj_getu32 str (len - 4); b = lj_getu32 str (len div 2 - 2);
                 h = h XOR b; h = h - lj_rol b 14; b = b + lj_getu32 str (len div 4 - 1)
             in (a, b, h)
           else
             let a = ucast (getb str 0); h = h XOR ucast (getb str (len - 1)); b = ucast (getb str (len div 2));
                 h = h XOR b; h = h - lj_rol b 14
             in (a, b, h));
          a = a XOR h; a = a - lj_rol h 11;
          b = b XOR a; b = b - lj_rol a 25;
          h = h XOR b; h = h - lj_rol b 16
      in h)"

text \<open>The block loop of the dense hash: \<open>p\<close> is the block read next, \<open>q\<close> the one after it.\<close>

function hash_dense_loop :: "bytes \<Rightarrow> nat \<Rightarrow> nat \<Rightarrow> nat \<Rightarrow> u32 \<times> u32 \<times> u32 \<Rightarrow> u32 \<times> u32 \<times> u32" where
  "hash_dense_loop str pe p q abh =
     (let (a, b, h) = abh;
          a = a + lj_getu32 str p; b = b + lj_getu32 str (p + 4); h = h + lj_getu32 str (p + 8);
          p = q; q = q + 12;
          h = h XOR b; h = h - lj_rol b 14;
          a = a XOR h; a = a - lj_rol h 11;
          b = b XOR a; b = b - lj_rol a 25
      in if p < pe then hash_dense_loop str pe p q (a, b, h) else (a, b, h))"
  by pat_completeness auto
termination
  by (relation "measure (\<lambda>(str, pe, p, q, abh). pe - q)") auto

declare hash_dense_loop.simps [simp del]

definition hash_dense :: "u64 \<Rightarrow> u32 \<Rightarrow> bytes \<Rightarrow> u32" where
  "hash_dense seed h str =
     (let b = lj_bswap (lj_rol (h XOR ucast (drop_bit 32 seed)) 4); len = length str in
      if 12 < len then
        let (a, b, h) = hash_dense_loop str (len - 12) (len - 12) 0 (ucast seed, b, h);
            h = h XOR b; h = h - lj_rol b 16;
            a = a XOR h; a = a - lj_rol h 4;
            b = b XOR a; b = b - lj_rol a 14
        in b
      else b)"

section \<open>Resizing\<close>

definition bucket :: "u32 \<Rightarrow> u32 \<Rightarrow> nat" where "bucket msk h = unat (h AND msk)"

text \<open>Insertion at the head of a chain; the mark of the anchor stays.\<close>

definition tab_push :: "strtab \<Rightarrow> nat \<Rightarrow> gcstr \<Rightarrow> strtab" where
  "tab_push tab i s = tab[i := (fst (tab ! i), s # snd (tab ! i))]"

definition tab_strings :: "strtab \<Rightarrow> gcstr list" where
  "tab_strings tab = concat (map snd (rev tab))"

text \<open>The primary chain lengths, and the marks of the new table.\<close>

definition primary_count :: "u64 \<Rightarrow> u32 \<Rightarrow> gcstr list \<Rightarrow> nat \<Rightarrow> nat" where
  "primary_count seed newmask ss i =
     length (filter (\<lambda>s. bucket newmask (if gs_hashalg s then hash_sparse seed (gs_data s) else gs_hash s) = i) ss)"

definition resize_marks :: "strstate \<Rightarrow> u32 \<Rightarrow> bool list" where
  "resize_marks st newmask =
     map (\<lambda>i. st_second st \<and> LJ_STR_MAXCOLL < primary_count (st_seed st) newmask (tab_strings (st_tab st)) i)
       [0..<unat newmask + 1]"

definition reinsert :: "u64 \<Rightarrow> u32 \<Rightarrow> gcstr \<Rightarrow> strtab \<Rightarrow> strtab" where
  "reinsert seed newmask s newtab =
     (if \<not> gs_hashalg s then
        if fst (newtab ! bucket newmask (gs_hash s)) then
          let h = hash_dense seed (gs_hash s) (gs_data s)
          in tab_push newtab (bucket newmask h) (s\<lparr>gs_hash := h, gs_hashalg := True\<rparr>)
        else tab_push newtab (bucket newmask (gs_hash s)) s
      else
        let shash = hash_sparse seed (gs_data s) in
        if fst (newtab ! bucket newmask shash) then tab_push newtab (bucket newmask (gs_hash s)) s
        else tab_push newtab (bucket newmask shash) (s\<lparr>gs_hash := shash, gs_hashalg := False\<rparr>))"

definition lj_str_resize :: "strstate \<Rightarrow> u32 \<Rightarrow> strstate" where
  "lj_str_resize st newmask =
     (if st_sweep st \<or> LJ_MAX_STRTAB - 1 \<le> unat newmask then st
      else
        let marks = resize_marks st newmask;
            newtab = fold (reinsert (st_seed st) newmask) (tab_strings (st_tab st)) (map (\<lambda>m. (m, [])) marks)
        in st\<lparr>st_tab := newtab, st_mask := newmask,
              st_second := (if st_second st then list_ex id marks else False)\<rparr>)"

section \<open>Interning\<close>

text \<open>The walk along a chain: the string found, with the chain it is revived in, or the collisions counted.\<close>

fun str_chain :: "strstate \<Rightarrow> u32 \<Rightarrow> bytes \<Rightarrow> nat \<Rightarrow> gcstr list \<Rightarrow> gcstr \<times> gcstr list + nat" where
  "str_chain st hash str coll [] = Inr coll"
| "str_chain st hash str coll (s # ss) =
     (if gs_hash s = hash \<and> length (gs_data s) = length str \<and> gs_data s = str then
        let s = (if str_isdead st s then flipwhite s else s) in Inl (s, s # ss)
      else
        (let coll = (if gs_hash s = hash \<and> length (gs_data s) = length str then coll + 1 else coll) in
         case str_chain st hash str (coll + 1) ss of
           Inl (r, ss') \<Rightarrow> Inl (r, s # ss')
         | Inr c \<Rightarrow> Inr c))"

definition str_newid :: "strstate \<Rightarrow> u32 \<times> strstate" where
  "str_newid st =
     (let st = (if st_idreseed st = 0 then
                  let (r, rs) = lj_prng_u64 (st_prng st)
                  in st\<lparr>st_prng := rs, st_id := ucast r, st_idreseed := ucast (drop_bit (64 - STRID_RESEED_INTERVAL) r)\<rparr>
                else st\<lparr>st_idreseed := st_idreseed st - 1\<rparr>)
      in (st_id st, st\<lparr>st_id := st_id st + 1\<rparr>))"

definition lj_str_alloc :: "strstate \<Rightarrow> bytes \<Rightarrow> u32 \<Rightarrow> bool \<Rightarrow> gcref \<Rightarrow> strstate \<times> gcstr" where
  "lj_str_alloc st str hash hashalg r =
     (let (sid, st) = str_newid st;
          s = \<lparr>gs_ref = r, gs_data = str, gs_hash = hash, gs_hashalg = hashalg, gs_sid = sid, gs_marked = curwhite st\<rparr>;
          st = st\<lparr>st_tab := tab_push (st_tab st) (bucket (st_mask st) hash) s\<rparr>;
          num = st_num st; st = st\<lparr>st_num := num + 1\<rparr>
      in (if st_mask st < num then lj_str_resize st (push_bit 1 (st_mask st) + 1) else st, s))"

definition lj_str_free :: "strstate \<Rightarrow> strstate" where
  "lj_str_free st = st\<lparr>st_num := st_num st - 1\<rparr>"

text \<open>Rechaining one string of an overlong chain; while strings are swept, dead ones are freed.\<close>

definition rechain :: "gcstr \<Rightarrow> strstate \<Rightarrow> strstate" where
  "rechain s st =
     (let ow = (if st_sweep st then otherwhite st else 0) in
      if ow \<noteq> 0 \<and> (gs_marked s XOR LJ_GC_WHITES) AND ow = 0 then lj_str_free st
      else
        let s = (if ow \<noteq> 0 then makewhite st s else s);
            s = (if \<not> gs_hashalg s then
                   s\<lparr>gs_hash := hash_dense (st_seed st) (gs_hash s) (gs_data s), gs_hashalg := True\<rparr> else s)
        in st\<lparr>st_tab := tab_push (st_tab st) (bucket (st_mask st) (gs_hash s)) s\<rparr>)"

type_synonym str_result = "str_err + strstate \<times> gcstr"

definition lj_str_rehash_chain :: "(strstate \<Rightarrow> bytes \<Rightarrow> gcref \<Rightarrow> str_result) \<Rightarrow> strstate \<Rightarrow> u32 \<Rightarrow> bytes \<Rightarrow> gcref \<Rightarrow> str_result" where
  "lj_str_rehash_chain again st hashc str r =
     (let i = bucket (st_mask st) hashc; chain = snd (st_tab st ! i);
          st = st\<lparr>st_tab := (st_tab st)[i := (True, [])], st_second := True\<rparr>
      in again (fold rechain chain st) str r)"

definition str_new_step :: "(strstate \<Rightarrow> bytes \<Rightarrow> gcref \<Rightarrow> str_result) \<Rightarrow> strstate \<Rightarrow> bytes \<Rightarrow> gcref \<Rightarrow> str_result" where
  "str_new_step again st str r =
     (let lenx = length str in
      if lenx \<noteq> 0 \<and> lenx - 1 < LJ_MAX_STR - 1 then
        let hash = hash_sparse (st_seed st) str;
            hashalg = fst (st_tab st ! bucket (st_mask st) hash);
            hash = (if hashalg then hash_dense (st_seed st) hash str else hash);
            i = bucket (st_mask st) hash
        in case str_chain st hash str 0 (snd (st_tab st ! i)) of
             Inl (s, chain) \<Rightarrow> Inr (st\<lparr>st_tab := (st_tab st)[i := (fst (st_tab st ! i), chain)]\<rparr>, s)
           | Inr coll \<Rightarrow>
               if LJ_STR_MAXCOLL < coll \<and> \<not> hashalg then lj_str_rehash_chain again st hash str r
               else Inr (lj_str_alloc st str hash hashalg r)
      else if lenx \<noteq> 0 then Inl LJ_ERR_STROV
      else Inr (st, st_empty st))"

text \<open>The retry after rehashing finds a marked chain, so it does not rehash again.\<close>

definition lj_str_new :: "strstate \<Rightarrow> bytes \<Rightarrow> gcref \<Rightarrow> str_result" where
  "lj_str_new = str_new_step (str_new_step (\<lambda>_ _ _. Inl STR_NESTED))"

definition lj_str_init :: "strstate \<Rightarrow> strstate" where
  "lj_str_init st =
     (let (r, rs) = lj_prng_u64 (st_prng st)
      in lj_str_resize (st\<lparr>st_prng := rs, st_seed := r\<rparr>) (of_nat (LJ_MIN_STRTAB - 1)))"

section \<open>The invariant\<close>

text \<open>
  The strings of a table, the hash a string must have given whether its primary chain is marked,
  and what a table must satisfy: each string is in the chain of its hash, hashed with the algorithm
  its primary chain asks for.
\<close>

definition all_strings :: "strtab \<Rightarrow> gcstr list" where
  "all_strings tab = concat (map snd tab)"

definition marked_at :: "u64 \<Rightarrow> u32 \<Rightarrow> (nat \<Rightarrow> bool) \<Rightarrow> bytes \<Rightarrow> bool" where
  "marked_at seed msk F d \<longleftrightarrow> F (bucket msk (hash_sparse seed d))"

definition hash_with :: "u64 \<Rightarrow> bool \<Rightarrow> bytes \<Rightarrow> u32" where
  "hash_with seed alg d = (if alg then hash_dense seed (hash_sparse seed d) d else hash_sparse seed d)"

definition hash_ok :: "u64 \<Rightarrow> gcstr \<Rightarrow> bool" where
  "hash_ok seed s \<longleftrightarrow> gs_hash s = hash_with seed (gs_hashalg s) (gs_data s)"

definition placed :: "u64 \<Rightarrow> u32 \<Rightarrow> strtab \<Rightarrow> bool" where
  "placed seed msk tab \<longleftrightarrow> length tab = unat msk + 1
     \<and> (\<forall>i < length tab. \<forall>s \<in> set (snd (tab ! i)). bucket msk (gs_hash s) = i \<and> hash_ok seed s
          \<and> gs_hashalg s = marked_at seed msk (\<lambda>j. fst (tab ! j)) (gs_data s))"

definition contents :: "gcstr list \<Rightarrow> (bytes \<times> gcref) list" where
  "contents ss = map (\<lambda>s. (gs_data s, gs_ref s)) ss"

definition str_ok :: "strstate \<Rightarrow> bool" where
  "str_ok st \<longleftrightarrow> placed (st_seed st) (st_mask st) (st_tab st)
     \<and> distinct (map gs_data (all_strings (st_tab st))) \<and> distinct (map gs_ref (all_strings (st_tab st)))
     \<and> st_num st = of_nat (length (all_strings (st_tab st)))"

text \<open>The abstraction: the finite map from contents to string objects.\<close>

definition str_map :: "strstate \<Rightarrow> bytes \<Rightarrow> gcref option" where
  "str_map st = map_of (contents (all_strings (st_tab st)))"

lemma bucket_less: "bucket msk h < unat msk + 1"
  using unat_and_le [of h msk] by (simp add: bucket_def less_Suc_eq_le)

lemma tab_push_simps [simp]:
  "length (tab_push tab i s) = length tab"
  "i < length tab \<Longrightarrow> fst (tab_push tab i s ! j) = fst (tab ! j)"
  "i < length tab \<Longrightarrow> snd (tab_push tab i s ! j) = (if i = j then s # snd (tab ! j) else snd (tab ! j))"
  by (simp_all add: tab_push_def nth_list_update)

lemma all_strings_update:
  assumes "i < length tab"
  shows "mset (all_strings (tab[i := (m, ss)])) + mset (snd (tab ! i)) = mset (all_strings tab) + mset ss"
  using assms
proof (induction tab arbitrary: i)
  case (Cons x tab)
  then show ?case by (cases i) (auto simp: all_strings_def ac_simps)
qed simp

lemma all_strings_push:
  "i < length tab \<Longrightarrow> mset (all_strings (tab_push tab i s)) = add_mset s (mset (all_strings tab))"
  using all_strings_update [of i tab "fst (tab ! i)" "s # snd (tab ! i)"] by (simp add: tab_push_def)

lemma set_all_strings: "s \<in> set (all_strings tab) \<longleftrightarrow> (\<exists>i < length tab. s \<in> set (snd (tab ! i)))"
  by (simp add: all_strings_def) (metis in_set_conv_nth)

lemma mset_tab_strings: "mset (tab_strings tab) = mset (all_strings tab)"
  by (induction tab) (simp_all add: tab_strings_def all_strings_def)

lemma map_of_mset:
  assumes "mset xs = mset ys" "distinct (map fst xs)"
  shows "map_of xs = map_of ys"
proof
  have s: "set xs = set ys" using assms(1) by (rule mset_eq_setD)
  have d: "distinct (map fst ys)" using assms by (metis mset_eq_imp_distinct_iff mset_map)
  fix k show "map_of xs k = map_of ys k"
    by (rule map_of_eqI [THEN fun_cong]) (use s assms(2) d in \<open>auto simp: map_of_eq_Some_iff\<close>)
qed

text \<open>The string as a table with the marks \<open>F\<close> holds it.\<close>

definition canon :: "u64 \<Rightarrow> u32 \<Rightarrow> (nat \<Rightarrow> bool) \<Rightarrow> gcstr \<Rightarrow> gcstr" where
  "canon seed msk F s = (let alg = marked_at seed msk F (gs_data s) in
     s\<lparr>gs_hash := hash_with seed alg (gs_data s), gs_hashalg := alg\<rparr>)"

lemma reinsert_canon:
  assumes "hash_ok seed s"
  shows "reinsert seed msk s tab =
    (let s' = canon seed msk (\<lambda>j. fst (tab ! j)) s in tab_push tab (bucket msk (gs_hash s')) s')"
  using assms
  by (cases s) (cases "gs_hashalg s"; auto simp: reinsert_def canon_def hash_ok_def hash_with_def marked_at_def Let_def)

lemma placed_push:
  assumes "placed seed msk tab" "hash_ok seed s" "gs_hashalg s = marked_at seed msk (\<lambda>j. fst (tab ! j)) (gs_data s)"
  shows "placed seed msk (tab_push tab (bucket msk (gs_hash s)) s)"
proof -
  have b: "bucket msk (gs_hash s) < length tab" using assms(1) bucket_less by (simp add: placed_def)
  show ?thesis using assms b by (auto simp: placed_def)
qed

lemma canon_simps [simp]: "gs_data (canon seed msk F s) = gs_data s" "gs_ref (canon seed msk F s) = gs_ref s"
  "hash_ok seed (canon seed msk F s)" "gs_hashalg (canon seed msk F s) = marked_at seed msk F (gs_data s)"
  by (simp_all add: canon_def hash_ok_def Let_def)

text \<open>Reinserting a list of well-hashed strings into a table keeps its marks and adds exactly them.\<close>

lemma fold_reinsert:
  assumes "placed seed msk tab" "\<forall>s \<in> set ss. hash_ok seed s"
  shows "placed seed msk (fold (reinsert seed msk) ss tab)
    \<and> map fst (fold (reinsert seed msk) ss tab) = map fst tab
    \<and> mset (contents (all_strings (fold (reinsert seed msk) ss tab))) = mset (contents ss) + mset (contents (all_strings tab))"
  using assms
proof (induction ss arbitrary: tab)
  case (Cons s ss)
  let ?s = "canon seed msk (\<lambda>j. fst (tab ! j)) s"
  let ?t = "tab_push tab (bucket msk (gs_hash ?s)) ?s"
  have b: "bucket msk (gs_hash ?s) < length tab" using Cons.prems(1) bucket_less by (simp add: placed_def)
  have r: "reinsert seed msk s tab = ?t" using reinsert_canon [of seed s msk tab] Cons.prems(2) by (simp add: Let_def)
  have p: "placed seed msk ?t" by (rule placed_push [OF Cons.prems(1)]) simp_all
  have f: "map fst ?t = map fst tab" using b by (intro nth_equalityI) simp_all
  have m: "mset (contents (all_strings ?t)) = add_mset (gs_data s, gs_ref s) (mset (contents (all_strings tab)))"
    using all_strings_push [OF b, of ?s] by (simp add: contents_def)
  from Cons.IH [OF p] Cons.prems(2) f m show ?case by (simp add: r contents_def)
qed (simp add: contents_def)

lemma placed_hash_ok: "placed seed msk tab \<Longrightarrow> s \<in> set (all_strings tab) \<Longrightarrow> hash_ok seed s"
  by (auto simp: placed_def set_all_strings)

lemma contents_mset_cong: "mset ss = mset ts \<Longrightarrow> mset (contents ss) = mset (contents ts)"
  by (simp add: contents_def)

text \<open>A state with the same contents, well placed, is as good as before.\<close>

lemma str_ok_same:
  assumes ok: "str_ok st" and p: "placed (st_seed st') (st_mask st') (st_tab st')"
    and m: "mset (contents (all_strings (st_tab st'))) = mset (contents (all_strings (st_tab st)))"
    and n: "st_num st' = st_num st"
  shows "str_ok st' \<and> str_map st' = str_map st"
proof -
  let ?c = "contents (all_strings (st_tab st))" and ?c' = "contents (all_strings (st_tab st'))"
  have e: "map fst (contents ss) = map gs_data ss" "map snd (contents ss) = map gs_ref ss" for ss
    by (simp_all add: contents_def)
  have d: "distinct (map fst ?c)" "distinct (map snd ?c)" using ok by (simp_all add: str_ok_def e)
  have d': "distinct (map fst ?c')" "distinct (map snd ?c')"
    using d m by (metis mset_eq_imp_distinct_iff mset_map)+
  have "length ?c' = length ?c" using m by (metis size_mset)
  then have l: "length (all_strings (st_tab st')) = length (all_strings (st_tab st))" by (simp add: contents_def)
  have "str_map st' = str_map st" unfolding str_map_def by (rule map_of_mset [OF m d'(1)])
  then show ?thesis using ok p n l d' by (simp add: str_ok_def e)
qed

lemma empty_marked_placed: "length ms = unat msk + 1 \<Longrightarrow> placed seed msk (map (\<lambda>m. (m, [])) ms)
    \<and> all_strings (map (\<lambda>m. (m, [])) ms) = []"
  by (auto simp: placed_def all_strings_def)

lemma resize_ok_same:
  assumes ok: "str_ok st"
  shows "str_ok (lj_str_resize st newmask) \<and> str_map (lj_str_resize st newmask) = str_map st"
proof (cases "st_sweep st \<or> LJ_MAX_STRTAB - 1 \<le> unat newmask")
  case True
  then show ?thesis using ok by (simp add: lj_str_resize_def)
next
  case False
  let ?st = "lj_str_resize st newmask"
  let ?ms = "resize_marks st newmask"
  let ?ss = "tab_strings (st_tab st)"
  have l: "length ?ms = unat newmask + 1" by (simp add: resize_marks_def)
  have h: "\<forall>s \<in> set ?ss. hash_ok (st_seed st) s"
    using ok placed_hash_ok mset_eq_setD [OF mset_tab_strings [of "st_tab st"]] by (auto simp: str_ok_def)
  have t: "st_tab ?st = fold (reinsert (st_seed st) newmask) ?ss (map (\<lambda>m. (m, [])) ?ms)"
    "st_seed ?st = st_seed st" "st_mask ?st = newmask" "st_num ?st = st_num st"
    using False by (simp_all add: lj_str_resize_def Let_def)
  note e = empty_marked_placed [OF l, of "st_seed st"]
  note f = fold_reinsert [OF conjunct1 [OF e] h]
  have m: "mset (contents (all_strings (st_tab ?st))) = mset (contents (all_strings (st_tab st)))"
    using f e contents_mset_cong [OF mset_tab_strings [of "st_tab st"]] by (simp add: t contents_def)
  show ?thesis by (rule str_ok_same [OF ok _ m]) (use f t in simp_all)
qed

section \<open>Lookup and insertion\<close>

text \<open>What the chain walk returns.\<close>

lemma str_chain_found:
  "str_chain st hash str coll ss = Inl (r, ss') \<Longrightarrow>
    \<exists>ys s zs. ss = ys @ s # zs \<and> ss' = ys @ r # zs \<and> r = (if str_isdead st s then flipwhite s else s) \<and> gs_data s = str"
proof (induction ss arbitrary: coll r ss')
  case (Cons s ss)
  show ?case
  proof (cases "gs_hash s = hash \<and> gs_data s = str")
    case True
    then show ?thesis using Cons.prems by (intro exI [of _ "[]"] exI [of _ s] exI [of _ ss]) (auto simp: Let_def)
  next
    case False
    then obtain c tt where t: "str_chain st hash str c ss = Inl (r, tt)" "ss' = s # tt"
      using Cons.prems by (auto simp: Let_def split: sum.splits if_splits)
    from Cons.IH [OF t(1)] obtain ys u zs where
      "ss = ys @ u # zs" "tt = ys @ r # zs" "r = (if str_isdead st u then flipwhite u else u)" "gs_data u = str" by blast
    then show ?thesis using t(2) by (intro exI [of _ "s # ys"] exI [of _ u] exI [of _ zs]) simp
  qed
qed simp

lemma str_chain_missing:
  "str_chain st hash str coll ss = Inr c \<Longrightarrow> s \<in> set ss \<Longrightarrow> \<not> (gs_hash s = hash \<and> gs_data s = str)"
  by (induction ss arbitrary: coll c) (auto simp: Let_def split: sum.splits if_splits)

lemma flipwhite_simps [simp]: "gs_data (flipwhite s) = gs_data s" "gs_ref (flipwhite s) = gs_ref s"
  "gs_hash (flipwhite s) = gs_hash s" "gs_hashalg (flipwhite s) = gs_hashalg s"
  by (simp_all add: flipwhite_def)

lemma revive_same:
  assumes ok: "str_ok st" and i: "i < length (st_tab st)"
    and c: "snd (st_tab st ! i) = ys @ s # zs" and r: "r = (if str_isdead st s then flipwhite s else s)"
  defines "st' \<equiv> st\<lparr>st_tab := (st_tab st)[i := (fst (st_tab st ! i), ys @ r # zs)]\<rparr>"
  shows "str_ok st' \<and> str_map st' = str_map st"
proof -
  have rs: "gs_data r = gs_data s" "gs_ref r = gs_ref s" "gs_hash r = gs_hash s" "gs_hashalg r = gs_hashalg s" using r by auto
  let ?f = "\<lambda>s. (gs_data s, gs_ref s)"
  have e: "mset (all_strings (st_tab st')) + mset (ys @ s # zs) = mset (all_strings (st_tab st)) + mset (ys @ r # zs)"
    unfolding st'_def using all_strings_update [OF i, of "fst (st_tab st ! i)" "ys @ r # zs"] c by simp
  have "image_mset ?f (mset (all_strings (st_tab st')) + mset (ys @ s # zs)) = image_mset ?f (mset (all_strings (st_tab st)) + mset (ys @ r # zs))"
    by (simp only: e)
  then have m: "mset (contents (all_strings (st_tab st'))) = mset (contents (all_strings (st_tab st)))"
    using rs by (simp add: contents_def)
  have mk: "fst (st_tab st' ! j) = fst (st_tab st ! j)" for j by (simp add: st'_def nth_list_update i)
  have p: "placed (st_seed st) (st_mask st) (st_tab st)" using ok by (simp add: str_ok_def)
  have "placed (st_seed st') (st_mask st') (st_tab st')"
    unfolding placed_def mk
  proof (intro conjI allI impI ballI)
    show "length (st_tab st') = unat (st_mask st') + 1" using p by (simp add: st'_def placed_def)
    fix j x assume j: "j < length (st_tab st')" and x: "x \<in> set (snd (st_tab st' ! j))"
    define y where "y = (if j = i \<and> x = r then s else x)"
    have "y \<in> set (snd (st_tab st ! j))"
    proof (cases "j = i")
      case True
      then have "x \<in> set (ys @ r # zs)" using x i by (simp add: st'_def)
      then show ?thesis using True c by (auto simp: y_def)
    next
      case False
      then show ?thesis using x by (simp add: st'_def y_def)
    qed
    moreover have "j < length (st_tab st)" using j by (simp add: st'_def)
    ultimately have y: "bucket (st_mask st) (gs_hash y) = j \<and> hash_ok (st_seed st) y
      \<and> gs_hashalg y = marked_at (st_seed st) (st_mask st) (\<lambda>j. fst (st_tab st ! j)) (gs_data y)"
      using p unfolding placed_def by blast
    have "gs_data y = gs_data x" "gs_hash y = gs_hash x" "gs_hashalg y = gs_hashalg x" using rs by (simp_all add: y_def)
    from y [unfolded hash_ok_def this] have "bucket (st_mask st) (gs_hash x) = j \<and> hash_ok (st_seed st) x
      \<and> gs_hashalg x = marked_at (st_seed st) (st_mask st) (\<lambda>j. fst (st_tab st ! j)) (gs_data x)"
      unfolding hash_ok_def .
    then show "bucket (st_mask st') (gs_hash x) = j" "hash_ok (st_seed st') x"
      "gs_hashalg x = marked_at (st_seed st') (st_mask st') (\<lambda>j. fst (st_tab st ! j)) (gs_data x)"
      by (simp_all add: st'_def)
  qed
  then show ?thesis by (rule str_ok_same [OF ok _ m]) (simp add: st'_def)
qed

lemma str_newid_simps: "str_newid st = (sid, st') \<Longrightarrow>
    st_tab st' = st_tab st \<and> st_mask st' = st_mask st \<and> st_num st' = st_num st \<and> st_seed st' = st_seed st
    \<and> st_sweep st' = st_sweep st \<and> st_white st' = st_white st"
  by (auto simp: str_newid_def Let_def split: prod.splits if_splits)

text \<open>A new string in the chain of its hash.\<close>

lemma push_new:
  assumes ok: "str_ok st" and s: "hash_ok (st_seed st) s"
      "gs_hashalg s = marked_at (st_seed st) (st_mask st) (\<lambda>j. fst (st_tab st ! j)) (gs_data s)"
    and new: "str_map st (gs_data s) = None" "gs_ref s \<notin> ran (str_map st)"
  defines "st' \<equiv> st\<lparr>st_tab := tab_push (st_tab st) (bucket (st_mask st) (gs_hash s)) s, st_num := st_num st + 1\<rparr>"
  shows "str_ok st' \<and> str_map st' = (str_map st)(gs_data s \<mapsto> gs_ref s)"
proof -
  have p: "placed (st_seed st) (st_mask st) (st_tab st)" using ok by (simp add: str_ok_def)
  then have b: "bucket (st_mask st) (gs_hash s) < length (st_tab st)" using bucket_less by (simp add: placed_def)
  have m: "mset (all_strings (st_tab st')) = mset (s # all_strings (st_tab st))"
    unfolding st'_def using all_strings_push [OF b, of s] by simp
  have nd: "gs_data s \<notin> gs_data ` set (all_strings (st_tab st))"
    using new(1) by (auto simp: str_map_def map_of_eq_None_iff contents_def image_iff)
  have dd: "distinct (map fst (contents (all_strings (st_tab st))))" using ok by (simp add: str_ok_def contents_def comp_def)
  have nr: "gs_ref s \<notin> gs_ref ` set (all_strings (st_tab st))"
  proof
    assume "gs_ref s \<in> gs_ref ` set (all_strings (st_tab st))"
    then obtain x where x: "x \<in> set (all_strings (st_tab st))" "gs_ref s = gs_ref x" by auto
    then have "(gs_data x, gs_ref s) \<in> set (contents (all_strings (st_tab st)))" by (auto simp: contents_def)
    then have "str_map st (gs_data x) = Some (gs_ref s)" unfolding str_map_def by (rule map_of_is_SomeI [OF dd])
    then show False using new(2) by (auto simp: ran_def)
  qed
  have pc: "placed (st_seed st') (st_mask st') (st_tab st')"
    unfolding st'_def using placed_push [OF p s] by simp
  have d1: "distinct (map gs_data (all_strings (st_tab st')))"
  proof -
    have "distinct (map gs_data (s # all_strings (st_tab st)))" using nd ok by (simp add: str_ok_def)
    then show ?thesis using m by (metis mset_eq_imp_distinct_iff mset_map)
  qed
  have d2: "distinct (map gs_ref (all_strings (st_tab st')))"
  proof -
    have "distinct (map gs_ref (s # all_strings (st_tab st)))" using nr ok by (simp add: str_ok_def)
    then show ?thesis using m by (metis mset_eq_imp_distinct_iff mset_map)
  qed
  have "length (all_strings (st_tab st')) = Suc (length (all_strings (st_tab st)))"
    using m by (metis length_Cons size_mset)
  then have n: "st_num st' = of_nat (length (all_strings (st_tab st')))" using ok by (simp add: st'_def str_ok_def)
  have "mset (contents (all_strings (st_tab st'))) = mset (contents (s # all_strings (st_tab st)))"
    by (rule contents_mset_cong [OF m])
  then have "str_map st' = map_of (contents (s # all_strings (st_tab st)))"
    unfolding str_map_def by (rule map_of_mset) (use d1 in \<open>simp add: contents_def comp_def\<close>)
  then show ?thesis using pc d1 d2 n by (simp add: str_ok_def contents_def str_map_def)
qed

lemma str_alloc_ok:
  assumes ok: "str_ok st" and alg: "alg = marked_at (st_seed st) (st_mask st) (\<lambda>j. fst (st_tab st ! j)) str"
    and new: "str_map st str = None" "r \<notin> ran (str_map st)"
  shows "case lj_str_alloc st str (hash_with (st_seed st) alg str) alg r of (st', s) \<Rightarrow>
    str_ok st' \<and> str_map st' = (str_map st)(str \<mapsto> r) \<and> gs_ref s = r \<and> gs_data s = str"
proof -
  obtain sid st1 where i: "str_newid st = (sid, st1)" by fastforce
  note si = str_newid_simps [OF i]
  have ok1: "str_ok st1" "str_map st1 = str_map st" using ok si by (simp_all add: str_ok_def str_map_def)
  define s where "s = \<lparr>gs_ref = r, gs_data = str, gs_hash = hash_with (st_seed st) alg str, gs_hashalg = alg, gs_sid = sid, gs_marked = curwhite st1\<rparr>"
  define st2 where "st2 = st1\<lparr>st_tab := tab_push (st_tab st1) (bucket (st_mask st1) (gs_hash s)) s, st_num := st_num st1 + 1\<rparr>"
  have "hash_ok (st_seed st1) s" "gs_hashalg s = marked_at (st_seed st1) (st_mask st1) (\<lambda>j. fst (st_tab st1 ! j)) (gs_data s)"
    using si alg by (simp_all add: s_def hash_ok_def)
  from push_new [OF ok1(1) this] have n: "str_ok st2 \<and> str_map st2 = (str_map st)(str \<mapsto> r)"
    using new ok1(2) by (simp add: st2_def s_def)
  have "lj_str_alloc st str (hash_with (st_seed st) alg str) alg r
    = (if st_mask st1 < st_num st1 then lj_str_resize st2 (push_bit 1 (st_mask st2) + 1) else st2, s)"
    using i by (simp add: lj_str_alloc_def Let_def s_def st2_def)
  then show ?thesis using n resize_ok_same [of st2] by (simp add: s_def)
qed

section \<open>Rehashing a chain\<close>

lemma rechain_reinsert:
  assumes "\<not> st_sweep st" "hash_ok (st_seed st) s" "fst (st_tab st ! bucket (st_mask st) (hash_sparse (st_seed st) (gs_data s)))"
  shows "rechain s st = st\<lparr>st_tab := reinsert (st_seed st) (st_mask st) s (st_tab st)\<rparr>"
  using assms
  by (cases "gs_hashalg s") (simp_all add: rechain_def reinsert_def hash_ok_def hash_with_def Let_def)

lemma fold_rechain:
  assumes "\<not> st_sweep st" "placed (st_seed st) (st_mask st) (st_tab st)" "\<forall>s \<in> set ss. hash_ok (st_seed st) s
    \<and> fst (st_tab st ! bucket (st_mask st) (hash_sparse (st_seed st) (gs_data s)))"
  shows "fold rechain ss st = st\<lparr>st_tab := fold (reinsert (st_seed st) (st_mask st)) ss (st_tab st)\<rparr>"
  using assms
proof (induction ss arbitrary: st)
  case (Cons s ss)
  let ?tab = "reinsert (st_seed st) (st_mask st) s (st_tab st)"
  let ?st = "st\<lparr>st_tab := ?tab\<rparr>"
  have r: "rechain s st = ?st" using rechain_reinsert Cons.prems by simp
  note f = fold_reinsert [OF Cons.prems(2), of "[s]"]
  have p: "placed (st_seed st) (st_mask st) ?tab" "map fst ?tab = map fst (st_tab st)" using f Cons.prems(3) by simp_all
  have l: "length ?tab = length (st_tab st)" using p(2) by (metis length_map)
  have "fst (?tab ! bucket (st_mask st) h) = fst (st_tab st ! bucket (st_mask st) h)" for h
    using p(2) bucket_less [of "st_mask st" h] Cons.prems(2) l by (metis nth_map placed_def)
  then show ?case using Cons.IH [of ?st] Cons.prems p(1) by (simp add: r)
qed simp

text \<open>Rehashing a chain keeps all strings and marks the chain.\<close>

lemma rehash_chain_ok:
  assumes ok: "str_ok st" and ns: "\<not> st_sweep st" and i: "i < length (st_tab st)" and um: "\<not> fst (st_tab st ! i)"
  defines "st1 \<equiv> st\<lparr>st_tab := (st_tab st)[i := (True, [])], st_second := True\<rparr>"
    and "st2 \<equiv> fold rechain (snd (st_tab st ! i)) (st\<lparr>st_tab := (st_tab st)[i := (True, [])], st_second := True\<rparr>)"
  shows "str_ok st2 \<and> str_map st2 = str_map st \<and> fst (st_tab st2 ! i) \<and> \<not> st_sweep st2 \<and> st_seed st2 = st_seed st \<and> st_mask st2 = st_mask st"
proof -
  let ?seed = "st_seed st" and ?m = "st_mask st" and ?tab = "st_tab st" and ?ch = "snd (st_tab st ! i)"
  have p: "placed ?seed ?m ?tab" using ok by (simp add: str_ok_def)
  have pl: "bucket ?m (gs_hash s) = j" "hash_ok ?seed s" "gs_hashalg s = fst (?tab ! bucket ?m (hash_sparse ?seed (gs_data s)))"
    if "j < length ?tab" "s \<in> set (snd (?tab ! j))" for j s
    using that p unfolding placed_def marked_at_def by blast+
  have mk: "fst (st_tab st1 ! j) = (if j = i then True else fst (?tab ! j))" for j by (simp add: st1_def nth_list_update i)
  have prim: "bucket ?m (hash_sparse ?seed (gs_data s)) = j" if "j < length ?tab" "s \<in> set (snd (?tab ! j))" "\<not> gs_hashalg s" for j s
    using pl [OF that(1,2)] that(3) by (simp add: hash_ok_def hash_with_def)
  have p1: "placed ?seed ?m (st_tab st1)"
    unfolding placed_def
  proof (intro conjI allI impI ballI)
    show "length (st_tab st1) = unat ?m + 1" using p by (simp add: st1_def placed_def)
    fix j s assume j: "j < length (st_tab st1)" and s: "s \<in> set (snd (st_tab st1 ! j))"
    have ji: "j \<noteq> i" using s i by (auto simp: st1_def)
    then have s': "j < length ?tab" "s \<in> set (snd (?tab ! j))" using j s by (simp_all add: st1_def)
    show "bucket ?m (gs_hash s) = j" "hash_ok ?seed s" by (rule pl [OF s'])+
    show "gs_hashalg s = marked_at ?seed ?m (\<lambda>j. fst (st_tab st1 ! j)) (gs_data s)"
      using pl(3) [OF s'] prim [OF s'] ji um unfolding marked_at_def mk by auto
  qed
  have ch: "\<forall>s \<in> set ?ch. hash_ok ?seed s \<and> fst (st_tab st1 ! bucket ?m (hash_sparse ?seed (gs_data s)))"
    using pl [OF i] prim [OF i] unfolding mk by auto
  have f: "st2 = st1\<lparr>st_tab := fold (reinsert ?seed ?m) ?ch (st_tab st1)\<rparr>"
    using fold_rechain [of st1 ?ch] ns p1 ch by (simp add: st2_def st1_def)
  have ch': "\<forall>s \<in> set ?ch. hash_ok ?seed s" using ch by blast
  note r = fold_reinsert [OF p1 ch']
  have e: "mset (all_strings (st_tab st1)) + mset ?ch = mset (all_strings ?tab)"
    unfolding st1_def using all_strings_update [OF i, of True "[]"] by simp
  have "mset (contents ?ch) + mset (contents (all_strings (st_tab st1))) = image_mset (\<lambda>s. (gs_data s, gs_ref s)) (mset (all_strings ?tab))"
    unfolding e [symmetric] by (simp add: contents_def)
  then have m: "mset (contents (all_strings (st_tab st2))) = mset (contents (all_strings ?tab))"
    using r by (simp add: f contents_def)
  have "str_ok st2 \<and> str_map st2 = str_map st"
    by (rule str_ok_same [OF ok _ m]) (use r in \<open>simp_all add: f st1_def\<close>)
  moreover have "fst (st_tab st2 ! i)"
  proof -
    have "map fst (st_tab st2) = map fst (st_tab st1)" using r by (simp add: f)
    moreover have "i < length (st_tab st1)" using i by (simp add: st1_def)
    ultimately have "fst (st_tab st2 ! i) = fst (st_tab st1 ! i)" by (metis length_map nth_map)
    then show ?thesis by (simp add: mk)
  qed
  ultimately show ?thesis using ns by (simp add: f st1_def)
qed

section \<open>The whole operation\<close>

text \<open>Interning as a map operation: an existing object if there is one, else the new one.\<close>

definition interned :: "strstate \<Rightarrow> bytes \<Rightarrow> gcref \<Rightarrow> str_result \<Rightarrow> bool" where
  "interned st str r res \<longleftrightarrow> (\<exists>st' s. res = Inr (st', s) \<and> str_ok st' \<and> gs_data s = str
     \<and> gs_ref s = (case str_map st str of Some x \<Rightarrow> x | None \<Rightarrow> r) \<and> str_map st' = (str_map st)(str \<mapsto> gs_ref s))"

lemma str_new_step_ok:
  assumes ok: "str_ok st" and ns: "\<not> st_sweep st" and l: "str \<noteq> []" "length str < LJ_MAX_STR"
    and new: "r \<notin> ran (str_map st)"
    and again: "\<And>st2. \<not> fst (st_tab st ! bucket (st_mask st) (hash_sparse (st_seed st) str)) \<Longrightarrow>
        str_ok st2 \<Longrightarrow> str_map st2 = str_map st \<Longrightarrow> \<not> st_sweep st2 \<Longrightarrow>
        fst (st_tab st2 ! bucket (st_mask st2) (hash_sparse (st_seed st2) str)) \<Longrightarrow> interned st2 str r (again st2 str r)"
  shows "interned st str r (str_new_step again st str r)"
proof -
  let ?seed = "st_seed st" and ?m = "st_mask st" and ?tab = "st_tab st"
  let ?hs = "hash_sparse ?seed str"
  define alg where "alg = fst (?tab ! bucket ?m ?hs)"
  define h where "h = hash_with ?seed alg str"
  define i where "i = bucket ?m h"
  have p: "placed ?seed ?m ?tab" using ok by (simp add: str_ok_def)
  have i: "i < length ?tab" using p bucket_less by (simp add: i_def placed_def)
  have lx: "length str - 1 < LJ_MAX_STR - 1" using l by (cases str) auto
  have he: "(if alg then hash_dense ?seed ?hs str else ?hs) = h" by (simp add: h_def hash_with_def)
  have dd: "distinct (map fst (contents (all_strings ?tab)))" using ok by (simp add: str_ok_def contents_def comp_def)
  have step: "str_new_step again st str r = (case str_chain st h str 0 (snd (?tab ! i)) of
       Inl (s, chain) \<Rightarrow> Inr (st\<lparr>st_tab := ?tab[i := (fst (?tab ! i), chain)]\<rparr>, s)
     | Inr coll \<Rightarrow> if LJ_STR_MAXCOLL < coll \<and> \<not> alg then lj_str_rehash_chain again st h str r
         else Inr (lj_str_alloc st str h alg r))"
    using l(1) lx unfolding str_new_step_def Let_def alg_def [symmetric] he i_def [symmetric] by simp
  show ?thesis
  proof (cases "str_chain st h str 0 (snd (?tab ! i))")
    case (Inl res)
    obtain s chain where res: "res = (s, chain)" by fastforce
    from str_chain_found [OF Inl [unfolded res]] obtain ys u zs where
      u: "snd (?tab ! i) = ys @ u # zs" "chain = ys @ s # zs" "s = (if str_isdead st u then flipwhite u else u)" "gs_data u = str" by blast
    have "u \<in> set (all_strings ?tab)" using u(1) i by (auto simp: set_all_strings)
    then have "(str, gs_ref u) \<in> set (contents (all_strings ?tab))" using u(4) by (auto simp: contents_def)
    then have "str_map st str = Some (gs_ref u)" unfolding str_map_def by (rule map_of_is_SomeI [OF dd])
    moreover have "gs_ref s = gs_ref u" "gs_data s = str" using u(3,4) by auto
    moreover note revive_same [OF ok i u(1,3)]
    ultimately show ?thesis unfolding interned_def step Inl res u(2) by (auto simp: fun_upd_idem)
  next
    case (Inr coll)
    have miss: "\<not> (gs_hash s = h \<and> gs_data s = str)" if "s \<in> set (snd (?tab ! i))" for s
      by (rule str_chain_missing [OF Inr that])
    have none: "str_map st str = None"
    proof (rule ccontr)
      assume "str_map st str \<noteq> None"
      then obtain y where "(str, y) \<in> set (contents (all_strings ?tab))" by (auto simp: str_map_def dest: map_of_SomeD)
      then obtain s where s: "s \<in> set (all_strings ?tab)" "gs_data s = str" by (auto simp: contents_def)
      then obtain j where j: "j < length ?tab" "s \<in> set (snd (?tab ! j))" by (auto simp: set_all_strings)
      then have a: "bucket ?m (gs_hash s) = j" "hash_ok ?seed s" "gs_hashalg s = marked_at ?seed ?m (\<lambda>j. fst (?tab ! j)) (gs_data s)"
        using p unfolding placed_def by blast+
      then have "gs_hash s = h" using s(2) by (simp add: h_def alg_def marked_at_def hash_ok_def)
      then show False using miss [of s] j a(1) s(2) by (simp add: i_def)
    qed
    show ?thesis
    proof (cases "LJ_STR_MAXCOLL < coll \<and> \<not> alg")
      case True
      then have hb: "bucket ?m h = bucket ?m ?hs" by (simp add: h_def hash_with_def)
      have um: "\<not> fst (?tab ! i)" using True hb by (simp add: i_def alg_def)
      note rc = rehash_chain_ok [OF ok ns i um]
      let ?st2 = "fold rechain (snd (?tab ! i)) (st\<lparr>st_tab := ?tab[i := (True, [])], st_second := True\<rparr>)"
      have "interned ?st2 str r (again ?st2 str r)"
        by (rule again) (use True rc hb in \<open>simp_all add: alg_def i_def\<close>)
      then have "interned st str r (again ?st2 str r)" using rc by (simp add: interned_def)
      then show ?thesis using True Inr step by (simp add: lj_str_rehash_chain_def Let_def i_def)
    next
      case False
      have "alg = marked_at ?seed ?m (\<lambda>j. fst (?tab ! j)) str" by (simp add: alg_def marked_at_def)
      from str_alloc_ok [OF ok this none new] show ?thesis
        using False Inr step none by (auto simp: interned_def h_def split: prod.splits)
    qed
  qed
qed

lemma lj_str_new_ok:
  assumes "str_ok st" "\<not> st_sweep st" "str \<noteq> []" "length str < LJ_MAX_STR" "r \<notin> ran (str_map st)"
  shows "interned st str r (lj_str_new st str r)"
  unfolding lj_str_new_def
proof (rule str_new_step_ok [OF assms])
  fix st2 assume a: "str_ok st2" "str_map st2 = str_map st" "\<not> st_sweep st2"
    "fst (st_tab st2 ! bucket (st_mask st2) (hash_sparse (st_seed st2) str))"
  have "r \<notin> ran (str_map st2)" using a(2) assms(5) by simp
  from str_new_step_ok [OF a(1,3) assms(3,4) this] a(4)
  show "interned st2 str r (str_new_step (\<lambda>_ _ _. Inl STR_NESTED) st2 str r)" by blast
qed

lemma str_init_ok:
  assumes "st_tab st = []" "st_num st = 0" "\<not> st_sweep st"
  shows "str_ok (lj_str_init st) \<and> str_map (lj_str_init st) = Map.empty \<and> \<not> st_sweep (lj_str_init st)"
proof -
  obtain r rs where r: "lj_prng_u64 (st_prng st) = (r, rs)" by fastforce
  let ?st = "st\<lparr>st_prng := rs, st_seed := r\<rparr>"
  have l: "length (resize_marks ?st 255) = unat (255 :: u32) + 1" by (simp add: resize_marks_def)
  note e = empty_marked_placed [OF l, of r]
  have i: "lj_str_init st = ?st\<lparr>st_tab := map (\<lambda>m. (m, [])) (resize_marks ?st 255), st_mask := 255,
      st_second := (if st_second st then list_ex id (resize_marks ?st 255) else False)\<rparr>"
    using assms by (simp add: lj_str_init_def r lj_str_resize_def Let_def tab_strings_def LJ_MIN_STRTAB_def lj_limits)
  show ?thesis using e assms unfolding i by (simp add: str_ok_def str_map_def contents_def)
qed

section \<open>Properties\<close>

text \<open>
  C21. Interning refines a finite map from contents to objects: the object returned for a string is
  the one already there, or the newly allocated one; afterwards the table holds exactly that string
  more, each content once, in the chain its hash selects. Chains that are too long are rehashed with
  the secondary hash and the table grows, neither of which loses or duplicates a string, and the
  retry after a rehash never rehashes again.
\<close>

theorem str_new_interns:
  assumes "str_ok st" and "\<not> st_sweep st" and "str \<noteq> []" and "length str < LJ_MAX_STR" and "r \<notin> ran (str_map st)"
  shows "\<exists>st' s. lj_str_new st str r = Inr (st', s) \<and> str_ok st' \<and> gs_data s = str
    \<and> gs_ref s = (case str_map st str of Some x \<Rightarrow> x | None \<Rightarrow> r) \<and> str_map st' = (str_map st)(str \<mapsto> gs_ref s)"
  using lj_str_new_ok [OF assms] by (simp add: interned_def)

definition ex_strings :: strstate where
  "ex_strings = lj_str_init \<lparr>st_tab = [], st_mask = - 1, st_num = 0, st_id = 0, st_idreseed = 0, st_second = False,
     st_seed = 0, st_prng = lj_prng_seed_fixed, st_white = 1, st_sweep = False,
     st_empty = \<lparr>gs_ref = 8, gs_data = [], gs_hash = 0, gs_hashalg = False, gs_sid = 0, gs_marked = 1\<rparr>\<rparr>"

lemma ex_strings_ok: "str_ok ex_strings \<and> str_map ex_strings = Map.empty \<and> \<not> st_sweep ex_strings"
  unfolding ex_strings_def by (rule str_init_ok) simp_all

theorem str_new_interns_witness:
  "\<exists>st' s. lj_str_new ex_strings [104, 105] 64 = Inr (st', s) \<and> gs_ref s = 64 \<and> str_map st' = [[104, 105] \<mapsto> 64]"
  using str_new_interns [of ex_strings "[104, 105]" 64] ex_strings_ok by (auto simp: lj_limits)

text \<open>
  C22. Resizing the interning table, to any size and whether or not the request is honoured, keeps
  every string and the invariant, while it moves strings between the two hashes as the new chain
  lengths demand.
\<close>

theorem str_resize_keeps:
  assumes "str_ok st"
  shows "str_ok (lj_str_resize st newmask) \<and> str_map (lj_str_resize st newmask) = str_map st"
  by (rule resize_ok_same [OF assms])

theorem str_resize_keeps_witness: "str_map (lj_str_resize ex_strings 511) = Map.empty"
  using str_resize_keeps [of ex_strings 511] ex_strings_ok by simp

end
