(* ===== verification/LjCarith.thy ===== *)
theory LjCarith
  imports LjPrelude LjObj
begin

text \<open>
  Integer arithmetic helpers of the JIT compiler and the FFI: the 32 bit modulo of
  \<^verbatim>\<open>lj_vmmath.c\<close> and the 64 bit shifts, division, modulo and power of \<^verbatim>\<open>lj_carith.c\<close>. A signed
  integer is a word read with \<open>sint\<close>; the C operators on signed operands are written with
  signed comparison (\<open>\<le>s\<close>, \<open><s\<close>), \<open>signed_drop_bit\<close> and the truncating \<open>sdiv\<close>, \<open>smod\<close>.
\<close>

section \<open>Definitions\<close>

definition lj_vm_modi :: "u32 \<Rightarrow> u32 \<Rightarrow> u32" where
  "lj_vm_modi a b =
     (let ua = (if a <s 0 then - a else a);
          ub = (if b <s 0 then - b else b);
          y = ua mod ub;
          y = (if y \<noteq> 0 \<and> a XOR b <s 0 then y - ub else y);
          y = (if y XOR b <s 0 then - y else y)
      in y)"

definition lj_rol64 :: "u64 \<Rightarrow> nat \<Rightarrow> u64" where
  "lj_rol64 x n = (push_bit n x OR drop_bit ((64 - n) mod 64) x)"

definition lj_ror64 :: "u64 \<Rightarrow> nat \<Rightarrow> u64" where
  "lj_ror64 x n = (push_bit ((64 - n) mod 64) x OR drop_bit n x)"

definition lj_carith_shl64 :: "u64 \<Rightarrow> u32 \<Rightarrow> u64" where
  "lj_carith_shl64 x sh = push_bit (unat (sh AND 63)) x"

definition lj_carith_shr64 :: "u64 \<Rightarrow> u32 \<Rightarrow> u64" where
  "lj_carith_shr64 x sh = drop_bit (unat (sh AND 63)) x"

definition lj_carith_sar64 :: "u64 \<Rightarrow> u32 \<Rightarrow> u64" where
  "lj_carith_sar64 x sh = signed_drop_bit (unat (sh AND 63)) x"

definition lj_carith_rol64 :: "u64 \<Rightarrow> u32 \<Rightarrow> u64" where
  "lj_carith_rol64 x sh = lj_rol64 x (unat (sh AND 63))"

definition lj_carith_ror64 :: "u64 \<Rightarrow> u32 \<Rightarrow> u64" where
  "lj_carith_ror64 x sh = lj_ror64 x (unat (sh AND 63))"

definition lj_carith_shift64 :: "u64 \<Rightarrow> u32 \<Rightarrow> nat \<Rightarrow> u64" where
  "lj_carith_shift64 x sh op =
     (if op = 0 then lj_carith_shl64 x sh
      else if op = 1 then lj_carith_shr64 x sh
      else if op = 2 then lj_carith_sar64 x sh
      else if op = 3 then lj_carith_rol64 x sh
      else if op = 4 then lj_carith_ror64 x sh
      else x)"

text \<open>
  The C operators \<open>/\<close> and \<open>%\<close>. A zero divisor and a signed quotient that does not fit are undefined
  behaviour (the processor traps), so nothing is known of the result there: \<open>undefined\<close> has no
  equations, and a property proved of a caller shows that the caller keeps away from these operands.
\<close>

definition c_divu64 :: "u64 \<Rightarrow> u64 \<Rightarrow> u64" where
  "c_divu64 a b = (if b = 0 then undefined else a div b)"

definition c_modu64 :: "u64 \<Rightarrow> u64 \<Rightarrow> u64" where
  "c_modu64 a b = (if b = 0 then undefined else a mod b)"

definition c_divi64 :: "u64 \<Rightarrow> u64 \<Rightarrow> u64" where
  "c_divi64 a b =
     (if b = 0 \<or> sint a = - (2 ^ 63) \<and> sint b = - 1 then undefined
      else word_of_int (sint a sdiv sint b))"

definition c_modi64 :: "u64 \<Rightarrow> u64 \<Rightarrow> u64" where
  "c_modi64 a b =
     (if b = 0 \<or> sint a = - (2 ^ 63) \<and> sint b = - 1 then undefined
      else word_of_int (sint a smod sint b))"

definition lj_carith_divu64 :: "u64 \<Rightarrow> u64 \<Rightarrow> u64" where
  "lj_carith_divu64 a b = (if b = 0 then 0x8000000000000000 else c_divu64 a b)"

definition lj_carith_divi64 :: "u64 \<Rightarrow> u64 \<Rightarrow> u64" where
  "lj_carith_divi64 a b =
     (if b = 0 \<or> a = 0x8000000000000000 \<and> b = - 1 then 0x8000000000000000
      else c_divi64 a b)"

definition lj_carith_modu64 :: "u64 \<Rightarrow> u64 \<Rightarrow> u64" where
  "lj_carith_modu64 a b = (if b = 0 then 0x8000000000000000 else c_modu64 a b)"

definition lj_carith_modi64 :: "u64 \<Rightarrow> u64 \<Rightarrow> u64" where
  "lj_carith_modi64 a b =
     (if b = 0 then 0x8000000000000000
      else if a = 0x8000000000000000 \<and> b = - 1 then 0
      else c_modi64 a b)"

text \<open>
  The two loops of \<open>lj_carith_powu64\<close>. The first runs while the exponent is even; the caller
  has excluded 0, for which it would not end. The second holds the square in \<open>x\<close>, the product
  in \<open>y\<close> and starts with \<open>k \<noteq> 0\<close>.
\<close>

function powu64_even :: "u64 \<Rightarrow> u64 \<Rightarrow> u64 \<times> u64" where
  "powu64_even x k =
     (if k \<noteq> 0 \<and> k AND 1 = 0 then powu64_even (x * x) (drop_bit 1 k) else (x, k))"
  by pat_completeness auto

lemma unat_half: "unat (drop_bit (Suc 0) (k::u64)) = unat k div 2"
  unfolding unat_drop_bit_eq by (simp add: drop_bit_eq_div)

lemma half_less: "k \<noteq> 0 \<Longrightarrow> unat (drop_bit (Suc 0) (k::u64)) < unat k"
  using unat_gt_0 [of k] by (simp only: unat_half) simp

termination powu64_even
  by (relation "measure (\<lambda>(x, k). unat k)") (auto simp: half_less simp del: drop_bit_Suc)

declare powu64_even.simps [simp del]

function powu64_bits :: "u64 \<Rightarrow> u64 \<Rightarrow> u64 \<Rightarrow> u64" where
  "powu64_bits x y k =
     (let x = x * x
      in if k = 0 \<or> k = 1 then y * x
         else powu64_bits x (if k AND 1 \<noteq> 0 then y * x else y) (drop_bit 1 k))"
  by pat_completeness auto
termination
  by (relation "measure (\<lambda>(x, y, k). unat k)") (auto simp: half_less simp del: drop_bit_Suc)

declare powu64_bits.simps [simp del]

definition lj_carith_powu64 :: "u64 \<Rightarrow> u64 \<Rightarrow> u64" where
  "lj_carith_powu64 x k =
     (if k = 0 then 1
      else let (x, k) = powu64_even x k; y = x; k = drop_bit 1 k
           in if k \<noteq> 0 then powu64_bits x y k else y)"

definition lj_carith_powi64 :: "u64 \<Rightarrow> u64 \<Rightarrow> u64" where
  "lj_carith_powi64 x k =
     (if k = 0 then 1
      else if k <s 0 then
        if x = 0 then 0x7fffffffffffffff
        else if x = 1 then 1
        else if x = - 1 then if k AND 1 \<noteq> 0 then - 1 else 1
        else 0
      else lj_carith_powu64 x k)"

section \<open>The power loops\<close>

lemma even_and_1: "(k::u64) AND 1 = 0 \<longleftrightarrow> even (unat k)"
  by (simp add: and_one_eq even_iff_mod_2_eq_zero word_unat_eq_iff unat_mod)

lemma powu64_even_result:
  "k \<noteq> 0 \<Longrightarrow> powu64_even x k = (x', k') \<Longrightarrow> k' \<noteq> 0 \<and> odd (unat k') \<and> x' ^ unat k' = x ^ unat k"
proof (induction x k rule: powu64_even.induct)
  case (1 x k)
  show ?case
  proof (cases "even (unat k)")
    case True
    then obtain n where n: "unat k = 2 * n" by blast
    then have h: "unat (drop_bit (Suc 0) k) = n" by (simp add: unat_half)
    have "n \<noteq> 0" using n "1.prems"(1) unat_gt_0 [of k] by linarith
    then have nz: "drop_bit (Suc 0) k \<noteq> 0" using h by auto
    have "powu64_even (x * x) (drop_bit (Suc 0) k) = (x', k')"
      using 1 True by (simp add: powu64_even.simps [of x k] even_and_1 del: drop_bit_Suc)
    then have "k' \<noteq> 0 \<and> odd (unat k') \<and> x' ^ unat k' = (x * x) ^ n"
      using "1.IH" "1.prems"(1) True nz h by (simp add: even_and_1)
    then show ?thesis by (simp add: n power_mult power2_eq_square)
  next
    case False
    then have "x' = x" "k' = k"
      using "1.prems" by (simp_all add: powu64_even.simps [of x k] even_and_1)
    then show ?thesis using 1 False by simp
  qed
qed

lemma powu64_bits_result: "k \<noteq> 0 \<Longrightarrow> powu64_bits x y k = y * (x * x) ^ unat k"
proof (induction x y k rule: powu64_bits.induct)
  case (1 x y k)
  show ?case
  proof (cases "k = 1")
    case True
    then show ?thesis by (simp add: powu64_bits.simps [of x y 1])
  next
    case False
    define z where "z = x * x"
    have "unat k \<noteq> 1" using False by (auto simp: word_unat_eq_iff)
    moreover have "unat k \<noteq> 0" using 1 by (simp add: unat_eq_zero)
    ultimately have "drop_bit (Suc 0) k \<noteq> 0"
      using unat_half [of k] by (metis One_nat_def div_eq_0_iff le_less_Suc_eq less_2_cases not_less_eq numeral_2_eq_2 unat_0 zero_neq_numeral)
    then have IH: "powu64_bits z (if k AND 1 \<noteq> 0 then y * z else y) (drop_bit (Suc 0) k)
        = (if k AND 1 \<noteq> 0 then y * z else y) * (z * z) ^ (unat k div 2)"
      using 1 False unfolding z_def by (simp add: unat_half split del: if_split)
    have sq: "(z * z) ^ (unat k div 2) = z ^ (2 * (unat k div 2))"
      by (simp add: power_mult power2_eq_square)
    have "powu64_bits x y k = powu64_bits z (if k AND 1 \<noteq> 0 then y * z else y) (drop_bit (Suc 0) k)"
      using 1 False by (simp add: powu64_bits.simps [of x y k] Let_def z_def del: drop_bit_Suc)
    also have "\<dots> = y * z ^ unat k"
    proof (cases "even (unat k)")
      case True
      then show ?thesis unfolding IH sq by (simp add: even_and_1)
    next
      case odd: False
      then have "unat k = Suc (2 * (unat k div 2))" by (metis odd_two_times_div_two_succ Suc_eq_plus1)
      then have "z ^ unat k = z * z ^ (2 * (unat k div 2))" by (metis power_Suc)
      then show ?thesis unfolding IH sq using odd by (simp add: even_and_1 mult.assoc)
    qed
    finally show ?thesis by (simp add: z_def)
  qed
qed

lemma powu64_power: "lj_carith_powu64 x k = x ^ unat k"
proof (cases "k = 0")
  case True
  then show ?thesis by (simp add: lj_carith_powu64_def)
next
  case False
  obtain x' k' where e: "powu64_even x k = (x', k')" by force
  then have r: "k' \<noteq> 0" "odd (unat k')" "x' ^ unat k' = x ^ unat k"
    using powu64_even_result False by blast+
  define h where "h = unat k' div 2"
  have u: "unat k' = Suc (2 * h)" using r by (metis h_def odd_two_times_div_two_succ Suc_eq_plus1)
  have hh: "unat (drop_bit (Suc 0) k') = h" by (simp add: unat_half h_def)
  have "lj_carith_powu64 x k = (if drop_bit (Suc 0) k' \<noteq> 0 then powu64_bits x' x' (drop_bit (Suc 0) k') else x')"
    using False by (simp add: lj_carith_powu64_def e Let_def)
  also have "\<dots> = x' * (x' * x') ^ h"
    using hh by (metis mult.right_neutral power_0 powu64_bits_result unat_0)
  also have "\<dots> = x' ^ unat k'" by (simp add: u power_mult power2_eq_square)
  finally show ?thesis using r by simp
qed


section \<open>Signed words as integers\<close>

lemma sint_of_int32: "- (2 ^ 31) \<le> k \<Longrightarrow> k < 2 ^ 31 \<Longrightarrow> sint (word_of_int k :: u32) = k"
  by (simp add: sint_sbintrunc' signed_take_bit_int_eq_self)

lemma sint_of_int64: "- (2 ^ 63) \<le> k \<Longrightarrow> k < 2 ^ 63 \<Longrightarrow> sint (word_of_int k :: u64) = k"
  by (simp add: sint_sbintrunc' signed_take_bit_int_eq_self)

lemma sint64_bounds: "- (2 ^ 63) \<le> sint (k::u64)" "sint k < 2 ^ 63"
  using sint_lt [of k] sint_ge [of k] by simp_all

lemma neg_iff_bit32: "a <s 0 \<longleftrightarrow> bit (a::u32) 31"
  using bit_last_iff [of a] by (simp add: word_sless_alt)

lemma xor_neg32: "a XOR b <s 0 \<longleftrightarrow> (a <s 0) \<noteq> (b <s (0::u32))"
  by (simp add: neg_iff_bit32 bit_xor_iff)

lemma sint_eqD: "sint (x::'a::len word) = sint y \<Longrightarrow> x = y"
  by (rule signed_word_eqI)

lemma sint64_consts: "sint (x::u64) = 0 \<longleftrightarrow> x = 0" "sint x = 1 \<longleftrightarrow> x = 1" "sint x = - 1 \<longleftrightarrow> x = - 1"
    "sint x = - (2 ^ 63) \<longleftrightarrow> x = 0x8000000000000000"
  using sint_eqD [of x 0] sint_eqD [of x 1] sint_eqD [of x "- 1"] sint_eqD [of x "0x8000000000000000"]
  by auto

lemma abs_word32: "(if a <s 0 then - a else a) = word_of_int \<bar>sint (a::u32)\<bar>"
  by (simp add: word_sless_alt)

lemma uint_abs32: "uint (word_of_int \<bar>sint (a::u32)\<bar> :: u32) = \<bar>sint a\<bar>"
  using sint32_bounds [of a] by (simp add: uint_word_of_int)

lemma mod_abs_int:
  fixes A B :: int
  assumes "B \<noteq> 0" "m = \<bar>A\<bar> mod \<bar>B\<bar>"
    and "n = (if m \<noteq> 0 \<and> (A < 0) \<noteq> (B < 0) then m - \<bar>B\<bar> else m)"
  shows "A mod B = (if (n < 0) \<noteq> (B < 0) then - n else n)"
proof -
  define p q where "p = \<bar>A\<bar>" and "q = \<bar>B\<bar>"
  have pq: "0 < q" "0 \<le> p" "m = p mod q" "0 \<le> m" "m < q" using assms by (simp_all add: p_def q_def)
  consider "A = p" "B = q" | "A = p" "B = - q" "A \<ge> 0" | "A = - p" "B = q" "A < 0" | "A = - p" "B = - q" "A < 0"
    unfolding p_def q_def by linarith
  then show ?thesis
  proof cases
    case 1
    then show ?thesis using pq assms(3) pos_mod_sign [of B A] by auto
  next
    case 2
    then show ?thesis using pq assms(3) zmod_zminus2_eq_if [of p q] by auto
  next
    case 3
    then show ?thesis using pq assms(3) zmod_zminus1_eq_if [of p q] by auto
  next
    case 4
    then show ?thesis using pq assms(3) by auto
  qed
qed

section \<open>Modulo, division and power\<close>

lemma vm_modi_word:
  assumes "b \<noteq> 0"
  shows "lj_vm_modi a b = word_of_int (sint a mod sint b)"
    and "\<bar>sint a mod sint b\<bar> < 2 ^ 31"
proof -
  define m where "m = \<bar>sint a\<bar> mod \<bar>sint b\<bar>"
  define n where "n = (if m \<noteq> 0 \<and> (sint a < 0) \<noteq> (sint b < 0) then m - \<bar>sint b\<bar> else m)"
  have b: "sint b \<noteq> 0" using assms by (simp add: sint32_0)
  have m: "0 \<le> m" "m < \<bar>sint b\<bar>" using b by (simp_all add: m_def)
  have n: "- (2 ^ 31) < n" "n < 2 ^ 31" using m sint32_bounds [of b] by (auto simp: n_def)
  have y: "word_of_int \<bar>sint a\<bar> mod word_of_int \<bar>sint b\<bar> = (word_of_int m :: u32)" (is "?y = _")
    by (metis m_def uint_abs32 uint_mod word_of_int_uint)
  have y0: "(word_of_int m :: u32) = 0 \<longleftrightarrow> m = 0"
    using m sint32_bounds [of b] zdvd_imp_le [of "2 ^ 32" m] by (auto simp: word_of_int_eq_0_iff)
  have w: "(if ?y \<noteq> 0 \<and> a XOR b <s 0 then ?y - word_of_int \<bar>sint b\<bar> else ?y) = word_of_int n"
    unfolding y y0 xor_neg32 n_def by (simp add: word_sless_alt)
  have "word_of_int n XOR b <s 0 \<longleftrightarrow> (n < 0) \<noteq> (sint b < 0)"
    unfolding xor_neg32 using n by (simp add: word_sless_alt sint_of_int32)
  then have "lj_vm_modi a b = word_of_int (if (n < 0) \<noteq> (sint b < 0) then - n else n)"
    unfolding lj_vm_modi_def abs_word32 Let_def w by simp
  then show "lj_vm_modi a b = word_of_int (sint a mod sint b)"
    using mod_abs_int [OF b m_def n_def] by simp
  show "\<bar>sint a mod sint b\<bar> < 2 ^ 31"
    using mod_abs_int [OF b m_def n_def] n by auto
qed

text \<open>
  C23. The 32 bit modulo of the VM is the modulo of the integers, which rounds the quotient
  down and takes the sign of the divisor: also for the smallest integer on either side.
\<close>

theorem lj_vm_modi_floor:
  assumes "b \<noteq> 0"
  shows "sint (lj_vm_modi a b) = sint a mod sint b"
  unfolding vm_modi_word(1) [OF assms] using vm_modi_word(2) [OF assms, of a]
  by (intro sint_of_int32) simp_all

theorem lj_vm_modi_floor_witness:
  "sint (lj_vm_modi (- 7) 3) = 2 \<and> sint (lj_vm_modi 0x80000000 (- 3)) = - 2"
  using lj_vm_modi_floor [of 3 "- 7"] lj_vm_modi_floor [of "- 3" "0x80000000"] by simp


lemma sdiv_power_one: "2 \<le> \<bar>x\<bar> \<Longrightarrow> 0 < n \<Longrightarrow> 1 sdiv (x::int) ^ n = 0"
proof -
  assume x: "2 \<le> \<bar>x\<bar>" "0 < n"
  have "1 < \<bar>x\<bar> ^ n" using x one_less_power [of "\<bar>x\<bar>" n] by simp
  then show ?thesis by (simp add: signed_divide_int_def power_abs)
qed

lemma unat_nonneg64: "\<not> k <s 0 \<Longrightarrow> k \<noteq> 0 \<Longrightarrow> unat k = nat (sint (k::u64))"
  using sint64 [of k] uint_lt2p [of k] unfolding word_sless_alt unat_eq_nat_uint
  by (cases "uint k < 2 ^ 63") simp_all

lemma sint_powi64_neg:
  assumes "k <s 0" "x \<noteq> 0"
  shows "sint (lj_carith_powi64 x k) = 1 sdiv sint x ^ nat (- sint k)"
proof -
  define n where "n = nat (- sint k)"
  have k: "sint k < 0" "k \<noteq> 0" using assms by (auto simp: word_sless_alt)
  have n: "0 < n" using k by (simp add: n_def)
  have par: "k AND 1 \<noteq> 0 \<longleftrightarrow> odd n"
  proof -
    have "k AND 1 \<noteq> 0 \<longleftrightarrow> odd (uint k)" by (simp only: even_and_1 unat_eq_nat_uint even_nat_iff uint_ge_0)
    also have "\<dots> \<longleftrightarrow> odd (sint k)" unfolding sint64 by (cases "uint k < 2 ^ 63") simp_all
    also have "\<dots> \<longleftrightarrow> odd n" using k by (simp add: n_def even_nat_iff)
    finally show ?thesis .
  qed
  consider "x = 1" | "x = - 1" | "x \<noteq> 1" "x \<noteq> - 1" by blast
  then show ?thesis
  proof cases
    case 1
    then show ?thesis using k assms by (simp add: lj_carith_powi64_def)
  next
    case 2
    then show ?thesis
      using k assms par n unfolding n_def [symmetric]
      by (cases "even n") (simp_all add: lj_carith_powi64_def)
  next
    case 3
    have "sint x \<noteq> 0" "sint x \<noteq> 1" "sint x \<noteq> - 1"
      using 3 assms(2) by (simp_all add: sint64_consts)
    then have "2 \<le> \<bar>sint x\<bar>" by linarith
    then show ?thesis
      using k assms 3 n sdiv_power_one [of "sint x" n] unfolding n_def [symmetric]
      by (simp add: lj_carith_powi64_def)
  qed
qed

lemma sdiv64_range:
  fixes a b :: u64
  assumes "b \<noteq> 0" "\<not> (a = 0x8000000000000000 \<and> b = - 1)"
  shows "sint (word_of_int (sint a sdiv sint b) :: u64) = sint a sdiv sint b"
    and "sint (word_of_int (sint a smod sint b) :: u64) = sint a smod sint b"
proof -
  have b: "sint b \<noteq> 0" using assms by (simp add: sint64_consts)
  have r: "- (2 ^ 63) \<le> sint a" "sint a < 2 ^ 63" using sint64_bounds [of a] by simp_all
  have "- (2 ^ 63) \<le> sint a sdiv sint b \<and> sint a sdiv sint b < 2 ^ 63"
  proof (cases "sint b = - 1")
    case True
    then have "b = - 1" by (simp only: sint64_consts)
    then have "a \<noteq> 0x8000000000000000" using assms by simp
    then have "sint a \<noteq> - (2 ^ 63)" by (simp only: sint64_consts not_False_eq_True)
    then show ?thesis using True r by simp
  next
    case False
    show ?thesis
    proof (cases "sint b = 1 \<or> sint a = 0")
      case True
      then show ?thesis using r by auto
    next
      case n: False
      then have "2 \<le> \<bar>sint b\<bar>" using False b by linarith
      then have "\<bar>sint a\<bar> div \<bar>sint b\<bar> < \<bar>sint a\<bar>" using n by (intro int_div_less_self) auto
      moreover have "\<bar>sint a sdiv sint b\<bar> = \<bar>sint a\<bar> div \<bar>sint b\<bar>"
        using n b by (simp add: signed_divide_int_def abs_mult sgn_if pos_imp_zdiv_nonneg_iff)
      ultimately show ?thesis using r by linarith
    qed
  qed
  then show "sint (word_of_int (sint a sdiv sint b) :: u64) = sint a sdiv sint b"
    by (intro sint_of_int64) auto
  have "\<bar>sint a smod sint b\<bar> < \<bar>sint b\<bar>"
    using smod_int_range [OF b, of "sint a"] by auto
  then show "sint (word_of_int (sint a smod sint b) :: u64) = sint a smod sint b"
    using sint64_bounds [of b] by (intro sint_of_int64) auto
qed

lemma int64_overflow: "sint (a::u64) = - (2 ^ 63) \<and> sint (b::u64) = - 1 \<longleftrightarrow> a = 0x8000000000000000 \<and> b = - 1"
  by (simp only: sint64_consts)

text \<open>The division helpers on every pair of operands, as integers.\<close>

lemma carith_signed:
  "sint (lj_carith_divi64 a b) = (if b = 0 \<or> sint a = - (2 ^ 63) \<and> sint b = - 1 then - (2 ^ 63) else sint a sdiv sint b)"
  "sint (lj_carith_modi64 a b) = (if b = 0 then - (2 ^ 63) else sint a smod sint b)"
proof -
  have min: "sint (0x8000000000000000 :: u64) = - (2 ^ 63)" by simp
  show "sint (lj_carith_divi64 a b) = (if b = 0 \<or> sint a = - (2 ^ 63) \<and> sint b = - 1 then - (2 ^ 63) else sint a sdiv sint b)"
    unfolding lj_carith_divi64_def c_divi64_def int64_overflow using sdiv64_range(1) [of b a] min by auto
  have "sint a smod sint b = 0" if "b = - 1" using that by (simp add: signed_modulo_int_def)
  then show "sint (lj_carith_modi64 a b) = (if b = 0 then - (2 ^ 63) else sint a smod sint b)"
    unfolding lj_carith_modi64_def c_modi64_def int64_overflow using sdiv64_range(2) [of b a] min by auto
qed

lemma carith_unsigned:
  "unat (lj_carith_divu64 a b) = (if b = 0 then 2 ^ 63 else unat a div unat b)"
  "unat (lj_carith_modu64 a b) = (if b = 0 then 2 ^ 63 else unat a mod unat b)"
  by (simp_all add: lj_carith_divu64_def lj_carith_modu64_def c_divu64_def c_modu64_def unat_div unat_mod)

lemma carith_divmod:
  assumes "b \<noteq> 0"
  shows "lj_carith_divi64 a b * b + lj_carith_modi64 a b = a"
    and "lj_carith_divu64 a b * b + lj_carith_modu64 a b = a"
proof -
  have w: "word_of_int (sint a sdiv sint b) * b + word_of_int (sint a smod sint b)
    = (word_of_int (sint a sdiv sint b * sint b + sint a smod sint b) :: u64)"
    by simp
  then show "lj_carith_divi64 a b * b + lj_carith_modi64 a b = a"
    unfolding lj_carith_divi64_def lj_carith_modi64_def c_divi64_def c_modi64_def int64_overflow
    using assms by (auto simp: sdiv_mult_smod_eq)
  show "lj_carith_divu64 a b * b + lj_carith_modu64 a b = a"
    using assms by (simp add: lj_carith_divu64_def lj_carith_modu64_def c_divu64_def c_modu64_def div_mult_mod_eq)
qed

text \<open>
  C24. The 64 bit helpers on all operands. Signed and unsigned quotients and remainders are those of
  the integers, rounded towards zero; where there is none, the result is a fixed value and the C
  operator is not reached: \<open>2^63\<close> (as a signed number \<open>-2^63\<close>) for a zero divisor and for the signed
  quotient that does not fit, whose remainder is 0. Quotient and remainder belong together for every
  divisor but 0. The power loops compute the power modulo \<open>2^64\<close>; a negative exponent gives the
  reciprocal rounded towards zero, with the largest integer for the base 0.
\<close>

theorem carith_int64:
  "sint (lj_carith_divi64 a b) = (if b = 0 \<or> sint a = - (2 ^ 63) \<and> sint b = - 1 then - (2 ^ 63) else sint a sdiv sint b) \<and>
   sint (lj_carith_modi64 a b) = (if b = 0 then - (2 ^ 63) else sint a smod sint b) \<and>
   unat (lj_carith_divu64 a b) = (if b = 0 then 2 ^ 63 else unat a div unat b) \<and>
   unat (lj_carith_modu64 a b) = (if b = 0 then 2 ^ 63 else unat a mod unat b) \<and>
   (b \<noteq> 0 \<longrightarrow> lj_carith_divi64 a b * b + lj_carith_modi64 a b = a \<and>
      lj_carith_divu64 a b * b + lj_carith_modu64 a b = a) \<and>
   lj_carith_powu64 x k = x ^ unat k \<and>
   (\<not> k <s 0 \<longrightarrow> lj_carith_powi64 x k = x ^ nat (sint k)) \<and>
   (k <s 0 \<longrightarrow> sint (lj_carith_powi64 x k) =
      (if x = 0 then 2 ^ 63 - 1 else 1 sdiv sint x ^ nat (- sint k)))"
proof (intro conjI impI)
  show "\<not> k <s 0 \<Longrightarrow> lj_carith_powi64 x k = x ^ nat (sint k)"
    by (simp add: lj_carith_powi64_def powu64_power unat_nonneg64)
  show "k <s 0 \<Longrightarrow> sint (lj_carith_powi64 x k) = (if x = 0 then 2 ^ 63 - 1 else 1 sdiv sint x ^ nat (- sint k))"
    using sint_powi64_neg by (auto simp: lj_carith_powi64_def word_sless_alt)
qed (fact carith_signed carith_unsigned carith_divmod powu64_power)+

theorem carith_int64_witness:
  "sint (lj_carith_divi64 (- 7) 2) = - 3 \<and> sint (lj_carith_modi64 (- 7) 2) = - 1 \<and>
   sint (lj_carith_divi64 0x8000000000000000 (- 1)) = - (2 ^ 63) \<and> sint (lj_carith_modi64 5 0) = - (2 ^ 63) \<and>
   unat (lj_carith_divu64 (- 7) 2) = 9223372036854775804 \<and> lj_carith_divi64 (- 7) 2 * 2 + lj_carith_modi64 (- 7) 2 = - 7 \<and>
   lj_carith_powi64 3 5 = 243 \<and> sint (lj_carith_powi64 2 (- 5)) = 0"
proof -
  note d = carith_int64 [THEN conjunct1] and m = carith_int64 [THEN conjunct2, THEN conjunct1]
    and u = carith_int64 [THEN conjunct2, THEN conjunct2, THEN conjunct1]
    and i = carith_int64 [THEN conjunct2, THEN conjunct2, THEN conjunct2, THEN conjunct2, THEN conjunct1]
    and p = carith_int64 [THEN conjunct2, THEN conjunct2, THEN conjunct2, THEN conjunct2, THEN conjunct2, THEN conjunct2]
  have "lj_carith_divi64 (- 7) 2 * 2 + lj_carith_modi64 (- 7) 2 = - 7" using i [of 2 "- 7"] by simp
  moreover have "lj_carith_powi64 3 5 = 3 ^ nat (sint (5::u64))"
    by (rule p [THEN conjunct1, THEN mp]) (simp add: word_sless_alt)
  moreover have "sint (lj_carith_powi64 2 (- 5)) = (if (2::u64) = 0 then 2 ^ 63 - 1 else 1 sdiv sint (2::u64) ^ nat (- sint (- 5 :: u64)))"
    by (rule p [THEN conjunct2, THEN mp]) (simp add: word_sless_alt)
  moreover have "unat (- 7 :: u64) = 18446744073709551609" by simp
  ultimately show ?thesis
    using d [of "- 7" 2] d [of "0x8000000000000000" "- 1"] m [of "- 7" 2] m [of 5 0] u [of "- 7" 2]
    by (simp add: signed_divide_int_def signed_modulo_int_def)
qed

section \<open>Shifts\<close>

lemma shift_count63: "unat ((n::'a::len word) AND 63) = unat n mod 64"
proof -
  have "n AND 63 = take_bit 6 n" by (simp add: take_bit_eq_mask mask_eq_exp_minus_1)
  then show ?thesis by (simp only: unsigned_take_bit_eq) (simp add: take_bit_eq_mod)
qed

lemma rol64_bit: "n < 64 \<Longrightarrow> bit (lj_rol64 x n) i \<longleftrightarrow> i < 64 \<and> bit x ((i + (64 - n)) mod 64)"
proof (cases "n = 0")
  case False
  assume n: "n < 64"
  show ?thesis
  proof (cases "n \<le> i \<and> i < 64")
    case True
    then have "i + (64 - n) = (i - n) + 64" "i - n < 64" using n by linarith+
    then have "(i + (64 - n)) mod 64 = i - n" by (simp only: mod_add_self2 mod_less)
    then show ?thesis using True n False
      by (auto simp: lj_rol64_def bit_or_iff bit_push_bit_iff bit_drop_bit_eq dest: bit_imp_le_length)
  next
    case l: False
    then show ?thesis using n False
      by (auto simp: lj_rol64_def bit_or_iff bit_push_bit_iff bit_drop_bit_eq add.commute dest: bit_imp_le_length)
  qed
next
  case True
  then show ?thesis using bit_imp_le_length [of x i] by (auto simp: lj_rol64_def)
qed

lemma ror64_rol64: "n < 64 \<Longrightarrow> lj_ror64 x n = lj_rol64 x ((64 - n) mod 64)"
  by (cases "n = 0") (simp_all add: lj_ror64_def lj_rol64_def)

text \<open>
  C39. The shift helper: a count is taken modulo 64, also one of 64 and more, where the C operator
  would be undefined; shifting left multiplies modulo \<open>2^64\<close>, shifting right divides, rounding down,
  the unsigned or the signed number; rotating left moves every bit by the count around the word, and
  rotating right undoes it.
\<close>

theorem carith_shift64:
  "unat (lj_carith_shift64 x n 0) = unat x * 2 ^ (unat n mod 64) mod 2 ^ 64 \<and>
   unat (lj_carith_shift64 x n 1) = unat x div 2 ^ (unat n mod 64) \<and>
   sint (lj_carith_shift64 x n 2) = sint x div 2 ^ (unat n mod 64) \<and>
   (\<forall>i. bit (lj_carith_shift64 x n 3) i = (i < 64 \<and> bit x ((i + (64 - unat n mod 64)) mod 64))) \<and>
   lj_carith_shift64 (lj_carith_shift64 x n 3) n 4 = x"
proof (intro conjI allI)
  note d = lj_carith_shift64_def lj_carith_shl64_def lj_carith_shr64_def lj_carith_sar64_def lj_carith_rol64_def
    lj_carith_ror64_def shift_count63
  define m where "m = unat n mod 64"
  have m: "m < 64" by (simp add: m_def)
  show "unat (lj_carith_shift64 x n 0) = unat x * 2 ^ (unat n mod 64) mod 2 ^ 64"
  proof -
    have "unat (2 ^ m :: u64) = 2 ^ m" 
      using m power_strict_increasing [of m 64 "2::nat"] unat_of_nat [of "2 ^ m", where 'a = 64] by (simp add: take_bit_eq_mod)
    then show ?thesis by (simp add: d push_bit_eq_mult unat_word_ariths m_def)
  qed
  show "unat (lj_carith_shift64 x n 1) = unat x div 2 ^ (unat n mod 64)"
    by (simp add: d unat_drop_bit_eq) (simp add: drop_bit_eq_div)
  show "sint (lj_carith_shift64 x n 2) = sint x div 2 ^ (unat n mod 64)"
    by (simp add: d sint_signed_drop_bit_eq) (simp add: drop_bit_eq_div)
  show "bit (lj_carith_shift64 x n 3) i = (i < 64 \<and> bit x ((i + (64 - unat n mod 64)) mod 64))" for i
    by (simp add: d rol64_bit)
  have "lj_ror64 (lj_rol64 x m) m = x"
  proof (rule bit_word_eqI)
    fix i assume "i < LENGTH(64)"
    then have i: "i < 64" by simp
    have "(i + (64 - (64 - m) mod 64)) mod 64 = (i + m) mod 64" using m by (cases "m = 0") simp_all
    moreover have "((i + m) mod 64 + (64 - m)) mod 64 = (i + m + (64 - m)) mod 64" by (rule mod_add_left_eq)
    moreover have "(i + m + (64 - m)) mod 64 = i" using m i by simp
    ultimately show "bit (lj_ror64 (lj_rol64 x m) m) i = bit x i"
      using i m by (simp add: ror64_rol64 rol64_bit)
  qed
  then show "lj_carith_shift64 (lj_carith_shift64 x n 3) n 4 = x" by (simp add: d m_def)
qed

end
