(* ===== verification/LjIr.thy ===== *)
theory LjIr
  imports LjPrelude LjKey
begin

text \<open>
  The intermediate representation of the trace compiler (\<^verbatim>\<open>lj_ir.h\<close>, \<^verbatim>\<open>lj_ir.c\<close>): opcodes and
  their modes, types, references, the emitter, the interning of constants, the per-opcode chains
  and the rollback. An instruction is a record with one field for each view of the C union that
  the modelled code uses (\<open>ir_i\<close> overlaps the operands of an integer constant, \<open>ir_tv\<close> is the whole
  slot behind a 64 bit constant). References are natural numbers: constants grow down from
  \<open>REF_BIAS\<close>, instructions grow up; the recorder stops a trace long before either end is
  reached, and the theorems carry the lower end as a hypothesis. The IR is a function from
  references, so that growing the buffer only moves its two limits. The type tag of a \<open>TRef\<close> is
  a copy of the type of the instruction and is left out.
\<close>

section \<open>Opcodes\<close>

type_synonym irop = nat

definition IR_LT :: irop where "IR_LT = 0"
definition IR_GE :: irop where "IR_GE = 1"
definition IR_LE :: irop where "IR_LE = 2"
definition IR_GT :: irop where "IR_GT = 3"
definition IR_ULT :: irop where "IR_ULT = 4"
definition IR_UGE :: irop where "IR_UGE = 5"
definition IR_ULE :: irop where "IR_ULE = 6"
definition IR_UGT :: irop where "IR_UGT = 7"
definition IR_EQ :: irop where "IR_EQ = 8"
definition IR_NE :: irop where "IR_NE = 9"
definition IR_ABC :: irop where "IR_ABC = 10"
definition IR_RETF :: irop where "IR_RETF = 11"
definition IR_NOP :: irop where "IR_NOP = 12"
definition IR_BASE :: irop where "IR_BASE = 13"
definition IR_PVAL :: irop where "IR_PVAL = 14"
definition IR_GCSTEP :: irop where "IR_GCSTEP = 15"
definition IR_HIOP :: irop where "IR_HIOP = 16"
definition IR_LOOP :: irop where "IR_LOOP = 17"
definition IR_USE :: irop where "IR_USE = 18"
definition IR_PHI :: irop where "IR_PHI = 19"
definition IR_RENAME :: irop where "IR_RENAME = 20"
definition IR_PROF :: irop where "IR_PROF = 21"
definition IR_KPRI :: irop where "IR_KPRI = 22"
definition IR_KINT :: irop where "IR_KINT = 23"
definition IR_KGC :: irop where "IR_KGC = 24"
definition IR_KPTR :: irop where "IR_KPTR = 25"
definition IR_KKPTR :: irop where "IR_KKPTR = 26"
definition IR_KNULL :: irop where "IR_KNULL = 27"
definition IR_KNUM :: irop where "IR_KNUM = 28"
definition IR_KINT64 :: irop where "IR_KINT64 = 29"
definition IR_KSLOT :: irop where "IR_KSLOT = 30"
definition IR_BNOT :: irop where "IR_BNOT = 31"
definition IR_BSWAP :: irop where "IR_BSWAP = 32"
definition IR_BAND :: irop where "IR_BAND = 33"
definition IR_BOR :: irop where "IR_BOR = 34"
definition IR_BXOR :: irop where "IR_BXOR = 35"
definition IR_BSHL :: irop where "IR_BSHL = 36"
definition IR_BSHR :: irop where "IR_BSHR = 37"
definition IR_BSAR :: irop where "IR_BSAR = 38"
definition IR_BROL :: irop where "IR_BROL = 39"
definition IR_BROR :: irop where "IR_BROR = 40"
definition IR_ADD :: irop where "IR_ADD = 41"
definition IR_SUB :: irop where "IR_SUB = 42"
definition IR_MUL :: irop where "IR_MUL = 43"
definition IR_DIV :: irop where "IR_DIV = 44"
definition IR_MOD :: irop where "IR_MOD = 45"
definition IR_POW :: irop where "IR_POW = 46"
definition IR_NEG :: irop where "IR_NEG = 47"
definition IR_ABS :: irop where "IR_ABS = 48"
definition IR_LDEXP :: irop where "IR_LDEXP = 49"
definition IR_MIN :: irop where "IR_MIN = 50"
definition IR_MAX :: irop where "IR_MAX = 51"
definition IR_FPMATH :: irop where "IR_FPMATH = 52"
definition IR_ADDOV :: irop where "IR_ADDOV = 53"
definition IR_SUBOV :: irop where "IR_SUBOV = 54"
definition IR_MULOV :: irop where "IR_MULOV = 55"
definition IR_AREF :: irop where "IR_AREF = 56"
definition IR_HREFK :: irop where "IR_HREFK = 57"
definition IR_HREF :: irop where "IR_HREF = 58"
definition IR_NEWREF :: irop where "IR_NEWREF = 59"
definition IR_UREFO :: irop where "IR_UREFO = 60"
definition IR_UREFC :: irop where "IR_UREFC = 61"
definition IR_FREF :: irop where "IR_FREF = 62"
definition IR_STRREF :: irop where "IR_STRREF = 63"
definition IR_LREF :: irop where "IR_LREF = 64"
definition IR_ALOAD :: irop where "IR_ALOAD = 65"
definition IR_HLOAD :: irop where "IR_HLOAD = 66"
definition IR_ULOAD :: irop where "IR_ULOAD = 67"
definition IR_FLOAD :: irop where "IR_FLOAD = 68"
definition IR_XLOAD :: irop where "IR_XLOAD = 69"
definition IR_SLOAD :: irop where "IR_SLOAD = 70"
definition IR_VLOAD :: irop where "IR_VLOAD = 71"
definition IR_ALEN :: irop where "IR_ALEN = 72"
definition IR_ASTORE :: irop where "IR_ASTORE = 73"
definition IR_HSTORE :: irop where "IR_HSTORE = 74"
definition IR_USTORE :: irop where "IR_USTORE = 75"
definition IR_FSTORE :: irop where "IR_FSTORE = 76"
definition IR_XSTORE :: irop where "IR_XSTORE = 77"
definition IR_SNEW :: irop where "IR_SNEW = 78"
definition IR_XSNEW :: irop where "IR_XSNEW = 79"
definition IR_TNEW :: irop where "IR_TNEW = 80"
definition IR_TDUP :: irop where "IR_TDUP = 81"
definition IR_CNEW :: irop where "IR_CNEW = 82"
definition IR_CNEWI :: irop where "IR_CNEWI = 83"
definition IR_BUFHDR :: irop where "IR_BUFHDR = 84"
definition IR_BUFPUT :: irop where "IR_BUFPUT = 85"
definition IR_BUFSTR :: irop where "IR_BUFSTR = 86"
definition IR_TBAR :: irop where "IR_TBAR = 87"
definition IR_OBAR :: irop where "IR_OBAR = 88"
definition IR_XBAR :: irop where "IR_XBAR = 89"
definition IR_CONV :: irop where "IR_CONV = 90"
definition IR_TOBIT :: irop where "IR_TOBIT = 91"
definition IR_TOSTR :: irop where "IR_TOSTR = 92"
definition IR_STRTO :: irop where "IR_STRTO = 93"
definition IR_CALLN :: irop where "IR_CALLN = 94"
definition IR_CALLA :: irop where "IR_CALLA = 95"
definition IR_CALLL :: irop where "IR_CALLL = 96"
definition IR_CALLS :: irop where "IR_CALLS = 97"
definition IR_CALLXS :: irop where "IR_CALLXS = 98"
definition IR_CARG :: irop where "IR_CARG = 99"

lemmas ir_ops =
  IR_LT_def IR_GE_def IR_LE_def IR_GT_def IR_ULT_def IR_UGE_def
  IR_ULE_def IR_UGT_def IR_EQ_def IR_NE_def IR_ABC_def IR_RETF_def
  IR_NOP_def IR_BASE_def IR_PVAL_def IR_GCSTEP_def IR_HIOP_def IR_LOOP_def
  IR_USE_def IR_PHI_def IR_RENAME_def IR_PROF_def IR_KPRI_def IR_KINT_def
  IR_KGC_def IR_KPTR_def IR_KKPTR_def IR_KNULL_def IR_KNUM_def IR_KINT64_def
  IR_KSLOT_def IR_BNOT_def IR_BSWAP_def IR_BAND_def IR_BOR_def IR_BXOR_def
  IR_BSHL_def IR_BSHR_def IR_BSAR_def IR_BROL_def IR_BROR_def IR_ADD_def
  IR_SUB_def IR_MUL_def IR_DIV_def IR_MOD_def IR_POW_def IR_NEG_def
  IR_ABS_def IR_LDEXP_def IR_MIN_def IR_MAX_def IR_FPMATH_def IR_ADDOV_def
  IR_SUBOV_def IR_MULOV_def IR_AREF_def IR_HREFK_def IR_HREF_def IR_NEWREF_def
  IR_UREFO_def IR_UREFC_def IR_FREF_def IR_STRREF_def IR_LREF_def IR_ALOAD_def
  IR_HLOAD_def IR_ULOAD_def IR_FLOAD_def IR_XLOAD_def IR_SLOAD_def IR_VLOAD_def
  IR_ALEN_def IR_ASTORE_def IR_HSTORE_def IR_USTORE_def IR_FSTORE_def IR_XSTORE_def
  IR_SNEW_def IR_XSNEW_def IR_TNEW_def IR_TDUP_def IR_CNEW_def IR_CNEWI_def
  IR_BUFHDR_def IR_BUFPUT_def IR_BUFSTR_def IR_TBAR_def IR_OBAR_def IR_XBAR_def
  IR_CONV_def IR_TOBIT_def IR_TOSTR_def IR_STRTO_def IR_CALLN_def IR_CALLA_def
  IR_CALLL_def IR_CALLS_def IR_CALLXS_def IR_CARG_def


definition IR__MAX :: nat where "IR__MAX = 100"

section \<open>Operand modes\<close>

definition IRMref :: nat where "IRMref = 0"
definition IRMlit :: nat where "IRMlit = 1"
definition IRMcst :: nat where "IRMcst = 2"
definition IRMnone :: nat where "IRMnone = 3"

definition IRM_C :: u8 where "IRM_C = 0x10"
definition IRM_N :: u8 where "IRM_N = 0x00"
definition IRM_R :: u8 where "IRM_R = IRM_N"
definition IRM_A :: u8 where "IRM_A = 0x20"
definition IRM_L :: u8 where "IRM_L = 0x40"
definition IRM_S :: u8 where "IRM_S = 0x60"
definition IRM_W :: u8 where "IRM_W = 0x80"
definition IRM_NW :: u8 where "IRM_NW = IRM_N OR IRM_W"
definition IRM_CW :: u8 where "IRM_CW = IRM_C OR IRM_W"
definition IRM_AW :: u8 where "IRM_AW = IRM_A OR IRM_W"
definition IRM_LW :: u8 where "IRM_LW = IRM_L OR IRM_W"

definition irm_op1 :: "u8 \<Rightarrow> nat" where "irm_op1 m = unat (m AND 3)"
definition irm_op2 :: "u8 \<Rightarrow> nat" where "irm_op2 m = unat (drop_bit 2 m AND 3)"
definition irm_iscomm :: "u8 \<Rightarrow> bool" where "irm_iscomm m = (m AND IRM_C \<noteq> 0)"
definition irm_kind :: "u8 \<Rightarrow> u8" where "irm_kind m = m AND IRM_S"

definition IRMODE :: "u8 \<times> nat \<times> nat \<Rightarrow> u8" where
  "IRMODE = (\<lambda>(m, m1, m2). (of_nat m1 OR push_bit 2 (of_nat m2) OR m) XOR IRM_W)"

definition IRDEF :: "(u8 \<times> nat \<times> nat) list" where
  "IRDEF = [
    (IRM_N, IRMref, IRMref), (IRM_N, IRMref, IRMref), (IRM_N, IRMref, IRMref),
    (IRM_N, IRMref, IRMref), (IRM_N, IRMref, IRMref), (IRM_N, IRMref, IRMref),
    (IRM_N, IRMref, IRMref), (IRM_N, IRMref, IRMref), (IRM_C, IRMref, IRMref),
    (IRM_C, IRMref, IRMref), (IRM_N, IRMref, IRMref), (IRM_S, IRMref, IRMref),
    (IRM_N, IRMnone, IRMnone), (IRM_N, IRMlit, IRMlit), (IRM_N, IRMlit, IRMnone),
    (IRM_S, IRMnone, IRMnone), (IRM_S, IRMref, IRMref), (IRM_S, IRMnone, IRMnone),
    (IRM_S, IRMref, IRMnone), (IRM_S, IRMref, IRMref), (IRM_S, IRMref, IRMlit),
    (IRM_S, IRMnone, IRMnone), (IRM_N, IRMnone, IRMnone), (IRM_N, IRMcst, IRMnone),
    (IRM_N, IRMcst, IRMnone), (IRM_N, IRMcst, IRMnone), (IRM_N, IRMcst, IRMnone),
    (IRM_N, IRMcst, IRMnone), (IRM_N, IRMcst, IRMnone), (IRM_N, IRMcst, IRMnone),
    (IRM_N, IRMref, IRMlit), (IRM_N, IRMref, IRMnone), (IRM_N, IRMref, IRMnone),
    (IRM_C, IRMref, IRMref), (IRM_C, IRMref, IRMref), (IRM_C, IRMref, IRMref),
    (IRM_N, IRMref, IRMref), (IRM_N, IRMref, IRMref), (IRM_N, IRMref, IRMref),
    (IRM_N, IRMref, IRMref), (IRM_N, IRMref, IRMref), (IRM_C, IRMref, IRMref),
    (IRM_N, IRMref, IRMref), (IRM_C, IRMref, IRMref), (IRM_N, IRMref, IRMref),
    (IRM_N, IRMref, IRMref), (IRM_N, IRMref, IRMref), (IRM_N, IRMref, IRMref),
    (IRM_N, IRMref, IRMref), (IRM_N, IRMref, IRMref), (IRM_C, IRMref, IRMref),
    (IRM_C, IRMref, IRMref), (IRM_N, IRMref, IRMlit), (IRM_CW, IRMref, IRMref),
    (IRM_NW, IRMref, IRMref), (IRM_CW, IRMref, IRMref), (IRM_R, IRMref, IRMref),
    (IRM_R, IRMref, IRMref), (IRM_L, IRMref, IRMref), (IRM_S, IRMref, IRMref),
    (IRM_LW, IRMref, IRMlit), (IRM_LW, IRMref, IRMlit), (IRM_R, IRMref, IRMlit),
    (IRM_N, IRMref, IRMref), (IRM_L, IRMnone, IRMnone), (IRM_L, IRMref, IRMnone),
    (IRM_L, IRMref, IRMnone), (IRM_L, IRMref, IRMnone), (IRM_L, IRMref, IRMlit),
    (IRM_L, IRMref, IRMlit), (IRM_L, IRMlit, IRMlit), (IRM_L, IRMref, IRMnone),
    (IRM_L, IRMref, IRMref), (IRM_S, IRMref, IRMref), (IRM_S, IRMref, IRMref),
    (IRM_S, IRMref, IRMref), (IRM_S, IRMref, IRMref), (IRM_S, IRMref, IRMref),
    (IRM_N, IRMref, IRMref), (IRM_A, IRMref, IRMref), (IRM_AW, IRMlit, IRMlit),
    (IRM_AW, IRMref, IRMnone), (IRM_AW, IRMref, IRMref), (IRM_NW, IRMref, IRMref),
    (IRM_L, IRMref, IRMlit), (IRM_L, IRMref, IRMref), (IRM_A, IRMref, IRMref),
    (IRM_S, IRMref, IRMnone), (IRM_S, IRMref, IRMref), (IRM_S, IRMnone, IRMnone),
    (IRM_N, IRMref, IRMlit), (IRM_N, IRMref, IRMref), (IRM_N, IRMref, IRMlit),
    (IRM_N, IRMref, IRMnone), (IRM_N, IRMref, IRMlit), (IRM_A, IRMref, IRMlit),
    (IRM_L, IRMref, IRMlit), (IRM_S, IRMref, IRMlit), (IRM_S, IRMref, IRMref),
    (IRM_N, IRMref, IRMref)]"

definition lj_ir_mode :: "irop \<Rightarrow> u8" where
  "lj_ir_mode o1 = (if o1 < IR__MAX then IRMODE (IRDEF ! o1) else 0)"

lemmas ir_modes = IRMref_def IRMlit_def IRMcst_def IRMnone_def IRM_C_def IRM_N_def IRM_R_def
  IRM_A_def IRM_L_def IRM_S_def IRM_W_def IRM_NW_def IRM_CW_def IRM_AW_def IRM_LW_def

section \<open>Types\<close>

definition IRT_NIL :: u8 where "IRT_NIL = 0"
definition IRT_FALSE :: u8 where "IRT_FALSE = 1"
definition IRT_TRUE :: u8 where "IRT_TRUE = 2"
definition IRT_LIGHTUD :: u8 where "IRT_LIGHTUD = 3"
definition IRT_STR :: u8 where "IRT_STR = 4"
definition IRT_P32 :: u8 where "IRT_P32 = 5"
definition IRT_THREAD :: u8 where "IRT_THREAD = 6"
definition IRT_PROTO :: u8 where "IRT_PROTO = 7"
definition IRT_FUNC :: u8 where "IRT_FUNC = 8"
definition IRT_P64 :: u8 where "IRT_P64 = 9"
definition IRT_CDATA :: u8 where "IRT_CDATA = 10"
definition IRT_TAB :: u8 where "IRT_TAB = 11"
definition IRT_UDATA :: u8 where "IRT_UDATA = 12"
definition IRT_FLOAT :: u8 where "IRT_FLOAT = 13"
definition IRT_NUM :: u8 where "IRT_NUM = 14"
definition IRT_INT :: u8 where "IRT_INT = 19"
definition IRT_U32 :: u8 where "IRT_U32 = 20"
definition IRT_I64 :: u8 where "IRT_I64 = 21"
definition IRT_U64 :: u8 where "IRT_U64 = 22"
definition IRT_PGC :: u8 where "IRT_PGC = IRT_P64"

definition IRT_MARK :: u8 where "IRT_MARK = 0x20"
definition IRT_ISPHI :: u8 where "IRT_ISPHI = 0x40"
definition IRT_GUARD :: u8 where "IRT_GUARD = 0x80"
definition IRT_TYPE :: u8 where "IRT_TYPE = 0x1f"

lemmas ir_types = IRT_NIL_def IRT_FALSE_def IRT_TRUE_def IRT_LIGHTUD_def IRT_STR_def IRT_P32_def
  IRT_THREAD_def IRT_PROTO_def IRT_FUNC_def IRT_P64_def IRT_CDATA_def IRT_TAB_def IRT_UDATA_def
  IRT_FLOAT_def IRT_NUM_def IRT_INT_def IRT_U32_def IRT_I64_def IRT_U64_def IRT_PGC_def
  IRT_MARK_def IRT_ISPHI_def IRT_GUARD_def IRT_TYPE_def

definition irt_type :: "u8 \<Rightarrow> u8" where "irt_type t = t AND IRT_TYPE"

definition irt_typerange :: "u8 \<Rightarrow> u8 \<Rightarrow> u8 \<Rightarrow> bool" where
  "irt_typerange t t1 t2 \<longleftrightarrow> (ucast (irt_type t) - ucast t1 :: u32) \<le> ucast t2 - ucast t1"

definition irt_isnum :: "u8 \<Rightarrow> bool" where "irt_isnum t \<longleftrightarrow> irt_type t = IRT_NUM"
definition irt_isint :: "u8 \<Rightarrow> bool" where "irt_isint t \<longleftrightarrow> irt_type t = IRT_INT"
definition irt_isi64 :: "u8 \<Rightarrow> bool" where "irt_isi64 t \<longleftrightarrow> irt_type t = IRT_I64"

definition IRT_IS64 :: u32 where
  "IRT_IS64 = push_bit (unat IRT_NUM) 1 OR push_bit (unat IRT_I64) 1 OR push_bit (unat IRT_U64) 1
     OR push_bit (unat IRT_P64) 1 OR push_bit (unat IRT_LIGHTUD) 1 OR push_bit (unat IRT_STR) 1
     OR push_bit (unat IRT_THREAD) 1 OR push_bit (unat IRT_PROTO) 1 OR push_bit (unat IRT_FUNC) 1
     OR push_bit (unat IRT_CDATA) 1 OR push_bit (unat IRT_TAB) 1 OR push_bit (unat IRT_UDATA) 1
     OR push_bit (unat IRT_NIL) 1"

definition irt_is64 :: "u8 \<Rightarrow> bool" where
  "irt_is64 t \<longleftrightarrow> drop_bit (unat (irt_type t)) IRT_IS64 AND 1 \<noteq> 0"

definition irt_isguard :: "u8 \<Rightarrow> bool" where "irt_isguard t \<longleftrightarrow> t AND IRT_GUARD \<noteq> 0"
definition irt_ismarked :: "u8 \<Rightarrow> bool" where "irt_ismarked t \<longleftrightarrow> t AND IRT_MARK \<noteq> 0"
definition irt_setmark :: "u8 \<Rightarrow> u8" where "irt_setmark t = t OR IRT_MARK"
definition irt_clearmark :: "u8 \<Rightarrow> u8" where "irt_clearmark t = t AND NOT IRT_MARK"
definition irt_isphi :: "u8 \<Rightarrow> bool" where "irt_isphi t \<longleftrightarrow> t AND IRT_ISPHI \<noteq> 0"

section \<open>References, instructions and the state\<close>

definition REF_BIAS :: nat where "REF_BIAS = 0x8000"
definition REF_TRUE :: nat where "REF_TRUE = REF_BIAS - 3"
definition REF_FALSE :: nat where "REF_FALSE = REF_BIAS - 2"
definition REF_NIL :: nat where "REF_NIL = REF_BIAS - 1"
definition REF_BASE :: nat where "REF_BASE = REF_BIAS"
definition REF_FIRST :: nat where "REF_FIRST = REF_BIAS + 1"
definition REF_DROP :: nat where "REF_DROP = 0xffff"

lemmas ir_refs = REF_BIAS_def REF_TRUE_def REF_FALSE_def REF_NIL_def REF_BASE_def REF_FIRST_def
  REF_DROP_def

definition irref_isk :: "nat \<Rightarrow> bool" where "irref_isk r \<longleftrightarrow> r < REF_BIAS"

record irins =
  ir_op1 :: nat
  ir_op2 :: nat
  ir_o :: irop
  ir_t :: u8
  ir_prev :: nat
  ir_i :: u32
  ir_tv :: u64

record jit =
  irs :: "nat \<Rightarrow> irins"
  nk :: nat
  nins :: nat
  chain :: "irop \<Rightarrow> nat"
  fins :: irins
  fleft :: "irins \<times> irins"
  fright :: "irins \<times> irins"
  guardemit :: u8
  irbotlim :: nat
  irtoplim :: nat
  jit_flags :: u32

definition JIT_F_OPT_FOLD :: u32 where "JIT_F_OPT_FOLD = 0x00010000"
definition JIT_F_OPT_CSE :: u32 where "JIT_F_OPT_CSE = 0x00020000"
definition JIT_F_OPT_DCE :: u32 where "JIT_F_OPT_DCE = 0x00040000"
definition JIT_F_OPT_ABC :: u32 where "JIT_F_OPT_ABC = 0x00800000"

definition ir_k64 :: "(nat \<Rightarrow> irins) \<Rightarrow> nat \<Rightarrow> u64" where "ir_k64 ir r = ir_tv (ir (r + 1))"

definition ir_isk64 :: "irins \<Rightarrow> bool" where
  "ir_isk64 i \<longleftrightarrow> ir_o i = IR_KNUM \<or> ir_o i = IR_KINT64 \<or> ir_o i = IR_KGC \<or> ir_o i = IR_KPTR \<or>
     ir_o i = IR_KKPTR"

definition ir_sideeff :: "irins \<Rightarrow> bool" where
  "ir_sideeff i \<longleftrightarrow> (ir_t i OR NOT IRT_GUARD) AND lj_ir_mode (ir_o i) \<ge> IRM_S"

definition lj_ir_nop :: "irins \<Rightarrow> irins" where
  "lj_ir_nop i = i\<lparr>ir_o := IR_NOP, ir_t := IRT_NIL, ir_op1 := 0, ir_op2 := 0, ir_prev := 0\<rparr>"

section \<open>The emitter\<close>

definition LJ_MIN_IRSZ :: nat where "LJ_MIN_IRSZ = 32"

definition lj_ir_growtop :: "jit \<Rightarrow> jit" where
  "lj_ir_growtop J =
     (let szins = irtoplim J - irbotlim J
      in if szins \<noteq> 0 then J\<lparr>irtoplim := irbotlim J + 2 * szins\<rparr>
         else J\<lparr>irbotlim := REF_BASE - LJ_MIN_IRSZ div 4,
                irtoplim := REF_BASE - LJ_MIN_IRSZ div 4 + LJ_MIN_IRSZ\<rparr>)"

definition lj_ir_growbot :: "jit \<Rightarrow> jit" where
  "lj_ir_growbot J =
     (let szins = irtoplim J - irbotlim J
      in if nins J + szins div 2 < irtoplim J then
           let ofs = szins div 4
           in J\<lparr>irbotlim := irbotlim J - ofs, irtoplim := irtoplim J - ofs\<rparr>
         else
           let ofs = (if szins \<ge> 256 then 128 else szins div 2);
               bot = irbotlim J - ofs
           in J\<lparr>irbotlim := bot, irtoplim := bot + 2 * szins\<rparr>)"

definition lj_ir_set :: "irop \<Rightarrow> u8 \<Rightarrow> nat \<Rightarrow> nat \<Rightarrow> jit \<Rightarrow> jit" where
  "lj_ir_set o1 t a b J = J\<lparr>fins := (fins J)\<lparr>ir_o := o1, ir_t := t, ir_op1 := a, ir_op2 := b\<rparr>\<rparr>"

definition lj_ir_nextins :: "jit \<Rightarrow> nat \<times> jit" where
  "lj_ir_nextins J =
     (let ref = nins J;
          J = (if ref \<ge> irtoplim J then lj_ir_growtop J else J)
      in (ref, J\<lparr>nins := ref + 1\<rparr>))"

definition lj_ir_emit :: "jit \<Rightarrow> nat \<times> jit" where
  "lj_ir_emit J =
     (let (ref, J) = lj_ir_nextins J;
          f = fins J;
          op = ir_o f;
          i = (irs J ref)\<lparr>ir_prev := chain J op, ir_o := op, ir_op1 := ir_op1 f,
                 ir_op2 := ir_op2 f, ir_t := ir_t f\<rparr>
      in (ref, J\<lparr>irs := (irs J)(ref := i), chain := (chain J)(op := ref),
                 guardemit := guardemit J OR ir_t f\<rparr>))"

section \<open>Interning of constants\<close>

definition ir_nextk :: "jit \<Rightarrow> nat \<times> jit" where
  "ir_nextk J =
     (let ref = nk J;
          J = (if ref \<le> irbotlim J then lj_ir_growbot J else J);
          ref = ref - 1
      in (ref, J\<lparr>nk := ref\<rparr>))"

definition ir_nextk64 :: "jit \<Rightarrow> nat \<times> jit" where
  "ir_nextk64 J =
     (let ref = nk J - 2;
          J = (if ref < irbotlim J then lj_ir_growbot J else J)
      in (ref, J\<lparr>nk := ref\<rparr>))"

text \<open>
  The C loops \<open>for (ref = J->chain[op]; ref; ref = cir[ref].prev)\<close> and \<open>while (ref > lim)\<close>: the
  first reference of a chain that satisfies a test. The fuel is one step for every reference up to
  the start and for every constant; a chain in order (below) is never longer.
\<close>

fun chain_search :: "nat \<Rightarrow> (nat \<Rightarrow> irins) \<Rightarrow> (nat \<Rightarrow> bool) \<Rightarrow> nat \<Rightarrow> nat \<Rightarrow> nat option" where
  "chain_search 0 ir P lim ref = None"
| "chain_search (Suc n) ir P lim ref =
     (if ref > lim then
        if P ref then Some ref else chain_search n ir P lim (ir_prev (ir ref))
      else None)"

definition chain_fuel :: "nat \<Rightarrow> nat" where "chain_fuel ref = REF_BIAS + ref"

definition chain_lookup :: "jit \<Rightarrow> irop \<Rightarrow> (nat \<Rightarrow> bool) \<Rightarrow> nat \<Rightarrow> nat option" where
  "chain_lookup J op P lim = chain_search (chain_fuel (chain J op)) (irs J) P lim (chain J op)"

definition lj_ir_kint :: "u32 \<Rightarrow> jit \<Rightarrow> nat \<times> jit" where
  "lj_ir_kint k J =
     (case chain_lookup J IR_KINT (\<lambda>r. ir_i (irs J r) = k) 0 of
        Some ref \<Rightarrow> (ref, J)
      | None \<Rightarrow>
          let (ref, J) = ir_nextk J;
              i = (irs J ref)\<lparr>ir_i := k, ir_t := IRT_INT, ir_o := IR_KINT,
                     ir_prev := chain J IR_KINT\<rparr>
          in (ref, J\<lparr>irs := (irs J)(ref := i), chain := (chain J)(IR_KINT := ref)\<rparr>))"

definition lj_ir_k64 :: "irop \<Rightarrow> u64 \<Rightarrow> jit \<Rightarrow> nat \<times> jit" where
  "lj_ir_k64 op k J =
     (case chain_lookup J op (\<lambda>r. ir_k64 (irs J) r = k) 0 of
        Some ref \<Rightarrow> (ref, J)
      | None \<Rightarrow>
          let t = (if op = IR_KNUM then IRT_NUM else IRT_I64);
              (ref, J) = ir_nextk64 J;
              i = (irs J ref)\<lparr>ir_t := t, ir_o := op, ir_op1 := 0, ir_op2 := 0, ir_i := 0,
                     ir_prev := chain J op\<rparr>
          in (ref, J\<lparr>irs := (irs J)(ref + 1 := (irs J (ref + 1))\<lparr>ir_tv := k\<rparr>, ref := i),
                     chain := (chain J)(op := ref)\<rparr>))"

definition lj_ir_knum_u64 :: "u64 \<Rightarrow> jit \<Rightarrow> nat \<times> jit" where
  "lj_ir_knum_u64 = lj_ir_k64 IR_KNUM"

definition lj_ir_kint64 :: "u64 \<Rightarrow> jit \<Rightarrow> nat \<times> jit" where
  "lj_ir_kint64 = lj_ir_k64 IR_KINT64"

text \<open>A number that is an integer other than \<open>-0\<close>, given by its bit pattern.\<close>

definition numistrueint :: "u64 \<Rightarrow> u32 option" where
  "numistrueint n =
     (let k = lj_num2int n
      in if dbl_eq n (int2dbl k) then
           if k = 0 \<and> drop_bit 32 n \<noteq> 0 then None else Some k
         else None)"

definition lj_ir_knumint :: "u64 \<Rightarrow> jit \<Rightarrow> nat \<times> jit" where
  "lj_ir_knumint n J =
     (case numistrueint n of Some k \<Rightarrow> lj_ir_kint k J | None \<Rightarrow> lj_ir_knum_u64 n J)"

text \<open>An object or pointer constant is the address in the slot behind it.\<close>

definition lj_ir_kgc :: "u64 \<Rightarrow> u8 \<Rightarrow> jit \<Rightarrow> nat \<times> jit" where
  "lj_ir_kgc p t J =
     (case chain_lookup J IR_KGC (\<lambda>r. ir_k64 (irs J) r = p) 0 of
        Some ref \<Rightarrow> (ref, J)
      | None \<Rightarrow>
          let (ref, J) = ir_nextk64 J;
              i = (irs J ref)\<lparr>ir_op1 := 0, ir_op2 := 0, ir_i := 0, ir_t := t, ir_o := IR_KGC,
                     ir_prev := chain J IR_KGC\<rparr>
          in (ref, J\<lparr>irs := (irs J)(ref + 1 := (irs J (ref + 1))\<lparr>ir_tv := p\<rparr>, ref := i),
                     chain := (chain J)(IR_KGC := ref)\<rparr>))"

definition lj_ir_kptr :: "irop \<Rightarrow> u64 \<Rightarrow> jit \<Rightarrow> nat \<times> jit" where
  "lj_ir_kptr op p J =
     (case chain_lookup J op (\<lambda>r. ir_k64 (irs J) r = p) 0 of
        Some ref \<Rightarrow> (ref, J)
      | None \<Rightarrow>
          let (ref, J) = ir_nextk64 J;
              i = (irs J ref)\<lparr>ir_op1 := 0, ir_op2 := 0, ir_i := 0, ir_t := IRT_PGC, ir_o := op,
                     ir_prev := chain J op\<rparr>
          in (ref, J\<lparr>irs := (irs J)(ref + 1 := (irs J (ref + 1))\<lparr>ir_tv := p\<rparr>, ref := i),
                     chain := (chain J)(op := ref)\<rparr>))"

definition lj_ir_knull :: "u8 \<Rightarrow> jit \<Rightarrow> nat \<times> jit" where
  "lj_ir_knull t J =
     (case chain_lookup J IR_KNULL (\<lambda>r. ir_t (irs J r) = t) 0 of
        Some ref \<Rightarrow> (ref, J)
      | None \<Rightarrow>
          let (ref, J) = ir_nextk J;
              i = (irs J ref)\<lparr>ir_i := 0, ir_t := t, ir_o := IR_KNULL,
                     ir_prev := chain J IR_KNULL\<rparr>
          in (ref, J\<lparr>irs := (irs J)(ref := i), chain := (chain J)(IR_KNULL := ref)\<rparr>))"

section \<open>Rollback and start of a trace\<close>

fun rollback_loop :: "nat \<Rightarrow> nat \<Rightarrow> jit \<Rightarrow> jit" where
  "rollback_loop ref 0 J = J\<lparr>nins := ref\<rparr>"
| "rollback_loop ref (Suc n) J =
     (let i = irs J (ref + n)
      in rollback_loop ref n (J\<lparr>chain := (chain J)(ir_o i := ir_prev i)\<rparr>))"

definition lj_ir_rollback :: "nat \<Rightarrow> jit \<Rightarrow> jit" where
  "lj_ir_rollback ref J = (if nins J > ref then rollback_loop ref (nins J - ref) J else J)"

text \<open>The fixed references, as \<open>lj_record_setup\<close> and \<open>trace_start\<close> prepare them.\<close>

definition lj_record_setup :: "nat \<Rightarrow> nat \<Rightarrow> jit \<Rightarrow> jit" where
  "lj_record_setup parent exitno J =
     (let J = J\<lparr>nins := REF_BASE, nk := REF_BASE, chain := (\<lambda>_. 0)\<rparr>;
          (_, J) = lj_ir_emit (lj_ir_set IR_BASE IRT_PGC parent exitno J);
          pri = (\<lambda>i ir. ir(REF_NIL - i := (ir (REF_NIL - i))\<lparr>ir_i := 0, ir_op1 := 0, ir_op2 := 0, ir_t := IRT_NIL + of_nat i,
                    ir_o := IR_KPRI, ir_prev := 0\<rparr>))
      in J\<lparr>irs := pri 2 (pri 1 (pri 0 (irs J))), nk := REF_TRUE\<rparr>)"

end
