(* ===== verification/LjIrInv.thy ===== *)
theory LjIrInv
  imports LjIr
begin

text \<open>
  The invariant of the IR: every per-opcode chain is a finite list in order (constants ascending,
  instructions descending) of references with that opcode, and constants are unique. The emitter
  and the interning functions keep it and never change an existing slot.
\<close>

section \<open>Chains as lists\<close>

inductive ichain :: "(nat \<Rightarrow> irins) \<Rightarrow> nat \<Rightarrow> nat list \<Rightarrow> bool" where
  ichain_end: "ichain ir 0 []"
| ichain_step: "r \<noteq> 0 \<Longrightarrow> ichain ir (ir_prev (ir r)) rs \<Longrightarrow> ichain ir r (r # rs)"

inductive_cases ichain_NilE: "ichain ir r []"
inductive_cases ichain_ConsE: "ichain ir r (x # rs)"

lemma ichain_Nil [simp]: "ichain ir r [] \<longleftrightarrow> r = 0"
  by (auto elim: ichain_NilE intro: ichain_end)

lemma ichain_Cons [simp]:
  "ichain ir r (x # rs) \<longleftrightarrow> x = r \<and> r \<noteq> 0 \<and> ichain ir (ir_prev (ir r)) rs"
  by (auto elim: ichain_ConsE intro: ichain_step)

lemma ichain_unique: "ichain ir r rs \<Longrightarrow> ichain ir r rs' \<Longrightarrow> rs' = rs"
proof (induction rs arbitrary: r rs')
  case Nil
  then have "r = 0" by simp
  then show ?case using Nil by (cases rs') simp_all
next
  case (Cons x rs)
  then have r: "x = r" "r \<noteq> 0" "ichain ir (ir_prev (ir r)) rs" by simp_all
  then obtain ys where "rs' = r # ys" "ichain ir (ir_prev (ir r)) ys"
    using Cons.prems(2) by (cases rs') simp_all
  then show ?case using Cons.IH r by simp
qed

lemma ichain_cong: "ichain ir r rs \<Longrightarrow> (\<And>x. x \<in> set rs \<Longrightarrow> ir' x = ir x) \<Longrightarrow> ichain ir' r rs"
  by (induction rule: ichain.induct) auto

lemma ichain_nonzero: "ichain ir r rs \<Longrightarrow> 0 \<notin> set rs"
  by (induction rule: ichain.induct) auto

lemma chain_search_find:
  "ichain ir r rs \<Longrightarrow> length rs \<le> n \<Longrightarrow>
   chain_search n ir P lim r = find P (takeWhile (\<lambda>x. lim < x) rs)"
proof (induction arbitrary: n rule: ichain.induct)
  case (ichain_end ir)
  show ?case by (cases n) auto
next
  case (ichain_step r ir rs)
  then show ?case by (cases n) auto
qed

definition is_const_op :: "irop \<Rightarrow> bool" where
  "is_const_op op \<longleftrightarrow> IR_KPRI \<le> op \<and> op \<le> IR_KSLOT"

definition in_order :: "irop \<Rightarrow> nat list \<Rightarrow> bool" where
  "in_order op rs \<longleftrightarrow>
     (if is_const_op op then sorted_wrt (<) rs \<and> (\<forall>r\<in>set rs. r < REF_TRUE)
      else sorted_wrt (>) rs \<and> (\<forall>r\<in>set rs. REF_BIAS \<le> r))"

lemma in_order_distinct: "in_order op rs \<Longrightarrow> distinct rs"
  by (auto simp: in_order_def strict_sorted_iff sorted_wrt_iff_nth_less distinct_conv_nth
      split: if_splits) (metis nat_neq_iff)+

lemma in_order_fuel:
  assumes "in_order op rs" "ichain ir r rs"
  shows "length rs \<le> chain_fuel r"
proof (cases "is_const_op op")
  case True
  then have "set rs \<subseteq> {..<REF_BIAS}" using assms by (auto simp: in_order_def ir_refs)
  then have "card (set rs) \<le> REF_BIAS" using card_mono [of "{..<REF_BIAS}" "set rs"] by simp
  then show ?thesis using in_order_distinct [OF assms(1)]
    by (simp add: distinct_card chain_fuel_def)
next
  case False
  then have s: "sorted_wrt (>) rs" using assms by (simp add: in_order_def)
  have "set rs \<subseteq> {..r}" using assms(2) s by (cases rs) auto
  then have "card (set rs) \<le> Suc r" using card_mono [of "{..r}" "set rs"] by simp
  then show ?thesis using in_order_distinct [OF assms(1)]
    by (simp add: distinct_card chain_fuel_def REF_BIAS_def)
qed

lemma descending_takeWhile:
  "sorted_wrt (>) rs \<Longrightarrow> takeWhile (\<lambda>x. (lim::nat) < x) rs = filter (\<lambda>x. lim < x) rs"
  by (induction rs) (auto simp: filter_empty_conv dest: order.strict_trans intro!: filter_False [symmetric])

section \<open>The invariant\<close>

definition chain_good :: "jit \<Rightarrow> irop \<Rightarrow> nat list \<Rightarrow> bool" where
  "chain_good J op rs \<longleftrightarrow> ichain (irs J) (chain J op) rs \<and> in_order op rs \<and>
     (\<forall>r\<in>set rs. ir_o (irs J r) = op \<and> nk J \<le> r \<and> r < nins J)"

definition ir_wf :: "jit \<Rightarrow> bool" where
  "ir_wf J \<longleftrightarrow> 0 < nk J \<and> nk J \<le> REF_TRUE \<and> REF_FIRST \<le> nins J \<and> (\<forall>op. \<exists>rs. chain_good J op rs)"

definition chain_list :: "jit \<Rightarrow> irop \<Rightarrow> nat list" where
  "chain_list J op = (THE rs. chain_good J op rs)"

lemma chain_good_unique: "chain_good J op rs \<Longrightarrow> chain_good J op rs' \<Longrightarrow> rs' = rs"
  by (auto simp: chain_good_def intro: ichain_unique)

lemma chain_listI: "chain_good J op rs \<Longrightarrow> chain_list J op = rs"
  unfolding chain_list_def by (rule the_equality) (auto intro: chain_good_unique)

lemma chain_list_good: "ir_wf J \<Longrightarrow> chain_good J op (chain_list J op)"
  unfolding ir_wf_def using chain_listI by fastforce

lemma chain_listD:
  assumes "ir_wf J" "r \<in> set (chain_list J op)"
  shows "ir_o (irs J r) = op" "nk J \<le> r" "r < nins J"
    "is_const_op op \<Longrightarrow> r < REF_TRUE" "\<not> is_const_op op \<Longrightarrow> REF_BIAS \<le> r"
  using chain_list_good [OF assms(1), of op] assms(2) by (auto simp: chain_good_def in_order_def)

lemma chain_lookup_find:
  assumes "ir_wf J"
  shows "chain_lookup J op P lim = find P (takeWhile (\<lambda>x. lim < x) (chain_list J op))"
proof -
  have g: "ichain (irs J) (chain J op) (chain_list J op)" "in_order op (chain_list J op)"
    using chain_list_good [OF assms, of op] by (simp_all add: chain_good_def)
  show ?thesis
    unfolding chain_lookup_def using chain_search_find [OF g(1)] in_order_fuel [OF g(2,1)] by blast
qed

lemma chain_lookup_Some:
  assumes "ir_wf J" "chain_lookup J op P lim = Some r"
  shows "r \<in> set (chain_list J op) \<and> P r \<and> lim < r"
proof -
  have "r \<in> set (takeWhile (\<lambda>x. lim < x) (chain_list J op)) \<and> P r"
    using assms(2) unfolding chain_lookup_find [OF assms(1)]
    by (auto simp: find_Some_iff in_set_conv_nth)
  then show ?thesis using set_takeWhileD by fastforce
qed

lemma chain_lookup_None:
  assumes "ir_wf J" "chain_lookup J op P lim = None" "r \<in> set (chain_list J op)" "lim < r"
    and "\<not> is_const_op op \<or> lim = 0"
  shows "\<not> P r"
proof -
  have g: "ichain (irs J) (chain J op) (chain_list J op)" "in_order op (chain_list J op)"
    using chain_list_good [OF assms(1), of op] by (simp_all add: chain_good_def)
  have "takeWhile (\<lambda>x. lim < x) (chain_list J op) = filter (\<lambda>x. lim < x) (chain_list J op)"
  proof (cases "is_const_op op")
    case True
    then have "lim = 0" using assms(5) by simp
    then have "\<forall>x\<in>set (chain_list J op). lim < x" using ichain_nonzero [OF g(1)] by (metis gr0I)
    then show ?thesis by (simp add: takeWhile_eq_all_conv filter_True)
  next
    case False
    then have "sorted_wrt (>) (chain_list J op)" using g(2) by (simp add: in_order_def)
    then show ?thesis
      by (rule descending_takeWhile)
  qed
  then have "r \<in> set (takeWhile (\<lambda>x. lim < x) (chain_list J op))" using assms by simp
  then show ?thesis using assms(2) by (auto simp: chain_lookup_find [OF assms(1)] find_None_iff)
qed


section \<open>Unique constants\<close>

text \<open>The value a constant is interned by.\<close>

definition const_key :: "(nat \<Rightarrow> irins) \<Rightarrow> irop \<Rightarrow> nat \<Rightarrow> u64" where
  "const_key ir op r =
     (if op = IR_KINT then ucast (ir_i (ir r))
      else if op = IR_KNULL then ucast (ir_t (ir r)) else ir_k64 ir r)"

definition is_key_op :: "irop \<Rightarrow> bool" where
  "is_key_op op \<longleftrightarrow> op \<in> {IR_KINT, IR_KNULL, IR_KGC, IR_KPTR, IR_KKPTR, IR_KNUM, IR_KINT64}"

definition ir_ok :: "jit \<Rightarrow> bool" where
  "ir_ok J \<longleftrightarrow> ir_wf J \<and>
     (\<forall>op. is_key_op op \<longrightarrow> distinct (map (const_key (irs J) op) (chain_list J op)))"

text \<open>\<open>ir_ext J J'\<close>: everything that was in the IR is still there, unchanged, and what was added is
  outside the old bounds.\<close>

definition ir_ext :: "jit \<Rightarrow> jit \<Rightarrow> bool" where
  "ir_ext J J' \<longleftrightarrow> nk J' \<le> nk J \<and> nins J \<le> nins J' \<and> jit_flags J' = jit_flags J \<and>
     (\<forall>r. nk J \<le> r \<and> r < nins J \<longrightarrow> irs J' r = irs J r) \<and>
     (\<forall>op. set (chain_list J op) \<subseteq> set (chain_list J' op)) \<and>
     (\<forall>op r. r \<in> set (chain_list J' op) \<longrightarrow> nk J \<le> r \<longrightarrow> r < nins J \<longrightarrow> r \<in> set (chain_list J op))"

lemma ir_ext_refl: "ir_ext J J"
  by (simp add: ir_ext_def)

lemma ir_ext_trans: "ir_ext J J' \<Longrightarrow> ir_ext J' J'' \<Longrightarrow> ir_ext J J''"
  unfolding ir_ext_def by (intro conjI allI impI; elim conjE) (force+)

lemma chain_good_keep:
  assumes "chain_good J op rs" "chain J' op = chain J op" "nk J' \<le> nk J" "nins J \<le> nins J'"
    and "\<And>r. nk J \<le> r \<Longrightarrow> r < nins J \<Longrightarrow> irs J' r = irs J r"
  shows "chain_good J' op rs"
  using assms unfolding chain_good_def by (auto intro: ichain_cong)

lemma chain_push:
  assumes wf: "ir_wf J"
    and old: "\<And>r. nk J \<le> r \<Longrightarrow> r < nins J \<Longrightarrow> irs J' r = irs J r"
    and ch: "chain J' = (chain J)(op := r0)"
    and new: "ir_o (irs J' r0) = op" "ir_prev (irs J' r0) = chain J op"
    and lim: "0 < nk J'" "nk J' \<le> nk J" "nins J \<le> nins J'" "nk J' \<le> r0" "r0 < nins J'"
    and pos: "if is_const_op op then r0 < nk J else r0 = nins J"
  shows "ir_wf J'" and "chain_list J' op' = (if op' = op then r0 # chain_list J op else chain_list J op')"
proof -
  have j: "nk J \<le> REF_TRUE" "REF_FIRST \<le> nins J" using wf by (simp_all add: ir_wf_def)
  have good: "chain_good J' op' (if op' = op then r0 # chain_list J op else chain_list J op')" for op'
  proof (cases "op' = op")
    case True
    have g: "chain_good J op (chain_list J op)" using wf by (rule chain_list_good)
    have mem: "nk J \<le> r \<and> r < nins J" if "r \<in> set (chain_list J op)" for r
      using g that by (auto simp: chain_good_def)
    have "ichain (irs J') (chain J op) (chain_list J op)"
      using g old mem by (auto simp: chain_good_def intro: ichain_cong)
    moreover have "in_order op (r0 # chain_list J op)"
    proof (cases "is_const_op op")
      case True
      then have "\<forall>r\<in>set (chain_list J op). r0 < r" "r0 < REF_TRUE"
        using pos mem j by (force simp: ir_refs)+
      then show ?thesis using g True by (simp add: chain_good_def in_order_def)
    next
      case False
      then have "\<forall>r\<in>set (chain_list J op). r < r0" "REF_BIAS \<le> r0"
        using pos mem j by (auto simp: ir_refs)
      then show ?thesis using g False by (simp add: chain_good_def in_order_def)
    qed
    moreover have "\<forall>r\<in>set (chain_list J op). ir_o (irs J' r) = op \<and> nk J' \<le> r \<and> r < nins J'"
      using g old mem lim by (force simp: chain_good_def)
    moreover have "r0 \<noteq> 0" using lim by simp
    ultimately show ?thesis
      using True new lim ch by (simp add: chain_good_def)
  next
    case False
    then show ?thesis
      using chain_good_keep [OF chain_list_good [OF wf, of op'], of J'] lim old ch by simp
  qed
  then show "chain_list J' op' = (if op' = op then r0 # chain_list J op else chain_list J op')"
    by (rule chain_listI)
  show "ir_wf J'" using good lim j unfolding ir_wf_def by (meson order_trans)
qed

lemma ext_push:
  assumes "ir_wf J"
    and "\<And>r. nk J \<le> r \<Longrightarrow> r < nins J \<Longrightarrow> irs J' r = irs J r"
    and "chain J' = (chain J)(op := r0)"
    and "ir_o (irs J' r0) = op" "ir_prev (irs J' r0) = chain J op"
    and "0 < nk J'" "nk J' \<le> nk J" "nins J \<le> nins J'" "nk J' \<le> r0" "r0 < nins J'"
    and "if is_const_op op then r0 < nk J else r0 = nins J"
    and "jit_flags J' = jit_flags J"
  shows "ir_ext J J'"
proof -
  have "r0 < nk J \<or> nins J \<le> r0" using assms(11) by (auto split: if_splits)
  then show ?thesis using assms(2,7,8,12) chain_push(2) [OF assms(1-11)] by (auto simp: ir_ext_def)
qed

lemma key_op_const: "is_key_op op \<Longrightarrow> is_const_op op"
  by (auto simp: is_key_op_def is_const_op_def ir_ops)

lemma const_key_old:
  assumes "ir_wf J" "r \<in> set (chain_list J op)" "is_const_op op"
    and "\<And>r. nk J \<le> r \<Longrightarrow> r < nins J \<Longrightarrow> irs J' r = irs J r"
  shows "const_key (irs J') op r = const_key (irs J) op r"
proof -
  have "nk J \<le> r" "r < REF_TRUE" "REF_FIRST \<le> nins J"
    using chain_listD [OF assms(1,2)] assms(1,3) by (simp_all add: ir_wf_def)
  then have "irs J' r = irs J r" "irs J' (r + 1) = irs J (r + 1)" using assms(4) by (simp_all add: ir_refs)
  then show ?thesis by (simp add: const_key_def ir_k64_def)
qed


text \<open>What interning a constant promises.\<close>

definition interned :: "irop \<Rightarrow> u64 \<Rightarrow> jit \<Rightarrow> nat \<Rightarrow> jit \<Rightarrow> bool" where
  "interned op k J r J' \<longleftrightarrow> ir_ok J' \<and> ir_ext J J' \<and> nins J' = nins J \<and> fins J' = fins J \<and>
     r \<in> set (chain_list J' op) \<and> const_key (irs J') op r = k \<and>
     (\<forall>op'. op' \<noteq> op \<longrightarrow> chain_list J' op' = chain_list J op')"

lemma intern_found:
  assumes "ir_ok J" "is_key_op op" "chain_lookup J op (\<lambda>r. const_key (irs J) op r = k) 0 = Some r"
  shows "interned op k J r J"
  using assms chain_lookup_Some [of J op _ 0 r] by (auto simp: interned_def ir_ok_def ir_ext_refl)

lemma intern_new:
  assumes ok: "ir_ok J" "is_key_op op"
    and none: "chain_lookup J op (\<lambda>r. const_key (irs J) op r = k) 0 = None"
    and old: "\<And>r. nk J \<le> r \<Longrightarrow> r < nins J \<Longrightarrow> irs J' r = irs J r"
    and ch: "chain J' = (chain J)(op := r0)"
    and new: "ir_o (irs J' r0) = op" "ir_prev (irs J' r0) = chain J op" "const_key (irs J') op r0 = k"
    and lim: "0 < nk J'" "nk J' \<le> r0" "r0 < nk J" "nins J' = nins J"
    and rest: "jit_flags J' = jit_flags J" "fins J' = fins J"
  shows "interned op k J r0 J'"
proof -
  have wf: "ir_wf J" and c: "is_const_op op" using ok by (simp_all add: ir_ok_def key_op_const)
  have j: "nk J \<le> REF_TRUE" "REF_FIRST \<le> nins J" using wf by (simp_all add: ir_wf_def)
  have lim': "nk J' \<le> nk J" "nins J \<le> nins J'" "r0 < nins J'" using lim j by (simp_all add: ir_refs)
  have pos: "if is_const_op op then r0 < nk J else r0 = nins J" using c lim by simp
  note P = wf old ch new(1,2) lim(1) lim' (1,2) lim(2) lim'(3) pos
  have wf': "ir_wf J'" and l: "\<And>op'. chain_list J' op' = (if op' = op then r0 # chain_list J op else chain_list J op')"
    by (rule chain_push [OF P]; assumption)+
  have ext: "ir_ext J J'" by (rule ext_push [OF P rest(1)])
  have key: "const_key (irs J') op' r = const_key (irs J) op' r"
    if "r \<in> set (chain_list J op')" "is_key_op op'" for r op'
    using const_key_old [OF wf that(1) key_op_const [OF that(2)] old] .
  have "k \<notin> const_key (irs J) op ` set (chain_list J op)"
    using chain_lookup_None [OF wf none] c ichain_nonzero chain_list_good [OF wf, of op]
    by (force simp: chain_good_def)
  then have "distinct (map (const_key (irs J') op') (chain_list J' op'))" if "is_key_op op'" for op'
    using ok that key [OF _ that] new(3) unfolding l
    by (auto simp: ir_ok_def image_iff cong: map_cong)
  then show ?thesis using wf' l ext new lim rest by (simp add: interned_def ir_ok_def)
qed

lemma nextk_simps:
  "ir_nextk J = (r, J1) \<Longrightarrow> r = nk J - 1 \<and> nk J1 = nk J - 1 \<and> irs J1 = irs J \<and> nins J1 = nins J \<and>
     chain J1 = chain J \<and> fins J1 = fins J \<and> jit_flags J1 = jit_flags J \<and> guardemit J1 = guardemit J"
  by (auto simp: ir_nextk_def Let_def lj_ir_growbot_def split: if_splits)

lemma nextk64_simps:
  "ir_nextk64 J = (r, J1) \<Longrightarrow> r = nk J - 2 \<and> nk J1 = nk J - 2 \<and> irs J1 = irs J \<and> nins J1 = nins J \<and>
     chain J1 = chain J \<and> fins J1 = fins J \<and> jit_flags J1 = jit_flags J \<and> guardemit J1 = guardemit J"
  by (auto simp: ir_nextk64_def Let_def lj_ir_growbot_def split: if_splits)


lemma unat_ucast_u32: "unat (ucast (x::u32) :: u64) = unat x"
proof -
  have "unat x < 2 ^ 64" by (rule less_trans [OF unat_bound32]) simp
  then show ?thesis by (simp add: unsigned_ucast_eq take_bit_nat_eq_self)
qed

lemma unat_ucast_u8: "unat (ucast (x::u8) :: u64) = unat x"
proof -
  have "unat x < 2 ^ LENGTH(8)" by (rule unsigned_less)
  then have "unat x < 2 ^ 64" by simp
  then show ?thesis by (simp add: unsigned_ucast_eq take_bit_nat_eq_self)
qed

lemma ucast_eq32: "(ucast (x::u32) :: u64) = ucast y \<longleftrightarrow> x = y"
  by (simp add: word_unat_eq_iff unat_ucast_u32)

lemma ucast_eq8: "(ucast (x::u8) :: u64) = ucast y \<longleftrightarrow> x = y"
  by (simp add: word_unat_eq_iff unat_ucast_u8)

lemma kint_interned:
  assumes "ir_ok J" "lj_ir_kint k J = (r, J')" "nk J' \<noteq> 0"
  shows "interned IR_KINT (ucast k) J r J'"
proof -
  have e: "(\<lambda>r. const_key (irs J) IR_KINT r = ucast k) = (\<lambda>r. ir_i (irs J r) = k)"
    by (auto simp: const_key_def fun_eq_iff ucast_eq32)
  show ?thesis
  proof (cases "chain_lookup J IR_KINT (\<lambda>r. ir_i (irs J r) = k) 0")
    case (Some r')
    then have "interned IR_KINT (ucast k) J r' J"
      using assms(1) by (intro intern_found) (simp_all only: e is_key_op_def insert_iff simp_thms)
    then show ?thesis using assms(2) Some by (simp add: lj_ir_kint_def)
  next
    case None
    obtain r1 J1 where n: "ir_nextk J = (r1, J1)" by force
    show ?thesis
      using assms None nextk_simps [OF n]
      by (intro intern_new) (auto simp: lj_ir_kint_def n e is_key_op_def const_key_def ucast_eq32)
  qed
qed

lemma k64_key: "is_key_op op \<Longrightarrow> op \<noteq> IR_KINT \<Longrightarrow> op \<noteq> IR_KNULL \<Longrightarrow>
  (\<lambda>r. const_key ir op r = k) = (\<lambda>r. ir_k64 ir r = k)"
  by (auto simp: const_key_def fun_eq_iff)

lemma intern_new64:
  assumes "ir_ok J" "is_key_op op" "op \<noteq> IR_KINT" "op \<noteq> IR_KNULL"
    and none: "chain_lookup J op (\<lambda>r. ir_k64 (irs J) r = k) 0 = None"
    and n: "ir_nextk64 J = (r, J1)" and nz: "nk J1 \<noteq> 0"
    and i: "ir_o i = op" "ir_prev i = chain J op"
  shows "interned op k J r (J1\<lparr>irs := (irs J1)(r + 1 := (irs J1 (r + 1))\<lparr>ir_tv := k\<rparr>, r := i),
    chain := (chain J1)(op := r)\<rparr>)" (is "interned _ _ _ _ ?J'")
proof (rule intern_new)
  note N = nextk64_simps [OF n]
  have r: "r + 1 < nk J" "nk J1 = r" "0 < r" using N nz by auto
  show "ir_ok J" "is_key_op op" using assms by simp_all
  show "chain_lookup J op (\<lambda>r. const_key (irs J) op r = k) 0 = None"
    using none assms(2-4) by (simp add: k64_key)
  show "irs ?J' x = irs J x" if "nk J \<le> x" "x < nins J" for x using that N r by simp
  show "const_key (irs ?J') op r = k" using assms(2-4) by (simp add: const_key_def ir_k64_def)
  show "chain ?J' = (chain J)(op := r)" "ir_o (irs ?J' r) = op" "ir_prev (irs ?J' r) = chain J op"
    "0 < nk ?J'" "nk ?J' \<le> r" "r < nk J" "nins ?J' = nins J" "jit_flags ?J' = jit_flags J"
    "fins ?J' = fins J"
    using N r i by simp_all
qed

lemma k64_interned:
  assumes "ir_ok J" "lj_ir_k64 op k J = (r, J')" "nk J' \<noteq> 0"
    and op: "is_key_op op" "op \<noteq> IR_KINT" "op \<noteq> IR_KNULL"
  shows "interned op k J r J'"
proof (cases "chain_lookup J op (\<lambda>r. ir_k64 (irs J) r = k) 0")
  case (Some r')
  then show ?thesis
    using assms intern_found [of J op k r'] by (simp add: lj_ir_k64_def k64_key)
next
  case None
  obtain r1 J1 where n: "ir_nextk64 J = (r1, J1)" by force
  have J': "J' = J1\<lparr>irs := (irs J1)(r1 + 1 := (irs J1 (r1 + 1))\<lparr>ir_tv := k\<rparr>, r1 := (irs J1 r1)\<lparr>
      ir_t := (if op = IR_KNUM then IRT_NUM else IRT_I64), ir_o := op, ir_op1 := 0,
      ir_op2 := 0, ir_i := 0, ir_prev := chain J1 op\<rparr>), chain := (chain J1)(op := r1)\<rparr>" "r = r1"
    using assms(2) None by (auto simp: lj_ir_k64_def n Let_def split del: if_split)
  have "nk J1 \<noteq> 0" "chain J1 = chain J" using assms(3) J' nextk64_simps [OF n] by simp_all
  then show ?thesis unfolding J' by (intro intern_new64 [OF assms(1) op None n]) simp_all
qed

lemma kgc_interned:
  assumes "ir_ok J" "lj_ir_kgc p t J = (r, J')" "nk J' \<noteq> 0"
  shows "interned IR_KGC p J r J'"
proof (cases "chain_lookup J IR_KGC (\<lambda>r. ir_k64 (irs J) r = p) 0")
  case (Some r')
  then show ?thesis
    using assms intern_found [of J IR_KGC p r']
    by (simp add: lj_ir_kgc_def k64_key is_key_op_def ir_ops)
next
  case None
  obtain r1 J1 where n: "ir_nextk64 J = (r1, J1)" by force
  have J': "J' = J1\<lparr>irs := (irs J1)(r1 + 1 := (irs J1 (r1 + 1))\<lparr>ir_tv := p\<rparr>, r1 := (irs J1 r1)\<lparr>ir_op1 := 0,
      ir_op2 := 0, ir_i := 0, ir_t := t, ir_o := IR_KGC, ir_prev := chain J1 IR_KGC\<rparr>),
      chain := (chain J1)(IR_KGC := r1)\<rparr>" "r = r1"
    using assms(2) None by (auto simp: lj_ir_kgc_def n Let_def split del: if_split)
  have "nk J1 \<noteq> 0" "chain J1 = chain J" using assms(3) J' nextk64_simps [OF n] by simp_all
  then show ?thesis unfolding J' by (intro intern_new64 [OF assms(1) _ _ _ None n]) (simp_all add: is_key_op_def ir_ops)
qed

lemma kptr_interned:
  assumes "ir_ok J" "lj_ir_kptr op p J = (r, J')" "nk J' \<noteq> 0" "op = IR_KPTR \<or> op = IR_KKPTR"
  shows "interned op p J r J'"
proof -
  have op: "is_key_op op" "op \<noteq> IR_KINT" "op \<noteq> IR_KNULL" using assms(4) by (auto simp: is_key_op_def ir_ops)
  show ?thesis
  proof (cases "chain_lookup J op (\<lambda>r. ir_k64 (irs J) r = p) 0")
    case (Some r')
    then show ?thesis
      using assms op intern_found [of J op p r'] by (simp add: lj_ir_kptr_def k64_key)
  next
    case None
    obtain r1 J1 where n: "ir_nextk64 J = (r1, J1)" by force
    have J': "J' = J1\<lparr>irs := (irs J1)(r1 + 1 := (irs J1 (r1 + 1))\<lparr>ir_tv := p\<rparr>, r1 := (irs J1 r1)\<lparr>ir_op1 := 0,
        ir_op2 := 0, ir_i := 0, ir_t := IRT_PGC, ir_o := op, ir_prev := chain J1 op\<rparr>),
        chain := (chain J1)(op := r1)\<rparr>" "r = r1"
      using assms(2) None by (auto simp: lj_ir_kptr_def n Let_def split del: if_split)
  have "nk J1 \<noteq> 0" "chain J1 = chain J" using assms(3) J' nextk64_simps [OF n] by simp_all
  then show ?thesis unfolding J' by (intro intern_new64 [OF assms(1) op None n]) simp_all
  qed
qed

lemma knull_interned:
  assumes "ir_ok J" "lj_ir_knull t J = (r, J')" "nk J' \<noteq> 0"
  shows "interned IR_KNULL (ucast t) J r J'"
proof -
  have e: "(\<lambda>r. const_key (irs J) IR_KNULL r = ucast t) = (\<lambda>r. ir_t (irs J r) = t)"
    by (auto simp: const_key_def fun_eq_iff ucast_eq8 ir_ops)
  show ?thesis
  proof (cases "chain_lookup J IR_KNULL (\<lambda>r. ir_t (irs J r) = t) 0")
    case (Some r')
    then have "interned IR_KNULL (ucast t) J r' J"
      using assms(1) by (intro intern_found) (simp_all only: e is_key_op_def insert_iff simp_thms)
    then show ?thesis using assms(2) Some by (simp add: lj_ir_knull_def)
  next
    case None
    obtain r1 J1 where n: "ir_nextk J = (r1, J1)" by force
    show ?thesis
      using assms None nextk_simps [OF n]
      by (intro intern_new) (auto simp: lj_ir_knull_def n e is_key_op_def const_key_def ir_ops ucast_eq8)
  qed
qed

lemma interned_again:
  assumes "ir_ok J" "interned op k J r J'" "interned op k J' r' J''" "is_key_op op"
  shows "r' = r"
proof -
  have "r \<in> set (chain_list J'' op)" "r' \<in> set (chain_list J'' op)"
    using assms(2,3) by (auto simp: interned_def ir_ext_def)
  moreover have "const_key (irs J'') op r = k" "const_key (irs J'') op r' = k"
    using assms const_key_old [of J' r op J''] key_op_const [of op]
    by (auto simp: interned_def ir_ext_def ir_ok_def)
  moreover have "distinct (map (const_key (irs J'') op) (chain_list J'' op))"
    using assms by (simp add: interned_def ir_ok_def)
  ultimately show ?thesis by (metis distinct_map inj_onD)
qed

section \<open>The emitter\<close>

lemma nextins_simps:
  "lj_ir_nextins J = (r, J1) \<Longrightarrow> r = nins J \<and> nins J1 = nins J + 1 \<and> irs J1 = irs J \<and> nk J1 = nk J \<and>
     chain J1 = chain J \<and> fins J1 = fins J \<and> jit_flags J1 = jit_flags J \<and> guardemit J1 = guardemit J"
  by (auto simp: lj_ir_nextins_def Let_def lj_ir_growtop_def split: if_splits)

text \<open>The promise of an emitted instruction.\<close>

definition emitted :: "jit \<Rightarrow> nat \<Rightarrow> jit \<Rightarrow> bool" where
  "emitted J r J' \<longleftrightarrow> ir_ok J' \<and> ir_ext J J' \<and> r = nins J \<and> nins J' = nins J + 1 \<and> nk J' = nk J \<and>
     fins J' = fins J \<and> ir_o (irs J' r) = ir_o (fins J) \<and> ir_op1 (irs J' r) = ir_op1 (fins J) \<and>
     ir_op2 (irs J' r) = ir_op2 (fins J) \<and> ir_t (irs J' r) = ir_t (fins J) \<and>
     (\<forall>op. chain_list J' op = (if op = ir_o (fins J) then r # chain_list J op else chain_list J op))"

lemma emit_emitted:
  assumes ok: "ir_ok J" "\<not> is_const_op (ir_o (fins J))" and e: "lj_ir_emit J = (r, J')"
  shows "emitted J r J'"
proof -
  obtain r1 J1 where n: "lj_ir_nextins J = (r1, J1)" by force
  have wf: "ir_wf J" using ok by (simp add: ir_ok_def)
  have j: "nk J \<le> REF_TRUE" "0 < nk J" "REF_FIRST \<le> nins J" using wf by (simp_all add: ir_wf_def)
  note N = nextins_simps [OF n]
  have J': "r = nins J" "J' = J1\<lparr>irs := (irs J)(nins J := (irs J (nins J))\<lparr>ir_prev := chain J (ir_o (fins J)),
      ir_o := ir_o (fins J), ir_op1 := ir_op1 (fins J), ir_op2 := ir_op2 (fins J), ir_t := ir_t (fins J)\<rparr>),
      chain := (chain J)(ir_o (fins J) := nins J), guardemit := guardemit J OR ir_t (fins J)\<rparr>"
    using e N by (auto simp: lj_ir_emit_def n Let_def)
  have P: "ir_wf J" "\<And>x. nk J \<le> x \<Longrightarrow> x < nins J \<Longrightarrow> irs J' x = irs J x"
    "chain J' = (chain J)(ir_o (fins J) := nins J)"
    "ir_o (irs J' (nins J)) = ir_o (fins J)" "ir_prev (irs J' (nins J)) = chain J (ir_o (fins J))"
    "0 < nk J'" "nk J' \<le> nk J" "nins J \<le> nins J'" "nk J' \<le> nins J" "nins J < nins J'"
    "if is_const_op (ir_o (fins J)) then nins J < nk J else nins J = nins J"
    "jit_flags J' = jit_flags J"
    using wf ok(2) j N unfolding J'(2) by (simp_all add: ir_refs)
  have l: "chain_list J' op = (if op = ir_o (fins J) then nins J # chain_list J op else chain_list J op)" for op
    using chain_push(2) [OF P(1-11), of op] by simp
  have "distinct (map (const_key (irs J') op) (chain_list J' op))" if "is_key_op op" for op
  proof -
    have "op \<noteq> ir_o (fins J)" using that ok(2) key_op_const by blast
    then have "map (const_key (irs J') op) (chain_list J' op) = map (const_key (irs J) op) (chain_list J op)"
      using const_key_old [OF wf _ key_op_const [OF that], of _ J'] P(2) by (simp add: l)
    moreover have "distinct (map (const_key (irs J) op) (chain_list J op))"
      using ok(1) that unfolding ir_ok_def by blast
    ultimately show ?thesis by (simp only:)
  qed
  moreover have "ir_wf J'" by (rule chain_push(1) [OF P(1-11)])
  ultimately have "ir_ok J'" by (simp add: ir_ok_def)
  then show ?thesis
    using ext_push [OF P] l J' N by (simp add: emitted_def)
qed

end
