(* ===== verification/LjIrProps.thy ===== *)
theory LjIrProps
  imports LjIrInv
begin

text \<open>
  Properties of the IR emitter: constants keep their reference for the whole trace, a rollback
  undoes emitted instructions, and the growing buffer always covers the references handed out.
\<close>

section \<open>Interning\<close>

lemma lookup_again:
  assumes "ir_ok J" "is_key_op op" "r \<in> set (chain_list J op)" "const_key (irs J) op r = k"
  shows "chain_lookup J op (\<lambda>r. const_key (irs J) op r = k) 0 = Some r"
proof (cases "chain_lookup J op (\<lambda>r. const_key (irs J) op r = k) 0")
  case None
  have wf: "ir_wf J" using assms by (simp add: ir_ok_def)
  have "r \<noteq> 0" using chain_listD(2) [OF wf assms(3)] wf by (auto simp: ir_wf_def)
  then show ?thesis using chain_lookup_None [OF wf None assms(3)] assms(4) by simp
next
  case (Some r')
  have wf: "ir_wf J" using assms by (simp add: ir_ok_def)
  have "r' \<in> set (chain_list J op)" "const_key (irs J) op r' = k"
    using chain_lookup_Some [OF wf Some] by simp_all
  moreover have "distinct (map (const_key (irs J) op) (chain_list J op))"
    using assms by (simp add: ir_ok_def)
  ultimately have "r' = r" using assms by (metis distinct_map inj_onD)
  then show ?thesis using Some by simp
qed

lemma interned_stays:
  assumes "interned op k J r J'" "is_key_op op" "ir_ext J' J2" "ir_ok J2"
  shows "chain_lookup J2 op (\<lambda>r. const_key (irs J2) op r = k) 0 = Some r"
proof -
  have "r \<in> set (chain_list J2 op)" using assms by (auto simp: interned_def ir_ext_def)
  moreover have "const_key (irs J2) op r = k"
    using assms const_key_old [of J' r op J2] key_op_const [of op]
    by (auto simp: interned_def ir_ext_def ir_ok_def)
  ultimately show ?thesis using lookup_again assms by blast
qed

lemma kint_again:
  assumes "ir_ok J" "lj_ir_kint k J = (r, J')" "nk J' \<noteq> 0" "ir_ext J' J2" "ir_ok J2"
  shows "lj_ir_kint k J2 = (r, J2)"
proof -
  have "chain_lookup J2 IR_KINT (\<lambda>r. const_key (irs J2) IR_KINT r = ucast k) 0 = Some r"
    using interned_stays [OF kint_interned [OF assms(1-3)] _ assms(4,5)] by (simp add: is_key_op_def)
  then show ?thesis by (simp add: lj_ir_kint_def const_key_def ucast_eq32)
qed

lemma k64_again:
  assumes "ir_ok J" "lj_ir_k64 op k J = (r, J')" "nk J' \<noteq> 0" "ir_ext J' J2" "ir_ok J2"
    and op: "is_key_op op" "op \<noteq> IR_KINT" "op \<noteq> IR_KNULL"
  shows "lj_ir_k64 op k J2 = (r, J2)"
proof -
  have "chain_lookup J2 op (\<lambda>r. const_key (irs J2) op r = k) 0 = Some r"
    using interned_stays [OF k64_interned [OF assms(1-3) op] op(1) assms(4,5)] .
  then show ?thesis using op by (simp add: lj_ir_k64_def k64_key)
qed

section \<open>The fixed references\<close>

lemma setup_ok: "ir_ok (lj_record_setup p e J)" "nins (lj_record_setup p e J) = REF_FIRST"
  "nk (lj_record_setup p e J) = REF_TRUE"
proof -
  define J1 where "J1 = lj_record_setup p e J"
  define A where "A = lj_ir_set IR_BASE IRT_PGC p e (J\<lparr>nins := REF_BASE, nk := REF_BASE, chain := (\<lambda>_. 0)\<rparr>)"
  have A: "nins A = REF_BASE" "chain A = (\<lambda>_. 0)" "ir_o (fins A) = IR_BASE"
    by (simp_all add: A_def lj_ir_set_def)
  obtain r J0 where n: "lj_ir_nextins A = (r, J0)" by force
  have J1: "J1 = (let (_, J) = lj_ir_emit A;
          pri = (\<lambda>i ir. ir(REF_NIL - i := (ir (REF_NIL - i))\<lparr>ir_i := 0, ir_op1 := 0, ir_op2 := 0,
                    ir_t := IRT_NIL + of_nat i, ir_o := IR_KPRI, ir_prev := 0\<rparr>))
      in J\<lparr>irs := pri 2 (pri 1 (pri 0 (irs J))), nk := REF_TRUE\<rparr>)"
    by (simp only: J1_def lj_record_setup_def A_def Let_def)
  have f: "nins J1 = REF_FIRST" "nk J1 = REF_TRUE" "chain J1 = (\<lambda>_. 0)(IR_BASE := REF_BASE)"
    "ir_o (irs J1 REF_BASE) = IR_BASE" "ir_prev (irs J1 REF_BASE) = 0"
    using nextins_simps [OF n] A unfolding J1
    by (simp_all add: lj_ir_emit_def n Let_def ir_refs)
  have g: "chain_good J1 op (if op = IR_BASE then [REF_BASE] else [])" for op
    using f by (simp add: chain_good_def in_order_def is_const_op_def ir_ops ir_refs)
  have l: "chain_list J1 op = (if op = IR_BASE then [REF_BASE] else [])" for op
    by (rule chain_listI [OF g])
  have "ir_wf J1" unfolding ir_wf_def using f g by (auto simp: ir_refs)
  then show "ir_ok (lj_record_setup p e J)"
    unfolding J1_def [symmetric] ir_ok_def l by simp
  show "nins (lj_record_setup p e J) = REF_FIRST" "nk (lj_record_setup p e J) = REF_TRUE"
    using f by (simp_all add: J1_def)
qed

text \<open>
  C25. The same constant gets the same reference for the whole trace: interning a 32 bit integer or
  a 64 bit constant gives a reference to exactly that constant and leaves everything else in place,
  and interning it again in any later state of the trace finds this reference and changes nothing.
\<close>

theorem intern_once:
  assumes "ir_ok J" "op \<in> {IR_KNUM, IR_KINT64}"
    and "lj_ir_kint k J = (r, J1)" "lj_ir_k64 op u J1 = (r64, J2)" "nk J2 \<noteq> 0"
    and "ir_ok J3" "ir_ext J2 J3"
  shows "ir_ok J2 \<and> ir_ext J J2 \<and> nins J2 = nins J \<and>
    ir_o (irs J3 r) = IR_KINT \<and> ir_i (irs J3 r) = k \<and>
    ir_o (irs J3 r64) = op \<and> ir_k64 (irs J3) r64 = u \<and>
    lj_ir_kint k J3 = (r, J3) \<and> lj_ir_k64 op u J3 = (r64, J3)"
proof -
  have op: "is_key_op op" "op \<noteq> IR_KINT" "op \<noteq> IR_KNULL" using assms(2) by (auto simp: is_key_op_def ir_ops)
  have nz: "nk J1 \<noteq> 0"
    using assms(4,5) by (cases "chain_lookup J1 op (\<lambda>r. ir_k64 (irs J1) r = u) 0")
      (auto simp: lj_ir_k64_def dest: nextk64_simps split: prod.splits)
  note i = kint_interned [OF assms(1,3) nz]
  have ok1: "ir_ok J1" using i by (simp add: interned_def)
  note i' = k64_interned [OF ok1 assms(4,5) op]
  have e: "ir_ext J J1" "ir_ext J1 J2" using i i' by (simp_all add: interned_def)
  have e3: "ir_ext J1 J3" using e assms(7) ir_ext_trans by blast
  have wf3: "ir_wf J3" using assms by (simp add: ir_ok_def)
  have k1: "is_key_op IR_KINT" by (simp add: is_key_op_def)
  have a: "r \<in> set (chain_list J3 IR_KINT)" "const_key (irs J3) IR_KINT r = ucast k"
    using chain_lookup_Some [OF wf3 interned_stays [OF i k1 e3 assms(6)]] by simp_all
  have b: "r64 \<in> set (chain_list J3 op)" "const_key (irs J3) op r64 = u"
    using chain_lookup_Some [OF wf3 interned_stays [OF i' op(1) assms(7,6)]] by simp_all
  have "ir_ok J2 \<and> nins J2 = nins J" using i i' by (simp add: interned_def)
  moreover have "ir_ext J J2" using e ir_ext_trans by blast
  moreover have "ir_i (irs J3 r) = k" using a by (simp add: const_key_def ucast_eq32)
  moreover have "ir_k64 (irs J3) r64 = u" using b op by (simp add: const_key_def)
  ultimately show ?thesis
    using a b wf3 chain_listD(1) kint_again [OF assms(1,3) nz e3 assms(6)]
      k64_again [OF ok1 assms(4,5,7,6) op] by simp
qed


section \<open>Rollback\<close>

definition emit_all :: "irins list \<Rightarrow> jit \<Rightarrow> jit" where
  "emit_all fs J = foldl (\<lambda>J f. snd (lj_ir_emit (J\<lparr>fins := f\<rparr>))) J fs"

lemma emit_step:
  assumes "lj_ir_emit J = (r, J')"
  shows "r = nins J \<and> nins J' = nins J + 1 \<and> nk J' = nk J \<and>
    chain J' = (chain J)(ir_o (fins J) := nins J) \<and> (\<forall>x. x \<noteq> nins J \<longrightarrow> irs J' x = irs J x) \<and>
    ir_o (irs J' (nins J)) = ir_o (fins J) \<and> ir_prev (irs J' (nins J)) = chain J (ir_o (fins J))"
proof -
  obtain r1 J1 where n: "lj_ir_nextins J = (r1, J1)" by force
  show ?thesis using assms nextins_simps [OF n] by (auto simp: lj_ir_emit_def n Let_def)
qed

lemma emit_all_below:
  "nins (emit_all fs J) = nins J + length fs \<and> nk (emit_all fs J) = nk J \<and>
   (\<forall>x < nins J. irs (emit_all fs J) x = irs J x)"
proof (induction fs rule: rev_induct)
  case Nil
  show ?case by (simp add: emit_all_def)
next
  case (snoc f fs)
  define K where "K = (emit_all fs J)\<lparr>fins := f\<rparr>"
  obtain r K' where e: "lj_ir_emit K = (r, K')" by force
  have "emit_all (fs @ [f]) J = K'" using e by (simp add: emit_all_def K_def)
  then show ?case using emit_step [OF e] snoc by (simp add: K_def)
qed

lemma rollback_emits:
  "chain K = chain (emit_all fs J) \<Longrightarrow>
   (\<And>x. x < nins J + length fs \<Longrightarrow> irs K x = irs (emit_all fs J) x) \<Longrightarrow>
   rollback_loop (nins J) (length fs) K = K\<lparr>chain := chain J, nins := nins J\<rparr>"
proof (induction fs arbitrary: K rule: rev_induct)
  case Nil
  then show ?case by (cases K) (simp add: emit_all_def)
next
  case (snoc f fs)
  define E where "E = (emit_all fs J)\<lparr>fins := f\<rparr>"
  obtain r E' where e: "lj_ir_emit E = (r, E')" by force
  have E': "emit_all (fs @ [f]) J = E'" using e by (simp add: emit_all_def E_def)
  have n: "nins E = nins J + length fs" using emit_all_below [of fs J] by (simp add: E_def)
  note st = emit_step [OF e, unfolded n]
  define i where "i = irs K (nins J + length fs)"
  have i: "i = irs E' (nins J + length fs)" using snoc.prems(2) E' by (simp add: i_def)
  have "rollback_loop (nins J) (length fs) (K\<lparr>chain := (chain K)(ir_o i := ir_prev i)\<rparr>)
    = K\<lparr>chain := chain J, nins := nins J\<rparr>"
  proof -
    have "(chain K)(ir_o i := ir_prev i) = chain (emit_all fs J)"
      using st snoc.prems(1) E' unfolding i by (auto simp: E_def fun_eq_iff)
    moreover have "irs K x = irs (emit_all fs J) x" if "x < nins J + length fs" for x
      using that st snoc.prems(2) [of x] E' by (simp add: E_def)
    ultimately show ?thesis
      using snoc.IH [of "K\<lparr>chain := (chain K)(ir_o i := ir_prev i)\<rparr>"] by simp
  qed
  then show ?case by (simp add: i_def Let_def)
qed

text \<open>
  C26. A rollback undoes emitted instructions: whatever instructions were emitted since, rolling
  back to the old end of the IR restores the end, all chains and every instruction before it.
\<close>

theorem rollback_undoes:
  "let J' = lj_ir_rollback (nins J) (emit_all fs J)
   in nins J' = nins J \<and> nk J' = nk J \<and> chain J' = chain J \<and> (\<forall>r < nins J. irs J' r = irs J r)"
proof (cases "fs = []")
  case True
  then show ?thesis by (simp add: emit_all_def lj_ir_rollback_def)
next
  case False
  have b: "nins (emit_all fs J) = nins J + length fs" "nk (emit_all fs J) = nk J"
    "\<forall>x < nins J. irs (emit_all fs J) x = irs J x"
    using emit_all_below [of fs J] by simp_all
  have "lj_ir_rollback (nins J) (emit_all fs J) = (emit_all fs J)\<lparr>chain := chain J, nins := nins J\<rparr>"
    using rollback_emits [of "emit_all fs J" fs J] b False by (simp add: lj_ir_rollback_def)
  then show ?thesis using b by simp
qed

section \<open>The buffer\<close>

definition irbuf_ok :: "jit \<Rightarrow> bool" where
  "irbuf_ok J \<longleftrightarrow> irbotlim J \<le> nk J \<and> nk J \<le> nins J \<and> nins J \<le> irtoplim J \<and>
     irbotlim J + 8 \<le> irtoplim J"

lemma growbot_room:
  assumes "irbuf_ok J" "(irtoplim J - irbotlim J) div 4 + 128 \<le> irbotlim J"
  shows "irbotlim (lj_ir_growbot J) + 2 \<le> irbotlim J" "nins J \<le> irtoplim (lj_ir_growbot J)"
    "irbotlim (lj_ir_growbot J) + 8 \<le> irtoplim (lj_ir_growbot J)"
    "nins (lj_ir_growbot J) = nins J" "nk (lj_ir_growbot J) = nk J"
proof -
  obtain s where s: "irtoplim J = irbotlim J + s" "8 \<le> s"
    using assms(1) by (auto simp: irbuf_ok_def dest: le_Suc_ex)
  have q: "2 \<le> s div 4" "s div 4 + 128 \<le> irbotlim J" "4 \<le> s div 2" "2 * (s div 4) \<le> s"
    "s div 2 + s div 2 \<le> s" "s < s div 4 + s div 4 + s div 4 + s div 4 + 4"
    using s assms(2) by auto
  note d = lj_ir_growbot_def Let_def s(1) irbuf_ok_def
  show "irbotlim (lj_ir_growbot J) + 2 \<le> irbotlim J"
    using q s(2) assms(1) by (auto simp: d)
  show "nins J \<le> irtoplim (lj_ir_growbot J)"
    using q s(2) assms(1) by (auto simp: d)
  have "irbotlim J + 8 - m \<le> irbotlim J + s - m" "irbotlim J + 8 - m \<le> irbotlim J + 2 * s - m" for m
    using s(2) by (simp_all add: diff_le_mono)
  then show "irbotlim (lj_ir_growbot J) + 8 \<le> irtoplim (lj_ir_growbot J)"
    using q s(2) assms(1) by (auto simp: d)
  show "nins (lj_ir_growbot J) = nins J" "nk (lj_ir_growbot J) = nk J"
    by (simp_all add: d)
qed

text \<open>
  C27. The IR buffer covers every reference handed out, however it grows: a new instruction, a
  constant and both slots of a 64 bit constant lie between its limits, which still enclose all that
  was there, provided the reference space below the buffer is not used up.
\<close>

theorem ir_buffer_covers:
  assumes "irbuf_ok J" "(irtoplim J - irbotlim J) div 4 + 128 \<le> irbotlim J"
  shows "(case lj_ir_nextins J of (r, J') \<Rightarrow> irbuf_ok J' \<and> irbotlim J' \<le> r \<and> r < irtoplim J') \<and>
    (case ir_nextk J of (r, J') \<Rightarrow> irbuf_ok J' \<and> irbotlim J' \<le> r \<and> r < irtoplim J') \<and>
    (case ir_nextk64 J of (r, J') \<Rightarrow> irbuf_ok J' \<and> irbotlim J' \<le> r \<and> r + 1 < irtoplim J')"
proof (intro conjI)
  note g = growbot_room [OF assms]
  have i: "irbotlim J \<le> nk J" "nk J \<le> nins J" "nins J \<le> irtoplim J" "irbotlim J + 8 \<le> irtoplim J"
    using assms(1) by (simp_all add: irbuf_ok_def)
  show "case lj_ir_nextins J of (r, J') \<Rightarrow> irbuf_ok J' \<and> irbotlim J' \<le> r \<and> r < irtoplim J'"
    using i by (auto simp: irbuf_ok_def lj_ir_nextins_def lj_ir_growtop_def Let_def)
  show "case ir_nextk J of (r, J') \<Rightarrow> irbuf_ok J' \<and> irbotlim J' \<le> r \<and> r < irtoplim J'"
    using i g by (auto simp: irbuf_ok_def ir_nextk_def Let_def)
  show "case ir_nextk64 J of (r, J') \<Rightarrow> irbuf_ok J' \<and> irbotlim J' \<le> r \<and> r + 1 < irtoplim J'"
    using i g by (auto simp: irbuf_ok_def ir_nextk64_def Let_def)
qed


definition ex_irins :: irins where
  "ex_irins = \<lparr>ir_op1 = 0, ir_op2 = 0, ir_o = IR_NOP, ir_t = 0, ir_prev = 0, ir_i = 0, ir_tv = 0\<rparr>"

definition ex_jit :: jit where
  "ex_jit = \<lparr>irs = (\<lambda>_. ex_irins), nk = 0x7ffd, nins = 0x8001, chain = (\<lambda>_. 0), fins = ex_irins,
     fleft = (ex_irins, ex_irins), fright = (ex_irins, ex_irins), guardemit = 0, irbotlim = 0x7ff8, irtoplim = 0x8018, jit_flags = 0x03ff0000\<rparr>"

theorem ir_buffer_covers_witness:
  "case ir_nextk64 ex_jit of (r, J') \<Rightarrow> irbuf_ok J' \<and> irbotlim J' \<le> r \<and> r + 1 < irtoplim J'"
  using ir_buffer_covers [of ex_jit] by (simp add: irbuf_ok_def ex_jit_def)

theorem intern_once_witness:
  "lj_ir_kint 7 (snd (lj_ir_k64 IR_KNUM 9 (snd (lj_ir_kint 7 (lj_record_setup 0 0 ex_jit)))))
   = (fst (lj_ir_kint 7 (lj_record_setup 0 0 ex_jit)),
      snd (lj_ir_k64 IR_KNUM 9 (snd (lj_ir_kint 7 (lj_record_setup 0 0 ex_jit)))))"
proof -
  define J where "J = lj_record_setup 0 0 ex_jit"
  obtain r J1 where k: "lj_ir_kint 7 J = (r, J1)" by force
  obtain r' J2 where k': "lj_ir_k64 IR_KNUM 9 J1 = (r', J2)" by force
  have ok: "ir_ok J" "nk J = REF_TRUE" by (simp_all add: J_def setup_ok)
  have "REF_TRUE \<le> nk J1 + 1"
    using k ok(2) by (auto simp: lj_ir_kint_def dest: nextk_simps split: option.splits prod.splits)
  then have n: "nk J2 \<noteq> 0"
    using k' by (auto simp: lj_ir_k64_def ir_refs dest: nextk64_simps split: option.splits prod.splits)
  have n1: "nk J1 \<noteq> 0" using \<open>REF_TRUE \<le> nk J1 + 1\<close> by (simp add: ir_refs)
  have i: "interned IR_KINT (ucast (7::u32)) J r J1" by (rule kint_interned [OF ok(1) k n1])
  have "interned IR_KNUM 9 J1 r' J2"
    using i by (intro k64_interned [OF _ k' n]) (simp_all add: interned_def is_key_op_def ir_ops)
  then have ok2: "ir_ok J2" by (simp add: interned_def)
  have "lj_ir_kint 7 J2 = (r, J2)"
    using intern_once [OF ok(1) _ k k' n ok2 ir_ext_refl] by simp
  then show ?thesis by (simp add: J_def [symmetric] k k')
qed


theorem rollback_undoes_witness:
  "chain (lj_ir_rollback (nins ex_jit) (emit_all [ex_irins, ex_irins] ex_jit)) IR_NOP = 0"
  using rollback_undoes [of ex_jit "[ex_irins, ex_irins]"] by (simp add: Let_def ex_jit_def)

end
