(* ===== verification/LjFold.thy ===== *)
theory LjFold
  imports LjIr LjCarith
begin

text \<open>
  The folding engine of the trace compiler (\<^verbatim>\<open>lj_opt_fold.c\<close>) on integer instructions: constant
  folding, algebraic simplification, reassociation, bounds check elimination, commutativity, the
  dispatch by the most specific rule with retry, and common subexpression elimination. A fold
  function takes the state with the candidate instruction in \<open>fins\<close> and copies of its operands in
  \<open>fleft\<close> and \<open>fright\<close>. The rules for floating point numbers, strings, loads, stores and
  conversions are not modelled: no instruction of the integer types matches one of them.
\<close>

section \<open>Results of a fold function\<close>

datatype foldres = NEXTFOLD | RETRYFOLD | KINTFOLD | FAILFOLD | DROPFOLD | FoldRef nat

definition CONDFOLD :: "bool \<Rightarrow> foldres" where
  "CONDFOLD c = (if c then DROPFOLD else FAILFOLD)"

definition INTFOLD :: "u32 \<Rightarrow> jit \<Rightarrow> jit \<times> foldres" where
  "INTFOLD k J = (J\<lparr>fins := (fins J)\<lparr>ir_i := k\<rparr>\<rparr>, KINTFOLD)"

definition INT64FOLD :: "u64 \<Rightarrow> jit \<Rightarrow> jit \<times> foldres" where
  "INT64FOLD k J = (let (r, J) = lj_ir_kint64 k J in (J, FoldRef r))"

definition LEFTFOLD :: "jit \<Rightarrow> jit \<times> foldres" where
  "LEFTFOLD J = (J, FoldRef (ir_op1 (fins J)))"

definition RIGHTFOLD :: "jit \<Rightarrow> jit \<times> foldres" where
  "RIGHTFOLD J = (J, FoldRef (ir_op2 (fins J)))"

text \<open>Assignments to \<open>fins->op1\<close>, \<open>fins->op2\<close> and \<open>fins->o\<close>, and the operand copies.\<close>

definition set_op1 :: "nat \<Rightarrow> jit \<Rightarrow> jit" where
  "set_op1 r J = J\<lparr>fins := (fins J)\<lparr>ir_op1 := r\<rparr>\<rparr>"

definition set_op2 :: "nat \<Rightarrow> jit \<Rightarrow> jit" where
  "set_op2 r J = J\<lparr>fins := (fins J)\<lparr>ir_op2 := r\<rparr>\<rparr>"

definition set_o :: "irop \<Rightarrow> jit \<Rightarrow> jit" where
  "set_o p J = J\<lparr>fins := (fins J)\<lparr>ir_o := p\<rparr>\<rparr>"

definition set_ot :: "irop \<Rightarrow> u8 \<Rightarrow> jit \<Rightarrow> jit" where
  "set_ot p t J = J\<lparr>fins := (fins J)\<lparr>ir_o := p, ir_t := t\<rparr>\<rparr>"

abbreviation fo :: "jit \<Rightarrow> irop" where "fo J \<equiv> ir_o (fins J)"
abbreviation fop1 :: "jit \<Rightarrow> nat" where "fop1 J \<equiv> ir_op1 (fins J)"
abbreviation fop2 :: "jit \<Rightarrow> nat" where "fop2 J \<equiv> ir_op2 (fins J)"
abbreviation ft :: "jit \<Rightarrow> u8" where "ft J \<equiv> ir_t (fins J)"
abbreviation fl :: "jit \<Rightarrow> irins" where "fl J \<equiv> fst (fleft J)"
abbreviation fr :: "jit \<Rightarrow> irins" where "fr J \<equiv> fst (fright J)"
abbreviation fl64 :: "jit \<Rightarrow> u64" where "fl64 J \<equiv> ir_tv (snd (fleft J))"
abbreviation fr64 :: "jit \<Rightarrow> u64" where "fr64 J \<equiv> ir_tv (snd (fright J))"

definition PHIBARRIER :: "irins \<Rightarrow> (jit \<Rightarrow> jit \<times> foldres) \<Rightarrow> jit \<Rightarrow> jit \<times> foldres" where
  "PHIBARRIER i f J = (if irt_isphi (ir_t i) then (J, NEXTFOLD) else f J)"

text \<open>\<open>fins->op2 = lj_ir_kint(J, k)\<close> and \<open>fins->op1 = ...\<close>, as most rules need it.\<close>

definition op2_kint :: "u32 \<Rightarrow> jit \<Rightarrow> jit" where
  "op2_kint k J = (let (r, J) = lj_ir_kint k J in set_op2 r J)"

definition op1_kint :: "u32 \<Rightarrow> jit \<Rightarrow> jit" where
  "op1_kint k J = (let (r, J) = lj_ir_kint k J in set_op1 r J)"

definition op2_kint64 :: "u64 \<Rightarrow> jit \<Rightarrow> jit" where
  "op2_kint64 k J = (let (r, J) = lj_ir_kint64 k J in set_op2 r J)"

section \<open>Constant folding\<close>

definition kfold_intop :: "u32 \<Rightarrow> u32 \<Rightarrow> irop \<Rightarrow> u32" where
  "kfold_intop k1 k2 op =
     (let sh = unat (k2 AND 31)
      in if op = IR_ADD then k1 + k2
         else if op = IR_SUB then k1 - k2
         else if op = IR_MUL then k1 * k2
         else if op = IR_MOD then lj_vm_modi k1 k2
         else if op = IR_NEG then - k1
         else if op = IR_BAND then k1 AND k2
         else if op = IR_BOR then k1 OR k2
         else if op = IR_BXOR then k1 XOR k2
         else if op = IR_BSHL then push_bit sh k1
         else if op = IR_BSHR then drop_bit sh k1
         else if op = IR_BSAR then signed_drop_bit sh k1
         else if op = IR_BROL then lj_rol k1 sh
         else if op = IR_BROR then lj_ror k1 sh
         else if op = IR_MIN then if k1 <s k2 then k1 else k2
         else if op = IR_MAX then if k2 <s k1 then k1 else k2
         else k1)"

definition kfold_intarith :: "jit \<Rightarrow> jit \<times> foldres" where
  "kfold_intarith J = INTFOLD (kfold_intop (ir_i (fl J)) (ir_i (fr J)) (fo J)) J"

text \<open>
  \<open>lj_vm_foldarith\<close> works on doubles. A sum or difference of 32 bit integers is exact, and a product
  that is not exact is far outside the 32 bit range on both sides of the rounding, so that the test
  \<open>n == (lua_Number)k\<close> says whether the exact result is in the range.
\<close>

definition kfold_intovarith :: "jit \<Rightarrow> jit \<times> foldres" where
  "kfold_intovarith J =
     (let a = sint (ir_i (fl J)); b = sint (ir_i (fr J));
          n = (if fo J = IR_ADDOV then a + b else if fo J = IR_SUBOV then a - b else a * b)
      in if n < - (2 ^ 31) \<or> 2 ^ 31 \<le> n then (J, FAILFOLD) else INTFOLD (word_of_int n) J)"

definition kfold_bnot :: "jit \<Rightarrow> jit \<times> foldres" where
  "kfold_bnot J = INTFOLD (NOT (ir_i (fl J))) J"

definition kfold_bswap :: "jit \<Rightarrow> jit \<times> foldres" where
  "kfold_bswap J = INTFOLD (lj_bswap (ir_i (fl J))) J"

definition kfold_intcomp :: "jit \<Rightarrow> jit \<times> foldres" where
  "kfold_intcomp J =
     (let a = ir_i (fl J); b = ir_i (fr J); op = fo J
      in (J, if op = IR_LT then CONDFOLD (a <s b)
             else if op = IR_GE then CONDFOLD (b \<le>s a)
             else if op = IR_LE then CONDFOLD (a \<le>s b)
             else if op = IR_GT then CONDFOLD (b <s a)
             else if op = IR_ULT then CONDFOLD (a < b)
             else if op = IR_UGE then CONDFOLD (a \<ge> b)
             else if op = IR_ULE then CONDFOLD (a \<le> b)
             else if op = IR_ABC \<or> op = IR_UGT then CONDFOLD (a > b)
             else FAILFOLD))"

definition kfold_intcomp0 :: "jit \<Rightarrow> jit \<times> foldres" where
  "kfold_intcomp0 J = (J, if ir_i (fr J) = 0 then DROPFOLD else NEXTFOLD)"

text \<open>
  The shift counts of the static helper are masked with 63, but it shifts and rotates only the low
  32 bits to the right; a count of 32 or more is undefined for them in C and gives no bits here.
\<close>

definition kfold_int64op :: "u64 \<Rightarrow> u64 \<Rightarrow> irop \<Rightarrow> u64" where
  "kfold_int64op k1 k2 op =
     (let sh = unat (k2 AND 63)
      in if op = IR_ADD then k1 + k2
         else if op = IR_SUB then k1 - k2
         else if op = IR_MUL then k1 * k2
         else if op = IR_BAND then k1 AND k2
         else if op = IR_BOR then k1 OR k2
         else if op = IR_BXOR then k1 XOR k2
         else if op = IR_BSHL then push_bit sh k1
         else if op = IR_BSHR then scast (drop_bit sh (ucast k1 :: u32))
         else if op = IR_BSAR then drop_bit sh k1
         else if op = IR_BROL then scast (lj_rol (ucast k1) sh)
         else if op = IR_BROR then scast (lj_ror (ucast k1) sh)
         else k1)"

definition kfold_int64arith :: "jit \<Rightarrow> jit \<times> foldres" where
  "kfold_int64arith J = INT64FOLD (kfold_int64op (fl64 J) (fr64 J) (fo J)) J"

definition kfold_int64arith2 :: "jit \<Rightarrow> jit \<times> foldres" where
  "kfold_int64arith2 J =
     (let k1 = fl64 J; k2 = fr64 J
      in INT64FOLD
           (if irt_isi64 (ft J) then
              if fo J = IR_DIV then lj_carith_divi64 k1 k2
              else if fo J = IR_MOD then lj_carith_modi64 k1 k2
              else lj_carith_powi64 k1 k2
            else
              if fo J = IR_DIV then lj_carith_divu64 k1 k2
              else if fo J = IR_MOD then lj_carith_modu64 k1 k2
              else lj_carith_powu64 k1 k2) J)"

definition kfold_int64shift :: "jit \<Rightarrow> jit \<times> foldres" where
  "kfold_int64shift J =
     (let k = fl64 J; sh = ir_i (fr J) AND 63
      in INT64FOLD (lj_carith_shift64 k sh (fo J - IR_BSHL)) J)"

definition kfold_bnot64 :: "jit \<Rightarrow> jit \<times> foldres" where
  "kfold_bnot64 J = INT64FOLD (NOT (fl64 J)) J"

definition kfold_bswap64 :: "jit \<Rightarrow> jit \<times> foldres" where
  "kfold_bswap64 J = INT64FOLD (lj_bswap64 (fl64 J)) J"

definition kfold_int64comp :: "jit \<Rightarrow> jit \<times> foldres" where
  "kfold_int64comp J =
     (let a = fl64 J; b = fr64 J; op = fo J
      in (J, if op = IR_LT then CONDFOLD (a <s b)
             else if op = IR_GE then CONDFOLD (b \<le>s a)
             else if op = IR_LE then CONDFOLD (a \<le>s b)
             else if op = IR_GT then CONDFOLD (b <s a)
             else if op = IR_ULT then CONDFOLD (a < b)
             else if op = IR_UGE then CONDFOLD (a \<ge> b)
             else if op = IR_ULE then CONDFOLD (a \<le> b)
             else if op = IR_UGT then CONDFOLD (a > b)
             else FAILFOLD))"

definition kfold_int64comp0 :: "jit \<Rightarrow> jit \<times> foldres" where
  "kfold_int64comp0 J = (J, if fr64 J = 0 then DROPFOLD else NEXTFOLD)"

definition kfold_kref :: "jit \<Rightarrow> jit \<times> foldres" where
  "kfold_kref J = (J, CONDFOLD ((fop1 J = fop2 J) \<noteq> (fo J = IR_NE)))"

section \<open>Negation\<close>

definition shortcut_leftleft :: "jit \<Rightarrow> jit \<times> foldres" where
  "shortcut_leftleft J = PHIBARRIER (fl J) (\<lambda>J. (J, FoldRef (ir_op1 (fl J)))) J"

definition simplify_numadd_negx :: "jit \<Rightarrow> jit \<times> foldres" where
  "simplify_numadd_negx J =
     PHIBARRIER (fl J)
       (\<lambda>J. (set_op2 (ir_op1 (fl J)) (set_op1 (fop2 J) (set_o IR_SUB J)), RETRYFOLD)) J"

definition simplify_numadd_xneg :: "jit \<Rightarrow> jit \<times> foldres" where
  "simplify_numadd_xneg J =
     PHIBARRIER (fr J) (\<lambda>J. (set_op2 (ir_op1 (fr J)) (set_o IR_SUB J), RETRYFOLD)) J"

definition simplify_numsub_xneg :: "jit \<Rightarrow> jit \<times> foldres" where
  "simplify_numsub_xneg J =
     PHIBARRIER (fr J) (\<lambda>J. (set_op2 (ir_op1 (fr J)) (set_o IR_ADD J), RETRYFOLD)) J"

definition simplify_nummuldiv_negneg :: "jit \<Rightarrow> jit \<times> foldres" where
  "simplify_nummuldiv_negneg J =
     PHIBARRIER (fl J)
       (PHIBARRIER (fr J)
         (\<lambda>J. (set_op2 (ir_op1 (fr J)) (set_op1 (ir_op1 (fl J)) J), RETRYFOLD))) J"

section \<open>Integer algebraic simplifications\<close>

definition simplify_intadd_k :: "jit \<Rightarrow> jit \<times> foldres" where
  "simplify_intadd_k J = (if ir_i (fr J) = 0 then LEFTFOLD J else (J, NEXTFOLD))"

definition simplify_intmulov_k :: "jit \<Rightarrow> jit \<times> foldres" where
  "simplify_intmulov_k J =
     (if ir_i (fr J) = 0 then RIGHTFOLD J
      else if ir_i (fr J) = 1 then LEFTFOLD J
      else if ir_i (fr J) = 2 then (set_op2 (fop1 J) (set_o IR_ADDOV J), RETRYFOLD)
      else (J, NEXTFOLD))"

definition simplify_intsub_k :: "jit \<Rightarrow> jit \<times> foldres" where
  "simplify_intsub_k J =
     (if ir_i (fr J) = 0 then LEFTFOLD J
      else (op2_kint (- ir_i (fr J)) (set_o IR_ADD J), RETRYFOLD))"

definition simplify_intsub_kleft :: "jit \<Rightarrow> jit \<times> foldres" where
  "simplify_intsub_kleft J =
     (if if ir_o (fl J) = IR_KINT then ir_i (fl J) = 0 else fl64 J = 0
      then (set_op1 (fop2 J) (set_o IR_NEG J), RETRYFOLD)
      else (J, NEXTFOLD))"

definition simplify_intadd_k64 :: "jit \<Rightarrow> jit \<times> foldres" where
  "simplify_intadd_k64 J = (if fr64 J = 0 then LEFTFOLD J else (J, NEXTFOLD))"

definition simplify_intsub_k64 :: "jit \<Rightarrow> jit \<times> foldres" where
  "simplify_intsub_k64 J =
     (if fr64 J = 0 then LEFTFOLD J
      else (op2_kint64 (- fr64 J) (set_o IR_ADD J), RETRYFOLD))"

definition simplify_intmul_k :: "u32 \<Rightarrow> jit \<Rightarrow> jit \<times> foldres" where
  "simplify_intmul_k k J =
     (if k = 0 then RIGHTFOLD J
      else if k = 1 then LEFTFOLD J
      else if k AND (k - 1) = 0 then
        (op2_kint (of_nat (lj_fls k)) (set_o IR_BSHL J), RETRYFOLD)
      else (J, NEXTFOLD))"

definition simplify_intmul_k32 :: "jit \<Rightarrow> jit \<times> foldres" where
  "simplify_intmul_k32 J =
     (if 0 \<le>s ir_i (fr J) then simplify_intmul_k (ir_i (fr J)) J else (J, NEXTFOLD))"

definition simplify_intmul_k64 :: "jit \<Rightarrow> jit \<times> foldres" where
  "simplify_intmul_k64 J =
     (if fr64 J < 0x80000000 then simplify_intmul_k (ucast (fr64 J)) J else (J, NEXTFOLD))"

definition simplify_intmod_k :: "jit \<Rightarrow> jit \<times> foldres" where
  "simplify_intmod_k J =
     (let k = ir_i (fr J)
      in if 0 <s k \<and> k AND (k - 1) = 0 then (op2_kint (k - 1) (set_o IR_BAND J), RETRYFOLD)
         else (J, NEXTFOLD))"

definition simplify_intmod_kleft :: "jit \<Rightarrow> jit \<times> foldres" where
  "simplify_intmod_kleft J = (if ir_i (fl J) = 0 then INTFOLD 0 J else (J, NEXTFOLD))"

definition simplify_intsub :: "jit \<Rightarrow> jit \<times> foldres" where
  "simplify_intsub J =
     (if fop1 J = fop2 J \<and> \<not> irt_isnum (ft J) then
        if irt_is64 (ft J) then INT64FOLD 0 J else INTFOLD 0 J
      else (J, NEXTFOLD))"

definition simplify_intsubadd_leftcancel :: "jit \<Rightarrow> jit \<times> foldres" where
  "simplify_intsubadd_leftcancel J =
     (if \<not> irt_isnum (ft J) then
        PHIBARRIER (fl J)
          (\<lambda>J. if fop2 J = ir_op1 (fl J) then (J, FoldRef (ir_op2 (fl J)))
               else if fop2 J = ir_op2 (fl J) then (J, FoldRef (ir_op1 (fl J)))
               else (J, NEXTFOLD)) J
      else (J, NEXTFOLD))"

definition simplify_intsubsub_leftcancel :: "jit \<Rightarrow> jit \<times> foldres" where
  "simplify_intsubsub_leftcancel J =
     (if \<not> irt_isnum (ft J) then
        PHIBARRIER (fl J)
          (\<lambda>J. if fop2 J = ir_op1 (fl J) then (set_op2 (ir_op2 (fl J)) (op1_kint 0 J), RETRYFOLD)
               else (J, NEXTFOLD)) J
      else (J, NEXTFOLD))"

definition simplify_intsubsub_rightcancel :: "jit \<Rightarrow> jit \<times> foldres" where
  "simplify_intsubsub_rightcancel J =
     (if \<not> irt_isnum (ft J) then
        PHIBARRIER (fr J)
          (\<lambda>J. if fop1 J = ir_op1 (fr J) then (J, FoldRef (ir_op2 (fr J))) else (J, NEXTFOLD)) J
      else (J, NEXTFOLD))"

definition simplify_intsubadd_rightcancel :: "jit \<Rightarrow> jit \<times> foldres" where
  "simplify_intsubadd_rightcancel J =
     (if \<not> irt_isnum (ft J) then
        PHIBARRIER (fr J)
          (\<lambda>J. if fop1 J = ir_op1 (fr J) then (op1_kint 0 (set_op2 (ir_op2 (fr J)) J), RETRYFOLD)
               else if fop1 J = ir_op2 (fr J) then
                 (op1_kint 0 (set_op2 (ir_op1 (fr J)) J), RETRYFOLD)
               else (J, NEXTFOLD)) J
      else (J, NEXTFOLD))"

definition simplify_intsubaddadd_cancel :: "jit \<Rightarrow> jit \<times> foldres" where
  "simplify_intsubaddadd_cancel J =
     (if \<not> irt_isnum (ft J) then
        PHIBARRIER (fl J) (PHIBARRIER (fr J)
          (\<lambda>J. let l = fl J; r = fr J
               in if ir_op1 l = ir_op1 r then (set_op2 (ir_op2 r) (set_op1 (ir_op2 l) J), RETRYFOLD)
                  else if ir_op1 l = ir_op2 r then
                    (set_op2 (ir_op1 r) (set_op1 (ir_op2 l) J), RETRYFOLD)
                  else if ir_op2 l = ir_op1 r then
                    (set_op2 (ir_op2 r) (set_op1 (ir_op1 l) J), RETRYFOLD)
                  else if ir_op2 l = ir_op2 r then
                    (set_op2 (ir_op1 r) (set_op1 (ir_op1 l) J), RETRYFOLD)
                  else (J, NEXTFOLD))) J
      else (J, NEXTFOLD))"

text \<open>\<open>int64_t k = ir->o == IR_KINT ? (int64_t)ir->i : (int64_t)ir_k64(ir)->u64\<close>\<close>

definition const_i64 :: "irins \<times> irins \<Rightarrow> u64" where
  "const_i64 i = (if ir_o (fst i) = IR_KINT then scast (ir_i (fst i)) else ir_tv (snd i))"

definition simplify_band_k :: "jit \<Rightarrow> jit \<times> foldres" where
  "simplify_band_k J =
     (let k = const_i64 (fright J)
      in if k = 0 then RIGHTFOLD J else if k = - 1 then LEFTFOLD J else (J, NEXTFOLD))"

definition simplify_bor_k :: "jit \<Rightarrow> jit \<times> foldres" where
  "simplify_bor_k J =
     (let k = const_i64 (fright J)
      in if k = 0 then LEFTFOLD J else if k = - 1 then RIGHTFOLD J else (J, NEXTFOLD))"

definition simplify_bxor_k :: "jit \<Rightarrow> jit \<times> foldres" where
  "simplify_bxor_k J =
     (let k = const_i64 (fright J)
      in if k = 0 then LEFTFOLD J
         else if k = - 1 then (set_op2 0 (set_o IR_BNOT J), RETRYFOLD)
         else (J, NEXTFOLD))"

definition shift_mask :: "jit \<Rightarrow> u32" where
  "shift_mask J = (if irt_is64 (ft J) then 63 else 31)"

definition simplify_shift_ik :: "jit \<Rightarrow> jit \<times> foldres" where
  "simplify_shift_ik J =
     (let mask = shift_mask J; k = ir_i (fr J) AND mask
      in if k = 0 then LEFTFOLD J
         else if k = 1 \<and> fo J = IR_BSHL then (set_op2 (fop1 J) (set_o IR_ADD J), RETRYFOLD)
         else if k \<noteq> ir_i (fr J) then (op2_kint k J, RETRYFOLD)
         else if fo J = IR_BROR then (op2_kint (- k AND mask) (set_o IR_BROL J), RETRYFOLD)
         else (J, NEXTFOLD))"

text \<open>\<open>LJ_TARGET_MASKSHIFT\<close> and \<open>LJ_TARGET_MASKROT\<close> are both 1 on x64.\<close>

definition simplify_shift_andk :: "jit \<Rightarrow> jit \<times> foldres" where
  "simplify_shift_andk J =
     PHIBARRIER (fr J)
       (\<lambda>J. let irk = irs J (ir_op2 (fr J)); mask = shift_mask J
            in if ir_o irk = IR_KINT \<and> ir_i irk AND mask = mask
               then (set_op2 (ir_op1 (fr J)) J, RETRYFOLD)
               else (J, NEXTFOLD)) J"

definition simplify_shift1_ki :: "jit \<Rightarrow> jit \<times> foldres" where
  "simplify_shift1_ki J = (if const_i64 (fleft J) = 0 then LEFTFOLD J else (J, NEXTFOLD))"

definition simplify_shift2_ki :: "jit \<Rightarrow> jit \<times> foldres" where
  "simplify_shift2_ki J =
     (let k = const_i64 (fleft J) in if k = 0 \<or> k = - 1 then LEFTFOLD J else (J, NEXTFOLD))"

definition simplify_andk_shiftk :: "jit \<Rightarrow> jit \<times> foldres" where
  "simplify_andk_shiftk J =
     (let irk = irs J (ir_op2 (fl J))
      in if ir_o irk = IR_KINT \<and> kfold_intop (- 1) (ir_i irk) (ir_o (fl J)) = ir_i (fr J)
         then LEFTFOLD J else (J, NEXTFOLD))"

definition simplify_andor_k :: "jit \<Rightarrow> jit \<times> foldres" where
  "simplify_andor_k J =
     PHIBARRIER (fl J)
       (\<lambda>J. let irk = irs J (ir_op2 (fl J))
            in if ir_o irk = IR_KINT \<and>
                  kfold_intop (ir_i irk) (ir_i (fr J)) (fo J) = (if fo J = IR_BAND then 0 else - 1)
               then (set_op1 (ir_op1 (fl J)) J, RETRYFOLD)
               else (J, NEXTFOLD)) J"

definition simplify_andor_k64 :: "jit \<Rightarrow> jit \<times> foldres" where
  "simplify_andor_k64 J =
     PHIBARRIER (fl J)
       (\<lambda>J. let irk = irs J (ir_op2 (fl J))
            in if ir_o irk = IR_KINT64 \<and>
                  kfold_int64op (ir_k64 (irs J) (ir_op2 (fl J))) (fr64 J) (fo J) =
                    (if fo J = IR_BAND then 0 else - 1)
               then (set_op1 (ir_op1 (fl J)) J, RETRYFOLD)
               else (J, NEXTFOLD)) J"

section \<open>Reassociation\<close>

definition reassoc_intarith_k :: "jit \<Rightarrow> jit \<times> foldres" where
  "reassoc_intarith_k J =
     (let irk = irs J (ir_op2 (fl J))
      in if ir_o irk = IR_KINT then
           let k = kfold_intop (ir_i irk) (ir_i (fr J)) (fo J)
           in if k = ir_i irk then LEFTFOLD J
              else PHIBARRIER (fl J)
                (\<lambda>J. (op2_kint k (set_op1 (ir_op1 (fl J)) J), RETRYFOLD)) J
         else (J, NEXTFOLD))"

definition reassoc_intarith_k64 :: "jit \<Rightarrow> jit \<times> foldres" where
  "reassoc_intarith_k64 J =
     (let irk = irs J (ir_op2 (fl J))
      in if ir_o irk = IR_KINT64 then
           let k = kfold_int64op (ir_k64 (irs J) (ir_op2 (fl J))) (fr64 J) (fo J)
           in PHIBARRIER (fl J)
                (\<lambda>J. (op2_kint64 k (set_op1 (ir_op1 (fl J)) J), RETRYFOLD)) J
         else (J, NEXTFOLD))"

definition reassoc_dup :: "jit \<Rightarrow> jit \<times> foldres" where
  "reassoc_dup J =
     (if fop2 J = ir_op1 (fl J) \<or> fop2 J = ir_op2 (fl J) then LEFTFOLD J else (J, NEXTFOLD))"

definition reassoc_dup_minmax :: "jit \<Rightarrow> jit \<times> foldres" where
  "reassoc_dup_minmax J = (if fop2 J = ir_op2 (fl J) then LEFTFOLD J else (J, NEXTFOLD))"

definition reassoc_bxor :: "jit \<Rightarrow> jit \<times> foldres" where
  "reassoc_bxor J =
     PHIBARRIER (fl J)
       (\<lambda>J. if fop2 J = ir_op1 (fl J) then (J, FoldRef (ir_op2 (fl J)))
            else if fop2 J = ir_op2 (fl J) then (J, FoldRef (ir_op1 (fl J)))
            else (J, NEXTFOLD)) J"

definition reassoc_shift :: "jit \<Rightarrow> jit \<times> foldres" where
  "reassoc_shift J =
     PHIBARRIER (fl J)
       (\<lambda>J. let irk = irs J (ir_op2 (fl J)); mask = shift_mask J;
                k = (ir_i irk AND mask) + (ir_i (fr J) AND mask)
            in if ir_o irk = IR_KINT then
                 if mask <s k \<and> (fo J = IR_BSHL \<or> fo J = IR_BSHR) then
                   if mask = 31 then INTFOLD 0 J else INT64FOLD 0 J
                 else
                   let k = (if mask <s k then if fo J = IR_BSAR then mask else k AND mask else k)
                   in (op2_kint k (set_op1 (ir_op1 (fl J)) J), RETRYFOLD)
               else (J, NEXTFOLD)) J"

definition reassoc_minmax_k :: "jit \<Rightarrow> jit \<times> foldres" where
  "reassoc_minmax_k J =
     (let irk = irs J (ir_op2 (fl J))
      in if ir_o irk = IR_KINT then
           let a = ir_i irk; y = kfold_intop a (ir_i (fr J)) (fo J)
           in if a = y then LEFTFOLD J
              else PHIBARRIER (fl J)
                (\<lambda>J. (op2_kint y (set_op1 (ir_op1 (fl J)) J), RETRYFOLD)) J
         else (J, NEXTFOLD))"

section \<open>Array bounds checks\<close>

definition abc_fwd :: "jit \<Rightarrow> jit \<times> foldres" where
  "abc_fwd J =
     (if jit_flags J AND JIT_F_OPT_ABC \<noteq> 0 \<and> irref_isk (ir_op2 (fr J)) then
        let add2 = irs J (ir_op1 (fr J))
        in if ir_o add2 = IR_ADD \<and> irref_isk (ir_op2 add2) \<and>
              ir_i (irs J (ir_op2 (fr J))) = - ir_i (irs J (ir_op2 add2)) then
             (case chain_lookup J IR_ABC
                (\<lambda>r. ir_op1 (irs J r) = fop1 J \<and> ir_op2 (irs J r) = ir_op1 add2)
                (max (ir_op1 add2) (fop1 J)) of
                Some r \<Rightarrow> (J, DROPFOLD)
              | None \<Rightarrow> (J, NEXTFOLD))
           else (J, NEXTFOLD)
      else (J, NEXTFOLD))"

definition abc_k :: "jit \<Rightarrow> jit \<times> foldres" where
  "abc_k J =
     (if jit_flags J AND JIT_F_OPT_ABC \<noteq> 0 then
        (case chain_lookup J IR_ABC
           (\<lambda>r. ir_op1 (irs J r) = fop1 J \<and> irref_isk (ir_op2 (irs J r))) (fop1 J) of
           Some r \<Rightarrow>
             let k = ir_i (irs J (ir_op2 (irs J r)))
             in (if k <s ir_i (fr J)
                 then J\<lparr>irs := (irs J)(r := (irs J r)\<lparr>ir_op2 := fop2 J\<rparr>)\<rparr> else J, DROPFOLD)
         | None \<Rightarrow> let (r, J) = lj_ir_emit J in (J, FoldRef r))
      else (J, NEXTFOLD))"

definition abc_invar :: "jit \<Rightarrow> jit \<times> foldres" where
  "abc_invar J =
     (J, if \<not> irt_isint (ft J) \<and> fop1 J < chain J IR_LOOP \<and> \<not> irt_isphi (ir_t (irs J (fop1 J)))
         then DROPFOLD else NEXTFOLD)"

section \<open>Commutativity\<close>

definition swap_ops :: "jit \<Rightarrow> jit" where
  "swap_ops J = set_op2 (fop1 J) (set_op1 (fop2 J) J)"

definition comm_swap :: "jit \<Rightarrow> jit \<times> foldres" where
  "comm_swap J = (if fop1 J < fop2 J then (swap_ops J, RETRYFOLD) else (J, NEXTFOLD))"

definition comm_equal :: "jit \<Rightarrow> jit \<times> foldres" where
  "comm_equal J =
     (if fop1 J = fop2 J \<and> \<not> irt_isnum (ft J) then (J, CONDFOLD (fo J = IR_EQ)) else comm_swap J)"

definition comm_comp :: "jit \<Rightarrow> jit \<times> foldres" where
  "comm_comp J =
     (if fop1 J = fop2 J \<and> \<not> irt_isnum (ft J) then
        (J, CONDFOLD ((fo J XOR drop_bit 1 (fo J)) AND 1 \<noteq> 0))
      else if fop1 J < fop2 J then (set_o (fo J XOR 3) (swap_ops J), RETRYFOLD)
      else (J, NEXTFOLD))"

definition comm_dup :: "jit \<Rightarrow> jit \<times> foldres" where
  "comm_dup J = (if fop1 J = fop2 J then LEFTFOLD J else comm_swap J)"

definition comm_dup_minmax :: "jit \<Rightarrow> jit \<times> foldres" where
  "comm_dup_minmax J = (if fop1 J = fop2 J then LEFTFOLD J else (J, NEXTFOLD))"

definition comm_bxor :: "jit \<Rightarrow> jit \<times> foldres" where
  "comm_bxor J =
     (if fop1 J = fop2 J then if irt_is64 (ft J) then INT64FOLD 0 J else INTFOLD 0 J
      else comm_swap J)"


section \<open>Common subexpression elimination\<close>

definition lj_opt_cse :: "jit \<Rightarrow> jit \<times> nat" where
  "lj_opt_cse J =
     (let op = fo J;
          found = (if jit_flags J AND JIT_F_OPT_CSE \<noteq> 0 then
                     chain_lookup J op
                       (\<lambda>r. ir_op1 (irs J r) = fop1 J \<and> ir_op2 (irs J r) = fop2 J)
                       (max (fop1 J) (fop2 J))
                   else None)
      in case found of
           Some ref \<Rightarrow> (J, ref)
         | None \<Rightarrow> let (ref, J) = lj_ir_emit J in (J, ref))"

section \<open>The rules\<close>

text \<open>One constructor for every fold function, and below its \<open>LJFOLD\<close> annotations.\<close>

datatype foldrule = K_intarith | K_intovarith | K_bnot | K_bswap | K_intcomp | K_intcomp0
  | K_int64arith | K_int64arith2 | K_int64shift | K_bnot64 | K_bswap64 | K_int64comp | K_int64comp0
  | K_kref | S_leftleft | S_add_negx | S_add_xneg | S_sub_xneg | S_mul_negneg
  | S_intadd_k | S_intmulov_k | S_intsub_k | S_intsub_kleft | S_intadd_k64 | S_intsub_k64
  | S_intmul_k32 | S_intmul_k64 | S_intmod_k | S_intmod_kleft | S_intsub | S_subadd_left
  | S_subsub_left | S_subsub_right | S_subadd_right | S_subaddadd | S_band_k | S_bor_k | S_bxor_k
  | S_shift_ik | S_shift_andk | S_shift1_ki | S_shift2_ki | S_shiftk_andk | S_andk_shiftk
  | S_andor_k | S_andor_k64 | R_intarith_k | R_intarith_k64 | R_dup | R_dup_minmax | R_bxor
  | R_shift | R_minmax_k | A_fwd | A_k | A_invar | C_swap | C_equal | C_comp | C_dup | C_dup_minmax
  | C_bxor

definition F_any :: nat where "F_any = 0x7f"
definition F_anyr :: nat where "F_anyr = 0x3ff"

definition ops2 :: "irop list \<Rightarrow> nat \<Rightarrow> nat \<Rightarrow> (irop \<times> nat \<times> nat) list" where
  "ops2 ops l r = map (\<lambda>p. (p, l, r)) ops"

fun fold_pats :: "foldrule \<Rightarrow> (irop \<times> nat \<times> nat) list" where
  "fold_pats K_intarith = ops2 [IR_ADD, IR_SUB, IR_MUL, IR_MOD, IR_NEG, IR_BAND, IR_BOR, IR_BXOR,
     IR_BSHL, IR_BSHR, IR_BSAR, IR_BROL, IR_BROR, IR_MIN, IR_MAX] IR_KINT IR_KINT"
| "fold_pats K_intovarith = ops2 [IR_ADDOV, IR_SUBOV, IR_MULOV] IR_KINT IR_KINT"
| "fold_pats K_bnot = [(IR_BNOT, IR_KINT, 0)]"
| "fold_pats K_bswap = [(IR_BSWAP, IR_KINT, 0)]"
| "fold_pats K_intcomp = ops2 [IR_LT, IR_GE, IR_LE, IR_GT, IR_ULT, IR_UGE, IR_ULE, IR_UGT, IR_ABC]
     IR_KINT IR_KINT"
| "fold_pats K_intcomp0 = [(IR_UGE, F_any, IR_KINT)]"
| "fold_pats K_int64arith = ops2 [IR_ADD, IR_SUB, IR_MUL, IR_BAND, IR_BOR, IR_BXOR]
     IR_KINT64 IR_KINT64"
| "fold_pats K_int64arith2 = ops2 [IR_DIV, IR_MOD, IR_POW] IR_KINT64 IR_KINT64"
| "fold_pats K_int64shift = ops2 [IR_BSHL, IR_BSHR, IR_BSAR, IR_BROL, IR_BROR] IR_KINT64 IR_KINT"
| "fold_pats K_bnot64 = [(IR_BNOT, IR_KINT64, 0)]"
| "fold_pats K_bswap64 = [(IR_BSWAP, IR_KINT64, 0)]"
| "fold_pats K_int64comp = ops2 [IR_LT, IR_GE, IR_LE, IR_GT, IR_ULT, IR_UGE, IR_ULE, IR_UGT]
     IR_KINT64 IR_KINT64"
| "fold_pats K_int64comp0 = [(IR_UGE, F_any, IR_KINT64)]"
| "fold_pats K_kref = [(IR_EQ, F_any, IR_KNULL), (IR_NE, F_any, IR_KNULL),
     (IR_EQ, IR_KNULL, F_anyr), (IR_NE, IR_KNULL, F_anyr)]
     @ ops2 [IR_EQ, IR_NE] IR_KINT IR_KINT @ ops2 [IR_EQ, IR_NE] IR_KINT64 IR_KINT64
     @ ops2 [IR_EQ, IR_NE] IR_KGC IR_KGC"
| "fold_pats S_leftleft = [(IR_NEG, IR_NEG, F_anyr), (IR_BNOT, IR_BNOT, 0),
     (IR_BSWAP, IR_BSWAP, 0)]"
| "fold_pats S_add_negx = [(IR_ADD, IR_NEG, F_anyr)]"
| "fold_pats S_add_xneg = [(IR_ADD, F_any, IR_NEG)]"
| "fold_pats S_sub_xneg = [(IR_SUB, F_any, IR_NEG)]"
| "fold_pats S_mul_negneg = ops2 [IR_MUL, IR_DIV] IR_NEG IR_NEG"
| "fold_pats S_intadd_k = ops2 [IR_ADD, IR_ADDOV, IR_SUBOV] F_any IR_KINT"
| "fold_pats S_intmulov_k = [(IR_MULOV, F_any, IR_KINT)]"
| "fold_pats S_intsub_k = [(IR_SUB, F_any, IR_KINT)]"
| "fold_pats S_intsub_kleft = [(IR_SUB, IR_KINT, F_anyr), (IR_SUB, IR_KINT64, F_anyr)]"
| "fold_pats S_intadd_k64 = [(IR_ADD, F_any, IR_KINT64)]"
| "fold_pats S_intsub_k64 = [(IR_SUB, F_any, IR_KINT64)]"
| "fold_pats S_intmul_k32 = [(IR_MUL, F_any, IR_KINT)]"
| "fold_pats S_intmul_k64 = [(IR_MUL, F_any, IR_KINT64)]"
| "fold_pats S_intmod_k = [(IR_MOD, F_any, IR_KINT)]"
| "fold_pats S_intmod_kleft = [(IR_MOD, IR_KINT, F_anyr)]"
| "fold_pats S_intsub = ops2 [IR_SUB, IR_SUBOV] F_any F_anyr"
| "fold_pats S_subadd_left = [(IR_SUB, IR_ADD, F_anyr)]"
| "fold_pats S_subsub_left = [(IR_SUB, IR_SUB, F_anyr)]"
| "fold_pats S_subsub_right = [(IR_SUB, F_any, IR_SUB)]"
| "fold_pats S_subadd_right = [(IR_SUB, F_any, IR_ADD)]"
| "fold_pats S_subaddadd = [(IR_SUB, IR_ADD, IR_ADD)]"
| "fold_pats S_band_k = [(IR_BAND, F_any, IR_KINT), (IR_BAND, F_any, IR_KINT64)]"
| "fold_pats S_bor_k = [(IR_BOR, F_any, IR_KINT), (IR_BOR, F_any, IR_KINT64)]"
| "fold_pats S_bxor_k = [(IR_BXOR, F_any, IR_KINT), (IR_BXOR, F_any, IR_KINT64)]"
| "fold_pats S_shift_ik = ops2 [IR_BSHL, IR_BSHR, IR_BSAR, IR_BROL, IR_BROR] F_any IR_KINT"
| "fold_pats S_shift_andk = ops2 [IR_BSHL, IR_BSHR, IR_BSAR, IR_BROL, IR_BROR] F_any IR_BAND"
| "fold_pats S_shift1_ki = ops2 [IR_BSHL, IR_BSHR] IR_KINT F_anyr
     @ ops2 [IR_BSHL, IR_BSHR] IR_KINT64 F_anyr"
| "fold_pats S_shift2_ki = ops2 [IR_BSAR, IR_BROL, IR_BROR] IR_KINT F_anyr
     @ ops2 [IR_BSAR, IR_BROL, IR_BROR] IR_KINT64 F_anyr"
| "fold_pats S_shiftk_andk = ops2 [IR_BSHL, IR_BSHR, IR_BROL, IR_BROR] IR_BAND IR_KINT"
| "fold_pats S_andk_shiftk = [(IR_BAND, IR_BSHL, IR_KINT), (IR_BAND, IR_BSHR, IR_KINT)]"
| "fold_pats S_andor_k = [(IR_BAND, IR_BOR, IR_KINT), (IR_BOR, IR_BAND, IR_KINT)]"
| "fold_pats S_andor_k64 = [(IR_BAND, IR_BOR, IR_KINT64), (IR_BOR, IR_BAND, IR_KINT64)]"
| "fold_pats R_intarith_k =
     map (\<lambda>p. (p, p, IR_KINT)) [IR_ADD, IR_MUL, IR_BAND, IR_BOR, IR_BXOR]"
| "fold_pats R_intarith_k64 =
     map (\<lambda>p. (p, p, IR_KINT64)) [IR_ADD, IR_MUL, IR_BAND, IR_BOR, IR_BXOR]"
| "fold_pats R_dup = [(IR_BAND, IR_BAND, F_anyr), (IR_BOR, IR_BOR, F_anyr)]"
| "fold_pats R_dup_minmax = [(IR_MIN, IR_MIN, F_anyr), (IR_MAX, IR_MAX, F_anyr)]"
| "fold_pats R_bxor = [(IR_BXOR, IR_BXOR, F_anyr)]"
| "fold_pats R_shift =
     map (\<lambda>p. (p, p, IR_KINT)) [IR_BSHL, IR_BSHR, IR_BSAR, IR_BROL, IR_BROR]"
| "fold_pats R_minmax_k = [(IR_MIN, IR_MIN, IR_KINT), (IR_MAX, IR_MAX, IR_KINT)]"
| "fold_pats A_fwd = [(IR_ABC, F_any, IR_ADD)]"
| "fold_pats A_k = [(IR_ABC, F_any, IR_KINT)]"
| "fold_pats A_invar = [(IR_ABC, F_any, F_anyr)]"
| "fold_pats C_swap = ops2 [IR_ADD, IR_MUL, IR_ADDOV, IR_MULOV] F_any F_anyr"
| "fold_pats C_equal = ops2 [IR_EQ, IR_NE] F_any F_anyr"
| "fold_pats C_comp = ops2 [IR_LT, IR_GE, IR_LE, IR_GT, IR_ULT, IR_UGE, IR_ULE, IR_UGT]
     F_any F_anyr"
| "fold_pats C_dup = ops2 [IR_BAND, IR_BOR] F_any F_anyr"
| "fold_pats C_dup_minmax = ops2 [IR_MIN, IR_MAX] F_any F_anyr"
| "fold_pats C_bxor = [(IR_BXOR, F_any, F_anyr)]"

definition all_rules :: "foldrule list" where
  "all_rules = [K_intarith, K_intovarith, K_bnot, K_bswap, K_intcomp, K_intcomp0,
     K_int64arith, K_int64arith2, K_int64shift, K_bnot64, K_bswap64, K_int64comp, K_int64comp0,
     K_kref, S_leftleft, S_add_negx, S_add_xneg, S_sub_xneg, S_mul_negneg,
     S_intadd_k, S_intmulov_k, S_intsub_k, S_intsub_kleft, S_intadd_k64, S_intsub_k64,
     S_intmul_k32, S_intmul_k64, S_intmod_k, S_intmod_kleft, S_intsub, S_subadd_left,
     S_subsub_left, S_subsub_right, S_subadd_right, S_subaddadd, S_band_k, S_bor_k, S_bxor_k,
     S_shift_ik, S_shift_andk, S_shift1_ki, S_shift2_ki, S_shiftk_andk, S_andk_shiftk,
     S_andor_k, S_andor_k64, R_intarith_k, R_intarith_k64, R_dup, R_dup_minmax, R_bxor,
     R_shift, R_minmax_k, A_fwd, A_k, A_invar, C_swap, C_equal, C_comp, C_dup, C_dup_minmax,
     C_bxor]"

text \<open>The generated hash table \<open>fold_hash\<close>: the function for a key, if there is one.\<close>

definition fold_hash :: "irop \<times> nat \<times> nat \<Rightarrow> foldrule option" where
  "fold_hash k = find (\<lambda>R. k \<in> set (fold_pats R)) all_rules"

section \<open>The engine\<close>

text \<open>Out of fuel, the trace error \<open>LJ_TRERR_GFAIL\<close> (a guard would always fail) with the state at that
  point, or a result.\<close>

datatype 'a tr = NoFuel | TraceErr jit | Done 'a

definition tr_bind :: "'a tr \<Rightarrow> ('a \<Rightarrow> 'b tr) \<Rightarrow> 'b tr" where
  "tr_bind x f = (case x of NoFuel \<Rightarrow> NoFuel | TraceErr J \<Rightarrow> TraceErr J | Done a \<Rightarrow> f a)"

text \<open>The one rule that folds an intermediate instruction; \<open>eng\<close> is the engine itself.\<close>

definition simplify_shiftk_andk ::
  "(jit \<Rightarrow> (jit \<times> nat) tr) \<Rightarrow> jit \<Rightarrow> (jit \<times> foldres) tr" where
  "simplify_shiftk_andk eng J =
     (if irt_isphi (ir_t (fl J)) then Done (J, NEXTFOLD)
      else
        let irk = irs J (ir_op2 (fl J))
        in if ir_o irk = IR_KINT then
             let k = kfold_intop (ir_i irk) (ir_i (fr J)) (fo J)
             in tr_bind (eng (set_op1 (ir_op1 (fl J)) J))
                  (\<lambda>(J, r). Done (set_ot IR_BAND IRT_INT (op2_kint k (set_op1 r J)), RETRYFOLD))
           else if ir_o irk = IR_KINT64 then
             let k = kfold_int64op (ir_k64 (irs J) (ir_op2 (fl J))) (scast (ir_i (fr J))) (fo J);
                 o1 = ir_o (fl J); t = ir_t (fl J)
             in tr_bind (eng (set_op1 (ir_op1 (fl J)) J))
                  (\<lambda>(J, r). Done (set_ot o1 t (op2_kint64 k (set_op1 r J)), RETRYFOLD))
           else Done (J, NEXTFOLD))"

fun fold_func :: "(jit \<Rightarrow> (jit \<times> nat) tr) \<Rightarrow> foldrule \<Rightarrow> jit \<Rightarrow> (jit \<times> foldres) tr" where
  "fold_func f K_intarith J = Done (kfold_intarith J)"
| "fold_func f K_intovarith J = Done (kfold_intovarith J)"
| "fold_func f K_bnot J = Done (kfold_bnot J)"
| "fold_func f K_bswap J = Done (kfold_bswap J)"
| "fold_func f K_intcomp J = Done (kfold_intcomp J)"
| "fold_func f K_intcomp0 J = Done (kfold_intcomp0 J)"
| "fold_func f K_int64arith J = Done (kfold_int64arith J)"
| "fold_func f K_int64arith2 J = Done (kfold_int64arith2 J)"
| "fold_func f K_int64shift J = Done (kfold_int64shift J)"
| "fold_func f K_bnot64 J = Done (kfold_bnot64 J)"
| "fold_func f K_bswap64 J = Done (kfold_bswap64 J)"
| "fold_func f K_int64comp J = Done (kfold_int64comp J)"
| "fold_func f K_int64comp0 J = Done (kfold_int64comp0 J)"
| "fold_func f K_kref J = Done (kfold_kref J)"
| "fold_func f S_leftleft J = Done (shortcut_leftleft J)"
| "fold_func f S_add_negx J = Done (simplify_numadd_negx J)"
| "fold_func f S_add_xneg J = Done (simplify_numadd_xneg J)"
| "fold_func f S_sub_xneg J = Done (simplify_numsub_xneg J)"
| "fold_func f S_mul_negneg J = Done (simplify_nummuldiv_negneg J)"
| "fold_func f S_intadd_k J = Done (simplify_intadd_k J)"
| "fold_func f S_intmulov_k J = Done (simplify_intmulov_k J)"
| "fold_func f S_intsub_k J = Done (simplify_intsub_k J)"
| "fold_func f S_intsub_kleft J = Done (simplify_intsub_kleft J)"
| "fold_func f S_intadd_k64 J = Done (simplify_intadd_k64 J)"
| "fold_func f S_intsub_k64 J = Done (simplify_intsub_k64 J)"
| "fold_func f S_intmul_k32 J = Done (simplify_intmul_k32 J)"
| "fold_func f S_intmul_k64 J = Done (simplify_intmul_k64 J)"
| "fold_func f S_intmod_k J = Done (simplify_intmod_k J)"
| "fold_func f S_intmod_kleft J = Done (simplify_intmod_kleft J)"
| "fold_func f S_intsub J = Done (simplify_intsub J)"
| "fold_func f S_subadd_left J = Done (simplify_intsubadd_leftcancel J)"
| "fold_func f S_subsub_left J = Done (simplify_intsubsub_leftcancel J)"
| "fold_func f S_subsub_right J = Done (simplify_intsubsub_rightcancel J)"
| "fold_func f S_subadd_right J = Done (simplify_intsubadd_rightcancel J)"
| "fold_func f S_subaddadd J = Done (simplify_intsubaddadd_cancel J)"
| "fold_func f S_band_k J = Done (simplify_band_k J)"
| "fold_func f S_bor_k J = Done (simplify_bor_k J)"
| "fold_func f S_bxor_k J = Done (simplify_bxor_k J)"
| "fold_func f S_shift_ik J = Done (simplify_shift_ik J)"
| "fold_func f S_shift_andk J = Done (simplify_shift_andk J)"
| "fold_func f S_shift1_ki J = Done (simplify_shift1_ki J)"
| "fold_func f S_shift2_ki J = Done (simplify_shift2_ki J)"
| "fold_func f S_shiftk_andk J = simplify_shiftk_andk f J"
| "fold_func f S_andk_shiftk J = Done (simplify_andk_shiftk J)"
| "fold_func f S_andor_k J = Done (simplify_andor_k J)"
| "fold_func f S_andor_k64 J = Done (simplify_andor_k64 J)"
| "fold_func f R_intarith_k J = Done (reassoc_intarith_k J)"
| "fold_func f R_intarith_k64 J = Done (reassoc_intarith_k64 J)"
| "fold_func f R_dup J = Done (reassoc_dup J)"
| "fold_func f R_dup_minmax J = Done (reassoc_dup_minmax J)"
| "fold_func f R_bxor J = Done (reassoc_bxor J)"
| "fold_func f R_shift J = Done (reassoc_shift J)"
| "fold_func f R_minmax_k J = Done (reassoc_minmax_k J)"
| "fold_func f A_fwd J = Done (abc_fwd J)"
| "fold_func f A_k J = Done (abc_k J)"
| "fold_func f A_invar J = Done (abc_invar J)"
| "fold_func f C_swap J = Done (comm_swap J)"
| "fold_func f C_equal J = Done (comm_equal J)"
| "fold_func f C_comp J = Done (comm_comp J)"
| "fold_func f C_dup J = Done (comm_dup J)"
| "fold_func f C_dup_minmax J = Done (comm_dup_minmax J)"
| "fold_func f C_bxor J = Done (comm_bxor J)"

text \<open>
  The start of a (re)try: the key from the opcode and the opcodes of the operands, and the copies of
  the operands, with the second slot of a constant below the fixed references.
\<close>

definition fold_load :: "jit \<Rightarrow> (nat \<times> nat) \<times> jit" where
  "fold_load J =
     (let copy = (\<lambda>r old. (irs J r, if r < REF_TRUE then irs J (r + 1) else snd old));
          l = (if fop1 J \<ge> nk J then ir_o (irs J (fop1 J)) else 0);
          r = (if fop2 J \<ge> nk J then ir_o (irs J (fop2 J)) else fop2 J AND 0x3ff);
          left = (if fop1 J \<ge> nk J then copy (fop1 J) (fleft J) else fleft J);
          right = (if fop2 J \<ge> nk J then copy (fop2 J) (fright J) else fright J)
      in ((l, r), J\<lparr>fleft := left, fright := right\<rparr>))"

text \<open>The keys from most specific to least specific: \<open>any\<close> is a field of ones.\<close>

definition fold_keys :: "irop \<Rightarrow> nat \<times> nat \<Rightarrow> (irop \<times> nat \<times> nat) list" where
  "fold_keys p lr =
     [(p, fst lr, snd lr), (p, F_any, snd lr), (p, fst lr, F_anyr), (p, F_any, F_anyr)]"

fun fold_match :: "(jit \<Rightarrow> (jit \<times> nat) tr) \<Rightarrow> (irop \<times> nat \<times> nat) list \<Rightarrow> jit
    \<Rightarrow> (jit \<times> foldres) tr" where
  "fold_match f [] J = (let (J, r) = lj_opt_cse J in Done (J, FoldRef r))"
| "fold_match f (k # ks) J =
     (case fold_hash k of
        None \<Rightarrow> fold_match f ks J
      | Some R \<Rightarrow> tr_bind (fold_func f R J)
          (\<lambda>(J, res). if res = NEXTFOLD then fold_match f ks J else Done (J, res)))"

definition fold_entry :: "(jit \<Rightarrow> (jit \<times> nat) tr) \<Rightarrow> jit \<Rightarrow> (jit \<times> nat) tr" where
  "fold_entry retry J =
     (if jit_flags J AND JIT_F_OPT_FOLD = 0 \<and> irm_kind (lj_ir_mode (fo J)) = IRM_N
      then Done (lj_opt_cse J) else retry J)"

fun fold_retry :: "nat \<Rightarrow> jit \<Rightarrow> (jit \<times> nat) tr" where
  "fold_retry 0 J = NoFuel"
| "fold_retry (Suc n) J =
     (let (lr, J) = fold_load J
      in tr_bind (fold_match (fold_entry (fold_retry n)) (fold_keys (fo J) lr) J)
           (\<lambda>(J, res). case res of
              FoldRef ref \<Rightarrow> Done (J, ref)
            | RETRYFOLD \<Rightarrow> fold_retry n J
            | KINTFOLD \<Rightarrow> (let (ref, J) = lj_ir_kint (ir_i (fins J)) J in Done (J, ref))
            | FAILFOLD \<Rightarrow> TraceErr J
            | DROPFOLD \<Rightarrow> Done (J, REF_DROP)
            | NEXTFOLD \<Rightarrow> Done (J, REF_DROP)))"

definition lj_opt_fold :: "nat \<Rightarrow> jit \<Rightarrow> (jit \<times> nat) tr" where
  "lj_opt_fold n J = fold_entry (fold_retry n) J"

text \<open>\<open>emitir(ot, a, b)\<close>\<close>

definition emitir :: "nat \<Rightarrow> irop \<Rightarrow> u8 \<Rightarrow> nat \<Rightarrow> nat \<Rightarrow> jit \<Rightarrow> (jit \<times> nat) tr" where
  "emitir n p t a b J = lj_opt_fold n (lj_ir_set p t a b J)"

lemmas fold_helper_defs = CONDFOLD_def INTFOLD_def INT64FOLD_def LEFTFOLD_def RIGHTFOLD_def
  set_op1_def set_op2_def set_o_def set_ot_def PHIBARRIER_def op1_kint_def op2_kint_def
  op2_kint64_def const_i64_def shift_mask_def swap_ops_def

end
