(* ===== verification/LjFoldSem.thy ===== *)
theory LjFoldSem
  imports LjFold LjIrInv
begin

text \<open>
  What an integer instruction means, independently of the folding engine: a value in two's
  complement at the width of its type, and for comparisons and overflow checks the condition that
  the guard asserts. The value of a reference is computed from the instructions; what a load or a
  call gives is a parameter. The typing invariant says which operands an instruction may have.
\<close>

section \<open>Integer instructions\<close>

definition IRT_I8 :: u8 where "IRT_I8 = 15"

definition int_t :: "u8 \<Rightarrow> bool" where
  "int_t t \<longleftrightarrow> irt_typerange t IRT_I8 IRT_U64"

definition shift_op :: "irop \<Rightarrow> bool" where
  "shift_op p \<longleftrightarrow> p \<in> {IR_BSHL, IR_BSHR, IR_BSAR, IR_BROL, IR_BROR}"

definition ov_op :: "irop \<Rightarrow> bool" where
  "ov_op p \<longleftrightarrow> p \<in> {IR_ADDOV, IR_SUBOV, IR_MULOV}"

definition unary_op :: "irop \<Rightarrow> bool" where
  "unary_op p \<longleftrightarrow> p \<in> {IR_BNOT, IR_BSWAP}"

definition val_op :: "irop \<Rightarrow> bool" where
  "val_op p \<longleftrightarrow> shift_op p \<or> ov_op p \<or> unary_op p \<or>
     p \<in> {IR_BAND, IR_BOR, IR_BXOR, IR_ADD, IR_SUB, IR_MUL, IR_MOD, IR_NEG, IR_MIN, IR_MAX}"

definition cmp_op :: "irop \<Rightarrow> bool" where
  "cmp_op p \<longleftrightarrow> p \<in> {IR_LT, IR_GE, IR_LE, IR_GT, IR_ULT, IR_UGE, IR_ULE, IR_UGT, IR_EQ, IR_NE}"

lemmas op_classes = shift_op_def ov_op_def unary_op_def val_op_def cmp_op_def is_const_op_def

section \<open>Values and guards\<close>

definition irsem :: "irop \<Rightarrow> 'a::len word \<Rightarrow> 'a word \<Rightarrow> 'a word" where
  "irsem p a b =
     (let sh = unat b mod LENGTH('a)
      in if p = IR_ADD \<or> p = IR_ADDOV then a + b
         else if p = IR_SUB \<or> p = IR_SUBOV then a - b
         else if p = IR_MUL \<or> p = IR_MULOV then a * b
         else if p = IR_MOD then word_of_int (sint a mod sint b)
         else if p = IR_NEG then - a
         else if p = IR_BAND then a AND b
         else if p = IR_BOR then a OR b
         else if p = IR_BXOR then a XOR b
         else if p = IR_BNOT then NOT a
         else if p = IR_BSHL then push_bit sh a
         else if p = IR_BSHR then drop_bit sh a
         else if p = IR_BSAR then signed_drop_bit sh a
         else if p = IR_BROL then word_rotl sh a
         else if p = IR_BROR then word_rotr sh a
         else if p = IR_MIN then if sint a \<le> sint b then a else b
         else if p = IR_MAX then if sint a \<le> sint b then b else a
         else 0)"

definition irsem32 :: "irop \<Rightarrow> u32 \<Rightarrow> u32 \<Rightarrow> u32" where
  "irsem32 p a b = (if p = IR_BSWAP then lj_bswap a else irsem p a b)"

definition irsem64 :: "irop \<Rightarrow> u64 \<Rightarrow> u64 \<Rightarrow> u64" where
  "irsem64 p a b = (if p = IR_BSWAP then lj_bswap64 a else irsem p a b)"

definition in_sint :: "'a::len itself \<Rightarrow> int \<Rightarrow> bool" where
  "in_sint _ k \<longleftrightarrow> - (2 ^ (LENGTH('a) - 1)) \<le> k \<and> k < 2 ^ (LENGTH('a) - 1)"

definition irguard :: "irop \<Rightarrow> 'a::len word \<Rightarrow> 'a word \<Rightarrow> bool" where
  "irguard p a b \<longleftrightarrow>
     (if p = IR_LT then sint a < sint b
      else if p = IR_GE then sint a \<ge> sint b
      else if p = IR_LE then sint a \<le> sint b
      else if p = IR_GT then sint a > sint b
      else if p = IR_ULT then a < b
      else if p = IR_UGE then a \<ge> b
      else if p = IR_ULE then a \<le> b
      else if p = IR_UGT then a > b
      else if p = IR_EQ then a = b
      else if p = IR_NE then a \<noteq> b
      else if p = IR_ADDOV then in_sint TYPE('a) (sint a + sint b)
      else if p = IR_SUBOV then in_sint TYPE('a) (sint a - sint b)
      else if p = IR_MULOV then in_sint TYPE('a) (sint a * sint b)
      else True)"

text \<open>A 32 bit operation on values kept in 64 bit: it reads the low halves and clears the high one.\<close>

definition apply_op :: "bool \<Rightarrow> irop \<Rightarrow> u64 \<Rightarrow> u64 \<Rightarrow> u64" where
  "apply_op w p a b = (if w then irsem64 p a b else ucast (irsem32 p (ucast a) (ucast b)))"

definition guard_op :: "bool \<Rightarrow> irop \<Rightarrow> u64 \<Rightarrow> u64 \<Rightarrow> bool" where
  "guard_op w p a b \<longleftrightarrow> (if w then irguard p a b else irguard p (ucast a :: u32) (ucast b))"

definition agree :: "bool \<Rightarrow> u64 \<Rightarrow> u64 \<Rightarrow> bool" where
  "agree w a b \<longleftrightarrow> (if w then a = b else (ucast a :: u32) = ucast b)"

function irval :: "(nat \<Rightarrow> irins) \<Rightarrow> (nat \<Rightarrow> u64) \<Rightarrow> nat \<Rightarrow> u64" where
  "irval ir \<rho> r =
     (let i = ir r
      in if ir_o i = IR_KINT then ucast (ir_i i)
         else if ir_o i = IR_KINT64 then ir_k64 ir r
         else if val_op (ir_o i) \<and> int_t (ir_t i) \<and> ir_op1 i < r \<and> ir_op2 i < r then
           apply_op (irt_is64 (ir_t i)) (ir_o i) (irval ir \<rho> (ir_op1 i)) (irval ir \<rho> (ir_op2 i))
         else \<rho> r)"
  by pat_completeness auto
termination
  by (relation "measure (\<lambda>(ir, \<rho>, r). r)") auto

declare irval.simps [simp del]

section \<open>Typed instructions\<close>

definition is_kint :: "jit \<Rightarrow> nat \<Rightarrow> bool" where
  "is_kint J r \<longleftrightarrow> r \<in> set (chain_list J IR_KINT)"

definition is_kint64 :: "jit \<Rightarrow> nat \<Rightarrow> bool" where
  "is_kint64 J r \<longleftrightarrow> r \<in> set (chain_list J IR_KINT64)"

definition is_ins :: "jit \<Rightarrow> nat \<Rightarrow> bool" where
  "is_ins J r \<longleftrightarrow> REF_BIAS \<le> r \<and> r < nins J"

definition int_ref :: "jit \<Rightarrow> nat \<Rightarrow> bool" where
  "int_ref J r \<longleftrightarrow> is_kint J r \<or> is_kint64 J r \<or> is_ins J r \<and> int_t (ir_t (irs J r))"

definition ref_w :: "jit \<Rightarrow> nat \<Rightarrow> bool" where
  "ref_w J r = (if is_kint J r then False else if is_kint64 J r then True else irt_is64 (ir_t (irs J r)))"

text \<open>
  The rules for differences create a 32 bit 0 also for a 64 bit difference, which can get into a sum
  and be the result. Such a 0 is allowed as an operand of the operations in \<open>zop\<close>, and for the
  candidate instruction also as the left operand of a shift; all of them fold it away or read it as 0.
\<close>

definition opnd :: "jit \<Rightarrow> bool \<Rightarrow> bool \<Rightarrow> nat \<Rightarrow> bool" where
  "opnd J z w r \<longleftrightarrow> int_ref J r \<and> (ref_w J r = w \<or> z \<and> w \<and> is_kint J r \<and> ir_i (irs J r) = 0)"

definition zop :: "irop \<Rightarrow> bool" where
  "zop p \<longleftrightarrow> p = IR_ADD \<or> p = IR_SUB \<or> p = IR_BAND \<or> p = IR_BOR"

definition ins_typed :: "jit \<Rightarrow> bool \<Rightarrow> irop \<Rightarrow> bool \<Rightarrow> nat \<Rightarrow> nat \<Rightarrow> bool" where
  "ins_typed J e p w a b \<longleftrightarrow> (val_op p \<or> cmp_op p) \<and>
     opnd J (zop p \<or> e \<and> shift_op p) w a \<and>
     (if unary_op p then b = 0
      else if shift_op p then int_ref J b \<and> \<not> is_kint64 J b
      else opnd J (e \<and> zop p) w b) \<and>
     (p = IR_MOD \<longrightarrow> \<not> w \<and> \<not> (is_kint J b \<and> ir_i (irs J b) = 0)) \<and>
     (ov_op p \<longrightarrow> \<not> w)"

definition fins_ok :: "jit \<Rightarrow> bool" where
  "fins_ok J \<longleftrightarrow> int_t (ft J) \<and> ins_typed J True (fo J) (irt_is64 (ft J)) (fop1 J) (fop2 J)"

definition int_ins :: "jit \<Rightarrow> irins \<Rightarrow> bool" where
  "int_ins J i \<longleftrightarrow> (val_op (ir_o i) \<or> cmp_op (ir_o i)) \<and> (int_t (ir_t i) \<or> int_ref J (ir_op1 i))"

definition ir_typed :: "jit \<Rightarrow> bool" where
  "ir_typed J \<longleftrightarrow> (\<forall>r. is_ins J r \<longrightarrow> \<not> is_const_op (ir_o (irs J r)) \<and>
     (val_op (ir_o (irs J r)) \<or> cmp_op (ir_o (irs J r)) \<longrightarrow> nk J \<le> ir_op1 (irs J r) \<and> ir_op1 (irs J r) < r) \<and>
     (int_ins J (irs J r) \<longrightarrow>
      int_t (ir_t (irs J r)) \<and> ir_op1 (irs J r) < r \<and> ir_op2 (irs J r) < r \<and>
      ins_typed J False (ir_o (irs J r)) (irt_is64 (ir_t (irs J r))) (ir_op1 (irs J r)) (ir_op2 (irs J r))))"

abbreviation fw :: "jit \<Rightarrow> bool" where "fw J \<equiv> irt_is64 (ft J)"

definition finval :: "(nat \<Rightarrow> u64) \<Rightarrow> jit \<Rightarrow> u64" where
  "finval \<rho> J = apply_op (fw J) (fo J) (irval (irs J) \<rho> (fop1 J)) (irval (irs J) \<rho> (fop2 J))"

definition finguard :: "(nat \<Rightarrow> u64) \<Rightarrow> jit \<Rightarrow> bool" where
  "finguard \<rho> J = guard_op (fw J) (fo J) (irval (irs J) \<rho> (fop1 J)) (irval (irs J) \<rho> (fop2 J))"


section \<open>Constant folding computes the value\<close>

lemma shift_count31: "unat ((x::u32) AND 31) = unat x mod 32"
proof -
  have "x AND 31 = take_bit 5 x" by (simp add: take_bit_eq_mask mask_eq_exp_minus_1)
  then show ?thesis by (simp only: unsigned_take_bit_eq) (simp add: take_bit_eq_mod)
qed

lemma rotl_index: "i < L \<Longrightarrow> 0 < n \<Longrightarrow> n < L \<Longrightarrow> (i + (L - n mod L)) mod L = (if i < n then L - n + i else i - n)"
  for i L n :: nat
  by (auto simp: mod_if)

lemma rotr_index: "i < L \<Longrightarrow> n < L \<Longrightarrow> (i + n) mod L = (if i + n < L then n + i else i + n - L)"
  for i L n :: nat
  by (simp add: mod_if)

lemma bit_rotl: "0 < n \<Longrightarrow> n < LENGTH('a) \<Longrightarrow> i < LENGTH('a) \<Longrightarrow>
  bit (word_rotl n x) i = bit x (if i < n then LENGTH('a) - n + i else i - n)" for x :: "'a::len word"
  by (simp only: bit_word_rotl_iff rotl_index) simp

lemma bit_rotr: "n < LENGTH('a) \<Longrightarrow> i < LENGTH('a) \<Longrightarrow>
  bit (word_rotr n x) i = bit x (if i + n < LENGTH('a) then n + i else i + n - LENGTH('a))" for x :: "'a::len word"
  by (simp only: bit_word_rotr_iff rotr_index) simp

lemma rot_0 [simp]: "word_rotl 0 x = x" "word_rotr 0 x = x" for x :: "'a::len word"
  by (rule bit_word_eqI; simp add: bit_word_rotl_iff bit_word_rotr_iff)+

lemma rol_rotl: "n < 32 \<Longrightarrow> lj_rol x n = word_rotl n x"
proof (cases "n = 0")
  case True
  then show ?thesis by (simp add: lj_rol_def)
next
  case False
  assume "n < 32"
  with False show ?thesis
    by (intro bit_word_eqI) (auto simp: lj_rol_def bit_or_iff bit_push_bit_iff bit_drop_bit_eq
      bit_rotl dest: bit_imp_le_length)
qed

lemma ror_rotr: "n < 32 \<Longrightarrow> lj_ror x n = word_rotr n x"
proof (cases "n = 0")
  case True
  then show ?thesis by (simp add: lj_ror_def)
next
  case False
  assume "n < 32"
  with False show ?thesis
    by (intro bit_word_eqI) (auto simp: lj_ror_def bit_or_iff bit_push_bit_iff bit_drop_bit_eq
      bit_rotr dest: bit_imp_le_length)
qed

lemma rol64_rotl: "n < 64 \<Longrightarrow> lj_rol64 x n = word_rotl n x"
proof (cases "n = 0")
  case True
  then show ?thesis by (simp add: lj_rol64_def)
next
  case False
  assume "n < 64"
  with False show ?thesis
    by (intro bit_word_eqI) (auto simp: lj_rol64_def bit_or_iff bit_push_bit_iff bit_drop_bit_eq
      bit_rotl dest: bit_imp_le_length)
qed

lemma ror64_rotr: "n < 64 \<Longrightarrow> lj_ror64 x n = word_rotr n x"
proof (cases "n = 0")
  case True
  then show ?thesis by (simp add: lj_ror64_def)
next
  case False
  assume "n < 64"
  with False show ?thesis
    by (intro bit_word_eqI) (auto simp: lj_ror64_def bit_or_iff bit_push_bit_iff bit_drop_bit_eq
      bit_rotr dest: bit_imp_le_length)
qed

text \<open>The meaning of every operation, without the case distinction on the opcode.\<close>

lemma irsem_simps [simp]:
  "irsem IR_ADD a b = a + b" "irsem IR_ADDOV a b = a + b"
  "irsem IR_SUB a b = a - b" "irsem IR_SUBOV a b = a - b"
  "irsem IR_MUL a b = a * b" "irsem IR_MULOV a b = a * b"
  "irsem IR_MOD a b = word_of_int (sint a mod sint b)" "irsem IR_NEG a b = - a"
  "irsem IR_BAND a b = a AND b" "irsem IR_BOR a b = a OR b" "irsem IR_BXOR a b = a XOR b"
  "irsem IR_BNOT a b = NOT a"
  "irsem IR_BSHL a b = push_bit (unat b mod LENGTH('a)) a"
  "irsem IR_BSHR a b = drop_bit (unat b mod LENGTH('a)) a"
  "irsem IR_BSAR a b = signed_drop_bit (unat b mod LENGTH('a)) a"
  "irsem IR_BROL a b = word_rotl (unat b mod LENGTH('a)) a"
  "irsem IR_BROR a b = word_rotr (unat b mod LENGTH('a)) a"
  "irsem IR_MIN a b = (if sint a \<le> sint b then a else b)"
  "irsem IR_MAX a b = (if sint a \<le> sint b then b else a)"
  for a b :: "'a::len word"
  by (simp_all add: irsem_def ir_ops)

lemma irsem32_simps [simp]: "irsem32 IR_BSWAP a b = lj_bswap a" "p \<noteq> IR_BSWAP \<Longrightarrow> irsem32 p a b = irsem p a b"
  and irsem64_simps [simp]: "irsem64 IR_BSWAP x y = lj_bswap64 x" "p \<noteq> IR_BSWAP \<Longrightarrow> irsem64 p x y = irsem p x y"
  by (simp_all add: irsem32_def irsem64_def)

lemma irguard_simps [simp]:
  "irguard IR_LT a b \<longleftrightarrow> sint a < sint b" "irguard IR_GE a b \<longleftrightarrow> sint b \<le> sint a"
  "irguard IR_LE a b \<longleftrightarrow> sint a \<le> sint b" "irguard IR_GT a b \<longleftrightarrow> sint b < sint a"
  "irguard IR_ULT a b \<longleftrightarrow> a < b" "irguard IR_UGE a b \<longleftrightarrow> b \<le> a"
  "irguard IR_ULE a b \<longleftrightarrow> a \<le> b" "irguard IR_UGT a b \<longleftrightarrow> b < a"
  "irguard IR_EQ a b \<longleftrightarrow> a = b" "irguard IR_NE a b \<longleftrightarrow> a \<noteq> b"
  "irguard IR_ADDOV a b \<longleftrightarrow> in_sint TYPE('a) (sint a + sint b)"
  "irguard IR_SUBOV a b \<longleftrightarrow> in_sint TYPE('a) (sint a - sint b)"
  "irguard IR_MULOV a b \<longleftrightarrow> in_sint TYPE('a) (sint a * sint b)"
  for a b :: "'a::len word"
  by (simp_all add: irguard_def ir_ops)

lemma irguard_val [simp]: "val_op p \<Longrightarrow> \<not> ov_op p \<Longrightarrow> irguard p a b"
  by (auto simp: irguard_def op_classes ir_ops)

lemma apply_op_simps: "apply_op True p a b = irsem64 p a b"
  "apply_op False p a b = ucast (irsem32 p (ucast a) (ucast b))"
  by (simp_all add: apply_op_def)

lemma guard_op_simps: "guard_op True p a b = irguard p a b"
  "guard_op False p a b = irguard p (ucast a :: u32) (ucast b)"
  by (simp_all add: guard_op_def)

lemma agree_simps: "agree True a b \<longleftrightarrow> a = b" "agree False a b \<longleftrightarrow> (ucast a :: u32) = ucast b"
  by (simp_all add: agree_def)

lemmas sem_simps = apply_op_simps guard_op_simps agree_simps

lemma agree_refl [simp]: "agree w a a"
  by (simp add: agree_def)

lemma agree_sym: "agree w a b \<Longrightarrow> agree w b a"
  by (simp add: agree_def split: if_splits)

lemma agree_trans: "agree w a b \<Longrightarrow> agree w b c \<Longrightarrow> agree w a c"
  by (simp add: agree_def split: if_splits)

lemma ucast_down_up [simp]: "(ucast (ucast (x::u32) :: u64) :: u32) = x"
  by (rule bit_word_eqI) (simp add: bit_simps)

lemma apply_agree: "agree w a a' \<Longrightarrow> agree w b b' \<Longrightarrow> apply_op w p a b = apply_op w p a' b'"
  by (cases w) (simp_all add: sem_simps)

lemma kfold_intop_sem:
  assumes "val_op op" "\<not> unary_op op" "\<not> ov_op op" "op = IR_MOD \<Longrightarrow> b \<noteq> 0"
  shows "kfold_intop a b op = irsem32 op a b"
proof -
  have sh: "unat (b AND 31) = unat b mod 32" "unat b mod 32 < 32" by (simp_all add: shift_count31)
  consider "op = IR_MOD" | "op = IR_BROL" | "op = IR_BROR" | "op = IR_MIN" | "op = IR_MAX"
    | "op \<in> {IR_ADD, IR_SUB, IR_MUL, IR_NEG, IR_BAND, IR_BOR, IR_BXOR, IR_BSHL, IR_BSHR, IR_BSAR}"
    using assms(1-3) by (auto simp: op_classes)
  then show ?thesis
  proof cases
    case 1
    then show ?thesis using assms(4) vm_modi_word(1) [of b a] by (simp add: kfold_intop_def irsem32_def irsem_def ir_ops)
  next
    case 2
    then show ?thesis using rol_rotl [OF sh(2)] by (simp add: kfold_intop_def sh(1) irsem32_def irsem_def ir_ops)
  next
    case 3
    then show ?thesis using ror_rotr [OF sh(2)] by (simp add: kfold_intop_def sh(1) irsem32_def irsem_def ir_ops)
  next
    case 4
    then show ?thesis by (auto simp: kfold_intop_def irsem32_def irsem_def ir_ops word_sless_alt sint_eqD)
  next
    case 5
    then show ?thesis by (auto simp: kfold_intop_def irsem32_def irsem_def ir_ops word_sless_alt sint_eqD)
  next
    case 6
    then show ?thesis by (auto simp: kfold_intop_def irsem32_def irsem_def ir_ops sh(1) Let_def)
  qed
qed

section \<open>References\<close>

text \<open>The candidate instruction and the copies of its operands are not part of the IR.\<close>

lemma chain_good_fins [simp]:
  "chain_good (J\<lparr>fins := f\<rparr>) = chain_good J" "chain_good (J\<lparr>fleft := l\<rparr>) = chain_good J"
  "chain_good (J\<lparr>fright := l\<rparr>) = chain_good J"
  by (simp_all add: chain_good_def fun_eq_iff)

lemma ir_fins [simp]:
  "chain_list (J\<lparr>fins := f\<rparr>) op = chain_list J op" "ir_ok (J\<lparr>fins := f\<rparr>) = ir_ok J"
  "ir_ext J (J'\<lparr>fins := f\<rparr>) = ir_ext J J'"
  "chain_list (J\<lparr>fleft := l\<rparr>) op = chain_list J op" "ir_ok (J\<lparr>fleft := l\<rparr>) = ir_ok J"
  "ir_ext J (J'\<lparr>fleft := l\<rparr>) = ir_ext J J'"
  "chain_list (J\<lparr>fright := l\<rparr>) op = chain_list J op" "ir_ok (J\<lparr>fright := l\<rparr>) = ir_ok J"
  "ir_ext J (J'\<lparr>fright := l\<rparr>) = ir_ext J J'"
  by (simp_all add: chain_list_def ir_ok_def ir_wf_def ir_ext_def)

lemma ref_fins [simp]:
  "is_kint (J\<lparr>fins := f\<rparr>) = is_kint J" "is_kint64 (J\<lparr>fins := f\<rparr>) = is_kint64 J"
  "is_ins (J\<lparr>fins := f\<rparr>) = is_ins J" "int_ref (J\<lparr>fins := f\<rparr>) = int_ref J"
  "opnd (J\<lparr>fins := f\<rparr>) = opnd J" "ins_typed (J\<lparr>fins := f\<rparr>) = ins_typed J"
  "is_kint (J\<lparr>fleft := l\<rparr>) = is_kint J" "is_kint64 (J\<lparr>fleft := l\<rparr>) = is_kint64 J"
  "is_ins (J\<lparr>fleft := l\<rparr>) = is_ins J" "int_ref (J\<lparr>fleft := l\<rparr>) = int_ref J"
  "opnd (J\<lparr>fleft := l\<rparr>) = opnd J" "ins_typed (J\<lparr>fleft := l\<rparr>) = ins_typed J"
  "is_kint (J\<lparr>fright := l\<rparr>) = is_kint J" "is_kint64 (J\<lparr>fright := l\<rparr>) = is_kint64 J"
  "is_ins (J\<lparr>fright := l\<rparr>) = is_ins J" "int_ref (J\<lparr>fright := l\<rparr>) = int_ref J"
  "opnd (J\<lparr>fright := l\<rparr>) = opnd J" "ins_typed (J\<lparr>fright := l\<rparr>) = ins_typed J"
  by (simp_all add: fun_eq_iff is_kint_def is_kint64_def is_ins_def int_ref_def opnd_def ref_w_def ins_typed_def)

lemma typed_fins [simp]: "ir_typed (J\<lparr>fins := f\<rparr>) = ir_typed J" "ir_typed (J\<lparr>fleft := l\<rparr>) = ir_typed J"
  "ir_typed (J\<lparr>fright := l\<rparr>) = ir_typed J"
  by (simp_all add: ir_typed_def int_ins_def)

lemma is_kintD:
  assumes "ir_ok J" "is_kint J r"
  shows "ir_o (irs J r) = IR_KINT" "nk J \<le> r" "r < nins J" "r < REF_TRUE" "\<not> is_kint64 J r" "\<not> is_ins J r"
  using chain_listD [of J r IR_KINT] chain_listD [of J r IR_KINT64] assms
  by (auto simp: is_kint_def is_kint64_def is_ins_def ir_ok_def is_const_op_def ir_ops ir_refs)

lemma is_kint64D:
  assumes "ir_ok J" "is_kint64 J r"
  shows "ir_o (irs J r) = IR_KINT64" "nk J \<le> r" "r < nins J" "r < REF_TRUE" "\<not> is_kint J r" "\<not> is_ins J r"
  using chain_listD [of J r IR_KINT] chain_listD [of J r IR_KINT64] assms
  by (auto simp: is_kint_def is_kint64_def is_ins_def ir_ok_def is_const_op_def ir_ops ir_refs)

lemma ir_okD: "ir_ok J \<Longrightarrow> 0 < nk J \<and> nk J \<le> REF_TRUE \<and> REF_FIRST \<le> nins J"
  by (simp add: ir_ok_def ir_wf_def)

lemma is_insD: "ir_ok J \<Longrightarrow> is_ins J r \<Longrightarrow> nk J \<le> r \<and> r < nins J \<and> REF_TRUE < r"
  using ir_okD [of J] by (auto simp: is_ins_def ir_refs)

lemma int_refD:
  assumes "ir_ok J" "int_ref J r"
  shows "nk J \<le> r" "r < nins J"
  using assms is_kintD [OF assms(1)] is_kint64D [OF assms(1)] is_insD [OF assms(1)]
  by (auto simp: int_ref_def)

lemma const_not_ins: "ir_typed J \<Longrightarrow> is_ins J r \<Longrightarrow> \<not> is_const_op (ir_o (irs J r))"
  by (simp add: ir_typed_def)

lemma int_ref_kint:
  assumes "ir_ok J" "ir_typed J" "int_ref J r"
  shows "ir_o (irs J r) = IR_KINT \<longleftrightarrow> is_kint J r" "ir_o (irs J r) = IR_KINT64 \<longleftrightarrow> is_kint64 J r"
proof -
  have "is_const_op IR_KINT" "is_const_op IR_KINT64" "IR_KINT \<noteq> IR_KINT64"
    by (simp_all add: is_const_op_def ir_ops)
  then show "ir_o (irs J r) = IR_KINT \<longleftrightarrow> is_kint J r" "ir_o (irs J r) = IR_KINT64 \<longleftrightarrow> is_kint64 J r"
    using assms is_kintD [OF assms(1), of r] is_kint64D [OF assms(1), of r] const_not_ins [OF assms(2), of r]
    by (auto simp: int_ref_def)
qed

lemma val_op_not_const: "val_op p \<or> cmp_op p \<Longrightarrow> \<not> is_const_op p"
  by (auto simp: op_classes ir_ops)

lemma irval_kint: "ir_ok J \<Longrightarrow> is_kint J r \<Longrightarrow> irval (irs J) \<rho> r = ucast (ir_i (irs J r))"
  by (subst irval.simps) (simp add: is_kintD(1) Let_def)

lemma irval_kint64: "ir_ok J \<Longrightarrow> is_kint64 J r \<Longrightarrow> irval (irs J) \<rho> r = ir_k64 (irs J) r"
  by (subst irval.simps) (simp add: is_kint64D(1) Let_def ir_ops)

text \<open>What is known of an instruction of an integer type with one of the operations.\<close>

lemma int_insD:
  assumes "ir_typed J" "is_ins J r" "int_t (ir_t (irs J r))" "val_op (ir_o (irs J r)) \<or> cmp_op (ir_o (irs J r))"
  shows "ir_op1 (irs J r) < r" "ir_op2 (irs J r) < r"
    "ins_typed J False (ir_o (irs J r)) (irt_is64 (ir_t (irs J r))) (ir_op1 (irs J r)) (ir_op2 (irs J r))"
  using assms by (auto simp: ir_typed_def int_ins_def)

lemma irval_ins:
  assumes "ir_typed J" "is_ins J r" "int_t (ir_t (irs J r))" "val_op (ir_o (irs J r))"
  shows "irval (irs J) \<rho> r = apply_op (irt_is64 (ir_t (irs J r))) (ir_o (irs J r))
    (irval (irs J) \<rho> (ir_op1 (irs J r))) (irval (irs J) \<rho> (ir_op2 (irs J r)))"
proof -
  have "ir_o (irs J r) \<noteq> IR_KINT \<and> ir_o (irs J r) \<noteq> IR_KINT64"
    using val_op_not_const [of "ir_o (irs J r)"] assms(4) by (auto simp: is_const_op_def ir_ops)
  then show ?thesis
    using assms int_insD [OF assms(1-3)] by (subst irval.simps) (simp add: Let_def)
qed

lemma irval_leaf:
  assumes "ir_typed J" "is_ins J r" "\<not> (int_t (ir_t (irs J r)) \<and> val_op (ir_o (irs J r)))"
  shows "irval (irs J) \<rho> r = \<rho> r"
proof -
  have "ir_o (irs J r) \<noteq> IR_KINT \<and> ir_o (irs J r) \<noteq> IR_KINT64"
    using const_not_ins [OF assms(1,2)] by (auto simp: is_const_op_def ir_ops)
  then show ?thesis using assms by (subst irval.simps) (auto simp: Let_def)
qed

text \<open>A comparison or an operation with an overflow check is a condition for the trace to go on.\<close>

definition trace_ok :: "(nat \<Rightarrow> u64) \<Rightarrow> jit \<Rightarrow> bool" where
  "trace_ok \<rho> J \<longleftrightarrow> (\<forall>r. is_ins J r \<longrightarrow> int_t (ir_t (irs J r)) \<longrightarrow>
     val_op (ir_o (irs J r)) \<or> cmp_op (ir_o (irs J r)) \<longrightarrow>
     guard_op (irt_is64 (ir_t (irs J r))) (ir_o (irs J r))
       (irval (irs J) \<rho> (ir_op1 (irs J r))) (irval (irs J) \<rho> (ir_op2 (irs J r))))"

text \<open>The second operand of a unary operation does not matter.\<close>

lemma unary_apply: "unary_op p \<Longrightarrow> apply_op w p a b = apply_op w p a c"
  by (cases w) (auto simp: unary_op_def sem_simps ir_ops [THEN eq_reflection] irsem_def irsem32_def irsem64_def)

lemma ins_typed_refs:
  assumes "ins_typed J e p w a b"
  shows "int_ref J a" "\<not> unary_op p \<Longrightarrow> int_ref J b"
  using assms by (auto simp: ins_typed_def opnd_def split: if_splits)

section \<open>A growing IR\<close>

lemma ext_refs:
  assumes "ir_ok J" "ir_ext J J'" "nk J \<le> r" "r < nins J"
  shows "is_kint J' r = is_kint J r" "is_kint64 J' r = is_kint64 J r" "is_ins J' r = is_ins J r"
    "irs J' r = irs J r"
  using assms ir_okD [of J] by (auto simp: is_kint_def is_kint64_def is_ins_def ir_ext_def)

lemma ext_int_ref:
  assumes "ir_ok J" "ir_ext J J'" "int_ref J r"
  shows "int_ref J' r" "ref_w J' r = ref_w J r" "opnd J' z w r = opnd J z w r"
  using assms ext_refs [OF assms(1,2) int_refD [OF assms(1,3)]]
  by (simp_all add: int_ref_def ref_w_def opnd_def)

lemma ext_ins_typed:
  assumes "ir_ok J" "ir_ext J J'" "ins_typed J e p w a b"
  shows "ins_typed J' e p w a b"
proof -
  note A = ext_int_ref [OF assms(1,2) ins_typed_refs(1) [OF assms(3)]]
  show ?thesis
  proof (cases "unary_op p")
    case True
    then show ?thesis using assms(3) A by (auto simp: ins_typed_def op_classes ir_ops)
  next
    case False
    note b = ins_typed_refs(2) [OF assms(3) False]
    note B = ext_int_ref [OF assms(1,2) b] ext_refs [OF assms(1,2) int_refD [OF assms(1) b]]
    show ?thesis using assms(3) A B False by (simp add: ins_typed_def)
  qed
qed

lemma irval_ext:
  assumes "ir_ok J" "ir_typed J" "ir_ext J J'"
  shows "int_ref J r \<Longrightarrow> irval (irs J') \<rho> r = irval (irs J) \<rho> r"
proof (induction r rule: less_induct)
  case (less r)
  note e = ext_refs [OF assms(1,3)]
  have same: "irs J' r = irs J r" using e int_refD [OF assms(1) less.prems] by simp
  have k64: "irs J' (r + 1) = irs J (r + 1)" if "is_kint64 J r"
    using that assms is_kint64D [OF assms(1) that] ir_okD [OF assms(1)] by (auto simp: ir_ext_def ir_refs)
  consider "is_kint J r" | "is_kint64 J r" | "is_ins J r" "int_t (ir_t (irs J r))"
    using less.prems by (auto simp: int_ref_def)
  then show ?case
  proof cases
    case 1
    then show ?thesis using is_kintD [OF assms(1) 1] same
      by (subst (1 2) irval.simps) (simp add: Let_def)
  next
    case 2
    then show ?thesis using is_kint64D [OF assms(1) 2] same k64 [OF 2]
      by (subst (1 2) irval.simps) (simp add: Let_def ir_k64_def ir_ops)
  next
    case 3
    let ?i = "irs J r"
    show ?thesis
    proof (cases "val_op (ir_o ?i)")
      case True
      note T = int_insD [OF assms(2) 3 disjI1 [OF True]]
      have a: "irval (irs J') \<rho> (ir_op1 ?i) = irval (irs J) \<rho> (ir_op1 ?i)"
        using less.IH T(1) ins_typed_refs(1) [OF T(3)] by simp
      have "apply_op w (ir_o ?i) (irval (irs J) \<rho> (ir_op1 ?i)) (irval (irs J') \<rho> (ir_op2 ?i))
          = apply_op w (ir_o ?i) (irval (irs J) \<rho> (ir_op1 ?i)) (irval (irs J) \<rho> (ir_op2 ?i))" for w
        using less.IH T(2) ins_typed_refs(2) [OF T(3)] unary_apply by (cases "unary_op (ir_o ?i)") auto
      then show ?thesis
        using True 3 T same a const_not_ins [OF assms(2) 3(1)]
        by (subst (1 2) irval.simps) (auto simp: Let_def is_const_op_def ir_ops)
    next
      case False
      then show ?thesis
        using same const_not_ins [OF assms(2) 3(1)]
        by (subst (1 2) irval.simps) (auto simp: Let_def is_const_op_def ir_ops)
    qed
  qed
qed

text \<open>Interning constants keeps the typing, the values and the guards.\<close>

definition grown :: "jit \<Rightarrow> jit \<Rightarrow> bool" where
  "grown J J' \<longleftrightarrow> ir_ok J' \<and> ir_typed J' \<and> ir_ext J J' \<and> nins J' = nins J"

lemma grown_fins [simp]: "grown J (J'\<lparr>fins := f\<rparr>) = grown J J'" "grown J (J'\<lparr>fleft := l\<rparr>) = grown J J'"
  "grown J (J'\<lparr>fright := l\<rparr>) = grown J J'"
  by (simp_all add: grown_def)

lemma grown_refl: "ir_ok J \<Longrightarrow> ir_typed J \<Longrightarrow> grown J J"
  by (simp add: grown_def ir_ext_refl)

lemma grown_trans: "grown J J' \<Longrightarrow> grown J' J'' \<Longrightarrow> grown J J''"
  by (auto simp: grown_def intro: ir_ext_trans)

lemma ext_typed_at:
  assumes "ir_ok J" "ir_typed J" "ir_ext J J'" "is_ins J r"
  shows "\<not> is_const_op (ir_o (irs J' r))"
    "val_op (ir_o (irs J' r)) \<or> cmp_op (ir_o (irs J' r)) \<Longrightarrow> nk J' \<le> ir_op1 (irs J' r) \<and> ir_op1 (irs J' r) < r"
    "int_ins J' (irs J' r) \<Longrightarrow> int_t (ir_t (irs J' r)) \<and> ir_op1 (irs J' r) < r \<and> ir_op2 (irs J' r) < r \<and>
      ins_typed J' False (ir_o (irs J' r)) (irt_is64 (ir_t (irs J' r))) (ir_op1 (irs J' r)) (ir_op2 (irs J' r))"
proof -
  note d = is_insD [OF assms(1,4)]
  have same: "irs J' r = irs J r" using ext_refs [OF assms(1,3)] d by simp
  have ref: "int_ref J' x = int_ref J x" if "nk J \<le> x" "x < nins J" for x
    using ext_refs [OF assms(1,3) that] by (simp add: int_ref_def)
  note t = assms(2)[unfolded ir_typed_def, rule_format, OF assms(4)]
  show "\<not> is_const_op (ir_o (irs J' r))" using t same by simp
  show "nk J' \<le> ir_op1 (irs J' r) \<and> ir_op1 (irs J' r) < r"
    if "val_op (ir_o (irs J' r)) \<or> cmp_op (ir_o (irs J' r))"
    using that t same assms(3) by (auto simp: ir_ext_def)
  show "int_t (ir_t (irs J' r)) \<and> ir_op1 (irs J' r) < r \<and> ir_op2 (irs J' r) < r \<and>
      ins_typed J' False (ir_o (irs J' r)) (irt_is64 (ir_t (irs J' r))) (ir_op1 (irs J' r)) (ir_op2 (irs J' r))"
    if i: "int_ins J' (irs J' r)"
  proof -
    have op: "val_op (ir_o (irs J r)) \<or> cmp_op (ir_o (irs J r))" using i same by (simp add: int_ins_def)
    then have "int_ref J' (ir_op1 (irs J r)) = int_ref J (ir_op1 (irs J r))" using t d by (intro ref) auto
    then have "int_ins J (irs J r)" using i same by (simp add: int_ins_def)
    then show ?thesis using t same ext_ins_typed [OF assms(1,3)] by simp
  qed
qed

lemma ext_grown:
  assumes "ir_ok J" "ir_typed J" "ir_ext J J'" "ir_ok J'" "nins J' = nins J"
  shows "grown J J'"
proof -
  have "is_ins J' r = is_ins J r" for r using assms(5) by (simp add: is_ins_def)
  then have "ir_typed J'"
    unfolding ir_typed_def using ext_typed_at [OF assms(1-3)] by (intro allI impI) blast
  then show ?thesis using assms by (simp add: grown_def)
qed

lemma interned_grown: "ir_ok J \<Longrightarrow> ir_typed J \<Longrightarrow> interned op k J r J' \<Longrightarrow> grown J J'"
  by (auto simp: interned_def intro: ext_grown)

lemma kint_grown:
  assumes "ir_ok J" "ir_typed J" "lj_ir_kint k J = (r, J')" "nk J' \<noteq> 0"
  shows "grown J J'" "fins J' = fins J" "is_kint J' r" "ir_i (irs J' r) = k"
    "irval (irs J') \<rho> r = ucast k"
proof -
  note i = kint_interned [OF assms(1,3,4)]
  show "grown J J'" by (rule interned_grown [OF assms(1,2) i])
  show r: "is_kint J' r" "fins J' = fins J" using i by (simp_all add: interned_def is_kint_def)
  show k: "ir_i (irs J' r) = k" using i by (simp add: interned_def const_key_def ucast_eq32)
  have "ir_ok J'" using i by (simp add: interned_def)
  then show "irval (irs J') \<rho> r = ucast k" using irval_kint r k by simp
qed

lemma kint64_grown:
  assumes "ir_ok J" "ir_typed J" "lj_ir_kint64 k J = (r, J')" "nk J' \<noteq> 0"
  shows "grown J J'" "fins J' = fins J" "is_kint64 J' r" "irval (irs J') \<rho> r = k"
proof -
  have "is_key_op IR_KINT64" "IR_KINT64 \<noteq> IR_KINT" "IR_KINT64 \<noteq> IR_KNULL"
    by (simp_all add: is_key_op_def ir_ops)
  note i = k64_interned [OF assms(1) assms(3)[unfolded lj_ir_kint64_def] assms(4) this]
  show "grown J J'" by (rule interned_grown [OF assms(1,2) i])
  show r: "is_kint64 J' r" "fins J' = fins J" using i by (simp_all add: interned_def is_kint64_def)
  have "ir_ok J'" "ir_k64 (irs J') r = k" using i by (simp_all add: interned_def const_key_def ir_ops)
  then show "irval (irs J') \<rho> r = k" using irval_kint64 r by simp
qed

lemma grown_ref:
  assumes "ir_ok J" "ir_typed J" "grown J J'" "int_ref J r"
  shows "int_ref J' r" "ref_w J' r = ref_w J r" "opnd J' z w r = opnd J z w r"
    "irval (irs J') \<rho> r = irval (irs J) \<rho> r" "is_kint J' r = is_kint J r" "is_kint64 J' r = is_kint64 J r"
    "irs J' r = irs J r"
  using assms(3) ext_int_ref [OF assms(1) _ assms(4), of J'] irval_ext [OF assms(1,2) _ assms(4), of J']
    ext_refs [OF assms(1) _ int_refD [OF assms(1,4)], of J']
  by (simp_all add: grown_def)

lemma trace_ok_ops:
  assumes "ir_ok J" "ir_typed J" "ir_ext J J'" "ins_typed J e p w a b"
  shows "guard_op w p (irval (irs J') \<rho> a) (irval (irs J') \<rho> b) = guard_op w p (irval (irs J) \<rho> a) (irval (irs J) \<rho> b)"
proof (cases "unary_op p")
  case True
  then have "\<And>(x::u64) y. irguard p x y" "\<And>(x::u32) y. irguard p x y"
    by (auto simp: irguard_def op_classes ir_ops)
  then show ?thesis by (cases w) (simp_all add: guard_op_def)
next
  case False
  then show ?thesis
    using irval_ext [OF assms(1-3)] ins_typed_refs [OF assms(4)] by simp
qed

lemma grown_trace:
  assumes "ir_ok J" "ir_typed J" "grown J J'"
  shows "trace_ok \<rho> J' = trace_ok \<rho> J"
proof -
  have g: "ir_ext J J'" "\<And>r. is_ins J' r = is_ins J r" using assms(3) by (auto simp: grown_def is_ins_def)
  have same: "irs J' r = irs J r" if "is_ins J r" for r
    using ext_refs(4) [OF assms(1) g(1)] is_insD [OF assms(1) that] by simp
  show ?thesis
    unfolding trace_ok_def g(2)
    using same trace_ok_ops [OF assms(1,2) g(1) int_insD(3) [OF assms(2)]]
    by (intro all_cong1 imp_cong refl) auto
qed

end
