(* ===== verification/LjFoldOps.thy ===== *)
theory LjFoldOps
  imports LjFoldSem
begin

text \<open>
  What the soundness proofs of the fold rules share: facts on the opcodes, what is known of the
  operands of the candidate instruction once they are loaded, and what a rule promises.
\<close>

section \<open>Byte swaps\<close>

lemma mask_ff00: "(0xff00::u32) = push_bit 8 (mask 8)" by (simp add: mask_eq_exp_minus_1)

lemma bit_swap_bytes:
  assumes "n < 32"
  shows "bit (lj_bswap x) n = bit x (24 - 8 * (n div 8) + n mod 8)"
proof -
  consider "n < 8" | "8 \<le> n \<and> n < 16" | "16 \<le> n \<and> n < 24" | "24 \<le> n \<and> n < 32" using assms by linarith
  then show ?thesis
  proof cases
    case 1
    then have "n div 8 = 0" "n mod 8 = n" by auto
    then show ?thesis using 1
      by (auto simp: lj_bswap_def mask_ff00 bit_or_iff bit_and_iff bit_push_bit_iff bit_drop_bit_eq bit_mask_iff dest: bit_imp_le_length)
  next
    case 2
    then have "n div 8 = 1" "n mod 8 = n - 8" by presburger+
    then show ?thesis using 2
      by (auto simp: lj_bswap_def mask_ff00 bit_or_iff bit_and_iff bit_push_bit_iff bit_drop_bit_eq bit_mask_iff dest: bit_imp_le_length)
  next
    case 3
    then have "n div 8 = 2" "n mod 8 = n - 16" by presburger+
    then show ?thesis using 3
      by (auto simp: lj_bswap_def mask_ff00 bit_or_iff bit_and_iff bit_push_bit_iff bit_drop_bit_eq bit_mask_iff dest: bit_imp_le_length)
  next
    case 4
    then have "n div 8 = 3" "n mod 8 = n - 24" by presburger+
    then show ?thesis using 4
      by (auto simp: lj_bswap_def mask_ff00 bit_or_iff bit_and_iff bit_push_bit_iff bit_drop_bit_eq bit_mask_iff dest: bit_imp_le_length)
  qed
qed

lemma bswap_bswap [simp]: "lj_bswap (lj_bswap x) = x"
proof (rule bit_word_eqI)
  fix n assume "n < LENGTH(32)"
  then have n: "n < 32" by simp
  define m where "m = 24 - 8 * (n div 8) + n mod 8"
  have q: "n div 8 \<le> 3" "n mod 8 < 8" "n = 8 * (n div 8) + n mod 8" using n by auto
  have e: "m = 8 * (3 - n div 8) + n mod 8" using q(1) by (simp add: m_def diff_mult_distrib2)
  have d: "m div 8 = 3 - n div 8" "m mod 8 = n mod 8" using q(2) unfolding e by simp_all
  have "m < 32" using q(2) unfolding e by linarith
  moreover have "24 - 8 * (m div 8) + m mod 8 = n" using q unfolding d by linarith
  ultimately have m: "m < 32" "24 - 8 * (m div 8) + m mod 8 = n" .
  show "bit (lj_bswap (lj_bswap x)) n = bit x n"
    unfolding bit_swap_bytes [OF n] m_def [symmetric] bit_swap_bytes [OF m(1)] m(2) ..
qed

lemma ucast_halves: "(ucast (ucast (a::u32) OR push_bit 32 (ucast (b::u32)) :: u64) :: u32) = a"
    "(ucast (drop_bit 32 (ucast a OR push_bit 32 (ucast b) :: u64)) :: u32) = b"
  by (rule bit_word_eqI; auto simp: bit_simps dest: bit_imp_le_length)+

lemma bswap64_bswap64 [simp]: "lj_bswap64 (lj_bswap64 x) = x"
  unfolding lj_bswap64_def ucast_halves bswap_bswap
  by (rule bit_word_eqI) (auto simp: bit_simps dest: bit_imp_le_length)
section \<open>Opcodes by class\<close>

lemma op_class_simps [simp]:
  "val_op IR_BAND" "val_op IR_BOR" "val_op IR_BXOR" "val_op IR_ADD" "val_op IR_SUB"
  "val_op IR_MUL" "val_op IR_MOD" "val_op IR_NEG" "val_op IR_MIN" "val_op IR_MAX" "val_op IR_BNOT"
  "val_op IR_BSWAP" "val_op IR_BSHL" "val_op IR_BSHR" "val_op IR_BSAR" "val_op IR_BROL"
  "val_op IR_BROR" "val_op IR_ADDOV" "val_op IR_SUBOV" "val_op IR_MULOV" "\<not> val_op IR_LT"
  "\<not> val_op IR_GE" "\<not> val_op IR_LE" "\<not> val_op IR_GT" "\<not> val_op IR_ULT"
  "\<not> val_op IR_UGE" "\<not> val_op IR_ULE" "\<not> val_op IR_UGT" "\<not> val_op IR_EQ"
  "\<not> val_op IR_NE" "\<not> cmp_op IR_BAND" "\<not> cmp_op IR_BOR" "\<not> cmp_op IR_BXOR"
  "\<not> cmp_op IR_ADD" "\<not> cmp_op IR_SUB" "\<not> cmp_op IR_MUL" "\<not> cmp_op IR_MOD"
  "\<not> cmp_op IR_NEG" "\<not> cmp_op IR_MIN" "\<not> cmp_op IR_MAX" "\<not> cmp_op IR_BNOT"
  "\<not> cmp_op IR_BSWAP" "\<not> cmp_op IR_BSHL" "\<not> cmp_op IR_BSHR" "\<not> cmp_op IR_BSAR"
  "\<not> cmp_op IR_BROL" "\<not> cmp_op IR_BROR" "\<not> cmp_op IR_ADDOV"
  "\<not> cmp_op IR_SUBOV" "\<not> cmp_op IR_MULOV" "cmp_op IR_LT" "cmp_op IR_GE" "cmp_op IR_LE"
  "cmp_op IR_GT" "cmp_op IR_ULT" "cmp_op IR_UGE" "cmp_op IR_ULE" "cmp_op IR_UGT" "cmp_op IR_EQ"
  "cmp_op IR_NE" "\<not> shift_op IR_BAND" "\<not> shift_op IR_BOR" "\<not> shift_op IR_BXOR"
  "\<not> shift_op IR_ADD" "\<not> shift_op IR_SUB" "\<not> shift_op IR_MUL"
  "\<not> shift_op IR_MOD" "\<not> shift_op IR_NEG" "\<not> shift_op IR_MIN"
  "\<not> shift_op IR_MAX" "\<not> shift_op IR_BNOT" "\<not> shift_op IR_BSWAP" "shift_op IR_BSHL"
  "shift_op IR_BSHR" "shift_op IR_BSAR" "shift_op IR_BROL" "shift_op IR_BROR"
  "\<not> shift_op IR_ADDOV" "\<not> shift_op IR_SUBOV" "\<not> shift_op IR_MULOV"
  "\<not> shift_op IR_LT" "\<not> shift_op IR_GE" "\<not> shift_op IR_LE" "\<not> shift_op IR_GT"
  "\<not> shift_op IR_ULT" "\<not> shift_op IR_UGE" "\<not> shift_op IR_ULE"
  "\<not> shift_op IR_UGT" "\<not> shift_op IR_EQ" "\<not> shift_op IR_NE" "\<not> ov_op IR_BAND"
  "\<not> ov_op IR_BOR" "\<not> ov_op IR_BXOR" "\<not> ov_op IR_ADD" "\<not> ov_op IR_SUB"
  "\<not> ov_op IR_MUL" "\<not> ov_op IR_MOD" "\<not> ov_op IR_NEG" "\<not> ov_op IR_MIN"
  "\<not> ov_op IR_MAX" "\<not> ov_op IR_BNOT" "\<not> ov_op IR_BSWAP" "\<not> ov_op IR_BSHL"
  "\<not> ov_op IR_BSHR" "\<not> ov_op IR_BSAR" "\<not> ov_op IR_BROL" "\<not> ov_op IR_BROR"
  "ov_op IR_ADDOV" "ov_op IR_SUBOV" "ov_op IR_MULOV" "\<not> ov_op IR_LT" "\<not> ov_op IR_GE"
  "\<not> ov_op IR_LE" "\<not> ov_op IR_GT" "\<not> ov_op IR_ULT" "\<not> ov_op IR_UGE"
  "\<not> ov_op IR_ULE" "\<not> ov_op IR_UGT" "\<not> ov_op IR_EQ" "\<not> ov_op IR_NE"
  "\<not> unary_op IR_BAND" "\<not> unary_op IR_BOR" "\<not> unary_op IR_BXOR"
  "\<not> unary_op IR_ADD" "\<not> unary_op IR_SUB" "\<not> unary_op IR_MUL"
  "\<not> unary_op IR_MOD" "\<not> unary_op IR_NEG" "\<not> unary_op IR_MIN"
  "\<not> unary_op IR_MAX" "unary_op IR_BNOT" "unary_op IR_BSWAP" "\<not> unary_op IR_BSHL"
  "\<not> unary_op IR_BSHR" "\<not> unary_op IR_BSAR" "\<not> unary_op IR_BROL"
  "\<not> unary_op IR_BROR" "\<not> unary_op IR_ADDOV" "\<not> unary_op IR_SUBOV"
  "\<not> unary_op IR_MULOV" "\<not> unary_op IR_LT" "\<not> unary_op IR_GE"
  "\<not> unary_op IR_LE" "\<not> unary_op IR_GT" "\<not> unary_op IR_ULT"
  "\<not> unary_op IR_UGE" "\<not> unary_op IR_ULE" "\<not> unary_op IR_UGT"
  "\<not> unary_op IR_EQ" "\<not> unary_op IR_NE" "zop IR_BAND" "zop IR_BOR" "\<not> zop IR_BXOR"
  "zop IR_ADD" "zop IR_SUB" "\<not> zop IR_MUL" "\<not> zop IR_MOD" "\<not> zop IR_NEG"
  "\<not> zop IR_MIN" "\<not> zop IR_MAX" "\<not> zop IR_BNOT" "\<not> zop IR_BSWAP"
  "\<not> zop IR_BSHL" "\<not> zop IR_BSHR" "\<not> zop IR_BSAR" "\<not> zop IR_BROL"
  "\<not> zop IR_BROR" "\<not> zop IR_ADDOV" "\<not> zop IR_SUBOV" "\<not> zop IR_MULOV"
  "\<not> zop IR_LT" "\<not> zop IR_GE" "\<not> zop IR_LE" "\<not> zop IR_GT" "\<not> zop IR_ULT"
  "\<not> zop IR_UGE" "\<not> zop IR_ULE" "\<not> zop IR_UGT" "\<not> zop IR_EQ"
  "\<not> zop IR_NE"
  by (simp_all add: op_classes zop_def ir_ops)

lemma op_not_mod' [simp]: "IR_MOD \<noteq> p" if "zop p \<or> shift_op p \<or> unary_op p \<or> ov_op p \<or> cmp_op p \<or> p = IR_NEG \<or> p = IR_BXOR \<or> p = IR_MIN \<or> p = IR_MAX \<or> p = IR_MUL"
  using that by (auto simp: op_classes zop_def ir_ops)

lemma op_not_mod [simp]:
  "IR_BAND \<noteq> IR_MOD" "IR_BOR \<noteq> IR_MOD" "IR_BXOR \<noteq> IR_MOD"
  "IR_ADD \<noteq> IR_MOD" "IR_SUB \<noteq> IR_MOD" "IR_MUL \<noteq> IR_MOD"
  "IR_NEG \<noteq> IR_MOD" "IR_MIN \<noteq> IR_MOD" "IR_MAX \<noteq> IR_MOD"
  "IR_BNOT \<noteq> IR_MOD" "IR_BSWAP \<noteq> IR_MOD" "IR_BSHL \<noteq> IR_MOD"
  "IR_BSHR \<noteq> IR_MOD" "IR_BSAR \<noteq> IR_MOD" "IR_BROL \<noteq> IR_MOD"
  "IR_BROR \<noteq> IR_MOD" "IR_ADDOV \<noteq> IR_MOD" "IR_SUBOV \<noteq> IR_MOD"
  "IR_MULOV \<noteq> IR_MOD" "IR_LT \<noteq> IR_MOD" "IR_GE \<noteq> IR_MOD"
  "IR_LE \<noteq> IR_MOD" "IR_GT \<noteq> IR_MOD" "IR_ULT \<noteq> IR_MOD"
  "IR_UGE \<noteq> IR_MOD" "IR_ULE \<noteq> IR_MOD" "IR_UGT \<noteq> IR_MOD"
  "IR_EQ \<noteq> IR_MOD" "IR_NE \<noteq> IR_MOD"
  by (simp_all add: ir_ops)

lemma irsem32_ops [simp]:
  "irsem32 IR_ADD a b = a + b" "irsem32 IR_ADDOV a b = a + b" "irsem32 IR_SUB a b = a - b"
  "irsem32 IR_SUBOV a b = a - b" "irsem32 IR_MUL a b = a * b" "irsem32 IR_MULOV a b = a * b"
  "irsem32 IR_NEG a b = - a" "irsem32 IR_BAND a b = a AND b" "irsem32 IR_BOR a b = a OR b"
  "irsem32 IR_BXOR a b = a XOR b" "irsem32 IR_BNOT a b = NOT a"
  "irsem32 IR_BSHL a b = push_bit (unat b mod 32) a"
  "irsem32 IR_BSHR a b = drop_bit (unat b mod 32) a"
  "irsem32 IR_BSAR a b = signed_drop_bit (unat b mod 32) a"
  "irsem32 IR_BROL a b = word_rotl (unat b mod 32) a"
  "irsem32 IR_BROR a b = word_rotr (unat b mod 32) a"
  "irsem32 IR_MIN a b = (if sint a \<le> sint b then a else b)"
  "irsem32 IR_MAX a b = (if sint a \<le> sint b then b else a)"
  "irsem32 IR_MOD a b = word_of_int (sint a mod sint b)"
  for a b :: u32
  by (simp_all add: irsem32_def irsem_def ir_ops)

lemma irsem64_ops [simp]:
  "irsem64 IR_ADD a b = a + b" "irsem64 IR_ADDOV a b = a + b" "irsem64 IR_SUB a b = a - b"
  "irsem64 IR_SUBOV a b = a - b" "irsem64 IR_MUL a b = a * b" "irsem64 IR_MULOV a b = a * b"
  "irsem64 IR_NEG a b = - a" "irsem64 IR_BAND a b = a AND b" "irsem64 IR_BOR a b = a OR b"
  "irsem64 IR_BXOR a b = a XOR b" "irsem64 IR_BNOT a b = NOT a"
  "irsem64 IR_BSHL a b = push_bit (unat b mod 64) a"
  "irsem64 IR_BSHR a b = drop_bit (unat b mod 64) a"
  "irsem64 IR_BSAR a b = signed_drop_bit (unat b mod 64) a"
  "irsem64 IR_BROL a b = word_rotl (unat b mod 64) a"
  "irsem64 IR_BROR a b = word_rotr (unat b mod 64) a"
  "irsem64 IR_MIN a b = (if sint a \<le> sint b then a else b)"
  "irsem64 IR_MAX a b = (if sint a \<le> sint b then b else a)"
  "irsem64 IR_MOD a b = word_of_int (sint a mod sint b)"
  for a b :: u64
  by (simp_all add: irsem64_def irsem_def ir_ops)

section \<open>The operands of the candidate instruction\<close>

definition loaded :: "jit \<Rightarrow> bool" where
  "loaded J \<longleftrightarrow>
     (nk J \<le> fop1 J \<longrightarrow> fl J = irs J (fop1 J) \<and> (fop1 J < REF_TRUE \<longrightarrow> fl64 J = ir_k64 (irs J) (fop1 J))) \<and>
     (nk J \<le> fop2 J \<longrightarrow> fr J = irs J (fop2 J) \<and> (fop2 J < REF_TRUE \<longrightarrow> fr64 J = ir_k64 (irs J) (fop2 J)))"

definition ready :: "jit \<Rightarrow> bool" where
  "ready J \<longleftrightarrow> ir_ok J \<and> ir_typed J \<and> fins_ok J \<and> loaded J"

abbreviation V :: "(nat \<Rightarrow> u64) \<Rightarrow> jit \<Rightarrow> nat \<Rightarrow> u64" where
  "V \<rho> J r \<equiv> irval (irs J) \<rho> r"

lemma readyD:
  assumes "ready J"
  shows "ir_ok J" "ir_typed J" "int_t (ft J)" "val_op (fo J) \<or> cmp_op (fo J)"
    "ins_typed J True (fo J) (fw J) (fop1 J) (fop2 J)" "opnd J (zop (fo J) \<or> shift_op (fo J)) (fw J) (fop1 J)"
  using assms by (auto simp: ready_def fins_ok_def ins_typed_def)

lemma opnd_weak [intro]: "opnd J False w r \<Longrightarrow> opnd J z w r" "opnd J z w r \<Longrightarrow> opnd J True w r"
  by (auto simp: opnd_def)

lemma opnd_int_ref: "opnd J z w r \<Longrightarrow> int_ref J r"
  by (simp add: opnd_def)

lemma opnd_kint: "is_kint J r \<Longrightarrow> opnd J z w r \<longleftrightarrow> \<not> w \<or> z \<and> ir_i (irs J r) = 0"
  by (auto simp: opnd_def int_ref_def ref_w_def)

lemma opnd_kint64: "ir_ok J \<Longrightarrow> is_kint64 J r \<Longrightarrow> opnd J z w r \<longleftrightarrow> w"
  using is_kint64D(5) [of J r] unfolding opnd_def int_ref_def ref_w_def by metis

lemma opnd_ins: "ir_ok J \<Longrightarrow> is_ins J r \<Longrightarrow> opnd J z w r \<longleftrightarrow> int_t (ir_t (irs J r)) \<and> irt_is64 (ir_t (irs J r)) = w"
proof -
  assume "ir_ok J" "is_ins J r"
  then have "\<not> is_kint J r" "\<not> is_kint64 J r" using is_kintD(6) is_kint64D(6) by blast+
  with \<open>is_ins J r\<close> show ?thesis by (simp add: opnd_def int_ref_def ref_w_def)
qed

lemma left_load:
  assumes "ready J"
  shows "fl J = irs J (fop1 J)" "fop1 J < REF_TRUE \<Longrightarrow> fl64 J = ir_k64 (irs J) (fop1 J)" "int_ref J (fop1 J)"
proof -
  show i: "int_ref J (fop1 J)" using readyD(6) [OF assms] by (rule opnd_int_ref)
  show "fl J = irs J (fop1 J)" "fop1 J < REF_TRUE \<Longrightarrow> fl64 J = ir_k64 (irs J) (fop1 J)"
    using assms int_refD [OF readyD(1) [OF assms] i] by (auto simp: ready_def loaded_def)
qed

lemma right_load:
  assumes "ready J" "\<not> unary_op (fo J)"
  shows "fr J = irs J (fop2 J)" "fop2 J < REF_TRUE \<Longrightarrow> fr64 J = ir_k64 (irs J) (fop2 J)" "int_ref J (fop2 J)"
proof -
  show i: "int_ref J (fop2 J)" using readyD(5) [OF assms(1)] assms(2) by (rule ins_typed_refs(2))
  show "fr J = irs J (fop2 J)" "fop2 J < REF_TRUE \<Longrightarrow> fr64 J = ir_k64 (irs J) (fop2 J)"
    using assms int_refD [OF readyD(1) [OF assms(1)] i] by (auto simp: ready_def loaded_def)
qed

lemma left_kint:
  assumes "ready J" "ir_o (fl J) = IR_KINT"
  shows "is_kint J (fop1 J)" "V \<rho> J (fop1 J) = ucast (ir_i (fl J))"
    "fw J \<Longrightarrow> ir_i (fl J) = 0 \<and> (zop (fo J) \<or> shift_op (fo J))"
proof -
  note L = left_load [OF assms(1)] and R = readyD [OF assms(1)]
  show k: "is_kint J (fop1 J)" using int_ref_kint(1) [OF R(1,2) L(3)] assms(2) L(1) by simp
  show "V \<rho> J (fop1 J) = ucast (ir_i (fl J))" using irval_kint [OF R(1) k] L(1) by simp
  show "fw J \<Longrightarrow> ir_i (fl J) = 0 \<and> (zop (fo J) \<or> shift_op (fo J))"
    using R(6) opnd_kint [OF k] L(1) by simp
qed

lemma left_kint64:
  assumes "ready J" "ir_o (fl J) = IR_KINT64"
  shows "is_kint64 J (fop1 J)" "V \<rho> J (fop1 J) = fl64 J" "fw J"
proof -
  note L = left_load [OF assms(1)] and R = readyD [OF assms(1)]
  show k: "is_kint64 J (fop1 J)" using int_ref_kint(2) [OF R(1,2) L(3)] assms(2) L(1) by simp
  show "V \<rho> J (fop1 J) = fl64 J" using irval_kint64 [OF R(1) k] L(2) is_kint64D [OF R(1) k] by simp
  show "fw J" using R(6) opnd_kint64 [OF R(1) k] by simp
qed

lemma ins_operand:
  assumes "ir_ok J" "ir_typed J" "opnd J z w r" "val_op (ir_o (irs J r))"
  shows "is_ins J r" "ins_typed J False (ir_o (irs J r)) w (ir_op1 (irs J r)) (ir_op2 (irs J r))"
    "V \<rho> J r = apply_op w (ir_o (irs J r)) (V \<rho> J (ir_op1 (irs J r))) (V \<rho> J (ir_op2 (irs J r)))"
    "int_t (ir_t (irs J r))" "irt_is64 (ir_t (irs J r)) = w"
proof -
  have "ir_o (irs J r) \<noteq> IR_KINT \<and> ir_o (irs J r) \<noteq> IR_KINT64"
    using val_op_not_const [of "ir_o (irs J r)"] assms(4) by (auto simp: is_const_op_def ir_ops)
  then show i: "is_ins J r"
    using int_ref_kint [OF assms(1,2) opnd_int_ref [OF assms(3)]] opnd_int_ref [OF assms(3)]
    by (auto simp: int_ref_def)
  show t: "int_t (ir_t (irs J r))" and w: "irt_is64 (ir_t (irs J r)) = w"
    using assms(3) opnd_ins [OF assms(1) i] by simp_all
  show "ins_typed J False (ir_o (irs J r)) w (ir_op1 (irs J r)) (ir_op2 (irs J r))"
    using int_insD(3) [OF assms(2) i t] assms(4) w by simp
  show "V \<rho> J r = apply_op w (ir_o (irs J r)) (V \<rho> J (ir_op1 (irs J r))) (V \<rho> J (ir_op2 (irs J r)))"
    using irval_ins [OF assms(2) i t assms(4)] w by simp
qed

lemma left_ins:
  assumes "ready J" "val_op (ir_o (fl J))"
  shows "ins_typed J False (ir_o (fl J)) (fw J) (ir_op1 (fl J)) (ir_op2 (fl J))"
    "V \<rho> J (fop1 J) = apply_op (fw J) (ir_o (fl J)) (V \<rho> J (ir_op1 (fl J))) (V \<rho> J (ir_op2 (fl J)))"
    "int_t (ir_t (fl J))" "irt_is64 (ir_t (fl J)) = fw J"
  using ins_operand [OF readyD(1,2,6) [OF assms(1)]] assms(2) left_load(1) [OF assms(1)] by simp_all

lemma right_kint:
  assumes "ready J" "\<not> unary_op (fo J)" "ir_o (fr J) = IR_KINT"
  shows "is_kint J (fop2 J)" "V \<rho> J (fop2 J) = ucast (ir_i (fr J))"
    "fw J \<Longrightarrow> shift_op (fo J) \<or> zop (fo J) \<and> ir_i (fr J) = 0"
proof -
  note L = right_load [OF assms(1,2)] and R = readyD [OF assms(1)]
  show k: "is_kint J (fop2 J)" using int_ref_kint(1) [OF R(1,2) L(3)] assms(3) L(1) by simp
  show "V \<rho> J (fop2 J) = ucast (ir_i (fr J))" using irval_kint [OF R(1) k] L(1) by simp
  show "fw J \<Longrightarrow> shift_op (fo J) \<or> zop (fo J) \<and> ir_i (fr J) = 0"
    using R(5) opnd_kint [OF k] L(1) assms(2) by (auto simp: ins_typed_def split: if_splits)
qed

lemma right_kint64:
  assumes "ready J" "\<not> unary_op (fo J)" "ir_o (fr J) = IR_KINT64"
  shows "is_kint64 J (fop2 J)" "V \<rho> J (fop2 J) = fr64 J" "fw J" "\<not> shift_op (fo J)"
proof -
  note L = right_load [OF assms(1,2)] and R = readyD [OF assms(1)]
  show k: "is_kint64 J (fop2 J)" using int_ref_kint(2) [OF R(1,2) L(3)] assms(3) L(1) by simp
  show "V \<rho> J (fop2 J) = fr64 J" using irval_kint64 [OF R(1) k] L(2) is_kint64D [OF R(1) k] by simp
  show "fw J" "\<not> shift_op (fo J)"
    using R(5) opnd_kint64 [OF R(1) k] assms(2) k by (auto simp: ins_typed_def split: if_splits)
qed

lemma right_ins:
  assumes "ready J" "\<not> unary_op (fo J)" "\<not> shift_op (fo J)" "val_op (ir_o (fr J))"
  shows "ins_typed J False (ir_o (fr J)) (fw J) (ir_op1 (fr J)) (ir_op2 (fr J))"
    "V \<rho> J (fop2 J) = apply_op (fw J) (ir_o (fr J)) (V \<rho> J (ir_op1 (fr J))) (V \<rho> J (ir_op2 (fr J)))"
proof -
  have "opnd J (zop (fo J)) (fw J) (fop2 J)"
    using readyD(5) [OF assms(1)] assms(2,3) by (simp add: ins_typed_def)
  from ins_operand [OF readyD(1,2) [OF assms(1)] this] assms(4) right_load(1) [OF assms(1,2)]
  show "ins_typed J False (ir_o (fr J)) (fw J) (ir_op1 (fr J)) (ir_op2 (fr J))"
    "V \<rho> J (fop2 J) = apply_op (fw J) (ir_o (fr J)) (V \<rho> J (ir_op1 (fr J))) (V \<rho> J (ir_op2 (fr J)))"
    by simp_all
qed

section \<open>What a rule promises\<close>

text \<open>The 64 bit shifts for which a constant mask is folded wrongly (see the last section).\<close>

definition bad_op :: "irop \<Rightarrow> bool" where
  "bad_op p \<longleftrightarrow> p = IR_BSHR \<or> p = IR_BROL \<or> p = IR_BROR"

lemma bad_op_simps [simp]:
  "\<not> bad_op IR_BAND" "\<not> bad_op IR_BOR" "\<not> bad_op IR_BXOR" "\<not> bad_op IR_ADD"
  "\<not> bad_op IR_SUB" "\<not> bad_op IR_MUL" "\<not> bad_op IR_MOD" "\<not> bad_op IR_NEG"
  "\<not> bad_op IR_MIN" "\<not> bad_op IR_MAX" "\<not> bad_op IR_BNOT" "\<not> bad_op IR_BSWAP"
  "\<not> bad_op IR_BSHL" "bad_op IR_BSHR" "\<not> bad_op IR_BSAR" "bad_op IR_BROL"
  "bad_op IR_BROR" "\<not> bad_op IR_ADDOV" "\<not> bad_op IR_SUBOV" "\<not> bad_op IR_MULOV"
  "\<not> bad_op IR_LT" "\<not> bad_op IR_GE" "\<not> bad_op IR_LE" "\<not> bad_op IR_GT"
  "\<not> bad_op IR_ULT" "\<not> bad_op IR_UGE" "\<not> bad_op IR_ULE" "\<not> bad_op IR_UGT"
  "\<not> bad_op IR_EQ" "\<not> bad_op IR_NE"
  by (simp_all add: bad_op_def ir_ops)

definition bad_shift :: "jit \<Rightarrow> bool" where
  "bad_shift J \<longleftrightarrow> fw J \<and> bad_op (fo J)"

definition same_ins :: "(nat \<Rightarrow> u64) \<Rightarrow> jit \<Rightarrow> jit \<Rightarrow> bool" where
  "same_ins \<rho> J J' \<longleftrightarrow> fins_ok J' \<and> fw J' = fw J \<and>
     (val_op (fo J) \<longrightarrow> agree (fw J) (finval \<rho> J') (finval \<rho> J)) \<and>
     finguard \<rho> J' = finguard \<rho> J \<and> val_op (fo J') = val_op (fo J) \<and> (bad_shift J' \<longrightarrow> bad_shift J)"

definition res_ref :: "(nat \<Rightarrow> u64) \<Rightarrow> jit \<Rightarrow> jit \<Rightarrow> nat \<Rightarrow> bool" where
  "res_ref \<rho> J J' r \<longleftrightarrow> opnd J' True (fw J) r \<and> agree (fw J) (V \<rho> J' r) (finval \<rho> J) \<and> finguard \<rho> J \<and> val_op (fo J)"

definition fold_ok :: "(nat \<Rightarrow> u64) \<Rightarrow> jit \<Rightarrow> jit \<times> foldres \<Rightarrow> bool" where
  "fold_ok \<rho> J = (\<lambda>(J', res). case res of
     NEXTFOLD \<Rightarrow> J' = J
   | RETRYFOLD \<Rightarrow> grown J J' \<and> same_ins \<rho> J J'
   | KINTFOLD \<Rightarrow> J' = J\<lparr>fins := fins J'\<rparr> \<and> agree (fw J) (ucast (ir_i (fins J'))) (finval \<rho> J) \<and>
       (fw J \<longrightarrow> ir_i (fins J') = 0) \<and> finguard \<rho> J \<and> val_op (fo J)
   | FAILFOLD \<Rightarrow> \<not> finguard \<rho> J
   | DROPFOLD \<Rightarrow> J' = J \<and> finguard \<rho> J \<and> cmp_op (fo J)
   | FoldRef r \<Rightarrow> grown J J' \<and> res_ref \<rho> J J' r)"

lemma fold_ok_simps [simp]:
  "fold_ok \<rho> J (J', NEXTFOLD) \<longleftrightarrow> J' = J"
  "fold_ok \<rho> J (J', RETRYFOLD) \<longleftrightarrow> grown J J' \<and> same_ins \<rho> J J'"
  "fold_ok \<rho> J (J', KINTFOLD) \<longleftrightarrow> J' = J\<lparr>fins := fins J'\<rparr> \<and> agree (fw J) (ucast (ir_i (fins J'))) (finval \<rho> J) \<and>
     (fw J \<longrightarrow> ir_i (fins J') = 0) \<and> finguard \<rho> J \<and> val_op (fo J)"
  "fold_ok \<rho> J (J', FAILFOLD) \<longleftrightarrow> \<not> finguard \<rho> J"
  "fold_ok \<rho> J (J', DROPFOLD) \<longleftrightarrow> J' = J \<and> finguard \<rho> J \<and> cmp_op (fo J)"
  "fold_ok \<rho> J (J', FoldRef r) \<longleftrightarrow> grown J J' \<and> res_ref \<rho> J J' r"
  by (simp_all add: fold_ok_def)


lemmas rule_defs = fold_helper_defs same_ins_def res_ref_def finval_def finguard_def fins_ok_def
  bad_shift_def Let_def

lemma opnd_typed [simp]:
  "opnd J z w a \<Longrightarrow> int_ref J a"
  by (simp add: opnd_def)

lemma finguard_val [simp]: "val_op (fo J) \<Longrightarrow> \<not> ov_op (fo J) \<Longrightarrow> finguard \<rho> J"
  by (simp add: finguard_def guard_op_def)

section \<open>Small facts on words\<close>

lemma kint_neq [simp]: "IR_KINT \<noteq> IR_KINT64" "IR_KINT64 \<noteq> IR_KINT"
  by (simp_all add: ir_ops)

lemma scast_consts [simp]: "(scast (k::u32) :: u64) = 0 \<longleftrightarrow> k = 0" "(scast (k::u32) :: u64) = - 1 \<longleftrightarrow> k = - 1"
proof -
  have inj: "(scast k :: u64) = scast l \<longleftrightarrow> k = l" for k l :: u32
  proof
    assume "(scast k :: u64) = scast l"
    then have "sint (scast k :: u64) = sint (scast l :: u64)" by simp
    then show "k = l" by (simp add: sint_up_scast is_up sint_eqD)
  qed simp
  show "(scast (k::u32) :: u64) = 0 \<longleftrightarrow> k = 0" using inj [of k 0] by simp
  show "(scast (k::u32) :: u64) = - 1 \<longleftrightarrow> k = - 1" using inj [of k "- 1"] by simp
qed

lemma in_sint_word [simp]: "in_sint TYPE('a) (sint (a::'a::len word))"
  using sint_range_size [of a] by (simp add: in_sint_def wsst_TYs)

lemma in_sint_0 [simp]: "in_sint TYPE('a::len) 0"
  by (simp add: in_sint_def)

lemma rot_consts [simp]:
  "word_rotl n 0 = (0::'a::len word)" "word_rotr n 0 = (0::'a word)"
  "word_rotl n (- 1) = (- 1 :: 'a word)" "word_rotr n (- 1) = (- 1 :: 'a word)"
  "signed_drop_bit n (- 1) = (- 1 :: 'a word)"
  by (rule bit_word_eqI; simp add: bit_word_rotl_iff bit_word_rotr_iff bit_signed_drop_bit_iff)+

section \<open>Rules that intern a constant\<close>

lemma grown_fins_left [simp]: "grown (J\<lparr>fins := f\<rparr>) J' = grown J J'"
  by (simp add: grown_def ir_ext_def)

lemma op2_kint_retry:
  assumes "ready J" "nk (op2_kint k (J\<lparr>fins := f\<rparr>)) \<noteq> 0" "ir_t f = ft J"
    and "opnd J (zop (ir_o f) \<or> shift_op (ir_o f)) (fw J) (ir_op1 f)"
    and "val_op (ir_o f)" "\<not> unary_op (ir_o f)" "ir_o f \<noteq> IR_MOD" "ov_op (ir_o f) \<Longrightarrow> \<not> fw J"
    and "fw J \<Longrightarrow> shift_op (ir_o f) \<or> zop (ir_o f) \<and> k = 0" "val_op (fo J)"
    and "bad_op (ir_o f) \<Longrightarrow> fw J \<Longrightarrow> bad_op (fo J)"
    and "agree (fw J) (apply_op (fw J) (ir_o f) (V \<rho> J (ir_op1 f)) (ucast k)) (finval \<rho> J)"
    and "guard_op (fw J) (ir_o f) (V \<rho> J (ir_op1 f)) (ucast k) = finguard \<rho> J"
  shows "fold_ok \<rho> J (op2_kint k (J\<lparr>fins := f\<rparr>), RETRYFOLD)"
proof -
  note R = readyD [OF assms(1)]
  obtain r J1 where n: "lj_ir_kint k (J\<lparr>fins := f\<rparr>) = (r, J1)" by force
  have e: "op2_kint k (J\<lparr>fins := f\<rparr>) = J1\<lparr>fins := (fins J1)\<lparr>ir_op2 := r\<rparr>\<rparr>"
    by (simp add: op2_kint_def set_op2_def n)
  have nk: "nk J1 \<noteq> 0" using assms(2) by (simp add: e)
  note g = kint_grown [OF _ _ n nk, simplified, OF R(1,2)]
  note a = grown_ref [OF R(1,2) g(1) opnd_int_ref [OF assms(4)]]
  have "\<not> is_kint64 J1 r" using is_kintD [of J1 r] g(1,3) by (simp add: grown_def)
  then have "ins_typed J1 True (ir_o f) (fw J) (ir_op1 f) r"
    using assms g a opnd_kint [OF g(3)] by (auto simp: ins_typed_def int_ref_def)
  then show ?thesis
    using assms(3,5,10-13) g R(3) a
    by (simp add: e same_ins_def fins_ok_def finval_def finguard_def bad_shift_def)
qed

lemma op2_kint64_retry:
  assumes "ready J" "nk (op2_kint64 k (J\<lparr>fins := f\<rparr>)) \<noteq> 0" "ir_t f = ft J"
    and "opnd J (zop (ir_o f) \<or> shift_op (ir_o f)) (fw J) (ir_op1 f)"
    and "val_op (ir_o f)" "\<not> unary_op (ir_o f)" "ir_o f \<noteq> IR_MOD" "\<not> ov_op (ir_o f)"
    and "fw J" "\<not> shift_op (ir_o f)" "val_op (fo J)" "\<not> ov_op (fo J)"
    and "apply_op True (ir_o f) (V \<rho> J (ir_op1 f)) k = finval \<rho> J"
  shows "fold_ok \<rho> J (op2_kint64 k (J\<lparr>fins := f\<rparr>), RETRYFOLD)"
proof -
  note R = readyD [OF assms(1)]
  obtain r J1 where n: "lj_ir_kint64 k (J\<lparr>fins := f\<rparr>) = (r, J1)" by force
  have e: "op2_kint64 k (J\<lparr>fins := f\<rparr>) = J1\<lparr>fins := (fins J1)\<lparr>ir_op2 := r\<rparr>\<rparr>"
    by (simp add: op2_kint64_def set_op2_def n)
  have nk: "nk J1 \<noteq> 0" using assms(2) by (simp add: e)
  note g = kint64_grown [OF _ _ n nk, simplified, OF R(1,2)]
  note a = grown_ref [OF R(1,2) g(1) opnd_int_ref [OF assms(4)]]
  have b: "\<not> bad_op (ir_o f)" using assms(10) by (auto simp: bad_op_def op_classes)
  have "ir_ok J1" using g(1) by (simp add: grown_def)
  then have "ins_typed J1 True (ir_o f) True (ir_op1 f) r"
    using assms g a opnd_kint64 [of J1 r] by (auto simp: ins_typed_def)
  then show ?thesis
    using assms(3,5,8,9,11-13) g R(3) a b
    by (simp add: e same_ins_def fins_ok_def finval_def finguard_def bad_shift_def guard_op_def)
qed

lemma op1_kint_retry:
  assumes "ready J" "nk (op1_kint 0 (J\<lparr>fins := f\<rparr>)) \<noteq> 0" "ir_t f = ft J"
    and "opnd J True (fw J) (ir_op2 f)" "ir_o f = IR_SUB" "val_op (fo J)" "\<not> ov_op (fo J)"
    and "agree (fw J) (apply_op (fw J) IR_SUB 0 (V \<rho> J (ir_op2 f))) (finval \<rho> J)"
  shows "fold_ok \<rho> J (op1_kint 0 (J\<lparr>fins := f\<rparr>), RETRYFOLD)"
proof -
  note R = readyD [OF assms(1)]
  obtain r J1 where n: "lj_ir_kint 0 (J\<lparr>fins := f\<rparr>) = (r, J1)" by force
  have e: "op1_kint 0 (J\<lparr>fins := f\<rparr>) = J1\<lparr>fins := (fins J1)\<lparr>ir_op1 := r\<rparr>\<rparr>"
    by (simp add: op1_kint_def set_op1_def n)
  have nk: "nk J1 \<noteq> 0" using assms(2) by (simp add: e)
  note g = kint_grown [OF _ _ n nk, simplified, OF R(1,2)]
  note a = grown_ref [OF R(1,2) g(1) opnd_int_ref [OF assms(4)]]
  have "ins_typed J1 True IR_SUB (fw J) r (ir_op2 f)"
    using assms g a opnd_kint [OF g(3)] by (simp add: ins_typed_def)
  then show ?thesis
    using assms(3-8) g R(3) a
    by (simp add: e same_ins_def fins_ok_def finval_def finguard_def bad_shift_def guard_op_def)
qed

lemma INT64FOLD_ok:
  assumes "ready J" "nk (fst (INT64FOLD k J)) \<noteq> 0" "fw J" "val_op (fo J)" "\<not> ov_op (fo J)" "k = finval \<rho> J"
  shows "fold_ok \<rho> J (INT64FOLD k J)"
proof -
  note R = readyD [OF assms(1)]
  obtain r J1 where n: "lj_ir_kint64 k J = (r, J1)" by force
  have e: "INT64FOLD k J = (J1, FoldRef r)" by (simp add: INT64FOLD_def n)
  have nk: "nk J1 \<noteq> 0" using assms(2) by (simp add: e)
  note g = kint64_grown [OF R(1,2) n nk]
  have "ir_ok J1" using g(1) by (simp add: grown_def)
  then show ?thesis
    using g assms(3-6) opnd_kint64 [of J1 r] unfolding e by (simp add: res_ref_def)
qed

end
