(* ===== verification/LjFoldKrules.thy ===== *)
theory LjFoldKrules
  imports LjFoldOps
begin

text \<open>
  Facts on powers of two, shifts and rotations, and the soundness of the constant folding rules and
  of the differences with a constant, which intern a new one.
\<close>

section \<open>Powers of two, shifts and rotations\<close>

lemma power2_word:
  assumes "k \<noteq> 0" "k AND (k - 1) = 0"
  shows "k = push_bit (lj_fls k) 1" "lj_fls k < 32"
proof -
  let ?n = "lj_fls k"
  have u: "2 ^ ?n \<le> unat k" "unat k < 2 ^ Suc ?n"
    using assms(1) flsn_lower [of "unat k"] flsn_upper [of "unat k"] by (simp_all add: lj_fls_def unat_gt_0)
  have bound: "unat k < 2 ^ Suc 31" using unsigned_less [of k] by simp
  show n: "?n < 32" using flsn_le [OF bound] by (simp add: lj_fls_def)
  have b: "bit x ?n" if "2 ^ ?n \<le> unat x" "unat x < 2 ^ Suc ?n" for x :: u32
  proof -
    have "unat x div 2 ^ ?n = 1" using that by (simp add: div_nat_eqI)
    then have "bit (unat x) ?n" by (simp add: bit_iff_odd)
    then show ?thesis by (simp add: bit_unsigned_iff)
  qed
  have k1: "unat (k - 1) = unat k - 1" using assms(1) by (simp add: unat_minus_one)
  have "unat k = 2 ^ ?n"
  proof (rule ccontr)
    assume "unat k \<noteq> 2 ^ ?n"
    then have "2 ^ ?n \<le> unat (k - 1)" "unat (k - 1) < 2 ^ Suc ?n" using u by (simp_all add: k1)
    then have "bit (k AND (k - 1)) ?n" using b u by (simp add: bit_and_iff)
    then show False using assms(2) by simp
  qed
  moreover have "unat (push_bit ?n (1::u32)) = 2 ^ ?n"
  proof -
    have "(2::nat) ^ ?n < 2 ^ 32" using n by (intro power_strict_increasing) simp_all
    then have "unat (push_bit ?n (1::u32)) = take_bit 32 (2 ^ ?n)"
      by (simp only: unsigned_push_bit_eq) (simp add: push_bit_eq_mult)
    then show ?thesis using n \<open>2 ^ ?n < 2 ^ 32\<close> by (simp add: take_bit_nat_eq_self)
  qed
  ultimately show "k = push_bit ?n 1" by (simp add: word_unat_eq_iff)
qed

lemma word_take_bit_sint: "m \<le> LENGTH('a) \<Longrightarrow> word_of_int (take_bit m (sint a)) = take_bit m (a::'a::len word)"
  by (rule bit_word_eqI) (auto simp: bit_take_bit_iff bit_sint_iff bit_word_of_int_iff)

lemma rotr_rotl: "0 < n \<Longrightarrow> n < LENGTH('a) \<Longrightarrow> word_rotr n x = word_rotl (LENGTH('a) - n) (x::'a::len word)"
  by (simp add: word_rotl_eq_word_rotr)

lemma rotl_rotl: "word_rotl m (word_rotl n x) = word_rotl (m + n) (x::'a::len word)"
proof -
  have "word_rotl m (word_rotl n x) = word_reverse (word_rotr m (word_rotr n (word_reverse x)))"
    by (simp add: word_rotl_rev)
  then show ?thesis by (simp add: word_rotr_word_rotr_eq word_rotl_rev [of "m + n"])
qed

lemma rot_mod: "word_rotl (n mod LENGTH('a)) x = word_rotl n (x::'a::len word)"
  "word_rotr (n mod LENGTH('a)) x = word_rotr n (x::'a::len word)"
  by (rule bit_word_eqI; simp add: bit_word_rotl_iff bit_word_rotr_iff mod_add_right_eq)+

lemma sar_sar: "signed_drop_bit m (signed_drop_bit n x) = signed_drop_bit (m + n) (x::'a::len word)"
  by (simp add: add.commute)

lemma sar_big: "LENGTH('a) - 1 \<le> n \<Longrightarrow> signed_drop_bit n x = signed_drop_bit (LENGTH('a) - 1) (x::'a::len word)"
proof (rule bit_word_eqI)
  fix i assume a: "LENGTH('a) - 1 \<le> n" "i < LENGTH('a)"
  show "bit (signed_drop_bit n x) i = bit (signed_drop_bit (LENGTH('a) - 1) x) i"
  proof (cases "i = 0")
    case True
    then show ?thesis using a by (cases "n = LENGTH('a) - 1") (auto simp: bit_signed_drop_bit_iff)
  next
    case False
    then have "LENGTH('a) \<le> i + n" "LENGTH('a) \<le> i + (LENGTH('a) - 1)" using a by linarith+
    then show ?thesis using a(2) False by (auto simp: bit_signed_drop_bit_iff)
  qed
qed

lemma drop_big: "LENGTH('a) \<le> n \<Longrightarrow> drop_bit n x = 0" "LENGTH('a) \<le> n \<Longrightarrow> push_bit n x = 0" for x :: "'a::len word"
  by (rule bit_word_eqI; auto simp: bit_simps dest: bit_imp_le_length)+

definition shf :: "irop \<Rightarrow> nat \<Rightarrow> 'a::len word \<Rightarrow> 'a word" where
  "shf p n x = (if p = IR_BSHL then push_bit n x else if p = IR_BSHR then drop_bit n x
     else if p = IR_BSAR then signed_drop_bit n x else if p = IR_BROL then word_rotl n x else word_rotr n x)"

lemma irsem_shf: "shift_op p \<Longrightarrow> irsem32 p a b = shf p (unat b mod 32) a"
  "shift_op p \<Longrightarrow> irsem64 p c d = shf p (unat d mod 64) c"
  by (auto simp: shift_op_def shf_def irsem32_def irsem64_def irsem_def ir_ops)

lemma shf_shf:
  assumes "shift_op p" "m < LENGTH('a)" "n < LENGTH('a)"
  shows "shf p m (shf p n (x::'a::len word)) =
    (if m + n < LENGTH('a) then shf p (m + n) x
     else if p = IR_BSHL \<or> p = IR_BSHR then 0
     else if p = IR_BSAR then shf p (LENGTH('a) - 1) x else shf p ((m + n) mod LENGTH('a)) x)"
proof -
  consider "p = IR_BSHL" | "p = IR_BSHR" | "p = IR_BSAR" | "p = IR_BROL" | "p = IR_BROR"
    using assms(1) by (auto simp: shift_op_def)
  then show ?thesis
    by cases (simp_all add: shf_def ir_ops rotl_rotl word_rotr_word_rotr_eq rot_mod drop_big sar_big [of "m + n"] ac_simps)
qed

section \<open>Constant folding\<close>

lemma intarith_ok:
  assumes "ready J" "val_op (fo J)" "\<not> unary_op (fo J)" "\<not> ov_op (fo J)"
    and "ir_o (fl J) = IR_KINT" "ir_o (fr J) = IR_KINT"
  shows "fold_ok \<rho> J (kfold_intarith J)"
proof -
  note R = readyD [OF assms(1)]
  note l = left_kint [OF assms(1,5)] and r = right_kint [OF assms(1,3,6)]
  have z: "irsem64 (fo J) 0 (ucast (ir_i (fr J))) = 0 \<and> irsem32 (fo J) 0 (ir_i (fr J)) = 0"
    if "fw J"
  proof (cases "shift_op (fo J)")
    case True
    then show ?thesis by (auto simp: shift_op_def)
  next
    case False
    then have "zop (fo J)" "ir_i (fr J) = 0" using r(3) [OF that] by simp_all
    then show ?thesis by (auto simp: zop_def)
  qed
  have "fo J = IR_MOD \<Longrightarrow> ir_i (fr J) \<noteq> 0"
    using R(5) r(1) right_load(1) [OF assms(1,3)] by (simp add: ins_typed_def)
  then have k: "kfold_intop (ir_i (fl J)) (ir_i (fr J)) (fo J) = irsem32 (fo J) (ir_i (fl J)) (ir_i (fr J))"
    using assms(2-4) by (intro kfold_intop_sem)
  have e: "kfold_intarith J = (J\<lparr>fins := (fins J)\<lparr>ir_i := irsem32 (fo J) (ir_i (fl J)) (ir_i (fr J))\<rparr>\<rparr>, KINTFOLD)"
    unfolding kfold_intarith_def INTFOLD_def k ..
  show ?thesis
  proof (cases "fw J")
    case True
    then show ?thesis using l r(2) z [OF True] assms(2,4) unfolding e by (simp add: finval_def sem_simps)
  next
    case False
    then show ?thesis using l r(2) assms(2,4) unfolding e by (simp add: finval_def sem_simps)
  qed
qed

lemma intovarith_ok:
  assumes "ready J" "fo J = p" "p = IR_ADDOV \<or> p = IR_SUBOV \<or> p = IR_MULOV" "ir_o (fl J) = IR_KINT" "ir_o (fr J) = IR_KINT"
  shows "fold_ok \<rho> J (kfold_intovarith J)"
proof -
  have w: "\<not> fw J" "\<not> unary_op (fo J)" using readyD(5) [OF assms(1)] assms(2,3) by (auto simp: ins_typed_def)
  note k = left_kint [OF assms(1,4)] right_kint [OF assms(1) w(2) assms(5)]
  have i: "(n < - (2 ^ 31) \<or> 2 ^ 31 \<le> n) \<longleftrightarrow> \<not> in_sint TYPE(32) n" for n
    by (auto simp: in_sint_def)
  have n: "IR_SUBOV \<noteq> IR_ADDOV" "IR_MULOV \<noteq> IR_ADDOV" "IR_MULOV \<noteq> IR_SUBOV" by (simp_all add: ir_ops)
  show ?thesis
    using assms(2,3) w k n unfolding kfold_intovarith_def INTFOLD_def i Let_def
    by (auto simp: finval_def finguard_def sem_simps wi_hom_syms)
qed
lemma bnot_ok:
  assumes "ready J" "fo J = IR_BNOT" "ir_o (fl J) = IR_KINT"
  shows "fold_ok \<rho> J (kfold_bnot J)"
  using left_kint [OF assms(1,3)] assms(2) readyD(5) [OF assms(1)]
  by (cases "fw J") (auto simp: kfold_bnot_def INTFOLD_def finval_def sem_simps)

lemma bswap_ok:
  assumes "ready J" "fo J = IR_BSWAP" "ir_o (fl J) = IR_KINT"
  shows "fold_ok \<rho> J (kfold_bswap J)"
  using left_kint [OF assms(1,3)] assms(2) readyD(5) [OF assms(1)]
  by (cases "fw J") (auto simp: kfold_bswap_def INTFOLD_def finval_def sem_simps)

lemma kfold_intcomp_eval:
  "fo J = IR_LT \<Longrightarrow> kfold_intcomp J = (J, CONDFOLD (ir_i (fl J) <s ir_i (fr J)))"
  "fo J = IR_GE \<Longrightarrow> kfold_intcomp J = (J, CONDFOLD (ir_i (fr J) \<le>s ir_i (fl J)))"
  "fo J = IR_LE \<Longrightarrow> kfold_intcomp J = (J, CONDFOLD (ir_i (fl J) \<le>s ir_i (fr J)))"
  "fo J = IR_GT \<Longrightarrow> kfold_intcomp J = (J, CONDFOLD (ir_i (fr J) <s ir_i (fl J)))"
  "fo J = IR_ULT \<Longrightarrow> kfold_intcomp J = (J, CONDFOLD (ir_i (fl J) < ir_i (fr J)))"
  "fo J = IR_UGE \<Longrightarrow> kfold_intcomp J = (J, CONDFOLD (ir_i (fl J) \<ge> ir_i (fr J)))"
  "fo J = IR_ULE \<Longrightarrow> kfold_intcomp J = (J, CONDFOLD (ir_i (fl J) \<le> ir_i (fr J)))"
  "fo J = IR_UGT \<Longrightarrow> kfold_intcomp J = (J, CONDFOLD (ir_i (fl J) > ir_i (fr J)))"
  by (simp_all add: kfold_intcomp_def ir_ops)

lemma intcomp_ok:
  assumes "ready J" "fo J = p" "p = IR_LT \<or> p = IR_GE \<or> p = IR_LE \<or> p = IR_GT \<or> p = IR_ULT \<or> p = IR_UGE \<or> p = IR_ULE \<or> p = IR_UGT"
    and "ir_o (fl J) = IR_KINT" "ir_o (fr J) = IR_KINT"
  shows "fold_ok \<rho> J (kfold_intcomp J)"
proof -
  have nu: "\<not> unary_op (fo J)" using assms(2,3) by auto
  have w: "\<not> fw J" using left_kint(3) [OF assms(1,4)] assms(2,3) by auto
  note k = w left_kint(2) [OF assms(1,4)] right_kint(2) [OF assms(1) nu assms(5)]
  show ?thesis
    using assms(3)
    by (elim disjE; use k assms(2) in \<open>simp add: kfold_intcomp_eval CONDFOLD_def finguard_def
      sem_simps word_sless_alt word_sle_eq\<close>)
qed

lemma kfold_int64comp_eval:
  "fo J = IR_LT \<Longrightarrow> kfold_int64comp J = (J, CONDFOLD (fl64 J <s fr64 J))"
  "fo J = IR_GE \<Longrightarrow> kfold_int64comp J = (J, CONDFOLD (fr64 J \<le>s fl64 J))"
  "fo J = IR_LE \<Longrightarrow> kfold_int64comp J = (J, CONDFOLD (fl64 J \<le>s fr64 J))"
  "fo J = IR_GT \<Longrightarrow> kfold_int64comp J = (J, CONDFOLD (fr64 J <s fl64 J))"
  "fo J = IR_ULT \<Longrightarrow> kfold_int64comp J = (J, CONDFOLD (fl64 J < fr64 J))"
  "fo J = IR_UGE \<Longrightarrow> kfold_int64comp J = (J, CONDFOLD (fl64 J \<ge> fr64 J))"
  "fo J = IR_ULE \<Longrightarrow> kfold_int64comp J = (J, CONDFOLD (fl64 J \<le> fr64 J))"
  "fo J = IR_UGT \<Longrightarrow> kfold_int64comp J = (J, CONDFOLD (fl64 J > fr64 J))"
  by (simp_all add: kfold_int64comp_def ir_ops)

lemma int64comp_ok:
  assumes "ready J" "fo J = p" "p = IR_LT \<or> p = IR_GE \<or> p = IR_LE \<or> p = IR_GT \<or> p = IR_ULT \<or> p = IR_UGE \<or> p = IR_ULE \<or> p = IR_UGT"
    and "ir_o (fl J) = IR_KINT64" "ir_o (fr J) = IR_KINT64"
  shows "fold_ok \<rho> J (kfold_int64comp J)"
proof -
  have nu: "\<not> unary_op (fo J)" using assms(2,3) by auto
  note k = left_kint64(2,3) [OF assms(1,4)] right_kint64(2) [OF assms(1) nu assms(5)]
  show ?thesis
    using assms(3)
    by (elim disjE; use k assms(2) in \<open>simp add: kfold_int64comp_eval CONDFOLD_def finguard_def
      sem_simps word_sless_alt word_sle_eq\<close>)
qed

lemma int64op_simps [simp]:
  "kfold_int64op a b IR_ADD = a + b" "kfold_int64op a b IR_SUB = a - b" "kfold_int64op a b IR_MUL = a * b"
  "kfold_int64op a b IR_BAND = a AND b" "kfold_int64op a b IR_BOR = a OR b" "kfold_int64op a b IR_BXOR = a XOR b"
  by (simp_all add: kfold_int64op_def ir_ops)

lemma int64arith_ok:
  assumes "ready J" "fo J = p" "p = IR_ADD \<or> p = IR_SUB \<or> p = IR_MUL \<or> p = IR_BAND \<or> p = IR_BOR \<or> p = IR_BXOR"
    and "ir_o (fl J) = IR_KINT64" "ir_o (fr J) = IR_KINT64" "nk (fst (kfold_int64arith J)) \<noteq> 0"
  shows "fold_ok \<rho> J (kfold_int64arith J)"
proof -
  have nu: "\<not> unary_op (fo J)" "val_op (fo J)" "\<not> ov_op (fo J)" using assms(2,3) by auto
  note k = left_kint64 [OF assms(1,4)] right_kint64 [OF assms(1) nu(1) assms(5)]
  have "kfold_int64op (fl64 J) (fr64 J) (fo J) = finval \<rho> J"
    using assms(2,3) k by (auto simp: finval_def sem_simps)
  then show ?thesis
    using assms(1,6) k nu(2,3) unfolding kfold_int64arith_def by (intro INT64FOLD_ok)
qed

lemma int64shift_ok:
  assumes "ready J" "fo J = p" "p = IR_BSHL \<or> p = IR_BSHR \<or> p = IR_BSAR \<or> p = IR_BROL \<or> p = IR_BROR"
    and "ir_o (fl J) = IR_KINT64" "ir_o (fr J) = IR_KINT" "nk (fst (kfold_int64shift J)) \<noteq> 0"
  shows "fold_ok \<rho> J (kfold_int64shift J)"
proof -
  have nu: "\<not> unary_op (fo J)" "val_op (fo J)" "\<not> ov_op (fo J)" using assms(2,3) by auto
  note k = left_kint64 [OF assms(1,4)] right_kint [OF assms(1) nu(1) assms(5)]
  have d: "IR_BSHL - IR_BSHL = 0" "IR_BSHR - IR_BSHL = 1" "IR_BSAR - IR_BSHL = 2" "IR_BROL - IR_BSHL = 3"
    "IR_BROR - IR_BSHL = 4" "\<not> IR_BSHR \<le> IR_BSHL" "\<not> IR_BSAR \<le> IR_BSHL"
    "\<not> IR_BROL \<le> IR_BSHL" "\<not> IR_BROR \<le> IR_BSHL" by (simp_all add: ir_ops)
  have s: "unat (c AND 63) = unat c mod 64" "unat c mod 64 < 64" for c :: u32 by (simp_all add: shift_count63)
  have "c AND 63 AND 63 = c AND 63" for c :: u32 by (simp add: and.assoc)
  then have "lj_carith_shift64 (fl64 J) (ir_i (fr J) AND 63) (fo J - IR_BSHL) = finval \<rho> J"
    using assms(2,3) k s(2) [of "ir_i (fr J)"]
    by (auto simp: finval_def sem_simps d lj_carith_shift64_def lj_carith_shl64_def lj_carith_shr64_def
      lj_carith_sar64_def lj_carith_rol64_def lj_carith_ror64_def s(1) rol64_rotl ror64_rotr unat_ucast_u32)
  then show ?thesis
    using assms(1,6) k nu(2,3) unfolding kfold_int64shift_def Let_def by (intro INT64FOLD_ok)
qed

lemma bnot64_ok:
  assumes "ready J" "fo J = IR_BNOT" "ir_o (fl J) = IR_KINT64" "nk (fst (kfold_bnot64 J)) \<noteq> 0"
  shows "fold_ok \<rho> J (kfold_bnot64 J)"
  using left_kint64 [OF assms(1,3)] assms unfolding kfold_bnot64_def
  by (intro INT64FOLD_ok) (simp_all add: finval_def sem_simps)

lemma bswap64_ok:
  assumes "ready J" "fo J = IR_BSWAP" "ir_o (fl J) = IR_KINT64" "nk (fst (kfold_bswap64 J)) \<noteq> 0"
  shows "fold_ok \<rho> J (kfold_bswap64 J)"
  using left_kint64 [OF assms(1,3)] assms unfolding kfold_bswap64_def
  by (intro INT64FOLD_ok) (simp_all add: finval_def sem_simps)

text \<open>Constants are unique, so that they are equal if their references are.\<close>

lemma const_unique:
  assumes "ir_ok J" "is_kint J a \<and> is_kint J b \<or> is_kint64 J a \<and> is_kint64 J b"
  shows "V \<rho> J a = V \<rho> J b \<longleftrightarrow> a = b" "is_kint J a \<Longrightarrow> (ucast (V \<rho> J a) :: u32) = ucast (V \<rho> J b) \<longleftrightarrow> a = b"
proof -
  have d: "inj_on (const_key (irs J) op) (set (chain_list J op))" if "is_key_op op" for op
    using assms(1) that by (simp add: ir_ok_def distinct_map)
  have k: "is_key_op IR_KINT" "is_key_op IR_KINT64" "IR_KINT64 \<noteq> IR_KNULL" by (simp_all add: is_key_op_def ir_ops)
  have 1: "ir_i (irs J a) = ir_i (irs J b) \<longleftrightarrow> a = b" if "is_kint J a" "is_kint J b"
    using inj_onD [OF d [OF k(1)], of a b] that by (auto simp: is_kint_def const_key_def ucast_eq32)
  have 2: "ir_k64 (irs J) a = ir_k64 (irs J) b \<longleftrightarrow> a = b" if "is_kint64 J a" "is_kint64 J b"
    using inj_onD [OF d [OF k(2)], of a b] that k(3) by (auto simp: is_kint64_def const_key_def)
  note v = irval_kint [OF assms(1)] irval_kint64 [OF assms(1)] is_kintD(5) [OF assms(1)]
  show "V \<rho> J a = V \<rho> J b \<longleftrightarrow> a = b" using assms(2) 1 2 v by (auto simp: ucast_eq32)
  show "(ucast (V \<rho> J a) :: u32) = ucast (V \<rho> J b) \<longleftrightarrow> a = b" if "is_kint J a"
    using assms(2) 1 v that by auto
qed

lemma kref_ok:
  assumes "ready J" "fo J = IR_EQ \<or> fo J = IR_NE"
    and "ir_o (fl J) = IR_KINT \<and> ir_o (fr J) = IR_KINT \<or> ir_o (fl J) = IR_KINT64 \<and> ir_o (fr J) = IR_KINT64"
  shows "fold_ok \<rho> J (kfold_kref J)"
proof -
  have nu: "\<not> unary_op (fo J)" using assms(2) by auto
  have ne: "IR_NE \<noteq> IR_EQ" by (simp add: ir_ops)
  have c: "is_kint J (fop1 J) \<and> is_kint J (fop2 J) \<and> \<not> fw J \<or> is_kint64 J (fop1 J) \<and> is_kint64 J (fop2 J) \<and> fw J"
    using assms(2,3) left_kint [OF assms(1)] right_kint [OF assms(1) nu] left_kint64 [OF assms(1)]
      right_kint64 [OF assms(1) nu] by auto
  have "finguard \<rho> J \<longleftrightarrow> (fop1 J = fop2 J) \<noteq> (fo J = IR_NE)"
    using const_unique [OF readyD(1) [OF assms(1)], of "fop1 J" "fop2 J" \<rho>] assms(2) c
    by (auto simp: finguard_def sem_simps ne)
  then show ?thesis using assms(2) by (auto simp: kfold_kref_def CONDFOLD_def)
qed

section \<open>New constants for sums, products and masks\<close>

lemma set_o_fins: "set_o p J = J\<lparr>fins := (fins J)\<lparr>ir_o := p\<rparr>\<rparr>" "set_op1 r J = J\<lparr>fins := (fins J)\<lparr>ir_op1 := r\<rparr>\<rparr>"
  "set_op2 r J = J\<lparr>fins := (fins J)\<lparr>ir_op2 := r\<rparr>\<rparr>"
  by (simp_all add: fold_helper_defs)

lemma intsub_k_ok:
  assumes "ready J" "fo J = IR_SUB" "ir_o (fr J) = IR_KINT" "nk (fst (simplify_intsub_k J)) \<noteq> 0"
  shows "fold_ok \<rho> J (simplify_intsub_k J)"
proof (cases "ir_i (fr J) = 0")
  case True
  then show ?thesis
    using right_kint [OF assms(1) _ assms(3)] readyD [OF assms(1)] assms(2)
    by (cases "fw J") (auto simp: simplify_intsub_k_def rule_defs ins_typed_def sem_simps grown_refl)
next
  case False
  have w: "\<not> fw J" "V \<rho> J (fop2 J) = ucast (ir_i (fr J))"
    using right_kint [OF assms(1) _ assms(3)] assms(2) False by auto
  have "opnd J True (fw J) (fop1 J)" using readyD(6) [OF assms(1)] by auto
  then show ?thesis
    using False assms(1,2,4) w unfolding simplify_intsub_k_def set_o_fins
    by (simp del: fold_ok_simps) (intro op2_kint_retry; simp add: finval_def finguard_def sem_simps)
qed

lemma intsub_k64_ok:
  assumes "ready J" "fo J = IR_SUB" "ir_o (fr J) = IR_KINT64" "nk (fst (simplify_intsub_k64 J)) \<noteq> 0"
  shows "fold_ok \<rho> J (simplify_intsub_k64 J)"
proof (cases "fr64 J = 0")
  case True
  then show ?thesis
    using right_kint64 [OF assms(1) _ assms(3)] readyD [OF assms(1)] assms(2)
    by (auto simp: simplify_intsub_k64_def rule_defs ins_typed_def sem_simps grown_refl)
next
  case False
  have w: "fw J" "V \<rho> J (fop2 J) = fr64 J"
    using right_kint64 [OF assms(1) _ assms(3)] assms(2) by auto
  have "opnd J True (fw J) (fop1 J)" using readyD(6) [OF assms(1)] by auto
  then show ?thesis
    using False assms(1,2,4) w unfolding simplify_intsub_k64_def set_o_fins
    by (simp del: fold_ok_simps) (intro op2_kint64_retry; simp add: finval_def sem_simps)
qed

end
