(* ===== verification/LjFoldRules.thy ===== *)
theory LjFoldRules
  imports LjFoldKrules
begin

text \<open>
  Every rule of the folding engine is sound: the result it gives, or the instruction it gives to the
  next try, has the value of the candidate instruction, and a guard is only dropped when it holds and
  only reported as failing when it fails.
\<close>

section \<open>Negation and cancellation\<close>

lemma leftleft_ok:
  assumes "ready J" "fo J = p" "ir_o (fl J) = p" "p = IR_NEG \<or> p = IR_BNOT \<or> p = IR_BSWAP"
  shows "fold_ok \<rho> J (shortcut_leftleft J)"
  using left_ins [OF assms(1)] readyD [OF assms(1)] assms(2-)
  by (cases "fw J") (auto simp: shortcut_leftleft_def rule_defs ins_typed_def sem_simps grown_refl)

lemma add_negx_ok:
  assumes "ready J" "fo J = IR_ADD" "ir_o (fl J) = IR_NEG"
  shows "fold_ok \<rho> J (simplify_numadd_negx J)"
  using left_ins [OF assms(1)] readyD [OF assms(1)] assms(2-)
  by (cases "fw J") (auto simp: simplify_numadd_negx_def rule_defs ins_typed_def sem_simps grown_refl)

lemma add_xneg_ok:
  assumes "ready J" "fo J = IR_ADD" "ir_o (fr J) = IR_NEG"
  shows "fold_ok \<rho> J (simplify_numadd_xneg J)"
  using right_ins [OF assms(1)] readyD [OF assms(1)] assms(2-)
  by (cases "fw J") (auto simp: simplify_numadd_xneg_def rule_defs ins_typed_def sem_simps grown_refl)

lemma sub_xneg_ok:
  assumes "ready J" "fo J = IR_SUB" "ir_o (fr J) = IR_NEG"
  shows "fold_ok \<rho> J (simplify_numsub_xneg J)"
  using right_ins [OF assms(1)] readyD [OF assms(1)] assms(2-)
  by (cases "fw J") (auto simp: simplify_numsub_xneg_def rule_defs ins_typed_def sem_simps grown_refl)

lemma mul_negneg_ok:
  assumes "ready J" "fo J = IR_MUL" "ir_o (fl J) = IR_NEG" "ir_o (fr J) = IR_NEG"
  shows "fold_ok \<rho> J (simplify_nummuldiv_negneg J)"
  using left_ins [OF assms(1)] right_ins [OF assms(1)] readyD [OF assms(1)] assms(2-)
  by (cases "fw J") (auto simp: simplify_nummuldiv_negneg_def rule_defs ins_typed_def sem_simps grown_refl)

lemma subadd_left_ok:
  assumes "ready J" "fo J = IR_SUB" "ir_o (fl J) = IR_ADD"
  shows "fold_ok \<rho> J (simplify_intsubadd_leftcancel J)"
  using left_ins [OF assms(1)] readyD [OF assms(1)] assms(2-)
  by (cases "fw J") (auto simp: simplify_intsubadd_leftcancel_def rule_defs ins_typed_def sem_simps grown_refl)

lemma subsub_right_ok:
  assumes "ready J" "fo J = IR_SUB" "ir_o (fr J) = IR_SUB"
  shows "fold_ok \<rho> J (simplify_intsubsub_rightcancel J)"
  using right_ins [OF assms(1)] readyD [OF assms(1)] assms(2-)
  by (cases "fw J") (auto simp: simplify_intsubsub_rightcancel_def rule_defs ins_typed_def sem_simps grown_refl)

lemma subaddadd_ok:
  assumes "ready J" "fo J = IR_SUB" "ir_o (fl J) = IR_ADD" "ir_o (fr J) = IR_ADD"
  shows "fold_ok \<rho> J (simplify_intsubaddadd_cancel J)"
  using left_ins [OF assms(1)] right_ins [OF assms(1)] readyD [OF assms(1)] assms(2-)
  by (cases "fw J") (auto simp: simplify_intsubaddadd_cancel_def rule_defs ins_typed_def sem_simps grown_refl)

section \<open>Simplification with a constant\<close>

lemma intadd_k_ok:
  assumes "ready J" "fo J = p" "p = IR_ADD \<or> p = IR_ADDOV \<or> p = IR_SUBOV" "ir_o (fr J) = IR_KINT"
  shows "fold_ok \<rho> J (simplify_intadd_k J)"
  using right_kint [OF assms(1)] readyD [OF assms(1)] assms(2-)
  by (cases "fw J") (auto simp: simplify_intadd_k_def rule_defs ins_typed_def sem_simps grown_refl)

lemma intmulov_k_ok:
  assumes "ready J" "fo J = IR_MULOV" "ir_o (fr J) = IR_KINT"
  shows "fold_ok \<rho> J (simplify_intmulov_k J)"
  using right_kint [OF assms(1)] readyD [OF assms(1)] assms(2-)
  by (cases "fw J") (auto simp: simplify_intmulov_k_def rule_defs ins_typed_def sem_simps grown_refl mult.commute)

lemma intadd_k64_ok:
  assumes "ready J" "fo J = IR_ADD" "ir_o (fr J) = IR_KINT64"
  shows "fold_ok \<rho> J (simplify_intadd_k64 J)"
  using right_kint64 [OF assms(1)] readyD [OF assms(1)] assms(2-)
  by (cases "fw J") (auto simp: simplify_intadd_k64_def rule_defs ins_typed_def sem_simps grown_refl)

lemma intmod_kleft_ok:
  assumes "ready J" "fo J = IR_MOD" "ir_o (fl J) = IR_KINT"
  shows "fold_ok \<rho> J (simplify_intmod_kleft J)"
  using left_kint [OF assms(1)] readyD [OF assms(1)] assms(2-)
  by (cases "fw J") (auto simp: simplify_intmod_kleft_def rule_defs ins_typed_def sem_simps grown_refl)

lemma band_k_ok:
  assumes "ready J" "fo J = IR_BAND" "ir_o (fr J) = IR_KINT \<or> ir_o (fr J) = IR_KINT64"
  shows "fold_ok \<rho> J (simplify_band_k J)"
  using right_kint [OF assms(1)] right_kint64 [OF assms(1)] readyD [OF assms(1)] assms(2-)
  by (cases "fw J") (auto simp: simplify_band_k_def rule_defs ins_typed_def sem_simps grown_refl)

lemma bor_k_ok:
  assumes "ready J" "fo J = IR_BOR" "ir_o (fr J) = IR_KINT \<or> ir_o (fr J) = IR_KINT64"
  shows "fold_ok \<rho> J (simplify_bor_k J)"
  using right_kint [OF assms(1)] right_kint64 [OF assms(1)] readyD [OF assms(1)] assms(2-)
  by (cases "fw J") (auto simp: simplify_bor_k_def rule_defs ins_typed_def sem_simps grown_refl)

lemma bxor_k_ok:
  assumes "ready J" "fo J = IR_BXOR" "ir_o (fr J) = IR_KINT \<or> ir_o (fr J) = IR_KINT64"
  shows "fold_ok \<rho> J (simplify_bxor_k J)"
  using right_kint [OF assms(1)] right_kint64 [OF assms(1)] readyD [OF assms(1)] assms(2-)
  by (cases "fw J") (auto simp: simplify_bxor_k_def rule_defs ins_typed_def sem_simps grown_refl)

lemma intsub_kleft_ok:
  assumes "ready J" "fo J = IR_SUB" "ir_o (fl J) = IR_KINT \<or> ir_o (fl J) = IR_KINT64" "opnd J False (fw J) (fop2 J)"
  shows "fold_ok \<rho> J (simplify_intsub_kleft J)"
  using left_kint [OF assms(1)] left_kint64 [OF assms(1)] readyD [OF assms(1)] assms(2-)
  by (cases "fw J") (auto simp: simplify_intsub_kleft_def rule_defs ins_typed_def sem_simps grown_refl)

lemma shift1_ki_ok:
  assumes "ready J" "fo J = p" "p = IR_BSHL \<or> p = IR_BSHR" "ir_o (fl J) = IR_KINT \<or> ir_o (fl J) = IR_KINT64"
  shows "fold_ok \<rho> J (simplify_shift1_ki J)"
  using left_kint [OF assms(1)] left_kint64 [OF assms(1)] readyD [OF assms(1)] assms(2-)
  by (cases "fw J") (auto simp: simplify_shift1_ki_def rule_defs ins_typed_def sem_simps grown_refl)

lemma shift2_ki_ok:
  assumes "ready J" "fo J = p" "p = IR_BSAR \<or> p = IR_BROL \<or> p = IR_BROR" "ir_o (fl J) = IR_KINT \<or> ir_o (fl J) = IR_KINT64"
  shows "fold_ok \<rho> J (simplify_shift2_ki J)"
  using left_kint [OF assms(1)] left_kint64 [OF assms(1)] readyD [OF assms(1)] assms(2-)
  by (cases "fw J") (auto simp: simplify_shift2_ki_def rule_defs ins_typed_def sem_simps grown_refl)

lemma intcomp0_ok:
  assumes "ready J" "fo J = IR_UGE" "ir_o (fr J) = IR_KINT"
  shows "fold_ok \<rho> J (kfold_intcomp0 J)"
  using right_kint [OF assms(1)] readyD [OF assms(1)] assms(2-)
  by (cases "fw J") (auto simp: kfold_intcomp0_def rule_defs ins_typed_def sem_simps grown_refl)

lemma int64comp0_ok:
  assumes "ready J" "fo J = IR_UGE" "ir_o (fr J) = IR_KINT64"
  shows "fold_ok \<rho> J (kfold_int64comp0 J)"
  using right_kint64 [OF assms(1)] readyD [OF assms(1)] assms(2-)
  by (cases "fw J") (auto simp: kfold_int64comp0_def rule_defs ins_typed_def sem_simps grown_refl)

section \<open>Equal operands and operand order\<close>

lemma comm_swap_ok:
  assumes "ready J" "fo J = p" "p = IR_ADD \<or> p = IR_MUL \<or> p = IR_ADDOV \<or> p = IR_MULOV"
  shows "fold_ok \<rho> J (comm_swap J)"
  using readyD [OF assms(1)] assms(2-)
  by (cases "fw J") (auto simp: comm_swap_def rule_defs ins_typed_def sem_simps grown_refl ac_simps)

lemma comm_equal_ok:
  assumes "ready J" "fo J = p" "p = IR_EQ \<or> p = IR_NE"
  shows "fold_ok \<rho> J (comm_equal J)"
  using readyD [OF assms(1)] assms(2-)
  by (cases "fw J") (auto simp: comm_equal_def rule_defs ins_typed_def sem_simps grown_refl comm_swap_def)

lemma swapped_op: "IR_LT XOR 3 = IR_GT" "IR_GT XOR 3 = IR_LT" "IR_GE XOR 3 = IR_LE" "IR_LE XOR 3 = IR_GE"
  "IR_ULT XOR 3 = IR_UGT" "IR_UGT XOR 3 = IR_ULT" "IR_UGE XOR 3 = IR_ULE" "IR_ULE XOR 3 = IR_UGE"
  by (simp_all add: ir_ops)

lemma dup_result: "(IR_LT XOR drop_bit 1 IR_LT) AND 1 = 0" "(IR_GT XOR drop_bit 1 IR_GT) AND 1 = 0"
  "((IR_GE XOR drop_bit 1 IR_GE) AND 1 = 0) = False" "((IR_LE XOR drop_bit 1 IR_LE) AND 1 = 0) = False"
  "(IR_ULT XOR drop_bit 1 IR_ULT) AND 1 = 0" "(IR_UGT XOR drop_bit 1 IR_UGT) AND 1 = 0"
  "((IR_UGE XOR drop_bit 1 IR_UGE) AND 1 = 0) = False" "((IR_ULE XOR drop_bit 1 IR_ULE) AND 1 = 0) = False"
  by (simp_all add: ir_ops)

lemma comm_comp_eval:
  "fo J = IR_LT \<Longrightarrow> comm_comp J = (if fop1 J = fop2 J \<and> \<not> irt_isnum (ft J) then (J, CONDFOLD False)
     else if fop1 J < fop2 J then (set_o IR_GT (swap_ops J), RETRYFOLD) else (J, NEXTFOLD))"
  "fo J = IR_GT \<Longrightarrow> comm_comp J = (if fop1 J = fop2 J \<and> \<not> irt_isnum (ft J) then (J, CONDFOLD False)
     else if fop1 J < fop2 J then (set_o IR_LT (swap_ops J), RETRYFOLD) else (J, NEXTFOLD))"
  "fo J = IR_GE \<Longrightarrow> comm_comp J = (if fop1 J = fop2 J \<and> \<not> irt_isnum (ft J) then (J, CONDFOLD True)
     else if fop1 J < fop2 J then (set_o IR_LE (swap_ops J), RETRYFOLD) else (J, NEXTFOLD))"
  "fo J = IR_LE \<Longrightarrow> comm_comp J = (if fop1 J = fop2 J \<and> \<not> irt_isnum (ft J) then (J, CONDFOLD True)
     else if fop1 J < fop2 J then (set_o IR_GE (swap_ops J), RETRYFOLD) else (J, NEXTFOLD))"
  "fo J = IR_ULT \<Longrightarrow> comm_comp J = (if fop1 J = fop2 J \<and> \<not> irt_isnum (ft J) then (J, CONDFOLD False)
     else if fop1 J < fop2 J then (set_o IR_UGT (swap_ops J), RETRYFOLD) else (J, NEXTFOLD))"
  "fo J = IR_UGT \<Longrightarrow> comm_comp J = (if fop1 J = fop2 J \<and> \<not> irt_isnum (ft J) then (J, CONDFOLD False)
     else if fop1 J < fop2 J then (set_o IR_ULT (swap_ops J), RETRYFOLD) else (J, NEXTFOLD))"
  "fo J = IR_UGE \<Longrightarrow> comm_comp J = (if fop1 J = fop2 J \<and> \<not> irt_isnum (ft J) then (J, CONDFOLD True)
     else if fop1 J < fop2 J then (set_o IR_ULE (swap_ops J), RETRYFOLD) else (J, NEXTFOLD))"
  "fo J = IR_ULE \<Longrightarrow> comm_comp J = (if fop1 J = fop2 J \<and> \<not> irt_isnum (ft J) then (J, CONDFOLD True)
     else if fop1 J < fop2 J then (set_o IR_UGE (swap_ops J), RETRYFOLD) else (J, NEXTFOLD))"
  by (simp_all only: comm_comp_def swapped_op dup_result simp_thms)

lemma comm_comp_ok:
  assumes "ready J" "fo J = p" "p = IR_LT \<or> p = IR_GE \<or> p = IR_LE \<or> p = IR_GT \<or> p = IR_ULT \<or> p = IR_UGE \<or> p = IR_ULE \<or> p = IR_UGT"
  shows "fold_ok \<rho> J (comm_comp J)"
  using readyD(1,2,3,5) [OF assms(1)] assms(2-)
  by (elim disjE; cases "fw J"; simp add: comm_comp_eval rule_defs ins_typed_def sem_simps grown_refl)

lemma comm_dup_ok:
  assumes "ready J" "fo J = p" "p = IR_BAND \<or> p = IR_BOR"
  shows "fold_ok \<rho> J (comm_dup J)"
  using readyD [OF assms(1)] assms(2-)
  by (cases "fw J") (auto simp: comm_dup_def rule_defs ins_typed_def sem_simps grown_refl comm_swap_def ac_simps)

lemma comm_dup_minmax_ok:
  assumes "ready J" "fo J = p" "p = IR_MIN \<or> p = IR_MAX"
  shows "fold_ok \<rho> J (comm_dup_minmax J)"
  using readyD [OF assms(1)] assms(2-)
  by (cases "fw J") (auto simp: comm_dup_minmax_def rule_defs ins_typed_def sem_simps grown_refl comm_swap_def)

lemma reassoc_dup_ok:
  assumes "ready J" "fo J = p" "ir_o (fl J) = p" "p = IR_BAND \<or> p = IR_BOR"
  shows "fold_ok \<rho> J (reassoc_dup J)"
  using left_ins [OF assms(1)] readyD [OF assms(1)] assms(2-)
  by (cases "fw J") (auto simp: reassoc_dup_def rule_defs ins_typed_def sem_simps grown_refl ac_simps)

lemma reassoc_dup_minmax_ok:
  assumes "ready J" "fo J = p" "ir_o (fl J) = p" "p = IR_MIN \<or> p = IR_MAX"
  shows "fold_ok \<rho> J (reassoc_dup_minmax J)"
  using left_ins [OF assms(1)] readyD [OF assms(1)] assms(2-)
  by (cases "fw J") (auto simp: reassoc_dup_minmax_def rule_defs ins_typed_def sem_simps grown_refl)

lemma reassoc_bxor_ok:
  assumes "ready J" "fo J = IR_BXOR" "ir_o (fl J) = IR_BXOR"
  shows "fold_ok \<rho> J (reassoc_bxor J)"
  using left_ins [OF assms(1)] readyD [OF assms(1)] assms(2-)
  by (cases "fw J") (auto simp: reassoc_bxor_def rule_defs ins_typed_def sem_simps grown_refl ac_simps)

lemma count_low:
  assumes "k AND mask m = mask m" "m \<le> 32"
  shows "take_bit m (ucast (ucast (y::u64) AND (k::u32)) :: u64) = take_bit m y"
    "take_bit m (x AND (k::u32)) = take_bit m x"
proof -
  have k: "bit k n" if "n < m" for n
  proof -
    have "bit (k AND mask m) n" unfolding assms(1) using that assms(2) by (simp add: bit_mask_iff)
    then show ?thesis by (simp add: bit_and_iff)
  qed
  show "take_bit m (ucast (ucast (y::u64) AND (k::u32)) :: u64) = take_bit m y"
    using k assms(2) by (intro bit_word_eqI) (auto simp: bit_simps)
  show "take_bit m (x AND (k::u32)) = take_bit m x"
    using k by (intro bit_word_eqI) (auto simp: bit_simps)
qed

lemma unat_mod_take: "unat (a::'a::len word) mod 2 ^ m = unat (take_bit m a)"
  by (simp only: unsigned_take_bit_eq) (simp add: take_bit_eq_mod)

lemma count_and63: 
  assumes "k AND 63 = 63" shows "unat (ucast (ucast (y::u64) AND (k::u32)) :: u64) mod 64 = unat y mod 64"
  using arg_cong [where f = unat, OF count_low(1) [of k 6 y]] assms
  unfolding unat_mod_take [symmetric] by (simp add: mask_eq_exp_minus_1)

lemma count_and31: 
  assumes "k AND 31 = 31" shows "unat (x AND (k::u32)) mod 32 = unat x mod 32"
  using arg_cong [where f = unat, OF count_low(2) [of k 5 x]] assms
  unfolding unat_mod_take [symmetric] by (simp add: mask_eq_exp_minus_1)
lemma shift_andk_ok:
  assumes "ready J" "shift_op (fo J)" "ir_o (fr J) = IR_BAND"
  shows "fold_ok \<rho> J (simplify_shift_andk J)"
proof (cases "irt_isphi (ir_t (fr J))")
  case True
  then show ?thesis by (simp add: simplify_shift_andk_def PHIBARRIER_def)
next
  case phi: False
  let ?k = "irs J (ir_op2 (fr J))" and ?y = "ir_op1 (fr J)"
  note R = readyD [OF assms(1)]
  have nu: "\<not> unary_op (fo J)" using assms(2) by (auto simp: op_classes ir_ops)
  note rl = right_load [OF assms(1) nu]
  have b: "\<not> is_kint64 J (fop2 J)" "int_ref J (fop2 J)" using R(5) nu assms(2) by (simp_all add: ins_typed_def)
  define w2 where "w2 = ref_w J (fop2 J)"
  have o2: "opnd J False w2 (fop2 J)" using b by (simp add: opnd_def w2_def)
  note I = ins_operand [OF R(1,2) o2, unfolded rl(1) [symmetric]]
  have t: "ins_typed J False IR_BAND w2 ?y (ir_op2 (fr J))"
    "V \<rho> J (fop2 J) = apply_op w2 IR_BAND (V \<rho> J ?y) (V \<rho> J (ir_op2 (fr J)))"
    using I assms(3) by simp_all
  show ?thesis
  proof (cases "ir_o ?k = IR_KINT \<and> ir_i ?k AND shift_mask J = shift_mask J")
    case False
    then show ?thesis using phi by (auto simp: simplify_shift_andk_def PHIBARRIER_def Let_def)
  next
    case True
    have ok: "opnd J False w2 (ir_op2 (fr J))" using t(1) by (simp add: ins_typed_def)
    have k: "is_kint J (ir_op2 (fr J))" using int_ref_kint(1) [OF R(1,2) opnd_int_ref [OF ok]] True by simp
    have w2: "\<not> w2" using ok opnd_kint [OF k] by simp
    have v: "V \<rho> J (fop2 J) = ucast (ucast (V \<rho> J ?y) AND ir_i ?k)"
      using t(2) w2 irval_kint [OF R(1) k] by (simp add: sem_simps)
    have y: "int_ref J ?y" "\<not> is_kint64 J ?y"
      using t(1) w2 opnd_kint64 [OF R(1)] by (auto simp: ins_typed_def)
    have c: "fw J \<Longrightarrow> unat (V \<rho> J (fop2 J)) mod 64 = unat (V \<rho> J ?y) mod 64"
      "\<not> fw J \<Longrightarrow> unat (ucast (V \<rho> J (fop2 J)) :: u32) mod 32 = unat (ucast (V \<rho> J ?y) :: u32) mod 32"
      using True by (simp_all add: v shift_mask_def count_and63 count_and31)
    show ?thesis
      using c y R phi True nu assms(2)
      by (cases "fw J") (auto simp: simplify_shift_andk_def rule_defs ins_typed_def sem_simps grown_refl shift_op_def)
  qed
qed

section \<open>Products, remainders and cancellation with a new constant\<close>

lemma intmul_word:
  fixes k :: u32 and a :: u32 and b :: u64
  assumes "k \<noteq> 0" "k AND (k - 1) = 0"
  shows "push_bit (lj_fls k) a = a * k" "push_bit (lj_fls k) b = b * ucast k"
proof -
  note p = power2_word [OF assms]
  show "push_bit (lj_fls k) a = a * k" by (subst (2) p(1)) (simp add: push_bit_eq_mult)
  have "ucast k = push_bit (lj_fls k) (1::u64)"
    by (subst p(1)) (use p(2) in \<open>auto intro!: bit_word_eqI simp: bit_simps bit_1_iff\<close>)
  then show "push_bit (lj_fls k) b = b * ucast k" by (simp add: push_bit_eq_mult)
qed

lemma count_of_nat: "n < 32 \<Longrightarrow> unat (of_nat n :: u32) = n" "n < 32 \<Longrightarrow> unat (of_nat n :: u64) = n"
  by (simp_all add: unat_of_nat)

lemma intmul_k_ok:
  assumes "ready J" "fo J = IR_MUL" "ir_o (fr J) = IR_KINT \<and> \<not> fw J \<and> k = ir_i (fr J) \<or>
      ir_o (fr J) = IR_KINT64 \<and> fr64 J = ucast k" "nk (fst (simplify_intmul_k k J)) \<noteq> 0"
  shows "fold_ok \<rho> J (simplify_intmul_k k J)"
proof -
  note R = readyD [OF assms(1)]
  have v: "\<not> fw J \<and> ucast (V \<rho> J (fop2 J)) = k \<or> fw J \<and> V \<rho> J (fop2 J) = ucast k"
    using right_kint [OF assms(1)] right_kint64 [OF assms(1)] assms(2,3) by auto
  have o: "opnd J False (fw J) (fop1 J)" "opnd J False (fw J) (fop2 J)" using R(5) assms(2) by (simp_all add: ins_typed_def)
  consider "k = 0" | "k = 1" | "k \<noteq> 0" "k \<noteq> 1" "k AND (k - 1) = 0" | "k \<noteq> 0" "k \<noteq> 1" "k AND (k - 1) \<noteq> 0" by blast
  then show ?thesis
  proof cases
    case 3
    note m = intmul_word [OF 3(1,3)] and n = power2_word(2) [OF 3(1,3)]
    have "fold_ok \<rho> J (op2_kint (of_nat (lj_fls k)) (J\<lparr>fins := (fins J)\<lparr>ir_o := IR_BSHL\<rparr>\<rparr>), RETRYFOLD)"
      using assms(1,2,4) 3 v o n
      by (intro op2_kint_retry; cases "fw J")
        (auto simp: finval_def finguard_def sem_simps simplify_intmul_k_def set_o_fins m unat_ucast_u32 count_of_nat)
    then show ?thesis using 3 by (simp add: simplify_intmul_k_def set_o_fins)
  qed (use assms(1,2) v o R in \<open>auto simp: simplify_intmul_k_def rule_defs sem_simps grown_refl\<close>)
qed

lemma intmul_k32_ok:
  assumes "ready J" "fo J = IR_MUL" "ir_o (fr J) = IR_KINT" "nk (fst (simplify_intmul_k32 J)) \<noteq> 0"
  shows "fold_ok \<rho> J (simplify_intmul_k32 J)"
proof -
  have "\<not> fw J" using right_kint(3) [OF assms(1) _ assms(3)] assms(2) by auto
  then show ?thesis using intmul_k_ok [OF assms(1,2), of "ir_i (fr J)" \<rho>] assms(3,4)
    by (cases "0 \<le>s ir_i (fr J)") (simp_all add: simplify_intmul_k32_def)
qed

lemma intmul_k64_ok:
  assumes "ready J" "fo J = IR_MUL" "ir_o (fr J) = IR_KINT64" "nk (fst (simplify_intmul_k64 J)) \<noteq> 0"
  shows "fold_ok \<rho> J (simplify_intmul_k64 J)"
proof (cases "fr64 J < 0x80000000")
  case True
  then have "ucast (ucast (fr64 J) :: u32) = fr64 J"
  proof -
    have "unat (fr64 J) < 2 ^ 32" using True by (simp add: word_less_nat_alt)
    then have "take_bit 32 (fr64 J) = fr64 J" by (simp add: word_unat_eq_iff unsigned_take_bit_eq take_bit_nat_eq_self)
    moreover have "(ucast (ucast (fr64 J) :: u32) :: u64) = take_bit 32 (fr64 J)"
      by (rule bit_word_eqI) (auto simp: bit_simps)
    ultimately show ?thesis by simp
  qed
  then show ?thesis using intmul_k_ok [OF assms(1,2), of "ucast (fr64 J)"] assms(3,4) True
    by (simp add: simplify_intmul_k64_def)
qed (simp add: simplify_intmul_k64_def)

lemma intmod_k_ok:
  assumes "ready J" "fo J = IR_MOD" "ir_o (fr J) = IR_KINT" "nk (fst (simplify_intmod_k J)) \<noteq> 0"
  shows "fold_ok \<rho> J (simplify_intmod_k J)"
proof (cases "0 <s ir_i (fr J) \<and> ir_i (fr J) AND (ir_i (fr J) - 1) = 0")
  case True
  let ?k = "ir_i (fr J)" and ?n = "lj_fls (ir_i (fr J))"
  note k = right_kint [OF assms(1) _ assms(3)]
  have w: "\<not> fw J" using k(3) assms(2) by auto
  have k0: "?k \<noteq> 0" using True by auto
  note p = power2_word [OF k0 conjunct2 [OF True]]
  have uk: "?k = 2 ^ ?n" using p(1) by (simp add: push_bit_eq_mult)
  have "?n \<noteq> 31"
  proof
    assume "?n = 31"
    then have "?k = 0x80000000" using uk by simp
    then show False using True by (simp add: word_sless_alt)
  qed
  then have n: "?n < 31" using p(2) by simp
  then have s: "sint ?k = 2 ^ ?n"
  proof -
    have "(2::int) ^ ?n < 2 ^ 31" using n by (intro power_strict_increasing) simp_all
    moreover have "- (2 ^ 31) \<le> (2::int) ^ ?n" by (rule order_trans [of _ 0]) simp_all
    ultimately show ?thesis using sint_of_int32 [of "2 ^ ?n"] uk by simp
  qed
  have m: "word_of_int (sint a mod sint ?k) = a AND (?k - 1)" for a :: u32
  proof -
    have "word_of_int (sint a mod sint ?k) = take_bit ?n a"
      using n word_take_bit_sint [of ?n a] by (simp add: s take_bit_eq_mod)
    also have "\<dots> = a AND (?k - 1)" by (subst (2) uk) (simp add: take_bit_eq_mask mask_eq_exp_minus_1)
    finally show ?thesis .
  qed
  have "opnd J True (fw J) (fop1 J)" using readyD(6) [OF assms(1)] by auto
  then have "fold_ok \<rho> J (op2_kint (?k - 1) (J\<lparr>fins := (fins J)\<lparr>ir_o := IR_BAND\<rparr>\<rparr>), RETRYFOLD)"
    using assms(1,2,4) True w k(2)
    by (intro op2_kint_retry) (simp_all add: finval_def finguard_def sem_simps simplify_intmod_k_def set_o_fins Let_def m)
  then show ?thesis using True by (simp add: simplify_intmod_k_def set_o_fins Let_def)
qed (auto simp: simplify_intmod_k_def Let_def)

lemma intsub_ok:
  assumes "ready J" "fo J = IR_SUB \<or> fo J = IR_SUBOV" "nk (fst (simplify_intsub J)) \<noteq> 0"
  shows "fold_ok \<rho> J (simplify_intsub J)"
proof (cases "fop1 J = fop2 J \<and> \<not> irt_isnum (ft J) \<and> fw J")
  case True
  then have "fo J = IR_SUB" using readyD(5) [OF assms(1)] assms(2) by (auto simp: ins_typed_def)
  then have "fold_ok \<rho> J (INT64FOLD 0 J)"
    using True assms(1,3) by (intro INT64FOLD_ok) (simp_all add: finval_def sem_simps simplify_intsub_def)
  then show ?thesis using True by (simp add: simplify_intsub_def)
next
  case False
  then show ?thesis
    using assms(2) by (auto simp: simplify_intsub_def INTFOLD_def finval_def finguard_def sem_simps)
qed

lemma comm_bxor_ok:
  assumes "ready J" "fo J = IR_BXOR" "nk (fst (comm_bxor J)) \<noteq> 0"
  shows "fold_ok \<rho> J (comm_bxor J)"
proof (cases "fop1 J = fop2 J \<and> fw J")
  case True
  then have "fold_ok \<rho> J (INT64FOLD 0 J)"
    using True assms by (intro INT64FOLD_ok) (simp_all add: finval_def sem_simps comm_bxor_def)
  then show ?thesis using True by (simp add: comm_bxor_def)
next
  case False
  then show ?thesis using readyD [OF assms(1)] assms(2)
    by (cases "fw J") (auto simp: comm_bxor_def comm_swap_def rule_defs ins_typed_def sem_simps grown_refl ac_simps)
qed

lemma kint_fins: "lj_ir_kint k (J\<lparr>fins := f\<rparr>) = (fst (lj_ir_kint k J), snd (lj_ir_kint k J)\<lparr>fins := f\<rparr>)"
  "fins (snd (lj_ir_kint k J)) = fins J"
  by (auto simp: lj_ir_kint_def chain_lookup_def ir_nextk_def lj_ir_growbot_def Let_def split: option.split)

lemma neg_count: "0 < n \<Longrightarrow> n < 32 \<Longrightarrow> (2 ^ 32 - n) mod 32 = 32 - n" "0 < n \<Longrightarrow> n < 64 \<Longrightarrow> (2 ^ 32 - n) mod 64 = 64 - (n::nat)"
proof -
  assume "0 < n" "n < 32"
  moreover have "2 ^ 32 - n = 32 * 134217727 + (32 - n)" using calculation by simp
  ultimately show "(2 ^ 32 - n) mod 32 = 32 - n" by (simp only: mod_mult_self4) simp
next
  assume "0 < n" "n < 64"
  moreover have "2 ^ 32 - n = 64 * 67108863 + (64 - n)" using calculation by simp
  ultimately show "(2 ^ 32 - n) mod 64 = 64 - n" by (simp only: mod_mult_self4) simp
qed

lemma subsub_left_ok:
  assumes "ready J" "fo J = IR_SUB" "ir_o (fl J) = IR_SUB" "nk (fst (simplify_intsubsub_leftcancel J)) \<noteq> 0"
  shows "fold_ok \<rho> J (simplify_intsubsub_leftcancel J)"
proof (cases "\<not> irt_isnum (ft J) \<and> \<not> irt_isphi (ir_t (fl J)) \<and> fop2 J = ir_op1 (fl J)")
  case True
  note l = left_ins [OF assms(1), unfolded assms(3), simplified]
  obtain r J1 where n: "lj_ir_kint 0 J = (r, J1)" by force
  let ?f = "(fins J)\<lparr>ir_op2 := ir_op2 (fl J)\<rparr>"
  have e: "set_op2 (ir_op2 (fl J)) (op1_kint 0 J) = op1_kint 0 (J\<lparr>fins := ?f\<rparr>)"
    by (simp add: op1_kint_def set_op1_def set_op2_def kint_fins split_beta)
  have "fold_ok \<rho> J (op1_kint 0 (J\<lparr>fins := ?f\<rparr>), RETRYFOLD)"
    using assms True l
    by (intro op1_kint_retry; cases "fw J")
      (auto simp: simplify_intsubsub_leftcancel_def PHIBARRIER_def e finval_def sem_simps ins_typed_def)
  then show ?thesis using True by (simp add: simplify_intsubsub_leftcancel_def PHIBARRIER_def e)
qed (auto simp: simplify_intsubsub_leftcancel_def PHIBARRIER_def)

lemma subadd_right_ok:
  assumes "ready J" "fo J = IR_SUB" "ir_o (fr J) = IR_ADD" "nk (fst (simplify_intsubadd_rightcancel J)) \<noteq> 0"
  shows "fold_ok \<rho> J (simplify_intsubadd_rightcancel J)"
proof (cases "\<not> irt_isnum (ft J) \<and> \<not> irt_isphi (ir_t (fr J)) \<and> (fop1 J = ir_op1 (fr J) \<or> fop1 J = ir_op2 (fr J))")
  case True
  have "\<not> unary_op (fo J)" "\<not> shift_op (fo J)" using assms(2) by simp_all
  note r = right_ins [OF assms(1) this, unfolded assms(3), simplified]
  define x where "x = (if fop1 J = ir_op1 (fr J) then ir_op2 (fr J) else ir_op1 (fr J))"
  let ?f = "(fins J)\<lparr>ir_op2 := x\<rparr>"
  have e: "simplify_intsubadd_rightcancel J = (op1_kint 0 (J\<lparr>fins := ?f\<rparr>), RETRYFOLD)"
    using True by (auto simp: simplify_intsubadd_rightcancel_def PHIBARRIER_def set_o_fins x_def)
  show ?thesis
    using assms(1,2,4) True r unfolding e
    by (intro op1_kint_retry; cases "fw J") (auto simp: finval_def sem_simps ins_typed_def x_def)
qed (auto simp: simplify_intsubadd_rightcancel_def PHIBARRIER_def)

lemma mask_count: "unat (k AND 63) = unat k mod 64" "unat (k AND 31) = unat k mod 32" for k :: u32
  by (simp_all add: shift_count63 shift_count31)

section \<open>Shifts by a constant\<close>

definition shift_len :: "jit \<Rightarrow> nat" where
  "shift_len J = (if fw J then 64 else 32)"

definition shift_val :: "(nat \<Rightarrow> u64) \<Rightarrow> jit \<Rightarrow> irop \<Rightarrow> nat \<Rightarrow> u64" where
  "shift_val \<rho> J p n = (if fw J then shf p n (V \<rho> J (fop1 J)) else ucast (shf p n (ucast (V \<rho> J (fop1 J)) :: u32)))"

lemma shift_mask_len: "unat (c AND shift_mask J) = unat c mod shift_len J" "unat (c AND shift_mask J) < shift_len J"
  by (simp_all add: shift_len_def shift_mask_def mask_count)

lemma shift_apply:
  "shift_op p \<Longrightarrow> apply_op (fw J) p (V \<rho> J (fop1 J)) (ucast (c::u32)) = shift_val \<rho> J p (unat c mod shift_len J)"
  by (simp add: apply_op_def irsem_shf shift_val_def shift_len_def unat_ucast_u32)

lemma shift_k_finval:
  assumes "ready J" "shift_op (fo J)" "ir_o (fr J) = IR_KINT"
  shows "finval \<rho> J = shift_val \<rho> J (fo J) (unat (ir_i (fr J) AND shift_mask J))"
    "val_op (fo J)" "\<not> ov_op (fo J)" "fo J \<noteq> IR_MOD" "\<not> unary_op (fo J)"
proof -
  show nu: "val_op (fo J)" "\<not> ov_op (fo J)" "fo J \<noteq> IR_MOD" "\<not> unary_op (fo J)"
    using assms(2) by (auto simp: shift_op_def)
  show "finval \<rho> J = shift_val \<rho> J (fo J) (unat (ir_i (fr J) AND shift_mask J))"
    unfolding finval_def right_kint(2) [OF assms(1) nu(4) assms(3)] shift_apply [OF assms(2)] shift_mask_len(1) ..
qed

lemma shift_retry:
  assumes "ready J" "shift_op (fo J)" "ir_o (fr J) = IR_KINT" "nk (op2_kint k (J\<lparr>fins := (fins J)\<lparr>ir_o := p\<rparr>\<rparr>)) \<noteq> 0"
    and "shift_op p" "bad_op p \<Longrightarrow> bad_op (fo J)"
    and "shift_val \<rho> J p (unat k mod shift_len J) = finval \<rho> J"
  shows "fold_ok \<rho> J (op2_kint k (J\<lparr>fins := (fins J)\<lparr>ir_o := p\<rparr>\<rparr>), RETRYFOLD)"
proof -
  have "val_op p" "\<not> ov_op p" "p \<noteq> IR_MOD" "\<not> unary_op p" using assms(5) by (auto simp: shift_op_def)
  then show ?thesis
    using assms readyD(6) [OF assms(1)] shift_k_finval(2,3) [OF assms(1-3)]
    by (intro op2_kint_retry) (simp_all add: shift_apply guard_op_def finguard_def)
qed

lemma shift_ror_rol:
  assumes "c AND shift_mask J \<noteq> 0"
  shows "shift_val \<rho> J IR_BROL (unat (- (c AND shift_mask J) AND shift_mask J)) = shift_val \<rho> J IR_BROR (unat (c AND shift_mask J))"
proof -
  define n where "n = unat (c AND shift_mask J)"
  have n: "0 < n" "n < shift_len J" using assms shift_mask_len(2) by (simp_all add: n_def unat_gt_0)
  have "unat (- (c AND shift_mask J)) = 2 ^ 32 - n"
  proof -
    have l: "n < 2 ^ 32" using n(2) by (simp add: shift_len_def split: if_splits)
    have "- (c AND shift_mask J) = - of_nat n" by (simp add: n_def)
    also have "\<dots> = of_nat (2 ^ 32 - n)" using l by (simp add: of_nat_diff)
    finally have "unat (- (c AND shift_mask J)) = (2 ^ 32 - n) mod 2 ^ 32" by (simp only: unat_of_nat) simp
    then show ?thesis using n(1) l by simp
  qed
  then have "unat (- (c AND shift_mask J) AND shift_mask J) = shift_len J - n"
    unfolding shift_mask_len(1) using n neg_count by (simp only: shift_len_def split: if_splits) simp_all
  then show ?thesis
    unfolding n_def [symmetric] using n rotr_rotl [of n "V \<rho> J (fop1 J)"] rotr_rotl [of n "ucast (V \<rho> J (fop1 J)) :: u32"]
    by (simp add: shift_val_def shf_def ir_ops shift_len_def split: if_splits)
qed

lemma shift_ik_ok:
  assumes "ready J" "shift_op (fo J)" "ir_o (fr J) = IR_KINT" "nk (fst (simplify_shift_ik J)) \<noteq> 0"
  shows "fold_ok \<rho> J (simplify_shift_ik J)"
proof -
  note R = readyD [OF assms(1)] and S = shift_k_finval [OF assms(1-3)]
  let ?k = "ir_i (fr J) AND shift_mask J"
  have e: "simplify_shift_ik J = (if ?k = 0 then LEFTFOLD J
     else if ?k = 1 \<and> fo J = IR_BSHL then (set_op2 (fop1 J) (set_o IR_ADD J), RETRYFOLD)
     else if ?k \<noteq> ir_i (fr J) then (op2_kint ?k (J\<lparr>fins := (fins J)\<lparr>ir_o := fo J\<rparr>\<rparr>), RETRYFOLD)
     else if fo J = IR_BROR then (op2_kint (- ?k AND shift_mask J) (J\<lparr>fins := (fins J)\<lparr>ir_o := IR_BROL\<rparr>\<rparr>), RETRYFOLD)
     else (J, NEXTFOLD))"
    by (simp add: simplify_shift_ik_def Let_def set_o_fins)
  consider "?k = 0" | "?k \<noteq> 0" "?k = 1" "fo J = IR_BSHL" | "?k \<noteq> 0" "\<not> (?k = 1 \<and> fo J = IR_BSHL)" "?k \<noteq> ir_i (fr J)"
    | "?k \<noteq> 0" "\<not> (?k = 1 \<and> fo J = IR_BSHL)" "?k = ir_i (fr J)" "fo J = IR_BROR"
    | "?k \<noteq> 0" "\<not> (?k = 1 \<and> fo J = IR_BSHL)" "?k = ir_i (fr J)" "fo J \<noteq> IR_BROR" by blast
  then show ?thesis
  proof cases
    case 1
    have "shf (fo J) 0 x = x" "shf (fo J) 0 y = y" for x :: u64 and y :: u32 by (simp_all add: shf_def)
    then have "agree (fw J) (V \<rho> J (fop1 J)) (finval \<rho> J)"
      using 1 unfolding S(1) by (simp add: shift_val_def agree_def)
    then show ?thesis
      using 1 R S(2,3) unfolding e by (auto simp: LEFTFOLD_def res_ref_def grown_refl)
  next
    case 2
    have tw: "x * 2 = 2 * x" "y * 2 = 2 * y" for x :: u32 and y :: u64 by (rule mult.commute)+
    have "finval \<rho> J = apply_op (fw J) IR_ADD (V \<rho> J (fop1 J)) (V \<rho> J (fop1 J))"
      using 2 unfolding S(1) by (simp add: shift_val_def shf_def push_bit_eq_mult apply_op_def tw)
    then have "same_ins \<rho> J (set_op2 (fop1 J) (set_o IR_ADD J))"
      using 2 R by (auto simp: rule_defs ins_typed_def guard_op_def)
    then show ?thesis
      using 2 R unfolding e by (simp add: set_op2_def set_o_def grown_refl)
  next
    case 3
    have f: "(?k = 1 \<and> fo J = IR_BSHL) = False" using 3 by blast
    have e3: "simplify_shift_ik J = (op2_kint ?k (J\<lparr>fins := (fins J)\<lparr>ir_o := fo J\<rparr>\<rparr>), RETRYFOLD)"
      using 3(1,3) unfolding e f by (simp only: if_False if_True simp_thms)
    have v: "shift_val \<rho> J (fo J) (unat ?k mod shift_len J) = finval \<rho> J"
      using shift_mask_len(2) unfolding S(1) by simp
    show ?thesis
      unfolding e3 by (rule shift_retry [OF assms(1-3) _ assms(2) _ v]) (use assms(4) e3 in simp_all)
  next
    case 4
    have f: "(?k = 1 \<and> fo J = IR_BSHL) = False" using 4 by blast
    have e4: "simplify_shift_ik J = (op2_kint (- ?k AND shift_mask J) (J\<lparr>fins := (fins J)\<lparr>ir_o := IR_BROL\<rparr>\<rparr>), RETRYFOLD)"
      using 4(1,3,4) unfolding e f by (simp only: if_False if_True simp_thms)
    have v: "shift_val \<rho> J IR_BROL (unat (- ?k AND shift_mask J) mod shift_len J) = finval \<rho> J"
      using shift_mask_len(2) shift_ror_rol [OF 4(1)] 4(4) unfolding S(1) by simp
    show ?thesis
      unfolding e4 by (rule shift_retry [OF assms(1-3) _ _ _ v]) (use assms(4) e4 4(4) in simp_all)
  next
    case 5
    then have "(?k = 1 \<and> fo J = IR_BSHL) = False" by blast
    then show ?thesis using 5 unfolding e by (simp only: if_False if_True simp_thms) simp
  qed
qed

end
