(* ===== verification/LjFoldAssoc.thy ===== *)
theory LjFoldAssoc
  imports LjFoldRules
begin

text \<open>
  The soundness of the fold rules that combine the constants of two nested instructions: masks under
  masks, masks of shifts, and reassociation of arithmetic, minimum, maximum and shifts.
\<close>

section \<open>Constants on both sides\<close>

text \<open>The constant on the right of the left operand: it has the width of the instruction.\<close>

lemma left_right_kint:
  assumes "ready J" "val_op (ir_o (fl J))" "\<not> unary_op (ir_o (fl J))" "\<not> shift_op (ir_o (fl J))"
    and "ir_o (irs J (ir_op2 (fl J))) = IR_KINT"
  shows "\<not> fw J" "V \<rho> J (ir_op2 (fl J)) = ucast (ir_i (irs J (ir_op2 (fl J))))"
proof -
  note R = readyD [OF assms(1)]
  have o: "opnd J False (fw J) (ir_op2 (fl J))"
    using left_ins(1) [OF assms(1,2)] assms(3,4) by (simp add: ins_typed_def)
  have k: "is_kint J (ir_op2 (fl J))" using int_ref_kint(1) [OF R(1,2) opnd_int_ref [OF o]] assms(5) by simp
  show "\<not> fw J" using o opnd_kint [OF k] by simp
  show "V \<rho> J (ir_op2 (fl J)) = ucast (ir_i (irs J (ir_op2 (fl J))))" by (rule irval_kint [OF R(1) k])
qed

lemma left_right_kint64:
  assumes "ready J" "val_op (ir_o (fl J))" "\<not> unary_op (ir_o (fl J))" "\<not> shift_op (ir_o (fl J))"
    and "ir_o (irs J (ir_op2 (fl J))) = IR_KINT64"
  shows "fw J" "V \<rho> J (ir_op2 (fl J)) = ir_k64 (irs J) (ir_op2 (fl J))"
proof -
  note R = readyD [OF assms(1)]
  have o: "opnd J False (fw J) (ir_op2 (fl J))"
    using left_ins(1) [OF assms(1,2)] assms(3,4) by (simp add: ins_typed_def)
  have k: "is_kint64 J (ir_op2 (fl J))" using int_ref_kint(2) [OF R(1,2) opnd_int_ref [OF o]] assms(5) by simp
  show "fw J" using o opnd_kint64 [OF R(1) k] by simp
  show "V \<rho> J (ir_op2 (fl J)) = ir_k64 (irs J) (ir_op2 (fl J))" by (rule irval_kint64 [OF R(1) k])
qed

lemma left_shift_kint:
  assumes "ready J" "shift_op (ir_o (fl J))" "ir_o (irs J (ir_op2 (fl J))) = IR_KINT"
  shows "V \<rho> J (ir_op2 (fl J)) = ucast (ir_i (irs J (ir_op2 (fl J))))"
proof -
  note R = readyD [OF assms(1)]
  have v: "val_op (ir_o (fl J))" "\<not> unary_op (ir_o (fl J))" using assms(2) by (auto simp: shift_op_def)
  have "int_ref J (ir_op2 (fl J))" using left_ins(1) [OF assms(1) v(1)] v(2) assms(2) by (simp add: ins_typed_def)
  then have "is_kint J (ir_op2 (fl J))" using int_ref_kint(1) [OF R(1,2)] assms(3) by simp
  then show ?thesis by (rule irval_kint [OF R(1)])
qed

lemma shf_and: "p = IR_BSHL \<or> p = IR_BSHR \<Longrightarrow> shf p n a AND shf p n (- 1) = shf p n (a::u32)"
  by (rule bit_word_eqI) (auto simp: shf_def ir_ops bit_simps dest: bit_imp_le_length)

lemma shf_ones: "p = IR_BSHL \<or> p = IR_BSHR \<Longrightarrow> n < 32 \<Longrightarrow> shf p n (- 1 :: u32) \<noteq> 0"
proof -
  assume p: "p = IR_BSHL \<or> p = IR_BSHR" "n < 32"
  have "bit (push_bit n (- 1 :: u32)) 31" "bit (drop_bit n (- 1 :: u32)) 0" using p(2) by (simp_all add: bit_simps)
  then show ?thesis using p by (auto simp: shf_def ir_ops)
qed

lemma andk_shiftk_ok:
  assumes "ready J" "fo J = IR_BAND" "ir_o (fl J) = p" "p = IR_BSHL \<or> p = IR_BSHR" "ir_o (fr J) = IR_KINT"
  shows "fold_ok \<rho> J (simplify_andk_shiftk J)"
proof (cases "ir_o (irs J (ir_op2 (fl J))) = IR_KINT \<and>
    kfold_intop (- 1) (ir_i (irs J (ir_op2 (fl J)))) (ir_o (fl J)) = ir_i (fr J)")
  case True
  let ?k = "ir_i (irs J (ir_op2 (fl J)))"
  have nu: "\<not> unary_op (fo J)" using assms(2) by simp
  have v: "val_op p" "shift_op p" "\<not> unary_op p" "\<not> ov_op p" "p \<noteq> IR_MOD" using assms(4) by auto
  note l = left_ins [OF assms(1), unfolded assms(3), OF v(1)] and r = right_kint [OF assms(1) nu assms(5)]
  have k: "ir_i (fr J) = shf p (unat ?k mod 32) (- 1)"
    using True kfold_intop_sem [of p ?k "- 1"] v irsem_shf(1) [OF v(2)] assms(3) by simp
  have w: "\<not> fw J" using r(3) k shf_ones [OF assms(4)] assms(2) by auto
  have "V \<rho> J (ir_op2 (fl J)) = ucast ?k"
    using left_shift_kint [OF assms(1)] v(2) assms(3) True by simp
  then have "V \<rho> J (fop1 J) = ucast (shf p (unat ?k mod 32) (ucast (V \<rho> J (ir_op1 (fl J))) :: u32))"
    using l(2) w by (simp add: sem_simps irsem_shf(1) [OF v(2)])
  then have "agree (fw J) (V \<rho> J (fop1 J)) (finval \<rho> J)"
    using w assms(2) r(2) k shf_and [OF assms(4)] by (simp add: finval_def sem_simps)
  then show ?thesis
    using True readyD [OF assms(1)] assms(2)
    by (auto simp: simplify_andk_shiftk_def LEFTFOLD_def res_ref_def grown_refl)
qed (auto simp: simplify_andk_shiftk_def)

lemma or_and_cancel: "b AND c = 0 \<Longrightarrow> (a OR b) AND c = a AND c" "b OR c = - 1 \<Longrightarrow> a AND b OR c = a OR c"
  for a b c :: "'a::len word"
  by (simp_all add: bit.conj_disj_distrib2 bit.disj_conj_distrib2)

lemma kfold_logic: "kfold_intop a b IR_BAND = a AND b" "kfold_intop a b IR_BOR = a OR b" "IR_BOR \<noteq> IR_BAND"
  by (simp_all add: kfold_intop_def ir_ops)

lemma andor_k_ok:
  assumes "ready J" "fo J = IR_BAND \<and> ir_o (fl J) = IR_BOR \<or> fo J = IR_BOR \<and> ir_o (fl J) = IR_BAND" "ir_o (fr J) = IR_KINT"
  shows "fold_ok \<rho> J (simplify_andor_k J)"
proof -
  have nu: "\<not> unary_op (fo J)" using assms(2) by auto
  have "ir_o (irs J (ir_op2 (fl J))) = IR_KINT \<Longrightarrow> \<not> fw J \<and> V \<rho> J (ir_op2 (fl J)) = ucast (ir_i (irs J (ir_op2 (fl J))))"
    using left_right_kint [OF assms(1)] assms(2) by auto
  then show ?thesis
    using assms(2) readyD [OF assms(1)] left_ins(1,2) [OF assms(1)] right_kint [OF assms(1) nu assms(3)]
    by (elim disjE conjE)
      (auto simp: simplify_andor_k_def rule_defs ins_typed_def sem_simps grown_refl kfold_logic or_and_cancel)
qed

lemma andor_k64_ok:
  assumes "ready J" "fo J = IR_BAND \<and> ir_o (fl J) = IR_BOR \<or> fo J = IR_BOR \<and> ir_o (fl J) = IR_BAND" "ir_o (fr J) = IR_KINT64"
  shows "fold_ok \<rho> J (simplify_andor_k64 J)"
proof -
  have nu: "\<not> unary_op (fo J)" using assms(2) by auto
  have "ir_o (irs J (ir_op2 (fl J))) = IR_KINT64 \<Longrightarrow> V \<rho> J (ir_op2 (fl J)) = ir_k64 (irs J) (ir_op2 (fl J))"
    using left_right_kint64 [OF assms(1)] assms(2) by auto
  then show ?thesis
    using assms(2) readyD [OF assms(1)] left_ins(1,2) [OF assms(1)] right_kint64 [OF assms(1) nu assms(3)]
    by (elim disjE conjE)
      (auto simp: simplify_andor_k64_def rule_defs ins_typed_def sem_simps grown_refl kfold_logic(3) or_and_cancel)
qed

section \<open>Reassociation\<close>

lemma assoc_op:
  "p = IR_ADD \<or> p = IR_MUL \<or> p = IR_BAND \<or> p = IR_BOR \<or> p = IR_BXOR \<Longrightarrow> irsem32 p (irsem32 p a b) c = irsem32 p a (irsem32 p b c)"
  "p = IR_ADD \<or> p = IR_MUL \<or> p = IR_BAND \<or> p = IR_BOR \<or> p = IR_BXOR \<Longrightarrow> irsem64 p (irsem64 p x y) z = irsem64 p x (irsem64 p y z)"
  by (auto simp: ac_simps)

lemma minmax_op: "p = IR_MIN \<or> p = IR_MAX \<Longrightarrow> irsem32 p (irsem32 p a b) c = irsem32 p a (irsem32 p b c)"
  by (auto simp: sint_eqD)

lemma reassoc_k_ok:
  assumes "ready J" "fo J = p" "ir_o (fl J) = p" "ir_o (fr J) = IR_KINT" "ir_o (irs J (ir_op2 (fl J))) = IR_KINT"
    and "val_op p" "\<not> unary_op p" "\<not> shift_op p" "\<not> ov_op p" "p \<noteq> IR_MOD" "\<not> bad_op p"
    and "\<And>a b c. irsem32 p (irsem32 p a b) c = irsem32 p a (irsem32 p b c)"
    and k: "k = kfold_intop (ir_i (irs J (ir_op2 (fl J)))) (ir_i (fr J)) p"
  shows "k = ir_i (irs J (ir_op2 (fl J))) \<Longrightarrow> fold_ok \<rho> J (LEFTFOLD J)"
    "nk (op2_kint k (set_op1 (ir_op1 (fl J)) J)) \<noteq> 0 \<Longrightarrow> fold_ok \<rho> J (op2_kint k (set_op1 (ir_op1 (fl J)) J), RETRYFOLD)"
proof -
  note R = readyD [OF assms(1)]
  note l = left_ins [OF assms(1), unfolded assms(3), OF assms(6)]
  note lk = left_right_kint [OF assms(1), unfolded assms(3), OF assms(6-8,5)]
  note r = right_kint [OF assms(1) _ assms(4), unfolded assms(2), OF assms(7)]
  let ?k1 = "ir_i (irs J (ir_op2 (fl J)))" and ?x = "ucast (V \<rho> J (ir_op1 (fl J))) :: u32"
  have k': "k = irsem32 p ?k1 (ir_i (fr J))"
    unfolding k by (rule kfold_intop_sem) (use assms(6,7,9,10) in simp_all)
  have f: "finval \<rho> J = ucast (irsem32 p ?x k)"
    using lk l(2) r(2) by (simp add: finval_def assms(2) sem_simps k' assms(12))
  show "fold_ok \<rho> J (LEFTFOLD J)" if "k = ?k1"
    using that lk l(2) R assms(2,6,9) by (auto simp: LEFTFOLD_def res_ref_def f sem_simps grown_refl)
  show "fold_ok \<rho> J (op2_kint k (set_op1 (ir_op1 (fl J)) J), RETRYFOLD)"
    if "nk (op2_kint k (set_op1 (ir_op1 (fl J)) J)) \<noteq> 0"
    using that lk(1) l(1) assms(1,2,6-11) unfolding set_o_fins
    by (intro op2_kint_retry) (auto simp: ins_typed_def f sem_simps finguard_def)
qed

lemma reassoc_intarith_k_ok:
  assumes "ready J" "fo J = p" "ir_o (fl J) = p" "p = IR_ADD \<or> p = IR_MUL \<or> p = IR_BAND \<or> p = IR_BOR \<or> p = IR_BXOR"
    and "ir_o (fr J) = IR_KINT" "nk (fst (reassoc_intarith_k J)) \<noteq> 0"
  shows "fold_ok \<rho> J (reassoc_intarith_k J)"
proof (cases "ir_o (irs J (ir_op2 (fl J))) = IR_KINT")
  case True
  have p: "val_op p" "\<not> unary_op p" "\<not> shift_op p" "\<not> ov_op p" "p \<noteq> IR_MOD" "\<not> bad_op p" using assms(4) by auto
  note K = reassoc_k_ok [OF assms(1-3,5) True p assoc_op(1) [OF assms(4)] refl]
  show ?thesis
    using K assms(2,3,6) True
    by (auto simp: reassoc_intarith_k_def PHIBARRIER_def Let_def simp del: fold_ok_simps split: if_splits) auto
qed (auto simp: reassoc_intarith_k_def)

lemma reassoc_minmax_k_ok:
  assumes "ready J" "fo J = p" "ir_o (fl J) = p" "p = IR_MIN \<or> p = IR_MAX"
    and "ir_o (fr J) = IR_KINT" "nk (fst (reassoc_minmax_k J)) \<noteq> 0"
  shows "fold_ok \<rho> J (reassoc_minmax_k J)"
proof (cases "ir_o (irs J (ir_op2 (fl J))) = IR_KINT")
  case True
  have p: "val_op p" "\<not> unary_op p" "\<not> shift_op p" "\<not> ov_op p" "p \<noteq> IR_MOD" "\<not> bad_op p" using assms(4) by auto
  note K = reassoc_k_ok [OF assms(1-3,5) True p minmax_op [OF assms(4)] refl]
  show ?thesis
    using K assms(2,3,6) True
    by (auto simp: reassoc_minmax_k_def PHIBARRIER_def Let_def simp del: fold_ok_simps split: if_splits) auto
qed (auto simp: reassoc_minmax_k_def)

lemma reassoc_intarith_k64_ok:
  assumes "ready J" "fo J = p" "ir_o (fl J) = p" "p = IR_ADD \<or> p = IR_MUL \<or> p = IR_BAND \<or> p = IR_BOR \<or> p = IR_BXOR"
    and "ir_o (fr J) = IR_KINT64" "nk (fst (reassoc_intarith_k64 J)) \<noteq> 0"
  shows "fold_ok \<rho> J (reassoc_intarith_k64 J)"
proof (cases "ir_o (irs J (ir_op2 (fl J))) = IR_KINT64 \<and> \<not> irt_isphi (ir_t (fl J))")
  case True
  have p: "val_op p" "\<not> unary_op p" "\<not> shift_op p" "\<not> ov_op p" "p \<noteq> IR_MOD" "\<not> bad_op p" using assms(4) by auto
  note l = left_ins [OF assms(1), unfolded assms(3), OF p(1)]
  note lk = left_right_kint64 [OF assms(1), unfolded assms(3), OF p(1-3) conjunct1 [OF True]]
  note r = right_kint64 [OF assms(1) _ assms(5), unfolded assms(2), OF p(2)]
  let ?k = "kfold_int64op (ir_k64 (irs J) (ir_op2 (fl J))) (fr64 J) p" and ?x = "V \<rho> J (ir_op1 (fl J))"
  have k: "?k = irsem64 p (ir_k64 (irs J) (ir_op2 (fl J))) (fr64 J)" using assms(4) by auto
  have f: "apply_op True p ?x ?k = finval \<rho> J"
    using lk l(2) r(2) by (simp add: finval_def assms(2) sem_simps k assoc_op(2) [OF assms(4)])
  have e: "reassoc_intarith_k64 J = (op2_kint64 ?k (J\<lparr>fins := (fins J)\<lparr>ir_op1 := ir_op1 (fl J)\<rparr>\<rparr>), RETRYFOLD)"
    using True by (simp add: reassoc_intarith_k64_def PHIBARRIER_def Let_def set_o_fins assms(2))
  show ?thesis
    using lk(1) l(1) assms(1,2,6) p f unfolding e
    by (intro op2_kint64_retry) (auto simp: ins_typed_def)
qed (auto simp: reassoc_intarith_k64_def PHIBARRIER_def Let_def)


section \<open>Shifts of shifts\<close>

definition shift_at :: "bool \<Rightarrow> irop \<Rightarrow> nat \<Rightarrow> u64 \<Rightarrow> u64" where
  "shift_at w p n x = (if w then shf p n x else ucast (shf p n (ucast x :: u32)))"

lemma shift_at_apply:
  "shift_op p \<Longrightarrow> apply_op (fw J) p x (ucast (c::u32)) = shift_at (fw J) p (unat c mod shift_len J) x"
  by (simp add: apply_op_def irsem_shf shift_at_def shift_len_def unat_ucast_u32)

lemma shift_at_twice:
  assumes "shift_op p" "m < shift_len J" "n < shift_len J"
  shows "shift_at (fw J) p m (shift_at (fw J) p n x) =
    (if m + n < shift_len J then shift_at (fw J) p (m + n) x
     else if p = IR_BSHL \<or> p = IR_BSHR then 0
     else if p = IR_BSAR then shift_at (fw J) p (shift_len J - 1) x
     else shift_at (fw J) p ((m + n) mod shift_len J) x)"
proof (cases "fw J")
  case True
  then show ?thesis
    using assms(2,3) by (simp add: shift_at_def shift_len_def shf_shf [OF assms(1)] split del: if_split cong: if_cong)
next
  case False
  then show ?thesis
    using assms(2,3)
    by (simp add: shift_at_def shift_len_def shf_shf [OF assms(1)] if_distrib [of ucast] split del: if_split cong: if_cong)
qed

lemma sint_small: "unat (x::u32) < 2 ^ 31 \<Longrightarrow> sint x = int (unat x)"
proof -
  assume "unat x < 2 ^ 31"
  then have "int (unat x) < int (2 ^ 31)" by (simp only: of_nat_less_iff)
  then have "uint x < 2 ^ 31" by simp
  then show ?thesis using sint32 [of x] by simp
qed

lemma count_sum:
  assumes "k = (c AND shift_mask J) + (d AND shift_mask J)"
  shows "unat k = unat c mod shift_len J + unat d mod shift_len J" "shift_mask J <s k \<longleftrightarrow> shift_len J \<le> unat k"
    "unat (shift_mask J) = shift_len J - 1"
proof -
  have l: "unat c mod shift_len J < 64" "unat d mod shift_len J < 64"
    using less_le_trans [OF mod_less_divisor, of "shift_len J" 64] by (simp_all add: shift_len_def)
  have "unat k = (unat c mod shift_len J + unat d mod shift_len J) mod 2 ^ 32"
    unfolding assms by (simp only: unat_word_ariths(1) shift_mask_len) simp
  also have "\<dots> = unat c mod shift_len J + unat d mod shift_len J" using l by (intro mod_less) simp
  finally show k: "unat k = unat c mod shift_len J + unat d mod shift_len J" .
  show m: "unat (shift_mask J) = shift_len J - 1" by (simp add: shift_mask_def shift_len_def)
  have "sint (shift_mask J) = int (shift_len J) - 1" by (simp add: shift_mask_def shift_len_def)
  moreover have "sint k = int (unat k)" using l by (intro sint_small) (simp add: k)
  ultimately show "shift_mask J <s k \<longleftrightarrow> shift_len J \<le> unat k" unfolding word_sless_alt by linarith
qed

lemma reassoc_shift_ok:
  assumes "ready J" "fo J = p" "ir_o (fl J) = p" "shift_op p" "ir_o (fr J) = IR_KINT" "nk (fst (reassoc_shift J)) \<noteq> 0"
  shows "fold_ok \<rho> J (reassoc_shift J)"
proof (cases "ir_o (irs J (ir_op2 (fl J))) = IR_KINT \<and> \<not> irt_isphi (ir_t (fl J))")
  case True
  note R = readyD [OF assms(1)]
  have p: "val_op p" "\<not> unary_op p" "\<not> ov_op p" "p \<noteq> IR_MOD" "\<not> zop p" using assms(4) by (auto simp: shift_op_def)
  note l = left_ins [OF assms(1), unfolded assms(3), OF p(1)]
  note lk = left_shift_kint [OF assms(1), unfolded assms(3), OF assms(4) conjunct1 [OF True]]
  note r = right_kint [OF assms(1) _ assms(5), unfolded assms(2), OF p(2)]
  let ?x = "V \<rho> J (ir_op1 (fl J))" and ?L = "shift_len J"
  define k where "k = (ir_i (irs J (ir_op2 (fl J))) AND shift_mask J) + (ir_i (fr J) AND shift_mask J)"
  note c = count_sum [OF k_def]
  have Lp: "0 < ?L" by (simp add: shift_len_def)
  have x: "opnd J False (fw J) (ir_op1 (fl J))" using l(1) p by (simp add: ins_typed_def)
  have f: "finval \<rho> J = (if unat k < ?L then shift_at (fw J) p (unat k) ?x
     else if p = IR_BSHL \<or> p = IR_BSHR then 0
     else if p = IR_BSAR then shift_at (fw J) p (?L - 1) ?x else shift_at (fw J) p (unat k mod ?L) ?x)"
    unfolding finval_def assms(2) l(2) r(2) lk shift_at_apply [OF assms(4)] c(1)
    using Lp by (subst shift_at_twice [OF assms(4)]) (simp_all add: add.commute)
  have g: "finguard \<rho> J" using assms(2) p by simp
  have re: "fold_ok \<rho> J (op2_kint c (set_op1 (ir_op1 (fl J)) J), RETRYFOLD)"
    if "nk (op2_kint c (set_op1 (ir_op1 (fl J)) J)) \<noteq> 0" "shift_at (fw J) p (unat c mod ?L) ?x = finval \<rho> J" for c
    using that x assms(1,2,4) p g unfolding set_o_fins
    by (intro op2_kint_retry) (auto simp: shift_at_apply guard_op_def)
  consider "unat k < ?L" | "\<not> unat k < ?L" "p = IR_BSHL \<or> p = IR_BSHR" | "\<not> unat k < ?L" "\<not> (p = IR_BSHL \<or> p = IR_BSHR)" by blast
  then show ?thesis
  proof cases
    case 1
    then have e: "reassoc_shift J = (op2_kint k (set_op1 (ir_op1 (fl J)) J), RETRYFOLD)"
      using True c(2) by (simp add: reassoc_shift_def PHIBARRIER_def Let_def k_def [symmetric])
    show ?thesis using re [of k] 1 assms(6) f unfolding e by simp
  next
    case 2
    have m: "shift_mask J = 31 \<longleftrightarrow> \<not> fw J" by (simp add: shift_mask_def)
    have e: "reassoc_shift J = (if \<not> fw J then INTFOLD 0 J else INT64FOLD 0 J)"
      using 2 True c(2) assms(2) by (simp add: reassoc_shift_def PHIBARRIER_def Let_def k_def [symmetric] m)
    show ?thesis
    proof (cases "fw J")
      case True
      then show ?thesis
        using assms(1,2,6) p 2 f unfolding e by (auto intro: INT64FOLD_ok)
    next
      case False
      then show ?thesis unfolding e using 2 f g assms(2) p by (simp add: INTFOLD_def)
    qed
  next
    case 3
    let ?c = "if p = IR_BSAR then shift_mask J else k AND shift_mask J"
    have e: "reassoc_shift J = (op2_kint ?c (set_op1 (ir_op1 (fl J)) J), RETRYFOLD)"
      using 3 True c(2) assms(2) by (simp add: reassoc_shift_def PHIBARRIER_def Let_def k_def [symmetric])
    have "shift_at (fw J) p (unat ?c mod ?L) ?x = finval \<rho> J"
      using 3 Lp by (simp add: f c(3) shift_mask_len)
    then show ?thesis using re [of ?c] assms(6) unfolding e by simp
  qed
qed (auto simp: reassoc_shift_def PHIBARRIER_def Let_def)
end
