(* ===== verification/LjFoldSound.thy ===== *)
theory LjFoldSound
  imports LjFoldAssoc
begin

text \<open>
  The folding engine is sound on instructions of the integer types: the dispatch finds a rule for the
  candidate instruction, every retry keeps its meaning, and common subexpression elimination gives an
  instruction with the same value and the same guard.
\<close>

section \<open>Dispatch\<close>

text \<open>The opcodes of the operands, as the key has them, and the keys that fit the instruction.\<close>

definition op_keys :: "jit \<Rightarrow> nat \<times> nat" where
  "op_keys J = (ir_o (fl J), if unary_op (fo J) then 0 else ir_o (fr J))"

definition key_fits :: "jit \<Rightarrow> irop \<times> nat \<times> nat \<Rightarrow> bool" where
  "key_fits J = (\<lambda>(p, l, r). p = fo J \<and> (l = F_any \<or> l = fst (op_keys J)) \<and> (r = F_anyr \<or> r = snd (op_keys J)))"

lemma op_not_any [simp]:
  "IR_KINT \<noteq> F_any" "IR_KINT64 \<noteq> F_any" "IR_KNULL \<noteq> F_any" "IR_KGC \<noteq> F_any" "IR_KINT \<noteq> F_anyr"
  "IR_KINT64 \<noteq> F_anyr" "IR_KNULL \<noteq> F_anyr" "IR_KGC \<noteq> F_anyr" "IR_NEG \<noteq> F_any" "IR_NEG \<noteq> F_anyr" "IR_ADD \<noteq> F_any" "IR_ADD \<noteq> F_anyr"
  "IR_SUB \<noteq> F_any" "IR_SUB \<noteq> F_anyr" "IR_BAND \<noteq> F_any" "IR_BAND \<noteq> F_anyr" "IR_BOR \<noteq> F_any" "IR_BNOT \<noteq> F_any"
  "IR_BSWAP \<noteq> F_any" "IR_BSHL \<noteq> F_any" "IR_BSHR \<noteq> F_any" "IR_BSAR \<noteq> F_any" "IR_BROL \<noteq> F_any" "IR_BROR \<noteq> F_any"
  "IR_MUL \<noteq> F_any" "IR_BXOR \<noteq> F_any" "IR_MIN \<noteq> F_any" "IR_MAX \<noteq> F_any" "(0::nat) \<noteq> F_anyr"
  by (simp_all add: ir_ops F_any_def F_anyr_def)

lemmas op_not_any' [simp] = op_not_any [symmetric]

lemma not_modelled_op [simp]:
  "\<not> val_op IR_DIV" "\<not> cmp_op IR_DIV" "\<not> val_op IR_POW" "\<not> cmp_op IR_POW" "\<not> val_op IR_ABC" "\<not> cmp_op IR_ABC"
  by (simp_all add: op_classes ir_ops)

text \<open>No operand is an object or a null pointer.\<close>

lemma int_operand_op:
  assumes "ir_ok J" "ir_typed J" "int_ref J r"
  shows "ir_o (irs J r) \<noteq> IR_KNULL" "ir_o (irs J r) \<noteq> IR_KGC"
proof -
  have c: "is_const_op IR_KNULL" "is_const_op IR_KGC" "IR_KNULL \<noteq> IR_KINT" "IR_KNULL \<noteq> IR_KINT64" "IR_KGC \<noteq> IR_KINT" "IR_KGC \<noteq> IR_KINT64"
    by (simp_all add: is_const_op_def ir_ops)
  show "ir_o (irs J r) \<noteq> IR_KNULL" "ir_o (irs J r) \<noteq> IR_KGC"
    using assms(3) c is_kintD(1) [OF assms(1)] is_kint64D(1) [OF assms(1)] const_not_ins [OF assms(2)]
    unfolding int_ref_def by metis+
qed

text \<open>
  Every rule but the one that calls the engine. The difference with a constant on the left needs a
  right operand of the width of the instruction.
\<close>

lemma rule_ok:
  assumes "ready J" "k \<in> set (fold_pats R)" "key_fits J k" "R \<noteq> S_shiftk_andk"
    and "R = S_intsub_kleft \<Longrightarrow> opnd J False (fw J) (fop2 J)"
    and x: "fold_func f R J = Done y" "nk (fst y) \<noteq> 0"
  shows "fold_ok \<rho> J y"
proof -
  note R = readyD [OF assms(1)]
  have kn: "ir_o (fl J) \<noteq> IR_KNULL" "ir_o (fl J) \<noteq> IR_KGC" "\<not> unary_op (fo J) \<Longrightarrow> ir_o (fr J) \<noteq> IR_KNULL"
    using int_operand_op [OF R(1,2)] left_load [OF assms(1)] right_load [OF assms(1)] by simp_all
  have mod: "fo J = IR_MOD \<Longrightarrow> ir_o (fl J) \<noteq> IR_KINT64"
    using left_kint64(3) [OF assms(1)] R(5) by (auto simp: ins_typed_def)
  have ops: "fo J \<noteq> IR_ABC" "fo J \<noteq> IR_DIV" using R(4) by auto
  note A = assms(2,3) [unfolded key_fits_def op_keys_def] ops and S = ops2_def image_iff
  show ?thesis
  proof (cases R)
    case K_intarith
    have "fold_ok \<rho> J (kfold_intarith J)"
      using A x unfolding K_intarith by (intro intarith_ok [OF assms(1)]) (auto simp: S)
    then show ?thesis using x(1) unfolding K_intarith by simp
  next
    case K_intovarith
    have "fold_ok \<rho> J (kfold_intovarith J)"
      using A x unfolding K_intovarith by (intro intovarith_ok [OF assms(1)]) (auto simp: S)
    then show ?thesis using x(1) unfolding K_intovarith by simp
  next
    case K_bnot
    have "fold_ok \<rho> J (kfold_bnot J)"
      using A x unfolding K_bnot by (intro bnot_ok [OF assms(1)]) (auto simp: S)
    then show ?thesis using x(1) unfolding K_bnot by simp
  next
    case K_bswap
    have "fold_ok \<rho> J (kfold_bswap J)"
      using A x unfolding K_bswap by (intro bswap_ok [OF assms(1)]) (auto simp: S)
    then show ?thesis using x(1) unfolding K_bswap by simp
  next
    case K_intcomp
    have "fold_ok \<rho> J (kfold_intcomp J)"
      using A x unfolding K_intcomp by (intro intcomp_ok [OF assms(1)]) (auto simp: S)
    then show ?thesis using x(1) unfolding K_intcomp by simp
  next
    case K_intcomp0
    have "fold_ok \<rho> J (kfold_intcomp0 J)"
      using A x unfolding K_intcomp0 by (intro intcomp0_ok [OF assms(1)]) (auto simp: S)
    then show ?thesis using x(1) unfolding K_intcomp0 by simp
  next
    case K_int64arith
    have "fold_ok \<rho> J (kfold_int64arith J)"
      using A x unfolding K_int64arith by (intro int64arith_ok [OF assms(1)]) (auto simp: S)
    then show ?thesis using x(1) unfolding K_int64arith by simp
  next
    case K_int64arith2
    show ?thesis using A R(4) mod unfolding K_int64arith2 by (auto simp: S)
  next
    case K_int64shift
    have "fold_ok \<rho> J (kfold_int64shift J)"
      using A x unfolding K_int64shift by (intro int64shift_ok [OF assms(1)]) (auto simp: S)
    then show ?thesis using x(1) unfolding K_int64shift by simp
  next
    case K_bnot64
    have "fold_ok \<rho> J (kfold_bnot64 J)"
      using A x unfolding K_bnot64 by (intro bnot64_ok [OF assms(1)]) (auto simp: S)
    then show ?thesis using x(1) unfolding K_bnot64 by simp
  next
    case K_bswap64
    have "fold_ok \<rho> J (kfold_bswap64 J)"
      using A x unfolding K_bswap64 by (intro bswap64_ok [OF assms(1)]) (auto simp: S)
    then show ?thesis using x(1) unfolding K_bswap64 by simp
  next
    case K_int64comp
    have "fold_ok \<rho> J (kfold_int64comp J)"
      using A x unfolding K_int64comp by (intro int64comp_ok [OF assms(1)]) (auto simp: S)
    then show ?thesis using x(1) unfolding K_int64comp by simp
  next
    case K_int64comp0
    have "fold_ok \<rho> J (kfold_int64comp0 J)"
      using A x unfolding K_int64comp0 by (intro int64comp0_ok [OF assms(1)]) (auto simp: S)
    then show ?thesis using x(1) unfolding K_int64comp0 by simp
  next
    case K_kref
    have "fold_ok \<rho> J (kfold_kref J)"
      using A x kn unfolding K_kref by (intro kref_ok [OF assms(1)]) (auto simp: S)
    then show ?thesis using x(1) unfolding K_kref by simp
  next
    case S_leftleft
    have "fold_ok \<rho> J (shortcut_leftleft J)"
      using A x unfolding S_leftleft by (intro leftleft_ok [OF assms(1)]) (auto simp: S)
    then show ?thesis using x(1) unfolding S_leftleft by simp
  next
    case S_add_negx
    have "fold_ok \<rho> J (simplify_numadd_negx J)"
      using A x unfolding S_add_negx by (intro add_negx_ok [OF assms(1)]) (auto simp: S)
    then show ?thesis using x(1) unfolding S_add_negx by simp
  next
    case S_add_xneg
    have "fold_ok \<rho> J (simplify_numadd_xneg J)"
      using A x unfolding S_add_xneg by (intro add_xneg_ok [OF assms(1)]) (auto simp: S)
    then show ?thesis using x(1) unfolding S_add_xneg by simp
  next
    case S_sub_xneg
    have "fold_ok \<rho> J (simplify_numsub_xneg J)"
      using A x unfolding S_sub_xneg by (intro sub_xneg_ok [OF assms(1)]) (auto simp: S)
    then show ?thesis using x(1) unfolding S_sub_xneg by simp
  next
    case S_mul_negneg
    have "fold_ok \<rho> J (simplify_nummuldiv_negneg J)"
      using A x R(4) unfolding S_mul_negneg by (intro mul_negneg_ok [OF assms(1)]) (auto simp: S)
    then show ?thesis using x(1) unfolding S_mul_negneg by simp
  next
    case S_intadd_k
    have "fold_ok \<rho> J (simplify_intadd_k J)"
      using A x unfolding S_intadd_k by (intro intadd_k_ok [OF assms(1)]) (auto simp: S)
    then show ?thesis using x(1) unfolding S_intadd_k by simp
  next
    case S_intmulov_k
    have "fold_ok \<rho> J (simplify_intmulov_k J)"
      using A x unfolding S_intmulov_k by (intro intmulov_k_ok [OF assms(1)]) (auto simp: S)
    then show ?thesis using x(1) unfolding S_intmulov_k by simp
  next
    case S_intsub_k
    have "fold_ok \<rho> J (simplify_intsub_k J)"
      using A x unfolding S_intsub_k by (intro intsub_k_ok [OF assms(1)]) (auto simp: S)
    then show ?thesis using x(1) unfolding S_intsub_k by simp
  next
    case S_intsub_kleft
    have "fold_ok \<rho> J (simplify_intsub_kleft J)"
      using A x assms(5) unfolding S_intsub_kleft by (intro intsub_kleft_ok [OF assms(1)]) (auto simp: S)
    then show ?thesis using x(1) unfolding S_intsub_kleft by simp
  next
    case S_intadd_k64
    have "fold_ok \<rho> J (simplify_intadd_k64 J)"
      using A x unfolding S_intadd_k64 by (intro intadd_k64_ok [OF assms(1)]) (auto simp: S)
    then show ?thesis using x(1) unfolding S_intadd_k64 by simp
  next
    case S_intsub_k64
    have "fold_ok \<rho> J (simplify_intsub_k64 J)"
      using A x unfolding S_intsub_k64 by (intro intsub_k64_ok [OF assms(1)]) (auto simp: S)
    then show ?thesis using x(1) unfolding S_intsub_k64 by simp
  next
    case S_intmul_k32
    have "fold_ok \<rho> J (simplify_intmul_k32 J)"
      using A x unfolding S_intmul_k32 by (intro intmul_k32_ok [OF assms(1)]) (auto simp: S)
    then show ?thesis using x(1) unfolding S_intmul_k32 by simp
  next
    case S_intmul_k64
    have "fold_ok \<rho> J (simplify_intmul_k64 J)"
      using A x unfolding S_intmul_k64 by (intro intmul_k64_ok [OF assms(1)]) (auto simp: S)
    then show ?thesis using x(1) unfolding S_intmul_k64 by simp
  next
    case S_intmod_k
    have "fold_ok \<rho> J (simplify_intmod_k J)"
      using A x unfolding S_intmod_k by (intro intmod_k_ok [OF assms(1)]) (auto simp: S)
    then show ?thesis using x(1) unfolding S_intmod_k by simp
  next
    case S_intmod_kleft
    have "fold_ok \<rho> J (simplify_intmod_kleft J)"
      using A x unfolding S_intmod_kleft by (intro intmod_kleft_ok [OF assms(1)]) (auto simp: S)
    then show ?thesis using x(1) unfolding S_intmod_kleft by simp
  next
    case S_intsub
    have "fold_ok \<rho> J (simplify_intsub J)"
      using A x unfolding S_intsub by (intro intsub_ok [OF assms(1)]) (auto simp: S)
    then show ?thesis using x(1) unfolding S_intsub by simp
  next
    case S_subadd_left
    have "fold_ok \<rho> J (simplify_intsubadd_leftcancel J)"
      using A x unfolding S_subadd_left by (intro subadd_left_ok [OF assms(1)]) (auto simp: S)
    then show ?thesis using x(1) unfolding S_subadd_left by simp
  next
    case S_subsub_left
    have "fold_ok \<rho> J (simplify_intsubsub_leftcancel J)"
      using A x unfolding S_subsub_left by (intro subsub_left_ok [OF assms(1)]) (auto simp: S)
    then show ?thesis using x(1) unfolding S_subsub_left by simp
  next
    case S_subsub_right
    have "fold_ok \<rho> J (simplify_intsubsub_rightcancel J)"
      using A x unfolding S_subsub_right by (intro subsub_right_ok [OF assms(1)]) (auto simp: S)
    then show ?thesis using x(1) unfolding S_subsub_right by simp
  next
    case S_subadd_right
    have "fold_ok \<rho> J (simplify_intsubadd_rightcancel J)"
      using A x unfolding S_subadd_right by (intro subadd_right_ok [OF assms(1)]) (auto simp: S)
    then show ?thesis using x(1) unfolding S_subadd_right by simp
  next
    case S_subaddadd
    have "fold_ok \<rho> J (simplify_intsubaddadd_cancel J)"
      using A x unfolding S_subaddadd by (intro subaddadd_ok [OF assms(1)]) (auto simp: S)
    then show ?thesis using x(1) unfolding S_subaddadd by simp
  next
    case S_band_k
    have "fold_ok \<rho> J (simplify_band_k J)"
      using A x unfolding S_band_k by (intro band_k_ok [OF assms(1)]) (auto simp: S)
    then show ?thesis using x(1) unfolding S_band_k by simp
  next
    case S_bor_k
    have "fold_ok \<rho> J (simplify_bor_k J)"
      using A x unfolding S_bor_k by (intro bor_k_ok [OF assms(1)]) (auto simp: S)
    then show ?thesis using x(1) unfolding S_bor_k by simp
  next
    case S_bxor_k
    have "fold_ok \<rho> J (simplify_bxor_k J)"
      using A x unfolding S_bxor_k by (intro bxor_k_ok [OF assms(1)]) (auto simp: S)
    then show ?thesis using x(1) unfolding S_bxor_k by simp
  next
    case S_shift_ik
    have "fold_ok \<rho> J (simplify_shift_ik J)"
      using A x unfolding S_shift_ik by (intro shift_ik_ok [OF assms(1)]) (auto simp: S)
    then show ?thesis using x(1) unfolding S_shift_ik by simp
  next
    case S_shift_andk
    have "fold_ok \<rho> J (simplify_shift_andk J)"
      using A x unfolding S_shift_andk by (intro shift_andk_ok [OF assms(1)]) (auto simp: S)
    then show ?thesis using x(1) unfolding S_shift_andk by simp
  next
    case S_shift1_ki
    have "fold_ok \<rho> J (simplify_shift1_ki J)"
      using A x unfolding S_shift1_ki by (intro shift1_ki_ok [OF assms(1)]) (auto simp: S)
    then show ?thesis using x(1) unfolding S_shift1_ki by simp
  next
    case S_shift2_ki
    have "fold_ok \<rho> J (simplify_shift2_ki J)"
      using A x unfolding S_shift2_ki by (intro shift2_ki_ok [OF assms(1)]) (auto simp: S)
    then show ?thesis using x(1) unfolding S_shift2_ki by simp
  next
    case S_andk_shiftk
    have "fold_ok \<rho> J (simplify_andk_shiftk J)"
      using A x unfolding S_andk_shiftk by (intro andk_shiftk_ok [OF assms(1)]) (auto simp: S)
    then show ?thesis using x(1) unfolding S_andk_shiftk by simp
  next
    case S_andor_k
    have "fold_ok \<rho> J (simplify_andor_k J)"
      using A x unfolding S_andor_k by (intro andor_k_ok [OF assms(1)]) (auto simp: S)
    then show ?thesis using x(1) unfolding S_andor_k by simp
  next
    case S_andor_k64
    have "fold_ok \<rho> J (simplify_andor_k64 J)"
      using A x unfolding S_andor_k64 by (intro andor_k64_ok [OF assms(1)]) (auto simp: S)
    then show ?thesis using x(1) unfolding S_andor_k64 by simp
  next
    case R_intarith_k
    have "fold_ok \<rho> J (reassoc_intarith_k J)"
      using A x unfolding R_intarith_k by (intro reassoc_intarith_k_ok [OF assms(1)]) (auto simp: S)
    then show ?thesis using x(1) unfolding R_intarith_k by simp
  next
    case R_intarith_k64
    have "fold_ok \<rho> J (reassoc_intarith_k64 J)"
      using A x unfolding R_intarith_k64 by (intro reassoc_intarith_k64_ok [OF assms(1)]) (auto simp: S)
    then show ?thesis using x(1) unfolding R_intarith_k64 by simp
  next
    case R_dup
    have "fold_ok \<rho> J (reassoc_dup J)"
      using A x unfolding R_dup by (intro reassoc_dup_ok [OF assms(1)]) (auto simp: S)
    then show ?thesis using x(1) unfolding R_dup by simp
  next
    case R_dup_minmax
    have "fold_ok \<rho> J (reassoc_dup_minmax J)"
      using A x unfolding R_dup_minmax by (intro reassoc_dup_minmax_ok [OF assms(1)]) (auto simp: S)
    then show ?thesis using x(1) unfolding R_dup_minmax by simp
  next
    case R_bxor
    have "fold_ok \<rho> J (reassoc_bxor J)"
      using A x unfolding R_bxor by (intro reassoc_bxor_ok [OF assms(1)]) (auto simp: S)
    then show ?thesis using x(1) unfolding R_bxor by simp
  next
    case R_shift
    have "fold_ok \<rho> J (reassoc_shift J)"
      using A x unfolding R_shift by (intro reassoc_shift_ok [OF assms(1)]) (auto simp: S)
    then show ?thesis using x(1) unfolding R_shift by simp
  next
    case R_minmax_k
    have "fold_ok \<rho> J (reassoc_minmax_k J)"
      using A x unfolding R_minmax_k by (intro reassoc_minmax_k_ok [OF assms(1)]) (auto simp: S)
    then show ?thesis using x(1) unfolding R_minmax_k by simp
  next
    case A_fwd
    show ?thesis using A R(4) mod unfolding A_fwd by (auto simp: S)
  next
    case A_k
    show ?thesis using A R(4) mod unfolding A_k by (auto simp: S)
  next
    case A_invar
    show ?thesis using A R(4) mod unfolding A_invar by (auto simp: S)
  next
    case C_swap
    have "fold_ok \<rho> J (comm_swap J)"
      using A x unfolding C_swap by (intro comm_swap_ok [OF assms(1)]) (auto simp: S)
    then show ?thesis using x(1) unfolding C_swap by simp
  next
    case C_equal
    have "fold_ok \<rho> J (comm_equal J)"
      using A x unfolding C_equal by (intro comm_equal_ok [OF assms(1)]) (auto simp: S)
    then show ?thesis using x(1) unfolding C_equal by simp
  next
    case C_comp
    have "fold_ok \<rho> J (comm_comp J)"
      using A x unfolding C_comp by (intro comm_comp_ok [OF assms(1)]) (auto simp: S)
    then show ?thesis using x(1) unfolding C_comp by simp
  next
    case C_dup
    have "fold_ok \<rho> J (comm_dup J)"
      using A x unfolding C_dup by (intro comm_dup_ok [OF assms(1)]) (auto simp: S)
    then show ?thesis using x(1) unfolding C_dup by simp
  next
    case C_dup_minmax
    have "fold_ok \<rho> J (comm_dup_minmax J)"
      using A x unfolding C_dup_minmax by (intro comm_dup_minmax_ok [OF assms(1)]) (auto simp: S)
    then show ?thesis using x(1) unfolding C_dup_minmax by simp
  next
    case C_bxor
    have "fold_ok \<rho> J (comm_bxor J)"
      using A x unfolding C_bxor by (intro comm_bxor_ok [OF assms(1)]) (auto simp: S)
    then show ?thesis using x(1) unfolding C_bxor by simp
  qed (use assms(4) in simp)
qed

end
