(* ===== verification/LjFoldEng.thy ===== *)
theory LjFoldEng
  imports LjFoldSound
begin

text \<open>
  The parts of the engine around the rules: loading the operands, common subexpression elimination,
  the rule that calls the engine for an intermediate instruction, and what one try gives.
\<close>

section \<open>Loading the operands\<close>

lemma trace_fins [simp]: "trace_ok \<rho> (J\<lparr>fins := f\<rparr>) = trace_ok \<rho> J" "trace_ok \<rho> (J\<lparr>fleft := l\<rparr>) = trace_ok \<rho> J"
  "trace_ok \<rho> (J\<lparr>fright := l\<rparr>) = trace_ok \<rho> J"
  by (simp_all add: trace_ok_def)

lemma fold_load_ready:
  assumes "ir_ok J" "ir_typed J" "fins_ok J" "fold_load J = (lr, J')"
  shows "ready J'" "lr = op_keys J'" "\<exists>l r. J' = J\<lparr>fleft := l, fright := r\<rparr>"
proof -
  let ?copy = "\<lambda>r old. (irs J r, if r < REF_TRUE then irs J (r + 1) else snd old)"
  define l where "l = (if nk J \<le> fop1 J then ?copy (fop1 J) (fleft J) else fleft J)"
  define r where "r = (if nk J \<le> fop2 J then ?copy (fop2 J) (fright J) else fright J)"
  have e: "lr = (if nk J \<le> fop1 J then ir_o (irs J (fop1 J)) else 0,
      if nk J \<le> fop2 J then ir_o (irs J (fop2 J)) else fop2 J AND 0x3ff)" "J' = J\<lparr>fleft := l, fright := r\<rparr>"
    using assms(4) by (auto simp: fold_load_def Let_def l_def r_def)
  show "\<exists>l r. J' = J\<lparr>fleft := l, fright := r\<rparr>" using e(2) by blast
  have ty: "ins_typed J True (fo J) (fw J) (fop1 J) (fop2 J)" "int_t (ft J)" using assms(3) by (simp_all add: fins_ok_def)
  have "fins_ok J'" using ty by (simp add: e(2) fins_ok_def)
  then show rd: "ready J'"
    using assms(1,2) by (simp add: ready_def e(2)) (auto simp: loaded_def l_def r_def ir_k64_def)
  have 1: "nk J \<le> fop1 J" using int_refD(1) [OF assms(1) ins_typed_refs(1) [OF ty(1)]] .
  show "lr = op_keys J'"
  proof (cases "unary_op (fo J)")
    case True
    then have "fop2 J = 0" "\<not> nk J \<le> fop2 J" using ty(1) ir_okD [OF assms(1)] by (simp_all add: ins_typed_def)
    then show ?thesis using True 1 by (simp add: e op_keys_def l_def)
  next
    case False
    then have "nk J \<le> fop2 J" using int_refD(1) [OF assms(1) ins_typed_refs(2) [OF ty(1)]] by simp
    then show ?thesis using False 1 by (simp add: e op_keys_def l_def r_def)
  qed
qed

lemma keys_fit: "k \<in> set (fold_keys (fo J) (op_keys J)) \<Longrightarrow> key_fits J k"
  by (cases "op_keys J") (auto simp: fold_keys_def key_fits_def)

lemma hash_pats: "fold_hash k = Some R \<Longrightarrow> k \<in> set (fold_pats R)"
  by (auto simp: fold_hash_def find_Some_iff)

section \<open>Common subexpression elimination\<close>

text \<open>What a fold gives: the reference has the value, and the guards of the IR are those before and
  the one of the candidate instruction.\<close>

definition post_ref :: "(nat \<Rightarrow> u64) \<Rightarrow> jit \<Rightarrow> jit \<Rightarrow> nat \<Rightarrow> bool" where
  "post_ref \<rho> J J' r \<longleftrightarrow> ir_ok J' \<and> ir_typed J' \<and> ir_ext J J' \<and> (trace_ok \<rho> J' \<longleftrightarrow> trace_ok \<rho> J \<and> finguard \<rho> J) \<and>
     (val_op (fo J) \<longrightarrow> opnd J' True (fw J) r \<and> agree (fw J) (V \<rho> J' r) (finval \<rho> J))"

lemma typed_width:
  assumes "ins_typed J False p w a b" "ins_typed J False p w' a b"
  shows "w = w'"
proof (cases "unary_op p \<or> shift_op p")
  case True
  then have "\<not> zop p" by (auto simp: op_classes)
  then show ?thesis using assms by (auto simp: ins_typed_def opnd_def)
next
  case False
  then show ?thesis using assms by (auto simp: ins_typed_def opnd_def)
qed

lemma cse_found:
  assumes "ir_ok J" "ir_typed J" "int_t (ft J)" "ins_typed J False (fo J) (fw J) (fop1 J) (fop2 J)"
    and "r \<in> set (chain_list J (fo J))" "ir_op1 (irs J r) = fop1 J" "ir_op2 (irs J r) = fop2 J"
  shows "post_ref \<rho> J J r"
proof -
  have op: "val_op (fo J) \<or> cmp_op (fo J)" using assms(4) by (simp add: ins_typed_def)
  note c = chain_listD [OF _ assms(5)] and wf = assms(1)[unfolded ir_ok_def, THEN conjunct1]
  have i: "is_ins J r" "ir_o (irs J r) = fo J"
    using c [OF wf] val_op_not_const [OF op] by (simp_all add: is_ins_def)
  have "int_ins J (irs J r)"
    using op i(2) assms(6) ins_typed_refs(1) [OF assms(4)] by (simp add: int_ins_def)
  then have t: "int_t (ir_t (irs J r))" using assms(2) i(1) by (simp add: ir_typed_def)
  have "ins_typed J False (fo J) (irt_is64 (ir_t (irs J r))) (fop1 J) (fop2 J)"
    using int_insD(3) [OF assms(2) i(1) t] op i(2) assms(6,7) by simp
  then have w: "irt_is64 (ir_t (irs J r)) = fw J" using typed_width assms(4) by blast
  have "trace_ok \<rho> J \<Longrightarrow> finguard \<rho> J"
    using i t op w assms(6,7) by (auto simp: trace_ok_def finguard_def)
  moreover have "V \<rho> J r = finval \<rho> J" if "val_op (fo J)"
    using irval_ins [OF assms(2) i(1) t] that i(2) w assms(6,7) by (simp add: finval_def)
  moreover have "opnd J True (fw J) r" using opnd_ins [OF assms(1) i(1)] t w by simp
  ultimately show ?thesis
    using assms(1,2) by (auto simp: post_ref_def ir_ext_refl)
qed

lemma cse_new:
  assumes "ir_ok J" "ir_typed J" "int_t (ft J)" "ins_typed J False (fo J) (fw J) (fop1 J) (fop2 J)"
    and e: "lj_ir_emit J = (r, J')"
  shows "post_ref \<rho> J J' r"
proof -
  have op: "val_op (fo J) \<or> cmp_op (fo J)" using assms(4) by (simp add: ins_typed_def)
  have em: "emitted J r J'" by (rule emit_emitted [OF assms(1) val_op_not_const [OF op] e])
  have x: "ir_ok J'" "ir_ext J J'" "r = nins J" "nins J' = nins J + 1" "nk J' = nk J"
    and i: "ir_o (irs J' r) = fo J" "ir_op1 (irs J' r) = fop1 J" "ir_op2 (irs J' r) = fop2 J" "ir_t (irs J' r) = ft J"
    using em unfolding emitted_def by blast+
  note b = ir_okD [OF assms(1)]
  have ins: "is_ins J' q \<longleftrightarrow> is_ins J q \<or> q = r" for q using x(3,4) b by (auto simp: is_ins_def ir_refs)
  have lt: "fop1 J < r" "fop2 J < r" "nk J \<le> fop1 J"
    using int_refD [OF assms(1) ins_typed_refs(1) [OF assms(4)]] int_refD [OF assms(1) ins_typed_refs(2) [OF assms(4)]]
      assms(4) x(3) b by (auto simp: ins_typed_def ir_refs split: if_splits)
  have t: "ins_typed J' False (fo J) (fw J) (fop1 J) (fop2 J)" by (rule ext_ins_typed [OF assms(1) x(2) assms(4)])
  have nc: "\<not> is_const_op (fo J)" by (rule val_op_not_const [OF op])
  have ty: "ir_typed J'"
    unfolding ir_typed_def ins
  proof (rule allI, rule impI)
    fix q assume "is_ins J q \<or> q = r"
    then show "\<not> is_const_op (ir_o (irs J' q)) \<and>
      (val_op (ir_o (irs J' q)) \<or> cmp_op (ir_o (irs J' q)) \<longrightarrow> nk J' \<le> ir_op1 (irs J' q) \<and> ir_op1 (irs J' q) < q) \<and>
      (int_ins J' (irs J' q) \<longrightarrow>
       int_t (ir_t (irs J' q)) \<and> ir_op1 (irs J' q) < q \<and> ir_op2 (irs J' q) < q \<and>
       ins_typed J' False (ir_o (irs J' q)) (irt_is64 (ir_t (irs J' q))) (ir_op1 (irs J' q)) (ir_op2 (irs J' q)))"
    proof
      assume "is_ins J q"
      from ext_typed_at [OF assms(1,2) x(2) this] show ?thesis by blast
    next
      assume "q = r"
      then show ?thesis using i lt t nc assms(3) x(5) by simp
    qed
  qed
  have ii: "is_ins J' r" "int_t (ir_t (irs J' r))" "val_op (ir_o (irs J' r)) \<or> cmp_op (ir_o (irs J' r))"
    using ins i op assms(3) by simp_all
  have g: "guard_op (fw J) (fo J) (V \<rho> J' (fop1 J)) (V \<rho> J' (fop2 J)) = finguard \<rho> J"
    unfolding finguard_def by (rule trace_ok_ops [OF assms(1,2) x(2) assms(4)])
  have old: "guard_op (irt_is64 (ir_t (irs J' q))) (ir_o (irs J' q)) (V \<rho> J' (ir_op1 (irs J' q))) (V \<rho> J' (ir_op2 (irs J' q)))
      = guard_op (irt_is64 (ir_t (irs J q))) (ir_o (irs J q)) (V \<rho> J (ir_op1 (irs J q))) (V \<rho> J (ir_op2 (irs J q)))"
    if "is_ins J q" "int_t (ir_t (irs J q))" "val_op (ir_o (irs J q)) \<or> cmp_op (ir_o (irs J q))" for q
  proof -
    have "irs J' q = irs J q" using ext_refs(4) [OF assms(1) x(2)] is_insD [OF assms(1) that(1)] by simp
    then show ?thesis using trace_ok_ops [OF assms(1,2) x(2) int_insD(3) [OF assms(2) that]] by simp
  qed
  have same: "irs J' q = irs J q" if "is_ins J q" for q
    using ext_refs(4) [OF assms(1) x(2)] is_insD [OF assms(1) that] by simp
  have "trace_ok \<rho> J' \<longleftrightarrow> trace_ok \<rho> J \<and> finguard \<rho> J"
  proof
    assume t': "trace_ok \<rho> J'"
    have "trace_ok \<rho> J"
      unfolding trace_ok_def using t' old same ins unfolding trace_ok_def by metis
    then show "trace_ok \<rho> J \<and> finguard \<rho> J" using t' ii i g by (auto simp: trace_ok_def)
  next
    assume t': "trace_ok \<rho> J \<and> finguard \<rho> J"
    show "trace_ok \<rho> J'"
      unfolding trace_ok_def
    proof (intro allI impI)
      fix q assume q: "is_ins J' q" "int_t (ir_t (irs J' q))" "val_op (ir_o (irs J' q)) \<or> cmp_op (ir_o (irs J' q))"
      show "guard_op (irt_is64 (ir_t (irs J' q))) (ir_o (irs J' q)) (V \<rho> J' (ir_op1 (irs J' q))) (V \<rho> J' (ir_op2 (irs J' q)))"
      proof (cases "q = r")
        case True
        then show ?thesis using t' g i by simp
      next
        case False
        then have "is_ins J q" using q(1) ins by simp
        then show ?thesis
          using t' [THEN conjunct1, unfolded trace_ok_def, rule_format, of q] old [of q] same [of q] q by simp
      qed
    qed
  qed
  moreover have "V \<rho> J' r = finval \<rho> J" if v: "val_op (fo J)"
  proof -
    have "apply_op (fw J) (fo J) (V \<rho> J' (fop1 J)) (V \<rho> J' (fop2 J)) = finval \<rho> J"
      using irval_ext [OF assms(1,2) x(2)] ins_typed_refs [OF assms(4)] unary_apply [of "fo J"]
      unfolding finval_def by (cases "unary_op (fo J)") auto
    then show ?thesis using irval_ins [OF ty ii(1,2)] v i by simp
  qed
  moreover have "opnd J' True (fw J) r" using opnd_ins [OF x(1) ii(1)] ii(2) i by simp
  ultimately show ?thesis using x(1,2) ty by (simp add: post_ref_def)
qed

lemma cse_ok:
  assumes "ir_ok J" "ir_typed J" "int_t (ft J)" "ins_typed J False (fo J) (fw J) (fop1 J) (fop2 J)"
    and "lj_opt_cse J = (J', r)"
  shows "post_ref \<rho> J J' r"
proof -
  have wf: "ir_wf J" using assms(1) by (simp add: ir_ok_def)
  define found where "found = (if jit_flags J AND JIT_F_OPT_CSE \<noteq> 0 then
      chain_lookup J (fo J) (\<lambda>r. ir_op1 (irs J r) = fop1 J \<and> ir_op2 (irs J r) = fop2 J) (max (fop1 J) (fop2 J)) else None)"
  have e: "lj_opt_cse J = (case found of Some ref \<Rightarrow> (J, ref) | None \<Rightarrow> let (ref, J) = lj_ir_emit J in (J, ref))"
    by (simp add: lj_opt_cse_def found_def Let_def)
  show ?thesis
  proof (cases found)
    case None
    then show ?thesis using assms(5) cse_new [OF assms(1-4)] unfolding e by (simp split: prod.splits)
  next
    case (Some ref)
    then have "chain_lookup J (fo J) (\<lambda>r. ir_op1 (irs J r) = fop1 J \<and> ir_op2 (irs J r) = fop2 J) (max (fop1 J) (fop2 J)) = Some ref"
      by (simp add: found_def split: if_splits)
    from chain_lookup_Some [OF wf this] show ?thesis using assms(5) Some cse_found [OF assms(1-4)] unfolding e by simp
  qed
qed

section \<open>The rule that folds an intermediate instruction\<close>

definition pre_fold :: "jit \<Rightarrow> bool" where
  "pre_fold J \<longleftrightarrow> ir_ok J \<and> ir_typed J \<and> fins_ok J \<and> \<not> bad_shift J \<and> jit_flags J AND JIT_F_OPT_FOLD \<noteq> 0"

definition eng_ok :: "(nat \<Rightarrow> u64) \<Rightarrow> (jit \<Rightarrow> (jit \<times> nat) tr) \<Rightarrow> bool" where
  "eng_ok \<rho> eng \<longleftrightarrow> (\<forall>J. pre_fold J \<longrightarrow>
     (\<forall>J' r. eng J = Done (J', r) \<longrightarrow> nk J' \<noteq> 0 \<longrightarrow> post_ref \<rho> J J' r) \<and>
     (\<forall>J'. eng J = TraceErr J' \<longrightarrow> nk J' \<noteq> 0 \<longrightarrow> \<not> finguard \<rho> J))"

definition moved :: "(nat \<Rightarrow> u64) \<Rightarrow> jit \<Rightarrow> jit \<Rightarrow> bool" where
  "moved \<rho> J J' \<longleftrightarrow> ir_ok J' \<and> ir_typed J' \<and> ir_ext J J' \<and> trace_ok \<rho> J' = trace_ok \<rho> J"

lemma grown_moved: "ir_ok J \<Longrightarrow> ir_typed J \<Longrightarrow> grown J J' \<Longrightarrow> moved \<rho> J J'"
  using grown_trace by (simp add: moved_def grown_def)

lemma ext_fins_left [simp]: "ir_ext (J\<lparr>fins := f\<rparr>) J' = ir_ext J J'" "ir_ext (J\<lparr>fleft := l\<rparr>) J' = ir_ext J J'"
  "ir_ext (J\<lparr>fright := l\<rparr>) J' = ir_ext J J'"
  by (simp_all add: ir_ext_def)

lemma shf_mask: "p = IR_BSHL \<or> p = IR_BSHR \<or> p = IR_BROL \<or> p = IR_BROR \<Longrightarrow> shf p n (a AND b) = shf p n a AND shf p n b"
  by (auto simp: shf_def ir_ops push_bit_and drop_bit_and word_rot_logs)

lemma kint_le: "nk (snd (lj_ir_kint k J)) \<le> nk J" "nk (snd (lj_ir_kint64 k' J)) \<le> nk J"
  by (auto simp: lj_ir_kint_def lj_ir_kint64_def lj_ir_k64_def ir_nextk_def ir_nextk64_def lj_ir_growbot_def Let_def split: option.split)

lemma agree_op: "agree w x y \<Longrightarrow> apply_op w p x z = apply_op w p y z"
  by (rule apply_agree) simp_all

lemma masked_retry:
  assumes rd: "ready J" "fo J = p" "shift_op p" "\<not> bad_shift J" "agree (fw J) (V \<rho> J1 q) y"
    and E: "moved \<rho> J J1" "opnd J1 True (fw J) q"
    and K: "grown J1 J2" "opnd J2 True (fw J) c" "V \<rho> J2 c = k"
    and J': "J' = J2\<lparr>fins := f\<rparr>" "ir_op1 f = q" "ir_op2 f = c" "ir_o f = IR_BAND" "int_t (ir_t f)" "irt_is64 (ir_t f) = fw J"
    and v: "apply_op (fw J) IR_BAND y k = finval \<rho> J"
  shows "moved \<rho> J J' \<and> same_ins \<rho> J J'"
proof -
  have p: "val_op p" "\<not> ov_op p" using rd(3) by (auto simp: shift_op_def)
  have J1: "ir_ok J1" "ir_typed J1" using E by (simp_all add: moved_def)
  note gq = grown_ref [OF J1 K(1) opnd_int_ref [OF E(2)]]
  have "fins_ok J'"
    using J' E(2) gq(3) K(2) by (simp add: fins_ok_def ins_typed_def)
  moreover have "moved \<rho> J J'"
    using E(1) grown_moved [OF J1 K(1), of \<rho>] ir_ext_trans unfolding J'(1) moved_def by auto
  moreover have "finval \<rho> J' = apply_op (fw J) IR_BAND (V \<rho> J1 q) k"
    using J' gq(4) K(3) by (simp add: finval_def)
  moreover have "\<dots> = finval \<rho> J" using agree_op [OF rd(5)] v by simp
  ultimately show ?thesis using J' rd(2) p by (simp add: same_ins_def bad_shift_def finguard_def guard_op_def)
qed

text \<open>The instruction the rule folds first, and what the engine promises for it.\<close>

definition shiftk_ins :: "(nat \<Rightarrow> u64) \<Rightarrow> jit \<Rightarrow> (jit \<Rightarrow> (jit \<times> nat) tr) \<Rightarrow> bool" where
  "shiftk_ins \<rho> J eng \<longleftrightarrow> ready J \<and> (fo J = IR_BSHL \<or> fo J = IR_BSHR \<or> fo J = IR_BROL \<or> fo J = IR_BROR) \<and>
     ir_o (fl J) = IR_BAND \<and> ir_o (fr J) = IR_KINT \<and> \<not> bad_shift J \<and> jit_flags J AND JIT_F_OPT_FOLD \<noteq> 0 \<and> eng_ok \<rho> eng"

lemma shiftk_facts:
  assumes "shiftk_ins \<rho> J eng"
  shows "ready J" "shift_op (fo J)" "\<not> bad_shift J" "\<not> unary_op (fo J)" "\<not> ov_op (fo J)" "val_op (fo J)" "fo J \<noteq> IR_MOD"
    "finguard \<rho> J" "V \<rho> J (fop2 J) = ucast (ir_i (fr J))"
    "finval \<rho> J = apply_op (fw J) (fo J) (apply_op (fw J) IR_BAND (V \<rho> J (ir_op1 (fl J))) (V \<rho> J (ir_op2 (fl J)))) (V \<rho> J (fop2 J))"
    "int_t (ir_t (fl J))" "irt_is64 (ir_t (fl J)) = fw J"
proof -
  note a = assms [unfolded shiftk_ins_def]
  show rd: "ready J" and "\<not> bad_shift J" using a by simp_all
  show p: "shift_op (fo J)" "\<not> unary_op (fo J)" "\<not> ov_op (fo J)" "val_op (fo J)" "fo J \<noteq> IR_MOD" using a by auto
  show "finguard \<rho> J" using p by simp
  show "V \<rho> J (fop2 J) = ucast (ir_i (fr J))" using right_kint(2) [OF rd p(2)] a by simp
  have b: "val_op (ir_o (fl J))" "ir_o (fl J) = IR_BAND" using a by simp_all
  note l = left_ins [OF rd b(1), unfolded b(2)]
  show "finval \<rho> J = apply_op (fw J) (fo J) (apply_op (fw J) IR_BAND (V \<rho> J (ir_op1 (fl J))) (V \<rho> J (ir_op2 (fl J)))) (V \<rho> J (fop2 J))"
    by (simp add: finval_def l(2))
  show "int_t (ir_t (fl J))" "irt_is64 (ir_t (fl J)) = fw J" using l by simp_all
qed

lemma shiftk_pre:
  assumes s: "shiftk_ins \<rho> J eng"
  shows "pre_fold (set_op1 (ir_op1 (fl J)) J)"
proof -
  let ?J0 = "set_op1 (ir_op1 (fl J)) J"
  note a = s [unfolded shiftk_ins_def] and f = shiftk_facts [OF s]
  note R = readyD [OF f(1)]
  have "opnd J True (fw J) (ir_op1 (fl J))"
    using left_ins(1) [OF f(1)] a by (simp add: ins_typed_def)
  then have "fins_ok ?J0"
    using R(3,5) f(2-7) by (auto simp: fins_ok_def set_op1_def ins_typed_def)
  then show ?thesis using R(1,2) a by (simp add: pre_fold_def set_op1_def bad_shift_def)
qed

lemma shiftk_nested:
  assumes s: "shiftk_ins \<rho> J eng" and e: "eng (set_op1 (ir_op1 (fl J)) J) = Done (J1, q)" "nk J1 \<noteq> 0"
  shows "moved \<rho> J J1" "opnd J1 True (fw J) q"
    "agree (fw J) (V \<rho> J1 q) (apply_op (fw J) (fo J) (V \<rho> J (ir_op1 (fl J))) (V \<rho> J (fop2 J)))"
proof -
  let ?J0 = "set_op1 (ir_op1 (fl J)) J"
  note a = s [unfolded shiftk_ins_def] and f = shiftk_facts [OF s]
  have "pre_fold ?J0" by (rule shiftk_pre [OF s])
  then have p: "post_ref \<rho> ?J0 J1 q" using a e unfolding eng_ok_def by blast
  have "finguard \<rho> ?J0" "finval \<rho> ?J0 = apply_op (fw J) (fo J) (V \<rho> J (ir_op1 (fl J))) (V \<rho> J (fop2 J))"
    using f(5,6) by (simp_all add: set_op1_def finval_def finguard_def guard_op_def)
  then show "moved \<rho> J J1" "opnd J1 True (fw J) q"
    "agree (fw J) (V \<rho> J1 q) (apply_op (fw J) (fo J) (V \<rho> J (ir_op1 (fl J))) (V \<rho> J (fop2 J)))"
    using p f(6) unfolding post_ref_def moved_def set_op1_def by simp_all
qed

lemma int_t_INT: "int_t IRT_INT" "\<not> irt_is64 IRT_INT"
  by (simp_all add: int_t_def irt_typerange_def irt_is64_def IRT_IS64_def irt_type_def ir_types IRT_I8_def)

lemma shiftk_kint:
  assumes s: "shiftk_ins \<rho> J eng" and k1: "ir_o (irs J (ir_op2 (fl J))) = IR_KINT"
    and k: "k = kfold_intop (ir_i (irs J (ir_op2 (fl J)))) (ir_i (fr J)) (fo J)"
    and e: "eng (set_op1 (ir_op1 (fl J)) J) = Done (J1, q)" "J' = set_ot IR_BAND IRT_INT (op2_kint k (set_op1 q J1))" "nk J' \<noteq> 0"
  shows "moved \<rho> J J' \<and> same_ins \<rho> J J'"
proof -
  note a = s [unfolded shiftk_ins_def] and f = shiftk_facts [OF s]
  have b: "val_op (ir_o (fl J))" "\<not> unary_op (ir_o (fl J))" "\<not> shift_op (ir_o (fl J))" using a by simp_all
  note lk = left_right_kint [OF f(1) b k1]
  obtain c J2 where n: "lj_ir_kint k (set_op1 q J1) = (c, J2)" by force
  have e2: "J' = J2\<lparr>fins := (fins J2)\<lparr>ir_op2 := c, ir_o := IR_BAND, ir_t := IRT_INT\<rparr>\<rparr>"
    using e(2) n by (simp add: op2_kint_def set_ot_def set_op2_def)
  have nk: "nk J2 \<noteq> 0" "nk J1 \<noteq> 0"
    using e(3) e2 kint_le(1) [of k "set_op1 q J1"] n by (simp_all add: set_op1_def)
  note E = shiftk_nested [OF s e(1) nk(2)]
  have J1: "ir_ok J1" "ir_typed J1" using E by (simp_all add: moved_def)
  note K = kint_grown [OF _ _ n nk(1), simplified set_o_fins, simplified, OF J1]
  have k': "k = irsem32 (fo J) (ir_i (irs J (ir_op2 (fl J)))) (ir_i (fr J))"
    unfolding k by (rule kfold_intop_sem) (use f(4-7) in blast)+
  have v: "apply_op (fw J) IR_BAND (apply_op (fw J) (fo J) (V \<rho> J (ir_op1 (fl J))) (V \<rho> J (fop2 J))) (ucast k) = finval \<rho> J"
    using lk f(9) shf_mask [of "fo J" _ "ucast (V \<rho> J (ir_op1 (fl J))) :: u32"] a unfolding f(10) k'
    by (simp add: sem_simps irsem_shf [OF f(2)])
  show ?thesis
    by (rule masked_retry [OF f(1) refl f(2,3) E(3,1,2) K(1) _ K(5) e2 _ _ _ _ _ v])
      (use K(2,3) int_t_INT lk(1) opnd_kint [OF K(3)] in \<open>simp_all add: set_op1_def\<close>)
qed

lemma count_scast: "unat (scast c AND 63 :: u64) = unat (c::u32) mod 64"
proof -
  have m: "(63::u64) = mask 6" "(63::u32) = mask 6" by (simp_all add: mask_eq_exp_minus_1)
  have "scast c AND 63 = (ucast (c AND 63) :: u64)"
    unfolding m by (rule bit_word_eqI) (auto simp: bit_simps)
  then show ?thesis by (simp add: unat_ucast_u32 shift_count63)
qed

lemma shiftk_kint64:
  assumes s: "shiftk_ins \<rho> J eng" and k1: "ir_o (irs J (ir_op2 (fl J))) = IR_KINT64"
    and k: "k = kfold_int64op (ir_k64 (irs J) (ir_op2 (fl J))) (scast (ir_i (fr J))) (fo J)"
    and e: "eng (set_op1 (ir_op1 (fl J)) J) = Done (J1, q)" "J' = set_ot IR_BAND (ir_t (fl J)) (op2_kint64 k (set_op1 q J1))" "nk J' \<noteq> 0"
  shows "moved \<rho> J J' \<and> same_ins \<rho> J J'"
proof -
  note a = s [unfolded shiftk_ins_def] and f = shiftk_facts [OF s]
  have b: "val_op (ir_o (fl J))" "\<not> unary_op (ir_o (fl J))" "\<not> shift_op (ir_o (fl J))" using a by simp_all
  note lk = left_right_kint64 [OF f(1) b k1]
  have sl: "fo J = IR_BSHL" using a lk(1) by (auto simp: bad_shift_def)
  obtain c J2 where n: "lj_ir_kint64 k (set_op1 q J1) = (c, J2)" by force
  have e2: "J' = J2\<lparr>fins := (fins J2)\<lparr>ir_op2 := c, ir_o := IR_BAND, ir_t := ir_t (fl J)\<rparr>\<rparr>"
    using e(2) n by (simp add: op2_kint64_def set_ot_def set_op2_def)
  have nk: "nk J2 \<noteq> 0" "nk J1 \<noteq> 0"
    using e(3) e2 kint_le(2) [of k "set_op1 q J1"] n by (simp_all add: set_op1_def)
  note E = shiftk_nested [OF s e(1) nk(2)]
  have J1: "ir_ok J1" "ir_typed J1" using E by (simp_all add: moved_def)
  note K = kint64_grown [OF _ _ n nk(1), simplified set_o_fins, simplified, OF J1]
  have J2: "ir_ok J2" using K(1) by (simp add: grown_def)
  have k': "k = push_bit (unat (ir_i (fr J)) mod 64) (ir_k64 (irs J) (ir_op2 (fl J)))"
    unfolding k sl by (simp add: kfold_int64op_def ir_ops count_scast)
  have v: "apply_op (fw J) IR_BAND (apply_op (fw J) (fo J) (V \<rho> J (ir_op1 (fl J))) (V \<rho> J (fop2 J))) k = finval \<rho> J"
    using lk f(9) sl unfolding f(10) k' by (simp add: sem_simps unat_ucast_u32 push_bit_and)
  show ?thesis
    by (rule masked_retry [OF f(1) refl f(2,3) E(3,1,2) K(1) _ K(4) e2 _ _ _ _ _ v])
      (use K(2,3) f(11,12) lk(1) opnd_kint64 [OF J2 K(3)] in \<open>simp_all add: set_op1_def\<close>)
qed

lemma shiftk_andk_ok:
  assumes s: "shiftk_ins \<rho> J eng" and x: "simplify_shiftk_andk eng J = Done (J', res)" "nk J' \<noteq> 0"
  shows "res = NEXTFOLD \<and> J' = J \<or> res = RETRYFOLD \<and> moved \<rho> J J' \<and> same_ins \<rho> J J'"
proof -
  let ?irk = "irs J (ir_op2 (fl J))" and ?J0 = "set_op1 (ir_op1 (fl J)) J"
  show ?thesis
  proof (cases "irt_isphi (ir_t (fl J)) \<or> ir_o ?irk \<noteq> IR_KINT \<and> ir_o ?irk \<noteq> IR_KINT64")
    case True
    then have "simplify_shiftk_andk eng J = Done (J, NEXTFOLD)" by (auto simp: simplify_shiftk_andk_def Let_def)
    then show ?thesis using x(1) by simp
  next
    case False
    then have e: "simplify_shiftk_andk eng J = tr_bind (eng ?J0) (\<lambda>(J1, q). Done (if ir_o ?irk = IR_KINT
        then set_ot IR_BAND IRT_INT (op2_kint (kfold_intop (ir_i ?irk) (ir_i (fr J)) (fo J)) (set_op1 q J1))
        else set_ot (ir_o (fl J)) (ir_t (fl J))
          (op2_kint64 (kfold_int64op (ir_k64 (irs J) (ir_op2 (fl J))) (scast (ir_i (fr J))) (fo J)) (set_op1 q J1)), RETRYFOLD))"
      by (auto simp: simplify_shiftk_andk_def Let_def)
    obtain J1 q where n: "eng ?J0 = Done (J1, q)"
      using x(1) unfolding e by (cases "eng ?J0") (auto simp: tr_bind_def)
    have b: "ir_o (fl J) = IR_BAND" using s by (simp add: shiftk_ins_def)
    show ?thesis
    proof (cases "ir_o ?irk = IR_KINT")
      case True
      then show ?thesis using shiftk_kint [OF s True refl n _ x(2)] x(1) unfolding e n by (simp add: tr_bind_def)
    next
      case k: False
      then have "ir_o ?irk = IR_KINT64" using False by simp
      from shiftk_kint64 [OF s this refl n _ x(2)] show ?thesis using x(1) k unfolding e n b by (simp add: tr_bind_def)
    qed
  qed
qed

lemma shiftk_andk_err:
  assumes s: "shiftk_ins \<rho> J eng" and x: "simplify_shiftk_andk eng J = TraceErr J'"
  shows "nk J' = 0"
proof (rule ccontr)
  let ?J0 = "set_op1 (ir_op1 (fl J)) J"
  assume nk: "nk J' \<noteq> 0"
  have "eng ?J0 = TraceErr J'"
    using x by (cases "eng ?J0") (auto simp: simplify_shiftk_andk_def Let_def tr_bind_def split: if_splits)
  then have "\<not> finguard \<rho> ?J0"
    using s nk shiftk_pre [OF s] unfolding shiftk_ins_def eng_ok_def by blast
  moreover have "finguard \<rho> ?J0" using shiftk_facts [OF s] by (simp add: set_op1_def finguard_def guard_op_def)
  ultimately show False by simp
qed

section \<open>The constants only grow downwards\<close>

lemma emit_nk: "nk (snd (lj_ir_emit J)) = nk J"
  by (simp add: lj_ir_emit_def lj_ir_nextins_def lj_ir_growtop_def Let_def)

lemma cse_nk: "nk (fst (lj_opt_cse J)) = nk J"
  using emit_nk [of J] by (auto simp: lj_opt_cse_def Let_def split: option.split prod.split)

lemma op_kint_nk [simp]: "nk (op2_kint k J) \<le> nk J" "nk (op1_kint k J) \<le> nk J" "nk (op2_kint64 k' J) \<le> nk J"
  using kint_le(1) [of k J] kint_le(2) [of k' J]
  by (auto simp: op2_kint_def op1_kint_def op2_kint64_def set_op1_def set_op2_def split: prod.split)

lemma op_kint_nk' [simp]: "nk (op2_kint k (J\<lparr>fins := f\<rparr>)) \<le> nk J" "nk (op1_kint k (J\<lparr>fins := f\<rparr>)) \<le> nk J"
  "nk (op2_kint64 k' (J\<lparr>fins := f\<rparr>)) \<le> nk J"
  using op_kint_nk [where J = "J\<lparr>fins := f\<rparr>"] by simp_all

lemma int64fold_nk [simp]: "nk (fst (INT64FOLD k J)) \<le> nk J"
  using kint_le(2) [of k J] by (auto simp: INT64FOLD_def split: prod.split)

lemmas rule_fun_defs =
  kfold_intarith_def kfold_intovarith_def kfold_bnot_def kfold_bswap_def kfold_intcomp_def
  kfold_intcomp0_def kfold_int64arith_def kfold_int64arith2_def kfold_int64shift_def
  kfold_bnot64_def kfold_bswap64_def kfold_int64comp_def kfold_int64comp0_def kfold_kref_def
  shortcut_leftleft_def simplify_numadd_negx_def simplify_numadd_xneg_def simplify_numsub_xneg_def
  simplify_nummuldiv_negneg_def simplify_intadd_k_def simplify_intmulov_k_def
  simplify_intsub_k_def simplify_intsub_kleft_def simplify_intadd_k64_def simplify_intsub_k64_def
  simplify_intmul_k32_def simplify_intmul_k64_def simplify_intmod_k_def simplify_intmod_kleft_def
  simplify_intsub_def simplify_intsubadd_leftcancel_def simplify_intsubsub_leftcancel_def
  simplify_intsubsub_rightcancel_def simplify_intsubadd_rightcancel_def
  simplify_intsubaddadd_cancel_def simplify_band_k_def simplify_bor_k_def simplify_bxor_k_def
  simplify_shift_ik_def simplify_shift_andk_def simplify_shift1_ki_def simplify_shift2_ki_def
  simplify_andk_shiftk_def simplify_andor_k_def simplify_andor_k64_def reassoc_intarith_k_def
  reassoc_intarith_k64_def reassoc_dup_def reassoc_dup_minmax_def reassoc_bxor_def
  reassoc_shift_def reassoc_minmax_k_def abc_fwd_def abc_k_def abc_invar_def comm_swap_def
  comm_equal_def comm_comp_def comm_dup_def comm_dup_minmax_def comm_bxor_def
  simplify_intmul_k_def

lemmas rule_exit_defs = CONDFOLD_def INTFOLD_def LEFTFOLD_def RIGHTFOLD_def set_op1_def set_op2_def set_o_def
  set_ot_def PHIBARRIER_def swap_ops_def Let_def

lemma rule_nk:
  assumes "R \<noteq> S_shiftk_andk" "fold_func f R J = Done y"
  shows "nk (fst y) \<le> nk J"
  using assms emit_nk [of J]
  by (cases R) (auto simp: rule_fun_defs rule_exit_defs split: option.split prod.split)

definition le_nk :: "jit \<Rightarrow> (jit \<times> 'a) tr \<Rightarrow> bool" where
  "le_nk J x = (case x of NoFuel \<Rightarrow> True | TraceErr J' \<Rightarrow> nk J' \<le> nk J | Done y \<Rightarrow> nk (fst y) \<le> nk J)"

lemma le_nk_simps [simp]: "le_nk J NoFuel" "le_nk J (TraceErr J') \<longleftrightarrow> nk J' \<le> nk J" "le_nk J (Done y) \<longleftrightarrow> nk (fst y) \<le> nk J"
  by (simp_all add: le_nk_def)

lemma le_nk_bind: "le_nk J x \<Longrightarrow> (\<And>y. x = Done y \<Longrightarrow> le_nk (fst y) (g y)) \<Longrightarrow> le_nk J (tr_bind x g)"
  by (cases x; fastforce simp: tr_bind_def le_nk_def split: tr.splits)

lemma func_nk:
  assumes "\<And>J. le_nk J (f J)"
  shows "le_nk J (fold_func f R J)"
proof (cases "R = S_shiftk_andk")
  case True
  let ?J0 = "set_op1 (ir_op1 (fl J)) J"
  have 1: "nk ?J0 = nk J" by (simp add: set_op1_def)
  have "le_nk J (simplify_shiftk_andk f J)"
    using assms [of ?J0] order_trans [OF op_kint_nk'(1)] order_trans [OF op_kint_nk'(3)] 1
    by (cases "f ?J0") (auto simp: simplify_shiftk_andk_def Let_def tr_bind_def set_ot_def set_op1_def)
  then show ?thesis using True by simp
next
  case False
  then show ?thesis
    using rule_nk [OF False, of f J] by (cases R) simp_all
qed

lemma match_nk:
  assumes "\<And>J. le_nk J (f J)"
  shows "le_nk J (fold_match f ks J)"
proof (induction ks arbitrary: J)
  case Nil
  then show ?case using cse_nk [of J] by (auto split: prod.splits)
next
  case (Cons k ks)
  show ?case
  proof (cases "fold_hash k")
    case (Some R)
    then show ?thesis using func_nk [OF assms] Cons.IH by (auto intro!: le_nk_bind)
  qed (use Cons.IH in simp)
qed

lemma load_nk: "nk (snd (fold_load J)) = nk J"
  by (simp add: fold_load_def Let_def)

lemma retry_nk: "le_nk J (fold_retry n J)"
proof (induction n arbitrary: J)
  case 0
  then show ?case by simp
next
  case (Suc n)
  have e: "le_nk J (fold_entry (fold_retry n) J)" for J
    using Suc.IH [of J] cse_nk [of J] by (simp add: fold_entry_def)
  obtain lr J1 where l: "fold_load J = (lr, J1)" by (cases "fold_load J")
  have n1: "nk J1 = nk J" using load_nk [of J] l by simp
  have "le_nk J1 (fold_retry (Suc n) J)"
    unfolding fold_retry.simps l Let_def prod.case
  proof (rule le_nk_bind [OF match_nk [OF e]], clarify)
    fix J2 res
    show "le_nk (fst (J2, res)) (case res of FoldRef ref \<Rightarrow> Done (J2, ref) | RETRYFOLD \<Rightarrow> fold_retry n J2
        | KINTFOLD \<Rightarrow> (case lj_ir_kint (ir_i (fins J2)) J2 of (ref, J) \<Rightarrow> Done (J, ref)) | FAILFOLD \<Rightarrow> TraceErr J2
        | DROPFOLD \<Rightarrow> Done (J2, REF_DROP) | NEXTFOLD \<Rightarrow> Done (J2, REF_DROP))"
      using Suc.IH [of J2] kint_le(1) [of "ir_i (fins J2)" J2] by (auto split: foldres.split prod.split)
  qed
  then show ?case unfolding le_nk_def n1 .
qed

text \<open>A rule that passes to the next key changes nothing.\<close>

lemma func_next: "fold_func f R J = Done (J', NEXTFOLD) \<Longrightarrow> J' = J"
proof (cases "R = S_shiftk_andk")
  case True
  assume "fold_func f R J = Done (J', NEXTFOLD)"
  then show ?thesis
    using True by (cases "f (set_op1 (ir_op1 (fl J)) J)") (auto simp: simplify_shiftk_andk_def Let_def tr_bind_def split: if_splits)
next
  case False
  assume "fold_func f R J = Done (J', NEXTFOLD)"
  with False show ?thesis
    by (cases R) (auto simp: rule_fun_defs rule_exit_defs INT64FOLD_def split: option.splits prod.splits if_splits)
qed

section \<open>The engine\<close>

text \<open>What one try gives: a final result, or an instruction with the same meaning for the next try.\<close>

definition match_ok :: "(nat \<Rightarrow> u64) \<Rightarrow> jit \<Rightarrow> (jit \<times> foldres) tr \<Rightarrow> bool" where
  "match_ok \<rho> J x \<longleftrightarrow>
     (\<forall>J'. x = TraceErr J' \<longrightarrow> nk J' \<noteq> 0 \<longrightarrow> \<not> finguard \<rho> J) \<and>
     (\<forall>J' res. x = Done (J', res) \<longrightarrow> nk J' \<noteq> 0 \<longrightarrow> (case res of
        NEXTFOLD \<Rightarrow> False
      | RETRYFOLD \<Rightarrow> moved \<rho> J J' \<and> same_ins \<rho> J J'
      | KINTFOLD \<Rightarrow> J' = J\<lparr>fins := fins J'\<rparr> \<and> agree (fw J) (ucast (ir_i (fins J'))) (finval \<rho> J) \<and>
          (fw J \<longrightarrow> ir_i (fins J') = 0) \<and> finguard \<rho> J
      | FAILFOLD \<Rightarrow> \<not> finguard \<rho> J
      | DROPFOLD \<Rightarrow> J' = J \<and> finguard \<rho> J \<and> cmp_op (fo J)
      | FoldRef r \<Rightarrow> post_ref \<rho> J J' r))"

lemma fold_ok_match:
  assumes "ready J" "fold_ok \<rho> J (J', res)" "res \<noteq> NEXTFOLD"
  shows "match_ok \<rho> J (Done (J', res))"
proof -
  note R = readyD [OF assms(1)]
  note g = grown_moved [OF R(1,2), of J' \<rho>]
  show ?thesis
    using assms(2,3) g by (cases res) (auto simp: match_ok_def post_ref_def res_ref_def moved_def)
qed

end
