(* ===== verification/LjFoldMain.thy ===== *)
theory LjFoldMain
  imports LjFoldEng
begin

text \<open>
  The soundness of the whole engine: one try over the four keys, with the facts that let the last
  resort, common subexpression elimination, see only operands of the right width, and the retries.
\<close>

section \<open>One try\<close>

lemma func_done: "R \<noteq> S_shiftk_andk \<Longrightarrow> \<exists>y. fold_func f R J = Done y"
  by (cases R) simp_all

lemma shiftk_key:
  assumes "key_fits J k" "k \<in> set (fold_pats S_shiftk_andk)"
  shows "(fo J = IR_BSHL \<or> fo J = IR_BSHR \<or> fo J = IR_BROL \<or> fo J = IR_BROR) \<and> ir_o (fl J) = IR_BAND \<and> ir_o (fr J) = IR_KINT"
  using assms by (auto simp: key_fits_def op_keys_def ops2_def)

lemma match_okI:
  "(\<And>J'. x = TraceErr J' \<Longrightarrow> nk J' \<noteq> 0 \<Longrightarrow> \<not> finguard \<rho> J) \<Longrightarrow>
   (\<And>J' res. x = Done (J', res) \<Longrightarrow> nk J' \<noteq> 0 \<Longrightarrow> res = RETRYFOLD \<and> moved \<rho> J J' \<and> same_ins \<rho> J J') \<Longrightarrow>
   match_ok \<rho> J x"
  by (fastforce simp: match_ok_def)

lemma shiftk_match:
  assumes s: "shiftk_ins \<rho> J f" and nx: "simplify_shiftk_andk f J \<noteq> Done (J, NEXTFOLD)"
  shows "match_ok \<rho> J (simplify_shiftk_andk f J)"
proof (rule match_okI)
  fix J' assume "simplify_shiftk_andk f J = TraceErr J'" "nk J' \<noteq> 0"
  then show "\<not> finguard \<rho> J" using shiftk_andk_err [OF s, of J'] by simp
next
  fix J' res assume y: "simplify_shiftk_andk f J = Done (J', res)" "nk J' \<noteq> 0"
  show "res = RETRYFOLD \<and> moved \<rho> J J' \<and> same_ins \<rho> J J'"
    using shiftk_andk_ok [OF s y] y(1) nx by auto
qed

lemma match_ok_0: "nk J' = 0 \<Longrightarrow> match_ok \<rho> J (Done (J', res))"
  by (simp add: match_ok_def)

lemma func_match:
  assumes rd: "ready J" "\<not> bad_shift J" "jit_flags J AND JIT_F_OPT_FOLD \<noteq> 0" "eng_ok \<rho> f"
    and k: "fold_hash k = Some R" "key_fits J k"
    and sub: "R = S_intsub_kleft \<Longrightarrow> opnd J False (fw J) (fop2 J)"
    and nx: "fold_func f R J \<noteq> Done (J, NEXTFOLD)"
  shows "match_ok \<rho> J (fold_func f R J)"
proof (cases "R = S_shiftk_andk")
  case True
  have "shiftk_ins \<rho> J f"
    using shiftk_key [OF k(2) hash_pats [OF k(1), unfolded True]] rd by (simp only: shiftk_ins_def simp_thms)
  then show ?thesis using shiftk_match nx unfolding True fold_func.simps by blast
next
  case False
  from func_done [OF this] obtain z where "fold_func f R J = Done z" by blast
  then obtain J' res where y: "fold_func f R J = Done (J', res)" by (cases z) simp
  have n: "res \<noteq> NEXTFOLD" using func_next [of f R J J'] y nx by blast
  show ?thesis
  proof (cases "nk J' = 0")
    case True
    then show ?thesis unfolding y by (rule match_ok_0)
  next
    case nz: False
    have "fold_ok \<rho> J (J', res)"
      by (rule rule_ok [OF rd(1) hash_pats [OF k(1)] k(2) False sub y]) (use nz in simp_all)
    from fold_ok_match [OF rd(1) this n] show ?thesis unfolding y .
  qed
qed

text \<open>A key is passed when it has no rule or its rule passes to the next one.\<close>

definition passed :: "(jit \<Rightarrow> (jit \<times> nat) tr) \<Rightarrow> jit \<Rightarrow> irop \<times> nat \<times> nat \<Rightarrow> bool" where
  "passed f J k \<longleftrightarrow> (\<forall>R. fold_hash k = Some R \<longrightarrow> fold_func f R J = Done (J, NEXTFOLD))"

lemma match_step:
  assumes rd: "ready J" "\<not> bad_shift J" "jit_flags J AND JIT_F_OPT_FOLD \<noteq> 0" "eng_ok \<rho> f"
    and k: "key_fits J k" and sub: "fold_hash k = Some S_intsub_kleft \<Longrightarrow> opnd J False (fw J) (fop2 J)"
  shows "match_ok \<rho> J (fold_match f (k # ks) J) \<or> passed f J k \<and> fold_match f (k # ks) J = fold_match f ks J"
proof (cases "fold_hash k")
  case None
  then show ?thesis by (simp add: passed_def)
next
  case (Some R)
  show ?thesis
  proof (cases "fold_func f R J = Done (J, NEXTFOLD)")
    case True
    then show ?thesis using Some by (simp add: passed_def tr_bind_def)
  next
    case False
    have "match_ok \<rho> J (fold_func f R J)"
      by (rule func_match [OF rd Some k _ False]) (use sub Some in simp)
    moreover have "\<And>J'. fold_func f R J \<noteq> Done (J', NEXTFOLD)" using False func_next by blast
    then have "fold_match f (k # ks) J = fold_func f R J"
      using Some by (cases "fold_func f R J") (auto simp: tr_bind_def)
    ultimately show ?thesis by simp
  qed
qed

lemma hash_k:
  "fold_hash (IR_ADD, F_any, IR_KINT) = Some S_intadd_k" "fold_hash (IR_SUB, F_any, IR_KINT) = Some S_intsub_k"
  "fold_hash (IR_BAND, F_any, IR_KINT) = Some S_band_k" "fold_hash (IR_BOR, F_any, IR_KINT) = Some S_bor_k"
  "fold_hash (IR_BSHL, IR_KINT, F_anyr) = Some S_shift1_ki" "fold_hash (IR_BSHR, IR_KINT, F_anyr) = Some S_shift1_ki"
  "fold_hash (IR_BSAR, IR_KINT, F_anyr) = Some S_shift2_ki" "fold_hash (IR_BROL, IR_KINT, F_anyr) = Some S_shift2_ki"
  "fold_hash (IR_BROR, IR_KINT, F_anyr) = Some S_shift2_ki"
  by code_simp+

text \<open>The rules for a constant 0 on the right, and for a constant left operand of a shift, never pass.\<close>

lemma hash_shift: "shift_op p \<Longrightarrow> fold_hash (p, IR_KINT, F_anyr) = Some S_shift1_ki \<or> fold_hash (p, IR_KINT, F_anyr) = Some S_shift2_ki"
  by (auto simp: shift_op_def hash_k)

lemma hash_zop: "zop p \<Longrightarrow> \<exists>R\<in>{S_intadd_k, S_intsub_k, S_band_k, S_bor_k}. fold_hash (p, F_any, IR_KINT) = Some R"
  by (auto simp: zop_def hash_k)

lemma zero_stops:
  assumes "fold_func f R J = Done (J, NEXTFOLD)"
  shows "R \<in> {S_shift1_ki, S_shift2_ki} \<Longrightarrow> ir_o (fl J) = IR_KINT \<Longrightarrow> ir_i (fl J) \<noteq> 0"
    "R \<in> {S_intadd_k, S_intsub_k, S_band_k, S_bor_k} \<Longrightarrow> ir_o (fr J) = IR_KINT \<Longrightarrow> ir_i (fr J) \<noteq> 0"
  using assms by (auto simp: simplify_shift1_ki_def simplify_shift2_ki_def simplify_intadd_k_def simplify_intsub_k_def
    simplify_band_k_def simplify_bor_k_def LEFTFOLD_def RIGHTFOLD_def const_i64_def split: if_splits)

lemma passed_left:
  assumes "ready J" "shift_op (fo J)" "passed f J (fo J, fst (op_keys J), F_anyr)"
  shows "opnd J False (fw J) (fop1 J)"
proof (rule ccontr)
  assume n: "\<not> ?thesis"
  note R = readyD [OF assms(1)]
  have k: "is_kint J (fop1 J)" "ir_i (irs J (fop1 J)) = 0" using R(6) n by (auto simp: opnd_def)
  have r: "ir_o (fl J) = IR_KINT" "ir_i (fl J) = 0"
    using left_load(1) [OF assms(1)] is_kintD(1) [OF R(1) k(1)] k(2) by simp_all
  obtain Q where Q: "fold_hash (fo J, IR_KINT, F_anyr) = Some Q" "Q \<in> {S_shift1_ki, S_shift2_ki}"
    using hash_shift [OF assms(2)] by blast
  have "fold_func f Q J = Done (J, NEXTFOLD)"
    using assms(3) Q(1) r(1) by (simp add: passed_def op_keys_def)
  from zero_stops(1) [OF this Q(2) r(1)] r(2) show False by simp
qed

lemma passed_right:
  assumes "ready J" "zop (fo J)" "passed f J (fo J, F_any, snd (op_keys J))"
  shows "opnd J False (fw J) (fop2 J)"
proof (rule ccontr)
  assume n: "\<not> ?thesis"
  note R = readyD [OF assms(1)]
  have u: "\<not> unary_op (fo J)" "\<not> shift_op (fo J)" using assms(2) by (auto simp: zop_def)
  have "opnd J True (fw J) (fop2 J)" using R(5) assms(2) u by (simp add: ins_typed_def)
  then have k: "is_kint J (fop2 J)" "ir_i (irs J (fop2 J)) = 0" using n by (auto simp: opnd_def)
  have r: "ir_o (fr J) = IR_KINT" "ir_i (fr J) = 0"
    using right_load(1) [OF assms(1) u(1)] is_kintD(1) [OF R(1) k(1)] k(2) by simp_all
  obtain Q where Q: "fold_hash (fo J, F_any, IR_KINT) = Some Q" "Q \<in> {S_intadd_k, S_intsub_k, S_band_k, S_bor_k}"
    using hash_zop [OF assms(2)] by blast
  have "fold_func f Q J = Done (J, NEXTFOLD)"
    using assms(3) Q(1) r(1) u(1) by (simp add: passed_def op_keys_def)
  from zero_stops(2) [OF this Q(2) r(1)] r(2) show False by simp
qed

lemma kleft_key: "fold_hash k = Some S_intsub_kleft \<Longrightarrow> fst k = IR_SUB \<and> snd (snd k) = F_anyr"
  using hash_pats [of k S_intsub_kleft] by auto

lemma kleft_right:
  assumes "ready J" "fold_hash (fo J, x, snd (op_keys J)) = Some S_intsub_kleft"
  shows "opnd J False (fw J) (fop2 J)"
proof (rule ccontr)
  assume n: "\<not> ?thesis"
  note R = readyD [OF assms(1)]
  have f: "fo J = IR_SUB" "snd (op_keys J) = F_anyr" using kleft_key [OF assms(2)] by simp_all
  then have "opnd J True (fw J) (fop2 J)" using R(5) by (simp add: ins_typed_def)
  then have k: "is_kint J (fop2 J)" using n by (auto simp: opnd_def)
  have "\<not> unary_op (fo J)" using f(1) by simp
  then have "snd (op_keys J) = IR_KINT"
    using right_load(1) [OF assms(1)] is_kintD(1) [OF R(1) k] by (simp add: op_keys_def)
  then show False using f(2) by simp
qed

lemma match_sound:
  assumes rd: "ready J" "\<not> bad_shift J" "jit_flags J AND JIT_F_OPT_FOLD \<noteq> 0" "eng_ok \<rho> f"
  shows "match_ok \<rho> J (fold_match f (fold_keys (fo J) (op_keys J)) J)"
proof -
  let ?l = "fst (op_keys J)" and ?r = "snd (op_keys J)"
  let ?k1 = "(fo J, ?l, ?r)" and ?k2 = "(fo J, F_any, ?r)" and ?k3 = "(fo J, ?l, F_anyr)" and ?k4 = "(fo J, F_any, F_anyr)"
  note R = readyD [OF rd(1)]
  have ks: "fold_keys (fo J) (op_keys J) = [?k1, ?k2, ?k3, ?k4]" by (simp add: fold_keys_def)
  have fit: "key_fits J ?k1" "key_fits J ?k2" "key_fits J ?k3" "key_fits J ?k4"
    using keys_fit [of _ J] unfolding ks by simp_all
  have sub: "zop (fo J)" if "fold_hash k = Some S_intsub_kleft" "key_fits J k" for k
    using kleft_key [OF that(1)] that(2) by (cases k) (auto simp: key_fits_def)
  have s12: "opnd J False (fw J) (fop2 J)" if "fold_hash (fo J, x, ?r) = Some S_intsub_kleft" for x
    using kleft_right [OF rd(1) that] .
  show ?thesis
  proof (rule ccontr)
    assume n: "\<not> ?thesis"
    let ?m = "\<lambda>ks. fold_match f ks J"
    have 1: "passed f J ?k1" "?m [?k1, ?k2, ?k3, ?k4] = ?m [?k2, ?k3, ?k4]"
      using match_step [OF rd fit(1) s12] n unfolding ks by blast+
    have 2: "passed f J ?k2" "?m [?k2, ?k3, ?k4] = ?m [?k3, ?k4]"
      using match_step [OF rd fit(2) s12] n unfolding ks 1(2) by blast+
    note z = passed_right [OF rd(1) _ 2(1)]
    have 3: "passed f J ?k3" "?m [?k3, ?k4] = ?m [?k4]"
      using match_step [OF rd fit(3)] z sub fit(3) n unfolding ks 1(2) 2(2) by blast+
    have 4: "?m [?k4] = ?m []"
      using match_step [OF rd fit(4)] z sub fit(4) n unfolding ks 1(2) 2(2) 3(2) by blast
    obtain J' r where c: "lj_opt_cse J = (J', r)" by (cases "lj_opt_cse J")
    have l: "shift_op (fo J) \<Longrightarrow> opnd J False (fw J) (fop1 J)" using passed_left [OF rd(1) _ 3(1)] .
    have "ins_typed J False (fo J) (fw J) (fop1 J) (fop2 J)"
      using R(5) l z by (cases "zop (fo J)"; cases "shift_op (fo J)") (auto simp: ins_typed_def)
    from cse_ok [OF R(1-3) this c] have "match_ok \<rho> J (?m [])"
      by (simp add: c match_ok_def)
    then show False using n unfolding ks 1(2) 2(2) 3(2) 4 by contradiction
  qed
qed


section \<open>The retries\<close>

lemma post_moved:
  assumes "moved \<rho> J J'" "same_ins \<rho> J J'" "post_ref \<rho> J' J'' r"
  shows "post_ref \<rho> J J'' r"
  using assms ir_ext_trans [of J J' J''] agree_trans [of "fw J" "V \<rho> J'' r" "finval \<rho> J'" "finval \<rho> J"]
  by (auto simp: moved_def same_ins_def post_ref_def)

lemma moved_pre:
  assumes "pre_fold J" "moved \<rho> J J'" "same_ins \<rho> J J'"
  shows "pre_fold J'"
  using assms by (auto simp: pre_fold_def moved_def same_ins_def ir_ext_def)

lemma kint_result:
  assumes J: "ir_ok J" "ir_typed J" and k: "lj_ir_kint k J = (r, J')" "nk J' \<noteq> 0"
    and v: "agree (fw J) (ucast k) (finval \<rho> J)" "fw J \<Longrightarrow> k = 0" "finguard \<rho> J"
  shows "post_ref \<rho> J J' r"
proof -
  note g = kint_grown [OF J k]
  have "opnd J' True (fw J) r" using opnd_kint [OF g(3)] g(4) v(2) by simp
  then show ?thesis
    using grown_moved [OF J g(1), of \<rho>] g(5) v by (simp add: post_ref_def moved_def)
qed

lemma retry_sound: "eng_ok \<rho> (fold_retry n)"
proof (induction n)
  case 0
  show ?case by (simp add: eng_ok_def)
next
  case (Suc n)
  have flags: "fold_entry (fold_retry n) J = fold_retry n J" if "pre_fold J" for J
    using that by (simp add: pre_fold_def fold_entry_def)
  have ent: "eng_ok \<rho> (fold_entry (fold_retry n))"
    using Suc.IH flags unfolding eng_ok_def by simp
  show ?case
    unfolding eng_ok_def
  proof (rule allI, rule impI)
    fix J assume pre: "pre_fold J"
    then have J: "ir_ok J" "ir_typed J" "fins_ok J" by (simp_all add: pre_fold_def)
    obtain lr J1 where l: "fold_load J = (lr, J1)" by (cases "fold_load J")
    note L = fold_load_ready [OF J l]
    obtain la ra where e1: "J1 = J\<lparr>fleft := la, fright := ra\<rparr>" using L(3) by blast
    have same: "irs J1 = irs J" "fins J1 = fins J" "bad_shift J1 = bad_shift J" "jit_flags J1 = jit_flags J"
      "finguard \<rho> J1 = finguard \<rho> J" "\<And>J' r. post_ref \<rho> J1 J' r = post_ref \<rho> J J' r" "pre_fold J1"
      using pre by (simp_all add: e1 bad_shift_def finguard_def post_ref_def finval_def pre_fold_def fins_ok_def)
    define x where "x = fold_match (fold_entry (fold_retry n)) (fold_keys (fo J1) lr) J1"
    have m: "match_ok \<rho> J1 x"
      unfolding x_def L(2) by (rule match_sound [OF L(1) _ _ ent]) (use pre same in \<open>simp_all add: pre_fold_def\<close>)
    have r: "fold_retry (Suc n) J = tr_bind x (\<lambda>(J, res). case res of
        FoldRef ref \<Rightarrow> Done (J, ref) | RETRYFOLD \<Rightarrow> fold_retry n J
      | KINTFOLD \<Rightarrow> (let (ref, J) = lj_ir_kint (ir_i (fins J)) J in Done (J, ref))
      | FAILFOLD \<Rightarrow> TraceErr J | DROPFOLD \<Rightarrow> Done (J, REF_DROP) | NEXTFOLD \<Rightarrow> Done (J, REF_DROP))"
      unfolding fold_retry.simps l x_def Let_def prod.case ..
    show "(\<forall>J' r. fold_retry (Suc n) J = Done (J', r) \<longrightarrow> nk J' \<noteq> 0 \<longrightarrow> post_ref \<rho> J J' r) \<and>
      (\<forall>J'. fold_retry (Suc n) J = TraceErr J' \<longrightarrow> nk J' \<noteq> 0 \<longrightarrow> \<not> finguard \<rho> J)"
    proof (cases x)
      case NoFuel
      then show ?thesis unfolding r by (simp add: tr_bind_def)
    next
      case (TraceErr J2)
      then show ?thesis using m same(5) unfolding r by (simp add: tr_bind_def match_ok_def)
    next
      case (Done y)
      obtain J2 res where y: "y = (J2, res)" by (cases y)
      show ?thesis
      proof (cases res)
        case RETRYFOLD
        have b: "fold_retry (Suc n) J = fold_retry n J2" unfolding r Done y RETRYFOLD by (simp add: tr_bind_def)
        show ?thesis
        proof (cases "nk J2 = 0")
          case True
          then show ?thesis using retry_nk [of J2 n] unfolding b by (auto simp: le_nk_def)
        next
          case False
          then have ms: "moved \<rho> J1 J2" "same_ins \<rho> J1 J2" using m unfolding Done y RETRYFOLD by (simp_all add: match_ok_def)
          have "pre_fold J2" by (rule moved_pre [OF same(7) ms])
          moreover have "finguard \<rho> J2 = finguard \<rho> J" using ms(2) same(5) by (simp add: same_ins_def)
          ultimately show ?thesis
            using Suc.IH post_moved [OF ms] same(6) unfolding b eng_ok_def by blast
        qed
      next
        case KINTFOLD
        obtain r J3 where k: "lj_ir_kint (ir_i (fins J2)) J2 = (r, J3)" by (cases "lj_ir_kint (ir_i (fins J2)) J2")
        have b: "fold_retry (Suc n) J = Done (J3, r)" unfolding r Done y KINTFOLD by (simp add: tr_bind_def k)
        show ?thesis
        proof (cases "nk J3 = 0")
          case True
          then show ?thesis unfolding b by simp
        next
          case False
          have "nk J2 \<noteq> 0" using False kint_le(1) [of "ir_i (fins J2)" J2] k by simp
          then have K: "J2 = J1\<lparr>fins := fins J2\<rparr>" "agree (fw J1) (ucast (ir_i (fins J2))) (finval \<rho> J1)"
            "fw J1 \<longrightarrow> ir_i (fins J2) = 0" "finguard \<rho> J1"
            using m unfolding Done y KINTFOLD by (simp_all add: match_ok_def)
          obtain f where f: "J2 = J1\<lparr>fins := f\<rparr>" using K(1) by blast
          have k1: "lj_ir_kint (ir_i f) J1 = (r, snd (lj_ir_kint (ir_i f) J1))" "J3 = snd (lj_ir_kint (ir_i f) J1)\<lparr>fins := f\<rparr>"
            using k unfolding f by (auto simp: kint_fins)
          have "post_ref \<rho> J1 (snd (lj_ir_kint (ir_i f) J1)) r"
            by (rule kint_result [OF _ _ k1(1)]) (use J K f False k1(2) in \<open>simp_all add: e1\<close>)
          then have "post_ref \<rho> J1 J3 r" by (simp add: k1(2) post_ref_def)
          then show ?thesis unfolding b using same(6) by simp
        qed
      next
        case NEXTFOLD
        then show ?thesis using m unfolding r Done y by (simp add: tr_bind_def match_ok_def)
      next
        case FAILFOLD
        then show ?thesis using m same(5) unfolding r Done y by (simp add: tr_bind_def match_ok_def)
      next
        case DROPFOLD
        have b: "fold_retry (Suc n) J = Done (J2, REF_DROP)" unfolding r Done y DROPFOLD by (simp add: tr_bind_def)
        have nv: "cmp_op p \<Longrightarrow> \<not> val_op p" for p by (auto simp: op_classes ir_ops)
        show ?thesis
        proof (cases "nk J2 = 0")
          case False
          then have d: "J2 = J1" "finguard \<rho> J1" "cmp_op (fo J1)" using m unfolding Done y DROPFOLD by (simp_all add: match_ok_def)
          have "post_ref \<rho> J1 J1 REF_DROP"
            using d nv J by (simp add: post_ref_def ir_ext_refl e1)
          then show ?thesis using same(6) d(1) unfolding b by simp
        next
          case True
          then show ?thesis unfolding b by simp
        qed
      next
        case (FoldRef ref)
        then show ?thesis using m same(6) unfolding r Done y by (simp add: tr_bind_def match_ok_def)
      qed
    qed
  qed
qed


lemma opt_fold_sound: "eng_ok \<rho> (lj_opt_fold n)"
proof -
  have "lj_opt_fold n J = fold_retry n J" if "pre_fold J" for J
    using that by (simp add: lj_opt_fold_def fold_entry_def pre_fold_def)
  then show ?thesis using retry_sound unfolding eng_ok_def by simp
qed

end
