(* ===== verification/LjFoldProps.thy ===== *)
theory LjFoldProps
  imports LjFoldMain LjIrProps
begin

text \<open>
  The folding engine as a whole: for the candidates in the scope of \<open>pre_fold\<close>, the instruction it
  returns computes the value of the candidate, and it gives up only on a guard that is false; a run on
  a concrete trace; and two defects outside that scope.
\<close>

section \<open>Building a trace\<close>

lemma emit_leaf:
  assumes "ir_ok J" "ir_typed J" "\<not> is_const_op (fo J)" "\<not> val_op (fo J)" "\<not> cmp_op (fo J)"
    and e: "lj_ir_emit J = (r, J')"
  shows "ir_ok J'" "ir_typed J'" "ir_ext J J'" "is_ins J' r" "ir_t (irs J' r) = ft J" "ir_o (irs J' r) = fo J"
    "nk J' = nk J" "r = nins J"
proof -
  have em: "emitted J r J'" by (rule emit_emitted [OF assms(1,3) e])
  show x: "ir_ok J'" "ir_ext J J'" "r = nins J" "nk J' = nk J"
    and i: "ir_o (irs J' r) = fo J" "ir_t (irs J' r) = ft J"
    using em unfolding emitted_def by blast+
  have n: "nins J' = nins J + 1" using em unfolding emitted_def by blast
  have ins: "is_ins J' q \<longleftrightarrow> is_ins J q \<or> q = r" for q
    using x(3) n ir_okD [OF assms(1)] by (auto simp: is_ins_def ir_refs)
  show "is_ins J' r" by (simp add: ins)
  show "ir_typed J'"
    unfolding ir_typed_def ins
  proof (rule allI, rule impI)
    fix q assume "is_ins J q \<or> q = r"
    then show "\<not> is_const_op (ir_o (irs J' q)) \<and>
      (val_op (ir_o (irs J' q)) \<or> cmp_op (ir_o (irs J' q)) \<longrightarrow> nk J' \<le> ir_op1 (irs J' q) \<and> ir_op1 (irs J' q) < q) \<and>
      (int_ins J' (irs J' q) \<longrightarrow>
       int_t (ir_t (irs J' q)) \<and> ir_op1 (irs J' q) < q \<and> ir_op2 (irs J' q) < q \<and>
       ins_typed J' False (ir_o (irs J' q)) (irt_is64 (ir_t (irs J' q))) (ir_op1 (irs J' q)) (ir_op2 (irs J' q)))"
    proof
      assume "is_ins J q"
      from ext_typed_at [OF assms(1,2) x(2) this] show ?thesis by blast
    next
      assume "q = r"
      then show ?thesis using i assms(3-5) by (simp add: int_ins_def)
    qed
  qed
qed

lemma setup_typed: "ir_typed (lj_record_setup p e J)"
proof -
  define J' where "J' = lj_record_setup p e J"
  have "ir_o (irs J' REF_BASE) = IR_BASE"
    unfolding J'_def lj_record_setup_def
    by (simp add: Let_def lj_ir_emit_def lj_ir_nextins_def lj_ir_growtop_def lj_ir_set_def ir_refs split: prod.splits)
  moreover have "is_ins J' r \<longleftrightarrow> r = REF_BASE" for r
    using setup_ok(2) [of p e J] by (auto simp: J'_def is_ins_def ir_refs)
  ultimately have "ir_typed J'" by (simp add: ir_typed_def int_ins_def op_classes ir_ops)
  then show ?thesis by (simp add: J'_def)
qed

text \<open>A trace with one 32 bit integer and one 64 bit integer loaded from stack slots.\<close>

definition ex_trace :: jit where
  "ex_trace = snd (lj_ir_emit (lj_ir_set IR_SLOAD IRT_I64 2 0
     (snd (lj_ir_emit (lj_ir_set IR_SLOAD IRT_INT 1 0 (lj_record_setup 0 0 ex_jit))))))"

lemma emit_sload:
  assumes "ir_ok J" "ir_typed J" "lj_ir_emit (lj_ir_set IR_SLOAD t a b J) = (r, J')"
  shows "ir_ok J'" "ir_typed J'" "r = nins J" "nins J' = nins J + 1" "nk J' = nk J" "jit_flags J' = jit_flags J"
    "is_ins J' r" "ir_t (irs J' r) = t" "ir_o (irs J' r) = IR_SLOAD"
    "\<And>q. is_ins J q \<Longrightarrow> is_ins J' q \<and> irs J' q = irs J q"
proof -
  have sl: "\<not> is_const_op IR_SLOAD" "\<not> val_op IR_SLOAD" "\<not> cmp_op IR_SLOAD" by (simp_all add: op_classes ir_ops)
  let ?A = "lj_ir_set IR_SLOAD t a b J"
  have A: "ir_ok ?A" "ir_typed ?A" "fo ?A = IR_SLOAD" "ft ?A = t" "nins ?A = nins J" "nk ?A = nk J" "jit_flags ?A = jit_flags J"
    using assms(1,2) by (simp_all add: lj_ir_set_def)
  note L = emit_leaf [OF A(1,2) _ _ _ assms(3), unfolded A(3-7), OF sl]
  have x: "ir_ext J J'" using L(3) by (simp add: lj_ir_set_def)
  show "ir_ok J'" "ir_typed J'" "r = nins J" "nk J' = nk J" "is_ins J' r" "ir_t (irs J' r) = t" "ir_o (irs J' r) = IR_SLOAD"
    using L by simp_all
  have "emitted ?A r J'" by (rule emit_emitted [OF A(1) _ assms(3)]) (use sl A in simp)
  then show "nins J' = nins J + 1" unfolding emitted_def A(5) by blast
  show "jit_flags J' = jit_flags J" using x by (simp add: ir_ext_def)
  show "is_ins J' q \<and> irs J' q = irs J q" if "is_ins J q" for q
    using x that ext_refs [OF assms(1) x] is_insD [OF assms(1) that] by simp
qed

lemma ex_trace_ok: "ir_ok ex_trace" "ir_typed ex_trace" "is_ins ex_trace 0x8001" "is_ins ex_trace 0x8002"
  "ir_t (irs ex_trace 0x8001) = IRT_INT" "ir_t (irs ex_trace 0x8002) = IRT_I64"
  "ir_o (irs ex_trace 0x8001) = IR_SLOAD" "ir_o (irs ex_trace 0x8002) = IR_SLOAD"
  "jit_flags ex_trace = 0x03ff0000" "nk ex_trace = REF_TRUE"
proof -
  define S where "S = lj_record_setup 0 0 ex_jit"
  have S: "ir_ok S" "ir_typed S" "nins S = 0x8001" "nk S = REF_TRUE" "jit_flags S = 0x03ff0000"
    using setup_ok [of 0 0 ex_jit] setup_typed [of 0 0 ex_jit] by (simp_all add: S_def ir_refs)
       (simp add: lj_record_setup_def lj_ir_emit_def lj_ir_nextins_def lj_ir_growtop_def lj_ir_set_def Let_def ex_jit_def split: prod.splits)
  obtain r A where a: "lj_ir_emit (lj_ir_set IR_SLOAD IRT_INT 1 0 S) = (r, A)" by (cases "lj_ir_emit (lj_ir_set IR_SLOAD IRT_INT 1 0 S)")
  note A = emit_sload [OF S(1,2) a, unfolded S]
  obtain q B where b: "lj_ir_emit (lj_ir_set IR_SLOAD IRT_I64 2 0 A) = (q, B)" by (cases "lj_ir_emit (lj_ir_set IR_SLOAD IRT_I64 2 0 A)")
  note B = emit_sload [OF A(1,2) b, unfolded A(4-6)]
  have e: "ex_trace = B" unfolding ex_trace_def S_def [symmetric] a snd_conv b ..
  have q: "q = 0x8002" "r = 0x8001" using A(3) B(3) by simp_all
  show "ir_ok ex_trace" "ir_typed ex_trace" "is_ins ex_trace 0x8002" "ir_t (irs ex_trace 0x8002) = IRT_I64"
    "ir_o (irs ex_trace 0x8002) = IR_SLOAD" "jit_flags ex_trace = 0x03ff0000" "nk ex_trace = REF_TRUE"
    using B e q by simp_all
  show "is_ins ex_trace 0x8001" "ir_t (irs ex_trace 0x8001) = IRT_INT" "ir_o (irs ex_trace 0x8001) = IR_SLOAD"
    using B(10) [OF A(7)] A(7-9) e q by simp_all
qed

section \<open>The properties\<close>

text \<open>
  What \<open>pre_fold\<close> leaves out. The candidate is an operation with a value or a comparison on integers:
  division, power and bounds checks are none of these. A modulo is of 32 bits and its divisor is not
  the constant 0, and no modulo of an integer type that is in the IR already has 64 bits. Logical
  right shifts and both rotations of 64 bit values are left out, left rotations included, and so are
  the arithmetic operations with an overflow check on 64 bits, which the recorder does not emit.
\<close>

lemma pre_fold_scope:
  assumes "pre_fold J"
  shows "fo J \<noteq> IR_DIV" "fo J \<noteq> IR_POW" "fo J \<noteq> IR_ABC" "int_t (ft J)" "jit_flags J AND JIT_F_OPT_FOLD \<noteq> 0"
    "fw J \<Longrightarrow> fo J \<notin> {IR_MOD, IR_BSHR, IR_BROL, IR_BROR, IR_ADDOV, IR_SUBOV, IR_MULOV}"
    "fo J = IR_MOD \<Longrightarrow> \<not> (is_kint J (fop2 J) \<and> ir_i (irs J (fop2 J)) = 0)"
    "is_ins J r \<Longrightarrow> ir_o (irs J r) = IR_MOD \<Longrightarrow> int_t (ir_t (irs J r)) \<Longrightarrow> \<not> irt_is64 (ir_t (irs J r))"
proof -
  have t: "ins_typed J True (fo J) (fw J) (fop1 J) (fop2 J)" "ir_typed J" "\<not> bad_shift J"
    using assms by (simp_all add: pre_fold_def fins_ok_def)
  then have v: "val_op (fo J) \<or> cmp_op (fo J)" by (simp add: ins_typed_def)
  have n: "\<not> val_op p \<and> \<not> cmp_op p" if "p = IR_DIV \<or> p = IR_POW \<or> p = IR_ABC" for p
    using that by (elim disjE) (simp_all add: op_classes ir_ops)
  show "fo J \<noteq> IR_DIV" "fo J \<noteq> IR_POW" "fo J \<noteq> IR_ABC" using n [of "fo J"] v by blast+
  show "int_t (ft J)" "jit_flags J AND JIT_F_OPT_FOLD \<noteq> 0" using assms by (simp_all add: pre_fold_def fins_ok_def)
  show "fo J = IR_MOD \<Longrightarrow> \<not> (is_kint J (fop2 J) \<and> ir_i (irs J (fop2 J)) = 0)" using t(1) by (simp add: ins_typed_def)
  show "fw J \<Longrightarrow> fo J \<notin> {IR_MOD, IR_BSHR, IR_BROL, IR_BROR, IR_ADDOV, IR_SUBOV, IR_MULOV}"
    using t(1,3) by (auto simp: bad_shift_def bad_op_def ins_typed_def ov_op_def)
  show "is_ins J r \<Longrightarrow> ir_o (irs J r) = IR_MOD \<Longrightarrow> int_t (ir_t (irs J r)) \<Longrightarrow> \<not> irt_is64 (ir_t (irs J r))"
  proof -
    assume i: "is_ins J r" "ir_o (irs J r) = IR_MOD" "int_t (ir_t (irs J r))"
    have "val_op (ir_o (irs J r)) \<or> cmp_op (ir_o (irs J r))" unfolding i(2) by (simp add: op_classes)
    from int_insD(3) [OF t(2) i(1,3) this] show ?thesis unfolding i(2) ins_typed_def by blast
  qed
qed

text \<open>
  C28. Folding keeps the meaning of the candidates in its scope. The candidate is one of the integer
  operations ADD, SUB, MUL, MOD, NEG, MIN, MAX, BAND, BOR, BXOR, BNOT, BSWAP, the shifts and rotations,
  ADDOV, SUBOV, MULOV, or an integer comparison, with operands of its width; the IR is well-formed and
  well-typed with every constant unique; and the reference space for constants is not used up. Then
  the engine returns a reference to an instruction or constant that computes the value of the
  candidate, whatever the values of the loads are: constant folding, simplification, reassociation,
  commutation and common subexpression elimination together. The guards of the IR afterwards are true
  exactly if those before and the one of the candidate are, nothing that was in the IR is changed, and
  the IR is well-formed and well-typed again.

  Not covered, and excluded by \<open>pre_fold\<close> (see \<open>pre_fold_scope\<close>): BSHR, BROL and BROR on 64 bits,
  where the rule for masked operands is wrong (C30); DIV and POW, which differ for
  signed and unsigned operands where common subexpression elimination does not distinguish them (C31);
  MOD on 64 bits, for the same reason, also if such an instruction is in
  the IR already; a constant divisor 0; ABC, which has no value and whose rule for constant indices
  changes a bounds check that is in the IR.
\<close>

theorem fold_sound:
  assumes "pre_fold J" "lj_opt_fold n J = Done (J', r)" "nk J' \<noteq> 0"
  shows "ir_ok J' \<and> ir_typed J' \<and> ir_ext J J' \<and>
    (\<forall>\<rho>. trace_ok \<rho> J' = (trace_ok \<rho> J \<and> finguard \<rho> J)) \<and>
    (val_op (fo J) \<longrightarrow> opnd J' True (fw J) r \<and> (\<forall>\<rho>. agree (fw J) (irval (irs J') \<rho> r) (finval \<rho> J)))"
proof -
  have "post_ref \<rho> J J' r" for \<rho>
    using opt_fold_sound [of \<rho> n] assms unfolding eng_ok_def by blast
  then show ?thesis unfolding post_ref_def by blast
qed

text \<open>
  C29. The engine ends the recording with an error only if the guard of the candidate instruction is
  false whatever the values of the loads are.
\<close>

theorem fold_fail_sound:
  assumes "pre_fold J" "lj_opt_fold n J = TraceErr J'" "nk J' \<noteq> 0"
  shows "\<not> finguard \<rho> J"
  using opt_fold_sound [of \<rho> n] assms unfolding eng_ok_def by blast

section \<open>Concrete runs\<close>

text \<open>The trace with \<open>x + 5\<close> added, and the candidates \<open>(x + 5) - x\<close> and \<open>x \<noteq> x\<close>.\<close>

definition ex_add :: jit where
  "ex_add = snd (lj_ir_emit (lj_ir_set IR_ADD IRT_INT 0x8001 0x7ffc (snd (lj_ir_kint 5 ex_trace))))"

definition ex_sub :: jit where "ex_sub = lj_ir_set IR_SUB IRT_INT 0x8003 0x8001 ex_add"
definition ex_ne :: jit where "ex_ne = lj_ir_set IR_NE (IRT_INT OR IRT_GUARD) 0x8001 0x8001 ex_add"

lemma ex_chain: "chain ex_trace IR_KINT = 0" "nins ex_trace = 0x8003"
  unfolding ex_trace_def lj_record_setup_def lj_ir_emit_def lj_ir_nextins_def lj_ir_growtop_def lj_ir_set_def Let_def
  by (simp_all add: ir_refs ir_ops ex_jit_def split: prod.splits)

lemma ex_int: "int_t IRT_INT" "\<not> irt_is64 IRT_INT" "int_t (IRT_INT OR IRT_GUARD)" "\<not> irt_is64 (IRT_INT OR IRT_GUARD)"
  "\<not> irt_isphi IRT_INT" "\<not> irt_isnum IRT_INT" "IR_NE \<noteq> IR_EQ" "\<not> irt_isnum (IRT_INT OR IRT_GUARD)" "(0x03ff0000::u32) AND JIT_F_OPT_FOLD \<noteq> 0"
  by code_simp+

lemma ex_kint:
  obtains J where "lj_ir_kint 5 ex_trace = (0x7ffc, J)" "nk J = 0x7ffc"
proof -
  obtain r J where k: "lj_ir_kint 5 ex_trace = (r, J)" by (cases "lj_ir_kint 5 ex_trace")
  have "chain_lookup ex_trace IR_KINT P lim = None" for P lim
    by (simp add: chain_lookup_def chain_fuel_def ex_chain) (simp add: REF_BIAS_def numeral_eq_Suc)
  then have "r = 0x7ffc \<and> nk J = 0x7ffc"
    using k ex_trace_ok(10) by (auto simp: lj_ir_kint_def Let_def REF_TRUE_def REF_BIAS_def dest: nextk_simps split: prod.splits)
  then show ?thesis using k that by simp
qed

lemma ex_add_ok: "ir_ok ex_add" "ir_typed ex_add" "nk ex_add = 0x7ffc" "jit_flags ex_add = 0x03ff0000"
  "is_ins ex_add 0x8003" "irs ex_add 0x8001 = irs ex_trace 0x8001" "is_ins ex_add 0x8001"
  "ir_o (irs ex_add 0x8003) = IR_ADD" "ir_op1 (irs ex_add 0x8003) = 0x8001" "ir_op2 (irs ex_add 0x8003) = 0x7ffc"
  "ir_t (irs ex_add 0x8003) = IRT_INT"
proof -
  obtain K where k: "lj_ir_kint 5 ex_trace = (0x7ffc, K)" "nk K = 0x7ffc" by (rule ex_kint)
  note g = kint_grown [OF ex_trace_ok(1,2) k(1)]
  have K: "ir_ok K" "ir_typed K" "ir_ext ex_trace K" "nins K = 0x8003" "is_kint K 0x7ffc" "jit_flags K = 0x03ff0000"
    using g k(2) ex_chain(2) ex_trace_ok(9) by (simp_all add: grown_def ir_ext_def)
  have gr: "grown ex_trace K" using g(1) k(2) by simp
  have x1: "int_ref ex_trace 0x8001" using ex_trace_ok ex_int by (simp add: int_ref_def)
  note x = grown_ref [OF ex_trace_ok(1,2) gr x1]
  define A where "A = lj_ir_set IR_ADD IRT_INT 0x8001 0x7ffc K"
  have A: "ir_ok A" "ir_typed A" "fo A = IR_ADD" "ft A = IRT_INT" "fop1 A = 0x8001" "fop2 A = 0x7ffc" "nk A = 0x7ffc"
    "nins A = 0x8003" "jit_flags A = 0x03ff0000" "irs A 0x8001 = irs ex_trace 0x8001" "is_ins A 0x8001"
    using K k(2) x x1 ex_trace_ok(3) by (simp_all add: A_def lj_ir_set_def is_ins_def ir_refs)
  have ty: "ins_typed A False IR_ADD False 0x8001 0x7ffc"
    using opnd_kint [OF K(5)] K A opnd_ins [OF A(1,11)] ex_trace_ok(5) ex_int
    by (simp add: ins_typed_def op_classes ir_ops) (simp add: A_def lj_ir_set_def)
  obtain r B where e: "lj_ir_emit A = (r, B)" by (cases "lj_ir_emit A")
  have b: "ex_add = B" unfolding ex_add_def k snd_conv A_def [symmetric] e ..
  have nc: "\<not> is_const_op (fo A)" by (simp add: A is_const_op_def ir_ops)
  have eb: "emitted A r B" by (rule emit_emitted [OF A(1) nc e])
  then have r: "r = 0x8003" unfolding emitted_def A by simp
  have em: "ir_ok B" "ir_ext A B" "r = 0x8003" "nins B = 0x8004" "nk B = 0x7ffc" "ir_o (irs B r) = IR_ADD"
    "ir_op1 (irs B r) = 0x8001" "ir_op2 (irs B r) = 0x7ffc" "ir_t (irs B r) = IRT_INT"
    using eb unfolding r emitted_def A by simp_all
  have "post_ref undefined A B r" by (rule cse_new [OF A(1,2) _ _ e]) (use A ty ex_int in simp_all)
  then show "ir_typed ex_add" unfolding b post_ref_def by simp
  have y: "irs B 0x8001 = irs A 0x8001" "jit_flags B = jit_flags A"
    using em(2) A by (simp_all add: ir_ext_def)
  show "ir_ok ex_add" "nk ex_add = 0x7ffc" "jit_flags ex_add = 0x03ff0000"
    "is_ins ex_add 0x8003" "irs ex_add 0x8001 = irs ex_trace 0x8001" "is_ins ex_add 0x8001"
    "ir_o (irs ex_add 0x8003) = IR_ADD" "ir_op1 (irs ex_add 0x8003) = 0x8001" "ir_op2 (irs ex_add 0x8003) = 0x7ffc"
    "ir_t (irs ex_add 0x8003) = IRT_INT"
    unfolding b using em y A by (simp_all add: is_ins_def ir_refs)
qed

lemma ex_refs: "opnd ex_add z False 0x8003" "opnd ex_add z False 0x8001"
  using opnd_ins [OF ex_add_ok(1,5)] opnd_ins [OF ex_add_ok(1,7)] ex_add_ok ex_trace_ok(5) ex_int by simp_all

lemma ex_sub_pre: "pre_fold ex_sub"
  using ex_add_ok ex_refs ex_int
  by (simp add: pre_fold_def ex_sub_def lj_ir_set_def fins_ok_def bad_shift_def)
     (simp add: ins_typed_def op_classes ir_ops)

lemma ex_ne_pre: "pre_fold ex_ne"
  using ex_add_ok ex_refs ex_int
  by (simp add: pre_fold_def ex_ne_def lj_ir_set_def fins_ok_def bad_shift_def)
     (simp add: ins_typed_def op_classes ir_ops)

lemma ex_hash:
  "fold_hash (IR_SUB, IR_ADD, IR_SLOAD) = None" "fold_hash (IR_SUB, F_any, IR_SLOAD) = None"
  "fold_hash (IR_SUB, IR_ADD, F_anyr) = Some S_subadd_left"
  "fold_hash (IR_NE, IR_SLOAD, IR_SLOAD) = None" "fold_hash (IR_NE, F_any, IR_SLOAD) = None"
  "fold_hash (IR_NE, IR_SLOAD, F_anyr) = None" "fold_hash (IR_NE, F_any, F_anyr) = Some C_equal"
  by code_simp+

lemma ex_sub_run: "\<exists>J. lj_opt_fold 1 ex_sub = Done (J, 0x7ffc) \<and> nk J = 0x7ffc"
  using ex_add_ok ex_trace_ok(7) ex_int
  by (simp add: ex_sub_def lj_opt_fold_def fold_entry_def lj_ir_set_def fold_load_def Let_def fold_keys_def ex_hash
     tr_bind_def simplify_intsubadd_leftcancel_def PHIBARRIER_def)

lemma ex_ne_run: "\<exists>J. lj_opt_fold 1 ex_ne = TraceErr J \<and> nk J = 0x7ffc"
  using ex_add_ok ex_trace_ok(7) ex_int
  by (simp add: ex_ne_def lj_opt_fold_def fold_entry_def lj_ir_set_def fold_load_def Let_def fold_keys_def ex_hash
     tr_bind_def comm_equal_def CONDFOLD_def)

theorem fold_sound_witness:
  "\<exists>J'. lj_opt_fold 1 ex_sub = Done (J', 0x7ffc) \<and> (\<forall>\<rho>. agree False (irval (irs J') \<rho> 0x7ffc) (finval \<rho> ex_sub))"
proof -
  obtain J' where r: "lj_opt_fold 1 ex_sub = Done (J', 0x7ffc)" "nk J' = 0x7ffc" using ex_sub_run by blast
  have "val_op (fo ex_sub)" "\<not> fw ex_sub" using ex_int by (simp_all add: ex_sub_def lj_ir_set_def op_classes ir_ops)
  then show ?thesis using fold_sound [OF ex_sub_pre r(1)] r by simp
qed

theorem fold_fail_sound_witness: "\<not> finguard (\<lambda>_. 3) ex_ne"
proof -
  obtain J' where r: "lj_opt_fold 1 ex_ne = TraceErr J'" "nk J' = 0x7ffc" using ex_ne_run by blast
  show ?thesis using fold_fail_sound [OF ex_ne_pre r(1)] r(2) by simp
qed

section \<open>Where the engine goes wrong\<close>

text \<open>
  C30. The rule for \<open>(x & m) >> s\<close> moves the shift inwards and shifts the mask with the helper for
  64 bit constants, which shifts and rotates to the right only the low 32 bits. With the mask
  \<open>0xffffffff00000000\<close> and the shift 8 the new mask is 0 and so is the result, where the value of the
  expression is that of \<open>x >> 8\<close> with the mask \<open>0x00ffffffff000000\<close>.
\<close>

theorem mask_shift64_wrong:
  assumes "ir_o (irs J (ir_op2 (fl J))) = IR_KINT64" "ir_k64 (irs J) (ir_op2 (fl J)) = 0xffffffff00000000"
    and "ir_i (fr J) = 8" "fo J = IR_BSHR" "\<not> irt_isphi (ir_t (fl J))" "eng (set_op1 (ir_op1 (fl J)) J) = Done (J1, r)"
  shows "simplify_shiftk_andk eng J
      = Done (set_ot (ir_o (fl J)) (ir_t (fl J)) (op2_kint64 0 (set_op1 r J1)), RETRYFOLD) \<and>
    irsem64 IR_BSHR (irsem64 IR_BAND x 0xffffffff00000000) 8
      = irsem64 IR_BAND (irsem64 IR_BSHR x 8) 0x00ffffffff000000"
proof
  have k: "kfold_int64op 0xffffffff00000000 (scast (8::u32)) IR_BSHR = 0" "IR_KINT64 \<noteq> IR_KINT" by code_simp+
  show "simplify_shiftk_andk eng J
      = Done (set_ot (ir_o (fl J)) (ir_t (fl J)) (op2_kint64 0 (set_op1 r J1)), RETRYFOLD)"
    unfolding simplify_shiftk_andk_def Let_def assms tr_bind_def tr.case prod.case k(1) using k(2) assms(5) by simp
  have s: "irsem64 IR_BSHR y 8 = drop_bit 8 y" "irsem64 IR_BAND y z = y AND z" for y z
    by (simp_all add: irsem64_def irsem_def ir_ops)
  have "drop_bit 8 (0xffffffff00000000::u64) = 0x00ffffffff000000" by (simp add: drop_bit_eq_div)
  then show "irsem64 IR_BSHR (irsem64 IR_BAND x 0xffffffff00000000) 8
      = irsem64 IR_BAND (irsem64 IR_BSHR x 8) 0x00ffffffff000000"
    unfolding s drop_bit_and by simp
qed

definition ex_mask :: jit where
  "ex_mask = ex_jit\<lparr>irs := (irs ex_jit)(0x7ffa := ex_irins\<lparr>ir_o := IR_KINT64\<rparr>, 0x7ffb := ex_irins\<lparr>ir_tv := 0xffffffff00000000\<rparr>),
     fins := ex_irins\<lparr>ir_o := IR_BSHR, ir_op1 := 0x8002, ir_t := IRT_I64\<rparr>,
     fleft := (ex_irins\<lparr>ir_o := IR_BAND, ir_op1 := 0x8001, ir_op2 := 0x7ffa, ir_t := IRT_I64\<rparr>, ex_irins),
     fright := (ex_irins\<lparr>ir_o := IR_KINT, ir_i := 8\<rparr>, ex_irins)\<rparr>"

theorem mask_shift64_wrong_witness:
  "simplify_shiftk_andk (\<lambda>J. Done (J, 0x8003)) ex_mask
    = Done (set_ot IR_BAND IRT_I64 (op2_kint64 0 (set_op1 0x8003 (set_op1 0x8001 ex_mask))), RETRYFOLD)"
proof -
  have "\<not> irt_isphi IRT_I64" by code_simp
  then show ?thesis
    using mask_shift64_wrong [of ex_mask "\<lambda>J. Done (J, 0x8003)" "set_op1 0x8001 ex_mask" "0x8003" 0]
    by (simp add: ex_mask_def ex_irins_def ir_k64_def)
qed

text \<open>
  C31. Common subexpression elimination compares the opcode and the operands, not the type: the
  division of unsigned 64 bit integers after the division of the same operands as signed ones gives
  the reference of the signed division, but the two differ on negative operands.
\<close>

theorem cse_ignores_type:
  assumes "lj_ir_emit (lj_ir_set IR_DIV IRT_I64 a b J) = (r, J')" "a < nins J" "b < nins J" "jit_flags J AND JIT_F_OPT_CSE \<noteq> 0"
  shows "lj_opt_cse (lj_ir_set IR_DIV IRT_U64 a b J') = (lj_ir_set IR_DIV IRT_U64 a b J', r) \<and>
    lj_carith_divi64 (- 8) 2 \<noteq> lj_carith_divu64 (- 8) 2"
proof
  obtain q A where n: "lj_ir_nextins J = (q, A)" by (cases "lj_ir_nextins J")
  have n': "lj_ir_nextins (lj_ir_set IR_DIV IRT_I64 a b J) = (q, lj_ir_set IR_DIV IRT_I64 a b A)"
    using n by (auto simp: lj_ir_nextins_def lj_ir_set_def lj_ir_growtop_def Let_def split: if_splits)
  note N = nextins_simps [OF n]
  have J': "r = nins J" "chain J' IR_DIV = r" "ir_op1 (irs J' r) = a" "ir_op2 (irs J' r) = b" "jit_flags J' = jit_flags J"
    using assms(1) N by (auto simp: lj_ir_emit_def n' Let_def) (auto simp: lj_ir_set_def)
  obtain m where m: "chain_fuel r = Suc m" by (cases "chain_fuel r") (simp_all add: chain_fuel_def REF_BIAS_def)
  have "chain_lookup J' IR_DIV (\<lambda>r. ir_op1 (irs J' r) = a \<and> ir_op2 (irs J' r) = b) (max a b) = Some r"
    using J' assms(2,3) by (simp add: chain_lookup_def m [unfolded J'(1)])
  then show "lj_opt_cse (lj_ir_set IR_DIV IRT_U64 a b J') = (lj_ir_set IR_DIV IRT_U64 a b J', r)"
    using J'(5) assms(4) by (simp add: lj_opt_cse_def lj_ir_set_def chain_lookup_def)
  show "lj_carith_divi64 (- 8) 2 \<noteq> lj_carith_divu64 (- 8) 2" by code_simp
qed

theorem cse_ignores_type_witness:
  "\<exists>r J'. lj_opt_cse (lj_ir_set IR_DIV IRT_U64 0x8002 0x8002 J') = (lj_ir_set IR_DIV IRT_U64 0x8002 0x8002 J', r) \<and> r = 0x8003"
proof -
  obtain r J' where e: "lj_ir_emit (lj_ir_set IR_DIV IRT_I64 0x8002 0x8002 ex_trace) = (r, J')"
    by (cases "lj_ir_emit (lj_ir_set IR_DIV IRT_I64 0x8002 0x8002 ex_trace)")
  have f: "(0x03ff0000::u32) AND JIT_F_OPT_CSE \<noteq> 0" by code_simp
  have "r = 0x8003"
    using e ex_chain(2) by (auto simp: lj_ir_emit_def lj_ir_set_def Let_def dest: nextins_simps split: prod.splits)
  then show ?thesis using cse_ignores_type [OF e] ex_chain(2) ex_trace_ok(9) f by auto
qed

end
