(* ===== verification/LjFoldTerm.thy ===== *)
theory LjFoldTerm
  imports LjFoldProps
begin

text \<open>
  The folding engine returns. Every retry makes the instruction smaller: its class of operations,
  then the positions of its operands that are instructions, then the rank of the operation, then the
  order of the operands. The rule that folds an intermediate instruction calls the engine for a
  smaller one. This holds for the modelled rules and every instruction with valid operands, and does
  not need the constants to be unique or to have room. The rules for floating point numbers, strings
  and pointer constants are not in the model, so nothing is said of candidates that they match.
\<close>

section \<open>Valid references\<close>

definition kgood :: "jit \<Rightarrow> nat \<Rightarrow> bool" where
  "kgood J r \<longleftrightarrow> nk J \<le> r \<and> r < nins J \<and>
     (if r < REF_BIAS then is_const_op (ir_o (irs J r)) else \<not> is_const_op (ir_o (irs J r)))"

definition rgood :: "jit \<Rightarrow> irop \<Rightarrow> nat \<Rightarrow> bool" where
  "rgood J p r \<longleftrightarrow> kgood J r \<or> unary_op p \<and> r = 0"

definition chain_fine :: "jit \<Rightarrow> irop \<Rightarrow> bool" where
  "chain_fine J op \<longleftrightarrow> (\<exists>rs. ichain (irs J) (chain J op) rs \<and>
     (\<forall>r\<in>set rs. nk J \<le> r \<and> r < nins J \<and> (r < REF_BIAS \<longleftrightarrow> is_const_op op) \<and> ir_o (irs J r) = op))"

definition ir_fine :: "jit \<Rightarrow> bool" where
  "ir_fine J \<longleftrightarrow> nk J \<le> REF_TRUE \<and> REF_BIAS \<le> nins J \<and> (\<forall>op. chain_fine J op) \<and>
     (\<forall>r. REF_BIAS \<le> r \<longrightarrow> r < nins J \<longrightarrow> val_op (ir_o (irs J r)) \<longrightarrow>
        kgood J (ir_op1 (irs J r)) \<and> ir_op1 (irs J r) < r \<and>
        rgood J (ir_o (irs J r)) (ir_op2 (irs J r)) \<and> ir_op2 (irs J r) < r)"

definition fins_fine :: "jit \<Rightarrow> bool" where
  "fins_fine J \<longleftrightarrow> (val_op (fo J) \<or> cmp_op (fo J)) \<and> kgood J (fop1 J) \<and> rgood J (fo J) (fop2 J)"

lemma fine_fins [simp]: "kgood (J\<lparr>fins := f\<rparr>) = kgood J" "rgood (J\<lparr>fins := f\<rparr>) = rgood J" "ir_fine (J\<lparr>fins := f\<rparr>) = ir_fine J"
  "kgood (J\<lparr>fleft := l\<rparr>) = kgood J" "rgood (J\<lparr>fleft := l\<rparr>) = rgood J" "ir_fine (J\<lparr>fleft := l\<rparr>) = ir_fine J"
  "kgood (J\<lparr>fright := l\<rparr>) = kgood J" "rgood (J\<lparr>fright := l\<rparr>) = rgood J" "ir_fine (J\<lparr>fright := l\<rparr>) = ir_fine J"
  by (simp_all add: fun_eq_iff kgood_def rgood_def ir_fine_def chain_fine_def)

lemma search_Some: "chain_search n ir P lim r = Some q \<Longrightarrow> P q \<and> (ichain ir r rs \<longrightarrow> q \<in> set rs)"
proof (induction n arbitrary: r rs)
  case (Suc n)
  show ?case
  proof (cases "r > lim \<and> \<not> P r")
    case True
    then have "chain_search n ir P lim (ir_prev (ir r)) = Some q" using Suc.prems by simp
    note IH = Suc.IH [OF this]
    show ?thesis
    proof (intro conjI impI)
      show "P q" using IH by blast
      assume "ichain ir r rs"
      then obtain ys where "rs = r # ys" "ichain ir (ir_prev (ir r)) ys" using True by (cases rs) auto
      then show "q \<in> set rs" using IH [of ys] by simp
    qed
  next
    case False
    then have "q = r" "r > lim" "P r" using Suc.prems by (auto split: if_splits)
    then show ?thesis by (cases rs) auto
  qed
qed simp

lemma lookup_fine:
  assumes "chain_fine J op" "chain_lookup J op P lim = Some r"
  shows "P r" "nk J \<le> r" "r < nins J" "r < REF_BIAS \<longleftrightarrow> is_const_op op" "ir_o (irs J r) = op"
  using assms search_Some unfolding chain_fine_def chain_lookup_def by metis+

text \<open>A new constant: the slots below the old limit, and the value behind a 64 bit one.\<close>

lemma fine_const:
  assumes f: "ir_fine J" and nk: "nk J' \<le> nk J" "r0 = nk J'" "nins J' = nins J" "nk J' < REF_BIAS"
    and lt: "r0 < nk J \<or> r0 = 0"
    and old: "\<And>r. r \<noteq> r0 \<Longrightarrow> ir_o (irs J' r) = ir_o (irs J r) \<and> ir_prev (irs J' r) = ir_prev (irs J r) \<and>
      ir_op1 (irs J' r) = ir_op1 (irs J r) \<and> ir_op2 (irs J' r) = ir_op2 (irs J r)"
    and new: "ir_o (irs J' r0) = op" "ir_prev (irs J' r0) = chain J op" "is_const_op op"
    and ch: "chain J' = (chain J)(op := r0)"
  shows "ir_fine J'" "kgood J' r0" "\<And>r. kgood J r \<Longrightarrow> kgood J' r"
proof -
  note F = f [unfolded ir_fine_def]
  have ins: "r0 < REF_BIAS" using nk by simp
  show kg: "kgood J' r0" using nk new F by (simp add: kgood_def ir_refs)
  show up: "kgood J' r" if "kgood J r" for r
  proof (cases "r = r0")
    case False
    then show ?thesis using that old [of r] nk by (simp add: kgood_def)
  qed (use kg in simp)
  have ch': "chain_fine J' q" for q
  proof -
    obtain rs where rs: "ichain (irs J) (chain J q) rs" "\<forall>r\<in>set rs. nk J \<le> r \<and> r < nins J \<and> (r < REF_BIAS \<longleftrightarrow> is_const_op q) \<and> ir_o (irs J r) = q"
      using F unfolding chain_fine_def by blast
    have n0: "0 \<notin> set rs" using ichain_nonzero [OF rs(1)] .
    have nr: "r0 \<notin> set rs" using lt rs(2) n0 by auto
    have c: "ichain (irs J') h ys" if "ichain (irs J) h ys" "r0 \<notin> set ys" for h ys
      using that old by (induction rule: ichain.induct) auto
    have cr: "ichain (irs J') (chain J q) rs" by (rule c [OF rs(1) nr])
    have ok: "\<forall>r\<in>set rs. nk J' \<le> r \<and> r < nins J' \<and> (r < REF_BIAS \<longleftrightarrow> is_const_op q) \<and> ir_o (irs J' r) = q"
    proof
      fix r assume "r \<in> set rs"
      then show "nk J' \<le> r \<and> r < nins J' \<and> (r < REF_BIAS \<longleftrightarrow> is_const_op q) \<and> ir_o (irs J' r) = q"
        using rs(2) old [of r] nr nk by (metis order_trans)
    qed
    consider (added) "q = op" "r0 \<noteq> 0" | (none) "q = op" "r0 = 0" | (other) "q \<noteq> op" by blast
    then show ?thesis
    proof cases
      case added
      then show ?thesis
        unfolding chain_fine_def using cr ok new ch kg ins nk F
        by (intro exI [of _ "r0 # rs"]) (auto simp: kgood_def)
    next
      case none
      then show ?thesis unfolding chain_fine_def by (intro exI [of _ "[]"]) (simp add: ch)
    next
      case other
      then show ?thesis unfolding chain_fine_def using cr ok ch by (intro exI [of _ rs]) simp
    qed
  qed
  show "ir_fine J'"
    unfolding ir_fine_def
  proof (intro conjI allI impI ch')
    fix r assume r: "REF_BIAS \<le> r" "r < nins J'" "val_op (ir_o (irs J' r))"
    have "r \<noteq> r0" using r ins by simp
    note o = old [OF this]
    have w: "kgood J (ir_op1 (irs J r)) \<and> ir_op1 (irs J r) < r \<and> rgood J (ir_o (irs J r)) (ir_op2 (irs J r)) \<and> ir_op2 (irs J r) < r"
      using F r o nk by simp
    then show "kgood J' (ir_op1 (irs J' r))" "ir_op1 (irs J' r) < r" "rgood J' (ir_o (irs J' r)) (ir_op2 (irs J' r))" "ir_op2 (irs J' r) < r"
      using o up by (auto simp: rgood_def)
  qed (use F nk in auto)
qed

lemma kint_fine:
  assumes "ir_fine J" "lj_ir_kint k J = (r, J')"
  shows "ir_fine J'" "kgood J' r" "r < REF_BIAS" "ir_i (irs J' r) = k" "ir_o (irs J' r) = IR_KINT" "\<And>x. kgood J x \<Longrightarrow> kgood J' x" "fins J' = fins J"
proof -
  have c: "is_const_op IR_KINT" by (simp add: is_const_op_def ir_ops)
  have cf: "chain_fine J IR_KINT" and lim: "nk J \<le> REF_TRUE" using assms(1) by (simp_all add: ir_fine_def)
  show "fins J' = fins J" using kint_fins(2) [of k J] assms(2) by simp
  have "ir_fine J' \<and> kgood J' r \<and> r < REF_BIAS \<and> ir_i (irs J' r) = k \<and> ir_o (irs J' r) = IR_KINT \<and> (\<forall>x. kgood J x \<longrightarrow> kgood J' x)"
  proof (cases "chain_lookup J IR_KINT (\<lambda>r. ir_i (irs J r) = k) 0")
    case (Some q)
    then show ?thesis using assms lookup_fine [OF cf Some] c by (auto simp: lj_ir_kint_def kgood_def)
  next
    case None
    obtain q J1 where n: "ir_nextk J = (q, J1)" by (cases "ir_nextk J")
    note N = nextk_simps [OF n]
    have J': "r = q" "J' = J1\<lparr>irs := (irs J1)(q := (irs J1 q)\<lparr>ir_i := k, ir_t := IRT_INT, ir_o := IR_KINT, ir_prev := chain J IR_KINT\<rparr>),
        chain := (chain J1)(IR_KINT := q)\<rparr>"
      using assms(2) N by (auto simp: lj_ir_kint_def None n Let_def)
    have F: "ir_fine J'" "kgood J' q" "\<And>x. kgood J x \<Longrightarrow> kgood J' x"
      by (rule fine_const [OF assms(1), of J' q IR_KINT]; use N lim c in \<open>auto simp: J'(2) ir_refs\<close>)+
    then show ?thesis using J' N lim by (simp add: ir_refs)
  qed
  then show "ir_fine J'" "kgood J' r" "r < REF_BIAS" "ir_i (irs J' r) = k" "ir_o (irs J' r) = IR_KINT" "\<And>x. kgood J x \<Longrightarrow> kgood J' x" by blast+
qed

lemma kint64_fine:
  assumes "ir_fine J" "lj_ir_kint64 k J = (r, J')"
  shows "ir_fine J'" "kgood J' r" "r < REF_BIAS" "\<And>x. kgood J x \<Longrightarrow> kgood J' x" "fins J' = fins J"
proof -
  have kn: "IR_KINT64 \<noteq> IR_KNUM" by (simp add: ir_ops)
  have c: "is_const_op IR_KINT64" by (simp add: is_const_op_def ir_ops)
  have cf: "chain_fine J IR_KINT64" and lim: "nk J \<le> REF_TRUE" using assms(1) by (simp_all add: ir_fine_def)
  have "ir_fine J' \<and> kgood J' r \<and> r < REF_BIAS \<and> (\<forall>x. kgood J x \<longrightarrow> kgood J' x) \<and> fins J' = fins J"
  proof (cases "chain_lookup J IR_KINT64 (\<lambda>r. ir_k64 (irs J) r = k) 0")
    case (Some q)
    then show ?thesis using assms lookup_fine [OF cf Some] c by (auto simp: lj_ir_kint64_def lj_ir_k64_def kgood_def)
  next
    case None
    obtain q J1 where n: "ir_nextk64 J = (q, J1)" by (cases "ir_nextk64 J")
    note N = nextk64_simps [OF n]
    have J': "r = q" "J' = J1\<lparr>irs := (irs J1)(q + 1 := (irs J1 (q + 1))\<lparr>ir_tv := k\<rparr>, q := (irs J1 q)\<lparr>
        ir_t := IRT_I64, ir_o := IR_KINT64, ir_op1 := 0, ir_op2 := 0, ir_i := 0, ir_prev := chain J IR_KINT64\<rparr>),
        chain := (chain J1)(IR_KINT64 := q)\<rparr>"
      using assms(2) N kn by (auto simp: lj_ir_kint64_def lj_ir_k64_def None n Let_def)
    have F: "ir_fine J'" "kgood J' q" "\<And>x. kgood J x \<Longrightarrow> kgood J' x"
      by (rule fine_const [OF assms(1), of J' q IR_KINT64]; use N lim c in \<open>auto simp: J'(2) ir_refs\<close>)+
    then show ?thesis using J' N lim by (simp add: ir_refs)
  qed
  then show "ir_fine J'" "kgood J' r" "r < REF_BIAS" "\<And>x. kgood J x \<Longrightarrow> kgood J' x" "fins J' = fins J" by blast+
qed

lemma emit_fine:
  assumes f: "ir_fine J" "fins_fine J" and e: "lj_ir_emit J = (r, J')"
  shows "ir_fine J'" "kgood J' r" "\<And>x. kgood J x \<Longrightarrow> kgood J' x"
proof -
  note F = f(1) [unfolded ir_fine_def] and G = f(2) [unfolded fins_fine_def]
  have nc: "\<not> is_const_op (fo J)" using G val_op_not_const by blast
  have E: "r = nins J" "nins J' = nins J + 1" "nk J' = nk J" "chain J' = (chain J)(fo J := r)"
    "\<And>q. q \<noteq> r \<Longrightarrow> irs J' q = irs J q" "ir_o (irs J' r) = fo J" "ir_t (irs J' r) = ft J" "ir_op1 (irs J' r) = fop1 J"
    "ir_op2 (irs J' r) = fop2 J" "ir_prev (irs J' r) = chain J (fo J)"
    using e by (auto simp: lj_ir_emit_def lj_ir_nextins_def lj_ir_growtop_def Let_def split: if_splits)
  have bias: "REF_BIAS \<le> r" "nk J \<le> r" using F E(1) by (simp_all add: ir_refs)
  show kr: "kgood J' r" using E bias nc G by (simp add: kgood_def)
  show up: "kgood J' x" if "kgood J x" for x using that E by (auto simp: kgood_def)
  have ch: "chain_fine J' q" for q
  proof -
    obtain rs where rs: "ichain (irs J) (chain J q) rs" "\<forall>r\<in>set rs. nk J \<le> r \<and> r < nins J \<and> (r < REF_BIAS \<longleftrightarrow> is_const_op q) \<and> ir_o (irs J r) = q"
      using F unfolding chain_fine_def by blast
    have c: "ichain (irs J') (chain J q) rs" by (rule ichain_cong [OF rs(1)]) (use rs(2) E(1,5) in auto)
    show ?thesis
    proof (cases "q = fo J")
      case True
      then show ?thesis
        unfolding chain_fine_def using c rs(2) E bias nc by (intro exI [of _ "r # rs"]) (auto simp: ir_refs)
    next
      case False
      then show ?thesis unfolding chain_fine_def using c rs(2) E by (intro exI [of _ rs]) auto
    qed
  qed
  have op: "kgood J (fop1 J)" "rgood J (fo J) (fop2 J)" "fop1 J < r" "fop2 J < r"
    using G F E(1) bias by (auto simp: kgood_def rgood_def ir_refs)
  show "ir_fine J'"
    unfolding ir_fine_def
  proof (intro conjI allI impI ch)
    fix q assume q: "REF_BIAS \<le> q" "q < nins J'" "val_op (ir_o (irs J' q))"
    have w: "kgood J (ir_op1 (irs J' q)) \<and> ir_op1 (irs J' q) < q \<and> rgood J (ir_o (irs J' q)) (ir_op2 (irs J' q)) \<and> ir_op2 (irs J' q) < q"
    proof (cases "q = r")
      case True
      then show ?thesis using op E by simp
    next
      case False
      then have "q < nins J" "irs J' q = irs J q" using q(2) E by simp_all
      then show ?thesis using F q by simp
    qed
    then show "kgood J' (ir_op1 (irs J' q))" "ir_op1 (irs J' q) < q" "rgood J' (ir_o (irs J' q)) (ir_op2 (irs J' q))" "ir_op2 (irs J' q) < q"
      using up by (auto simp: rgood_def)
  qed (use F E in auto)
qed

section \<open>The measure\<close>

definition op_class :: "irop \<Rightarrow> nat" where
  "op_class p = (if cmp_op p then 5 else if p = IR_MULOV \<or> p = IR_MUL \<or> p = IR_MOD then 4 else if shift_op p then 3
     else if p = IR_ADD \<or> p = IR_SUB \<or> p = IR_ADDOV then 2
     else if p = IR_BNOT \<or> p = IR_NEG then 0 else 1)"

definition ref_pos :: "nat \<Rightarrow> nat" where "ref_pos r = Suc r - REF_BIAS"

definition op_rank :: "irop \<Rightarrow> nat" where "op_rank p = (if p = IR_SUB \<or> p = IR_BROR then 2 else 0)"

text \<open>A constant shift count that is still to be masked.\<close>

definition unmasked :: "jit \<Rightarrow> nat" where
  "unmasked J = (if shift_op (fo J) \<and> fop2 J < REF_BIAS \<and> ir_i (irs J (fop2 J)) AND shift_mask J \<noteq> ir_i (irs J (fop2 J)) then 1 else 0)"

definition fold_less :: "jit \<Rightarrow> jit \<Rightarrow> bool" where
  "fold_less J' J \<longleftrightarrow> (J', J) \<in> measures [\<lambda>J. op_class (fo J), \<lambda>J. ref_pos (fop1 J) + ref_pos (fop2 J),
     \<lambda>J. op_rank (fo J) + unmasked J, \<lambda>J. if fop1 J < fop2 J then 1 else 0]"

lemma fold_less_wf: "wf {(J', J). fold_less J' J}"
proof -
  have "{(J', J). fold_less J' J} = measures [\<lambda>J. op_class (fo J), \<lambda>J. ref_pos (fop1 J) + ref_pos (fop2 J),
     \<lambda>J. op_rank (fo J) + unmasked J, \<lambda>J. if fop1 J < fop2 J then 1 else 0]"
    unfolding fold_less_def by blast
  then show ?thesis by (simp only: wf_measures)
qed

lemma fold_lessI:
  "op_class (fo J') < op_class (fo J) \<Longrightarrow> fold_less J' J"
  "op_class (fo J') \<le> op_class (fo J) \<Longrightarrow> ref_pos (fop1 J') + ref_pos (fop2 J') < ref_pos (fop1 J) + ref_pos (fop2 J) \<Longrightarrow> fold_less J' J"
  "op_class (fo J') \<le> op_class (fo J) \<Longrightarrow> ref_pos (fop1 J') + ref_pos (fop2 J') \<le> ref_pos (fop1 J) + ref_pos (fop2 J) \<Longrightarrow>
    op_rank (fo J') + unmasked J' < op_rank (fo J) + unmasked J \<Longrightarrow> fold_less J' J"
  "op_class (fo J') \<le> op_class (fo J) \<Longrightarrow> ref_pos (fop1 J') + ref_pos (fop2 J') \<le> ref_pos (fop1 J) + ref_pos (fop2 J) \<Longrightarrow>
    op_rank (fo J') + unmasked J' \<le> op_rank (fo J) + unmasked J \<Longrightarrow> \<not> fop1 J' < fop2 J' \<Longrightarrow> fop1 J < fop2 J \<Longrightarrow> fold_less J' J"
  by (auto simp: fold_less_def)

lemma pos_const [simp]: "r < REF_BIAS \<Longrightarrow> ref_pos r = 0"
  by (simp add: ref_pos_def)

lemma pos_less: "a < b \<Longrightarrow> REF_BIAS \<le> b \<Longrightarrow> ref_pos a < ref_pos b"
  by (simp add: ref_pos_def)

section \<open>What a rule gives\<close>

definition okst :: "jit \<Rightarrow> jit \<Rightarrow> bool" where
  "okst J J' \<longleftrightarrow> ir_fine J' \<and> (\<forall>x. kgood J x \<longrightarrow> kgood J' x)"

definition fine_res :: "jit \<Rightarrow> jit \<times> foldres \<Rightarrow> bool" where
  "fine_res J = (\<lambda>(J', res). case res of
     NEXTFOLD \<Rightarrow> J' = J
   | RETRYFOLD \<Rightarrow> okst J J' \<and> fins_fine J' \<and> fold_less J' J
   | KINTFOLD \<Rightarrow> okst J J'
   | FAILFOLD \<Rightarrow> True
   | DROPFOLD \<Rightarrow> okst J J' \<and> \<not> val_op (fo J)
   | FoldRef r \<Rightarrow> okst J J' \<and> kgood J' r)"

lemma fine_res_simps [simp]:
  "fine_res J (J', NEXTFOLD) \<longleftrightarrow> J' = J"
  "fine_res J (J', RETRYFOLD) \<longleftrightarrow> okst J J' \<and> fins_fine J' \<and> fold_less J' J"
  "fine_res J (J', KINTFOLD) \<longleftrightarrow> okst J J'"
  "fine_res J (J', FAILFOLD)"
  "fine_res J (J', DROPFOLD) \<longleftrightarrow> okst J J' \<and> \<not> val_op (fo J)"
  "fine_res J (J', FoldRef r) \<longleftrightarrow> okst J J' \<and> kgood J' r"
  by (simp_all add: fine_res_def)

text \<open>The state at the start of a rule.\<close>

definition starts :: "jit \<Rightarrow> bool" where
  "starts J \<longleftrightarrow> ir_fine J \<and> fins_fine J \<and> fl J = irs J (fop1 J) \<and> (\<not> unary_op (fo J) \<longrightarrow> fr J = irs J (fop2 J))"

lemma startsD:
  assumes "starts J"
  shows "ir_fine J" "val_op (fo J) \<or> cmp_op (fo J)" "kgood J (fop1 J)" "rgood J (fo J) (fop2 J)"
    "fl J = irs J (fop1 J)" "\<not> unary_op (fo J) \<Longrightarrow> fr J = irs J (fop2 J)" "\<not> unary_op (fo J) \<Longrightarrow> kgood J (fop2 J)"
  using assms by (auto simp: starts_def fins_fine_def rgood_def)

lemma okst_refl [simp]: "ir_fine J \<Longrightarrow> okst J J" "ir_fine J \<Longrightarrow> okst J (J\<lparr>fins := f\<rparr>)"
  by (simp_all add: okst_def)

lemma operand_ins:
  assumes "ir_fine J" "kgood J r" "val_op (ir_o (irs J r))"
  shows "REF_BIAS \<le> r" "kgood J (ir_op1 (irs J r))" "ref_pos (ir_op1 (irs J r)) < ref_pos r"
    "\<not> unary_op (ir_o (irs J r)) \<Longrightarrow> kgood J (ir_op2 (irs J r))" "ref_pos (ir_op2 (irs J r)) < ref_pos r"
proof -
  have nc: "\<not> is_const_op (ir_o (irs J r))" using assms(3) val_op_not_const by blast
  show b: "REF_BIAS \<le> r" using assms(2) nc by (auto simp: kgood_def split: if_splits)
  then have t: "r < nins J" using assms(2) by (simp_all add: kgood_def)
  then have f: "kgood J (ir_op1 (irs J r)) \<and> ir_op1 (irs J r) < r \<and> rgood J (ir_o (irs J r)) (ir_op2 (irs J r)) \<and> ir_op2 (irs J r) < r"
    using assms(1,3) b by (simp add: ir_fine_def)
  then show "kgood J (ir_op1 (irs J r))" "ref_pos (ir_op1 (irs J r)) < ref_pos r" "ref_pos (ir_op2 (irs J r)) < ref_pos r"
    "\<not> unary_op (ir_o (irs J r)) \<Longrightarrow> kgood J (ir_op2 (irs J r))"
    using b t pos_less by (auto simp: rgood_def)
qed

lemma fins_retry:
  assumes "starts J" "val_op (ir_o f) \<or> cmp_op (ir_o f)" "kgood J (ir_op1 f)" "rgood J (ir_o f) (ir_op2 f)"
    "fold_less (J\<lparr>fins := f\<rparr>) J"
  shows "fine_res J (J\<lparr>fins := f\<rparr>, RETRYFOLD)"
  using assms startsD(1) [OF assms(1)] by (simp add: fins_fine_def)

lemma kint_retry2:
  assumes s: "starts J" and f: "val_op (ir_o f) \<or> cmp_op (ir_o f)" "kgood J (ir_op1 f)"
    and l: "op_class (ir_o f) < op_class (fo J) \<or> op_class (ir_o f) \<le> op_class (fo J) \<and>
      (ref_pos (ir_op1 f) < ref_pos (fop1 J) + ref_pos (fop2 J) \<or>
       ref_pos (ir_op1 f) \<le> ref_pos (fop1 J) + ref_pos (fop2 J) \<and>
       op_rank (ir_o f) + (if shift_op (ir_o f) \<and> k AND (if irt_is64 (ir_t f) then 63 else 31) \<noteq> k then 1 else 0) < op_rank (fo J) + unmasked J)"
  shows "fine_res J (op2_kint k (J\<lparr>fins := f\<rparr>), RETRYFOLD)"
proof -
  obtain r J1 where n: "lj_ir_kint k (J\<lparr>fins := f\<rparr>) = (r, J1)" by force
  have e: "op2_kint k (J\<lparr>fins := f\<rparr>) = J1\<lparr>fins := f\<lparr>ir_op2 := r\<rparr>\<rparr>"
    using kint_fine(7) [OF _ n] startsD(1) [OF s] by (simp add: op2_kint_def set_op2_def n)
  have g: "ir_fine J1" "kgood J1 r" "r < REF_BIAS" "ir_i (irs J1 r) = k" "\<And>x. kgood J x \<Longrightarrow> kgood J1 x"
    using kint_fine [OF _ n] startsD(1) [OF s] by simp_all
  have u: "unmasked (op2_kint k (J\<lparr>fins := f\<rparr>)) = (if shift_op (ir_o f) \<and> k AND (if irt_is64 (ir_t f) then 63 else 31) \<noteq> k then 1 else 0)"
    unfolding e unmasked_def shift_mask_def using g(3,4) by simp
  have p: "fo (op2_kint k (J\<lparr>fins := f\<rparr>)) = ir_o f" "fop1 (op2_kint k (J\<lparr>fins := f\<rparr>)) = ir_op1 f" "ref_pos (fop2 (op2_kint k (J\<lparr>fins := f\<rparr>))) = 0"
    unfolding e using g(3) by simp_all
  have "fold_less (op2_kint k (J\<lparr>fins := f\<rparr>)) J"
    using l fold_lessI(1-3) [of "op2_kint k (J\<lparr>fins := f\<rparr>)" J] unfolding p u by auto
  then show ?thesis using g f unfolding e by (simp add: okst_def fins_fine_def rgood_def)
qed

lemma kint64_retry2:
  assumes s: "starts J" and f: "val_op (ir_o f) \<or> cmp_op (ir_o f)" "kgood J (ir_op1 f)" "\<not> shift_op (ir_o f)"
    and l: "op_class (ir_o f) < op_class (fo J) \<or> op_class (ir_o f) \<le> op_class (fo J) \<and>
      (ref_pos (ir_op1 f) < ref_pos (fop1 J) + ref_pos (fop2 J) \<or>
       ref_pos (ir_op1 f) \<le> ref_pos (fop1 J) + ref_pos (fop2 J) \<and> op_rank (ir_o f) < op_rank (fo J))"
  shows "fine_res J (op2_kint64 k (J\<lparr>fins := f\<rparr>), RETRYFOLD)"
proof -
  obtain r J1 where n: "lj_ir_kint64 k (J\<lparr>fins := f\<rparr>) = (r, J1)" by force
  have e: "op2_kint64 k (J\<lparr>fins := f\<rparr>) = J1\<lparr>fins := f\<lparr>ir_op2 := r\<rparr>\<rparr>"
    using kint64_fine(5) [OF _ n] startsD(1) [OF s] by (simp add: op2_kint64_def set_op2_def n)
  have g: "ir_fine J1" "kgood J1 r" "r < REF_BIAS" "\<And>x. kgood J x \<Longrightarrow> kgood J1 x"
    using kint64_fine [OF _ n] startsD(1) [OF s] by simp_all
  have p: "fo (op2_kint64 k (J\<lparr>fins := f\<rparr>)) = ir_o f" "fop1 (op2_kint64 k (J\<lparr>fins := f\<rparr>)) = ir_op1 f"
    "ref_pos (fop2 (op2_kint64 k (J\<lparr>fins := f\<rparr>))) = 0" "unmasked (op2_kint64 k (J\<lparr>fins := f\<rparr>)) = 0"
    unfolding e unmasked_def using g(3) f(3) by simp_all
  have "fold_less (op2_kint64 k (J\<lparr>fins := f\<rparr>)) J"
    using l fold_lessI(1-3) [of "op2_kint64 k (J\<lparr>fins := f\<rparr>)" J] unfolding p by auto
  then show ?thesis using g f unfolding e by (simp add: okst_def fins_fine_def rgood_def)
qed

lemma kint_retry1:
  assumes s: "starts J" and f: "ir_o f = IR_SUB" "fo J = IR_SUB" "kgood J (ir_op2 f)"
    and l: "ref_pos (ir_op2 f) < ref_pos (fop1 J) + ref_pos (fop2 J)"
  shows "fine_res J (op1_kint k (J\<lparr>fins := f\<rparr>), RETRYFOLD)"
proof -
  obtain r J1 where n: "lj_ir_kint k (J\<lparr>fins := f\<rparr>) = (r, J1)" by force
  have e: "op1_kint k (J\<lparr>fins := f\<rparr>) = J1\<lparr>fins := f\<lparr>ir_op1 := r\<rparr>\<rparr>"
    using kint_fine(7) [OF _ n] startsD(1) [OF s] by (simp add: op1_kint_def set_op1_def n)
  have g: "ir_fine J1" "kgood J1 r" "r < REF_BIAS" "\<And>x. kgood J x \<Longrightarrow> kgood J1 x"
    using kint_fine [OF _ n] startsD(1) [OF s] by simp_all
  have "fold_less (op1_kint k (J\<lparr>fins := f\<rparr>)) J"
    by (rule fold_lessI(2)) (use e g(3) f l in simp_all)
  then show ?thesis using g f unfolding e by (simp add: okst_def fins_fine_def rgood_def)
qed

lemma int64fold_fine: "starts J \<Longrightarrow> fine_res J (INT64FOLD k J)"
proof -
  assume s: "starts J"
  obtain r J1 where n: "lj_ir_kint64 k J = (r, J1)" by force
  show ?thesis using kint64_fine [OF startsD(1) [OF s] n] n by (simp add: INT64FOLD_def okst_def)
qed

lemma left_fine:
  assumes "starts J" "val_op (ir_o (fl J))"
  shows "kgood J (ir_op1 (fl J))" "ref_pos (ir_op1 (fl J)) < ref_pos (fop1 J)"
    "\<not> unary_op (ir_o (fl J)) \<Longrightarrow> kgood J (ir_op2 (fl J))" "ref_pos (ir_op2 (fl J)) < ref_pos (fop1 J)"
  using operand_ins [OF startsD(1,3) [OF assms(1)]] assms(2) startsD(5) [OF assms(1)] by simp_all

lemma right_fine:
  assumes "starts J" "\<not> unary_op (fo J)" "val_op (ir_o (fr J))"
  shows "kgood J (ir_op1 (fr J))" "ref_pos (ir_op1 (fr J)) < ref_pos (fop2 J)"
    "\<not> unary_op (ir_o (fr J)) \<Longrightarrow> kgood J (ir_op2 (fr J))" "ref_pos (ir_op2 (fr J)) < ref_pos (fop2 J)"
  using operand_ins [OF startsD(1) [OF assms(1)] startsD(7) [OF assms(1,2)]] assms(3) startsD(6) [OF assms(1,2)] by simp_all

lemma const_pos:
  assumes "starts J"
  shows "is_const_op (ir_o (fl J)) \<Longrightarrow> ref_pos (fop1 J) = 0 \<and> fop1 J < REF_BIAS"
    "\<not> unary_op (fo J) \<Longrightarrow> is_const_op (ir_o (fr J)) \<Longrightarrow> ref_pos (fop2 J) = 0 \<and> fop2 J < REF_BIAS"
  using startsD(3,5,6,7) [OF assms] by (auto simp: kgood_def split: if_splits)

lemma class_simps [simp]:
  "op_class IR_MULOV = 4" "op_class IR_MUL = 4" "op_class IR_MOD = 4" "op_class IR_ADD = 2" "op_class IR_SUB = 2"
  "op_class IR_ADDOV = 2" "op_class IR_BNOT = 0" "op_class IR_NEG = 0" "op_class IR_BAND = 1" "op_class IR_BXOR = 1"
  "op_class IR_BOR = 1" "op_class IR_BSHL = 3" "op_class IR_BSHR = 3" "op_class IR_BSAR = 3" "op_class IR_BROL = 3"
  "op_class IR_BROR = 3" "op_rank IR_SUB = 2" "op_rank IR_ADD = 0" "op_rank IR_BROR = 2" "op_rank IR_BROL = 0"
  "op_rank IR_BSHL = 0" "op_rank IR_BAND = 0"
  by (simp_all add: op_class_def op_rank_def op_classes ir_ops)

lemma const_ops [simp]: "is_const_op IR_KINT" "is_const_op IR_KINT64"
  by (simp_all add: is_const_op_def ir_ops)

section \<open>Every rule\<close>

lemma negx_fine:
  assumes s: "starts J" and o: "fo J = IR_ADD" "ir_o (fl J) = IR_NEG"
  shows "fine_res J (simplify_numadd_negx J)"
proof -
  note L = left_fine [OF s, unfolded o(2), simplified] and S = startsD [OF s]
  let ?f = "(fins J)\<lparr>ir_o := IR_SUB, ir_op1 := fop2 J, ir_op2 := ir_op1 (fl J)\<rparr>"
  have "fine_res J (J\<lparr>fins := ?f\<rparr>, RETRYFOLD)"
    by (rule fins_retry [OF s]) (use S L o in \<open>simp_all add: rgood_def fold_lessI(2)\<close>)
  then show ?thesis by (simp add: simplify_numadd_negx_def PHIBARRIER_def set_op1_def set_op2_def set_o_def)
qed

lemma xneg_fine:
  assumes s: "starts J" and o: "ir_o (fr J) = IR_NEG"
  shows "fo J = IR_ADD \<Longrightarrow> fine_res J (simplify_numadd_xneg J)" "fo J = IR_SUB \<Longrightarrow> fine_res J (simplify_numsub_xneg J)"
proof -
  note S = startsD [OF s]
  have r: "fine_res J (J\<lparr>fins := (fins J)\<lparr>ir_o := p, ir_op2 := ir_op1 (fr J)\<rparr>\<rparr>, RETRYFOLD)"
    if "fo J = IR_ADD \<or> fo J = IR_SUB" "p = IR_ADD \<or> p = IR_SUB" for p
  proof -
    have u: "\<not> unary_op (fo J)" using that by auto
    note R = right_fine [OF s u, unfolded o, simplified]
    show ?thesis
      by (rule fins_retry [OF s]) (use S R that in \<open>auto simp: rgood_def fold_lessI(2)\<close>)
  qed
  show "fo J = IR_ADD \<Longrightarrow> fine_res J (simplify_numadd_xneg J)" "fo J = IR_SUB \<Longrightarrow> fine_res J (simplify_numsub_xneg J)"
    using S(1) r by (simp_all add: simplify_numadd_xneg_def simplify_numsub_xneg_def PHIBARRIER_def set_op2_def set_o_def)
qed

lemma cmp_not_val: "cmp_op p \<Longrightarrow> \<not> val_op p"
  by (auto simp: op_classes ir_ops)

lemmas term_defs = fold_helper_defs Let_def

lemma negneg_fine:
  assumes s: "starts J" and o: "fo J = IR_MUL" "ir_o (fl J) = IR_NEG" "ir_o (fr J) = IR_NEG"
  shows "fine_res J (simplify_nummuldiv_negneg J)"
proof -
  have u: "\<not> unary_op (fo J)" using o by simp
  note L = left_fine [OF s, unfolded o(2), simplified] and R = right_fine [OF s u, unfolded o(3), simplified] and S = startsD [OF s]
  have "fine_res J (J\<lparr>fins := (fins J)\<lparr>ir_op1 := ir_op1 (fl J), ir_op2 := ir_op1 (fr J)\<rparr>\<rparr>, RETRYFOLD)"
    by (rule fins_retry [OF s]) (use S L R o in \<open>simp_all add: rgood_def fold_lessI(2)\<close>)
  then show ?thesis using S(1) by (simp add: simplify_nummuldiv_negneg_def term_defs)
qed

lemma mulov_fine: "starts J \<Longrightarrow> fo J = IR_MULOV \<Longrightarrow> fine_res J (simplify_intmulov_k J)"
  using startsD [of J] fins_retry [of J "(fins J)\<lparr>ir_o := IR_ADDOV, ir_op2 := fop1 J\<rparr>"]
  by (simp add: simplify_intmulov_k_def term_defs LEFTFOLD_def RIGHTFOLD_def rgood_def fold_lessI(1))

lemma sub_k_fine: "starts J \<Longrightarrow> fo J = IR_SUB \<Longrightarrow> fine_res J (simplify_intsub_k J)"
  "starts J \<Longrightarrow> fo J = IR_SUB \<Longrightarrow> fine_res J (simplify_intsub_k64 J)"
  using startsD [of J] kint_retry2 [of J "(fins J)\<lparr>ir_o := IR_ADD\<rparr>"] kint64_retry2 [of J "(fins J)\<lparr>ir_o := IR_ADD\<rparr>"]
  by (simp_all add: simplify_intsub_k_def simplify_intsub_k64_def term_defs)

lemma sub_kleft_fine: "starts J \<Longrightarrow> fo J = IR_SUB \<Longrightarrow> fine_res J (simplify_intsub_kleft J)"
  using startsD [of J] fins_retry [of J "(fins J)\<lparr>ir_o := IR_NEG, ir_op1 := fop2 J\<rparr>"]
  by (simp add: simplify_intsub_kleft_def term_defs rgood_def fold_lessI(1))

lemma mul_k_fine: "starts J \<Longrightarrow> fo J = IR_MUL \<Longrightarrow> fine_res J (simplify_intmul_k k J)"
  using startsD [of J] kint_retry2 [of J "(fins J)\<lparr>ir_o := IR_BSHL\<rparr>"]
  by (simp add: simplify_intmul_k_def term_defs)

lemma mod_k_fine: "starts J \<Longrightarrow> fo J = IR_MOD \<Longrightarrow> fine_res J (simplify_intmod_k J)"
  using startsD [of J] kint_retry2 [of J "(fins J)\<lparr>ir_o := IR_BAND\<rparr>"]
  by (simp add: simplify_intmod_k_def term_defs)

lemma set_op2_kint: "set_op2 x (op1_kint k J) = op1_kint k (set_op2 x J)"
  by (simp add: op1_kint_def set_op1_def set_op2_def kint_fins split_beta)

lemma subsub_left_fine:
  assumes s: "starts J" and o: "fo J = IR_SUB" "ir_o (fl J) = IR_SUB"
  shows "fine_res J (simplify_intsubsub_leftcancel J)"
proof -
  note L = left_fine [OF s, unfolded o(2), simplified] and S = startsD [OF s]
  have "fine_res J (op1_kint 0 (J\<lparr>fins := (fins J)\<lparr>ir_op2 := ir_op2 (fl J)\<rparr>\<rparr>), RETRYFOLD)"
    by (rule kint_retry1 [OF s]) (use S L o in simp_all)
  then show ?thesis unfolding simplify_intsubsub_leftcancel_def PHIBARRIER_def set_op2_kint by (simp add: set_op2_def)
qed

lemma subadd_right_fine:
  assumes s: "starts J" and o: "fo J = IR_SUB" "ir_o (fr J) = IR_ADD"
  shows "fine_res J (simplify_intsubadd_rightcancel J)"
proof -
  have u: "\<not> unary_op (fo J)" using o by simp
  note R = right_fine [OF s u, unfolded o(2), simplified] and S = startsD [OF s]
  have "fine_res J (op1_kint 0 (J\<lparr>fins := (fins J)\<lparr>ir_op2 := x\<rparr>\<rparr>), RETRYFOLD)" if "x = ir_op1 (fr J) \<or> x = ir_op2 (fr J)" for x
    by (rule kint_retry1 [OF s]) (use S R o that in auto)
  then show ?thesis unfolding simplify_intsubadd_rightcancel_def PHIBARRIER_def by (simp add: set_op2_def)
qed

lemma subaddadd_fine:
  assumes s: "starts J" and o: "fo J = IR_SUB" "ir_o (fl J) = IR_ADD" "ir_o (fr J) = IR_ADD"
  shows "fine_res J (simplify_intsubaddadd_cancel J)"
proof -
  have u: "\<not> unary_op (fo J)" using o by simp
  note L = left_fine [OF s, unfolded o(2), simplified] and R = right_fine [OF s u, unfolded o(3), simplified] and S = startsD [OF s]
  have "fine_res J (J\<lparr>fins := (fins J)\<lparr>ir_op1 := x, ir_op2 := y\<rparr>\<rparr>, RETRYFOLD)"
    if "x = ir_op1 (fl J) \<or> x = ir_op2 (fl J)" "y = ir_op1 (fr J) \<or> y = ir_op2 (fr J)" for x y
    by (rule fins_retry [OF s]) (use S L R o that in \<open>auto simp: rgood_def intro!: fold_lessI(2)\<close>)
  then show ?thesis unfolding simplify_intsubaddadd_cancel_def PHIBARRIER_def by (simp add: set_op2_def set_op1_def Let_def)
qed

lemma bxor_k_fine: "starts J \<Longrightarrow> fo J = IR_BXOR \<Longrightarrow> fine_res J (simplify_bxor_k J)"
  using startsD [of J] fins_retry [of J "(fins J)\<lparr>ir_o := IR_BNOT, ir_op2 := 0\<rparr>"]
  by (simp add: simplify_bxor_k_def term_defs rgood_def fold_lessI(1) LEFTFOLD_def)

lemma shift_ik_fine:
  assumes s: "starts J" and o: "shift_op (fo J)" "ir_o (fr J) = IR_KINT"
  shows "fine_res J (simplify_shift_ik J)"
proof -
  have u: "\<not> unary_op (fo J)" "val_op (fo J)" using o(1) by (auto simp: op_classes ir_ops)
  note S = startsD [OF s] and c = const_pos(2) [OF s u(1)]
  have c: "ref_pos (fop2 J) = 0" "fop2 J < REF_BIAS" using c o(2) by simp_all
  let ?m = "shift_mask J" and ?i = "ir_i (fr J)"
  have mm: "x AND (if irt_is64 (ft J) then 63 else 31) = x AND ?m" for x by (simp add: shift_mask_def)
  have 1: "fine_res J (J\<lparr>fins := (fins J)\<lparr>ir_o := IR_ADD, ir_op2 := fop1 J\<rparr>\<rparr>, RETRYFOLD)" if "fo J = IR_BSHL"
    by (rule fins_retry [OF s]) (use S that in \<open>simp_all add: rgood_def fold_lessI(1)\<close>)
  have 2: "fine_res J (op2_kint (?i AND ?m) (J\<lparr>fins := fins J\<rparr>), RETRYFOLD)" if "?i AND ?m \<noteq> ?i"
  proof (rule kint_retry2 [OF s])
    have "unmasked J = 1" using that c(2) o(1) S(6) [OF u(1)] by (simp add: unmasked_def)
    moreover have "(?i AND ?m) AND ?m = ?i AND ?m" by (simp add: and.assoc)
    ultimately show "op_class (fo J) < op_class (fo J) \<or> op_class (fo J) \<le> op_class (fo J) \<and>
      (ref_pos (fop1 J) < ref_pos (fop1 J) + ref_pos (fop2 J) \<or> ref_pos (fop1 J) \<le> ref_pos (fop1 J) + ref_pos (fop2 J) \<and>
       op_rank (fo J) + (if shift_op (fo J) \<and> (?i AND ?m) AND (if irt_is64 (ft J) then 63 else 31) \<noteq> ?i AND ?m then 1 else 0) < op_rank (fo J) + unmasked J)"
      unfolding mm by simp
  qed (use S u in simp_all)
  have 3: "fine_res J (op2_kint (- k AND ?m) (J\<lparr>fins := (fins J)\<lparr>ir_o := IR_BROL\<rparr>\<rparr>), RETRYFOLD)" if "fo J = IR_BROR" for k
  proof (rule kint_retry2 [OF s])
    have "(- k AND ?m) AND ?m = - k AND ?m" by (simp add: and.assoc)
    then show "op_class (ir_o ((fins J)\<lparr>ir_o := IR_BROL\<rparr>)) < op_class (fo J) \<or> op_class (ir_o ((fins J)\<lparr>ir_o := IR_BROL\<rparr>)) \<le> op_class (fo J) \<and>
      (ref_pos (ir_op1 ((fins J)\<lparr>ir_o := IR_BROL\<rparr>)) < ref_pos (fop1 J) + ref_pos (fop2 J) \<or>
       ref_pos (ir_op1 ((fins J)\<lparr>ir_o := IR_BROL\<rparr>)) \<le> ref_pos (fop1 J) + ref_pos (fop2 J) \<and>
       op_rank (ir_o ((fins J)\<lparr>ir_o := IR_BROL\<rparr>)) + (if shift_op (ir_o ((fins J)\<lparr>ir_o := IR_BROL\<rparr>)) \<and> (- k AND ?m) AND (if irt_is64 (ir_t ((fins J)\<lparr>ir_o := IR_BROL\<rparr>)) then 63 else 31) \<noteq> - k AND ?m then 1 else 0) < op_rank (fo J) + unmasked J)"
      using that by (simp add: mm)
  qed (use S in simp_all)
  show ?thesis using 1 2 3 S u by (simp add: simplify_shift_ik_def Let_def LEFTFOLD_def set_op2_def set_o_def)
qed

lemma shift_andk_fine:
  assumes s: "starts J" and o: "shift_op (fo J)" "ir_o (fr J) = IR_BAND"
  shows "fine_res J (simplify_shift_andk J)"
proof -
  have u: "\<not> unary_op (fo J)" "val_op (fo J)" using o(1) by (auto simp: op_classes ir_ops)
  note R = right_fine [OF s u(1), unfolded o(2), simplified] and S = startsD [OF s]
  have "fine_res J (J\<lparr>fins := (fins J)\<lparr>ir_op2 := ir_op1 (fr J)\<rparr>\<rparr>, RETRYFOLD)"
    by (rule fins_retry [OF s]) (use S R u in \<open>simp_all add: rgood_def fold_lessI(2)\<close>)
  then show ?thesis by (simp add: simplify_shift_andk_def PHIBARRIER_def set_op2_def Let_def)
qed

lemma left_retry:
  assumes s: "starts J" and o: "val_op (fo J)" "val_op (ir_o (fl J))"
  shows "fine_res J (op2_kint k (J\<lparr>fins := (fins J)\<lparr>ir_op1 := ir_op1 (fl J)\<rparr>\<rparr>), RETRYFOLD)"
    "\<not> shift_op (fo J) \<Longrightarrow> fine_res J (op2_kint64 k' (J\<lparr>fins := (fins J)\<lparr>ir_op1 := ir_op1 (fl J)\<rparr>\<rparr>), RETRYFOLD)"
    "fine_res J (J\<lparr>fins := (fins J)\<lparr>ir_op1 := ir_op1 (fl J)\<rparr>\<rparr>, RETRYFOLD)"
proof -
  note L = left_fine [OF s o(2)] and S = startsD [OF s]
  show "fine_res J (op2_kint k (J\<lparr>fins := (fins J)\<lparr>ir_op1 := ir_op1 (fl J)\<rparr>\<rparr>), RETRYFOLD)"
    by (rule kint_retry2 [OF s]) (use S L o in simp_all)
  show "fine_res J (op2_kint64 k' (J\<lparr>fins := (fins J)\<lparr>ir_op1 := ir_op1 (fl J)\<rparr>\<rparr>), RETRYFOLD)" if "\<not> shift_op (fo J)"
    by (rule kint64_retry2 [OF s]) (use S L o that in simp_all)
  show "fine_res J (J\<lparr>fins := (fins J)\<lparr>ir_op1 := ir_op1 (fl J)\<rparr>\<rparr>, RETRYFOLD)"
    by (rule fins_retry [OF s]) (use S L o in \<open>simp_all add: fold_lessI(2)\<close>)
qed

lemma reassoc_fine:
  assumes s: "starts J" and o: "val_op (fo J)" "val_op (ir_o (fl J))"
  shows "fine_res J (simplify_andor_k J)" "fine_res J (simplify_andor_k64 J)" "fine_res J (reassoc_intarith_k J)"
    "\<not> shift_op (fo J) \<Longrightarrow> fine_res J (reassoc_intarith_k64 J)" "fine_res J (reassoc_minmax_k J)" "fine_res J (reassoc_shift J)"
  using left_retry [OF s o] startsD [OF s] int64fold_fine [OF s]
  by (simp_all add: simplify_andor_k_def simplify_andor_k64_def reassoc_intarith_k_def reassoc_intarith_k64_def
      reassoc_minmax_k_def reassoc_shift_def PHIBARRIER_def set_op1_def LEFTFOLD_def INTFOLD_def Let_def)

lemma swap_retry:
  assumes s: "starts J" and o: "\<not> unary_op (fo J)" "\<not> shift_op (fo J)" "fop1 J < fop2 J"
    and p: "op_class p \<le> op_class (fo J)" "op_rank p \<le> op_rank (fo J)" "val_op p \<or> cmp_op p" "\<not> unary_op p" "\<not> shift_op p"
  shows "fine_res J (J\<lparr>fins := (fins J)\<lparr>ir_op1 := fop2 J, ir_op2 := fop1 J, ir_o := p\<rparr>\<rparr>, RETRYFOLD)"
  by (rule fins_retry [OF s])
    (use startsD [OF s] o p in \<open>auto simp: rgood_def unmasked_def intro!: fold_lessI(4)\<close>)

lemma swap_same:
  assumes "starts J" "\<not> unary_op (fo J)" "\<not> shift_op (fo J)" "fop1 J < fop2 J"
  shows "fine_res J (swap_ops J, RETRYFOLD)"
  using swap_retry [OF assms, of "fo J"] startsD(2) [OF assms(1)] assms(2,3) by (simp add: swap_ops_def set_op1_def set_op2_def)

lemma comm_fine:
  assumes s: "starts J" and o: "\<not> unary_op (fo J)" "\<not> shift_op (fo J)"
  shows "fine_res J (comm_swap J)" "cmp_op (fo J) \<Longrightarrow> fine_res J (comm_equal J)" "fine_res J (comm_dup J)"
    "fine_res J (comm_dup_minmax J)" "fine_res J (comm_bxor J)"
  using swap_same [OF s o] startsD [OF s] int64fold_fine [OF s] cmp_not_val o
  by (simp_all add: comm_swap_def comm_equal_def comm_dup_def comm_dup_minmax_def comm_bxor_def LEFTFOLD_def INTFOLD_def CONDFOLD_def)

definition order_ops :: "irop set" where
  "order_ops = {IR_LT, IR_GE, IR_LE, IR_GT, IR_ULT, IR_UGE, IR_ULE, IR_UGT}"

lemma order_facts:
  assumes "p \<in> order_ops"
  shows "cmp_op p" "\<not> unary_op p" "\<not> shift_op p" "op_class p = 5" "op_rank p = 0" "p XOR 3 \<in> order_ops"
proof -
  show "cmp_op p" using assms by (auto simp: order_ops_def cmp_op_def)
  then show "\<not> unary_op p" "\<not> shift_op p" "op_class p = 5" "op_rank p = 0"
    using cmp_not_val [of p] by (auto simp: op_class_def op_rank_def val_op_def unary_op_def)
  show "p XOR 3 \<in> order_ops" using assms by (auto simp: order_ops_def swapped_op)
qed

lemma comm_comp_fine:
  assumes s: "starts J" and o: "fo J \<in> order_ops"
  shows "fine_res J (comm_comp J)"
proof -
  note p = order_facts [OF o] and q = order_facts [OF order_facts(6) [OF o]]
  show ?thesis
    using swap_retry [OF s p(2,3), of "fo J XOR 3"] p q startsD(1) [OF s] cmp_not_val [OF p(1)]
    by (simp add: comm_comp_def CONDFOLD_def swap_ops_def set_op1_def set_op2_def set_o_def)
qed

lemma kfold_fine:
  assumes s: "starts J"
  shows "fine_res J (kfold_intarith J)" "fine_res J (kfold_intovarith J)" "fine_res J (kfold_bnot J)" "fine_res J (kfold_bswap J)"
    "fine_res J (kfold_int64arith J)" "fine_res J (kfold_int64arith2 J)" "fine_res J (kfold_int64shift J)"
    "fine_res J (kfold_bnot64 J)" "fine_res J (kfold_bswap64 J)" "fine_res J (simplify_intmod_kleft J)" "fine_res J (simplify_intsub J)"
  using startsD(1) [OF s] int64fold_fine [OF s]
  by (simp_all add: kfold_intarith_def kfold_intovarith_def kfold_bnot_def kfold_bswap_def kfold_int64arith_def kfold_int64arith2_def
      kfold_int64shift_def kfold_bnot64_def kfold_bswap64_def simplify_intmod_kleft_def simplify_intsub_def INTFOLD_def Let_def)

lemma comp_fine:
  assumes s: "starts J" and o: "cmp_op (fo J)"
  shows "fine_res J (kfold_intcomp J)" "fine_res J (kfold_intcomp0 J)" "fine_res J (kfold_int64comp J)"
    "fine_res J (kfold_int64comp0 J)" "fine_res J (kfold_kref J)"
  using startsD(1) [OF s] cmp_not_val [OF o]
  by (simp_all add: kfold_intcomp_def kfold_intcomp0_def kfold_int64comp_def kfold_int64comp0_def kfold_kref_def CONDFOLD_def Let_def)

lemma side_fine:
  assumes s: "starts J" and o: "\<not> unary_op (fo J)"
  shows "fine_res J (simplify_intadd_k J)" "fine_res J (simplify_intadd_k64 J)" "fine_res J (simplify_band_k J)" "fine_res J (simplify_bor_k J)"
    "fine_res J (simplify_shift1_ki J)" "fine_res J (simplify_shift2_ki J)" "fine_res J (simplify_andk_shiftk J)"
    "fine_res J (reassoc_dup J)" "fine_res J (reassoc_dup_minmax J)"
  using startsD [OF s] o
  by (simp_all add: simplify_intadd_k_def simplify_intadd_k64_def simplify_band_k_def simplify_bor_k_def simplify_shift1_ki_def
      simplify_shift2_ki_def simplify_andk_shiftk_def reassoc_dup_def reassoc_dup_minmax_def LEFTFOLD_def RIGHTFOLD_def Let_def)

lemma cancel_fine:
  assumes s: "starts J" and o: "val_op (ir_o (fl J))" "\<not> unary_op (ir_o (fl J))"
  shows "fine_res J (simplify_intsubadd_leftcancel J)" "fine_res J (reassoc_bxor J)"
  using startsD [OF s] left_fine [OF s o(1)] o(2)
  by (simp_all add: simplify_intsubadd_leftcancel_def reassoc_bxor_def PHIBARRIER_def)

lemma leftleft_fine: "starts J \<Longrightarrow> val_op (ir_o (fl J)) \<Longrightarrow> fine_res J (shortcut_leftleft J)"
  using startsD [of J] left_fine [of J] by (simp add: shortcut_leftleft_def PHIBARRIER_def)

lemma subsub_right_fine:
  assumes s: "starts J" and o: "\<not> unary_op (fo J)" "ir_o (fr J) = IR_SUB"
  shows "fine_res J (simplify_intsubsub_rightcancel J)"
  using startsD [OF s] right_fine [OF s o(1), unfolded o(2), simplified]
  by (simp add: simplify_intsubsub_rightcancel_def PHIBARRIER_def)

text \<open>The keys that fit, and what the engine gives for an intermediate instruction.\<close>

definition key_ok :: "jit \<Rightarrow> irop \<times> nat \<times> nat \<Rightarrow> bool" where
  "key_ok J = (\<lambda>(p, l, r). p = fo J \<and> (l = F_any \<or> l = ir_o (fl J)) \<and> (unary_op p \<or> r = F_anyr \<or> r = ir_o (fr J)))"

definition eng_res :: "jit \<Rightarrow> (jit \<times> nat) tr \<Rightarrow> bool" where
  "eng_res J x = (case x of NoFuel \<Rightarrow> False | TraceErr J' \<Rightarrow> True | Done (J', r) \<Rightarrow> okst J J' \<and> (val_op (fo J) \<longrightarrow> kgood J' r))"

definition try_res :: "jit \<Rightarrow> (jit \<times> foldres) tr \<Rightarrow> bool" where
  "try_res J x = (case x of NoFuel \<Rightarrow> False | TraceErr J' \<Rightarrow> True | Done y \<Rightarrow> fine_res J y)"

lemma res_simps [simp]: "\<not> eng_res J NoFuel" "eng_res J (TraceErr J')"
  "eng_res J (Done (J', r)) \<longleftrightarrow> okst J J' \<and> (val_op (fo J) \<longrightarrow> kgood J' r)"
  "\<not> try_res J NoFuel" "try_res J (TraceErr J')" "try_res J (Done y) \<longleftrightarrow> fine_res J y"
  by (simp_all add: eng_res_def try_res_def)

lemma shiftk_retry:
  assumes s: "starts J" "shift_op (fo J)" and e: "okst J J1" "kgood J1 r"
    and c: "lj_ir_kint k (set_op1 r J1) = (c, J2) \<or> lj_ir_kint64 k' (set_op1 r J1) = (c, J2)"
    and f: "ir_o f = IR_BAND" "ir_op1 f = r" "ir_op2 f = c"
  shows "fine_res J (J2\<lparr>fins := f\<rparr>, RETRYFOLD)"
proof -
  have J1: "ir_fine (set_op1 r J1)" "\<And>x. kgood J x \<Longrightarrow> kgood J1 x" using e by (simp_all add: okst_def set_op1_def)
  have k: "ir_fine J2 \<and> kgood J2 c \<and> (\<forall>x. kgood J1 x \<longrightarrow> kgood J2 x)"
    using c kint_fine(1,2,6) [OF J1(1)] kint64_fine(1,2,4) [OF J1(1)] by (auto simp: set_op1_def)
  have "op_class (fo J) = 3" using s(2) by (auto simp: shift_op_def)
  then have "fold_less (J2\<lparr>fins := f\<rparr>) J" using f(1) by (intro fold_lessI(1)) simp
  then show ?thesis using k e J1 f by (simp add: okst_def fins_fine_def rgood_def)
qed

lemma shiftk_fine:
  assumes s: "starts J" "shift_op (fo J)" "ir_o (fl J) = IR_BAND"
    and e: "eng_res (set_op1 (ir_op1 (fl J)) J) (f (set_op1 (ir_op1 (fl J)) J))"
  shows "try_res J (simplify_shiftk_andk f J)"
proof -
  let ?J0 = "set_op1 (ir_op1 (fl J)) J"
  have v: "val_op (fo J)" using s(2) by (simp add: val_op_def)
  have o: "okst ?J0 J1 = okst J J1" for J1 by (simp add: okst_def set_op1_def)
  show ?thesis
  proof (cases "f ?J0")
    case NoFuel
    then show ?thesis using e by simp
  next
    case (TraceErr J')
    then show ?thesis by (simp add: simplify_shiftk_andk_def Let_def tr_bind_def)
  next
    case (Done y)
    obtain J1 r where y: "y = (J1, r)" by (cases y)
    have J1: "okst J J1" "kgood J1 r" using e v unfolding Done y by (simp_all add: o) (simp add: set_op1_def)
    have J1': "ir_fine (set_op1 r J1)" using J1(1) by (simp add: okst_def set_op1_def)
    have 1: "fine_res J (set_ot IR_BAND IRT_INT (op2_kint k (set_op1 r J1)), RETRYFOLD)" for k
    proof -
      obtain c J2 where n: "lj_ir_kint k (set_op1 r J1) = (c, J2)" by (cases "lj_ir_kint k (set_op1 r J1)")
      have fi: "fins J2 = fins (set_op1 r J1)" by (rule kint_fine(7) [OF J1' n])
      show ?thesis
        using shiftk_retry [OF s(1,2) J1 disjI1 [OF n], of "fins (set_ot IR_BAND IRT_INT (op2_kint k (set_op1 r J1)))"] n fi
        by (simp add: set_ot_def op2_kint_def set_op1_def set_op2_def)
    qed
    have 2: "fine_res J (set_ot IR_BAND t (op2_kint64 k (set_op1 r J1)), RETRYFOLD)" for k t
    proof -
      obtain c J2 where n: "lj_ir_kint64 k (set_op1 r J1) = (c, J2)" by (cases "lj_ir_kint64 k (set_op1 r J1)")
      have fi: "fins J2 = fins (set_op1 r J1)" by (rule kint64_fine(5) [OF J1' n])
      show ?thesis
        using shiftk_retry [OF s(1,2) J1 disjI2 [OF n], of "fins (set_ot IR_BAND t (op2_kint64 k (set_op1 r J1)))"] n fi
        by (simp add: set_ot_def op2_kint64_def set_op1_def set_op2_def)
    qed
    show ?thesis
      using 1 2 s(3) by (simp add: simplify_shiftk_andk_def Let_def tr_bind_def Done y)
  qed
qed

lemma rule_fine:
  assumes s: "starts J" and k: "k \<in> set (fold_pats R)" "key_ok J k"
    and e: "shift_op (fo J) \<Longrightarrow> ir_o (fl J) = IR_BAND \<Longrightarrow> eng_res (set_op1 (ir_op1 (fl J)) J) (f (set_op1 (ir_op1 (fl J)) J))"
  shows "try_res J (fold_func f R J)"
proof -
  have ops: "fo J \<noteq> IR_ABC" "fo J \<noteq> IR_DIV" "fo J \<noteq> IR_POW" using startsD(2) [OF s] by auto
  note A = k [unfolded key_ok_def] and S = ops2_def image_iff
  show ?thesis
  proof (cases R)
    case K_intarith then show ?thesis using kfold_fine [OF s] by simp
  next
    case K_intovarith then show ?thesis using kfold_fine [OF s] by simp
  next
    case K_bnot then show ?thesis using kfold_fine [OF s] by simp
  next
    case K_bswap then show ?thesis using kfold_fine [OF s] by simp
  next
    case K_intcomp
    then have "cmp_op (fo J)" using A ops by (auto simp: S)
    then show ?thesis using K_intcomp comp_fine [OF s] by simp
  next
    case K_intcomp0
    then have "cmp_op (fo J)" using A ops by (auto simp: S)
    then show ?thesis using K_intcomp0 comp_fine [OF s] by simp
  next
    case K_int64arith then show ?thesis using kfold_fine [OF s] by simp
  next
    case K_int64arith2 then show ?thesis using kfold_fine [OF s] by simp
  next
    case K_int64shift then show ?thesis using kfold_fine [OF s] by simp
  next
    case K_bnot64 then show ?thesis using kfold_fine [OF s] by simp
  next
    case K_bswap64 then show ?thesis using kfold_fine [OF s] by simp
  next
    case K_int64comp
    then have "cmp_op (fo J)" using A ops by (auto simp: S)
    then show ?thesis using K_int64comp comp_fine [OF s] by simp
  next
    case K_int64comp0
    then have "cmp_op (fo J)" using A ops by (auto simp: S)
    then show ?thesis using K_int64comp0 comp_fine [OF s] by simp
  next
    case K_kref
    then have "cmp_op (fo J)" using A ops by (auto simp: S)
    then show ?thesis using K_kref comp_fine [OF s] by simp
  next
    case S_leftleft
    then have "val_op (ir_o (fl J))" using A by (auto simp: S)
    then show ?thesis using S_leftleft leftleft_fine [OF s] by simp
  next
    case S_add_negx then show ?thesis using A negx_fine [OF s] by (auto simp: S)
  next
    case S_add_xneg then show ?thesis using A xneg_fine [OF s] by (auto simp: S)
  next
    case S_sub_xneg then show ?thesis using A xneg_fine [OF s] by (auto simp: S)
  next
    case S_mul_negneg then show ?thesis using A ops negneg_fine [OF s] by (auto simp: S)
  next
    case S_intadd_k
    then have "\<not> unary_op (fo J)" using A by (auto simp: S)
    then show ?thesis using S_intadd_k side_fine [OF s] by simp
  next
    case S_intmulov_k then show ?thesis using A mulov_fine [OF s] by (auto simp: S)
  next
    case S_intsub_k then show ?thesis using A sub_k_fine [OF s] by (auto simp: S)
  next
    case S_intsub_kleft then show ?thesis using A sub_kleft_fine [OF s] by (auto simp: S)
  next
    case S_intadd_k64
    then have "\<not> unary_op (fo J)" using A by (auto simp: S)
    then show ?thesis using S_intadd_k64 side_fine [OF s] by simp
  next
    case S_intsub_k64 then show ?thesis using A sub_k_fine [OF s] by (auto simp: S)
  next
    case S_intmul_k32 then show ?thesis using A mul_k_fine [OF s] by (auto simp: S simplify_intmul_k32_def)
  next
    case S_intmul_k64 then show ?thesis using A mul_k_fine [OF s] by (auto simp: S simplify_intmul_k64_def)
  next
    case S_intmod_k then show ?thesis using A mod_k_fine [OF s] by (auto simp: S)
  next
    case S_intmod_kleft then show ?thesis using kfold_fine [OF s] by simp
  next
    case S_intsub then show ?thesis using kfold_fine [OF s] by simp
  next
    case S_subadd_left
    then have "ir_o (fl J) = IR_ADD" using A by (auto simp: S)
    then show ?thesis using S_subadd_left cancel_fine [OF s] by simp
  next
    case S_subsub_left then show ?thesis using A subsub_left_fine [OF s] by (auto simp: S)
  next
    case S_subsub_right then show ?thesis using A subsub_right_fine [OF s] by (auto simp: S)
  next
    case S_subadd_right then show ?thesis using A subadd_right_fine [OF s] by (auto simp: S)
  next
    case S_subaddadd then show ?thesis using A subaddadd_fine [OF s] by (auto simp: S)
  next
    case S_band_k
    then have "\<not> unary_op (fo J)" using A by (auto simp: S)
    then show ?thesis using S_band_k side_fine [OF s] by simp
  next
    case S_bor_k
    then have "\<not> unary_op (fo J)" using A by (auto simp: S)
    then show ?thesis using S_bor_k side_fine [OF s] by simp
  next
    case S_bxor_k then show ?thesis using A bxor_k_fine [OF s] by (auto simp: S)
  next
    case S_shift_ik
    then have "shift_op (fo J)" "ir_o (fr J) = IR_KINT" using A by (auto simp: S)
    then show ?thesis using S_shift_ik shift_ik_fine [OF s] by simp
  next
    case S_shift_andk
    then have "shift_op (fo J)" "ir_o (fr J) = IR_BAND" using A by (auto simp: S)
    then show ?thesis using S_shift_andk shift_andk_fine [OF s] by simp
  next
    case S_shift1_ki
    then have "\<not> unary_op (fo J)" using A by (auto simp: S)
    then show ?thesis using S_shift1_ki side_fine [OF s] by simp
  next
    case S_shift2_ki
    then have "\<not> unary_op (fo J)" using A by (auto simp: S)
    then show ?thesis using S_shift2_ki side_fine [OF s] by simp
  next
    case S_shiftk_andk
    then have "shift_op (fo J)" "ir_o (fl J) = IR_BAND" using A by (auto simp: S)
    then show ?thesis using S_shiftk_andk shiftk_fine [OF s] e by simp
  next
    case S_andk_shiftk
    then have "\<not> unary_op (fo J)" using A by (auto simp: S)
    then show ?thesis using S_andk_shiftk side_fine [OF s] by simp
  next
    case S_andor_k
    then have "val_op (fo J)" "val_op (ir_o (fl J))" using A by (auto simp: S)
    then show ?thesis using S_andor_k reassoc_fine [OF s] by simp
  next
    case S_andor_k64
    then have "val_op (fo J)" "val_op (ir_o (fl J))" using A by (auto simp: S)
    then show ?thesis using S_andor_k64 reassoc_fine [OF s] by simp
  next
    case R_intarith_k
    then have "val_op (fo J)" "val_op (ir_o (fl J))" using A by (auto simp: S)
    then show ?thesis using R_intarith_k reassoc_fine [OF s] by simp
  next
    case R_intarith_k64
    then have "val_op (fo J)" "val_op (ir_o (fl J))" "\<not> shift_op (fo J)" using A by (auto simp: S)
    then show ?thesis using R_intarith_k64 reassoc_fine [OF s] by simp
  next
    case R_dup
    then have "\<not> unary_op (fo J)" using A by (auto simp: S)
    then show ?thesis using R_dup side_fine [OF s] by simp
  next
    case R_dup_minmax
    then have "\<not> unary_op (fo J)" using A by (auto simp: S)
    then show ?thesis using R_dup_minmax side_fine [OF s] by simp
  next
    case R_bxor
    then have "ir_o (fl J) = IR_BXOR" using A by (auto simp: S)
    then show ?thesis using R_bxor cancel_fine [OF s] by simp
  next
    case R_shift
    then have "val_op (fo J)" "val_op (ir_o (fl J))" using A by (auto simp: S)
    then show ?thesis using R_shift reassoc_fine [OF s] by simp
  next
    case R_minmax_k
    then have "val_op (fo J)" "val_op (ir_o (fl J))" using A by (auto simp: S)
    then show ?thesis using R_minmax_k reassoc_fine [OF s] by simp
  next
    case A_fwd then show ?thesis using A ops by (auto simp: S)
  next
    case A_k then show ?thesis using A ops by (auto simp: S)
  next
    case A_invar then show ?thesis using A ops by (auto simp: S)
  next
    case C_swap
    then have "\<not> unary_op (fo J)" "\<not> shift_op (fo J)" using A by (auto simp: S)
    then show ?thesis using C_swap comm_fine [OF s] by simp
  next
    case C_equal
    then have "\<not> unary_op (fo J)" "\<not> shift_op (fo J)" "cmp_op (fo J)" using A by (auto simp: S)
    then show ?thesis using C_equal comm_fine [OF s] by simp
  next
    case C_comp
    then have "fo J \<in> order_ops" using A by (auto simp: S order_ops_def)
    then show ?thesis using C_comp comm_comp_fine [OF s] by simp
  next
    case C_dup
    then have "\<not> unary_op (fo J)" "\<not> shift_op (fo J)" using A by (auto simp: S)
    then show ?thesis using C_dup comm_fine [OF s] by simp
  next
    case C_dup_minmax
    then have "\<not> unary_op (fo J)" "\<not> shift_op (fo J)" using A by (auto simp: S)
    then show ?thesis using C_dup_minmax comm_fine [OF s] by simp
  next
    case C_bxor
    then have "\<not> unary_op (fo J)" "\<not> shift_op (fo J)" using A by (auto simp: S)
    then show ?thesis using C_bxor comm_fine [OF s] by simp
  qed
qed

lemma class_cmp: "op_class p \<le> 4 \<longleftrightarrow> \<not> cmp_op p"
  unfolding op_class_def by simp

lemma less_val: "fold_less J' J \<Longrightarrow> fins_fine J' \<Longrightarrow> val_op (fo J) \<Longrightarrow> val_op (fo J')"
proof -
  assume l: "fold_less J' J" "fins_fine J'" "val_op (fo J)"
  have "op_class (fo J) \<le> 4" using class_cmp cmp_not_val l(3) by blast
  moreover have "op_class (fo J') \<le> op_class (fo J)" using l(1) unfolding fold_less_def in_measures by linarith
  ultimately have "\<not> cmp_op (fo J')" using class_cmp [of "fo J'"] by linarith
  then show "val_op (fo J')" using l(2) by (simp add: fins_fine_def)
qed

lemma cse_fine:
  assumes "ir_fine J" "fins_fine J" "lj_opt_cse J = (J', r)"
  shows "okst J J' \<and> kgood J' r"
proof -
  have nc: "\<not> is_const_op (fo J)" using assms(2) val_op_not_const [of "fo J"] unfolding fins_fine_def by blast
  have cf: "chain_fine J (fo J)" using assms(1) unfolding ir_fine_def by blast
  define P where "P = (\<lambda>r. ir_op1 (irs J r) = fop1 J \<and> ir_op2 (irs J r) = fop2 J)"
  define found where "found = (if jit_flags J AND JIT_F_OPT_CSE \<noteq> 0 then chain_lookup J (fo J) P (max (fop1 J) (fop2 J)) else None)"
  have e: "lj_opt_cse J = (case found of Some ref \<Rightarrow> (J, ref) | None \<Rightarrow> let (ref, J) = lj_ir_emit J in (J, ref))"
    by (simp add: lj_opt_cse_def found_def P_def Let_def)
  show ?thesis
  proof (cases found)
    case (Some q)
    then have "chain_lookup J (fo J) P (max (fop1 J) (fop2 J)) = Some q" by (simp add: found_def split: if_splits)
    note L = lookup_fine [OF cf this]
    have q: "J' = J" "r = q" using assms(3) unfolding e Some by simp_all
    have "kgood J q" using L(2-5) nc by (simp add: kgood_def)
    then show ?thesis using assms(1) unfolding q by simp
  next
    case None
    then have "lj_ir_emit J = (r, J')" using assms(3) unfolding e by (simp add: Let_def split: prod.splits)
    from emit_fine [OF assms(1,2) this] show ?thesis by (simp add: okst_def)
  qed
qed

section \<open>The engine\<close>

lemma match_fine:
  assumes s: "starts J" and k: "\<forall>k\<in>set ks. key_ok J k"
    and e: "shift_op (fo J) \<Longrightarrow> ir_o (fl J) = IR_BAND \<Longrightarrow> eng_res (set_op1 (ir_op1 (fl J)) J) (f (set_op1 (ir_op1 (fl J)) J))"
  shows "try_res J (fold_match f ks J) \<and> (\<forall>J'. fold_match f ks J \<noteq> Done (J', NEXTFOLD))"
  using k
proof (induction ks)
  case Nil
  obtain J' r where c: "lj_opt_cse J = (J', r)" by (cases "lj_opt_cse J")
  have "fins_fine J" using s by (simp add: starts_def)
  then show ?case using cse_fine [OF startsD(1) [OF s] _ c] by (simp add: c)
next
  case (Cons k ks)
  show ?case
  proof (cases "fold_hash k")
    case None
    then show ?thesis using Cons by simp
  next
    case (Some R)
    have kk: "key_ok J k" using Cons.prems by simp
    have r: "try_res J (fold_func f R J)" by (rule rule_fine [where f = f, OF s hash_pats [OF Some] kk]) (rule e)
    show ?thesis
    proof (cases "fold_func f R J")
      case (Done y)
      then show ?thesis using r Cons Some by (cases y) (auto simp: tr_bind_def)
    qed (use r Some in \<open>simp_all add: tr_bind_def\<close>)
  qed
qed

lemma load_starts:
  assumes "ir_fine J" "fins_fine J" "fold_load J = (lr, J')"
  shows "starts J'" "\<forall>k\<in>set (fold_keys (fo J') lr). key_ok J' k" "\<exists>l r. J' = J\<lparr>fleft := l, fright := r\<rparr>"
proof -
  let ?copy = "\<lambda>r old. (irs J r, if r < REF_TRUE then irs J (r + 1) else snd old)"
  define l where "l = (if nk J \<le> fop1 J then ?copy (fop1 J) (fleft J) else fleft J)"
  define r where "r = (if nk J \<le> fop2 J then ?copy (fop2 J) (fright J) else fright J)"
  have e: "lr = (if nk J \<le> fop1 J then ir_o (irs J (fop1 J)) else 0,
      if nk J \<le> fop2 J then ir_o (irs J (fop2 J)) else fop2 J AND 0x3ff)" "J' = J\<lparr>fleft := l, fright := r\<rparr>"
    using assms(3) by (auto simp: fold_load_def Let_def l_def r_def)
  show "\<exists>l r. J' = J\<lparr>fleft := l, fright := r\<rparr>" using e(2) by blast
  have f: "kgood J (fop1 J)" "\<not> unary_op (fo J) \<Longrightarrow> kgood J (fop2 J)" using assms(2) by (auto simp: fins_fine_def rgood_def)
  have n: "nk J \<le> fop1 J" "\<not> unary_op (fo J) \<Longrightarrow> nk J \<le> fop2 J" using f by (simp_all add: kgood_def)
  have ld: "fst l = irs J (fop1 J)" "\<not> unary_op (fo J) \<Longrightarrow> fst r = irs J (fop2 J)" using n by (simp_all add: l_def r_def)
  show "starts J'" using assms(1,2) ld by (simp add: starts_def e(2) fins_fine_def)
  show "\<forall>k\<in>set (fold_keys (fo J') lr). key_ok J' k"
    using n ld by (cases "unary_op (fo J)") (simp_all add: e fold_keys_def key_ok_def)
qed

text \<open>More fuel does not change a result.\<close>

definition eng_le :: "(jit \<Rightarrow> (jit \<times> nat) tr) \<Rightarrow> (jit \<Rightarrow> (jit \<times> nat) tr) \<Rightarrow> bool" where
  "eng_le f g \<longleftrightarrow> (\<forall>J. f J \<noteq> NoFuel \<longrightarrow> g J = f J)"

lemma func_le:
  assumes "eng_le f g" "fold_func f R J \<noteq> NoFuel"
  shows "fold_func g R J = fold_func f R J"
proof (cases "R = S_shiftk_andk")
  case True
  then have "irt_isphi (ir_t (fl J)) \<or> ir_o (irs J (ir_op2 (fl J))) \<notin> {IR_KINT, IR_KINT64} \<or> f (set_op1 (ir_op1 (fl J)) J) \<noteq> NoFuel"
    using assms(2) by (auto simp: simplify_shiftk_andk_def tr_bind_def Let_def)
  then show ?thesis using True assms(1) by (auto simp: simplify_shiftk_andk_def eng_le_def Let_def)
next
  case False
  then show ?thesis by (cases R) simp_all
qed

lemma match_le: "eng_le f g \<Longrightarrow> fold_match f ks J \<noteq> NoFuel \<Longrightarrow> fold_match g ks J = fold_match f ks J"
proof (induction ks arbitrary: J)
  case (Cons k ks)
  show ?case
  proof (cases "fold_hash k")
    case None
    then show ?thesis using Cons by simp
  next
    case (Some R)
    have n: "fold_func f R J \<noteq> NoFuel" using Cons.prems(2) Some by (auto simp: tr_bind_def)
    show ?thesis
      using Cons Some func_le [OF Cons.prems(1) n] by (cases "fold_func f R J") (auto simp: tr_bind_def split: if_splits)
  qed
qed simp

lemma entry_le: "eng_le f g \<Longrightarrow> eng_le (fold_entry f) (fold_entry g)"
  by (simp add: eng_le_def fold_entry_def)

lemma retry_Suc: "eng_le (fold_retry n) (fold_retry (Suc n))"
proof (induction n)
  case 0
  show ?case by (simp add: eng_le_def)
next
  case (Suc n)
  note m = match_le [OF entry_le [OF Suc.IH]]
  show ?case
    unfolding eng_le_def
  proof (intro allI impI)
    fix J assume r: "fold_retry (Suc n) J \<noteq> NoFuel"
    obtain lr J1 where l: "fold_load J = (lr, J1)" by (cases "fold_load J")
    let ?x = "fold_match (fold_entry (fold_retry n)) (fold_keys (fo J1) lr) J1"
    have x: "?x \<noteq> NoFuel" using r by (auto simp: l tr_bind_def)
    have e: "fold_match (fold_entry (fold_retry (Suc n))) (fold_keys (fo J1) lr) J1 = ?x" by (rule m [OF x])
    show "fold_retry (Suc (Suc n)) J = fold_retry (Suc n) J"
    proof (cases ?x)
      case (Done y)
      obtain J2 res where y: "y = (J2, res)" by (cases y)
      show ?thesis
      proof (cases "res = RETRYFOLD")
        case True
        have "fold_retry (Suc n) J = fold_retry n J2" "fold_retry (Suc (Suc n)) J = fold_retry (Suc n) J2"
          unfolding fold_retry.simps(2) [of _ J] l Let_def prod.case e Done y True by (simp_all add: tr_bind_def)
        then show ?thesis using Suc.IH r unfolding eng_le_def by metis
      next
        case False
        then show ?thesis
          unfolding fold_retry.simps(2) [of _ J] l Let_def prod.case e Done y by (cases res) (simp_all add: tr_bind_def)
      qed
    qed (use x in \<open>unfold fold_retry.simps(2) [of _ J] l Let_def prod.case e, simp_all add: tr_bind_def\<close>)
  qed
qed

lemma retry_le: "n \<le> m \<Longrightarrow> eng_le (fold_retry n) (fold_retry m)"
proof (induction rule: dec_induct)
  case base
  show ?case by (simp add: eng_le_def)
next
  case (step m)
  then show ?case using retry_Suc [of m] by (simp add: eng_le_def)
qed

section \<open>The engine returns\<close>

lemma okst_trans: "okst J J' \<Longrightarrow> okst J' J'' \<Longrightarrow> okst J J''"
  by (simp add: okst_def)

lemma entry_res:
  assumes "ir_fine J" "fins_fine J" "eng_res J (f J)"
  shows "eng_res J (fold_entry f J)"
proof -
  obtain J' r where c: "lj_opt_cse J = (J', r)" by (cases "lj_opt_cse J")
  show ?thesis using cse_fine [OF assms(1,2) c] assms(3) by (simp add: fold_entry_def c)
qed

lemma shiftk_less:
  assumes s: "starts J" "shift_op (fo J)" "ir_o (fl J) = IR_BAND"
  shows "ir_fine (set_op1 (ir_op1 (fl J)) J)" "fins_fine (set_op1 (ir_op1 (fl J)) J)" "fold_less (set_op1 (ir_op1 (fl J)) J) J"
proof -
  note D = startsD [OF s(1)]
  have v: "val_op (ir_o (irs J (fop1 J)))" using s(3) D(5) by simp
  note O = operand_ins [OF D(1,3) v]
  show "ir_fine (set_op1 (ir_op1 (fl J)) J)" using D(1) by (simp add: set_op1_def)
  show "fins_fine (set_op1 (ir_op1 (fl J)) J)" using D O(2) by (simp add: set_op1_def fins_fine_def)
  show "fold_less (set_op1 (ir_op1 (fl J)) J) J"
    using O(3) D(5) by (intro fold_lessI(2)) (simp_all add: set_op1_def)
qed

lemma retry_res:
  assumes l: "fold_load J = (lr, J1)" and st: "\<And>x. okst J1 x = okst J x" and fo: "fo J1 = fo J"
    and x: "fold_match (fold_entry (fold_retry n)) (fold_keys (fo J1) lr) J1 = x"
    and t: "try_res J1 x" "\<And>J'. x \<noteq> Done (J', NEXTFOLD)"
    and again: "\<And>J2. x = Done (J2, RETRYFOLD) \<Longrightarrow> eng_res J2 (fold_retry n J2)"
  shows "eng_res J (fold_retry (Suc n) J)"
proof -
  have r: "fold_retry (Suc n) J = tr_bind x (\<lambda>(J, res). case res of
        FoldRef ref \<Rightarrow> Done (J, ref) | RETRYFOLD \<Rightarrow> fold_retry n J
      | KINTFOLD \<Rightarrow> (let (ref, J) = lj_ir_kint (ir_i (fins J)) J in Done (J, ref))
      | FAILFOLD \<Rightarrow> TraceErr J | DROPFOLD \<Rightarrow> Done (J, REF_DROP) | NEXTFOLD \<Rightarrow> Done (J, REF_DROP))"
    unfolding fold_retry.simps l Let_def prod.case x ..
  show ?thesis
  proof (cases x)
    case NoFuel
    then show ?thesis using t by simp
  next
    case (TraceErr J2)
    then show ?thesis unfolding r by (simp add: tr_bind_def)
  next
    case (Done y)
    obtain J2 res where y: "y = (J2, res)" by (cases y)
    have f: "fine_res J1 (J2, res)" using t(1) by (simp add: Done y)
    show ?thesis
    proof (cases res)
      case RETRYFOLD
      have b: "fold_retry (Suc n) J = fold_retry n J2" unfolding r Done y RETRYFOLD by (simp add: tr_bind_def)
      have g: "okst J J2" "fins_fine J2" "fold_less J2 J1" using f RETRYFOLD st by simp_all
      have "val_op (fo J) \<Longrightarrow> val_op (fo J2)" using less_val [OF g(3,2)] fo by simp
      then show ?thesis
        using again [of J2] okst_trans [OF g(1)] unfolding b Done y RETRYFOLD
        by (cases "fold_retry n J2") (auto simp: eng_res_def)
    next
      case KINTFOLD
      obtain q J3 where k: "lj_ir_kint (ir_i (fins J2)) J2 = (q, J3)" by (cases "lj_ir_kint (ir_i (fins J2)) J2")
      have b: "fold_retry (Suc n) J = Done (J3, q)" unfolding r Done y KINTFOLD by (simp add: tr_bind_def k)
      have "okst J J2" using f KINTFOLD st by simp
      then show ?thesis unfolding b using kint_fine(1,2,6) [OF _ k] by (simp add: okst_def)
    next
      case NEXTFOLD
      then have "x = Done (J2, NEXTFOLD)" by (simp add: Done y)
      then show ?thesis using t(2) by blast
    qed (use f st fo in \<open>unfold r Done y, simp_all add: tr_bind_def\<close>)
  qed
qed

lemma retry_returns: "ir_fine J \<Longrightarrow> fins_fine J \<Longrightarrow> \<exists>n. eng_res J (fold_retry n J)"
proof (induction J rule: wf_induct_rule [OF fold_less_wf])
  case (1 J)
  obtain lr J1 where l: "fold_load J = (lr, J1)" by (cases "fold_load J")
  note L = load_starts [OF 1(2,3) l]
  obtain la ra where J1: "J1 = J\<lparr>fleft := la, fright := ra\<rparr>" using L(3) by blast
  have st: "okst J1 x = okst J x" "fold_less x J1 = fold_less x J" "fo J1 = fo J" for x
    by (simp_all add: J1 okst_def fold_less_def unmasked_def shift_mask_def)
  have IH: "\<exists>n. eng_res J2 (fold_retry n J2)" if "fold_less J2 J1" "ir_fine J2" "fins_fine J2" for J2
    using 1(1) [of J2] that st(2) by simp
  let ?J0 = "set_op1 (ir_op1 (fl J1)) J1"
  obtain n0 where n0: "shift_op (fo J1) \<Longrightarrow> ir_o (fl J1) = IR_BAND \<Longrightarrow> eng_res ?J0 (fold_entry (fold_retry n0) ?J0)"
    using IH [of ?J0] shiftk_less [OF L(1)] entry_res [of ?J0] by blast
  define x where "x = fold_match (fold_entry (fold_retry n0)) (fold_keys (fo J1) lr) J1"
  have t: "try_res J1 x" "\<And>J'. x \<noteq> Done (J', NEXTFOLD)"
    using match_fine [where f = "fold_entry (fold_retry n0)", OF L(1,2)] n0 unfolding x_def by blast+
  obtain n1 where n1: "\<And>J2. x = Done (J2, RETRYFOLD) \<Longrightarrow> eng_res J2 (fold_retry n1 J2)"
  proof (cases "\<exists>J2. x = Done (J2, RETRYFOLD)")
    case True
    then obtain J2 where e: "x = Done (J2, RETRYFOLD)" by blast
    then have "fold_less J2 J1" "ir_fine J2" "fins_fine J2" using t(1) by (simp_all add: okst_def)
    from IH [OF this] show ?thesis using that e by blast
  qed (use that in blast)
  let ?n = "max n0 n1"
  have x': "fold_match (fold_entry (fold_retry ?n)) (fold_keys (fo J1) lr) J1 = x"
    unfolding x_def by (rule match_le [OF entry_le [OF retry_le]]) (use t(1) in \<open>auto simp: x_def [symmetric]\<close>)
  have "eng_res J2 (fold_retry ?n J2)" if "x = Done (J2, RETRYFOLD)" for J2
  proof -
    have "fold_retry n1 J2 \<noteq> NoFuel" using n1 [OF that] by auto
    then have "fold_retry ?n J2 = fold_retry n1 J2" using retry_le [of n1 ?n] by (simp add: eng_le_def)
    then show ?thesis using n1 [OF that] by simp
  qed
  from retry_res [OF l st(1,3) x' t this] show ?case by blast
qed

lemma fold_returns_fine:
  assumes "ir_fine J" "fins_fine J"
  shows "\<exists>n. \<forall>m\<ge>n. lj_opt_fold m J = lj_opt_fold n J \<and> eng_res J (lj_opt_fold n J)"
proof -
  obtain n where n: "eng_res J (fold_retry n J)" using retry_returns [OF assms] by blast
  have e: "eng_res J (lj_opt_fold n J)" unfolding lj_opt_fold_def by (rule entry_res [where f = "fold_retry n", OF assms]) (rule n)
  have "lj_opt_fold m J = lj_opt_fold n J" if "n \<le> m" for m
  proof -
    have "eng_le (fold_entry (fold_retry n)) (fold_entry (fold_retry m))" by (rule entry_le [OF retry_le [OF that]])
    moreover have "fold_entry (fold_retry n) J \<noteq> NoFuel" using e by (auto simp: lj_opt_fold_def)
    ultimately show ?thesis by (simp add: eng_le_def lj_opt_fold_def)
  qed
  then show ?thesis using e by blast
qed

section \<open>The property\<close>

text \<open>The operands of every instruction with a value are constants or instructions before it.\<close>

definition ir_linked :: "jit \<Rightarrow> bool" where
  "ir_linked J \<longleftrightarrow> (\<forall>r. is_ins J r \<longrightarrow> val_op (ir_o (irs J r)) \<longrightarrow>
     kgood J (ir_op1 (irs J r)) \<and> ir_op1 (irs J r) < r \<and>
     rgood J (ir_o (irs J r)) (ir_op2 (irs J r)) \<and> ir_op2 (irs J r) < r)"

lemma linked_fine: "ir_ok J \<Longrightarrow> ir_linked J \<Longrightarrow> ir_fine J"
proof -
  assume J: "ir_ok J" "ir_linked J"
  have wf: "ir_wf J" using J(1) by (simp add: ir_ok_def)
  have "chain_fine J op" for op
  proof -
    have g: "chain_good J op (chain_list J op)" by (rule chain_list_good [OF wf])
    have "nk J \<le> r \<and> r < nins J \<and> (r < REF_BIAS \<longleftrightarrow> is_const_op op) \<and> ir_o (irs J r) = op"
      if "r \<in> set (chain_list J op)" for r
      using chain_listD [OF wf that] by (cases "is_const_op op") (auto simp: REF_TRUE_def)
    then show ?thesis using g unfolding chain_fine_def chain_good_def by blast
  qed
  then have "\<forall>op. chain_fine J op" by blast
  moreover have "nk J \<le> REF_TRUE" "REF_BIAS \<le> nins J" using ir_okD [OF J(1)] by (simp_all add: REF_FIRST_def)
  ultimately show "ir_fine J" using J(2) unfolding ir_fine_def ir_linked_def is_ins_def by blast
qed

lemma int_ref_good:
  assumes "ir_ok J" "ir_typed J" "int_ref J r"
  shows "kgood J r"
proof -
  have b: "nk J \<le> r" "r < nins J" using int_refD [OF assms(1,3)] by simp_all
  consider "is_kint J r" | "is_kint64 J r" | "is_ins J r" using assms(3) unfolding int_ref_def by blast
  then show ?thesis
  proof cases
    case 1
    then show ?thesis using is_kintD(1,4) [OF assms(1) 1] b by (simp add: kgood_def REF_TRUE_def)
  next
    case 2
    then show ?thesis
      using is_kint64D(1,4) [OF assms(1) 2] b by (simp add: kgood_def REF_TRUE_def)
  next
    case 3
    then have "REF_BIAS \<le> r" by (simp add: is_ins_def)
    then show ?thesis using b const_not_ins [OF assms(2) 3] by (simp add: kgood_def)
  qed
qed

text \<open>A candidate of an integer type with operands of the right types has valid operands.\<close>

lemma pre_fold_fine: "pre_fold J \<Longrightarrow> fins_fine J"
proof -
  assume J: "pre_fold J"
  then have t: "ir_ok J" "ir_typed J" "ins_typed J True (fo J) (fw J) (fop1 J) (fop2 J)" by (simp_all add: pre_fold_def fins_ok_def)
  have "kgood J (fop1 J)" using int_ref_good [OF t(1,2)] ins_typed_refs(1) [OF t(3)] by blast
  moreover have "rgood J (fo J) (fop2 J)"
  proof (cases "unary_op (fo J)")
    case True
    then show ?thesis using t(3) by (simp add: rgood_def ins_typed_def)
  next
    case False
    then show ?thesis using int_ref_good [OF t(1,2) ins_typed_refs(2) [OF t(3)]] by (simp add: rgood_def)
  qed
  moreover have "val_op (fo J) \<or> cmp_op (fo J)" using t(3) by (simp add: ins_typed_def)
  ultimately show "fins_fine J" by (simp add: fins_fine_def)
qed

text \<open>
  C32. The folding engine returns. For a candidate whose operands are valid references, in an IR with
  sound opcode chains where the operands of every instruction are constants or instructions before
  it, the retries end: from some amount of fuel on the result is the same and is not that of running
  out of fuel. It is an error that ends the recording, or a reference, which is inside the IR if the
  candidate has a value. So no two rules undo each other for ever, and the rule that folds an
  intermediate instruction calls the engine a bounded number of times. This is about the rules for
  integers, which are the ones in the model; the operations are those of C28 with all widths.
\<close>

theorem fold_returns:
  assumes "ir_ok J" "ir_linked J" "fins_fine J"
  shows "\<exists>n x. (\<forall>m\<ge>n. lj_opt_fold m J = x) \<and>
    ((\<exists>J'. x = TraceErr J') \<or> (\<exists>J' r. x = Done (J', r) \<and> (val_op (fo J) \<longrightarrow> nk J' \<le> r \<and> r < nins J')))"
proof -
  obtain n where n: "\<forall>m\<ge>n. lj_opt_fold m J = lj_opt_fold n J" "eng_res J (lj_opt_fold n J)"
    using fold_returns_fine [OF linked_fine [OF assms(1,2)] assms(3)] by blast
  have "(\<exists>J'. lj_opt_fold n J = TraceErr J') \<or>
      (\<exists>J' r. lj_opt_fold n J = Done (J', r) \<and> (val_op (fo J) \<longrightarrow> nk J' \<le> r \<and> r < nins J'))"
    using n(2) by (cases "lj_opt_fold n J") (auto simp: kgood_def)
  then show ?thesis using n(1) by blast
qed

text \<open>The trace of \<open>ex_sub\<close>, and the candidate \<open>x + (x + 5)\<close>, whose operands are swapped before it is emitted.\<close>

definition ex_swap :: jit where "ex_swap = lj_ir_set IR_ADD IRT_INT 0x8001 0x8003 ex_add"

lemma ex_add_at: "nins ex_add = 0x8004" "ir_o (irs ex_add 0x8000) = IR_BASE" "ir_o (irs ex_add 0x8002) = IR_SLOAD"
  "kgood ex_add 0x8001" "kgood ex_add 0x7ffc" "kgood ex_add 0x8003"
proof -
  obtain K where k: "lj_ir_kint 5 ex_trace = (0x7ffc, K)" "nk K = 0x7ffc" by (rule ex_kint)
  have gr: "grown ex_trace K" using kint_grown(1) [OF ex_trace_ok(1,2) k(1)] k(2) by simp
  then have K: "ir_ok K" "ir_ext ex_trace K" "nins K = 0x8003" using ex_chain(2) by (simp_all add: grown_def)
  define A where "A = lj_ir_set IR_ADD IRT_INT 0x8001 0x7ffc K"
  have A: "ir_ok A" "\<not> is_const_op (fo A)" "nins A = 0x8003" "irs A = irs K" "nk A = 0x7ffc"
    using K k(2) by (simp_all add: A_def lj_ir_set_def is_const_op_def ir_ops)
  obtain r B where e: "lj_ir_emit A = (r, B)" by (cases "lj_ir_emit A")
  have b: "ex_add = B" unfolding ex_add_def k snd_conv A_def [symmetric] e ..
  have em: "ir_ext A B" "nins B = nins A + 1" using emit_emitted [OF A(1,2) e] unfolding emitted_def by blast+
  show "nins ex_add = 0x8004" using em(2) A(3) b by simp
  have old: "irs ex_add q = irs ex_trace q" if "is_ins ex_trace q" for q
  proof -
    have q: "0x8000 \<le> q" "q < 0x8003" using that ex_chain(2) by (simp_all add: is_ins_def ir_refs)
    have "irs B q = irs A q" using em(1) q A(3,5) unfolding ir_ext_def by simp
    moreover have "irs K q = irs ex_trace q" using K(2) q ex_chain(2) ex_trace_ok(10) unfolding ir_ext_def by (simp add: ir_refs)
    ultimately show ?thesis using b A(4) by simp
  qed
  show "ir_o (irs ex_add 0x8002) = IR_SLOAD" using old [OF ex_trace_ok(4)] ex_trace_ok(8) by simp
  have "ir_o (irs ex_trace 0x8000) = IR_BASE"
    unfolding ex_trace_def lj_record_setup_def
    by (simp add: Let_def lj_ir_emit_def lj_ir_nextins_def lj_ir_growtop_def lj_ir_set_def ir_refs ex_jit_def split: prod.splits)
  then show "ir_o (irs ex_add 0x8000) = IR_BASE" using old [of "0x8000"] ex_chain(2) by (simp add: is_ins_def ir_refs)
  have t: "int_t (ir_t (irs ex_add 0x8003))" "val_op (ir_o (irs ex_add 0x8003))"
    using ex_add_ok(8,11) ex_int by (simp_all add: op_classes ir_ops)
  have i: "ins_typed ex_add False IR_ADD False 0x8001 0x7ffc"
    using int_insD(3) [OF ex_add_ok(2,5) t(1) disjI1 [OF t(2)]] ex_add_ok(8-11) ex_int by simp
  note g = int_ref_good [OF ex_add_ok(1,2)]
  show "kgood ex_add 0x8001" by (rule g [OF ins_typed_refs(1) [OF i]])
  show "kgood ex_add 0x7ffc" by (rule g [OF ins_typed_refs(2) [OF i]]) (simp add: op_classes ir_ops)
  show "kgood ex_add 0x8003" using ex_add_ok(5) t(1) by (intro g) (simp add: int_ref_def)
qed

lemma ex_add_linked: "ir_linked ex_add"
  unfolding ir_linked_def
proof (intro allI impI)
  fix r assume r: "is_ins ex_add r" "val_op (ir_o (irs ex_add r))"
  have "r \<in> {0x8000, 0x8001, 0x8002, 0x8003}" using r(1) ex_add_at(1) by (auto simp: is_ins_def ir_refs)
  moreover have "\<not> val_op IR_BASE" "\<not> val_op IR_SLOAD" by (simp_all add: op_classes ir_ops)
  ultimately have "r = 0x8003" using r(2) ex_add_at(2,3) ex_add_ok(6) ex_trace_ok(7) by auto
  then show "kgood ex_add (ir_op1 (irs ex_add r)) \<and> ir_op1 (irs ex_add r) < r \<and>
     rgood ex_add (ir_o (irs ex_add r)) (ir_op2 (irs ex_add r)) \<and> ir_op2 (irs ex_add r) < r"
    using ex_add_ok(8-10) ex_add_at(4,5) by (simp add: rgood_def)
qed

theorem fold_returns_witness:
  "\<exists>n x. (\<forall>m\<ge>n. lj_opt_fold m ex_swap = x) \<and>
    ((\<exists>J'. x = TraceErr J') \<or> (\<exists>J' r. x = Done (J', r) \<and> (val_op (fo ex_swap) \<longrightarrow> nk J' \<le> r \<and> r < nins J')))"
proof (rule fold_returns)
  show "ir_ok ex_swap" using ex_add_ok(1) by (simp add: ex_swap_def lj_ir_set_def)
  show "ir_linked ex_swap" using ex_add_linked by (simp add: ex_swap_def lj_ir_set_def ir_linked_def)
  show "fins_fine ex_swap" using ex_add_at(4,6) by (simp add: ex_swap_def lj_ir_set_def fins_fine_def rgood_def op_classes ir_ops)
qed

end
