(* ===== verification/LjStrfmt.thy ===== *)
theory LjStrfmt
  imports LjBuf LjStr
begin

text \<open>
  String formatting (\<^verbatim>\<open>lj_strfmt.c\<close>, \<^verbatim>\<open>lj_strfmt.h\<close>): the parser of format strings, the conversions of
  integers and pointers, quoted strings, and the formatted conversions of characters, strings and
  integers. A write at the put pointer is a list of bytes; a format string ends in a zero byte past
  its end, which the parser reads.
\<close>

section \<open>Formats\<close>

definition STRFMT_EOF :: u32 where "STRFMT_EOF = 0"
definition STRFMT_ERR :: u32 where "STRFMT_ERR = 1"
definition STRFMT_LIT :: u32 where "STRFMT_LIT = 2"
definition STRFMT_INT :: u32 where "STRFMT_INT = 3"
definition STRFMT_UINT :: u32 where "STRFMT_UINT = 4"
definition STRFMT_NUM :: u32 where "STRFMT_NUM = 5"
definition STRFMT_STR :: u32 where "STRFMT_STR = 6"
definition STRFMT_CHAR :: u32 where "STRFMT_CHAR = 7"
definition STRFMT_PTR :: u32 where "STRFMT_PTR = 8"

definition STRFMT_T_HEX :: u32 where "STRFMT_T_HEX = 0x0010"
definition STRFMT_T_OCT :: u32 where "STRFMT_T_OCT = 0x0020"
definition STRFMT_T_FP_A :: u32 where "STRFMT_T_FP_A = 0x0000"
definition STRFMT_T_FP_E :: u32 where "STRFMT_T_FP_E = 0x0010"
definition STRFMT_T_FP_F :: u32 where "STRFMT_T_FP_F = 0x0020"
definition STRFMT_T_FP_G :: u32 where "STRFMT_T_FP_G = 0x0030"
definition STRFMT_T_QUOTED :: u32 where "STRFMT_T_QUOTED = 0x0010"

definition STRFMT_F_LEFT :: u32 where "STRFMT_F_LEFT = 0x0100"
definition STRFMT_F_PLUS :: u32 where "STRFMT_F_PLUS = 0x0200"
definition STRFMT_F_ZERO :: u32 where "STRFMT_F_ZERO = 0x0400"
definition STRFMT_F_SPACE :: u32 where "STRFMT_F_SPACE = 0x0800"
definition STRFMT_F_ALT :: u32 where "STRFMT_F_ALT = 0x1000"
definition STRFMT_F_UPPER :: u32 where "STRFMT_F_UPPER = 0x2000"

definition STRFMT_SH_WIDTH :: nat where "STRFMT_SH_WIDTH = 16"
definition STRFMT_SH_PREC :: nat where "STRFMT_SH_PREC = 24"

definition STRFMT_TYPE :: "u32 \<Rightarrow> u32" where "STRFMT_TYPE sf = sf AND 15"
definition STRFMT_WIDTH :: "u32 \<Rightarrow> u32" where "STRFMT_WIDTH sf = drop_bit STRFMT_SH_WIDTH sf AND 255"
definition STRFMT_PREC :: "u32 \<Rightarrow> u32" where "STRFMT_PREC sf = (drop_bit STRFMT_SH_PREC sf AND 255) - 1"

definition STRFMT_A :: u32 where "STRFMT_A = STRFMT_NUM OR STRFMT_T_FP_A"
definition STRFMT_C :: u32 where "STRFMT_C = STRFMT_CHAR"
definition STRFMT_D :: u32 where "STRFMT_D = STRFMT_INT"
definition STRFMT_E :: u32 where "STRFMT_E = STRFMT_NUM OR STRFMT_T_FP_E"
definition STRFMT_F :: u32 where "STRFMT_F = STRFMT_NUM OR STRFMT_T_FP_F"
definition STRFMT_G :: u32 where "STRFMT_G = STRFMT_NUM OR STRFMT_T_FP_G"
definition STRFMT_I :: u32 where "STRFMT_I = STRFMT_D"
definition STRFMT_O :: u32 where "STRFMT_O = STRFMT_UINT OR STRFMT_T_OCT"
definition STRFMT_P :: u32 where "STRFMT_P = STRFMT_PTR"
definition STRFMT_Q :: u32 where "STRFMT_Q = STRFMT_STR OR STRFMT_T_QUOTED"
definition STRFMT_S :: u32 where "STRFMT_S = STRFMT_STR"
definition STRFMT_U :: u32 where "STRFMT_U = STRFMT_UINT"
definition STRFMT_X :: u32 where "STRFMT_X = STRFMT_UINT OR STRFMT_T_HEX"

definition STRFMT_MAXBUF_XINT :: nat where "STRFMT_MAXBUF_XINT = 1 + 22"
definition STRFMT_MAXBUF_INT :: nat where "STRFMT_MAXBUF_INT = 1 + 10"
definition STRFMT_MAXBUF_PTR :: nat where "STRFMT_MAXBUF_PTR = 2 + 2 * 8"

lemmas strfmt_types = STRFMT_EOF_def STRFMT_ERR_def STRFMT_LIT_def STRFMT_INT_def STRFMT_UINT_def STRFMT_NUM_def
  STRFMT_STR_def STRFMT_CHAR_def STRFMT_PTR_def
lemmas strfmt_flags = STRFMT_F_LEFT_def STRFMT_F_PLUS_def STRFMT_F_ZERO_def STRFMT_F_SPACE_def STRFMT_F_ALT_def
  STRFMT_F_UPPER_def STRFMT_T_HEX_def STRFMT_T_OCT_def STRFMT_T_FP_A_def STRFMT_T_FP_E_def STRFMT_T_FP_F_def
  STRFMT_T_FP_G_def STRFMT_T_QUOTED_def STRFMT_SH_WIDTH_def STRFMT_SH_PREC_def
lemmas strfmt_convs = STRFMT_A_def STRFMT_C_def STRFMT_D_def STRFMT_E_def STRFMT_F_def STRFMT_G_def STRFMT_I_def
  STRFMT_O_def STRFMT_P_def STRFMT_Q_def STRFMT_S_def STRFMT_U_def STRFMT_X_def

section \<open>The parser\<close>

definition strfmt_map :: "u32 list" where
  "strfmt_map = [
    STRFMT_A,0,0,0,STRFMT_E,STRFMT_F,STRFMT_G,0,0,0,0,0,0,
    0,0,0,0,0,0,0,0,0,0,STRFMT_X,0,0,
    0,0,0,0,0,0,
    STRFMT_A,0,STRFMT_C,STRFMT_D,STRFMT_E,STRFMT_F,STRFMT_G,0,STRFMT_I,0,0,0,0,
    0,STRFMT_O,STRFMT_P,STRFMT_Q,0,STRFMT_S,0,STRFMT_U,0,0,STRFMT_X]"

text \<open>The byte at an offset of a format string, with the zero byte at its end.\<close>

definition fmtc :: "bytes \<Rightarrow> nat \<Rightarrow> u8" where
  "fmtc f p = (if p < length f then f ! p else 0)"

definition fmt_isdigit :: "u8 \<Rightarrow> bool" where
  "fmt_isdigit c \<longleftrightarrow> (ucast c :: u32) - 0x30 < 10"

function fmt_flags :: "bytes \<Rightarrow> nat \<Rightarrow> u32 \<Rightarrow> nat \<times> u32" where
  "fmt_flags f p sf =
     (let c = fmtc f p
      in if (ucast c :: u32) - 0x20 \<le> 0x30 - 0x20 then
           if c = 0x2d then fmt_flags f (p + 1) (sf OR STRFMT_F_LEFT)
           else if c = 0x2b then fmt_flags f (p + 1) (sf OR STRFMT_F_PLUS)
           else if c = 0x30 then fmt_flags f (p + 1) (sf OR STRFMT_F_ZERO)
           else if c = 0x20 then fmt_flags f (p + 1) (sf OR STRFMT_F_SPACE)
           else if c = 0x23 then fmt_flags f (p + 1) (sf OR STRFMT_F_ALT)
           else (p, sf)
         else (p, sf))"
  by pat_completeness auto
termination
  by (relation "measure (\<lambda>(f, p, sf). length f - p)") (auto simp: fmtc_def split: if_splits)

declare fmt_flags.simps [simp del]

text \<open>At most two decimal digits; without a digit the value is 0.\<close>

definition fmt_num :: "bytes \<Rightarrow> nat \<Rightarrow> nat \<times> u32" where
  "fmt_num f p =
     (if fmt_isdigit (fmtc f p) then
        let n = ucast (fmtc f p) - 0x30; p = p + 1
        in if fmt_isdigit (fmtc f p) then (p + 1, ucast (fmtc f p) - 0x30 + n * 10) else (p, n)
      else (p, 0))"

definition fmt_width :: "bytes \<Rightarrow> nat \<Rightarrow> u32 \<Rightarrow> nat \<times> u32" where
  "fmt_width f p sf =
     (if fmt_isdigit (fmtc f p) then
        let (p, width) = fmt_num f p in (p, sf OR push_bit STRFMT_SH_WIDTH width)
      else (p, sf))"

definition fmt_prec :: "bytes \<Rightarrow> nat \<Rightarrow> u32 \<Rightarrow> nat \<times> u32" where
  "fmt_prec f p sf =
     (if fmtc f p = 0x2e then
        let (p, prec) = fmt_num f (p + 1) in (p, sf OR push_bit STRFMT_SH_PREC (prec + 1))
      else (p, sf))"

text \<open>The state after a call: the format or indicator, and the literal's or error's start and length.\<close>

record fmtstate =
  fs_p :: nat
  fs_str :: nat
  fs_len :: nat

text \<open>From the percent sign at \<open>p\<close>, with which the conversion specification starts.\<close>

definition fmt_spec :: "bytes \<Rightarrow> fmtstate \<Rightarrow> nat \<Rightarrow> u32 \<times> fmtstate" where
  "fmt_spec f fs p =
     (let (p, sf) = fmt_flags f (p + 1) 0;
          (p, sf) = fmt_width f p sf;
          (p, sf) = fmt_prec f p sf;
          c = ucast (fmtc f p) - 0x41 :: u32;
          sx = (if c \<le> 0x78 - 0x41 then strfmt_map ! unat c else 0)
      in if sx \<noteq> 0 then
           (sf OR sx OR (if c AND 0x20 \<noteq> 0 then 0 else STRFMT_F_UPPER),
            fs\<lparr>fs_p := p + 1\<rparr>)
         else
           let p = (if 32 \<le> fmtc f p then p + 1 else p)
           in (STRFMT_ERR, fs\<lparr>fs_p := length f, fs_len := p - fs_str fs\<rparr>))"

definition fmt_lit :: "fmtstate \<Rightarrow> nat \<Rightarrow> nat \<Rightarrow> u32 \<times> fmtstate" where
  "fmt_lit fs p next =
     (let len = p - fs_str fs
      in (if len \<noteq> 0 then STRFMT_LIT else STRFMT_EOF, fs\<lparr>fs_p := next, fs_len := len\<rparr>))"

function fmt_scan :: "bytes \<Rightarrow> fmtstate \<Rightarrow> nat \<Rightarrow> u32 \<times> fmtstate" where
  "fmt_scan f fs p =
     (if p < length f then
        if fmtc f p = 0x25 then
          if fmtc f (p + 1) = 0x25 then fmt_lit fs (p + 1) (p + 2)
          else if p \<noteq> fs_str fs then fmt_lit fs p p
          else fmt_spec f fs p
        else fmt_scan f fs (p + 1)
      else fmt_lit fs p p)"
  by pat_completeness auto
termination
  by (relation "measure (\<lambda>(f, fs, p). length f - p)") auto

declare fmt_scan.simps [simp del]

definition lj_strfmt_parse :: "bytes \<Rightarrow> fmtstate \<Rightarrow> u32 \<times> fmtstate" where
  "lj_strfmt_parse f fs = fmt_scan f (fs\<lparr>fs_str := fs_p fs\<rparr>) (fs_p fs)"

section \<open>Raw conversions\<close>

definition WINT_R :: "u32 \<Rightarrow> nat \<Rightarrow> u32 \<Rightarrow> u8 \<times> u32" where
  "WINT_R x sh sc =
     (let d = drop_bit sh (x * ((push_bit sh 1 + sc - 1) div sc))
      in (0x30 + ucast d, x - d * sc))"

text \<open>The exits of the division chain: the last one to four digits of the argument.\<close>

definition wint_dig1 :: "u32 \<Rightarrow> bytes" where
  "wint_dig1 u = [0x30 + ucast u]"

definition wint_dig2 :: "u32 \<Rightarrow> bytes" where
  "wint_dig2 u = (let (d, u) = WINT_R u 10 10 in d # wint_dig1 u)"

definition wint_dig3 :: "u32 \<Rightarrow> bytes" where
  "wint_dig3 u = (let (d, u) = WINT_R u 12 100 in d # wint_dig2 u)"

definition wint_dig4 :: "u32 \<Rightarrow> bytes" where
  "wint_dig4 u = (let (d, u) = WINT_R u 23 1000 in d # wint_dig3 u)"

definition lj_strfmt_wint :: "u32 \<Rightarrow> bytes" where
  "lj_strfmt_wint k =
     (let (u, sign) = (if k <s 0 then (- k, [0x2d]) else (k, []))
      in sign @
        (if u < 10000 then
           if u < 10 then wint_dig1 u
           else if u < 100 then wint_dig2 u
           else if u < 1000 then wint_dig3 u
           else wint_dig4 u
         else
           let v = u div 10000; u = u - v * 10000
           in (if v < 10000 then
                 if v < 10 then wint_dig1 v
                 else if v < 100 then wint_dig2 v
                 else if v < 1000 then wint_dig3 v
                 else wint_dig4 v
               else
                 let w = v div 10000; v = v - w * 10000
                 in (if w \<ge> 10 then wint_dig2 w else wint_dig1 w) @ wint_dig4 v)
              @ wint_dig4 u))"

definition hexdig :: "bool \<Rightarrow> bytes" where
  "hexdig upper =
     (if upper then [0x30,0x31,0x32,0x33,0x34,0x35,0x36,0x37,0x38,0x39,0x41,0x42,0x43,0x44,0x45,0x46]
      else [0x30,0x31,0x32,0x33,0x34,0x35,0x36,0x37,0x38,0x39,0x61,0x62,0x63,0x64,0x65,0x66])"

text \<open>The digits from the last to the first, written backwards.\<close>

fun wptr_loop :: "nat \<Rightarrow> u64 \<Rightarrow> bytes \<Rightarrow> bytes" where
  "wptr_loop 0 x acc = acc"
| "wptr_loop (Suc i) x acc = wptr_loop i (signed_drop_bit 4 x) ((hexdig False ! unat (x AND 15)) # acc)"

definition lj_strfmt_wptr :: "u64 \<Rightarrow> bytes" where
  "lj_strfmt_wptr x =
     (if x = 0 then [0x4e, 0x55, 0x4c, 0x4c]
      else
        let h = signed_drop_bit 32 x;
            n = 2 + 2 * 4 + (if h \<noteq> 0 then 2 + 2 * (lj_fls (ucast h) div 8) else 0)
        in [0x30, 0x78] @ wptr_loop (n - 2) x [])"

section \<open>Conversions to a buffer\<close>

definition lj_strfmt_putint :: "sbuf \<Rightarrow> u32 \<Rightarrow> buf_err + sbuf" where
  "lj_strfmt_putint sb k =
     map_sum id (\<lambda>sb. lj_buf_wmem sb (lj_strfmt_wint k)) (lj_buf_more sb STRFMT_MAXBUF_INT)"

definition lj_strfmt_putptr :: "sbuf \<Rightarrow> u64 \<Rightarrow> buf_err + sbuf" where
  "lj_strfmt_putptr sb x =
     map_sum id (\<lambda>sb. lj_buf_wmem sb (lj_strfmt_wptr x)) (lj_buf_more sb STRFMT_MAXBUF_PTR)"

text \<open>One byte of a quoted string; \<open>s\<close> is the byte behind it, 0 at the end.\<close>

definition quote_char :: "u8 \<Rightarrow> u8 \<Rightarrow> bytes" where
  "quote_char c s =
     (if c = 0x22 \<or> c = 0x5c \<or> c = 0x0a then [0x5c, c]
      else if lj_char_iscntrl (uint c) then
        [0x5c] @
        (if 100 \<le> c \<or> lj_char_isdigit (uint s) then
           let h = 0x30 + (if 100 \<le> c then 1 else 0); c = (if 100 \<le> c then c - 100 else c);
               d = drop_bit 11 ((ucast c :: u32) * 205)
           in [h, 0x30 + ucast d, c - ucast d * 10 + 0x30]
         else if 10 \<le> c then
           let d = drop_bit 11 ((ucast c :: u32) * 205)
           in [0x30 + ucast d, c - ucast d * 10 + 0x30]
         else [c + 0x30])
      else [c])"

fun quote_loop :: "bytes \<Rightarrow> sbuf \<Rightarrow> buf_err + sbuf" where
  "quote_loop [] sb = Inr sb"
| "quote_loop (c # s) sb =
     (case lj_buf_more sb 4 of Inl e \<Rightarrow> Inl e
      | Inr sb \<Rightarrow> quote_loop s (lj_buf_wmem sb (quote_char c (case s of [] \<Rightarrow> 0 | d # _ \<Rightarrow> d))))"

definition lj_strfmt_putquoted :: "sbuf \<Rightarrow> bytes \<Rightarrow> buf_err + sbuf" where
  "lj_strfmt_putquoted sb str =
     (case lj_buf_putb sb 0x22 of Inl e \<Rightarrow> Inl e
      | Inr sb \<Rightarrow> (case quote_loop str sb of Inl e \<Rightarrow> Inl e | Inr sb \<Rightarrow> lj_buf_putb sb 0x22))"

definition lj_strfmt_putfchar :: "sbuf \<Rightarrow> u32 \<Rightarrow> u32 \<Rightarrow> buf_err + sbuf" where
  "lj_strfmt_putfchar sb sf c =
     (let width = unat (STRFMT_WIDTH sf);
          left = sf AND STRFMT_F_LEFT \<noteq> 0
      in map_sum id
           (\<lambda>sb. lj_buf_wmem sb ((if left then [ucast c] else []) @ replicate (width - 1) 0x20
              @ (if \<not> left then [ucast c] else [])))
           (lj_buf_more sb (if width > 1 then width else 1)))"

definition lj_strfmt_putfstr :: "sbuf \<Rightarrow> u32 \<Rightarrow> bytes \<Rightarrow> buf_err + sbuf" where
  "lj_strfmt_putfstr sb sf str =
     (let len = (if length str \<le> unat (STRFMT_PREC sf) then length str else unat (STRFMT_PREC sf));
          width = unat (STRFMT_WIDTH sf);
          left = sf AND STRFMT_F_LEFT \<noteq> 0
      in map_sum id
           (\<lambda>sb. lj_buf_wmem sb ((if left then take len str else []) @ replicate (width - len) 0x20
              @ (if \<not> left then take len str else [])))
           (lj_buf_more sb (if width > len then width else len)))"

section \<open>Formatted integers\<close>

lemma div10_less: "k \<noteq> 0 \<Longrightarrow> unat (k div 10 :: u32) < unat k" "l \<noteq> 0 \<Longrightarrow> unat (l div 10 :: u64) < unat l"
  by (simp_all add: unat_div_distrib unat_gt_0)

lemma drop_less:
  assumes "0 < n" "drop_bit n k \<noteq> 0"
  shows "unat (drop_bit n k :: 'a::len word) < unat k"
proof -
  have "k \<noteq> 0" using assms(2) by auto
  moreover have "(1::nat) < 2 ^ n" using assms(1) by (intro one_less_power) simp_all
  ultimately have "unat k div 2 ^ n < unat k" by (simp add: unat_gt_0)
  then show ?thesis unfolding unat_drop_bit_eq by (simp add: drop_bit_eq_div)
qed

text \<open>The digit loops, writing backwards in front of \<open>q\<close>.\<close>

function fxint_dec32 :: "u32 \<Rightarrow> bytes \<Rightarrow> bytes" where
  "fxint_dec32 k q =
     (let q = (0x30 + ucast (k mod 10)) # q; k = k div 10
      in if k \<noteq> 0 then fxint_dec32 k q else q)"
  by pat_completeness auto
termination
proof (relation "measure (\<lambda>(k, q). unat k)", goal_cases)
  case (2 k q x y)
  then show ?case using div10_less(1) [of k] by (cases "k = 0") auto
qed simp

function fxint_dec :: "u64 \<Rightarrow> bytes \<Rightarrow> bytes" where
  "fxint_dec k q =
     (if drop_bit 32 k \<noteq> 0 then fxint_dec (k div 10) ((0x30 + ucast (k mod 10)) # q)
      else fxint_dec32 (ucast k) q)"
  by pat_completeness auto
termination
proof (relation "measure (\<lambda>(k, q). unat k)", goal_cases)
  case (2 k q)
  then show ?case using div10_less(2) [of k] by (cases "k = 0") auto
qed simp

function fxint_hex :: "bool \<Rightarrow> u64 \<Rightarrow> bytes \<Rightarrow> bytes" where
  "fxint_hex upper k q =
     (let q = (hexdig upper ! unat (k AND 15)) # q; k = drop_bit 4 k
      in if k \<noteq> 0 then fxint_hex upper k q else q)"
  by pat_completeness auto
termination
proof (relation "measure (\<lambda>(upper, k, q). unat k)", goal_cases)
  case (2 upper k q x y)
  then show ?case using drop_less [of 4 k] by auto
qed simp

function fxint_oct :: "u64 \<Rightarrow> bytes \<Rightarrow> bytes" where
  "fxint_oct k q =
     (let q = (0x30 + ucast (k AND 7)) # q; k = drop_bit 3 k
      in if k \<noteq> 0 then fxint_oct k q else q)"
  by pat_completeness auto
termination
proof (relation "measure (\<lambda>(k, q). unat k)", goal_cases)
  case (2 k q x y)
  then show ?case using drop_less [of 3 k] by auto
qed simp

declare fxint_dec32.simps [simp del] fxint_dec.simps [simp del] fxint_hex.simps [simp del] fxint_oct.simps [simp del]

text \<open>The sign or base prefix: 256 or 512 (its length) plus its last character.\<close>

definition fxint_sign :: "u32 \<Rightarrow> u64 \<Rightarrow> u64 \<times> u32" where
  "fxint_sign sf k =
     (if STRFMT_TYPE sf = STRFMT_INT then
        if k <s 0 then (- k, 256 + 0x2d)
        else if sf AND STRFMT_F_PLUS \<noteq> 0 then (k, 256 + 0x2b)
        else if sf AND STRFMT_F_SPACE \<noteq> 0 then (k, 256 + 0x20)
        else (k, 0)
      else (k, 0))"

definition fxint_digits :: "u32 \<Rightarrow> u32 \<Rightarrow> u64 \<Rightarrow> u32 \<Rightarrow> bytes \<times> u32" where
  "fxint_digits sf prec k prefix =
     (if k = 0 then
        (if prec \<noteq> 0 \<or> sf AND (STRFMT_T_OCT OR STRFMT_F_ALT) = (STRFMT_T_OCT OR STRFMT_F_ALT)
         then [0x30] else [], prefix)
      else if sf AND (STRFMT_T_HEX OR STRFMT_T_OCT) = 0 then (fxint_dec k [], prefix)
      else if sf AND STRFMT_T_HEX \<noteq> 0 then
        (fxint_hex (sf AND STRFMT_F_UPPER \<noteq> 0) k [],
         if sf AND STRFMT_F_ALT \<noteq> 0 then 512 + (if sf AND STRFMT_F_UPPER \<noteq> 0 then 0x58 else 0x78) else prefix)
      else ((if sf AND STRFMT_F_ALT \<noteq> 0 then [0x30] else []) @ fxint_oct k [], prefix))"

definition lj_strfmt_putfxint :: "sbuf \<Rightarrow> u32 \<Rightarrow> u64 \<Rightarrow> buf_err + sbuf" where
  "lj_strfmt_putfxint sb sf k =
     (let (k, prefix) = fxint_sign sf k;
          prec = STRFMT_PREC sf;
          sf = (if 0 \<le>s prec then sf AND NOT STRFMT_F_ZERO else sf);
          (q, prefix) = fxint_digits sf prec k prefix;
          len = of_nat (length q) :: u32;
          prec = (if prec \<le>s len then len else prec);
          width = STRFMT_WIDTH sf;
          pprec = prec + drop_bit 8 prefix;
          need = (if width > pprec then width else pprec);
          pad = unat width - unat pprec;
          lz = sf AND (STRFMT_F_LEFT OR STRFMT_F_ZERO)
      in map_sum id
           (\<lambda>sb. lj_buf_wmem sb
              ((if lz = 0 then replicate pad 0x20 else [])
               @ (if prefix \<noteq> 0 then (if 0x58 \<le>s (ucast prefix :: u8) then [0x30] else []) @ [ucast prefix] else [])
               @ (if lz = STRFMT_F_ZERO then replicate pad 0x30 else [])
               @ replicate (unat prec - unat len) 0x30
               @ q
               @ (if sf AND STRFMT_F_LEFT \<noteq> 0 then replicate pad 0x20 else [])))
           (lj_buf_more sb (unat need)))"

end
