(* ===== verification/LjStrfmtProps.thy ===== *)
theory LjStrfmtProps
  imports LjStrfmt LjCarith
begin

text \<open>
  Integer formatting agrees with the digits of natural numbers in a base, and the parser of format
  strings stays inside the string, always advances and gives back every printed specification.
\<close>

section \<open>Digits\<close>

function digits :: "bool \<Rightarrow> nat \<Rightarrow> nat \<Rightarrow> bytes" where
  "digits up b n = (if n < b \<or> b < 2 then [hexdig up ! n] else digits up b (n div b) @ [hexdig up ! (n mod b)])"
  by pat_completeness auto
termination
  by (relation "measure (\<lambda>(up, b, n). n)") (auto intro!: div_less_dividend)

declare digits.simps [simp del]

text \<open>Exactly \<open>k\<close> digits, with leading zeros.\<close>

fun fixed_digits :: "nat \<Rightarrow> nat \<Rightarrow> bytes" where
  "fixed_digits 0 n = []"
| "fixed_digits (Suc k) n = fixed_digits k (n div 10) @ [0x30 + of_nat (n mod 10)]"

lemma hexdig_dec: "d < 10 \<Longrightarrow> hexdig up ! d = 0x30 + of_nat d"
  by (auto simp: hexdig_def numeral_eq_Suc less_Suc_eq)

lemma digits_dec: "digits up 10 n = (if n < 10 then [0x30 + of_nat n] else digits up 10 (n div 10) @ [0x30 + of_nat (n mod 10)])"
  by (subst digits.simps) (simp add: hexdig_dec)

lemma digits_fixed: "10 ^ k \<le> n \<Longrightarrow> digits up 10 n = digits up 10 (n div 10 ^ k) @ fixed_digits k n"
proof (induction k arbitrary: n)
  case (Suc k)
  have "10 ^ k \<le> n div 10" using Suc.prems by (simp add: less_eq_div_iff_mult_less_eq mult.commute)
  note IH = Suc.IH [OF this]
  have "\<not> n < 10" using Suc.prems by (metis One_nat_def le_trans not_less one_le_numeral one_le_power power_Suc mult.right_neutral mult_le_mono2)
  then show ?case by (subst digits_dec) (simp add: IH div_mult2_eq)
qed simp

lemma fixed_digits_first: "fixed_digits (Suc k) n = [0x30 + of_nat (n div 10 ^ k mod 10)] @ fixed_digits k n"
  by (induction k arbitrary: n) (simp_all add: div_mult2_eq)

lemma fixed_digits_mod: "k \<le> j \<Longrightarrow> fixed_digits k (n mod 10 ^ j) = fixed_digits k n"
proof (induction k arbitrary: n j)
  case (Suc k)
  then obtain i where i: "j = Suc i" "k \<le> i" by (cases j) auto
  have "n mod 10 ^ j div 10 = n div 10 mod 10 ^ i" by (simp add: i(1) mod_mult2_eq)
  moreover have "n mod 10 ^ j mod 10 = n mod 10" by (simp add: i(1) mod_mult2_eq)
  ultimately show ?case using Suc.IH [OF i(2)] by simp
qed simp

lemma digits_fixed_all: "10 ^ k \<le> n \<Longrightarrow> n < 10 ^ Suc k \<Longrightarrow> digits up 10 n = fixed_digits (Suc k) n"
proof -
  assume a: "10 ^ k \<le> n" "n < 10 ^ Suc k"
  have d: "n div 10 ^ k < 10" using a(2) by (simp add: less_mult_imp_div_less mult.commute)
  show ?thesis unfolding fixed_digits_first digits_fixed [OF a(1)] using d by (subst digits_dec) simp
qed

section \<open>Division by multiplication\<close>

lemma of_nat_unat32: "of_nat (unat x) = (x::u32)"
  by (simp add: word_unat_eq_iff unat_of_nat)

lemma ucast_of_nat8: "n < 256 \<Longrightarrow> ucast (of_nat n :: u32) = (of_nat n :: u8)" "n < 256 \<Longrightarrow> ucast (of_nat n :: u64) = (of_nat n :: u8)"
  by (simp_all add: word_unat_eq_iff unsigned_ucast_eq unat_of_nat take_bit_eq_mod)

lemma WINT_R_div:
  assumes m: "m = (2 ^ sh + sc - 1) div sc" "sc * m = 2 ^ sh + e" "0 < sc"
    and x: "unat x < 10 * sc" and e: "9 * e + m * (sc - 1) < 2 ^ sh" and b: "10 * sc * m < 2 ^ 32"
    and w: "of_nat sc = sw" "unat sw = sc" "(push_bit sh 1 + sw - 1) div sw = of_nat m"
  shows "WINT_R x sh sw = (0x30 + of_nat (unat x div sc), of_nat (unat x mod sc))"
proof -
  define q r where "q = unat x div sc" and "r = unat x mod sc"
  have qr: "unat x = sc * q + r" "r < sc" "q \<le> 9"
    using x m(3) by (simp_all add: q_def r_def less_mult_imp_div_less [of _ 10, simplified] less_Suc_eq_le [symmetric])
  have le: "unat x * m < 2 ^ 32"
    using mult_le_mono1 [of "unat x" "10 * sc" m] x b by linarith
  have "m < 2 ^ 32" using b m(3) by (metis (no_types) gr0_implies_Suc le_less_trans mult.commute mult_le_mono1 mult_numeral_1_right numeral_One one_le_numeral order.strict_trans1 mult_Suc le_add1)
  then have "unat (x * of_nat m) = unat x * m"
    using le by (simp add: unat_word_ariths unat_of_nat)
  then have "unat (drop_bit sh (x * of_nat m)) = unat x * m div 2 ^ sh"
    unfolding unat_drop_bit_eq by (simp add: drop_bit_eq_div)
  moreover have "unat x * m = q * 2 ^ sh + (q * e + r * m)"
    using qr(1) m(2) by (simp add: algebra_simps) (metis distrib_left mult.assoc mult.commute)
  moreover have "q * e + r * m < 2 ^ sh"
  proof -
    have "q * e \<le> 9 * e" by (rule mult_le_mono1 [OF qr(3)])
    moreover have "r * m \<le> (sc - 1) * m" by (rule mult_le_mono1) (use qr(2) in simp)
    ultimately show ?thesis using e unfolding mult.commute [of m] by linarith
  qed
  ultimately have d: "unat (drop_bit sh (x * of_nat m)) = q" by simp
  then have d': "drop_bit sh (x * of_nat m) = of_nat q" using of_nat_unat32 [of "drop_bit sh (x * of_nat m)"] by simp
  have "x = sw * of_nat q + of_nat r" using qr(1) w(1) of_nat_unat32 [of x] by (metis of_nat_add of_nat_mult)
  then have "x - of_nat q * sw = of_nat r" by (simp add: algebra_simps)
  then show ?thesis unfolding WINT_R_def Let_def w(3) d' q_def [symmetric] r_def [symmetric]
    using ucast_of_nat8 [of q] qr(3) by simp
qed

lemma WINT_R_cases:
  "unat x < 100 \<Longrightarrow> WINT_R x 10 10 = (0x30 + of_nat (unat x div 10), of_nat (unat x mod 10))"
  "unat x < 1000 \<Longrightarrow> WINT_R x 12 100 = (0x30 + of_nat (unat x div 100), of_nat (unat x mod 100))"
  "unat x < 10000 \<Longrightarrow> WINT_R x 23 1000 = (0x30 + of_nat (unat x div 1000), of_nat (unat x mod 1000))"
proof -
  show "unat x < 100 \<Longrightarrow> WINT_R x 10 10 = (0x30 + of_nat (unat x div 10), of_nat (unat x mod 10))"
    by (rule WINT_R_div [where m = 103 and e = 6]) (simp_all add: push_bit_eq_mult)
  show "unat x < 1000 \<Longrightarrow> WINT_R x 12 100 = (0x30 + of_nat (unat x div 100), of_nat (unat x mod 100))"
    by (rule WINT_R_div [where m = 41 and e = 4]) (simp_all add: push_bit_eq_mult)
  show "unat x < 10000 \<Longrightarrow> WINT_R x 23 1000 = (0x30 + of_nat (unat x div 1000), of_nat (unat x mod 1000))"
    by (rule WINT_R_div [where m = 8389 and e = 392]) (simp_all add: push_bit_eq_mult)
qed

lemma wint_digs:
  "unat u < 10 \<Longrightarrow> wint_dig1 u = fixed_digits 1 (unat u)"
  "unat u < 100 \<Longrightarrow> wint_dig2 u = fixed_digits 2 (unat u)"
  "unat u < 1000 \<Longrightarrow> wint_dig3 u = fixed_digits 3 (unat u)"
  "unat u < 10000 \<Longrightarrow> wint_dig4 u = fixed_digits 4 (unat u)"
proof -
  have s: "fixed_digits (numeral k) n = [0x30 + of_nat (n div 10 ^ pred_numeral k mod 10)] @ fixed_digits (pred_numeral k) n" for k n
    by (simp only: numeral_eq_Suc fixed_digits_first)
  have 1: "wint_dig1 u = fixed_digits 1 (unat u)" if "unat u < 10" for u
    using that by (simp add: wint_dig1_def unsigned_ucast_eq word_unat_eq_iff unat_of_nat)
  then show "unat u < 10 \<Longrightarrow> wint_dig1 u = fixed_digits 1 (unat u)" .
  have 2: "wint_dig2 u = fixed_digits 2 (unat u)" if "unat u < 100" for u
    using that 1 [of "of_nat (unat u mod 10)"] fixed_digits_mod [of 1 1 "unat u"]
    by (simp add: wint_dig2_def WINT_R_cases unat_of_nat s)
  then show "unat u < 100 \<Longrightarrow> wint_dig2 u = fixed_digits 2 (unat u)" .
  have 3: "wint_dig3 u = fixed_digits 3 (unat u)" if "unat u < 1000" for u
    using that 2 [of "of_nat (unat u mod 100)"] fixed_digits_mod [of 2 2 "unat u"]
    by (simp add: wint_dig3_def WINT_R_cases unat_of_nat s)
  then show "unat u < 1000 \<Longrightarrow> wint_dig3 u = fixed_digits 3 (unat u)" .
  show "wint_dig4 u = fixed_digits 4 (unat u)" if "unat u < 10000"
    using that 3 [of "of_nat (unat u mod 1000)"] fixed_digits_mod [of 3 3 "unat u"]
    by (simp add: wint_dig4_def WINT_R_cases unat_of_nat s)
qed

lemma wint_nat:
  assumes "unat u < 10000"
  shows "(if u < 10 then wint_dig1 u else if u < 100 then wint_dig2 u else if u < 1000 then wint_dig3 u else wint_dig4 u)
    = digits up 10 (unat u)"
proof -
  have c: "u < 10 \<longleftrightarrow> unat u < 10" "u < 100 \<longleftrightarrow> unat u < 100" "u < 1000 \<longleftrightarrow> unat u < 1000"
    by (simp_all add: word_less_nat_alt)
  have d: "unat u < 10 \<Longrightarrow> digits up 10 (unat u) = fixed_digits 1 (unat u)" by (subst digits_dec) simp
  note e = digits_fixed_all [of 1 "unat u"] digits_fixed_all [of 2 "unat u"] digits_fixed_all [of 3 "unat u"]
  consider "unat u < 10" | "10 \<le> unat u" "unat u < 100" | "100 \<le> unat u" "unat u < 1000" | "1000 \<le> unat u" "unat u < 10000"
    using assms by linarith
  then show ?thesis
    by cases (simp_all add: c wint_digs d e numeral_2_eq_2 numeral_3_eq_3 numeral_eq_Suc [of "Num.Bit0 (Num.Bit0 Num.One)"])
qed

lemma wint_unsigned:
  "(if u < 10000 then
      if u < 10 then wint_dig1 u else if u < 100 then wint_dig2 u else if u < 1000 then wint_dig3 u else wint_dig4 u
    else
      let v = u div 10000; u = u - v * 10000
      in (if v < 10000 then
            if v < 10 then wint_dig1 v else if v < 100 then wint_dig2 v else if v < 1000 then wint_dig3 v else wint_dig4 v
          else
            let w = v div 10000; v = v - w * 10000
            in (if w \<ge> 10 then wint_dig2 w else wint_dig1 w) @ wint_dig4 v)
         @ wint_dig4 u) = digits up 10 (unat u)" (is "?l = _")
proof (cases "unat u < 10000")
  case True
  then show ?thesis using wint_nat [OF True] by (simp add: word_less_nat_alt)
next
  case False
  have mod: "unat (x - x div 10000 * 10000) = unat x mod 10000" for x :: u32
  proof -
    have "x - x div 10000 * 10000 = x mod 10000" by (metis add_diff_cancel_left' div_mult_mod_eq)
    then show ?thesis by (simp add: unat_mod_distrib)
  qed
  define v where "v = u div 10000"
  have v: "unat v = unat u div 10000" by (simp add: v_def unat_div_distrib)
  have low: "wint_dig4 (x - x div 10000 * 10000) = fixed_digits 4 (unat x)" for x
    using fixed_digits_mod [of 4 4 "unat x"] by (simp add: wint_digs mod)
  have d: "digits up 10 (unat u) = digits up 10 (unat v) @ fixed_digits 4 (unat u)"
    using digits_fixed [of 4 "unat u"] False by (simp add: v)
  have hi: "(if v < 10000 then
            if v < 10 then wint_dig1 v else if v < 100 then wint_dig2 v else if v < 1000 then wint_dig3 v else wint_dig4 v
          else
            let w = v div 10000; v = v - w * 10000
            in (if w \<ge> 10 then wint_dig2 w else wint_dig1 w) @ wint_dig4 v) = digits up 10 (unat v)"
  proof (cases "unat v < 10000")
    case True
    then show ?thesis using wint_nat [OF True] by (simp add: word_less_nat_alt)
  next
    case f: False
    define w where "w = v div 10000"
    have w: "unat w = unat v div 10000" "unat w < 100" using order.strict_trans [OF unat_bound32 [of u], of "10000000000"] less_mult_imp_div_less [of "unat u" 100 "100000000"] by (simp_all add: w_def v unat_div_distrib flip: div_mult2_eq)
    have "digits up 10 (unat v) = digits up 10 (unat w) @ fixed_digits 4 (unat v)"
      using digits_fixed [of 4 "unat v"] f by (simp add: w)
    moreover have "(if w \<ge> 10 then wint_dig2 w else wint_dig1 w) = digits up 10 (unat w)"
      using wint_nat [of w] w(2) by (simp add: word_less_nat_alt word_le_nat_alt split: if_splits)
    ultimately show ?thesis using f low [of v] by (simp add: word_less_nat_alt w_def [symmetric] Let_def)
  qed
  show ?thesis unfolding d using False low [of u] hi by (simp add: word_less_nat_alt v_def [symmetric] Let_def)
qed

lemma digits_length: "2 \<le> b \<Longrightarrow> 0 < k \<Longrightarrow> n < b ^ k \<Longrightarrow> length (digits up b n) \<le> k"
proof (induction k arbitrary: n)
  case (Suc k)
  show ?case
  proof (cases "n < b")
    case True
    then show ?thesis by (subst digits.simps) simp
  next
    case False
    have "n div b < b ^ k" using Suc.prems by (simp add: less_mult_imp_div_less mult.commute)
    moreover have "0 < k" using False Suc.prems by (cases k) auto
    ultimately have "length (digits up b (n div b)) \<le> k" using Suc.IH Suc.prems(1) by blast
    then show ?thesis using False Suc.prems(1) by (subst digits.simps) simp
  qed
qed simp

text \<open>
  C33. The unrolled integer conversion writes the shortest decimal representation of every 32 bit
  integer, the most negative one included, and at most the 11 bytes that are reserved for it.
\<close>

theorem wint_decimal:
  "lj_strfmt_wint k = (if sint k < 0 then [0x2d] else []) @ digits False 10 (nat \<bar>sint k\<bar>) \<and>
   length (lj_strfmt_wint k) \<le> STRFMT_MAXBUF_INT"
proof -
  have s: "k <s 0 \<longleftrightarrow> sint k < 0" by (simp add: word_sless_alt)
  have u: "unat (if k <s 0 then - k else k) = nat \<bar>sint k\<bar>"
    unfolding abs_word32 unat_eq_nat_uint uint_abs32 ..
  have e: "lj_strfmt_wint k = (if sint k < 0 then [0x2d] else []) @ digits False 10 (nat \<bar>sint k\<bar>)"
    unfolding u [symmetric] lj_strfmt_wint_def s using wint_unsigned [of "- k" False] wint_unsigned [of k False] by (simp add: s)
  have "unat (if k <s 0 then - k else k) < 10 ^ 10" by (rule order.strict_trans [OF unat_bound32]) simp
  then have "nat \<bar>sint k\<bar> < 10 ^ 10" unfolding u .
  then have l: "length (digits False 10 (nat \<bar>sint k\<bar>)) \<le> 10" by (intro digits_length) simp_all
  define D where "D = digits False 10 (nat \<bar>sint k\<bar>)"
  show ?thesis
    using l unfolding e D_def [symmetric] STRFMT_MAXBUF_INT_def by simp
qed

section \<open>Formatted integers\<close>

lemma of_nat_unat64: "of_nat (unat x) = (x::u64)"
  by (simp add: word_unat_eq_iff unat_of_nat)

lemma ucast_unat8: "unat (k::u32) < 256 \<Longrightarrow> (ucast k :: u8) = of_nat (unat k)" "unat (l::u64) < 256 \<Longrightarrow> (ucast l :: u8) = of_nat (unat l)"
  using ucast_of_nat8(1) [of "unat k"] ucast_of_nat8(2) [of "unat l"] by (simp_all add: of_nat_unat32 of_nat_unat64)

lemma fxint_dec32_digits: "fxint_dec32 k q = digits up 10 (unat k) @ q"
proof (induction k q rule: fxint_dec32.induct)
  case (1 k q)
  have d: "(ucast (k mod 10) :: u8) = of_nat (unat k mod 10)"
    using ucast_unat8(1) [of "k mod 10"] by (simp add: unat_mod_distrib)
  have v: "unat (k div 10) = unat k div 10" by (simp add: unat_div_distrib)
  have z: "k div 10 = 0 \<longleftrightarrow> unat k < 10" by (simp add: unat_eq_0 [symmetric] div_eq_0_iff v del: unat_eq_0)
  show ?case
  proof (cases "unat k < 10")
    case True
    then show ?thesis using z by (subst fxint_dec32.simps) (simp add: d digits_dec [of _ "unat k"])
  next
    case False
    then show ?thesis using 1 z by (subst fxint_dec32.simps) (simp add: d digits_dec [of _ "unat k"] v)
  qed
qed

lemma fxint_dec_digits: "fxint_dec k q = digits up 10 (unat k) @ q"
proof (induction k q rule: fxint_dec.induct)
  case (1 k q)
  have d: "(ucast (k mod 10) :: u8) = of_nat (unat k mod 10)"
    using ucast_unat8(2) [of "k mod 10"] by (simp add: unat_mod_distrib)
  have v: "unat (k div 10) = unat k div 10" by (simp add: unat_div_distrib)
  have h: "unat (drop_bit 32 k) = unat k div 2 ^ 32" unfolding unat_drop_bit_eq by (simp add: drop_bit_eq_div)
  have z: "drop_bit 32 k = 0 \<longleftrightarrow> unat k < 2 ^ 32" by (simp add: unat_eq_0 [symmetric] div_eq_0_iff h del: unat_eq_0)
  show ?case
  proof (cases "unat k < 2 ^ 32")
    case True
    then have "unat (ucast k :: u32) = unat k" by (simp add: unsigned_ucast_eq take_bit_eq_mod)
    then show ?thesis using z True by (subst fxint_dec.simps) (simp add: fxint_dec32_digits [where up = up])
  next
    case False
    then have "\<not> unat k < 10" by simp
    then show ?thesis using 1 z False by (subst fxint_dec.simps) (simp add: d digits_dec [of _ "unat k"] v)
  qed
qed

lemma and_mask_unat: "unat (k AND 15) = unat (k::u64) mod 16" "unat (k AND 7) = unat k mod 8"
proof -
  have m: "(15::u64) = mask 4" "(7::u64) = mask 3" by (simp_all add: mask_eq_exp_minus_1)
  show "unat (k AND 15) = unat (k::u64) mod 16" "unat (k AND 7) = unat k mod 8"
    unfolding m take_bit_eq_mask [symmetric] unsigned_take_bit_eq by (simp_all add: take_bit_eq_mod)
qed

lemma drop_unat: "unat (drop_bit n k) = unat (k::u64) div 2 ^ n"
  unfolding unat_drop_bit_eq by (simp add: drop_bit_eq_div)

lemma fxint_hex_digits: "fxint_hex up k q = digits up 16 (unat k) @ q"
proof (induction up k q rule: fxint_hex.induct)
  case (1 up k q)
  have z: "drop_bit 4 k = 0 \<longleftrightarrow> unat k < 16" by (simp add: unat_eq_0 [symmetric] div_eq_0_iff drop_unat del: unat_eq_0)
  show ?case
  proof (cases "unat k < 16")
    case True
    then show ?thesis using z by (subst fxint_hex.simps) (simp add: and_mask_unat digits.simps [of _ _ "unat k"])
  next
    case False
    then show ?thesis using 1 z by (subst fxint_hex.simps) (simp add: and_mask_unat drop_unat digits.simps [of _ _ "unat k"])
  qed
qed

lemma fxint_oct_digits: "fxint_oct k q = digits up 8 (unat k) @ q"
proof (induction k q rule: fxint_oct.induct)
  case (1 k q)
  have d: "(ucast (k AND 7) :: u8) = of_nat (unat k mod 8)"
    using ucast_unat8(2) [of "k AND 7"] by (simp add: and_mask_unat)
  have hd: "hexdig up ! (n mod 8) = 0x30 + of_nat (n mod 8)" for n by (rule hexdig_dec) (rule order.strict_trans [of _ 8], simp_all)
  have z: "drop_bit 3 k = 0 \<longleftrightarrow> unat k < 8" by (simp add: unat_eq_0 [symmetric] div_eq_0_iff drop_unat del: unat_eq_0)
  show ?case
  proof (cases "unat k < 8")
    case True
    then show ?thesis using z hd [of "unat k"] by (subst fxint_oct.simps) (simp add: d digits.simps [of _ _ "unat k"])
  next
    case False
    then show ?thesis using 1 z by (subst fxint_oct.simps) (simp add: d drop_unat hd digits.simps [of _ _ "unat k"])
  qed
qed

text \<open>
  What a format asks for, in natural numbers: the sign or base prefix, the digits with zeros up to
  the precision, and the padding up to the width on the left, on the right or with zeros.
\<close>

definition fxint_spec :: "u32 \<Rightarrow> u64 \<Rightarrow> bytes" where
  "fxint_spec sf k =
     (let w = unat (drop_bit 16 sf AND 255); p = unat (drop_bit 24 sf AND 255);
          flag = (\<lambda>f. sf AND f \<noteq> 0);
          signed = (STRFMT_TYPE sf = STRFMT_INT);
          n = (if signed then nat \<bar>sint k\<bar> else unat k);
          pre = (if n \<noteq> 0 \<and> flag STRFMT_T_HEX \<and> flag STRFMT_F_ALT then [0x30, if flag STRFMT_F_UPPER then 0x58 else 0x78]
                 else if signed \<and> sint k < 0 then [0x2d]
                 else if signed \<and> flag STRFMT_F_PLUS then [0x2b]
                 else if signed \<and> flag STRFMT_F_SPACE then [0x20] else []);
          base = (if flag STRFMT_T_HEX then 16 else if flag STRFMT_T_OCT then 8 else 10);
          alt_oct = (flag STRFMT_T_OCT \<and> flag STRFMT_F_ALT);
          ds = (if n = 0 \<and> p = 1 \<and> \<not> alt_oct then []
                else (if n \<noteq> 0 \<and> alt_oct \<and> base = 8 then [0x30] else []) @ digits (flag STRFMT_F_UPPER) base n);
          body = replicate (p - 1 - length ds) 0x30 @ ds;
          pad = w - (length pre + length body)
      in if flag STRFMT_F_LEFT then pre @ body @ replicate pad 0x20
         else if flag STRFMT_F_ZERO \<and> p = 0 then pre @ replicate pad 0x30 @ body
         else replicate pad 0x20 @ pre @ body)"

lemma flag_bit: "x AND 2 ^ n = (if bit x n then 2 ^ n else (0::u32))"
  by (rule bit_eqI) (auto simp: bit_and_iff bit_exp_iff)

lemma prec_le: "unat (drop_bit 24 sf AND (255::u32)) \<le> 255"
  using unat_and_le [of "drop_bit 24 sf" "255"] by simp

lemma sint_small32: "m < 2 ^ 31 \<Longrightarrow> sint (of_nat m :: u32) = int m"
  using sint_of_int32 [of "int m"] by simp

lemma of_nat_zero: "m < 256 \<Longrightarrow> of_nat m = (0::u32) \<longleftrightarrow> m = 0"
proof
  assume m: "m < 256" and z: "of_nat m = (0::u32)"
  have "unat (of_nat m :: u32) = m" by (rule unat_of_nat32) (rule order.strict_trans [OF m], simp)
  then show "m = 0" unfolding z by simp
qed simp

lemma prec_nat: "STRFMT_PREC sf = (case unat (drop_bit 24 sf AND (255::u32)) of 0 \<Rightarrow> - 1 | Suc p \<Rightarrow> of_nat p)"
proof -
  define x where "x = drop_bit 24 sf AND (255::u32)"
  have e: "STRFMT_PREC sf = x - 1" by (simp add: STRFMT_PREC_def STRFMT_SH_PREC_def x_def)
  have "x - 1 = (case unat x of 0 \<Rightarrow> - 1 | Suc p \<Rightarrow> of_nat p)"
  proof (cases "unat x")
    case (Suc p)
    then have "x = of_nat (Suc p)" by (metis of_nat_unat32)
    then show ?thesis using Suc by simp
  qed (simp add: unat_eq_0)
  then show ?thesis unfolding e x_def .
qed

lemma fxint_prec:
  fixes sf :: u32
  assumes P: "P = unat (drop_bit 24 sf AND 255)"
  shows "0 \<le>s STRFMT_PREC sf \<longleftrightarrow> P \<noteq> 0" "STRFMT_PREC sf \<noteq> 0 \<longleftrightarrow> P \<noteq> 1"
    "l \<le> 1000 \<Longrightarrow> unat (if STRFMT_PREC sf \<le>s of_nat l then of_nat l else STRFMT_PREC sf) = max (P - 1) l"
proof -
  have le: "P \<le> 255" unfolding P by (rule prec_le)
  have "(0 \<le>s STRFMT_PREC sf \<longleftrightarrow> P \<noteq> 0) \<and> (STRFMT_PREC sf \<noteq> 0 \<longleftrightarrow> P \<noteq> 1) \<and>
    (l \<le> 1000 \<longrightarrow> unat (if STRFMT_PREC sf \<le>s of_nat l then of_nat l else STRFMT_PREC sf) = max (P - 1) l)"
  proof (cases P)
    case 0
    then have p: "STRFMT_PREC sf = - 1" using prec_nat [of sf] P by simp
    have "STRFMT_PREC sf \<le>s of_nat l" if "l \<le> 1000" using that sint_small32 [of l] by (simp add: p word_sle_eq)
    then show ?thesis using 0 unat_of_nat32 [of l] by (simp add: p word_sle_eq)
  next
    case (Suc m)
    then have p: "STRFMT_PREC sf = of_nat m" using prec_nat [of sf] P by simp
    have m: "sint (of_nat m :: u32) = int m" "unat (of_nat m :: u32) = m" "of_nat m = (0::u32) \<longleftrightarrow> m = 0"
      using sint_small32 [of m] unat_of_nat32 [of m] of_nat_zero [of m] le Suc by simp_all
    have l: "sint (of_nat l :: u32) = int l" "unat (of_nat l :: u32) = l" if "l \<le> 1000"
      using that sint_small32 [of l] unat_of_nat32 [of l] by simp_all
    show ?thesis unfolding p using Suc m l by (simp add: word_sle_eq max_def)
  qed
  then show "0 \<le>s STRFMT_PREC sf \<longleftrightarrow> P \<noteq> 0" "STRFMT_PREC sf \<noteq> 0 \<longleftrightarrow> P \<noteq> 1"
    "l \<le> 1000 \<Longrightarrow> unat (if STRFMT_PREC sf \<le>s of_nat l then of_nat l else STRFMT_PREC sf) = max (P - 1) l"
    by blast+
qed

lemma fxint_sign_spec:
  assumes "fxint_sign sf k = (k', prefix)"
  shows "unat k' = (if STRFMT_TYPE sf = STRFMT_INT then nat \<bar>sint k\<bar> else unat k)"
    "prefix = 0 \<or> prefix = 256 + 0x2d \<or> prefix = 256 + 0x2b \<or> prefix = 256 + 0x20"
    "(if prefix = 0 then [] else [ucast prefix]) = (if STRFMT_TYPE sf = STRFMT_INT \<and> sint k < 0 then [0x2d]
       else if STRFMT_TYPE sf = STRFMT_INT \<and> sf AND STRFMT_F_PLUS \<noteq> 0 then [0x2b]
       else if STRFMT_TYPE sf = STRFMT_INT \<and> sf AND STRFMT_F_SPACE \<noteq> 0 then [0x20] else ([] :: bytes))"
proof -
  have s: "k <s 0 \<longleftrightarrow> sint k < 0" by (simp add: word_sless_alt)
  have n: "unat (- k) = nat \<bar>sint k\<bar>" if "sint k < 0"
  proof -
    have "- k = word_of_int (- sint k)" by simp
    moreover have "uint (word_of_int (- sint k) :: u64) = - sint k"
      using sint64_bounds [of k] that unfolding uint_word_of_int by simp
    ultimately have "uint (- k) = - sint k" by metis
    then show ?thesis using that by (simp add: unat_eq_nat_uint)
  qed
  have p: "unat k = nat \<bar>sint k\<bar>" if "\<not> sint k < 0"
  proof -
    have "k = word_of_int (sint k)" by simp
    moreover have "uint (word_of_int (sint k) :: u64) = sint k"
      using sint64_bounds [of k] that unfolding uint_word_of_int by simp
    ultimately have "uint k = sint k" by metis
    then show ?thesis using that by (simp add: unat_eq_nat_uint)
  qed
  show "unat k' = (if STRFMT_TYPE sf = STRFMT_INT then nat \<bar>sint k\<bar> else unat k)"
    using assms n p by (auto simp: fxint_sign_def s split: if_splits)
  show "prefix = 0 \<or> prefix = 256 + 0x2d \<or> prefix = 256 + 0x2b \<or> prefix = 256 + 0x20"
    using assms by (auto simp: fxint_sign_def split: if_splits)
  show "(if prefix = 0 then [] else [ucast prefix]) = (if STRFMT_TYPE sf = STRFMT_INT \<and> sint k < 0 then [0x2d]
       else if STRFMT_TYPE sf = STRFMT_INT \<and> sf AND STRFMT_F_PLUS \<noteq> 0 then [0x2b]
       else if STRFMT_TYPE sf = STRFMT_INT \<and> sf AND STRFMT_F_SPACE \<noteq> 0 then [0x20] else ([] :: bytes))"
    using assms by (auto simp: fxint_sign_def s split: if_splits)
qed

lemma zero_flag: "m AND STRFMT_F_ZERO = 0 \<Longrightarrow> (sf AND NOT STRFMT_F_ZERO) AND m = sf AND m"
proof -
  assume z: "m AND STRFMT_F_ZERO = 0"
  have "NOT STRFMT_F_ZERO AND m = m"
  proof (rule bit_eqI)
    fix n
    have "\<not> (bit m n \<and> bit STRFMT_F_ZERO n)" using arg_cong [OF z, of "\<lambda>x. bit x n"] by (simp add: bit_and_iff)
    then show "bit (NOT STRFMT_F_ZERO AND m) n = bit m n"
      using bit_imp_le_length [of m n] by (auto simp: bit_and_iff bit_not_iff)
  qed
  then show ?thesis by (simp add: and.assoc)
qed

lemma zero_width: "drop_bit 16 (sf AND NOT STRFMT_F_ZERO) AND 255 = drop_bit 16 sf AND 255"
proof -
  have "drop_bit 16 (NOT STRFMT_F_ZERO) AND 255 = 255" by code_simp
  then show ?thesis by (simp only: drop_bit_and and.assoc)
qed

lemma left_zero:
  fixes sf :: u32
  defines "lz \<equiv> sf AND (STRFMT_F_LEFT OR STRFMT_F_ZERO)"
  shows "lz = 0 \<longleftrightarrow> sf AND STRFMT_F_LEFT = 0 \<and> sf AND STRFMT_F_ZERO = 0"
    "lz = STRFMT_F_ZERO \<longleftrightarrow> sf AND STRFMT_F_LEFT = 0 \<and> sf AND STRFMT_F_ZERO \<noteq> 0"
proof -
  have "lz = (sf AND STRFMT_F_LEFT) OR (sf AND STRFMT_F_ZERO)" unfolding lz_def by (rule bit.conj_disj_distrib)
  moreover have "sf AND STRFMT_F_LEFT = 0 \<or> sf AND STRFMT_F_LEFT = STRFMT_F_LEFT"
    "sf AND STRFMT_F_ZERO = 0 \<or> sf AND STRFMT_F_ZERO = STRFMT_F_ZERO"
    using flag_bit [of sf 8] flag_bit [of sf 10] by (simp_all add: strfmt_flags split: if_splits)
  moreover have "STRFMT_F_LEFT \<noteq> 0" "STRFMT_F_ZERO \<noteq> 0" "STRFMT_F_LEFT OR STRFMT_F_ZERO \<noteq> 0"
    "STRFMT_F_LEFT OR STRFMT_F_ZERO \<noteq> STRFMT_F_ZERO" "STRFMT_F_LEFT \<noteq> STRFMT_F_ZERO"
    by (simp_all add: strfmt_flags)
  ultimately show "lz = 0 \<longleftrightarrow> sf AND STRFMT_F_LEFT = 0 \<and> sf AND STRFMT_F_ZERO = 0"
    "lz = STRFMT_F_ZERO \<longleftrightarrow> sf AND STRFMT_F_LEFT = 0 \<and> sf AND STRFMT_F_ZERO \<noteq> 0"
    by auto
qed

lemma oct_alt: "sf AND (STRFMT_T_OCT OR STRFMT_F_ALT) = STRFMT_T_OCT OR STRFMT_F_ALT \<longleftrightarrow>
    sf AND STRFMT_T_OCT \<noteq> 0 \<and> sf AND STRFMT_F_ALT \<noteq> 0"
  and hex_oct: "sf AND (STRFMT_T_HEX OR STRFMT_T_OCT) = 0 \<longleftrightarrow> sf AND STRFMT_T_HEX = 0 \<and> sf AND STRFMT_T_OCT = 0"
proof -
  have f: "sf AND STRFMT_T_HEX = 0 \<or> sf AND STRFMT_T_HEX = STRFMT_T_HEX" "sf AND STRFMT_T_OCT = 0 \<or> sf AND STRFMT_T_OCT = STRFMT_T_OCT"
    "sf AND STRFMT_F_ALT = 0 \<or> sf AND STRFMT_F_ALT = STRFMT_F_ALT"
    using flag_bit [of sf 4] flag_bit [of sf 5] flag_bit [of sf 12] by (simp_all add: strfmt_flags split: if_splits)
  have n: "STRFMT_T_OCT OR STRFMT_F_ALT \<noteq> 0" "STRFMT_T_OCT OR STRFMT_F_ALT \<noteq> STRFMT_T_OCT" "STRFMT_T_OCT OR STRFMT_F_ALT \<noteq> STRFMT_F_ALT"
    "STRFMT_T_HEX OR STRFMT_T_OCT \<noteq> 0" "STRFMT_T_HEX \<noteq> 0" "STRFMT_T_OCT \<noteq> 0" "STRFMT_F_ALT \<noteq> 0"
    by (simp_all add: strfmt_flags)
  show "sf AND (STRFMT_T_OCT OR STRFMT_F_ALT) = STRFMT_T_OCT OR STRFMT_F_ALT \<longleftrightarrow>
    sf AND STRFMT_T_OCT \<noteq> 0 \<and> sf AND STRFMT_F_ALT \<noteq> 0"
    unfolding bit.conj_disj_distrib using f n by auto
  show "sf AND (STRFMT_T_HEX OR STRFMT_T_OCT) = 0 \<longleftrightarrow> sf AND STRFMT_T_HEX = 0 \<and> sf AND STRFMT_T_OCT = 0"
    unfolding bit.conj_disj_distrib using f n by auto
qed

lemma digits64: "length (digits up 10 (unat (k::u64))) \<le> 20" "length (digits up 16 (unat k)) \<le> 16" "length (digits up 8 (unat k)) \<le> 22"
proof -
  have "unat k < 10 ^ 20" "unat k < 16 ^ 16" "unat k < 8 ^ 22"
    by (rule order.strict_trans2 [OF unat_bound64]; simp)+
  then show "length (digits up 10 (unat k)) \<le> 20" "length (digits up 16 (unat k)) \<le> 16" "length (digits up 8 (unat k)) \<le> 22"
    by (simp_all add: digits_length)
qed

lemma fxint_digits_spec:
  assumes "fxint_digits sf prec k prefix = (q, prefix')"
  shows "q = (if k = 0 \<and> \<not> (prec \<noteq> 0 \<or> sf AND STRFMT_T_OCT \<noteq> 0 \<and> sf AND STRFMT_F_ALT \<noteq> 0) then []
      else (if k \<noteq> 0 \<and> sf AND STRFMT_T_HEX = 0 \<and> sf AND STRFMT_T_OCT \<noteq> 0 \<and> sf AND STRFMT_F_ALT \<noteq> 0 then [0x30] else [])
        @ digits (sf AND STRFMT_F_UPPER \<noteq> 0)
            (if sf AND STRFMT_T_HEX \<noteq> 0 then 16 else if sf AND STRFMT_T_OCT \<noteq> 0 then 8 else 10) (unat k))" (is "q = ?q")
    "prefix' = (if k \<noteq> 0 \<and> sf AND STRFMT_T_HEX \<noteq> 0 \<and> sf AND STRFMT_F_ALT \<noteq> 0
      then 512 + (if sf AND STRFMT_F_UPPER \<noteq> 0 then 0x58 else 0x78) else prefix)"
    "length q \<le> STRFMT_MAXBUF_XINT"
proof -
  have z: "digits up b 0 = [0x30]" if "2 \<le> b" for up b using that by (subst digits.simps) (simp add: hexdig_def)
  show q: "q = ?q"
    using assms unfolding fxint_digits_def oct_alt hex_oct
    by (auto simp: z fxint_dec_digits [where up = "sf AND STRFMT_F_UPPER \<noteq> 0"] fxint_oct_digits [where up = "sf AND STRFMT_F_UPPER \<noteq> 0"]
        fxint_hex_digits split: if_splits)
  show "prefix' = (if k \<noteq> 0 \<and> sf AND STRFMT_T_HEX \<noteq> 0 \<and> sf AND STRFMT_F_ALT \<noteq> 0
      then 512 + (if sf AND STRFMT_F_UPPER \<noteq> 0 then 0x58 else 0x78) else prefix)"
    using assms unfolding fxint_digits_def oct_alt hex_oct by (auto split: if_splits)
  note d = digits64(1) [of "sf AND STRFMT_F_UPPER \<noteq> 0" k] digits64(2) [of "sf AND STRFMT_F_UPPER \<noteq> 0" k] digits64(3) [of "sf AND STRFMT_F_UPPER \<noteq> 0" k]
  show "length q \<le> STRFMT_MAXBUF_XINT"
    unfolding q STRFMT_MAXBUF_XINT_def using d by (simp add: z split: if_split)
qed

lemma pad_layout:
  fixes w m :: nat and W pprec :: u32
  assumes "unat W = w" "unat pprec = m"
  shows "unat (if W > pprec then W else pprec) = max w m"
  using assms by (auto simp: word_less_nat_alt max_def)

definition prefix_text :: "u32 \<Rightarrow> bytes" where
  "prefix_text p = (if p \<noteq> 0 then (if 0x58 \<le>s (ucast p :: u8) then [0x30] else []) @ [ucast p] else [])"

lemma prefix_texts:
  "prefix_text 0 = []" "prefix_text 301 = [0x2d]" "prefix_text 299 = [0x2b]" "prefix_text 288 = [0x20]"
  "prefix_text 600 = [0x30, 0x58]" "prefix_text 632 = [0x30, 0x78]"
  "unat (drop_bit 8 (301::u32)) = 1" "unat (drop_bit 8 (299::u32)) = 1" "unat (drop_bit 8 (288::u32)) = 1"
  "unat (drop_bit 8 (600::u32)) = 2" "unat (drop_bit 8 (632::u32)) = 2"
  by code_simp+

text \<open>
  C34. Formatting an integer: for every format, value and precision the conversion appends exactly the
  text the format asks for, or reports that memory is exhausted. The space requested before the text
  is written is its length, and the digits fit the fixed-size buffer they are collected in.
\<close>

theorem putfxint_layout:
  assumes "sbuf_ok sb"
  shows "puts sb (fxint_spec sf k) (lj_strfmt_putfxint sb sf k) \<and>
    length (fst (fxint_digits sf (STRFMT_PREC sf) (fst (fxint_sign sf k)) 0)) \<le> STRFMT_MAXBUF_XINT"
proof
  obtain k1 pf where s: "fxint_sign sf k = (k1, pf)" by (cases "fxint_sign sf k")
  note S = fxint_sign_spec [OF s]
  define P where "P = unat (drop_bit 24 sf AND 255)"
  define W where "W = unat (drop_bit 16 sf AND 255)"
  define sf1 where "sf1 = (if 0 \<le>s STRFMT_PREC sf then sf AND NOT STRFMT_F_ZERO else sf)"
  obtain q pf1 where d: "fxint_digits sf1 (STRFMT_PREC sf) k1 pf = (q, pf1)" by (cases "fxint_digits sf1 (STRFMT_PREC sf) k1 pf")
  note D = fxint_digits_spec [OF d]
  show "length (fst (fxint_digits sf (STRFMT_PREC sf) (fst (fxint_sign sf k)) 0)) \<le> STRFMT_MAXBUF_XINT"
    using fxint_digits_spec(3) [of sf "STRFMT_PREC sf" k1 0] unfolding s by (metis fst_conv prod.collapse)
  have flags: "sf1 AND STRFMT_T_OCT = sf AND STRFMT_T_OCT" "sf1 AND STRFMT_T_HEX = sf AND STRFMT_T_HEX"
    "sf1 AND STRFMT_F_ALT = sf AND STRFMT_F_ALT" "sf1 AND STRFMT_F_UPPER = sf AND STRFMT_F_UPPER"
    "sf1 AND STRFMT_F_LEFT = sf AND STRFMT_F_LEFT"
  proof -
    have "STRFMT_T_OCT AND STRFMT_F_ZERO = 0" "STRFMT_T_HEX AND STRFMT_F_ZERO = 0" "STRFMT_F_ALT AND STRFMT_F_ZERO = 0"
      "STRFMT_F_UPPER AND STRFMT_F_ZERO = 0" "STRFMT_F_LEFT AND STRFMT_F_ZERO = 0"
      by (simp_all add: strfmt_flags)
    then show "sf1 AND STRFMT_T_OCT = sf AND STRFMT_T_OCT" "sf1 AND STRFMT_T_HEX = sf AND STRFMT_T_HEX"
      "sf1 AND STRFMT_F_ALT = sf AND STRFMT_F_ALT" "sf1 AND STRFMT_F_UPPER = sf AND STRFMT_F_UPPER"
      "sf1 AND STRFMT_F_LEFT = sf AND STRFMT_F_LEFT"
      by (simp_all add: sf1_def zero_flag)
  qed
  have zero: "sf1 AND STRFMT_F_ZERO \<noteq> 0 \<longleftrightarrow> sf AND STRFMT_F_ZERO \<noteq> 0 \<and> P = 0"
    using fxint_prec(1) [OF P_def] by (simp add: sf1_def and.assoc)
  have L: "length q \<le> 23" using D(3) by (simp add: STRFMT_MAXBUF_XINT_def)
  define prec where "prec = (if STRFMT_PREC sf \<le>s of_nat (length q) then of_nat (length q) else STRFMT_PREC sf)"
  have prec: "unat prec = max (P - 1) (length q)" using fxint_prec(3) [OF P_def, of "length q"] L by (simp add: prec_def)
  define pre where "pre = prefix_text pf1"
  have pre: "unat (drop_bit 8 pf1) = length pre" "length pre \<le> 2"
    using S(2) unfolding D(2) pre_def by (auto simp: prefix_texts split: if_split)
  have pre_spec: "pre = (if k1 \<noteq> 0 \<and> sf AND STRFMT_T_HEX \<noteq> 0 \<and> sf AND STRFMT_F_ALT \<noteq> 0
      then [0x30, if sf AND STRFMT_F_UPPER \<noteq> 0 then 0x58 else 0x78] else if pf = 0 then [] else [ucast pf])"
    using S(2) unfolding D(2) pre_def flags by (auto simp: prefix_texts split: if_split)
  have P255: "P \<le> 255" unfolding P_def by (rule prec_le)
  have pp: "unat (prec + drop_bit 8 pf1) = max (P - 1) (length q) + length pre"
    using prec pre L P255 by (simp add: unat_word_ariths)
  have w: "unat (STRFMT_WIDTH sf1) = W"
    unfolding sf1_def using zero_width [of sf] by (simp add: STRFMT_WIDTH_def STRFMT_SH_WIDTH_def W_def)
  have len: "unat (of_nat (length q) :: u32) = length q" using L by (simp add: unat_of_nat)
  define pad where "pad = W - (max (P - 1) (length q) + length pre)"
  define tx where "tx = (if sf1 AND (STRFMT_F_LEFT OR STRFMT_F_ZERO) = 0 then replicate pad 0x20 else []) @ pre
      @ (if sf1 AND (STRFMT_F_LEFT OR STRFMT_F_ZERO) = STRFMT_F_ZERO then replicate pad 0x30 else [])
      @ replicate (max (P - 1) (length q) - length q) 0x30 @ q @ (if sf1 AND STRFMT_F_LEFT \<noteq> 0 then replicate pad (0x20::u8) else [])"
  have run: "lj_strfmt_putfxint sb sf k = map_sum id (\<lambda>sb. lj_buf_wmem sb tx) (lj_buf_more sb (max W (max (P - 1) (length q) + length pre)))"
    unfolding lj_strfmt_putfxint_def s Let_def prod.case sf1_def [symmetric] d prec_def [symmetric] pad_layout [OF w pp] pp w prec len
      prefix_text_def [symmetric] pre_def [symmetric] pad_def [symmetric] tx_def ..
  have tl: "length tx = max W (max (P - 1) (length q) + length pre)"
    unfolding tx_def pad_def left_zero by (simp split: if_split) (simp add: max_def split: nat_diff_split)
  define n where "n = (if STRFMT_TYPE sf = STRFMT_INT then nat \<bar>sint k\<bar> else unat k)"
  have n: "unat k1 = n" "k1 = 0 \<longleftrightarrow> n = 0" using S(1) unfolding n_def by (simp_all add: unat_eq_0 [symmetric])
  define ds where "ds = (if n = 0 \<and> P = 1 \<and> \<not> (sf AND STRFMT_T_OCT \<noteq> 0 \<and> sf AND STRFMT_F_ALT \<noteq> 0) then []
      else (if n \<noteq> 0 \<and> (sf AND STRFMT_T_OCT \<noteq> 0 \<and> sf AND STRFMT_F_ALT \<noteq> 0) \<and>
          (if sf AND STRFMT_T_HEX \<noteq> 0 then 16 else if sf AND STRFMT_T_OCT \<noteq> 0 then 8 else 10) = (8::nat) then [0x30] else [])
        @ digits (sf AND STRFMT_F_UPPER \<noteq> 0)
            (if sf AND STRFMT_T_HEX \<noteq> 0 then 16 else if sf AND STRFMT_T_OCT \<noteq> 0 then 8 else 10) n)"
  have q: "q = ds"
    unfolding D(1) flags n fxint_prec(2) [OF P_def] ds_def by (auto split: if_split)
  define bd where "bd = replicate (P - 1 - length ds) 0x30 @ ds"
  have bd: "max (P - 1) (length q) = length bd" "\<And>x. replicate (length bd - length q) 0x30 @ q @ x = bd @ x"
    "replicate (length bd - length q) 0x30 @ q = bd"
    by (auto simp: q bd_def)
  have spec: "fxint_spec sf k = (let body = replicate (P - 1 - length ds) 0x30 @ ds; pad = W - (length pre + length body)
      in if sf AND STRFMT_F_LEFT \<noteq> 0 then pre @ body @ replicate pad 0x20
         else if sf AND STRFMT_F_ZERO \<noteq> 0 \<and> P = 0 then pre @ replicate pad 0x30 @ body
         else replicate pad 0x20 @ pre @ body)"
    unfolding fxint_spec_def pre_spec n(2) S(3) Let_def P_def [symmetric] W_def [symmetric] n_def [symmetric] ds_def [symmetric] ..
  have body: "tx = fxint_spec sf k"
    unfolding spec Let_def bd_def [symmetric] tx_def bd pad_def left_zero flags
    using zero bd(3) by (cases "sf AND STRFMT_F_LEFT = 0"; cases "sf1 AND STRFMT_F_ZERO = 0") (auto simp: add.commute)
  show "puts sb (fxint_spec sf k) (lj_strfmt_putfxint sb sf k)"
    unfolding run body [symmetric] tl [symmetric] by (rule puts_more [OF assms])
qed

section \<open>The parser of format strings\<close>

lemma fmtc_end: "length f \<le> p \<Longrightarrow> fmtc f p = 0"
  by (simp add: fmtc_def)

lemma fmtc_inside: "fmtc f p \<noteq> 0 \<Longrightarrow> p < length f"
  by (auto simp: fmtc_def split: if_splits)

lemma fmt_flags_inside: "fmt_flags f p sf = (p', sf') \<Longrightarrow> p \<le> length f \<Longrightarrow> p \<le> p' \<and> p' \<le> length f"
proof (induction f p sf arbitrary: p' sf' rule: fmt_flags.induct)
  case (1 f p sf)
  have c: "fmtc f p \<noteq> 0 \<Longrightarrow> p + 1 \<le> length f" using fmtc_inside [of f p] by simp
  show ?case
    using "1.prems" "1.IH" [OF refl] c
    by (subst (asm) fmt_flags.simps) (auto simp: Let_def split: if_splits)
qed

lemma isdigit_inside: "fmt_isdigit (fmtc f p) \<Longrightarrow> p < length f"
  by (rule fmtc_inside) (auto simp: fmt_isdigit_def)

lemma fmt_num_inside: "fmt_num f p = (p', n) \<Longrightarrow> p \<le> length f \<Longrightarrow> p \<le> p' \<and> p' \<le> length f"
  using isdigit_inside [of f p] isdigit_inside [of f "p + 1"] by (auto simp: fmt_num_def Let_def split: if_splits)

lemma fmt_width_inside: "fmt_width f p sf = (p', sf') \<Longrightarrow> p \<le> length f \<Longrightarrow> p \<le> p' \<and> p' \<le> length f"
  using fmt_num_inside [of f p] by (auto simp: fmt_width_def split: if_splits prod.splits)

lemma fmt_prec_inside: "fmt_prec f p sf = (p', sf') \<Longrightarrow> p \<le> length f \<Longrightarrow> p \<le> p' \<and> p' \<le> length f"
  using fmt_num_inside [of f "p + 1"] fmtc_inside [of f p] by (fastforce simp: fmt_prec_def split: if_splits prod.splits)

lemma or_sub: "y OR s = v \<Longrightarrow> s AND v = (s :: u32)"
  by (metis word_ao_absorbs(3) word_bw_comms(1) word_bw_comms(2))

lemma strfmt_map_convs: "s \<in> set strfmt_map \<Longrightarrow> s \<noteq> 0 \<Longrightarrow> y OR s \<noteq> STRFMT_EOF \<and> y OR s \<noteq> STRFMT_ERR \<and> y OR s \<noteq> STRFMT_LIT"
  using or_sub [of y s STRFMT_EOF] or_sub [of y s STRFMT_ERR] or_sub [of y s STRFMT_LIT]
  by (auto simp: strfmt_map_def strfmt_convs strfmt_types strfmt_flags)

lemma fmt_spec_result:
  assumes "fmt_spec f fs p = (sf, fs')" "p < length f" "fs_str fs = p"
  shows "fs_str fs' = p \<and> p < fs_p fs' \<and> fs_p fs' \<le> length f \<and> sf \<noteq> STRFMT_EOF \<and> sf \<noteq> STRFMT_LIT \<and>
    (sf = STRFMT_ERR \<longrightarrow> fs_p fs' = length f \<and> 0 < fs_len fs' \<and> p + fs_len fs' \<le> length f)"
proof -
  obtain p1 s1 where 1: "fmt_flags f (p + 1) 0 = (p1, s1)" by (cases "fmt_flags f (p + 1) 0")
  obtain p2 s2 where 2: "fmt_width f p1 s1 = (p2, s2)" by (cases "fmt_width f p1 s1")
  obtain p3 s3 where 3: "fmt_prec f p2 s2 = (p3, s3)" by (cases "fmt_prec f p2 s2")
  have le: "p + 1 \<le> p1" "p1 \<le> p2" "p2 \<le> p3" "p3 \<le> length f"
    using fmt_flags_inside [OF 1] fmt_width_inside [OF 2] fmt_prec_inside [OF 3] assms(2) by auto
  define c :: u32 where "c = ucast (fmtc f p3) - 0x41"
  define sx where "sx = (if c \<le> 0x78 - 0x41 then strfmt_map ! unat c else 0)"
  define pe where "pe = (if 32 \<le> fmtc f p3 then p3 + 1 else p3)"
  have r: "(sf, fs') = (if sx \<noteq> 0 then (s3 OR sx OR (if c AND 0x20 \<noteq> 0 then 0 else STRFMT_F_UPPER), fs\<lparr>fs_p := p3 + 1\<rparr>)
      else (STRFMT_ERR, fs\<lparr>fs_p := length f, fs_len := pe - fs_str fs\<rparr>))"
    unfolding assms(1) [symmetric] fmt_spec_def 1 2 3 Let_def prod.case c_def sx_def pe_def ..
  show ?thesis
  proof (cases "sx = 0")
    case True
    have "32 \<le> fmtc f p3 \<Longrightarrow> fmtc f p3 \<noteq> 0" by auto
    then have "pe \<le> length f" using le fmtc_inside [of f p3] by (auto simp: pe_def)
    moreover have "p < pe" using le by (simp add: pe_def)
    ultimately show ?thesis using r True assms by (simp add: strfmt_types)
  next
    case False
    then have c: "c \<le> 0x37" by (auto simp: sx_def split: if_splits)
    have "fmtc f p3 \<noteq> 0" using c by (auto simp: c_def)
    then have "p3 < length f" by (rule fmtc_inside)
    moreover have "sx \<in> set strfmt_map"
      using c by (simp add: sx_def) (rule nth_mem, simp add: strfmt_map_def word_le_nat_alt)
    ultimately show ?thesis
      using r False assms(3) le strfmt_map_convs [of sx "s3 OR (if c AND 0x20 \<noteq> 0 then 0 else STRFMT_F_UPPER)"]
      by (auto simp: ac_simps)
  qed
qed

lemma fmt_scan_eqs:
  "p < length f \<Longrightarrow> fmtc f p = 0x25 \<Longrightarrow> fmtc f (p + 1) = 0x25 \<Longrightarrow> fmt_scan f fs p = fmt_lit fs (p + 1) (p + 2)"
  "p < length f \<Longrightarrow> fmtc f p = 0x25 \<Longrightarrow> fmtc f (p + 1) \<noteq> 0x25 \<Longrightarrow> p \<noteq> fs_str fs \<Longrightarrow> fmt_scan f fs p = fmt_lit fs p p"
  "p < length f \<Longrightarrow> fmtc f p = 0x25 \<Longrightarrow> fmtc f (p + 1) \<noteq> 0x25 \<Longrightarrow> p = fs_str fs \<Longrightarrow> fmt_scan f fs p = fmt_spec f fs p"
  "p < length f \<Longrightarrow> fmtc f p \<noteq> 0x25 \<Longrightarrow> fmt_scan f fs p = fmt_scan f fs (p + 1)"
  "\<not> p < length f \<Longrightarrow> fmt_scan f fs p = fmt_lit fs p p"
  by (subst fmt_scan.simps, simp only: if_True if_False simp_thms)+

lemma fmt_scan_result:
  assumes "fmt_scan f fs p = (sf, fs')" "fs_str fs \<le> p" "p \<le> length f"
  shows "fs_str fs' = fs_str fs \<and> p \<le> fs_p fs' \<and> fs_p fs' \<le> length f \<and>
    (sf = STRFMT_EOF \<longleftrightarrow> fs_str fs = length f) \<and> (sf \<noteq> STRFMT_EOF \<longrightarrow> fs_str fs < fs_p fs') \<and>
    (sf = STRFMT_LIT \<longrightarrow> 0 < fs_len fs' \<and> fs_str fs + fs_len fs' \<le> fs_p fs') \<and>
    (sf = STRFMT_ERR \<longrightarrow> fs_p fs' = length f \<and> 0 < fs_len fs' \<and> fs_str fs + fs_len fs' \<le> length f)"
  using assms
proof (induction f fs p rule: fmt_scan.induct)
  case (1 f fs p)
  have lit: ?case if "(sf, fs') = fmt_lit fs q n" "fs_str fs \<le> q" "q \<le> n" "p \<le> n" "n \<le> length f"
    "q = fs_str fs \<longrightarrow> fs_str fs = length f" for q n
    using that by (auto simp: fmt_lit_def Let_def strfmt_types split: if_splits)
  consider (esc) "p < length f" "fmtc f p = 0x25" "fmtc f (p + 1) = 0x25"
    | (stop) "p < length f" "fmtc f p = 0x25" "fmtc f (p + 1) \<noteq> 0x25" "p \<noteq> fs_str fs"
    | (spec) "p < length f" "fmtc f p = 0x25" "fmtc f (p + 1) \<noteq> 0x25" "p = fs_str fs"
    | (step) "p < length f" "fmtc f p \<noteq> 0x25" | (fin) "p = length f"
    using "1.prems" by linarith
  then show ?case
  proof cases
    case esc
    then have "p + 1 < length f" using fmtc_inside [of f "p + 1"] by simp
    then show ?thesis using lit [of "p + 1" "p + 2"] "1.prems"(1,2) unfolding fmt_scan_eqs(1) [OF esc] by simp
  next
    case stop
    then show ?thesis using lit [of p p] "1.prems" unfolding fmt_scan_eqs(2) [OF stop] by simp
  next
    case spec
    note r = fmt_spec_result [OF "1.prems"(1) [unfolded fmt_scan_eqs(3) [OF spec]] spec(1) spec(4) [symmetric]]
    have "fs_str fs \<noteq> length f" using spec(1,4) by simp
    then show ?thesis using r spec(4) by auto
  next
    case step
    have "p + 1 \<le> length f" "fs_str fs \<le> p + 1" using step(1) "1.prems"(2) by simp_all
    from "1.IH" [OF step "1.prems"(1) [unfolded fmt_scan_eqs(4) [OF step]] this(2,1)] show ?thesis by linarith
  next
    case fin
    then have "\<not> p < length f" by simp
    then show ?thesis using lit [of p p] "1.prems" fin unfolding fmt_scan_eqs(5) [OF \<open>\<not> p < length f\<close>] by simp
  qed
qed

section \<open>Printed specifications\<close>

lemma fmtc_drop: "drop p f = c # r \<Longrightarrow> fmtc f p = c" "drop p f = c # r \<Longrightarrow> drop (p + 1) f = r"
proof -
  assume d: "drop p f = c # r"
  then have "p < length f" by (metis drop_all list.distinct(1) not_less)
  then show "fmtc f p = c" using d nth_via_drop [OF d] by (simp add: fmtc_def)
  show "drop (p + 1) f = r" using d by (metis Suc_eq_plus1 drop_Suc list.sel(3) tl_drop)
qed

definition fmt_flag :: "u8 \<Rightarrow> u32" where
  "fmt_flag c = (if c = 0x2d then STRFMT_F_LEFT else if c = 0x2b then STRFMT_F_PLUS else if c = 0x30 then STRFMT_F_ZERO
     else if c = 0x20 then STRFMT_F_SPACE else STRFMT_F_ALT)"

definition flag_chars :: "u8 set" where "flag_chars = {0x2d, 0x2b, 0x30, 0x20, 0x23}"

definition two_digits :: "nat \<Rightarrow> bytes" where
  "two_digits n = (if n < 10 then [0x30 + of_nat n] else [0x30 + of_nat (n div 10), 0x30 + of_nat (n mod 10)])"

definition print_fmt :: "bytes \<Rightarrow> nat \<Rightarrow> nat option \<Rightarrow> u8 \<Rightarrow> bytes" where
  "print_fmt flags w prec c =
     0x25 # flags @ (if w = 0 then [] else two_digits w) @ (case prec of None \<Rightarrow> [] | Some p \<Rightarrow> 0x2e # two_digits p) @ [c]"

definition conv_chars :: "u8 set" where
  "conv_chars = set [0x41, 0x45, 0x46, 0x47, 0x58, 0x61, 0x63, 0x64, 0x65, 0x66, 0x67, 0x69, 0x6f, 0x70, 0x71, 0x73, 0x75, 0x78]"

text \<open>The conversions by their letter, with the type, sub-type and base each one stands for.\<close>

definition conv_table :: "(char \<times> u32) list" where
  "conv_table =
    [(CHR ''d'', STRFMT_INT), (CHR ''i'', STRFMT_INT),
     (CHR ''u'', STRFMT_UINT), (CHR ''x'', STRFMT_UINT OR STRFMT_T_HEX), (CHR ''o'', STRFMT_UINT OR STRFMT_T_OCT),
     (CHR ''X'', STRFMT_UINT OR STRFMT_T_HEX),
     (CHR ''a'', STRFMT_NUM OR STRFMT_T_FP_A), (CHR ''e'', STRFMT_NUM OR STRFMT_T_FP_E),
     (CHR ''f'', STRFMT_NUM OR STRFMT_T_FP_F), (CHR ''g'', STRFMT_NUM OR STRFMT_T_FP_G),
     (CHR ''A'', STRFMT_NUM OR STRFMT_T_FP_A), (CHR ''E'', STRFMT_NUM OR STRFMT_T_FP_E),
     (CHR ''F'', STRFMT_NUM OR STRFMT_T_FP_F), (CHR ''G'', STRFMT_NUM OR STRFMT_T_FP_G),
     (CHR ''c'', STRFMT_CHAR), (CHR ''s'', STRFMT_STR), (CHR ''q'', STRFMT_STR OR STRFMT_T_QUOTED), (CHR ''p'', STRFMT_PTR)]"

definition conv_type :: "u8 \<Rightarrow> u32" where
  "conv_type c = the (map_of conv_table (char_of (unat c)))"

definition fmt_value :: "bytes \<Rightarrow> nat \<Rightarrow> nat option \<Rightarrow> u8 \<Rightarrow> u32" where
  "fmt_value flags w prec c =
     foldl (\<lambda>sf c. sf OR fmt_flag c) 0 flags OR push_bit 16 (of_nat w) OR
     (case prec of None \<Rightarrow> 0 | Some p \<Rightarrow> push_bit 24 (of_nat (p + 1))) OR
     conv_type c OR (if unat c < 0x61 then STRFMT_F_UPPER else 0)"

lemma fmt_flags_print:
  "drop p f = flags @ c # r \<Longrightarrow> set flags \<subseteq> flag_chars \<Longrightarrow> c \<notin> flag_chars \<Longrightarrow>
   fmt_flags f p sf = (p + length flags, foldl (\<lambda>sf c. sf OR fmt_flag c) sf flags)"
proof (induction flags arbitrary: p sf)
  case Nil
  then show ?case using fmtc_drop(1) [of p f c r] by (subst fmt_flags.simps) (auto simp: flag_chars_def Let_def)
next
  case (Cons x flags)
  have x: "fmtc f p = x" "drop (p + 1) f = flags @ c # r" using fmtc_drop [of p f x "flags @ c # r"] Cons.prems(1) by simp_all
  have "x \<in> flag_chars" using Cons.prems(2) by simp
  then have "fmt_flags f p sf = fmt_flags f (p + 1) (sf OR fmt_flag x)"
    by (subst fmt_flags.simps) (auto simp: x flag_chars_def fmt_flag_def Let_def)
  then show ?case using Cons.IH [OF x(2)] Cons.prems by simp
qed

lemma digit_val: "n < 10 \<Longrightarrow> fmt_isdigit (0x30 + of_nat n)" "n < 10 \<Longrightarrow> (ucast (0x30 + of_nat n :: u8) :: u32) - 0x30 = of_nat n"
proof -
  have "n < 10 \<Longrightarrow> (ucast (0x30 + of_nat n :: u8) :: u32) = 0x30 + of_nat n"
    by (simp add: word_unat_eq_iff unat_word_ariths unsigned_ucast_eq unat_of_nat take_bit_eq_mod)
  then show v: "n < 10 \<Longrightarrow> (ucast (0x30 + of_nat n :: u8) :: u32) - 0x30 = of_nat n" by simp
  show "n < 10 \<Longrightarrow> fmt_isdigit (0x30 + of_nat n)"
    unfolding fmt_isdigit_def v by (simp add: word_less_nat_alt unat_of_nat)
qed

lemma two_digits_cases: "n < 100 \<Longrightarrow> \<not> fmt_isdigit c \<Longrightarrow> drop p f = two_digits n @ c # r \<Longrightarrow>
    fmt_num f p = (p + length (two_digits n), of_nat n) \<and> fmt_isdigit (fmtc f p)"
proof (cases "n < 10")
  case True
  assume a: "n < 100" "\<not> fmt_isdigit c" "drop p f = two_digits n @ c # r"
  then have d: "drop p f = (0x30 + of_nat n) # c # r" using True by (simp add: two_digits_def)
  note f = fmtc_drop(1) [OF d] fmtc_drop(1) [OF fmtc_drop(2) [OF d]] fmtc_drop(1) [OF fmtc_drop(2) [OF d], simplified]
  show ?thesis using a True by (simp add: fmt_num_def f digit_val two_digits_def)
next
  case False
  assume a: "n < 100" "\<not> fmt_isdigit c" "drop p f = two_digits n @ c # r"
  then have d: "drop p f = (0x30 + of_nat (n div 10)) # (0x30 + of_nat (n mod 10)) # c # r" using False by (simp add: two_digits_def)
  note f = fmtc_drop(1) [OF d] fmtc_drop(1) [OF fmtc_drop(2) [OF d]] fmtc_drop(1) [OF fmtc_drop(2) [OF d], simplified]
  have n: "n div 10 < 10" "n mod 10 < 10" using a(1) by auto
  have "of_nat n = (of_nat (n mod 10) + of_nat (n div 10) * 10 :: u32)"
    by (metis mod_div_mult_eq of_nat_add of_nat_mult of_nat_numeral)
  then show ?thesis using False n by (simp add: fmt_num_def f digit_val two_digits_def)
qed

text \<open>
  C35. The parser of format strings never reads or moves past the zero byte at the end of the format.
  Every call moves on, so that parsing a whole format ends; it reports the end exactly at the end of
  the format, its literals and the location of an error lie within the format, and after an error
  nothing is left.
\<close>

theorem strfmt_parse_advances:
  assumes "lj_strfmt_parse f fs = (sf, fs')" "fs_p fs \<le> length f"
  shows "fs_str fs' = fs_p fs \<and> fs_p fs' \<le> length f \<and>
    (sf = STRFMT_EOF \<longleftrightarrow> fs_p fs = length f) \<and> (sf \<noteq> STRFMT_EOF \<longrightarrow> fs_p fs < fs_p fs') \<and>
    (sf = STRFMT_LIT \<longrightarrow> 0 < fs_len fs' \<and> fs_str fs' + fs_len fs' \<le> fs_p fs') \<and>
    (sf = STRFMT_ERR \<longrightarrow> fs_p fs' = length f \<and> 0 < fs_len fs' \<and> fs_str fs' + fs_len fs' \<le> length f)"
proof -
  have s: "fs_str (fs\<lparr>fs_str := fs_p fs\<rparr>) = fs_p fs" by simp
  note r = fmt_scan_result [OF assms(1) [unfolded lj_strfmt_parse_def], unfolded s, OF order_refl assms(2)]
  then have "fs_str fs' = fs_p fs" by blast
  then show ?thesis using r by metis
qed

theorem strfmt_parse_advances_witness:
  "case lj_strfmt_parse [0x61, 0x25, 0x64] \<lparr>fs_p = 1, fs_str = 0, fs_len = 0\<rparr> of (sf, fs') \<Rightarrow> fs_p fs' \<le> 3"
proof -
  obtain sf fs' where p: "lj_strfmt_parse [0x61, 0x25, 0x64] \<lparr>fs_p = 1, fs_str = 0, fs_len = 0\<rparr> = (sf, fs')"
    by (cases "lj_strfmt_parse [0x61, 0x25, 0x64] \<lparr>fs_p = 1, fs_str = 0, fs_len = 0\<rparr>")
  have "fs_p \<lparr>fs_p = 1, fs_str = 0, fs_len = 0\<rparr> \<le> length [0x61, 0x25, 0x64 :: u8]" by simp
  from strfmt_parse_advances [OF p this] have "fs_p fs' \<le> length [0x61, 0x25, 0x64 :: u8]" by blast
  then show ?thesis unfolding p by simp
qed

lemma conv_list:
  "list_all (\<lambda>c. \<not> fmt_isdigit c \<and> c \<notin> set [0x2d, 0x2b, 0x30, 0x20, 0x23] \<and> c \<noteq> 0x2e \<and> c \<noteq> 0x25 \<and>
    (ucast c :: u32) - 0x41 \<le> 0x78 - 0x41 \<and> unat ((ucast c :: u32) - 0x41) = unat c - 0x41 \<and>
    strfmt_map ! (unat c - 0x41) \<noteq> 0 \<and> strfmt_map ! (unat c - 0x41) = conv_type c \<and> ((ucast c - 0x41 :: u32) AND 0x20 \<noteq> 0 \<longleftrightarrow> \<not> unat c < 0x61))
    [0x41, 0x45, 0x46, 0x47, 0x58, 0x61, 0x63, 0x64, 0x65, 0x66, 0x67, 0x69, 0x6f, 0x70, 0x71, 0x73, 0x75, 0x78 :: u8]"
  by code_simp

lemma conv_char:
  assumes "c \<in> conv_chars"
  shows "\<not> fmt_isdigit c" "c \<notin> flag_chars" "c \<noteq> 0x2e" "c \<noteq> 0x25" "(ucast c :: u32) - 0x41 \<le> 0x78 - 0x41"
    "unat ((ucast c :: u32) - 0x41) = unat c - 0x41" "conv_type c \<noteq> 0" "strfmt_map ! (unat c - 0x41) = conv_type c"
    "((ucast c - 0x41 :: u32) AND 0x20 \<noteq> 0) = (\<not> unat c < 0x61)"
proof -
  have f: "flag_chars = set [0x2d, 0x2b, 0x30, 0x20, 0x23]" by (simp add: flag_chars_def)
  note b = bspec [OF conv_list [unfolded list_all_iff] assms [unfolded conv_chars_def]]
  show "\<not> fmt_isdigit c" "c \<notin> flag_chars" "c \<noteq> 0x2e" "c \<noteq> 0x25" "(ucast c :: u32) - 0x41 \<le> 0x78 - 0x41"
    "unat ((ucast c :: u32) - 0x41) = unat c - 0x41" "conv_type c \<noteq> 0" "strfmt_map ! (unat c - 0x41) = conv_type c"
    "((ucast c - 0x41 :: u32) AND 0x20 \<noteq> 0) = (\<not> unat c < 0x61)"
    unfolding f using b by (blast | metis)+
qed

lemma digit_not_flag: "0 < d \<Longrightarrow> d < 10 \<Longrightarrow> 0x30 + of_nat d \<notin> flag_chars"
proof -
  assume "0 < d" "d < 10"
  then have "d = 1 \<or> d = 2 \<or> d = 3 \<or> d = 4 \<or> d = 5 \<or> d = 6 \<or> d = 7 \<or> d = 8 \<or> d = 9" by linarith
  then show ?thesis unfolding flag_chars_def by (elim disjE) simp_all
qed

lemma print_head:
  assumes "c \<in> conv_chars" "prec = None \<or> prec = Some q"
  shows "\<exists>x s. (case prec of None \<Rightarrow> [] | Some p \<Rightarrow> 0x2e # two_digits p) @ [c] = x # s \<and> \<not> fmt_isdigit x \<and> x \<notin> flag_chars \<and> x \<noteq> 0x25 \<and>
    (prec = None \<longrightarrow> x \<noteq> 0x2e)"
  using conv_char [OF assms(1)] by (cases prec) (simp_all add: fmt_isdigit_def flag_chars_def)

lemma width_head:
  assumes "0 < w" "w < 100"
  shows "\<exists>x s. two_digits w = x # s \<and> x \<notin> flag_chars \<and> x \<noteq> 0x25"
proof -
  have "0x30 + of_nat d \<noteq> (0x25 :: u8)" if "d < 10" for d
  proof -
    have "\<not> fmt_isdigit 0x25" by code_simp
    then show ?thesis using digit_val(1) [OF that] by metis
  qed
  then show ?thesis
    using assms digit_not_flag [of w] digit_not_flag [of "w div 10"] by (auto simp: two_digits_def)
qed

text \<open>
  C36. Printing a conversion specification and parsing it gives back its meaning: any sequence of
  flags, a width from 1 to 99 or none, a precision from 0 to 99 or none, and any of the conversion
  characters give the format word with exactly these fields and the type and sub-type of the letter,
  and the parser stands behind them.
\<close>

theorem strfmt_parse_print:
  assumes "drop (fs_p fs) f = print_fmt flags w prec c @ r" "set flags \<subseteq> flag_chars" "w < 100" "\<forall>p. prec = Some p \<longrightarrow> p < 100"
    and "c \<in> conv_chars"
  shows "lj_strfmt_parse f fs = (fmt_value flags w prec c,
    fs\<lparr>fs_p := fs_p fs + length (print_fmt flags w prec c), fs_str := fs_p fs\<rparr>)"
proof -
  let ?p = "fs_p fs" and ?fs = "fs\<lparr>fs_str := fs_p fs\<rparr>"
  define t2 where "t2 = (case prec of None \<Rightarrow> [] | Some p \<Rightarrow> 0x2e # two_digits p) @ [c]"
  define t1 where "t1 = (if w = 0 then [] else two_digits w) @ t2"
  have pr: "print_fmt flags w prec c = 0x25 # flags @ t1" by (simp add: print_fmt_def t1_def t2_def)
  obtain x2 s2 where x2: "t2 = x2 # s2" "\<not> fmt_isdigit x2" "x2 \<notin> flag_chars" "x2 \<noteq> 0x25" "prec = None \<longrightarrow> x2 \<noteq> 0x2e"
    using print_head [OF assms(5), of prec] unfolding t2_def by (cases prec) blast+
  have "\<exists>x s. t1 = x # s \<and> x \<notin> flag_chars \<and> x \<noteq> 0x25"
    using width_head [of w] assms(3) x2 by (cases "w = 0") (auto simp: t1_def)
  then obtain x1 s1 where x1: "t1 = x1 # s1" "x1 \<notin> flag_chars" "x1 \<noteq> 0x25" by blast
  have d0: "drop ?p f = 0x25 # flags @ x1 # s1 @ r" using assms(1) by (simp add: pr x1)
  note c0 = fmtc_drop(1) [OF d0] and d1 = fmtc_drop(2) [OF d0]
  define p1 where "p1 = ?p + 1 + length flags"
  have 1: "fmt_flags f (?p + 1) 0 = (p1, foldl (\<lambda>sf c. sf OR fmt_flag c) 0 flags)"
    using fmt_flags_print [OF d1 assms(2) x1(2)] by (simp add: p1_def)
  have pc: "fmtc f (?p + 1) \<noteq> 0x25"
  proof (cases flags)
    case Nil
    then show ?thesis using fmtc_drop(1) [of "?p + 1" f x1 "s1 @ r"] d1 x1(3) by simp
  next
    case (Cons y ys)
    then have "fmtc f (?p + 1) = y" using fmtc_drop(1) [of "?p + 1" f y "ys @ x1 # s1 @ r"] d1 by simp
    then show ?thesis using assms(2) Cons by (auto simp: flag_chars_def)
  qed
  have dp1: "drop p1 f = t1 @ r"
  proof -
    have "drop (length flags) (drop (?p + 1) f) = t1 @ r" unfolding d1 by (simp add: x1)
    then show ?thesis by (simp add: p1_def add.commute)
  qed
  define p2 where "p2 = p1 + (length t1 - length t2)"
  have dp2: "drop p2 f = t2 @ r"
  proof -
    have "drop (length t1 - length t2) (drop p1 f) = t2 @ r" unfolding dp1 by (simp add: t1_def)
    then show ?thesis by (simp add: p2_def add.commute)
  qed
  have 2: "fmt_width f p1 sf = (p2, sf OR push_bit 16 (of_nat w))" for sf
  proof (cases "w = 0")
    case True
    then have "fmtc f p1 = x2" using fmtc_drop(1) [of p1 f x2 "s2 @ r"] dp1 x2(1) by (simp add: t1_def)
    then show ?thesis using True x2(2) by (simp add: fmt_width_def p2_def t1_def)
  next
    case False
    then have "drop p1 f = two_digits w @ x2 # (s2 @ r)" using dp1 x2(1) by (simp add: t1_def)
    from two_digits_cases [OF assms(3) x2(2) this] False show ?thesis
      by (simp add: fmt_width_def p2_def t1_def STRFMT_SH_WIDTH_def)
  qed
  define p3 where "p3 = p2 + (length t2 - 1)"
  have dp3: "drop p3 f = c # r"
  proof -
    have "drop (length t2 - 1) (drop p2 f) = c # r" unfolding dp2 by (simp add: t2_def split: option.split)
    then show ?thesis by (simp add: p3_def add.commute)
  qed
  note cf = conv_char [OF assms(5)]
  have 3: "fmt_prec f p2 sf = (p3, sf OR (case prec of None \<Rightarrow> 0 | Some p \<Rightarrow> push_bit 24 (of_nat (p + 1))))" for sf
  proof (cases prec)
    case None
    then have "fmtc f p2 = c" "p3 = p2" using fmtc_drop(1) [of p2 f c r] dp2 by (simp_all add: t2_def p3_def)
    then show ?thesis using None cf(3) by (simp add: fmt_prec_def)
  next
    case (Some q)
    then have d: "drop p2 f = 0x2e # two_digits q @ c # r" using dp2 by (simp add: t2_def)
    have "q < 100" using assms(4) Some by simp
    note n = two_digits_cases [OF this cf(1) fmtc_drop(2) [OF d]]
    show ?thesis using Some n fmtc_drop(1) [OF d] by (simp add: fmt_prec_def p3_def t2_def STRFMT_SH_PREC_def add.commute)
  qed
  have "?p < length f" using d0 by (metis drop_all list.distinct(1) not_less)
  then have "lj_strfmt_parse f fs = fmt_spec f ?fs ?p"
    unfolding lj_strfmt_parse_def by (intro fmt_scan_eqs(3)) (use c0 pc in simp_all)
  also have "\<dots> = (fmt_value flags w prec c, ?fs\<lparr>fs_p := p3 + 1\<rparr>)"
    using cf fmtc_drop(1) [OF dp3] unfolding fmt_spec_def 1 2 3 Let_def prod.case
    by (simp add: fmt_value_def or.assoc)
  finally show ?thesis
    by (simp add: pr p3_def p2_def p1_def t1_def t2_def)
qed

theorem strfmt_parse_print_witness:
  "lj_strfmt_parse ([0x61] @ print_fmt [0x2d, 0x23] 12 (Some 7) 0x78 @ [0x21]) \<lparr>fs_p = 1, fs_str = 0, fs_len = 9\<rparr> =
    (fmt_value [0x2d, 0x23] 12 (Some 7) 0x78, \<lparr>fs_p = 9, fs_str = 1, fs_len = 9\<rparr>)"
proof -
  have l: "length (print_fmt [0x2d, 0x23] 12 (Some 7) 0x78) = 8" by code_simp
  show ?thesis
    using strfmt_parse_print [of "\<lparr>fs_p = 1, fs_str = 0, fs_len = 9\<rparr>" "[0x61] @ print_fmt [0x2d, 0x23] 12 (Some 7) 0x78 @ [0x21]"
        "[0x2d, 0x23]" 12 "Some 7" "0x78" "[0x21]"] l
    by (simp add: flag_chars_def conv_chars_def)
qed

theorem putfxint_layout_witness:
  "puts lj_buf_init (fxint_spec STRFMT_D 7) (lj_strfmt_putfxint lj_buf_init STRFMT_D 7)"
  using putfxint_layout [of lj_buf_init STRFMT_D 7] by (simp add: sbuf_ok_def lj_buf_init_def sbuflen_def)

end
