(* ===== verification/LjLex.thy ===== *)
theory LjLex
  imports LjBuf LjStr
begin

text \<open>
  The lexical analyzer (\<^verbatim>\<open>lj_lex.c\<close>, \<^verbatim>\<open>lj_lex.h\<close>). The reader callback is the list of the blocks it
  returns; an empty block or the end of the list is the end of the input, a block of unknown size is
  not modelled. A character is an integer, -1 at the end of the input. Errors are values: memory
  exhausted or a lexer error with the token it names. The text of a numeric literal is the value of
  its token; its conversion by \<^verbatim>\<open>lj_strscan.c\<close> is not modelled, so a malformed number is a token where the
  code raises the error \<open>LJ_ERR_XNUMBER\<close>.
\<close>

section \<open>State\<close>

definition LJ_MAX_LINE :: nat where "LJ_MAX_LINE = LJ_MAX_MEM32"
definition LEX_EOF :: int where "LEX_EOF = - 1"
definition TK_OFS :: int where "TK_OFS = 256"

definition tokennames :: "string list" where
  "tokennames = [''and'', ''break'', ''do'', ''else'', ''elseif'', ''end'', ''false'', ''for'', ''function'', ''goto'',
    ''if'', ''in'', ''local'', ''nil'', ''not'', ''or'', ''repeat'', ''return'', ''then'', ''true'', ''until'', ''while'',
    ''..'', ''...'', ''=='', ''>='', ''<='', ''~='', ''::'', ''<number>'', ''<name>'', ''<string>'', ''<eof>'']"

definition TK_RESERVED :: nat where "TK_RESERVED = 22"
definition TK_concat :: int where "TK_concat = 279"
definition TK_dots :: int where "TK_dots = 280"
definition TK_eq :: int where "TK_eq = 281"
definition TK_ge :: int where "TK_ge = 282"
definition TK_le :: int where "TK_le = 283"
definition TK_ne :: int where "TK_ne = 284"
definition TK_label :: int where "TK_label = 285"
definition TK_number :: int where "TK_number = 286"
definition TK_name :: int where "TK_name = 287"
definition TK_string :: int where "TK_string = 288"
definition TK_eof :: int where "TK_eof = 289"

lemmas lex_tokens = LEX_EOF_def TK_OFS_def TK_concat_def TK_dots_def TK_eq_def TK_ge_def TK_le_def TK_ne_def
  TK_label_def TK_number_def TK_name_def TK_string_def TK_eof_def

datatype lex_msg = LJ_ERR_XLINES | LJ_ERR_XLSTR | LJ_ERR_XLCOM | LJ_ERR_XSTR | LJ_ERR_XESC | LJ_ERR_XLDELIM
datatype lex_err = LexMem | LexErr int lex_msg

text \<open>A token has no value, a string or name, or the text of a number.\<close>

datatype tokval = TvNone | TvStr bytes | TvNumText bytes

record lexstate =
  ls_p :: bytes
  ls_blocks :: "bytes list"
  ls_c :: int
  ls_sb :: sbuf
  ls_line :: nat
  ls_lastline :: nat
  ls_tok :: int
  ls_tokval :: tokval
  ls_lookahead :: int
  ls_lookaheadval :: tokval

definition lbind :: "lex_err + 'a \<Rightarrow> ('a \<Rightarrow> lex_err + 'b) \<Rightarrow> lex_err + 'b" where
  "lbind x f = (case x of Inl e \<Rightarrow> Inl e | Inr a \<Rightarrow> f a)"

lemma lbind_simps [simp]: "lbind (Inl e) f = Inl e" "lbind (Inr a) f = f a"
  by (simp_all add: lbind_def)

lemma lbind_cong [fundef_cong]: "x = y \<Longrightarrow> (\<And>a. y = Inr a \<Longrightarrow> f a = g a) \<Longrightarrow> lbind x f = lbind y g"
  by (cases y) simp_all

lemma lbind_Inr: "lbind x f = Inr b \<longleftrightarrow> (\<exists>a. x = Inr a \<and> f a = Inr b)"
  by (cases x) simp_all

section \<open>Characters\<close>

definition lex_iseol :: "lexstate \<Rightarrow> bool" where
  "lex_iseol ls \<longleftrightarrow> ls_c ls = 0x0a \<or> ls_c ls = 0x0d"

definition lex_more :: "lexstate \<Rightarrow> lex_err + (int \<times> lexstate)" where
  "lex_more ls =
     (case ls_blocks ls of
        [] \<Rightarrow> Inr (LEX_EOF, ls)
      | q # qs \<Rightarrow>
          let ls = ls\<lparr>ls_blocks := qs\<rparr>
          in if q = [] then Inr (LEX_EOF, ls)
             else if LJ_MAX_BUF \<le> length q then Inl LexMem
             else Inr (uint (hd q), ls\<lparr>ls_p := tl q\<rparr>))"

definition lex_next :: "lexstate \<Rightarrow> lex_err + lexstate" where
  "lex_next ls =
     (case ls_p ls of
        b # bs \<Rightarrow> Inr (ls\<lparr>ls_c := uint b, ls_p := bs\<rparr>)
      | [] \<Rightarrow> lbind (lex_more ls) (\<lambda>(c, ls). Inr (ls\<lparr>ls_c := c\<rparr>)))"

definition lex_save :: "int \<Rightarrow> lexstate \<Rightarrow> lex_err + lexstate" where
  "lex_save c ls =
     (case lj_buf_putb (ls_sb ls) (word_of_int c) of
        Inl e \<Rightarrow> Inl LexMem
      | Inr sb \<Rightarrow> Inr (ls\<lparr>ls_sb := sb\<rparr>))"

definition lex_savenext :: "lexstate \<Rightarrow> lex_err + lexstate" where
  "lex_savenext ls = lbind (lex_save (ls_c ls) ls) lex_next"

definition lj_lex_error :: "int \<Rightarrow> lex_msg \<Rightarrow> lexstate \<Rightarrow> lex_err + 'a" where
  "lj_lex_error tok em ls =
     (if tok = TK_name \<or> tok = TK_string \<or> tok = TK_number
      then lbind (lex_save 0 ls) (\<lambda>ls. Inl (LexErr tok em))
      else Inl (LexErr tok em))"

definition lex_newline :: "lexstate \<Rightarrow> lex_err + lexstate" where
  "lex_newline ls =
     (let old = ls_c ls
      in lbind (lex_next ls) (\<lambda>ls.
         lbind (if lex_iseol ls \<and> ls_c ls \<noteq> old then lex_next ls else Inr ls) (\<lambda>ls.
         let ls = ls\<lparr>ls_line := ls_line ls + 1\<rparr>
         in if LJ_MAX_LINE \<le> ls_line ls then lj_lex_error (ls_tok ls) LJ_ERR_XLINES ls else Inr ls)))"

definition lex_resetbuf :: "lexstate \<Rightarrow> lexstate" where
  "lex_resetbuf ls = ls\<lparr>ls_sb := lj_buf_reset (ls_sb ls)\<rparr>"

section \<open>Progress\<close>

text \<open>What is left to read: the characters of the blocks, one step for each block, and the current character.\<close>

definition lex_avail :: "lexstate \<Rightarrow> nat" where
  "lex_avail ls = length (ls_p ls) + sum_list (map (\<lambda>q. length q + 1) (ls_blocks ls))"

definition lex_todo :: "lexstate \<Rightarrow> nat" where
  "lex_todo ls = lex_avail ls + (if ls_c ls = LEX_EOF then 0 else 1)"

lemma lex_next_avail: "lex_next ls = Inr ls' \<Longrightarrow> lex_avail ls' \<le> lex_avail ls \<and> (ls_c ls' \<noteq> LEX_EOF \<longrightarrow> lex_avail ls' < lex_avail ls)"
  by (auto simp: lex_next_def lex_more_def lex_avail_def lbind_Inr Let_def split: list.splits if_splits)

lemma lex_next_todo: "lex_next ls = Inr ls' \<Longrightarrow> lex_todo ls' \<le> lex_avail ls"
  using lex_next_avail [of ls ls'] by (auto simp: lex_todo_def)

lemma todo_avail: "lex_avail ls \<le> lex_todo ls" "ls_c ls \<noteq> LEX_EOF \<Longrightarrow> lex_avail ls < lex_todo ls"
  by (simp_all add: lex_todo_def)

lemma lex_save_avail: "lex_save c ls = Inr ls' \<Longrightarrow> lex_avail ls' = lex_avail ls \<and> ls_c ls' = ls_c ls \<and> lex_todo ls' = lex_todo ls"
  by (auto simp: lex_save_def lex_avail_def lex_todo_def split: sum.splits)

lemma lex_savenext_todo: "lex_savenext ls = Inr ls' \<Longrightarrow>
    lex_todo ls' \<le> lex_avail ls \<and> (ls_c ls' \<noteq> LEX_EOF \<longrightarrow> lex_avail ls' < lex_avail ls)"
  using lex_next_todo lex_next_avail lex_save_avail by (fastforce simp: lex_savenext_def lbind_Inr)

lemma lj_lex_error_Inr [simp]: "lj_lex_error tok em ls \<noteq> Inr x"
  by (auto simp: lj_lex_error_def lbind_def split: sum.splits)

lemma todo_line [simp]: "lex_todo (ls\<lparr>ls_line := n\<rparr>) = lex_todo ls" "lex_avail (ls\<lparr>ls_line := n\<rparr>) = lex_avail ls"
  "lex_todo (lex_resetbuf ls) = lex_todo ls" "lex_avail (lex_resetbuf ls) = lex_avail ls"
  by (simp_all add: lex_todo_def lex_avail_def lex_resetbuf_def)

lemma lex_newline_todo: "lex_newline ls = Inr ls' \<Longrightarrow> lex_todo ls' \<le> lex_avail ls"
proof -
  assume n: "lex_newline ls = Inr ls'"
  from n [unfolded lex_newline_def Let_def lbind_Inr] obtain a b where
    a: "lex_next ls = Inr a" "(if lex_iseol a \<and> ls_c a \<noteq> ls_c ls then lex_next a else Inr a) = Inr b"
    and l: "(if LJ_MAX_LINE \<le> ls_line (b\<lparr>ls_line := ls_line b + 1\<rparr>) then lj_lex_error (ls_tok (b\<lparr>ls_line := ls_line b + 1\<rparr>)) LJ_ERR_XLINES
        (b\<lparr>ls_line := ls_line b + 1\<rparr>) else Inr (b\<lparr>ls_line := ls_line b + 1\<rparr>)) = Inr ls'" by blast
  have l': "ls' = b\<lparr>ls_line := ls_line b + 1\<rparr>" using l by (simp split: if_splits)
  have "lex_todo b \<le> lex_todo a"
    using a(2) lex_next_todo [of a b] todo_avail(1) [of a] by (auto split: if_splits)
  then show ?thesis using lex_next_todo [OF a(1)] l' by simp
qed

lemma ident_not_eof: "lj_char_isident (- 1) = False" "lj_char_isdigit (- 1) = False" "lj_char_isxdigit (- 1) = False"
  "lj_char_isspace (- 1) = False"
  by (simp_all add: lj_char_defs lj_char_isa_def char_bits_0)

lemma savenext_less: "lex_savenext ls = Inr ls' \<Longrightarrow> ls_c ls \<noteq> - 1 \<Longrightarrow> lex_todo ls' < lex_todo ls"
  and next_less: "lex_next ls = Inr ls' \<Longrightarrow> ls_c ls \<noteq> - 1 \<Longrightarrow> lex_todo ls' < lex_todo ls"
  using lex_savenext_todo [of ls ls'] lex_next_todo [of ls ls'] todo_avail(2) [of ls] by (auto simp: LEX_EOF_def)

section \<open>Numbers and names\<close>

function lex_ident_loop :: "lexstate \<Rightarrow> lex_err + lexstate" where
  "lex_ident_loop ls =
     (if lj_char_isident (ls_c ls) then lbind (lex_savenext ls) lex_ident_loop else Inr ls)"
  by pat_completeness auto
termination
proof (relation "measure lex_todo", goal_cases)
  case (2 ls ls')
  then have "ls_c ls \<noteq> - 1" using ident_not_eof by metis
  then show ?case using savenext_less [of ls ls'] 2 by simp
qed simp

function lex_number_loop :: "int \<Rightarrow> int \<Rightarrow> lexstate \<Rightarrow> lex_err + lexstate" where
  "lex_number_loop xp c ls =
     (if lj_char_isident (ls_c ls) \<or> ls_c ls = 0x2e \<or> (ls_c ls = 0x2d \<or> ls_c ls = 0x2b) \<and> c OR 0x20 = xp
      then let c = ls_c ls in lbind (lex_savenext ls) (lex_number_loop xp c)
      else Inr ls)"
  by pat_completeness auto
termination
proof (relation "measure (\<lambda>(xp, c, ls). lex_todo ls)", goal_cases)
  case (2 xp c ls c' ls')
  then have "ls_c ls \<noteq> - 1" using ident_not_eof by auto
  then show ?case using savenext_less [of ls ls'] 2 by simp
qed simp

definition lex_number :: "lexstate \<Rightarrow> lex_err + (bytes \<times> lexstate)" where
  "lex_number ls =
     (let c = ls_c ls
      in lbind (if c = 0x30 then lex_savenext ls else Inr ls) (\<lambda>ls.
         let xp = (if c = 0x30 \<and> ls_c ls OR 0x20 = 0x78 then 0x70 else 0x65)
         in lbind (lex_number_loop xp c ls) (\<lambda>ls.
            lbind (lex_save 0 ls) (\<lambda>ls.
            Inr (take (sbuflen (ls_sb ls) - 1) (sb_data (ls_sb ls)), ls)))))"

section \<open>Long strings and comments\<close>

function lex_skipeq_loop :: "int \<Rightarrow> lexstate \<Rightarrow> lex_err + (int \<times> lexstate)" where
  "lex_skipeq_loop count ls =
     lbind (lex_savenext ls) (\<lambda>ls.
       if ls_c ls = 0x3d \<and> count < 0x20000000 then lex_skipeq_loop (count + 1) ls else Inr (count, ls))"
  by pat_completeness auto
termination
proof (relation "measure (\<lambda>(count, ls). lex_avail ls)", goal_cases)
  case (2 count ls ls')
  then show ?case using lex_savenext_todo [of ls ls'] by (auto simp: LEX_EOF_def)
qed simp

definition lex_skipeq :: "lexstate \<Rightarrow> lex_err + (int \<times> lexstate)" where
  "lex_skipeq ls =
     (let s = ls_c ls
      in lbind (lex_skipeq_loop 0 ls) (\<lambda>(count, ls).
         Inr (if ls_c ls = s then count else - count - 1, ls)))"

declare lex_ident_loop.simps [simp del] lex_number_loop.simps [simp del] lex_skipeq_loop.simps [simp del]

lemma lex_skipeq_loop_todo: "lex_skipeq_loop count ls = Inr (n, ls') \<Longrightarrow> lex_todo ls' \<le> lex_avail ls"
proof (induction count ls rule: lex_skipeq_loop.induct)
  case (1 count ls)
  obtain a where a: "lex_savenext ls = Inr a" "(if ls_c a = 0x3d \<and> count < 0x20000000 then lex_skipeq_loop (count + 1) a else Inr (count, a)) = Inr (n, ls')"
    using "1.prems" [unfolded lex_skipeq_loop.simps [of count ls] lbind_Inr] by blast
  then show ?case
    using "1.IH" [OF a(1)] lex_savenext_todo [OF a(1)] todo_avail(1) [of a] by (auto split: if_splits)
qed

lemma lex_skipeq_todo: "lex_skipeq ls = Inr (n, ls') \<Longrightarrow> lex_todo ls' \<le> lex_avail ls"
  using lex_skipeq_loop_todo by (auto simp: lex_skipeq_def Let_def lbind_Inr)

function lex_longstring_loop :: "bool \<Rightarrow> int \<Rightarrow> lexstate \<Rightarrow> lex_err + lexstate" where
  "lex_longstring_loop tv sep ls =
     (if ls_c ls = LEX_EOF then lj_lex_error TK_eof (if tv then LJ_ERR_XLSTR else LJ_ERR_XLCOM) ls
      else if ls_c ls = 0x5d then
        lbind (lex_skipeq ls) (\<lambda>(n, ls).
          if n = sep then lex_savenext ls else lex_longstring_loop tv sep ls)
      else if lex_iseol ls then
        lbind (lex_save 0x0a ls) (\<lambda>ls. lbind (lex_newline ls) (\<lambda>ls.
          lex_longstring_loop tv sep (if tv then ls else lex_resetbuf ls)))
      else lbind (lex_savenext ls) (lex_longstring_loop tv sep))"
  by pat_completeness auto
termination
proof (relation "measure (\<lambda>(tv, sep, ls). lex_todo ls)", goal_cases)
  case (2 tv sep ls x n ls')
  then show ?case using lex_skipeq_todo [of ls n ls'] todo_avail(2) [of ls] by simp
next
  case (3 tv sep ls a b)
  then show ?case using lex_save_avail [of 10 ls a] lex_newline_todo [of a b] todo_avail(2) [of ls] by auto
next
  case (4 tv sep ls a)
  then show ?case using lex_savenext_todo [of ls a] todo_avail(2) [of ls] by auto
qed simp

declare lex_longstring_loop.simps [simp del]

text \<open>With \<open>tv\<close> the contents between the brackets, for a comment nothing.\<close>

definition lex_longstring :: "bool \<Rightarrow> int \<Rightarrow> lexstate \<Rightarrow> lex_err + (tokval \<times> lexstate)" where
  "lex_longstring tv sep ls =
     lbind (lex_savenext ls) (\<lambda>ls.
     lbind (if lex_iseol ls then lex_newline ls else Inr ls) (\<lambda>ls.
     lbind (lex_longstring_loop tv sep ls) (\<lambda>ls.
       Inr (if tv then
              let n = 2 + nat sep
              in TvStr (take (sbuflen (ls_sb ls) - 2 * n) (drop n (sb_data (ls_sb ls))))
            else TvNone, ls))))"

section \<open>Strings\<close>

definition err_xesc :: "lexstate \<Rightarrow> lex_err + 'a" where
  "err_xesc ls = lj_lex_error TK_string LJ_ERR_XESC ls"

text \<open>The value of the current character as a hexadecimal digit, added to \<open>c\<close> with weight \<open>w\<close>.\<close>

definition lex_hexdigit :: "int \<Rightarrow> int \<Rightarrow> lexstate \<Rightarrow> lex_err + int" where
  "lex_hexdigit c w ls =
     (let c = c + (ls_c ls AND 15) * w
      in if \<not> lj_char_isdigit (ls_c ls) then
           if \<not> lj_char_isxdigit (ls_c ls) then err_xesc ls else Inr (c + 9 * w)
         else Inr c)"

text \<open>The digits of \<open>\u{XX...}\<close>, up to the closing brace.\<close>

function lex_unicode_loop :: "int \<Rightarrow> lexstate \<Rightarrow> lex_err + (int \<times> lexstate)" where
  "lex_unicode_loop c ls =
     lbind (lex_hexdigit (c * 16) 1 ls) (\<lambda>c.
       if c \<ge> 0x110000 then err_xesc ls
       else lbind (lex_next ls) (\<lambda>ls.
         if ls_c ls \<noteq> 0x7d then lex_unicode_loop c ls else Inr (c, ls)))"
  by pat_completeness auto
termination
proof (relation "measure (\<lambda>(c, ls). lex_todo ls)", goal_cases)
  case (2 c ls d ls')
  then have "ls_c ls \<noteq> - 1" using ident_not_eof by (auto simp: lex_hexdigit_def err_xesc_def Let_def split: if_splits)
  then show ?case using next_less [of ls ls'] 2 by simp
qed simp

text \<open>The bytes of a code point before the last one, which is returned.\<close>

definition lex_utf8 :: "int \<Rightarrow> lexstate \<Rightarrow> lex_err + (int \<times> lexstate)" where
  "lex_utf8 c ls =
     (if c < 0x80 then Inr (c, ls)
      else lbind
        (if c < 0x800 then lex_save (0xc0 OR c div 64) ls
         else lbind
           (if c \<ge> 0x10000 then
              lbind (lex_save (0xf0 OR c div 2 ^ 18) ls) (lex_save (0x80 OR (c div 2 ^ 12 AND 0x3f)))
            else if c \<ge> 0xd800 \<and> c < 0xe000 then err_xesc ls
            else lex_save (0xe0 OR c div 2 ^ 12) ls)
           (lex_save (0x80 OR (c div 64 AND 0x3f))))
        (\<lambda>ls. Inr (0x80 OR (c AND 0x3f), ls)))"

function lex_skipspace :: "lexstate \<Rightarrow> lex_err + lexstate" where
  "lex_skipspace ls =
     (if lj_char_isspace (ls_c ls) then
        lbind (if lex_iseol ls then lex_newline ls else lex_next ls) lex_skipspace
      else Inr ls)"
  by pat_completeness auto
termination
proof (relation "measure lex_todo", goal_cases)
  case (2 ls ls')
  then have c: "ls_c ls \<noteq> - 1" using ident_not_eof by metis
  show ?case using 2(2) next_less [of ls ls', OF _ c] lex_newline_todo [of ls ls'] todo_avail(2) [of ls] c
    by (auto simp: LEX_EOF_def split: if_splits)
qed simp

text \<open>Up to three decimal digits, of which the first is the current character \<open>c\<close>.\<close>

definition lex_decimal :: "int \<Rightarrow> lexstate \<Rightarrow> lex_err + lexstate" where
  "lex_decimal c ls =
     (let c = c - 0x30
      in lbind (lex_next ls) (\<lambda>ls.
         if lj_char_isdigit (ls_c ls) then
           let c = c * 10 + (ls_c ls - 0x30)
           in lbind (lex_next ls) (\<lambda>ls.
              if lj_char_isdigit (ls_c ls) then
                let c = c * 10 + (ls_c ls - 0x30)
                in if c > 255 then err_xesc ls else lbind (lex_next ls) (lex_save c)
              else lex_save c ls)
         else lex_save c ls))"

text \<open>A backslash and what follows it. An escape with a value saves it and moves on.\<close>

definition lex_escape :: "lexstate \<Rightarrow> lex_err + lexstate" where
  "lex_escape ls =
     lbind (lex_next ls) (\<lambda>ls.
       let c = ls_c ls; save = (\<lambda>c ls. lbind (lex_save c ls) lex_next)
       in if c = 0x61 then save 7 ls
          else if c = 0x62 then save 8 ls
          else if c = 0x66 then save 12 ls
          else if c = 0x6e then save 10 ls
          else if c = 0x72 then save 13 ls
          else if c = 0x74 then save 9 ls
          else if c = 0x76 then save 11 ls
          else if c = 0x78 then
            lbind (lex_next ls) (\<lambda>ls. lbind (lex_hexdigit 0 16 ls) (\<lambda>c.
            lbind (lex_next ls) (\<lambda>ls. lbind (lex_hexdigit c 1 ls) (\<lambda>c. save c ls))))
          else if c = 0x75 then
            lbind (lex_next ls) (\<lambda>ls. if ls_c ls \<noteq> 0x7b then err_xesc ls else
            lbind (lex_next ls) (\<lambda>ls. lbind (lex_unicode_loop 0 ls) (\<lambda>(c, ls).
            lbind (lex_utf8 c ls) (\<lambda>(c, ls). save c ls))))
          else if c = 0x7a then lbind (lex_next ls) lex_skipspace
          else if c = 0x0a \<or> c = 0x0d then lbind (lex_save 0x0a ls) lex_newline
          else if c = 0x5c \<or> c = 0x22 \<or> c = 0x27 then save c ls
          else if c = LEX_EOF then Inr ls
          else if \<not> lj_char_isdigit c then err_xesc ls
          else lex_decimal c ls)"

declare lex_unicode_loop.simps [simp del] lex_skipspace.simps [simp del]

lemma hexdigit_not_eof: "lex_hexdigit c w ls = Inr d \<Longrightarrow> ls_c ls \<noteq> - 1"
  using ident_not_eof by (auto simp: lex_hexdigit_def err_xesc_def Let_def split: if_splits)

lemma lex_unicode_todo: "lex_unicode_loop c ls = Inr (d, ls') \<Longrightarrow> lex_todo ls' \<le> lex_todo ls"
proof (induction c ls rule: lex_unicode_loop.induct)
  case (1 c ls)
  obtain x a where a: "lex_hexdigit (c * 16) 1 ls = Inr x" "\<not> x \<ge> 0x110000" "lex_next ls = Inr a"
    "(if ls_c a \<noteq> 0x7d then lex_unicode_loop x a else Inr (x, a)) = Inr (d, ls')"
    using "1.prems" unfolding lex_unicode_loop.simps [of c ls] lbind_Inr err_xesc_def by (auto simp: lbind_Inr split: if_splits)
  then show ?case
    using "1.IH" [OF a(1-3)] lex_next_todo [OF a(3)] todo_avail(1) [of ls] by (auto split: if_splits)
qed

lemma lex_skipspace_todo: "lex_skipspace ls = Inr ls' \<Longrightarrow> lex_todo ls' \<le> lex_todo ls"
proof (induction ls rule: lex_skipspace.induct)
  case (1 ls)
  show ?case
  proof (cases "lj_char_isspace (ls_c ls)")
    case True
    then obtain a where a: "(if lex_iseol ls then lex_newline ls else lex_next ls) = Inr a" "lex_skipspace a = Inr ls'"
      using "1.prems" by (auto simp: lex_skipspace.simps [of ls] lbind_Inr)
    have "lex_todo a \<le> lex_avail ls" using a(1) lex_newline_todo [of ls a] lex_next_todo [of ls a] by (auto split: if_splits)
    then show ?thesis using "1.IH" [OF True a(1) a(2)] todo_avail(1) [of ls] by linarith
  next
    case False
    then show ?thesis using "1.prems" by (simp add: lex_skipspace.simps [of ls])
  qed
qed

lemma lex_utf8_todo: "lex_utf8 c ls = Inr (d, ls') \<Longrightarrow> lex_todo ls' = lex_todo ls"
  using lex_save_avail by (fastforce simp: lex_utf8_def lbind_Inr err_xesc_def split: if_splits)

lemma save_next_todo: "lbind (lex_save c ls) lex_next = Inr ls' \<Longrightarrow> lex_todo ls' \<le> lex_todo ls"
  using lex_save_avail lex_next_todo todo_avail(1) by (fastforce simp: lbind_Inr intro: le_trans)

lemma next_todo_le: "lex_next ls = Inr ls' \<Longrightarrow> lex_todo ls' \<le> lex_todo ls"
  using lex_next_todo todo_avail(1) by (blast intro: le_trans)

lemma lex_decimal_todo:
  assumes "lex_decimal c ls = Inr ls'"
  shows "lex_todo ls' \<le> lex_avail ls"
proof -
  obtain a where a: "lex_next ls = Inr a" using assms unfolding lex_decimal_def Let_def lbind_Inr by blast
  have "lex_todo ls' \<le> lex_todo a"
  proof (cases "lj_char_isdigit (ls_c a)")
    case False
    then show ?thesis using assms a lex_save_avail [of "c - 48" a ls'] by (simp add: lex_decimal_def)
  next
    case True
    then obtain b where b: "lex_next a = Inr b"
      "(if lj_char_isdigit (ls_c b) then
          let c = ((c - 0x30) * 10 + (ls_c a - 0x30)) * 10 + (ls_c b - 0x30)
          in if c > 255 then err_xesc b else lbind (lex_next b) (lex_save c)
        else lex_save ((c - 0x30) * 10 + (ls_c a - 0x30)) b) = Inr ls'"
      using assms a by (auto simp: lex_decimal_def lbind_Inr Let_def)
    have "lex_todo ls' \<le> lex_todo b"
    proof (cases "lj_char_isdigit (ls_c b)")
      case True
      then obtain d e where "lex_next b = Inr d" "lex_save e d = Inr ls'"
        using b(2) by (auto simp: Let_def err_xesc_def lbind_Inr split: if_splits)
      then show ?thesis using next_todo_le [of b d] lex_save_avail [of e d ls'] by simp
    next
      case False
      then show ?thesis using b(2) lex_save_avail [of _ b ls'] by fastforce
    qed
    then show ?thesis using next_todo_le [OF b(1)] by simp
  qed
  then show ?thesis using lex_next_todo [OF a] by simp
qed

lemma escape_x_todo:
  assumes "lbind (lex_next a) (\<lambda>ls. lbind (lex_hexdigit 0 16 ls) (\<lambda>c.
    lbind (lex_next ls) (\<lambda>ls. lbind (lex_hexdigit c 1 ls) (\<lambda>c. lbind (lex_save c ls) lex_next)))) = Inr ls'"
  shows "lex_todo ls' \<le> lex_todo a"
proof -
  obtain b c d e where "lex_next a = Inr b" "lex_next b = Inr d" "lbind (lex_save e d) lex_next = Inr ls'"
    using assms unfolding lbind_Inr [of "lex_next _"] lbind_Inr [of "lex_hexdigit _ _ _"] by blast
  then show ?thesis using next_todo_le [of a b] next_todo_le [of b d] save_next_todo [of e d ls'] by linarith
qed

lemma escape_u_todo:
  assumes "lbind (lex_next a) (\<lambda>ls. if ls_c ls \<noteq> 0x7b then err_xesc ls else
    lbind (lex_next ls) (\<lambda>ls. lbind (lex_unicode_loop 0 ls) (\<lambda>(c, ls).
    lbind (lex_utf8 c ls) (\<lambda>(c, ls). lbind (lex_save c ls) lex_next)))) = Inr ls'"
  shows "lex_todo ls' \<le> lex_todo a"
proof -
  obtain b where b: "lex_next a = Inr b" "(if ls_c b \<noteq> 0x7b then err_xesc b else
    lbind (lex_next b) (\<lambda>ls. lbind (lex_unicode_loop 0 ls) (\<lambda>(c, ls).
    lbind (lex_utf8 c ls) (\<lambda>(c, ls). lbind (lex_save c ls) lex_next)))) = Inr ls'"
    using assms unfolding lbind_Inr [of "lex_next a"] by blast
  then have "lbind (lex_next b) (\<lambda>ls. lbind (lex_unicode_loop 0 ls) (\<lambda>(c, ls).
    lbind (lex_utf8 c ls) (\<lambda>(c, ls). lbind (lex_save c ls) lex_next))) = Inr ls'"
    by (simp add: err_xesc_def split: if_splits)
  then obtain d y where d: "lex_next b = Inr d" "lex_unicode_loop 0 d = Inr y"
    "lbind (lex_utf8 (fst y) (snd y)) (\<lambda>(c, ls). lbind (lex_save c ls) lex_next) = Inr ls'"
    unfolding lbind_Inr [of "lex_next _"] lbind_Inr [of "lex_unicode_loop _ _"] split_beta by blast
  then obtain w where "lex_utf8 (fst y) (snd y) = Inr w" "lbind (lex_save (fst w) (snd w)) lex_next = Inr ls'"
    unfolding lbind_Inr [of "lex_utf8 _ _"] split_beta by blast
  then show ?thesis
    using next_todo_le [OF b(1)] next_todo_le [OF d(1)] lex_unicode_todo [of 0 d "fst y" "snd y"] d(2)
      lex_utf8_todo [of "fst y" "snd y" "fst w" "snd w"] save_next_todo [of "fst w" "snd w" ls'] by simp
qed

lemma escape_z_todo:
  assumes "lbind (lex_next a) lex_skipspace = Inr ls'"
  shows "lex_todo ls' \<le> lex_todo a"
proof -
  obtain b where "lex_next a = Inr b" "lex_skipspace b = Inr ls'" using assms unfolding lbind_Inr by blast
  then show ?thesis using next_todo_le [of a b] lex_skipspace_todo [of b ls'] by linarith
qed

lemma escape_n_todo:
  assumes "lbind (lex_save 0x0a a) lex_newline = Inr ls'"
  shows "lex_todo ls' \<le> lex_todo a"
proof -
  obtain b where "lex_save 0x0a a = Inr b" "lex_newline b = Inr ls'" using assms unfolding lbind_Inr by blast
  then show ?thesis using lex_save_avail [of 10 a b] lex_newline_todo [of b ls'] todo_avail(1) [of a] by linarith
qed

lemma lex_escape_todo:
  assumes "lex_escape ls = Inr ls'"
  shows "lex_todo ls' \<le> lex_avail ls"
proof -
  obtain a where a: "lex_next ls = Inr a" using assms unfolding lex_escape_def lbind_Inr by blast
  define c where "c = ls_c a"
  define save where "save = (\<lambda>c ls. lbind (lex_save c ls) lex_next)"
  have save: "save x l = Inr l' \<Longrightarrow> lex_todo l' \<le> lex_todo l" for x l l'
    unfolding save_def by (rule save_next_todo)
  have e: "(if c = 0x61 then save 7 a
          else if c = 0x62 then save 8 a
          else if c = 0x66 then save 12 a
          else if c = 0x6e then save 10 a
          else if c = 0x72 then save 13 a
          else if c = 0x74 then save 9 a
          else if c = 0x76 then save 11 a
          else if c = 0x78 then
            lbind (lex_next a) (\<lambda>ls. lbind (lex_hexdigit 0 16 ls) (\<lambda>c.
            lbind (lex_next ls) (\<lambda>ls. lbind (lex_hexdigit c 1 ls) (\<lambda>c. save c ls))))
          else if c = 0x75 then
            lbind (lex_next a) (\<lambda>ls. if ls_c ls \<noteq> 0x7b then err_xesc ls else
            lbind (lex_next ls) (\<lambda>ls. lbind (lex_unicode_loop 0 ls) (\<lambda>(c, ls).
            lbind (lex_utf8 c ls) (\<lambda>(c, ls). save c ls))))
          else if c = 0x7a then lbind (lex_next a) lex_skipspace
          else if c = 0x0a \<or> c = 0x0d then lbind (lex_save 0x0a a) lex_newline
          else if c = 0x5c \<or> c = 0x22 \<or> c = 0x27 then save c a
          else if c = LEX_EOF then Inr a
          else if \<not> lj_char_isdigit c then err_xesc a
          else lex_decimal c a) = Inr ls'"
    using assms unfolding lex_escape_def a lbind_simps Let_def save_def c_def by simp
  note x = escape_x_todo [of a ls'] and u = escape_u_todo [of a ls']
    and z = escape_z_todo [of a ls'] and n = escape_n_todo [of a ls']
  have d: "lex_todo ls' \<le> lex_todo a" if "lex_decimal c a = Inr ls'"
    using lex_decimal_todo [OF that] todo_avail(1) [of a] by simp
  have "lex_todo ls' \<le> lex_todo a"
  proof (cases "c \<in> {0x61, 0x62, 0x66, 0x6e, 0x72, 0x74, 0x76, 0x5c, 0x22, 0x27}")
    case True
    then have "\<exists>x. save x a = Inr ls'" using e by (elim insertE) auto
    then show ?thesis using save by blast
  next
    case False
    then consider "c = 0x78" | "c = 0x75" | "c = 0x7a" | "c = 0x0a \<or> c = 0x0d" | "c = LEX_EOF" |
      "c \<notin> {0x61, 0x62, 0x66, 0x6e, 0x72, 0x74, 0x76, 0x5c, 0x22, 0x27, 0x78, 0x75, 0x7a, 0x0a, 0x0d, LEX_EOF}" by auto
    then show ?thesis
    proof cases
      case 1
      then show ?thesis by (intro x) (use e [unfolded save_def] in simp)
    next
      case 2
      then show ?thesis by (intro u) (use e [unfolded save_def] in simp)
    next
      case 3
      then show ?thesis using e z by simp
    next
      case 4
      then show ?thesis using e n by auto
    next
      case 5
      then show ?thesis using e by (simp add: LEX_EOF_def)
    next
      case 6
      then have "(if \<not> lj_char_isdigit c then err_xesc a else lex_decimal c a) = Inr ls'" using e by simp
      then show ?thesis using d by (simp add: err_xesc_def split: if_splits)
    qed
  qed
  then show ?thesis using lex_next_todo [OF a] by simp
qed

function lex_string_loop :: "int \<Rightarrow> lexstate \<Rightarrow> lex_err + lexstate" where
  "lex_string_loop delim ls =
     (if ls_c ls = delim then Inr ls
      else if ls_c ls = LEX_EOF then lj_lex_error TK_eof LJ_ERR_XSTR ls
      else if lex_iseol ls then lj_lex_error TK_string LJ_ERR_XSTR ls
      else if ls_c ls = 0x5c then lbind (lex_escape ls) (lex_string_loop delim)
      else lbind (lex_savenext ls) (lex_string_loop delim))"
  by pat_completeness auto
termination
proof (relation "measure (\<lambda>(d, ls). lex_todo ls)", goal_cases)
  case (2 d ls ls')
  then show ?case using lex_escape_todo [of ls ls'] todo_avail(2) [of ls] by simp
next
  case (3 d ls ls')
  then show ?case using lex_savenext_todo [of ls ls'] todo_avail(2) [of ls] by simp
qed simp

declare lex_string_loop.simps [simp del]

definition lex_string :: "lexstate \<Rightarrow> lex_err + (tokval \<times> lexstate)" where
  "lex_string ls =
     (let delim = ls_c ls
      in lbind (lex_savenext ls) (\<lambda>ls.
         lbind (lex_string_loop delim ls) (\<lambda>ls.
         lbind (lex_savenext ls) (\<lambda>ls.
           Inr (TvStr (take (sbuflen (ls_sb ls) - 2) (drop 1 (sb_data (ls_sb ls)))), ls)))))"

section \<open>The scanner\<close>

function lex_skipline :: "lexstate \<Rightarrow> lex_err + lexstate" where
  "lex_skipline ls =
     (if \<not> lex_iseol ls \<and> ls_c ls \<noteq> LEX_EOF then lbind (lex_next ls) lex_skipline else Inr ls)"
  by pat_completeness auto
termination
proof (relation "measure lex_todo", goal_cases)
  case (2 ls ls')
  then show ?case using next_less [of ls ls'] by (simp add: LEX_EOF_def)
qed simp

declare lex_skipline.simps [simp del]

text \<open>An identifier: a reserved word or a name.\<close>

definition reserved :: "bytes \<Rightarrow> nat" where
  "reserved s =
     (case scan_up (\<lambda>i. map of_char (tokennames ! i) = s) 0 TK_RESERVED of Some i \<Rightarrow> i + 1 | None \<Rightarrow> 0)"

definition lex_ident :: "lexstate \<Rightarrow> lex_err + (int \<times> tokval \<times> lexstate)" where
  "lex_ident ls =
     lbind (lex_savenext ls) (\<lambda>ls. lbind (lex_ident_loop ls) (\<lambda>ls.
       let s = sb_data (ls_sb ls)
       in Inr (if reserved s > 0 then TK_OFS + int (reserved s) else TK_name, TvStr s, ls)))"

text \<open>After two dashes: the comment.\<close>

definition lex_comment :: "lexstate \<Rightarrow> lex_err + lexstate" where
  "lex_comment ls =
     (if ls_c ls = 0x5b then
        lbind (lex_skipeq ls) (\<lambda>(sep, ls).
          let ls = lex_resetbuf ls
          in if sep \<ge> 0 then lbind (lex_longstring False sep ls) (\<lambda>(_, ls). Inr (lex_resetbuf ls))
             else lex_skipline ls)
      else lex_skipline ls)"

text \<open>A token of one character, or of two if the next one is \<open>c2\<close>.\<close>

definition lex_two :: "int \<Rightarrow> int \<Rightarrow> int \<Rightarrow> lexstate \<Rightarrow> lex_err + (int \<times> tokval \<times> lexstate)" where
  "lex_two c c2 tok ls =
     lbind (lex_next ls) (\<lambda>ls.
       if ls_c ls \<noteq> c2 then Inr (c, TvNone, ls)
       else lbind (lex_next ls) (\<lambda>ls. Inr (tok, TvNone, ls)))"

definition lex_number_tok :: "lexstate \<Rightarrow> lex_err + (int \<times> tokval \<times> lexstate)" where
  "lex_number_tok ls = lbind (lex_number ls) (\<lambda>(s, ls). Inr (TK_number, TvNumText s, ls))"

lemma lex_ident_loop_todo: "lex_ident_loop ls = Inr ls' \<Longrightarrow> lex_todo ls' \<le> lex_todo ls"
proof (induction ls rule: lex_ident_loop.induct)
  case (1 ls)
  show ?case
  proof (cases "lj_char_isident (ls_c ls)")
    case True
    then obtain a where a: "lex_savenext ls = Inr a" "lex_ident_loop a = Inr ls'"
      using "1.prems" by (auto simp: lex_ident_loop.simps [of ls] lbind_Inr)
    then show ?thesis using "1.IH" [OF True a] lex_savenext_todo [OF a(1)] todo_avail(1) [of ls] by linarith
  next
    case False
    then show ?thesis using "1.prems" by (simp add: lex_ident_loop.simps [of ls])
  qed
qed

lemma lex_skipline_todo: "lex_skipline ls = Inr ls' \<Longrightarrow> lex_todo ls' \<le> lex_todo ls"
proof (induction ls rule: lex_skipline.induct)
  case (1 ls)
  show ?case
  proof (cases "\<not> lex_iseol ls \<and> ls_c ls \<noteq> LEX_EOF")
    case True
    then obtain a where a: "lex_next ls = Inr a" "lex_skipline a = Inr ls'"
      using "1.prems" by (auto simp: lex_skipline.simps [of ls] lbind_Inr)
    then show ?thesis using "1.IH" [OF True a] next_todo_le [OF a(1)] by linarith
  next
    case False
    then show ?thesis using "1.prems" by (auto simp: lex_skipline.simps [of ls])
  qed
qed

lemma lex_longstring_loop_todo: "lex_longstring_loop tv sep ls = Inr ls' \<Longrightarrow> lex_todo ls' \<le> lex_todo ls"
proof (induction tv sep ls rule: lex_longstring_loop.induct)
  case (1 tv sep ls)
  consider (eof) "ls_c ls = LEX_EOF" | (close) "ls_c ls \<noteq> LEX_EOF" "ls_c ls = 0x5d"
    | (eol) "ls_c ls \<noteq> LEX_EOF" "ls_c ls \<noteq> 0x5d" "lex_iseol ls"
    | (other) "ls_c ls \<noteq> LEX_EOF" "ls_c ls \<noteq> 0x5d" "\<not> lex_iseol ls" by blast
  then show ?case
  proof cases
    case eof
    then show ?thesis using "1.prems" by (simp add: lex_longstring_loop.simps [of tv sep ls])
  next
    case close
    then obtain n a where a: "lex_skipeq ls = Inr (n, a)" "(if n = sep then lex_savenext a else lex_longstring_loop tv sep a) = Inr ls'"
      using "1.prems" by (auto simp: lex_longstring_loop.simps [of tv sep ls] lbind_Inr)
    have "lex_todo ls' \<le> lex_todo a"
      using a(2) "1.IH"(1) [OF close a(1) refl] lex_savenext_todo [of a ls'] todo_avail(1) [of a]
      by (auto split: if_splits)
    then show ?thesis using lex_skipeq_todo [OF a(1)] todo_avail(1) [of ls] by linarith
  next
    case eol
    then obtain a b where a: "lex_save 0x0a ls = Inr a" "lex_newline a = Inr b"
      "lex_longstring_loop tv sep (if tv then b else lex_resetbuf b) = Inr ls'"
      using "1.prems" by (auto simp: lex_longstring_loop.simps [of tv sep ls] lbind_Inr)
    then show ?thesis
      using "1.IH"(2) [OF eol a] lex_save_avail [OF a(1)] lex_newline_todo [OF a(2)] todo_avail(1) [of ls]
      by (auto split: if_splits)
  next
    case other
    then obtain a where a: "lex_savenext ls = Inr a" "lex_longstring_loop tv sep a = Inr ls'"
      using "1.prems" by (auto simp: lex_longstring_loop.simps [of tv sep ls] lbind_Inr)
    then show ?thesis
      using "1.IH"(3) [OF other a] lex_savenext_todo [OF a(1)] todo_avail(1) [of ls] by linarith
  qed
qed

lemma lex_longstring_todo: "lex_longstring tv sep ls = Inr (v, ls') \<Longrightarrow> lex_todo ls' \<le> lex_todo ls"
proof -
  assume l: "lex_longstring tv sep ls = Inr (v, ls')"
  then obtain a b where a: "lex_savenext ls = Inr a" "(if lex_iseol a then lex_newline a else Inr a) = Inr b"
    "lex_longstring_loop tv sep b = Inr ls'"
    by (auto simp: lex_longstring_def lbind_Inr)
  have "lex_todo b \<le> lex_todo a" using a(2) lex_newline_todo [of a b] todo_avail(1) [of a] by (auto split: if_splits)
  then show ?thesis
    using lex_longstring_loop_todo [OF a(3)] lex_savenext_todo [OF a(1)] todo_avail(1) [of ls] by linarith
qed

lemma lex_comment_todo: "lex_comment ls = Inr ls' \<Longrightarrow> lex_todo ls' \<le> lex_todo ls"
proof -
  assume c: "lex_comment ls = Inr ls'"
  show ?thesis
  proof (cases "ls_c ls = 0x5b")
    case True
    then obtain sep a where a: "lex_skipeq ls = Inr (sep, a)"
      "(if sep \<ge> 0 then lbind (lex_longstring False sep (lex_resetbuf a)) (\<lambda>(_, ls). Inr (lex_resetbuf ls))
        else lex_skipline (lex_resetbuf a)) = Inr ls'"
      using c by (auto simp: lex_comment_def lbind_Inr Let_def)
    have "lex_todo ls' \<le> lex_todo (lex_resetbuf a)"
      using a(2) lex_longstring_todo [of False sep "lex_resetbuf a"] lex_skipline_todo [of "lex_resetbuf a" ls']
      by (fastforce simp: lbind_Inr split: if_splits)
    then show ?thesis using lex_skipeq_todo [OF a(1)] todo_avail(1) [of ls] by simp
  next
    case False
    then show ?thesis using c lex_skipline_todo by (simp add: lex_comment_def)
  qed
qed

text \<open>
  The loop of \<open>lex_scan\<close>: white space and comments are skipped, anything else is a token. The
  result is the token, its value and the state behind it.
\<close>

function lex_scan_loop :: "lexstate \<Rightarrow> lex_err + (int \<times> tokval \<times> lexstate)" where
  "lex_scan_loop ls =
     (let c = ls_c ls
      in if lj_char_isident c then
           if lj_char_isdigit c then lex_number_tok ls else lex_ident ls
         else if c = 0x0a \<or> c = 0x0d then lbind (lex_newline ls) lex_scan_loop
         else if c = 0x20 \<or> c = 0x09 \<or> c = 0x0b \<or> c = 0x0c then lbind (lex_next ls) lex_scan_loop
         else if c = 0x2d then
           lbind (lex_next ls) (\<lambda>ls.
             if ls_c ls \<noteq> 0x2d then Inr (0x2d, TvNone, ls)
             else lbind (lex_next ls) (\<lambda>ls. lbind (lex_comment ls) lex_scan_loop))
         else if c = 0x5b then
           lbind (lex_skipeq ls) (\<lambda>(sep, ls).
             if sep \<ge> 0 then lbind (lex_longstring True sep ls) (\<lambda>(tv, ls). Inr (TK_string, tv, ls))
             else if sep = - 1 then Inr (0x5b, TvNone, ls)
             else lj_lex_error TK_string LJ_ERR_XLDELIM ls)
         else if c = 0x3d then lex_two c 0x3d TK_eq ls
         else if c = 0x3c then lex_two c 0x3d TK_le ls
         else if c = 0x3e then lex_two c 0x3d TK_ge ls
         else if c = 0x7e then lex_two c 0x3d TK_ne ls
         else if c = 0x3a then lex_two c 0x3a TK_label ls
         else if c = 0x22 \<or> c = 0x27 then
           lbind (lex_string ls) (\<lambda>(tv, ls). Inr (TK_string, tv, ls))
         else if c = 0x2e then
           lbind (lex_savenext ls) (\<lambda>ls.
             if ls_c ls = 0x2e then
               lbind (lex_next ls) (\<lambda>ls.
                 if ls_c ls = 0x2e then lbind (lex_next ls) (\<lambda>ls. Inr (TK_dots, TvNone, ls))
                 else Inr (TK_concat, TvNone, ls))
             else if \<not> lj_char_isdigit (ls_c ls) then Inr (0x2e, TvNone, ls)
             else lex_number_tok ls)
         else if c = LEX_EOF then Inr (TK_eof, TvNone, ls)
         else lbind (lex_next ls) (\<lambda>ls. Inr (c, TvNone, ls)))"
  by pat_completeness auto
termination
proof (relation "measure lex_todo", goal_cases)
  case (2 ls c a)
  then show ?case using lex_newline_todo [of ls a] todo_avail(2) [of ls] by (auto simp: LEX_EOF_def)
next
  case (3 ls c a)
  then show ?case using lex_next_todo [of ls a] todo_avail(2) [of ls] by (auto simp: LEX_EOF_def)
next
  case (4 ls c a b d)
  then show ?case
    using lex_next_todo [of ls a] lex_next_todo [of a b] todo_avail [of a] todo_avail(2) [of ls] lex_comment_todo [of b d]
    by (auto simp: LEX_EOF_def)
qed simp

definition lex_scan :: "lexstate \<Rightarrow> lex_err + (int \<times> tokval \<times> lexstate)" where
  "lex_scan ls = lex_scan_loop (lex_resetbuf ls)"

section \<open>Interface\<close>

text \<open>Behind an optional byte order mark and an optional \<open>#\<close> line: is it a bytecode dump?\<close>

datatype lex_start = LexSource | LexDump | LexBadDump

function lex_skipheader :: "lexstate \<Rightarrow> lex_err + lexstate" where
  "lex_skipheader ls =
     lbind (lex_next ls) (\<lambda>ls.
       if ls_c ls = LEX_EOF \<or> lex_iseol ls then Inr ls else lex_skipheader ls)"
  by pat_completeness auto
termination
proof (relation "measure lex_avail", goal_cases)
  case (2 ls a)
  then show ?case using lex_next_avail [of ls a] by simp
qed simp

declare lex_scan_loop.simps [simp del] lex_skipheader.simps [simp del]

definition lj_lex_setup :: "lexstate \<Rightarrow> lex_err + (lex_start \<times> lexstate)" where
  "lj_lex_setup ls =
     (let ls = ls\<lparr>ls_p := [], ls_tok := 0, ls_lookahead := TK_eof, ls_line := 1, ls_lastline := 1\<rparr>
      in lbind (lex_next ls) (\<lambda>ls.
         let bom = (ls_c ls = 0xef \<and> 2 \<le> length (ls_p ls) \<and> ls_p ls ! 0 = 0xbb \<and> ls_p ls ! 1 = 0xbf)
         in lbind (if bom then lex_next (ls\<lparr>ls_p := drop 2 (ls_p ls)\<rparr>) else Inr ls) (\<lambda>ls.
            let hash = (ls_c ls = 0x23); start = (\<lambda>header ls.
                  if ls_c ls = 0x1b then if header then LexBadDump else LexDump else LexSource)
            in if hash then
                 lbind (lex_skipheader ls) (\<lambda>ls.
                   if ls_c ls = LEX_EOF then Inr (LexSource, ls)
                   else lbind (lex_newline ls) (\<lambda>ls. Inr (start True ls, ls)))
               else Inr (start bom ls, ls))))"

definition lj_lex_next :: "lexstate \<Rightarrow> lex_err + lexstate" where
  "lj_lex_next ls =
     (let ls = ls\<lparr>ls_lastline := ls_line ls\<rparr>
      in if ls_lookahead ls = TK_eof then
           lbind (lex_scan ls) (\<lambda>(tok, tv, ls). Inr (ls\<lparr>ls_tok := tok, ls_tokval := tv\<rparr>))
         else Inr (ls\<lparr>ls_tok := ls_lookahead ls, ls_lookahead := TK_eof, ls_tokval := ls_lookaheadval ls\<rparr>))"

definition lj_lex_lookahead :: "lexstate \<Rightarrow> lex_err + (int \<times> lexstate)" where
  "lj_lex_lookahead ls =
     lbind (lex_scan ls) (\<lambda>(tok, tv, ls). Inr (tok, ls\<lparr>ls_lookahead := tok, ls_lookaheadval := tv\<rparr>))"

end
