(* ===== verification/LjLexProps.thy ===== *)
theory LjLexProps
  imports LjLex LjStrfmt
begin

text \<open>
  Properties of the lexical analyzer: it always reaches the end of the input or an error, and it reads
  a string written by the quoting conversion back, whatever bytes it holds and however the reader
  splits the input into blocks.
\<close>

section \<open>The input as a list\<close>

definition lex_ok :: "lexstate \<Rightarrow> bool" where
  "lex_ok ls \<longleftrightarrow> sbuf_ok (ls_sb ls) \<and> (\<forall>q\<in>set (ls_blocks ls). q \<noteq> [] \<and> length q < LJ_MAX_BUF) \<and>
     - 1 \<le> ls_c ls \<and> ls_c ls < 256 \<and> (ls_c ls = - 1 \<longrightarrow> ls_p ls = [] \<and> ls_blocks ls = [])"

definition lex_input :: "lexstate \<Rightarrow> bytes" where
  "lex_input ls = (if ls_c ls = - 1 then [] else [word_of_int (ls_c ls)]) @ ls_p ls @ concat (ls_blocks ls)"

definition lex_at :: "lexstate \<Rightarrow> bytes \<Rightarrow> bytes \<Rightarrow> nat \<Rightarrow> bool" where
  "lex_at ls d r n \<longleftrightarrow> lex_ok ls \<and> sb_data (ls_sb ls) = d \<and> lex_input ls = r \<and> ls_line ls = n"

lemma uint_u8: "0 \<le> uint (x::u8)" "- 1 \<le> uint x" "uint x < 256" "uint x \<noteq> - 1" "word_of_int (uint x) = x"
proof -
  have "0 \<le> uint x" by simp
  then show "0 \<le> uint x" "- 1 \<le> uint x" "uint x \<noteq> - 1" by linarith+
  show "uint x < 256" using uint_lt2p [of x] by simp
  show "word_of_int (uint x) = x" by simp
qed

lemma at_sb [simp]: "lex_input (ls\<lparr>ls_sb := sb\<rparr>) = lex_input ls" "lex_input (ls\<lparr>ls_line := m\<rparr>) = lex_input ls"
  "lex_ok (ls\<lparr>ls_line := m\<rparr>) = lex_ok ls"
  by (simp_all add: lex_input_def lex_ok_def)

lemma ok_sb [simp]: "lex_ok ls \<Longrightarrow> lex_ok (ls\<lparr>ls_sb := sb\<rparr>) \<longleftrightarrow> sbuf_ok sb"
  by (simp add: lex_ok_def)

lemma at_cur: "lex_at ls d (x # r) n \<Longrightarrow> ls_c ls = uint x"
proof -
  assume a: "lex_at ls d (x # r) n"
  then have i: "lex_input ls = x # r" and ok: "lex_ok ls" by (simp_all add: lex_at_def)
  have "ls_c ls \<noteq> - 1" using i ok by (auto simp: lex_input_def lex_ok_def)
  then have "word_of_int (ls_c ls) = x" "0 \<le> ls_c ls" "ls_c ls < 256" using i ok by (auto simp: lex_input_def lex_ok_def)
  then show ?thesis by (auto simp: uint_word_of_int)
qed

lemma at_eof: "lex_at ls d [] n \<Longrightarrow> ls_c ls = - 1"
  by (auto simp: lex_at_def lex_input_def split: if_splits)

lemma at_next:
  assumes "lex_at ls d (x # r) n"
  obtains ls' where "lex_next ls = Inr ls'" "lex_at ls' d r n"
proof -
  have c: "ls_c ls \<noteq> - 1" using at_cur [OF assms] uint_u8 by simp
  have r: "r = ls_p ls @ concat (ls_blocks ls)" and ok: "lex_ok ls" "sb_data (ls_sb ls) = d" "ls_line ls = n"
    using assms c by (simp_all add: lex_at_def lex_input_def)
  show thesis
  proof (cases "ls_p ls")
    case (Cons b bs)
    then have "lex_next ls = Inr (ls\<lparr>ls_c := uint b, ls_p := bs\<rparr>)" by (simp add: lex_next_def)
    moreover have "lex_at (ls\<lparr>ls_c := uint b, ls_p := bs\<rparr>) d r n"
      using ok r Cons uint_u8 [of b] by (simp add: lex_at_def lex_ok_def lex_input_def)
    ultimately show thesis using that by blast
  next
    case p: Nil
    show thesis
    proof (cases "ls_blocks ls")
      case Nil
      then have "lex_next ls = Inr (ls\<lparr>ls_c := - 1\<rparr>)" using p by (simp add: lex_next_def lex_more_def LEX_EOF_def)
      moreover have "lex_at (ls\<lparr>ls_c := - 1\<rparr>) d r n" using ok r p Nil by (simp add: lex_at_def lex_ok_def lex_input_def)
      ultimately show thesis using that by blast
    next
      case (Cons q qs)
      have q: "q \<noteq> []" "\<not> LJ_MAX_BUF \<le> length q" using ok(1) Cons by (auto simp: lex_ok_def)
      let ?l = "ls\<lparr>ls_blocks := qs, ls_p := tl q, ls_c := uint (hd q)\<rparr>"
      have "lex_next ls = Inr ?l" using p Cons q by (simp add: lex_next_def lex_more_def Let_def)
      moreover have "lex_at ?l d r n"
        using ok r p Cons q uint_u8 [of "hd q"] by (simp add: lex_at_def lex_ok_def lex_input_def)
      ultimately show thesis using that by blast
    qed
  qed
qed

lemma at_save:
  assumes "lex_at ls d r n" "length d < LJ_MAX_BUF"
  obtains ls' where "lex_save c ls = Inr ls'" "lex_at ls' (d @ [word_of_int c]) r n"
proof -
  have "puts (ls_sb ls) [word_of_int c] (lj_buf_putb (ls_sb ls) (word_of_int c))"
    using assms by (intro put_ops) (simp add: lex_at_def lex_ok_def)
  then obtain sb where "lj_buf_putb (ls_sb ls) (word_of_int c) = Inr sb" "sbuf_ok sb" "sb_data sb = d @ [word_of_int c]"
    using assms by (auto simp: puts_def lex_at_def sbuflen_def)
  then show thesis
    using that [of "ls\<lparr>ls_sb := sb\<rparr>"] assms by (simp add: lex_save_def lex_at_def)
qed

lemma at_savenext:
  assumes "lex_at ls d (x # r) n" "length d < LJ_MAX_BUF"
  obtains ls' where "lex_savenext ls = Inr ls'" "lex_at ls' (d @ [x]) r n"
proof -
  obtain a where a: "lex_save (ls_c ls) ls = Inr a" "lex_at a (d @ [word_of_int (ls_c ls)]) (x # r) n"
    using at_save [OF assms] by blast
  obtain b where "lex_next a = Inr b" "lex_at b (d @ [word_of_int (ls_c ls)]) r n" using at_next [OF a(2)] by blast
  then show thesis using that a(1) at_cur [OF assms(1)] by (simp add: lex_savenext_def)
qed

lemma at_newline:
  assumes "lex_at ls d (x # y # r) n" "x = 0x0a" "y \<noteq> 0x0a" "y \<noteq> 0x0d" "n + 1 < LJ_MAX_LINE"
  obtains ls' where "lex_newline ls = Inr ls'" "lex_at ls' d (y # r) (n + 1)"
proof -
  obtain a where a: "lex_next ls = Inr a" "lex_at a d (y # r) n" using at_next [OF assms(1)] by blast
  have "ls_c a = uint y" by (rule at_cur [OF a(2)])
  then have "\<not> lex_iseol a" using assms(3,4) by (auto simp: lex_iseol_def) (metis uint_u8(5) word_of_int_numeral)+
  moreover have "ls_line a = n" using a(2) by (simp add: lex_at_def)
  ultimately have "lex_newline ls = Inr (a\<lparr>ls_line := n + 1\<rparr>)"
    using a(1) assms(5) by (simp add: lex_newline_def)
  moreover have "lex_at (a\<lparr>ls_line := n + 1\<rparr>) d (y # r) (n + 1)"
    using a(2) by (simp add: lex_at_def)
  ultimately show thesis using that by blast
qed

section \<open>Reading quoted strings\<close>

lemma char_tests:
  assumes "- 1 \<le> c" "c < 256"
  shows "lj_char_isdigit c \<longleftrightarrow> 48 \<le> c \<and> c \<le> 57" "lj_char_iscntrl c \<longleftrightarrow> 0 \<le> c \<and> c < 32 \<or> c = 127"
  using char_bits_range [OF assms]
  by (elim disjE; simp add: lj_char_defs lj_char_isa_def lj_char_sets char_bits_0)+

definition dig :: "nat \<Rightarrow> u8" where "dig n = 0x30 + of_nat n"

lemma uint_dig: "n < 10 \<Longrightarrow> uint (dig n) = 48 + int n"
proof -
  assume n: "n < 10"
  have "list_all (\<lambda>n. uint (dig n) = 48 + int n) [0, 1, 2, 3, 4, 5, 6, 7, 8, 9]" by (simp add: dig_def)
  moreover have "n \<in> set [0, 1, 2, 3, 4, 5, 6, 7, 8, 9]" using n by auto
  ultimately show ?thesis by (simp only: list_all_iff)
qed

lemma isdigit_dig: "n < 10 \<Longrightarrow> lj_char_isdigit (uint (dig n))"
  using char_tests(1) [OF uint_u8(2,3), of "dig n"] uint_dig [of n] by simp

text \<open>The escape of a byte whose value has the decimal digits \<open>ns\<close>.\<close>

lemma at_escape:
  assumes "lex_at ls d (0x5c # x # r) n"
  obtains a where "lex_next ls = Inr a" "lex_at a d (x # r) n" "ls_c a = uint x"
  using at_next [OF assms] at_cur by metis

lemma at_decimal1:
  assumes at: "lex_at ls d (dig i # y # r) n" and y: "\<not> lj_char_isdigit (uint y)" and i: "i < 10" and d: "length d < LJ_MAX_BUF"
  obtains ls' where "lex_decimal (uint (dig i)) ls = Inr ls'" "lex_at ls' (d @ [of_nat i]) (y # r) n"
proof -
  obtain a where a: "lex_next ls = Inr a" "lex_at a d (y # r) n" using at_next [OF at] by blast
  obtain b where b: "lex_save (int i) a = Inr b" "lex_at b (d @ [word_of_int (int i)]) (y # r) n"
    using at_save [OF a(2) d] by blast
  show thesis using that [of b] b a(1) y at_cur [OF a(2)] uint_dig [OF i] by (simp add: lex_decimal_def)
qed

lemma at_decimal2:
  assumes at: "lex_at ls d (dig i # dig j # y # r) n" and y: "\<not> lj_char_isdigit (uint y)" and i: "i < 10" "j < 10"
    and d: "length d < LJ_MAX_BUF"
  obtains ls' where "lex_decimal (uint (dig i)) ls = Inr ls'" "lex_at ls' (d @ [of_nat (10 * i + j)]) (y # r) n"
proof -
  obtain a where a: "lex_next ls = Inr a" "lex_at a d (dig j # y # r) n" using at_next [OF at] by blast
  obtain b where b: "lex_next a = Inr b" "lex_at b d (y # r) n" using at_next [OF a(2)] by blast
  have c: "int i * 10 + int j = int (10 * i + j)" by simp
  obtain e where e: "lex_save (int (10 * i + j)) b = Inr e" "lex_at e (d @ [word_of_int (int (10 * i + j))]) (y # r) n"
    using at_save [OF b(2) d] by blast
  have "lex_decimal (uint (dig i)) ls = Inr e"
    using a(1) b(1) e(1) y at_cur [OF a(2)] at_cur [OF b(2)] isdigit_dig [OF i(2)] unfolding lex_decimal_def Let_def
    by (simp add: uint_dig i c)
  then show thesis using that e(2) by simp
qed

lemma at_decimal3:
  assumes at: "lex_at ls d (dig i # dig j # dig k # r) n" and i: "i < 10" "j < 10" "k < 10" and l: "100 * i + 10 * j + k < 256"
    and d: "length d < LJ_MAX_BUF"
  obtains ls' where "lex_decimal (uint (dig i)) ls = Inr ls'" "lex_at ls' (d @ [of_nat (100 * i + 10 * j + k)]) r n"
proof -
  obtain a where a: "lex_next ls = Inr a" "lex_at a d (dig j # dig k # r) n" using at_next [OF at] by blast
  obtain b where b: "lex_next a = Inr b" "lex_at b d (dig k # r) n" using at_next [OF a(2)] by blast
  obtain e where e: "lex_next b = Inr e" "lex_at e d r n" using at_next [OF b(2)] by blast
  let ?v = "100 * i + 10 * j + k"
  have c: "(int i * 10 + int j) * 10 + int k = int ?v" by simp
  have v: "\<not> 255 < int ?v" using l by simp
  obtain f where f: "lex_save (int ?v) e = Inr f" "lex_at f (d @ [word_of_int (int ?v)]) r n"
    using at_save [OF e(2) d] by blast
  have "lex_decimal (uint (dig i)) ls = Inr f"
    using a(1) b(1) e(1) f(1) v at_cur [OF a(2)] at_cur [OF b(2)] isdigit_dig [OF i(2)] isdigit_dig [OF i(3)]
    unfolding lex_decimal_def Let_def by (simp add: uint_dig i c algebra_simps)
  then show thesis using that f(2) by simp
qed

text \<open>What the quoting conversion writes for a control character.\<close>

definition ctrl_digits :: "nat \<Rightarrow> bool \<Rightarrow> nat list" where
  "ctrl_digits c b =
     (if 100 \<le> c \<or> b then [c div 100, c div 10 mod 10, c mod 10] else if 10 \<le> c then [c div 10, c mod 10] else [c])"

definition ctrl_text :: "u8 \<Rightarrow> bool \<Rightarrow> bytes" where
  "ctrl_text c b =
     (if 100 \<le> c \<or> b then
        let h = 0x30 + (if 100 \<le> c then 1 else 0); c = (if 100 \<le> c then c - 100 else c);
            d = drop_bit 11 ((ucast c :: u32) * 205)
        in [h, 0x30 + ucast d, c - ucast d * 10 + 0x30]
      else if 10 \<le> c then
        let d = drop_bit 11 ((ucast c :: u32) * 205)
        in [0x30 + ucast d, c - ucast d * 10 + 0x30]
      else [c + 0x30])"

definition ctrl_right :: "u8 \<Rightarrow> bool" where
  "ctrl_right c \<longleftrightarrow> ctrl_text c True = map dig (ctrl_digits (unat c) True) \<and> ctrl_text c False = map dig (ctrl_digits (unat c) False)"

lemma upt_32: "[0..<32] = [0, 1, 2, 3, 4, 5, 6, 7, 8, 9, 10, 11, 12, 13, 14, 15, 16, 17, 18, 19, 20, 21, 22, 23, 24, 25, 26, 27, 28, 29, 30, 31]"
  by code_simp

lemma ctrl_text_list: "list_all (\<lambda>n. ctrl_right (of_nat n)) (127 # [0..<32])"
  unfolding upt_32 by (simp add: ctrl_right_def ctrl_text_def ctrl_digits_def dig_def, simp add: word_le_nat_alt)

lemma quote_ctrl:
  assumes "lj_char_iscntrl (uint c)" "c \<noteq> 0x0a"
  shows "quote_char c s = 0x5c # map dig (ctrl_digits (unat c) (lj_char_isdigit (uint s)))"
proof -
  have u: "uint c < 32 \<or> uint c = 127" using assms(1) char_tests(2) [OF uint_u8(2,3)] by auto
  then have q: "c \<noteq> 0x22" "c \<noteq> 0x5c" by auto
  have "unat c < 32 \<or> unat c = 127" unfolding unat_eq_nat_uint using u by linarith
  then have "unat c \<in> set (127 # [0..<32])" unfolding set_simps set_upt by auto
  then have "ctrl_right (of_nat (unat c))" by (rule bspec [OF ctrl_text_list [unfolded list_all_iff]])
  then have "ctrl_right c" by simp
  then have t: "ctrl_text c b = map dig (ctrl_digits (unat c) b)" for b by (cases b) (simp_all add: ctrl_right_def)
  show ?thesis unfolding t [symmetric] quote_char_def ctrl_text_def using assms q by (simp only: if_False if_True simp_thms append_Cons append_Nil Let_def)
qed

fun quoted :: "bytes \<Rightarrow> bytes" where
  "quoted [] = [0x22]"
| "quoted (c # s) = quote_char c (case s of [] \<Rightarrow> 0 | d # _ \<Rightarrow> d) @ quoted s"

lemma quote_cases [case_names escaped newline control plain]:
  assumes "c = 0x22 \<or> c = 0x5c \<Longrightarrow> quote_char c s = [0x5c, c] \<Longrightarrow> P"
    and "c = 0x0a \<Longrightarrow> quote_char c s = [0x5c, c] \<Longrightarrow> P"
    and "c \<noteq> 0x0a \<Longrightarrow> quote_char c s = 0x5c # map dig (ctrl_digits (unat c) (lj_char_isdigit (uint s))) \<Longrightarrow> P"
    and "c \<noteq> 0x22 \<Longrightarrow> c \<noteq> 0x5c \<Longrightarrow> \<not> lj_char_iscntrl (uint c) \<Longrightarrow> quote_char c s = [c] \<Longrightarrow> P"
  shows P
proof -
  consider "c = 0x22 \<or> c = 0x5c" | "c = 0x0a" | "c \<noteq> 0x0a" "lj_char_iscntrl (uint c)"
    | "c \<noteq> 0x22" "c \<noteq> 0x5c" "c \<noteq> 0x0a" "\<not> lj_char_iscntrl (uint c)" by blast
  then show P
  proof cases
    case 1
    then have "quote_char c s = [0x5c, c]" unfolding quote_char_def by auto
    then show P using assms(1) 1 by blast
  next
    case 2
    then have "quote_char c s = [0x5c, c]" unfolding quote_char_def by auto
    then show P using assms(2) 2 by blast
  next
    case 3
    then show P using assms(3) quote_ctrl by blast
  next
    case 4
    then have "quote_char c s = [c]" unfolding quote_char_def by auto
    then show P using assms(4) 4 by blast
  qed
qed

lemma not_cntrl: "\<not> lj_char_iscntrl (uint (c::u8)) \<Longrightarrow> c \<noteq> 0x0a \<and> c \<noteq> 0x0d"
  using char_tests(2) [OF uint_u8(2,3), of c] by auto

lemma quoted_head:
  obtains y r where "quoted s = y # r" "y \<noteq> 0x0a" "y \<noteq> 0x0d"
    "lj_char_isdigit (uint y) \<Longrightarrow> lj_char_isdigit (uint (case s of [] \<Rightarrow> 0 | d # _ \<Rightarrow> d))"
proof -
  have b: "\<not> lj_char_isdigit (uint (0x5c :: u8))" "\<not> lj_char_isdigit (uint (0x22 :: u8))" using char_tests(1) by simp_all
  show thesis
  proof (cases s)
    case Nil
    then show thesis using that [of "0x22"] b by simp
  next
    case (Cons c t)
    show thesis
      by (rule quote_cases [of c "case t of [] \<Rightarrow> 0 | d # _ \<Rightarrow> d"])
        (use that [of "0x5c"] that [of c] b Cons not_cntrl [of c] in \<open>auto split: if_splits\<close>)
  qed
qed

lemma loop_escape:
  assumes "lex_at ls d (0x5c # q) n" "lex_escape ls = Inr ls'"
  shows "lex_string_loop 0x22 ls = lex_string_loop 0x22 ls'"
proof -
  have "ls_c ls = 0x5c" using at_cur [OF assms(1)] by simp
  then show ?thesis using assms(2) by (simp add: lex_string_loop.simps [of _ ls] LEX_EOF_def lex_iseol_def)
qed

lemma escape_self:
  assumes at: "lex_at ls d (0x5c # c # r) n" and c: "c = 0x22 \<or> c = 0x5c" and d: "length d < LJ_MAX_BUF"
  obtains ls' where "lex_escape ls = Inr ls'" "lex_at ls' (d @ [c]) r n"
proof -
  obtain a where a: "lex_next ls = Inr a" "lex_at a d (c # r) n" "ls_c a = uint c" using at_escape [OF at] by blast
  obtain b where b: "lex_save (uint c) a = Inr b" "lex_at b (d @ [word_of_int (uint c)]) (c # r) n"
    using at_save [OF a(2) d] by blast
  obtain e where e: "lex_next b = Inr e" "lex_at e (d @ [word_of_int (uint c)]) r n" using at_next [OF b(2)] by blast
  have "lex_escape ls = Inr e" using a b e c by (auto simp: lex_escape_def)
  then show thesis using that e(2) by simp
qed

lemma escape_newline:
  assumes at: "lex_at ls d (0x5c # 0x0a # y # r) n" and y: "y \<noteq> 0x0a" "y \<noteq> 0x0d" and d: "length d < LJ_MAX_BUF" "n + 1 < LJ_MAX_LINE"
  obtains ls' where "lex_escape ls = Inr ls'" "lex_at ls' (d @ [0x0a]) (y # r) (n + 1)"
proof -
  obtain a where a: "lex_next ls = Inr a" "lex_at a d (0x0a # y # r) n" "ls_c a = uint (0x0a :: u8)" using at_escape [OF at] by blast
  obtain b where b: "lex_save 0x0a a = Inr b" "lex_at b (d @ [word_of_int 0x0a]) (0x0a # y # r) n" using at_save [OF a(2) d(1)] by blast
  obtain e where e: "lex_newline b = Inr e" "lex_at e (d @ [word_of_int 0x0a]) (y # r) (n + 1)"
    using at_newline [OF b(2) refl y d(2)] by blast
  have "lex_escape ls = Inr e" using a b e by (simp add: lex_escape_def)
  then show thesis using that e(2) by simp
qed

lemma escape_digit:
  assumes "lex_at ls d (0x5c # dig i # r) n" "i < 10"
  obtains a where "lex_at a d (dig i # r) n" "lex_escape ls = lex_decimal (uint (dig i)) a"
proof -
  obtain a where a: "lex_next ls = Inr a" "lex_at a d (dig i # r) n" "ls_c a = uint (dig i)" using at_escape [OF assms(1)] by blast
  have "lex_escape ls = lex_decimal (uint (dig i)) a"
    using a(1,3) assms(2) isdigit_dig [OF assms(2)] by (simp add: lex_escape_def LEX_EOF_def uint_dig)
  then show thesis using that a(2) by blast
qed

lemma escape_control:
  assumes at: "lex_at ls d (0x5c # map dig (ctrl_digits c b) @ y # r) n" and y: "lj_char_isdigit (uint y) \<Longrightarrow> b" and c: "c < 256"
    and d: "length d < LJ_MAX_BUF"
  obtains ls' where "lex_escape ls = Inr ls'" "lex_at ls' (d @ [of_nat c]) (y # r) n"
proof -
  consider (three) "100 \<le> c \<or> b" | (two) "\<not> b" "10 \<le> c" "c < 100" | (one) "\<not> b" "c < 10" by linarith
  then show thesis
  proof cases
    case three
    have l: "map dig (ctrl_digits c b) @ y # r = dig (c div 100) # dig (c div 10 mod 10) # dig (c mod 10) # y # r" using three by (simp add: ctrl_digits_def)
    have h: "c div 100 = c div 10 div 10" by (simp only: div_mult2_eq [symmetric]) simp
    have i: "c div 100 < 10" "c div 10 mod 10 < 10" "c mod 10 < 10" using c by simp_all
    have i4: "100 * (c div 100) + 10 * (c div 10 mod 10) + c mod 10 = c"
      using div_mult_mod_eq [of c 10] div_mult_mod_eq [of "c div 10" 10] unfolding h by linarith
    obtain a where a: "lex_at a d (dig (c div 100) # dig (c div 10 mod 10) # dig (c mod 10) # y # r) n"
      "lex_escape ls = lex_decimal (uint (dig (c div 100))) a"
      using escape_digit [OF at [unfolded l] i(1)] by blast
    have v: "100 * (c div 100) + 10 * (c div 10 mod 10) + c mod 10 < 256" unfolding i4 by (rule c)
    show thesis by (rule at_decimal3 [OF a(1) i v d]) (use that in \<open>simp only: a(2) i4\<close>)
  next
    case two
    have l: "map dig (ctrl_digits c b) @ y # r = dig (c div 10) # dig (c mod 10) # y # r" using two by (simp add: ctrl_digits_def)
    have i: "c div 10 < 10" "c mod 10 < 10" "10 * (c div 10) + c mod 10 = c" using two by simp_all
    obtain a where a: "lex_at a d (dig (c div 10) # dig (c mod 10) # y # r) n" "lex_escape ls = lex_decimal (uint (dig (c div 10))) a"
      using escape_digit [OF at [unfolded l] i(1)] by blast
    have v: "\<not> lj_char_isdigit (uint y)" using two(1) y by blast
    show thesis by (rule at_decimal2 [OF a(1) v i(1,2) d]) (use that in \<open>simp only: a(2) i(3)\<close>)
  next
    case one
    have l: "map dig (ctrl_digits c b) @ y # r = dig c # y # r" using one by (simp add: ctrl_digits_def)
    obtain a where a: "lex_at a d (dig c # y # r) n" "lex_escape ls = lex_decimal (uint (dig c)) a"
      using escape_digit [OF at [unfolded l] one(2)] by blast
    have v: "\<not> lj_char_isdigit (uint y)" using one(1) y by blast
    show thesis by (rule at_decimal1 [OF a(1) v one(2) d]) (use that in \<open>simp only: a(2)\<close>)
  qed
qed

text \<open>One byte of the string, and all of them.\<close>

lemma string_step:
  assumes at: "lex_at ls d (quote_char c t @ y # r) n" and y: "y \<noteq> 0x0a" "y \<noteq> 0x0d"
    "lj_char_isdigit (uint y) \<Longrightarrow> lj_char_isdigit (uint t)" and d: "length d < LJ_MAX_BUF" "n + 1 < LJ_MAX_LINE"
  obtains ls' where "lex_string_loop 0x22 ls = lex_string_loop 0x22 ls'"
    "lex_at ls' (d @ [c]) (y # r) (if c = 0x0a then n + 1 else n)"
proof (rule quote_cases [of c t])
  assume c: "c = 0x22 \<or> c = 0x5c" "quote_char c t = [0x5c, c]"
  have q: "lex_at ls d (0x5c # c # y # r) n" using at c(2) by simp
  have n: "c \<noteq> 0x0a" using c(1) by auto
  obtain ls' where "lex_escape ls = Inr ls'" "lex_at ls' (d @ [c]) (y # r) n" using escape_self [OF q c(1) d(1)] by blast
  then show thesis using that loop_escape [OF q] n by simp
next
  assume c: "c = 0x0a" "quote_char c t = [0x5c, c]"
  have q: "lex_at ls d (0x5c # 0x0a # y # r) n" using at c by simp
  obtain ls' where "lex_escape ls = Inr ls'" "lex_at ls' (d @ [0x0a]) (y # r) (n + 1)" using escape_newline [OF q y(1,2) d] by blast
  then show thesis using that loop_escape [OF q] c(1) by simp
next
  assume c: "c \<noteq> 0x0a" "quote_char c t = 0x5c # map dig (ctrl_digits (unat c) (lj_char_isdigit (uint t)))"
  have q: "lex_at ls d (0x5c # map dig (ctrl_digits (unat c) (lj_char_isdigit (uint t))) @ y # r) n" using at c(2) by simp
  have u: "unat c < 256" unfolding unat_eq_nat_uint using uint_u8(3) [of c] by linarith
  obtain ls' where "lex_escape ls = Inr ls'" "lex_at ls' (d @ [of_nat (unat c)]) (y # r) n"
    using escape_control [OF q y(3) u d(1)] by blast
  then show thesis using that loop_escape [OF q] c(1) by simp
next
  assume c: "c \<noteq> 0x22" "c \<noteq> 0x5c" "\<not> lj_char_iscntrl (uint c)" "quote_char c t = [c]"
  have q: "lex_at ls d (c # y # r) n" using at c(4) by simp
  have u: "uint c \<noteq> k" if "c \<noteq> word_of_int k" for k using that by auto
  have v: "ls_c ls \<noteq> 0x22" "ls_c ls \<noteq> 0x5c" "ls_c ls \<noteq> 0x0a" "ls_c ls \<noteq> 0x0d" "ls_c ls \<noteq> - 1"
    unfolding at_cur [OF q] using c(1,2) not_cntrl [OF c(3)] u uint_u8(4) by simp_all
  obtain ls' where "lex_savenext ls = Inr ls'" "lex_at ls' (d @ [c]) (y # r) n" using at_savenext [OF q d(1)] by blast
  then show thesis using that v not_cntrl [OF c(3)] by (simp add: lex_string_loop.simps [of _ ls] LEX_EOF_def lex_iseol_def)
qed

lemma string_all:
  "lex_at ls d (quoted s @ r) n \<Longrightarrow> length d + length s \<le> LJ_MAX_BUF \<Longrightarrow> n + length s < LJ_MAX_LINE \<Longrightarrow>
    \<exists>ls' m. lex_string_loop 0x22 ls = Inr ls' \<and> lex_at ls' (d @ s) (0x22 # r) m"
proof (induction s arbitrary: ls d n)
  case Nil
  then have "lex_at ls d (0x22 # r) n" by simp
  moreover from this have "ls_c ls = 0x22" using at_cur by fastforce
  ultimately show ?case by (auto simp: lex_string_loop.simps [of _ ls])
next
  case (Cons c s)
  obtain y q where y: "quoted s = y # q" "y \<noteq> 0x0a" "y \<noteq> 0x0d"
    "lj_char_isdigit (uint y) \<Longrightarrow> lj_char_isdigit (uint (case s of [] \<Rightarrow> 0 | d # _ \<Rightarrow> d))"
    by (rule quoted_head [of s]) blast
  have at: "lex_at ls d (quote_char c (case s of [] \<Rightarrow> 0 | d # _ \<Rightarrow> d) @ y # q @ r) n" using Cons.prems(1) y(1) by simp
  have d: "length d < LJ_MAX_BUF" "n + 1 < LJ_MAX_LINE" using Cons.prems(2,3) by simp_all
  obtain a where a: "lex_string_loop 0x22 ls = lex_string_loop 0x22 a" "lex_at a (d @ [c]) (y # q @ r) (if c = 0x0a then n + 1 else n)"
    by (rule string_step [OF at y(2,3) _ d]) (use y(4) in blast)+
  have "lex_at a (d @ [c]) (quoted s @ r) (if c = 0x0a then n + 1 else n)" using a(2) y(1) by simp
  then show ?case using Cons.IH [of a "d @ [c]" "if c = 0x0a then n + 1 else n"] Cons.prems(2,3) a(1) by simp
qed

lemma quote_loop_data:
  "sbuf_ok sb \<Longrightarrow> quote_loop s sb = Inr sb' \<Longrightarrow> sbuf_ok sb' \<and> sb_data sb' @ [0x22] = sb_data sb @ quoted s"
proof (induction s sb rule: quote_loop.induct)
  case (1 sb)
  then show ?case by simp
next
  case (2 c s sb)
  let ?q = "quote_char c (case s of [] \<Rightarrow> 0 | d # _ \<Rightarrow> d)"
  obtain a where a: "lj_buf_more sb 4 = Inr a" "quote_loop s (lj_buf_wmem a ?q) = Inr sb'"
    using "2.prems"(2) by (auto split: sum.splits)
  have "length ?q \<le> 4" by (rule quote_cases [of c "case s of [] \<Rightarrow> 0 | d # _ \<Rightarrow> d"]) (auto simp: ctrl_digits_def)
  then have "sbuf_ok (lj_buf_wmem a ?q) \<and> sb_data (lj_buf_wmem a ?q) = sb_data sb @ ?q"
    using lj_buf_more_ok [OF "2.prems"(1), of 4] a(1) by (auto simp: lj_buf_wmem_def sbuf_ok_def sbuflen_def sbufleft_def)
  then show ?case using "2.IH" [OF a(1) _ a(2)] by simp
qed

lemma reset_ok: "sbuf_ok sb \<Longrightarrow> sbuf_ok (lj_buf_reset sb)"
  by (simp add: lj_buf_reset_def sbuf_ok_def sbuflen_def)

lemma putquoted_data:
  assumes "sbuf_ok sb" "lj_strfmt_putquoted sb s = Inr sb'"
  shows "drop (sbuflen sb) (sb_data sb') = 0x22 # quoted s"
proof -
  obtain a b where a: "lj_buf_putb sb 0x22 = Inr a" "quote_loop s a = Inr b" "lj_buf_putb b 0x22 = Inr sb'"
    using assms(2) by (auto simp: lj_strfmt_putquoted_def split: sum.splits)
  have a1: "sbuf_ok a" "sb_data a = sb_data sb @ [0x22]" using put_ops(3) [OF assms(1), of "0x22"] a(1) by (auto simp: puts_def)
  have b1: "sbuf_ok b" "sb_data b @ [0x22] = sb_data a @ quoted s" using quote_loop_data [OF a1(1) a(2)] by blast+
  have "sb_data sb' = sb_data b @ [0x22]" using put_ops(3) [OF b1(1), of "0x22"] a(3) by (auto simp: puts_def)
  then show ?thesis unfolding b1(2) a1(2) by (simp add: sbuflen_def)
qed

text \<open>
  C37. What the quoting conversion appends to a buffer, the lexer reads as one string token with
  exactly the contents of the string, whatever bytes it has (quotes, backslashes, line breaks, control
  characters before digits, bytes above 127), however the reader cuts the text into blocks, and it
  stops right behind the closing quote.
\<close>

theorem quoted_lex:
  assumes "sbuf_ok sb" "lj_strfmt_putquoted sb str = Inr sb'"
    and "lex_ok ls" "lex_input ls = drop (sbuflen sb) (sb_data sb') @ r"
    and "length str + 2 \<le> LJ_MAX_BUF" "ls_line ls + length str < LJ_MAX_LINE"
  shows "\<exists>ls'. lex_scan ls = Inr (TK_string, TvStr str, ls') \<and> lex_ok ls' \<and> lex_input ls' = r"
proof -
  let ?l = "lex_resetbuf ls"
  have q: "lex_at ?l [] (0x22 # quoted str @ r) (ls_line ls)"
    using assms(3,4) putquoted_data [OF assms(1,2)] reset_ok [of "ls_sb ls"]
    by (simp add: lex_at_def lex_resetbuf_def) (simp add: lex_ok_def lj_buf_reset_def)
  have m: "0 < LJ_MAX_BUF" using assms(5) by linarith
  have c: "ls_c ?l = 0x22" using at_cur [OF q] by simp
  obtain a where a: "lex_savenext ?l = Inr a" "lex_at a [0x22] (quoted str @ r) (ls_line ls)"
    using at_savenext [OF q] m by auto
  obtain b n where b: "lex_string_loop 0x22 a = Inr b" "lex_at b ([0x22] @ str) (0x22 # r) n"
    using string_all [OF a(2)] assms(5,6) by auto
  obtain e where e: "lex_savenext b = Inr e" "lex_at e ([0x22] @ str @ [0x22]) r n"
    using at_savenext [OF b(2)] assms(5) by auto
  have d: "sb_data (ls_sb e) = [0x22] @ str @ [0x22]" using e(2) by (simp add: lex_at_def)
  have "lex_string ?l = Inr (TvStr str, e)"
    unfolding lex_string_def Let_def c a(1) b(1) e(1) lbind_simps using d by (simp add: sbuflen_def)
  moreover have "\<not> lj_char_isident 0x22" by (simp add: lj_char_isident_def lj_char_isa_def LJ_CHAR_IDENT_def lj_char_bits_def)
  ultimately have "lex_scan ls = Inr (TK_string, TvStr str, e)"
    unfolding lex_scan_def by (subst lex_scan_loop.simps) (simp add: c)
  then show ?thesis using e(2) by (auto simp: lex_at_def)
qed

definition lex_example :: lexstate where
  "lex_example = \<lparr>ls_p = [0x5c], ls_blocks = [[0x5c, 0x5c, 0x31], [0x33, 0x22, 0x3b]], ls_c = 0x22,
     ls_sb = \<lparr>sb_data = [], sb_size = 0\<rparr>, ls_line = 1, ls_lastline = 1, ls_tok = 0, ls_tokval = TvNone,
     ls_lookahead = 289, ls_lookaheadval = TvNone\<rparr>"

theorem quoted_lex_witness:
  "case lex_scan lex_example of Inr (tok, tv, ls') \<Rightarrow> tok = TK_string \<and> tv = TvStr [0x5c, 0x0d] \<and> lex_input ls' = [0x3b]
    | Inl _ \<Rightarrow> False"
proof -
  let ?sb = "\<lparr>sb_data = [], sb_size = 0\<rparr>" and ?sb' = "\<lparr>sb_data = [0x22, 0x5c, 0x5c, 0x5c, 0x31, 0x33, 0x22], sb_size = 32\<rparr>"
  have q: "lj_strfmt_putquoted ?sb [0x5c, 0x0d] = Inr ?sb'" by code_simp
  have "sbuf_ok ?sb" "lex_ok lex_example" by (simp_all add: sbuf_ok_def sbuflen_def lex_ok_def lex_example_def lj_limits)
  moreover have "lex_input lex_example = drop (sbuflen ?sb) (sb_data ?sb') @ [0x3b]"
    by (simp add: lex_input_def lex_example_def sbuflen_def)
  moreover have "length [0x5c, 0x0d :: u8] + 2 \<le> LJ_MAX_BUF" "ls_line lex_example + length [0x5c, 0x0d :: u8] < LJ_MAX_LINE"
    by (simp_all add: lex_example_def LJ_MAX_LINE_def lj_limits)
  ultimately show ?thesis using quoted_lex [OF _ q] by fastforce
qed

section \<open>Progress\<close>

lemma string_loop_todo: "lex_string_loop delim ls = Inr ls' \<Longrightarrow> lex_todo ls' \<le> lex_todo ls"
proof (induction delim ls rule: lex_string_loop.induct)
  case (1 delim ls)
  show ?case
  proof (cases "ls_c ls = delim")
    case True
    then show ?thesis using "1.prems" by (simp add: lex_string_loop.simps [of delim ls])
  next
    case d: False
    then have e: "ls_c ls \<noteq> LEX_EOF" "\<not> lex_iseol ls" using "1.prems" by (auto simp: lex_string_loop.simps [of delim ls] split: if_splits)
    show ?thesis
    proof (cases "ls_c ls = 0x5c")
      case True
      then obtain a where a: "lex_escape ls = Inr a" "lex_string_loop delim a = Inr ls'"
        using "1.prems" d e by (auto simp: lex_string_loop.simps [of delim ls] lbind_Inr)
      then show ?thesis using "1.IH"(1) [OF d e True a] lex_escape_todo [OF a(1)] todo_avail(1) [of ls] by linarith
    next
      case False
      then obtain a where a: "lex_savenext ls = Inr a" "lex_string_loop delim a = Inr ls'"
        using "1.prems" d e by (auto simp: lex_string_loop.simps [of delim ls] lbind_Inr)
      then show ?thesis using "1.IH"(2) [OF d e False a] lex_savenext_todo [OF a(1)] todo_avail(1) [of ls] by linarith
    qed
  qed
qed

lemma string_todo: "lex_string ls = Inr (tv, ls') \<Longrightarrow> lex_todo ls' \<le> lex_avail ls"
proof -
  assume s: "lex_string ls = Inr (tv, ls')"
  obtain a b where "lex_savenext ls = Inr a" "lex_string_loop (ls_c ls) a = Inr b" "lex_savenext b = Inr ls'"
    using s by (auto simp: lex_string_def Let_def lbind_Inr)
  then show ?thesis
    using lex_savenext_todo [of ls a] string_loop_todo [of "ls_c ls" a b] lex_savenext_todo [of b ls'] todo_avail(1) [of b]
    by linarith
qed

lemma number_loop_todo: "lex_number_loop xp c ls = Inr ls' \<Longrightarrow>
    lex_todo ls' \<le> lex_todo ls \<and> (lj_char_isident (ls_c ls) \<longrightarrow> lex_todo ls' \<le> lex_avail ls)"
proof (induction xp c ls rule: lex_number_loop.induct)
  case (1 xp c ls)
  let ?g = "lj_char_isident (ls_c ls) \<or> ls_c ls = 0x2e \<or> (ls_c ls = 0x2d \<or> ls_c ls = 0x2b) \<and> c OR 0x20 = xp"
  show ?case
  proof (cases ?g)
    case True
    then obtain a where a: "lex_savenext ls = Inr a" "lex_number_loop xp (ls_c ls) a = Inr ls'"
      using "1.prems" unfolding lex_number_loop.simps [of xp c ls] if_P [OF True] Let_def lbind_Inr by blast
    then show ?thesis using "1.IH" [OF True refl a] lex_savenext_todo [OF a(1)] todo_avail(1) [of ls] by linarith
  next
    case False
    then show ?thesis using "1.prems" unfolding lex_number_loop.simps [of xp c ls] if_not_P [OF False] by auto
  qed
qed

lemma number_tok_todo: "lex_number_tok ls = Inr (tok, tv, ls') \<Longrightarrow>
    lex_todo ls' \<le> lex_todo ls \<and> (lj_char_isident (ls_c ls) \<longrightarrow> lex_todo ls' \<le> lex_avail ls)"
proof -
  assume t: "lex_number_tok ls = Inr (tok, tv, ls')"
  obtain s where n: "lex_number ls = Inr (s, ls')" using t by (auto simp: lex_number_tok_def lbind_Inr)
  obtain a xp b where a: "(if ls_c ls = 0x30 then lex_savenext ls else Inr ls) = Inr a" "lex_number_loop xp (ls_c ls) a = Inr b"
    "lex_save 0 b = Inr ls'"
    using n by (auto simp: lex_number_def Let_def lbind_Inr)
  have "lex_todo ls' \<le> lex_todo a" using number_loop_todo [OF a(2)] lex_save_avail [OF a(3)] by simp
  moreover have "ls_c ls \<noteq> 0x30 \<Longrightarrow> lj_char_isident (ls_c ls) \<Longrightarrow> lex_todo ls' \<le> lex_avail ls"
    using a(1) number_loop_todo [OF a(2)] lex_save_avail [OF a(3)] by simp
  ultimately show ?thesis
    using a(1) lex_savenext_todo [of ls a] todo_avail(1) [of ls] by (auto split: if_splits)
qed

lemma next_tok: "lbind (lex_next ls) (\<lambda>ls. Inr (tok, TvNone, ls)) = Inr (t, tv, ls') \<Longrightarrow> lex_todo ls' \<le> lex_avail ls"
  using lex_next_todo by (auto simp: lbind_Inr)

lemma two_todo: "lex_two c c2 tok ls = Inr (t, tv, ls') \<Longrightarrow> lex_todo ls' \<le> lex_avail ls"
proof -
  assume l: "lex_two c c2 tok ls = Inr (t, tv, ls')"
  obtain a where a: "lex_next ls = Inr a" "(if ls_c a \<noteq> c2 then Inr (c, TvNone, a)
      else lbind (lex_next a) (\<lambda>ls. Inr (tok, TvNone, ls))) = Inr (t, tv, ls')"
    using l unfolding lex_two_def lbind_Inr by blast
  have "lex_todo ls' \<le> lex_todo a"
    using a(2) next_tok [of a tok t tv ls'] todo_avail(1) [of a] by (cases "ls_c a = c2") simp_all
  then show ?thesis using lex_next_todo [OF a(1)] by linarith
qed

lemma ident_todo: "lex_ident ls = Inr (t, tv, ls') \<Longrightarrow> lex_todo ls' \<le> lex_avail ls"
  using lex_savenext_todo lex_ident_loop_todo by (fastforce simp: lex_ident_def lbind_Inr Let_def intro: le_trans)

text \<open>A token other than the end is behind at least one character.\<close>

lemma dash_todo:
  assumes "lbind (lex_next ls) (\<lambda>ls. if ls_c ls \<noteq> 0x2d then Inr (0x2d, TvNone, ls)
      else lbind (lex_next ls) (\<lambda>ls. lbind (lex_comment ls) scan)) = Inr (t, tv, ls')"
    and "\<And>a b d. lex_next ls = Inr a \<Longrightarrow> ls_c a = 0x2d \<Longrightarrow> lex_next a = Inr b \<Longrightarrow> lex_comment b = Inr d \<Longrightarrow>
      scan d = Inr (t, tv, ls') \<Longrightarrow> lex_todo ls' \<le> lex_todo d"
  shows "lex_todo ls' \<le> lex_avail ls"
proof -
  obtain a where a: "lex_next ls = Inr a" "(if ls_c a \<noteq> 0x2d then Inr (0x2d, TvNone, a)
      else lbind (lex_next a) (\<lambda>ls. lbind (lex_comment ls) scan)) = Inr (t, tv, ls')"
    using assms(1) unfolding lbind_Inr by blast
  show ?thesis
  proof (cases "ls_c a = 0x2d")
    case True
    then obtain b d where b: "lex_next a = Inr b" "lex_comment b = Inr d" "scan d = Inr (t, tv, ls')"
      using a(2) by (auto simp: lbind_Inr)
    then show ?thesis
      using assms(2) [OF a(1) True b] lex_comment_todo [OF b(2)] next_todo_le [OF b(1)] lex_next_todo [OF a(1)] by linarith
  next
    case False
    then show ?thesis using a lex_next_todo [OF a(1)] by simp
  qed
qed

lemma bracket_todo:
  assumes "lbind (lex_skipeq ls) (\<lambda>(sep, ls).
      if sep \<ge> 0 then lbind (lex_longstring True sep ls) (\<lambda>(tv, ls). Inr (TK_string, tv, ls))
      else if sep = - 1 then Inr (0x5b, TvNone, ls) else lj_lex_error TK_string LJ_ERR_XLDELIM ls) = Inr (t, tv, ls')"
  shows "lex_todo ls' \<le> lex_avail ls"
proof -
  obtain sep a where "lex_skipeq ls = Inr (sep, a)" "(if sep \<ge> 0 then lbind (lex_longstring True sep a) (\<lambda>(tv, ls). Inr (TK_string, tv, ls))
      else if sep = - 1 then Inr (0x5b, TvNone, a) else lj_lex_error TK_string LJ_ERR_XLDELIM a) = Inr (t, tv, ls')"
    using assms by (auto simp: lbind_Inr)
  then show ?thesis
    using lex_skipeq_todo [of ls sep a] lex_longstring_todo [of True sep a] by (fastforce simp: lbind_Inr split: if_splits)
qed

lemma dot_todo:
  assumes "lbind (lex_savenext ls) (\<lambda>ls.
      if ls_c ls = 0x2e then
        lbind (lex_next ls) (\<lambda>ls.
          if ls_c ls = 0x2e then lbind (lex_next ls) (\<lambda>ls. Inr (TK_dots, TvNone, ls)) else Inr (TK_concat, TvNone, ls))
      else if \<not> lj_char_isdigit (ls_c ls) then Inr (0x2e, TvNone, ls)
      else lex_number_tok ls) = Inr (t, tv, ls')"
  shows "lex_todo ls' \<le> lex_avail ls"
proof -
  obtain a where a: "lex_savenext ls = Inr a" "(if ls_c a = 0x2e then
        lbind (lex_next a) (\<lambda>ls.
          if ls_c ls = 0x2e then lbind (lex_next ls) (\<lambda>ls. Inr (TK_dots, TvNone, ls)) else Inr (TK_concat, TvNone, ls))
      else if \<not> lj_char_isdigit (ls_c a) then Inr (0x2e, TvNone, a) else lex_number_tok a) = Inr (t, tv, ls')"
    using assms unfolding lbind_Inr by blast
  have "lex_todo ls' \<le> lex_todo a"
  proof (cases "ls_c a = 0x2e")
    case True
    then obtain b where b: "lex_next a = Inr b" "(if ls_c b = 0x2e then lbind (lex_next b) (\<lambda>ls. Inr (TK_dots, TvNone, ls))
        else Inr (TK_concat, TvNone, b)) = Inr (t, tv, ls')"
      using a(2) by (auto simp: lbind_Inr)
    have "lex_todo ls' \<le> lex_todo b"
      using b(2) next_tok [of b TK_dots t tv ls'] todo_avail(1) [of b] by (cases "ls_c b = 0x2e") simp_all
    then show ?thesis using next_todo_le [OF b(1)] by linarith
  next
    case False
    then show ?thesis using a(2) number_tok_todo [of a t tv ls'] by (cases "lj_char_isdigit (ls_c a)") simp_all
  qed
  then show ?thesis using lex_savenext_todo [OF a(1)] by linarith
qed

lemma scan_loop_todo: "lex_scan_loop ls = Inr (t, tv, ls') \<Longrightarrow>
    lex_todo ls' \<le> lex_todo ls \<and> (t \<noteq> TK_eof \<longrightarrow> lex_todo ls' < lex_todo ls)"
proof (induction ls rule: lex_scan_loop.induct)
  case (1 ls)
  note eq = "1.prems" [unfolded lex_scan_loop.simps [of ls] Let_def]
  let ?c = "ls_c ls"
  show ?case
  proof (cases "?c = - 1")
    case True
    then show ?thesis using eq by (simp add: ident_not_eof LEX_EOF_def)
  next
    case c: False
    have less: ?thesis if "lex_todo ls' \<le> lex_avail ls" using that todo_avail(2) [of ls] c by (simp add: LEX_EOF_def)
    consider (ident) "lj_char_isident ?c" | (eol) "\<not> lj_char_isident ?c" "?c = 0x0a \<or> ?c = 0x0d"
      | (space) "\<not> lj_char_isident ?c" "?c = 0x20 \<or> ?c = 0x09 \<or> ?c = 0x0b \<or> ?c = 0x0c"
      | (dash) "\<not> lj_char_isident ?c" "?c = 0x2d" | (bracket) "\<not> lj_char_isident ?c" "?c = 0x5b"
      | (two) "\<not> lj_char_isident ?c" "?c = 0x3d \<or> ?c = 0x3c \<or> ?c = 0x3e \<or> ?c = 0x7e \<or> ?c = 0x3a"
      | (str) "\<not> lj_char_isident ?c" "?c = 0x22 \<or> ?c = 0x27" | (dot) "\<not> lj_char_isident ?c" "?c = 0x2e"
      | (other) "\<not> lj_char_isident ?c" "?c \<notin> {0x0a, 0x0d, 0x20, 0x09, 0x0b, 0x0c, 0x2d, 0x5b, 0x3d, 0x3c, 0x3e, 0x7e, 0x3a, 0x22, 0x27, 0x2e}"
      by blast
    then show ?thesis
    proof cases
      case ident
      then show ?thesis using eq less number_tok_todo [of ls t tv ls'] ident_todo [of ls t tv ls'] by (auto split: if_splits)
    next
      case eol
      then obtain a where a: "lex_newline ls = Inr a" "lex_scan_loop a = Inr (t, tv, ls')" using eq by (auto simp: lbind_Inr)
      then show ?thesis using "1.IH"(1) [OF refl eol a] lex_newline_todo [OF a(1)] less by linarith
    next
      case space
      then have n: "\<not> (?c = 0x0a \<or> ?c = 0x0d)" by auto
      obtain a where a: "lex_next ls = Inr a" "lex_scan_loop a = Inr (t, tv, ls')" using eq space n by (auto simp: lbind_Inr)
      then show ?thesis using "1.IH"(2) [OF refl space(1) n space(2) a] lex_next_todo [OF a(1)] less by linarith
    next
      case dash
      have "lex_todo ls' \<le> lex_avail ls"
        by (rule dash_todo [where scan = lex_scan_loop]) (use eq dash "1.IH"(3) [of ?c] in auto)
      then show ?thesis by (rule less)
    next
      case bracket
      then show ?thesis using eq by (intro less bracket_todo) simp
    next
      case two
      then show ?thesis using eq two_todo less by (elim disjE) simp_all
    next
      case str
      then obtain v where "lex_string ls = Inr (v, ls')" using eq by (auto simp: lbind_Inr)
      then show ?thesis using string_todo less by blast
    next
      case dot
      then show ?thesis using eq by (intro less dot_todo) simp
    next
      case other
      then show ?thesis using eq c by (intro less next_tok [of ls ?c t tv]) (simp add: LEX_EOF_def)
    qed
  qed
qed

section \<open>All tokens\<close>

text \<open>The tokens up to the end of the input; \<open>None\<close> if \<open>n\<close> calls are not enough.\<close>

fun lex_all :: "nat \<Rightarrow> lexstate \<Rightarrow> (lex_err + (int \<times> tokval) list) option" where
  "lex_all 0 ls = None"
| "lex_all (Suc n) ls =
     (case lex_scan ls of
        Inl e \<Rightarrow> Some (Inl e)
      | Inr (tok, tv, ls) \<Rightarrow>
          if tok = TK_eof then Some (Inr [])
          else map_option (map_sum id (Cons (tok, tv))) (lex_all n ls))"

lemma scan_todo: "lex_scan ls = Inr (t, tv, ls') \<Longrightarrow> t \<noteq> TK_eof \<Longrightarrow> lex_todo ls' < lex_todo ls"
  using scan_loop_todo [of "lex_resetbuf ls"] by (simp add: lex_scan_def)

text \<open>
  C38. On every input the scanner ends: after at most as many tokens as there are characters and blocks
  left to read it returns the end token or an error, and more calls do not change the result.
\<close>

theorem lex_all_ends: "\<exists>r. \<forall>k. lex_all (lex_todo ls + 1 + k) ls = Some r"
proof (induction "lex_todo ls" arbitrary: ls rule: less_induct)
  case less
  show ?case
  proof (cases "lex_scan ls")
    case (Inl e)
    then show ?thesis by simp
  next
    case (Inr x)
    obtain t tv a where x: "lex_scan ls = Inr (t, tv, a)" using Inr by (cases x) auto
    show ?thesis
    proof (cases "t = TK_eof")
      case True
      then show ?thesis using x by simp
    next
      case False
      have lt: "lex_todo a < lex_todo ls" by (rule scan_todo [OF x False])
      obtain r where r: "lex_all (lex_todo a + 1 + k) a = Some r" for k using less [OF lt] by blast
      have "lex_all (lex_todo ls + k) a = Some r" for k
        using r [of "lex_todo ls - lex_todo a - 1 + k"] lt by simp
      then show ?thesis using x False by simp
    qed
  qed
qed

end
