(* ===== verification/Spec2Isabelle.thy ===== *)
theory Spec2Isabelle
  imports LjTabProps LjBcTrip LjStrTab LjCarith LjIrProps LjFoldTerm LjStrfmtProps LjLexProps
begin

text \<open>
  A model of parts of the LuaJIT runtime under \<^verbatim>\<open>src/lib/luajit/src\<close>, the engine of the program,
  and the theorems that make these parts correct. The configuration is the default one on x64:
  little endian, 64 bit references (\<^verbatim>\<open>LJ_GC64\<close>, \<^verbatim>\<open>LJ_FR2\<close>), no dual-number mode, JIT and FFI enabled.

  \<^bold>\<open>The program.\<close> Source text goes through the lexer (\<^verbatim>\<open>lj_lex.c\<close>) to the parser, which emits bytecode
  (\<^verbatim>\<open>lj_bc.h\<close>); bytecode is dumped and loaded by \<^verbatim>\<open>lj_bcwrite.c\<close> and \<^verbatim>\<open>lj_bcread.c\<close>. The interpreter
  works on tagged values (\<^verbatim>\<open>lj_obj.h\<close>), tables (\<^verbatim>\<open>lj_tab.c\<close>) and interned strings (\<^verbatim>\<open>lj_str.c\<close>, seeded
  by \<^verbatim>\<open>lj_prng.c\<close>). Hot code is recorded as an intermediate representation (\<^verbatim>\<open>lj_ir.c\<close>), which every
  emitted instruction reaches through the folding engine (\<^verbatim>\<open>lj_opt_fold.c\<close>) with the arithmetic of
  \<^verbatim>\<open>lj_carith.c\<close> and \<^verbatim>\<open>lj_vmmath.c\<close>. String buffers (\<^verbatim>\<open>lj_buf.c\<close>) serve the lexer, the dump and the
  formatting of \<^verbatim>\<open>lj_strfmt.c\<close>.

  \<^bold>\<open>Conventions.\<close> A pointer into an array is an index into a list; a pointer to an object is its
  47 bit address as a word. Machine integers are words and wrap; a size that the code bounds by its
  limits is a natural number. Errors are values of a sum type. A function of the code that changes
  its argument returns it updated. Definitions bear the names of the functions they translate; a loop
  or a part of a function that is a definition of its own has a name derived from it. Loops are
  recursive functions with a termination proof, unless they follow links: there the fuel is the number
  of nodes or references, and the theorems show that it is never used up.

  \<^bold>\<open>Theories.\<close>
  \<^item> \<^verbatim>\<open>LjPrelude\<close>: integer types, limits and bit helpers of \<^verbatim>\<open>lj_def.h\<close>; lemmas on words, lists, search.
  \<^item> \<^verbatim>\<open>LjObj\<close>, \<^verbatim>\<open>LjKey\<close>: tagged values as 64 bit patterns, and which of them are table keys.
  \<^item> \<^verbatim>\<open>LjTab\<close>: every operation on the table state. \<^verbatim>\<open>LjTabNode\<close> and \<^verbatim>\<open>LjTabInv\<close>: the invariant of the
    collision chains and the finite map a table stands for. \<^verbatim>\<open>LjTabSet\<close>, \<^verbatim>\<open>LjTabPut\<close>,
    \<^verbatim>\<open>LjTabResize\<close>, \<^verbatim>\<open>LjTabRehash\<close>: insertion, resizing and the sizes of a rehash, with the locale
    \<open>key_inserter\<close> for what resizing needs of the insertion it calls. A rehash calls the insertion that
    called it; the model ties this knot at depth one, and the theorems show that a deeper nesting
    (the error \<open>TAB_NESTED\<close>) never happens. \<^verbatim>\<open>LjTabNext\<close>, \<^verbatim>\<open>LjTabLen\<close>: traversal and length.
    \<^verbatim>\<open>LjTabApi\<close>, \<^verbatim>\<open>LjTabProps\<close>: the locale \<open>keyed_store\<close> of a store with keys and its interpretation
    by the table; C1 to C10.
  \<^item> \<^verbatim>\<open>LjBuf\<close>: string buffers and ULEB128, with the locale \<open>byte_sink\<close>; C11, C12.
  \<^item> \<^verbatim>\<open>LjBc\<close>, \<^verbatim>\<open>LjBcWrite\<close>, \<^verbatim>\<open>LjBcRead\<close>, \<^verbatim>\<open>LjBcTrip\<close>: instructions, the writer and the reader of a dump,
    and the round trip; C13 to C16.
  \<^item> \<^verbatim>\<open>LjPrng\<close>, \<^verbatim>\<open>LjStr\<close>, \<^verbatim>\<open>LjStrTab\<close>: the generator, character classes, string helpers, and interning with
    its two hashes, growth and chain rehashing; C17 to C22. As with tables, the retry after a rehash is
    one level deep and the theorem shows that this is enough.
  \<^item> \<^verbatim>\<open>LjCarith\<close>: modulo, division, power and shifts; C23, C24, C39. An operand for which a C operator is
    undefined gives a value without equations, so the theorems show that the guards exclude it.
  \<^item> \<^verbatim>\<open>LjIr\<close>, \<^verbatim>\<open>LjIrInv\<close>, \<^verbatim>\<open>LjIrProps\<close>: the emitter, the constants and the rollback over an IR whose
    per-opcode chains are the linked lists of the code; C25 to C27. The fuel of a chain search is the
    number of references there can be, more than a chain in order has.
  \<^item> \<^verbatim>\<open>LjFold\<close>: the folding engine on integer instructions: the rules, the dispatch by the most specific
    key, the retries and common subexpression elimination. \<^verbatim>\<open>LjFoldSem\<close>: what an instruction means,
    independently of the engine. \<^verbatim>\<open>LjFoldOps\<close>, \<^verbatim>\<open>LjFoldKrules\<close>, \<^verbatim>\<open>LjFoldRules\<close>, \<^verbatim>\<open>LjFoldAssoc\<close>,
    \<^verbatim>\<open>LjFoldSound\<close>: each rule is sound. \<^verbatim>\<open>LjFoldEng\<close>, \<^verbatim>\<open>LjFoldMain\<close>, \<^verbatim>\<open>LjFoldProps\<close>: the engine is sound
    for the candidates that \<open>pre_fold\<close> admits, which are not divisions, powers and bounds checks, nor
    modulo, logical right shifts and rotations on 64 bits; two defects of the code that theorems
    exhibit are among the reasons; C28 to C31. A retry costs one unit of
    fuel. \<^verbatim>\<open>LjFoldTerm\<close>: every retry makes the instruction smaller in a lexicographic measure, so
    there is always enough fuel; C32.
  \<^item> \<^verbatim>\<open>LjStrfmt\<close>, \<^verbatim>\<open>LjStrfmtProps\<close>: parsing of formats and the conversions of integers, characters and
    strings; C33 to C36.
  \<^item> \<^verbatim>\<open>LjLex\<close>, \<^verbatim>\<open>LjLexProps\<close>: the scanner over input that comes in blocks; it reads back what the quoting
    conversion writes, and it ends on every input; C37, C38.

  \<^bold>\<open>Interaction.\<close> The buffer theorems feed the dump, the formatting and the lexer; the table theorems the
  template tables of a dump; the character table the formatting and the lexer; the generator the
  seeding of the string hashes; the IR invariant and the arithmetic the folding engine. C15 and C37
  are the properties that span components: dumps with tables inside, and quoting with lexing.

  \<^bold>\<open>Not modelled.\<close> The interpreter and the machine code backends are assembly or produce it. The parser,
  the recorder and the trace optimisations other than folding work on states that need the whole VM
  (live stacks, nested functions, snapshots). The garbage collector and the allocator work on raw
  memory; memory exhaustion is modelled where the code itself checks a limit. Conversions between
  decimal strings and floating point numbers need a theory of IEEE numbers; so do the folding rules on
  numbers. The FFI calls foreign code. The library functions are glue over the C API. The strings in
  error messages, the statistics counters and the assertions of debug builds are left out.
\<close>

end
